(* ===== verification/Prelude.thy ===== *)
theory Prelude
  imports Main "HOL-Library.Word" "HOL-Library.Code_Target_Nat"
begin

text \<open>
  Shared vocabulary of the development: the machine types of the Go source, byte slices,
  big-endian integers (\<^verbatim>\<open>encoding/binary\<close>), instants (\<^verbatim>\<open>time.Time\<close>) and the generic lemmas
  the components use.

  Conventions.  A Go slice that is only read is a list; a slice that is written
  is a list passed in and returned.  \<^verbatim>\<open>uintN\<close> is an \<open>N word\<close>.  Go's 64-bit \<^verbatim>\<open>int\<close> is
  \<open>nat\<close> where the code keeps it non-negative (lengths, indexes) and \<open>int\<close> where a caller can
  pass any value; the sums involved stay far below \<open>2 ^ 63\<close>.  A Go function that returns an
  error returns \<open>error + result\<close>.
\<close>

unbundle bit_operations_syntax

named_theorems wire_simps \<open>encoding and decoding of machine integers\<close>
named_theorems slice_simps \<open>slices and in-place writes\<close>

type_synonym byte = "8 word"
type_synonym u16 = "16 word"
type_synonym u32 = "32 word"
type_synonym u64 = "64 word"
type_synonym bytes = "byte list"

text \<open>
  \<^verbatim>\<open>time.Time\<close> is the number of nanoseconds since the zero instant, so the zero value is \<open>0\<close>,
  \<^verbatim>\<open>IsZero\<close> is \<open>t = 0\<close>, \<^verbatim>\<open>Add\<close> is addition and \<^verbatim>\<open>Before\<close> is \<open><\<close>.
\<close>

type_synonym gotime = int
type_synonym duration = int

abbreviation (input) IsZero :: "gotime \<Rightarrow> bool" where
  "IsZero t \<equiv> t = 0"

definition Millisecond :: duration where
  "Millisecond = 1000000"

definition Second :: duration where
  "Second = 1000000000"

subsection \<open>Slices\<close>

text \<open>\<open>subslice i j xs\<close> is \<^verbatim>\<open>xs[i:j]\<close>.\<close>

definition subslice :: "nat \<Rightarrow> nat \<Rightarrow> 'a list \<Rightarrow> 'a list" where
  "subslice i j xs = take (j - i) (drop i xs)"

text \<open>\<open>copy_at i ys xs\<close> is \<open>xs\<close> after \<^verbatim>\<open>copy(xs[i:i+len(ys)], ys)\<close>.\<close>

definition copy_at :: "nat \<Rightarrow> 'a list \<Rightarrow> 'a list \<Rightarrow> 'a list" where
  "copy_at i ys xs = take i xs @ ys @ drop (i + length ys) xs"

lemma length_subslice [simp]: "j \<le> length xs \<Longrightarrow> length (subslice i j xs) = j - i"
  by (simp add: subslice_def)

lemma length_copy_at [simp]: "i + length ys \<le> length xs \<Longrightarrow> length (copy_at i ys xs) = length xs"
  by (simp add: copy_at_def)

lemma nth_subslice [simp]: "i + k < j \<Longrightarrow> j \<le> length xs \<Longrightarrow> subslice i j xs ! k = xs ! (i + k)"
  by (simp add: subslice_def)

lemma nth_copy_at:
  assumes "i + length ys \<le> length xs" and "k < length xs"
  shows "copy_at i ys xs ! k = (if i \<le> k \<and> k < i + length ys then ys ! (k - i) else xs ! k)"
  using assms by (auto simp: copy_at_def nth_append)

lemma copy_at_mid [slice_simps]:
  "length pre = i \<Longrightarrow> length old = length ys \<Longrightarrow> copy_at i ys (pre @ old @ post) = pre @ ys @ post"
  by (simp add: copy_at_def)

lemma split_at:
  assumes "n \<le> length xs"
  obtains ys zs where "xs = ys @ zs" and "length ys = n"
  using assms that [of "take n xs" "drop n xs"] by simp

lemma subslice_copy_at_same [slice_simps]:
  "i + length ys \<le> length xs \<Longrightarrow> subslice i (i + length ys) (copy_at i ys xs) = ys"
  by (simp add: subslice_def copy_at_def)

lemma subslice_copy_at_disjoint:
  assumes "i + length ys \<le> length xs" and "b \<le> length xs" and "b \<le> i \<or> i + length ys \<le> a"
  shows "subslice a b (copy_at i ys xs) = subslice a b xs"
  using assms by (intro nth_equalityI) (auto simp: nth_copy_at)

lemma subslice_0_length [simp]: "subslice 0 (length xs) xs = xs"
  by (simp add: subslice_def)

lemma subslice_append: "i \<le> j \<Longrightarrow> j \<le> k \<Longrightarrow> subslice i j xs @ subslice j k xs = subslice i k xs"
proof -
  assume "i \<le> j" "j \<le> k"
  then have "take (k - i) (drop i xs) = take ((j - i) + (k - j)) (drop i xs)" by simp
  also have "\<dots> = take (j - i) (drop i xs) @ take (k - j) (drop (j - i) (drop i xs))"
    by (rule take_add)
  finally show ?thesis using \<open>i \<le> j\<close> by (simp add: subslice_def)
qed

subsection \<open>Big-endian integers\<close>

text \<open>\<^verbatim>\<open>binary.BigEndian.Uint16\<close>, \<^verbatim>\<open>PutUint16\<close>, \<^verbatim>\<open>Uint32\<close> and \<^verbatim>\<open>PutUint32\<close>.\<close>

definition Uint16 :: "bytes \<Rightarrow> u16" where
  "Uint16 b = push_bit 8 (ucast (b ! 0)) OR ucast (b ! 1)"

definition PutUint16 :: "u16 \<Rightarrow> bytes" where
  "PutUint16 v = [ucast (drop_bit 8 v), ucast v]"

definition Uint32 :: "bytes \<Rightarrow> u32" where
  "Uint32 b = push_bit 24 (ucast (b ! 0)) OR push_bit 16 (ucast (b ! 1)) OR
     push_bit 8 (ucast (b ! 2)) OR ucast (b ! 3)"

definition PutUint32 :: "u32 \<Rightarrow> bytes" where
  "PutUint32 v = [ucast (drop_bit 24 v), ucast (drop_bit 16 v), ucast (drop_bit 8 v), ucast v]"

lemma length_PutUint16 [simp]: "length (PutUint16 v) = 2"
  by (simp add: PutUint16_def)

lemma length_PutUint32 [simp]: "length (PutUint32 v) = 4"
  by (simp add: PutUint32_def)

lemma bit_u8_high [simp]: "bit (x :: byte) (8 + n) = False" "bit x (16 + n) = False" "bit x (24 + n) = False"
  by (auto dest: bit_imp_le_length)

lemma Uint16_PutUint16 [simp, wire_simps]: "Uint16 (PutUint16 v) = v"
  by (rule bit_word_eqI) (auto simp: Uint16_def PutUint16_def bit_simps)

lemma Uint32_PutUint32 [simp, wire_simps]: "Uint32 (PutUint32 v) = v"
proof (rule bit_word_eqI)
  fix n assume "n < LENGTH(32)"
  then consider "n < 8" | "8 \<le> n" "n < 16" | "16 \<le> n" "n < 24" | "24 \<le> n" "n < 32"
    by fastforce
  then show "bit (Uint32 (PutUint32 v)) n = bit v n"
    by cases (auto simp: Uint32_def PutUint32_def bit_simps)
qed

lemma PutUint16_Uint16 [wire_simps]: "PutUint16 (Uint16 [a, b]) = [a, b]"
  by (auto simp: Uint16_def PutUint16_def bit_simps intro!: bit_word_eqI)

lemma PutUint32_Uint32 [wire_simps]: "PutUint32 (Uint32 [a, b, c, d]) = [a, b, c, d]"
  by (auto simp: Uint32_def PutUint32_def bit_simps intro!: bit_word_eqI)

lemma list_eq_nth2: "length xs = 2 \<Longrightarrow> xs = [xs ! 0, xs ! 1]"
  by (cases xs; cases "tl xs") (auto simp: length_Suc_conv numeral_2_eq_2)

lemma list_eq_nth4: "length xs = 4 \<Longrightarrow> xs = [xs ! 0, xs ! 1, xs ! 2, xs ! 3]"
  by (auto simp: length_Suc_conv numeral_eq_Suc)

lemma PutUint16_Uint16_list: "length xs = 2 \<Longrightarrow> PutUint16 (Uint16 xs) = xs"
  by (subst (1 2) list_eq_nth2) (simp_all add: PutUint16_Uint16)

lemma PutUint32_Uint32_list: "length xs = 4 \<Longrightarrow> PutUint32 (Uint32 xs) = xs"
  by (subst (1 2) list_eq_nth4) (simp_all add: PutUint32_Uint32)

lemma unat_u16_less [simp]: "unat (x :: u16) < 65536"
  using unsigned_less [of x] by simp

lemma unat_u8_less [simp]: "unat (x :: byte) < 256"
  using unsigned_less [of x] by simp

lemma unat_of_nat_u16 [simp]: "n < 65536 \<Longrightarrow> unat (of_nat n :: u16) = n"
  by (simp add: unat_of_nat take_bit_eq_mod)

lemma unat_of_nat_u8 [simp]: "n < 256 \<Longrightarrow> unat (of_nat n :: byte) = n"
  by (simp add: unat_of_nat take_bit_eq_mod)

subsection \<open>Options\<close>

lemma option_ext: "(\<And>j. x = Some j \<longleftrightarrow> y = Some j) \<Longrightarrow> x = y"
  by (metis not_None_eq)

lemma uint_of_int_u64: "0 \<le> x \<Longrightarrow> x < 2 ^ 64 \<Longrightarrow> uint (of_int x :: u64) = x"
  by (simp add: uint_word_of_int_eq take_bit_int_eq_self)

end
