(* ===== verification/Netip.thy ===== *)
theory Netip
  imports Prelude
begin

text \<open>
  The part of Go's standard package \<^verbatim>\<open>net/netip\<close> that the sources call: addresses, zones, the
  predicates on address classes, and prefixes with \<^verbatim>\<open>Masked\<close>.  The predicates on classes unmap
  an IPv4-mapped IPv6 address first, as the library does.
\<close>

datatype addr =
    AddrInvalid
  | Addr4 bytes
  | Addr6 bytes string

definition addr_wf :: "addr \<Rightarrow> bool" where
  "addr_wf a = (case a of AddrInvalid \<Rightarrow> True | Addr4 b \<Rightarrow> length b = 4 | Addr6 b _ \<Rightarrow> length b = 16)"

definition AddrFrom4 :: "bytes \<Rightarrow> addr" where
  "AddrFrom4 b = Addr4 b"

definition AddrFrom16 :: "bytes \<Rightarrow> addr" where
  "AddrFrom16 b = Addr6 b []"

definition addr_IsValid :: "addr \<Rightarrow> bool" where
  "addr_IsValid a = (a \<noteq> AddrInvalid)"

definition Is4 :: "addr \<Rightarrow> bool" where
  "Is4 a = (case a of Addr4 _ \<Rightarrow> True | _ \<Rightarrow> False)"

definition Is6 :: "addr \<Rightarrow> bool" where
  "Is6 a = (case a of Addr6 _ _ \<Rightarrow> True | _ \<Rightarrow> False)"

definition Zone :: "addr \<Rightarrow> string" where
  "Zone a = (case a of Addr6 _ z \<Rightarrow> z | _ \<Rightarrow> [])"

definition Is4In6 :: "addr \<Rightarrow> bool" where
  "Is4In6 a = (case a of Addr6 b _ \<Rightarrow> take 12 b = replicate 10 0 @ [255, 255] | _ \<Rightarrow> False)"

definition Unmap :: "addr \<Rightarrow> addr" where
  "Unmap a = (case a of Addr6 b _ \<Rightarrow> if Is4In6 a then Addr4 (drop 12 b) else a | _ \<Rightarrow> a)"

text \<open>\<^verbatim>\<open>As4\<close> is only called on an IPv4 address and \<^verbatim>\<open>As16\<close> only on an IPv6 address.\<close>

definition As4 :: "addr \<Rightarrow> bytes" where
  "As4 a = (case a of Addr4 b \<Rightarrow> b | Addr6 b _ \<Rightarrow> drop 12 b | AddrInvalid \<Rightarrow> [])"

definition As16 :: "addr \<Rightarrow> bytes" where
  "As16 a = (case a of Addr6 b _ \<Rightarrow> b | Addr4 b \<Rightarrow> replicate 10 0 @ [255, 255] @ b | AddrInvalid \<Rightarrow> replicate 16 0)"

definition IsLinkLocalUnicast :: "addr \<Rightarrow> bool" where
  "IsLinkLocalUnicast a = (case Unmap a of
       Addr4 b \<Rightarrow> b ! 0 = 169 \<and> b ! 1 = 254
     | Addr6 b _ \<Rightarrow> Uint16 b AND 0xffc0 = 0xfe80
     | AddrInvalid \<Rightarrow> False)"

definition IsMulticast :: "addr \<Rightarrow> bool" where
  "IsMulticast a = (case Unmap a of
       Addr4 b \<Rightarrow> b ! 0 AND 0xf0 = 0xe0
     | Addr6 b _ \<Rightarrow> b ! 0 = 0xff
     | AddrInvalid \<Rightarrow> False)"

definition IsLoopback :: "addr \<Rightarrow> bool" where
  "IsLoopback a = (case Unmap a of
       Addr4 b \<Rightarrow> b ! 0 = 127
     | Addr6 b _ \<Rightarrow> b = replicate 15 0 @ [1]
     | AddrInvalid \<Rightarrow> False)"

definition IsPrivate :: "addr \<Rightarrow> bool" where
  "IsPrivate a = (case Unmap a of
       Addr4 b \<Rightarrow> b ! 0 = 10 \<or> (b ! 0 = 172 \<and> b ! 1 AND 0xf0 = 16) \<or> (b ! 0 = 192 \<and> b ! 1 = 168)
     | Addr6 b _ \<Rightarrow> b ! 0 AND 0xfe = 0xfc
     | AddrInvalid \<Rightarrow> False)"

definition IsUnspecified :: "addr \<Rightarrow> bool" where
  "IsUnspecified a = (a = Addr4 [0, 0, 0, 0] \<or> a = Addr6 (replicate 16 0) [])"

definition IsGlobalUnicast :: "addr \<Rightarrow> bool" where
  "IsGlobalUnicast a =
     (a \<noteq> AddrInvalid \<and>
      (let a' = Unmap a in
       \<not> (Is4 a' \<and> (a' = Addr4 [0, 0, 0, 0] \<or> a' = Addr4 [255, 255, 255, 255])) \<and>
       a' \<noteq> Addr6 (replicate 16 0) [] \<and> \<not> IsLoopback a' \<and> \<not> IsMulticast a' \<and>
       \<not> IsLinkLocalUnicast a'))"

subsection \<open>Prefixes\<close>

record prefix =
  px_Addr :: addr
  px_Bits :: int

definition BitLen :: "addr \<Rightarrow> int" where
  "BitLen a = (case a of AddrInvalid \<Rightarrow> 0 | Addr4 _ \<Rightarrow> 32 | Addr6 _ _ \<Rightarrow> 128)"

definition prefix_IsValid :: "prefix \<Rightarrow> bool" where
  "prefix_IsValid p = (px_Addr p \<noteq> AddrInvalid \<and> 0 \<le> px_Bits p \<and> px_Bits p \<le> BitLen (px_Addr p))"

text \<open>\<open>mask_bytes n b\<close> keeps the first \<open>n\<close> bits of \<open>b\<close> and clears the others.\<close>

fun mask_bytes :: "nat \<Rightarrow> bytes \<Rightarrow> bytes" where
  "mask_bytes n [] = []"
| "mask_bytes n (b # bs) = (if 8 \<le> n then b else b AND push_bit (8 - n) (- 1)) # mask_bytes (n - 8) bs"

definition Masked :: "prefix \<Rightarrow> prefix" where
  "Masked p = (case px_Addr p of
       AddrInvalid \<Rightarrow> p
     | Addr4 b \<Rightarrow> p\<lparr>px_Addr := Addr4 (mask_bytes (nat (px_Bits p)) b)\<rparr>
     | Addr6 b z \<Rightarrow> p\<lparr>px_Addr := Addr6 (mask_bytes (nat (px_Bits p)) b) z\<rparr>)"

lemma length_mask_bytes [simp]: "length (mask_bytes n b) = length b"
  by (induction n b rule: mask_bytes.induct) auto

lemma px_Bits_Masked [simp]: "px_Bits (Masked p) = px_Bits p"
  by (simp add: Masked_def split: addr.split)

lemma Is4_Masked [simp]: "Is4 (px_Addr (Masked p)) = Is4 (px_Addr p)"
  by (simp add: Masked_def Is4_def split: addr.split)

end
