(* ===== verification/Carrier.thy ===== *)
theory Carrier
  imports Netip
begin

text \<open>
  \<^verbatim>\<open>internal/core/carrier\<close>: DATA records (\<^verbatim>\<open>record.go\<close>) and the hidden IPv6 envelope
  (\<^verbatim>\<open>envelope.go\<close>).  \<open>MarshalTo\<close> and \<open>MarshalEnvelopeTo\<close> take the destination buffer and return
  it as it is after the call, with the number of bytes written.
\<close>

subsection \<open>DATA records\<close>

definition HeaderSize :: nat where "HeaderSize = 12"
definition minRecordSize :: nat where "minRecordSize = HeaderSize + 1"
definition maxUint16 :: nat where "maxUint16 = 2 ^ 16 - 1"

datatype carrier_error =
    ErrHeaderTooShort
  | ErrRecordTruncated
  | ErrInvalidRecordLength
  | ErrInvalidFragment
  | ErrInvalidDataSessionID
  | ErrInvalidRange
  | ErrShortBuffer

record Header =
  hd_FragmentIndex :: byte
  hd_FragmentCount :: byte
  hd_LaneID :: byte
  hd_DataSessionID :: u16
  hd_LaneSequence :: u32
  hd_Offset :: u16

record Record =
  rc_Header :: Header
  rc_Data :: bytes

definition validate :: "Header \<Rightarrow> nat \<Rightarrow> carrier_error option" where
  "validate header dataLen =
     (if hd_FragmentCount header < 1 \<or> hd_FragmentCount header > 16 \<or>
         hd_FragmentIndex header \<ge> hd_FragmentCount header then Some ErrInvalidFragment
      else if hd_DataSessionID header = 0 then Some ErrInvalidDataSessionID
      else if dataLen < 1 \<or> dataLen > maxUint16 - HeaderSize then Some ErrInvalidRecordLength
      else if unat (hd_Offset header) + dataLen > maxUint16 then Some ErrInvalidRange
      else None)"

text \<open>The bytes a header is written as, \<^verbatim>\<open>dst[0:12]\<close>.\<close>

definition header_bytes :: "Header \<Rightarrow> nat \<Rightarrow> bytes" where
  "header_bytes header recordLen =
     PutUint16 (of_nat recordLen) @
     [push_bit 4 (hd_FragmentIndex header) OR (hd_FragmentCount header - 1), hd_LaneID header] @
     PutUint16 (hd_DataSessionID header) @
     PutUint32 (hd_LaneSequence header) @
     PutUint16 (hd_Offset header)"

definition MarshalTo :: "bytes \<Rightarrow> Header \<Rightarrow> bytes \<Rightarrow> carrier_error + bytes \<times> nat" where
  "MarshalTo dst header data =
     (case validate header (length data) of
        Some err \<Rightarrow> Inl err
      | None \<Rightarrow>
          (let recordLen = HeaderSize + length data in
           if length dst < recordLen then Inl ErrShortBuffer
           else Inr (copy_at HeaderSize data (copy_at 0 (header_bytes header recordLen) dst), recordLen)))"

definition DecodeRecord :: "bytes \<Rightarrow> carrier_error + Record \<times> nat" where
  "DecodeRecord src =
     (if length src < HeaderSize then Inl ErrHeaderTooShort
      else
        (let recordLen = unat (Uint16 (subslice 0 2 src)) in
         if recordLen < minRecordSize then Inl ErrInvalidRecordLength
         else if recordLen > length src then Inl ErrRecordTruncated
         else
           (let fragment = src ! 2;
                header = \<lparr>hd_FragmentIndex = drop_bit 4 fragment,
                          hd_FragmentCount = (fragment AND 0x0f) + 1,
                          hd_LaneID = src ! 3,
                          hd_DataSessionID = Uint16 (subslice 4 6 src),
                          hd_LaneSequence = Uint32 (subslice 6 10 src),
                          hd_Offset = Uint16 (subslice 10 12 src)\<rparr>;
                data = subslice HeaderSize recordLen src
            in case validate header (length data) of
                 Some err \<Rightarrow> Inl err
               | None \<Rightarrow> Inr (\<lparr>rc_Header = header, rc_Data = data\<rparr>, recordLen))))"

lemma DecodeRecord_consumes:
  "DecodeRecord src = Inr (r, n) \<Longrightarrow> minRecordSize \<le> n \<and> n \<le> length src"
  by (auto simp: DecodeRecord_def Let_def split: if_splits option.splits)

text \<open>
  \<^verbatim>\<open>Parse\<close> with its visitor: the visitor is a function on the state it captures and may return an
  error of its own (\<open>Inr\<close>), which stops the walk just as an error of the decoder (\<open>Inl\<close>) does.
\<close>

function parse_loop ::
    "bytes \<Rightarrow> ('s \<Rightarrow> Record \<Rightarrow> 's \<times> 'e option) \<Rightarrow> 's \<Rightarrow> 's \<times> (carrier_error + 'e) option" where
  "parse_loop payload visit s =
     (if length payload > 0 then
        (case DecodeRecord payload of
           Inl err \<Rightarrow> (s, Some (Inl err))
         | Inr (record, consumed) \<Rightarrow>
             (case visit s record of
                (s', Some err) \<Rightarrow> (s', Some (Inr err))
              | (s', None) \<Rightarrow> parse_loop (drop consumed payload) visit s'))
      else (s, None))"
  by pat_completeness auto
termination
  by (relation "measure (\<lambda>(payload, visit, s). length payload)")
     (auto dest!: DecodeRecord_consumes simp: minRecordSize_def HeaderSize_def)

declare parse_loop.simps [simp del]

definition Parse ::
    "bytes \<Rightarrow> ('s \<Rightarrow> Record \<Rightarrow> 's \<times> 'e option) \<Rightarrow> 's \<Rightarrow> 's \<times> (carrier_error + 'e) option" where
  "Parse payload visit s =
     (if length payload = 0 then (s, Some (Inl ErrHeaderTooShort)) else parse_loop payload visit s)"

subsection \<open>The envelope\<close>

definition IPv6HeaderSize :: nat where "IPv6HeaderSize = 40"
definition CarrierNextHeader :: byte where "CarrierNextHeader = 253"
definition carrierHopLimit :: byte where "carrierHopLimit = 64"

datatype envelope_error =
    ErrCarrierTooShort
  | ErrCarrierVersion
  | ErrCarrierNextHeader
  | ErrCarrierPayloadSize
  | ErrCarrierSource
  | ErrCarrierDestination
  | ErrCarrierAddress
  | ErrCarrierPayloadLimit
  | ErrEnvelopeShortBuffer

record Envelope =
  en_Source :: addr
  en_Destination :: addr
  en_Payload :: bytes

definition validateCarrierAddress :: "addr \<Rightarrow> envelope_error option" where
  "validateCarrierAddress address =
     (if \<not> Is6 address \<or> Zone address \<noteq> [] then Some ErrCarrierAddress else None)"

definition MarshalEnvelopeTo :: "bytes \<Rightarrow> addr \<Rightarrow> addr \<Rightarrow> bytes \<Rightarrow> envelope_error + bytes \<times> nat" where
  "MarshalEnvelopeTo dst source destination payload =
     (case validateCarrierAddress source of
        Some err \<Rightarrow> Inl err
      | None \<Rightarrow>
     (case validateCarrierAddress destination of
        Some err \<Rightarrow> Inl err
      | None \<Rightarrow>
          (if length payload > maxUint16 then Inl ErrCarrierPayloadLimit
           else
             (let required = IPv6HeaderSize + length payload in
              if length dst < required then Inl ErrEnvelopeShortBuffer
              else
                (let dst1 = copy_at IPv6HeaderSize payload dst;
                     dst2 = copy_at 0 (PutUint32 (push_bit 28 6)) dst1;
                     dst3 = copy_at 4 (PutUint16 (of_nat (length payload))) dst2;
                     dst4 = dst3[6 := CarrierNextHeader, 7 := carrierHopLimit];
                     dst5 = copy_at 8 (As16 source) dst4;
                     dst6 = copy_at 24 (As16 destination) dst5
                 in Inr (dst6, required))))))"

definition DecodeEnvelope :: "bytes \<Rightarrow> addr \<Rightarrow> envelope_error + Envelope" where
  "DecodeEnvelope packet expectedDestination =
     (case validateCarrierAddress expectedDestination of
        Some err \<Rightarrow> Inl err
      | None \<Rightarrow>
          (if length packet < IPv6HeaderSize then Inl ErrCarrierTooShort
           else if drop_bit 4 (packet ! 0) \<noteq> 6 then Inl ErrCarrierVersion
           else if packet ! 6 \<noteq> CarrierNextHeader then Inl ErrCarrierNextHeader
           else if unat (Uint16 (subslice 4 6 packet)) \<noteq> length packet - IPv6HeaderSize
           then Inl ErrCarrierPayloadSize
           else
             (let source = AddrFrom16 (subslice 8 24 packet) in
              if \<not> IsLinkLocalUnicast source then Inl ErrCarrierSource
              else
                (let destination = AddrFrom16 (subslice 24 40 packet) in
                 if destination \<noteq> expectedDestination then Inl ErrCarrierDestination
                 else Inr \<lparr>en_Source = source, en_Destination = destination,
                           en_Payload = drop IPv6HeaderSize packet\<rparr>))))"

definition ParseEnvelope :: "bytes \<Rightarrow> addr \<Rightarrow> addr \<Rightarrow> envelope_error + Envelope" where
  "ParseEnvelope packet expectedSource expectedDestination =
     (case validateCarrierAddress expectedSource of
        Some err \<Rightarrow> Inl err
      | None \<Rightarrow>
     (case DecodeEnvelope packet expectedDestination of
        Inl err \<Rightarrow> Inl err
      | Inr envelope \<Rightarrow>
          (if en_Source envelope \<noteq> expectedSource then Inl ErrCarrierSource else Inr envelope)))"

subsection \<open>Encoding and decoding one record\<close>

lemmas carrier_consts = HeaderSize_def minRecordSize_def maxUint16_def IPv6HeaderSize_def

text \<open>The encoding of a record: what \<open>MarshalTo\<close> leaves in the first \<open>n\<close> bytes of its buffer.\<close>

definition encode :: "Header \<Rightarrow> bytes \<Rightarrow> bytes" where
  "encode h data = header_bytes h (HeaderSize + length data) @ data"

lemma length_header_bytes [simp]: "length (header_bytes h n) = 12"
  by (simp add: header_bytes_def)

lemma length_encode [simp]: "length (encode h data) = HeaderSize + length data"
  by (simp add: encode_def HeaderSize_def)

lemma less16_high_bits: "(x :: byte) < 16 \<Longrightarrow> 4 \<le> n \<Longrightarrow> \<not> bit x n"
proof -
  assume "x < 16" and n: "4 \<le> n"
  then have "x AND mask 4 = x" by (intro less_mask_eq) simp
  then have "bit x n = bit (x AND mask 4) n" by simp
  also have "\<dots> = False" using n by (simp add: bit_simps)
  finally show ?thesis by simp
qed

lemma bit_0x0f: "bit (0x0f :: int) n \<longleftrightarrow> n < 4"
proof -
  have "(0x0f :: int) = mask 4" by (simp add: mask_eq_exp_minus_1)
  then have "bit (0x0f :: int) n = bit (mask 4 :: int) n" by (rule arg_cong)
  also have "\<dots> \<longleftrightarrow> n < 4" by (simp only: bit_mask_iff possible_bit_int simp_thms)
  finally show ?thesis .
qed

lemma nibble_high [wire_simps]:
  "(x :: byte) < 16 \<Longrightarrow> y < 16 \<Longrightarrow> drop_bit 4 (push_bit 4 x OR y) = x"
  by (rule bit_word_eqI, use less16_high_bits [of x] less16_high_bits [of y] in
      \<open>simp add: bit_or_iff bit_push_bit_iff bit_drop_bit_eq\<close>) (meson not_le)

lemma nibble_low [wire_simps]:
  "y < 16 \<Longrightarrow> (push_bit 4 x OR y) AND 0x0f = (y :: byte)"
  by (rule bit_word_eqI, use less16_high_bits [of y] in
      \<open>simp add: bit_or_iff bit_and_iff bit_push_bit_iff bit_0x0f\<close>) (meson not_le)

lemma nibble_join: "push_bit 4 (drop_bit 4 f) OR (f AND 0x0f) = (f :: byte)"
  by (rule bit_word_eqI)
     (auto simp: bit_or_iff bit_and_iff bit_push_bit_iff bit_drop_bit_eq bit_0x0f)

lemma word_less_1: "(x :: byte) < 1 \<longleftrightarrow> x = 0" "1 \<le> x \<longleftrightarrow> x \<noteq> 0"
  by unat_arith+

lemma validate_None:
  "validate h n = None \<longleftrightarrow>
     1 \<le> hd_FragmentCount h \<and> hd_FragmentCount h \<le> 16 \<and> hd_FragmentIndex h < hd_FragmentCount h \<and>
     hd_DataSessionID h \<noteq> 0 \<and> 1 \<le> n \<and> n + HeaderSize \<le> maxUint16 \<and>
     unat (hd_Offset h) + n \<le> maxUint16"
  by (auto simp: validate_def carrier_consts not_le not_less word_less_1)

lemma validate_nibbles:
  assumes "validate h n = None"
  shows "hd_FragmentIndex h < 16" and "hd_FragmentCount h - 1 < 16"
proof -
  from assms have c: "1 \<le> hd_FragmentCount h" "hd_FragmentCount h \<le> 16"
    and i: "hd_FragmentIndex h < hd_FragmentCount h"
    by (simp_all add: validate_None)
  from c i show "hd_FragmentIndex h < 16" by (rule_tac less_le_trans)
  from c show "hd_FragmentCount h - 1 < 16" by unat_arith
qed

lemma MarshalTo_Inr:
  "MarshalTo dst h data = Inr (dst', n) \<longleftrightarrow>
     validate h (length data) = None \<and> n = HeaderSize + length data \<and> n \<le> length dst \<and>
     dst' = encode h data @ drop n dst"
  by (auto simp: MarshalTo_def Let_def encode_def copy_at_def HeaderSize_def add.commute split: option.splits)

lemma Uint16_pair [simp]: "Uint16 [ucast (drop_bit 8 v), ucast v] = v"
  using Uint16_PutUint16 [of v] by (simp add: PutUint16_def)

lemma Uint32_quad [simp]:
  "Uint32 [ucast (drop_bit 24 v), ucast (drop_bit 16 v), ucast (drop_bit 8 v), ucast v] = v"
  using Uint32_PutUint32 [of v] by (simp add: PutUint32_def)

lemma DecodeRecord_encode:
  assumes "validate h (length data) = None"
  shows "DecodeRecord (encode h data @ rest) =
    Inr (\<lparr>rc_Header = h, rc_Data = data\<rparr>, HeaderSize + length data)"
proof -
  note nib = validate_nibbles [OF assms]
  from assms have len: "1 \<le> length data" "12 + length data < 65536"
    by (auto simp: validate_None carrier_consts)
  have reclen: "unat (12 + of_nat (length data) :: u16) = 12 + length data"
    using len(2) unat_of_nat_u16 [of "12 + length data"] by simp
  have "data \<noteq> []" using len(1) by auto
  then show ?thesis
    using assms nibble_high [OF nib] nibble_low [OF nib(2), of "hd_FragmentIndex h"]
    by (cases h) (simp add: reclen DecodeRecord_def encode_def header_bytes_def Let_def subslice_def
        carrier_consts PutUint16_def PutUint32_def del: drop_bit_or)
qed

text \<open>Decoding is canonical: the decoded record re-encodes to the bytes it was read from.\<close>

lemma list_split12:
  assumes "12 \<le> length xs"
  obtains a b c d e f g h i j k l ys where "xs = [a, b, c, d, e, f, g, h, i, j, k, l] @ ys"
proof -
  have "xs = take 12 xs @ drop 12 xs" by simp
  moreover obtain a b c d e f g h i j k l where "take 12 xs = [a, b, c, d, e, f, g, h, i, j, k, l]"
    using assms by (auto simp: numeral_eq_Suc Suc_le_length_iff)
  ultimately show thesis using that by metis
qed

lemma encode_DecodeRecord:
  assumes "DecodeRecord src = Inr (r, n)"
  shows "encode (rc_Header r) (rc_Data r) = take n src"
    and "validate (rc_Header r) (length (rc_Data r)) = None"
    and "n = HeaderSize + length (rc_Data r)"
proof -
  have "12 \<le> length src"
    using assms by (auto simp: DecodeRecord_def HeaderSize_def split: if_splits)
  then obtain a b c d e f g h i j k l ys where
    src: "src = [a, b, c, d, e, f, g, h, i, j, k, l] @ ys" by (rule list_split12)
  have n: "n = unat (Uint16 [a, b])" and le: "13 \<le> n" "n \<le> length src"
    and r: "r = \<lparr>rc_Header = \<lparr>hd_FragmentIndex = drop_bit 4 c, hd_FragmentCount = (c AND 0x0f) + 1,
        hd_LaneID = d, hd_DataSessionID = Uint16 [e, f], hd_LaneSequence = Uint32 [g, h, i, j],
        hd_Offset = Uint16 [k, l]\<rparr>, rc_Data = take (n - 12) ys\<rparr>"
    using assms unfolding src
    by (auto simp: DecodeRecord_def Let_def subslice_def carrier_consts split: if_splits option.splits)
  show "validate (rc_Header r) (length (rc_Data r)) = None"
    using assms by (auto simp: DecodeRecord_def Let_def split: if_splits option.splits)
  show len: "n = HeaderSize + length (rc_Data r)"
    using le by (simp add: r src HeaderSize_def)
  have "(of_nat n :: u16) = Uint16 [a, b]" by (simp add: n)
  then have "PutUint16 (of_nat (HeaderSize + length (rc_Data r))) = [a, b]"
    by (simp add: len [symmetric] wire_simps)
  moreover have "take n src = [a, b, c, d, e, f, g, h, i, j, k, l] @ take (n - 12) ys"
    using le by (simp add: src take_Cons' numeral_eq_Suc)
  ultimately show "encode (rc_Header r) (rc_Data r) = take n src"
    by (simp add: encode_def header_bytes_def r wire_simps nibble_join)
qed

subsection \<open>Whole payloads\<close>

text \<open>A sequence of records and its encoding; \<open>visit_all\<close> is a visitor run over it in order.\<close>

definition encode_records :: "Record list \<Rightarrow> bytes" where
  "encode_records rs = concat (map (\<lambda>r. encode (rc_Header r) (rc_Data r)) rs)"

definition record_ok :: "Record \<Rightarrow> bool" where
  "record_ok r \<longleftrightarrow> validate (rc_Header r) (length (rc_Data r)) = None"

fun visit_all :: "('s \<Rightarrow> Record \<Rightarrow> 's \<times> 'e option) \<Rightarrow> 's \<Rightarrow> Record list \<Rightarrow> 's \<times> 'e option" where
  "visit_all visit s [] = (s, None)"
| "visit_all visit s (r # rs) =
     (case visit s r of (s', Some err) \<Rightarrow> (s', Some err) | (s', None) \<Rightarrow> visit_all visit s' rs)"

lemma encode_records_Nil [simp]: "encode_records [] = []"
  by (simp add: encode_records_def)

lemma encode_records_Cons [simp]:
  "encode_records (r # rs) = encode (rc_Header r) (rc_Data r) @ encode_records rs"
  by (simp add: encode_records_def)

lemma encode_records_append [simp]: "encode_records (rs @ ss) = encode_records rs @ encode_records ss"
  by (simp add: encode_records_def)

lemma encode_records_eq_Nil [simp]: "encode_records rs = [] \<longleftrightarrow> rs = []"
proof (cases rs)
  case (Cons r rs')
  have "encode (rc_Header r) (rc_Data r) \<noteq> []"
    by (metis length_encode list.size(3) add_is_0 HeaderSize_def zero_neq_numeral)
  then show ?thesis using Cons by simp
qed simp

lemma parse_loop_encode:
  assumes "\<forall>r\<in>set rs. record_ok r"
  shows "parse_loop (encode_records rs) visit s = map_prod id (map_option Inr) (visit_all visit s rs)"
  using assms
proof (induction rs arbitrary: s)
  case Nil
  then show ?case by (simp add: parse_loop.simps)
next
  case (Cons r rs)
  have dec: "DecodeRecord (encode_records (r # rs)) = Inr (r, HeaderSize + length (rc_Data r))"
    using Cons.prems DecodeRecord_encode [of "rc_Header r" "rc_Data r" "encode_records rs"]
    by (simp add: record_ok_def)
  have rest: "drop (HeaderSize + length (rc_Data r)) (encode_records (r # rs)) = encode_records rs"
    by (simp add: drop_append)
  have ne: "0 < length (encode_records (r # rs))"
    by (metis encode_records_eq_Nil length_greater_0_conv list.distinct(1))
  show ?case
    using Cons ne
    by (subst parse_loop.simps)
       (auto simp: dec rest map_prod_def simp del: encode_records_Cons split: prod.split option.split)
qed

text \<open>
  Every payload a walk accepts is the encoding of a non-empty list of well-formed records:
  no byte is skipped and none is left over.
\<close>

lemma parse_loop_accepts:
  assumes "parse_loop payload visit s = (s', None)"
  shows "\<exists>rs. payload = encode_records rs \<and> (\<forall>r\<in>set rs. record_ok r) \<and> visit_all visit s rs = (s', None)"
  using assms
proof (induction payload visit s rule: parse_loop.induct)
  case (1 payload visit s)
  show ?case
  proof (cases "payload = []")
    case True
    with "1.prems" show ?thesis
      by (intro exI [of _ "[]"]) (simp add: parse_loop.simps)
  next
    case False
    with "1.prems" obtain r n s1 where dec: "DecodeRecord payload = Inr (r, n)"
      and v: "visit s r = (s1, None)" and rest: "parse_loop (drop n payload) visit s1 = (s', None)"
      by (subst (asm) parse_loop.simps) (auto split: sum.splits prod.splits option.splits)
    from "1.IH" [OF _ dec refl v [symmetric] refl rest] False
    obtain rs where rs: "drop n payload = encode_records rs" "\<forall>r\<in>set rs. record_ok r"
      "visit_all visit s1 rs = (s', None)" by auto
    have "payload = take n payload @ drop n payload" by simp
    then have "payload = encode_records (r # rs)"
      using encode_DecodeRecord(1) [OF dec] rs(1) by simp
    moreover have "record_ok r" using encode_DecodeRecord(2) [OF dec] by (simp add: record_ok_def)
    ultimately show ?thesis
      using rs v by (intro exI [of _ "r # rs"]) simp
  qed
qed

subsection \<open>Encoding and decoding an envelope\<close>

definition envelope_bytes :: "addr \<Rightarrow> addr \<Rightarrow> bytes \<Rightarrow> bytes" where
  "envelope_bytes source destination payload =
     [0x60, 0, 0, 0] @ PutUint16 (of_nat (length payload)) @ [CarrierNextHeader, carrierHopLimit] @
     As16 source @ As16 destination @ payload"

lemma PutUint32_version: "PutUint32 (push_bit 28 6) = [0x60, 0, 0, 0]"
  by (simp add: PutUint32_def)

lemma validateCarrierAddress_None:
  "validateCarrierAddress a = None \<longleftrightarrow> (\<exists>b. a = Addr6 b [])"
  by (auto simp: validateCarrierAddress_def Is6_def Zone_def split: addr.splits)

lemma length_envelope_bytes [simp]:
  assumes "addr_wf source" and "addr_wf destination"
    and "validateCarrierAddress source = None" and "validateCarrierAddress destination = None"
  shows "length (envelope_bytes source destination payload) = IPv6HeaderSize + length payload"
  using assms
  by (auto simp: envelope_bytes_def validateCarrierAddress_None addr_wf_def As16_def IPv6HeaderSize_def)

lemma split_envelope:
  assumes big: "40 + n \<le> length dst"
  obtains ver pl hl sr ds py rest where "dst = ver @ pl @ hl @ sr @ ds @ py @ rest"
    and "length ver = 4" and "length pl = 2" and "length hl = 2" and "length sr = 16"
    and "length ds = 16" and "length py = n"
proof -
  obtain ver r0 where d0: "dst = ver @ r0" and l0: "length ver = 4"
    by (rule split_at [of 4 dst]) (use big in simp)
  obtain pl r1 where d1: "r0 = pl @ r1" and l1: "length pl = 2"
    by (rule split_at [of 2 r0]) (use big d0 l0 in simp)
  obtain hl r2 where d2: "r1 = hl @ r2" and l2: "length hl = 2"
    by (rule split_at [of 2 r1]) (use big d0 l0 d1 l1 in simp)
  obtain sr r3 where d3: "r2 = sr @ r3" and l3: "length sr = 16"
    by (rule split_at [of 16 r2]) (use big d0 l0 d1 l1 d2 l2 in simp)
  obtain ds r4 where d4: "r3 = ds @ r4" and l4: "length ds = 16"
    by (rule split_at [of 16 r3]) (use big d0 l0 d1 l1 d2 l2 d3 l3 in simp)
  obtain py rest where d5: "r4 = py @ rest" and l5: "length py = n"
    by (rule split_at [of n r4]) (use big d0 l0 d1 l1 d2 l2 d3 l3 d4 l4 in simp)
  show thesis
    by (rule that [OF _ l0 l1 l2 l3 l4 l5]) (simp add: d0 d1 d2 d3 d4 d5)
qed

lemma envelope_writes:
  assumes "40 + length payload \<le> length dst" and "length src = 16" and "length dest = 16"
  shows "copy_at 24 dest (copy_at 8 src
      ((copy_at 4 (PutUint16 v) (copy_at 0 (PutUint32 (push_bit 28 6)) (copy_at 40 payload dst)))[6 := a, 7 := b])) =
    [0x60, 0, 0, 0] @ PutUint16 v @ [a, b] @ src @ dest @ payload @ drop (40 + length payload) dst"
proof -
  obtain ver pl hl sr ds py rest where dst: "dst = ver @ pl @ hl @ sr @ ds @ py @ rest"
    and l: "length ver = 4" "length pl = 2" "length hl = 2" "length sr = 16" "length ds = 16"
      "length py = length payload"
    by (rule split_envelope [OF assms(1)])
  let ?h = "[0x60, 0, 0, 0] @ PutUint16 v @ [a, b]"
  have "copy_at 40 payload dst = ver @ pl @ hl @ sr @ ds @ payload @ rest"
    using copy_at_mid [of "ver @ pl @ hl @ sr @ ds" 40 py payload rest] l by (simp add: dst)
  moreover have "copy_at 0 (PutUint32 (push_bit 28 6)) (ver @ q) = [0x60, 0, 0, 0] @ q" for q
    using copy_at_mid [of "[]" 0 ver "[0x60, 0, 0, 0]" q] l by (simp only: PutUint32_version) simp
  moreover have "copy_at 4 (PutUint16 v) ([0x60, 0, 0, 0] @ pl @ q) = [0x60, 0, 0, 0] @ PutUint16 v @ q" for q
    by (rule copy_at_mid) (simp_all add: l)
  moreover have "([0x60, 0, 0, 0] @ PutUint16 v @ hl @ q)[6 := a, 7 := b] = ?h @ q" for q
    using l(3) by (auto simp: PutUint16_def length_Suc_conv numeral_2_eq_2 eval_nat_numeral)
  moreover have "copy_at 8 src (?h @ sr @ q) = ?h @ src @ q" for q
    by (rule copy_at_mid) (simp_all add: l assms)
  moreover have "copy_at 24 dest ((?h @ src) @ ds @ q) = (?h @ src) @ dest @ q" for q
    by (rule copy_at_mid) (simp_all add: l assms)
  moreover have "drop (40 + length payload) dst = rest"
    using l by (simp add: dst)
  ultimately show ?thesis
    by (simp only: append_assoc)
qed

lemma MarshalEnvelopeTo_Inr:
  assumes "addr_wf source" and "addr_wf destination"
  shows "MarshalEnvelopeTo dst source destination payload = Inr (dst', n) \<longleftrightarrow>
    validateCarrierAddress source = None \<and> validateCarrierAddress destination = None \<and>
    length payload \<le> maxUint16 \<and> n = IPv6HeaderSize + length payload \<and> n \<le> length dst \<and>
    dst' = envelope_bytes source destination payload @ drop n dst"
proof -
  have len: "length (As16 a) = 16" if "addr_wf a" "validateCarrierAddress a = None" for a
    using that by (auto simp: validateCarrierAddress_None addr_wf_def As16_def)
  show ?thesis
    unfolding MarshalEnvelopeTo_def Let_def IPv6HeaderSize_def
    using envelope_writes [of payload dst "As16 source" "As16 destination" "of_nat (length payload)"
        CarrierNextHeader carrierHopLimit] len assms
    by (auto simp: envelope_bytes_def split: option.splits)
qed

lemma list_split16: "length xs = 16 \<Longrightarrow> length ys = 16 \<Longrightarrow>
    take 16 (drop 8 ([a, b, c, d] @ [e, f] @ [g, h] @ xs @ ys @ zs)) = xs \<and>
    take 16 (drop 24 ([a, b, c, d] @ [e, f] @ [g, h] @ xs @ ys @ zs)) = ys \<and>
    drop 40 ([a, b, c, d] @ [e, f] @ [g, h] @ xs @ ys @ zs) = zs"
  by (simp add: drop_append)

lemma DecodeEnvelope_envelope_bytes:
  assumes "addr_wf source" and "addr_wf destination"
    and "validateCarrierAddress source = None" and "validateCarrierAddress destination = None"
    and "length payload \<le> maxUint16" and "IsLinkLocalUnicast source"
  shows "DecodeEnvelope (envelope_bytes source destination payload) destination =
    Inr \<lparr>en_Source = source, en_Destination = destination, en_Payload = payload\<rparr>"
proof -
  from assms(1-4) obtain xs ys where a: "source = Addr6 xs []" "length xs = 16"
    "destination = Addr6 ys []" "length ys = 16"
    by (auto simp: validateCarrierAddress_None addr_wf_def)
  have bs: "envelope_bytes source destination payload =
      [0x60, 0, 0, 0] @ [ucast (drop_bit 8 (of_nat (length payload) :: u16)), ucast (of_nat (length payload) :: u16)] @
      [253, 64] @ xs @ ys @ payload" (is "_ = ?b")
    by (simp add: envelope_bytes_def a As16_def PutUint16_def CarrierNextHeader_def carrierHopLimit_def)
  have parts: "subslice 8 24 ?b = xs" "subslice 24 40 ?b = ys" "drop 40 ?b = payload"
    using list_split16 [OF a(2,4)] by (simp_all add: subslice_def)
  have plen: "unat (Uint16 (subslice 4 6 ?b)) = length payload"
    using assms(5) by (simp add: subslice_def maxUint16_def)
  show ?thesis
    unfolding bs DecodeEnvelope_def
    using assms(4,6) a parts plen
    by (simp add: IPv6HeaderSize_def CarrierNextHeader_def Let_def AddrFrom16_def)
qed

text \<open>What a decoded envelope guarantees about the packet it was read from.\<close>

lemma DecodeEnvelope_Inr:
  assumes "DecodeEnvelope packet expectedDestination = Inr env"
  shows "IPv6HeaderSize \<le> length packet" and "drop_bit 4 (packet ! 0) = 6"
    and "packet ! 6 = CarrierNextHeader" and "en_Payload env = drop IPv6HeaderSize packet"
    and "unat (Uint16 (subslice 4 6 packet)) = length (en_Payload env)"
    and "en_Source env = AddrFrom16 (subslice 8 24 packet)" and "IsLinkLocalUnicast (en_Source env)"
    and "en_Destination env = expectedDestination"
  using assms by (auto simp: DecodeEnvelope_def Let_def split: option.splits if_splits)

subsection \<open>Properties\<close>

definition sample_header :: Header where
  "sample_header = \<lparr>hd_FragmentIndex = 1, hd_FragmentCount = 3, hd_LaneID = 2, hd_DataSessionID = 0x0102,
     hd_LaneSequence = 0x0A0B0C0D, hd_Offset = 700\<rparr>"

text \<open>
  C23.  A DATA record written by \<open>MarshalTo\<close> is read back by \<open>DecodeRecord\<close> with the same header and
  data, whatever follows it in the buffer; the bytes behind the record are left as they were.
\<close>

theorem record_roundtrip:
  assumes "MarshalTo dst header data = Inr (dst', n)"
  shows "DecodeRecord dst' = Inr (\<lparr>rc_Header = header, rc_Data = data\<rparr>, n) \<and>
    drop n dst' = drop n dst \<and> length dst' = length dst"
  using assms DecodeRecord_encode by (auto simp: MarshalTo_Inr)

theorem record_roundtrip_witness:
  "DecodeRecord (encode sample_header [7, 8, 9] @ [5, 5]) =
     Inr (\<lparr>rc_Header = sample_header, rc_Data = [7, 8, 9]\<rparr>, 15)"
proof -
  have "MarshalTo (replicate 15 0 @ [5, 5]) sample_header [7, 8, 9] =
      Inr (encode sample_header [7, 8, 9] @ [5, 5], 15)"
    by code_simp
  from record_roundtrip [OF this] show ?thesis by blast
qed

text \<open>
  C21.  \<open>Parse\<close> accepts exactly the non-empty concatenations of well-formed records: it succeeds if and
  only if the payload is the encoding of some non-empty list of valid records, all of which the
  visitor accepts when it is run over them in order.
\<close>

theorem Parse_accepts_iff:
  "Parse payload visit s = (s', None) \<longleftrightarrow>
     (\<exists>rs. rs \<noteq> [] \<and> (\<forall>r\<in>set rs. validate (rc_Header r) (length (rc_Data r)) = None) \<and>
           payload = encode_records rs \<and> visit_all visit s rs = (s', None))"
proof
  assume "Parse payload visit s = (s', None)"
  then have "payload \<noteq> []" and "parse_loop payload visit s = (s', None)"
    by (auto simp: Parse_def split: if_splits)
  then show "\<exists>rs. rs \<noteq> [] \<and> (\<forall>r\<in>set rs. validate (rc_Header r) (length (rc_Data r)) = None) \<and>
      payload = encode_records rs \<and> visit_all visit s rs = (s', None)"
    using parse_loop_accepts [of payload visit s s'] by (auto simp: record_ok_def)
next
  assume "\<exists>rs. rs \<noteq> [] \<and> (\<forall>r\<in>set rs. validate (rc_Header r) (length (rc_Data r)) = None) \<and>
      payload = encode_records rs \<and> visit_all visit s rs = (s', None)"
  then show "Parse payload visit s = (s', None)"
    using parse_loop_encode [of _ visit s] by (auto simp: Parse_def record_ok_def)
qed

theorem Parse_accepts_iff_witness:
  "Parse (encode sample_header [7] @ encode sample_header [8, 9]) (\<lambda>s r. (s @ [rc_Data r], None :: unit option)) [] =
     ([[7], [8, 9]], None)"
proof -
  let ?rs = "[\<lparr>rc_Header = sample_header, rc_Data = [7]\<rparr>, \<lparr>rc_Header = sample_header, rc_Data = [8, 9]\<rparr>]"
  have "\<forall>r\<in>set ?rs. validate (rc_Header r) (length (rc_Data r)) = None" by code_simp
  then show ?thesis
    by (subst Parse_accepts_iff, intro exI [of _ ?rs]) simp
qed

definition sample_source :: addr where
  "sample_source = Addr6 [0xfe, 0x80, 0, 0, 0, 0, 0, 0, 1, 2, 3, 4, 5, 6, 7, 8] []"

definition sample_destination :: addr where
  "sample_destination = Addr6 [0xfe, 0x80, 0, 0, 0, 0, 0, 0, 8, 7, 6, 5, 4, 3, 2, 1] []"

text \<open>
  C24.  An envelope written by \<open>MarshalEnvelopeTo\<close> for a link-local source is read back by
  \<open>ParseEnvelope\<close>, which returns both addresses and the payload unchanged.
\<close>

theorem envelope_roundtrip:
  assumes "addr_wf source" and "addr_wf destination" and "IsLinkLocalUnicast source"
    and "MarshalEnvelopeTo dst source destination payload = Inr (dst', n)"
  shows "ParseEnvelope (take n dst') source destination =
    Inr \<lparr>en_Source = source, en_Destination = destination, en_Payload = payload\<rparr>"
proof -
  note m = assms(4) [unfolded MarshalEnvelopeTo_Inr [OF assms(1,2)]]
  then have "take n dst' = envelope_bytes source destination payload"
    using assms(1,2) by simp
  then show ?thesis
    using m DecodeEnvelope_envelope_bytes [OF assms(1,2) _ _ _ assms(3)] by (simp add: ParseEnvelope_def)
qed

theorem envelope_roundtrip_witness:
  "ParseEnvelope (take 43 (envelope_bytes sample_source sample_destination [1, 2, 3] @ [9]))
     sample_source sample_destination =
   Inr \<lparr>en_Source = sample_source, en_Destination = sample_destination, en_Payload = [1, 2, 3]\<rparr>"
proof (rule envelope_roundtrip)
  show "addr_wf sample_source" and "addr_wf sample_destination" and "IsLinkLocalUnicast sample_source"
    by code_simp+
  show "MarshalEnvelopeTo (replicate 43 0 @ [9]) sample_source sample_destination [1, 2, 3] =
      Inr (envelope_bytes sample_source sample_destination [1, 2, 3] @ [9], 43)"
    by code_simp
qed


end
