(* ===== verification/Packing.thy ===== *)
theory Packing
  imports Prelude
begin

text \<open>
  \<^verbatim>\<open>internal/core/limits/limits.go\<close> (the wire-format limits) and \<^verbatim>\<open>internal/core/packing/plan.go\<close>
  (whether a packet may start in the tail of a partly filled carrier).  Go's \<^verbatim>\<open>int\<close> parameters
  are \<open>int\<close>, since a caller may pass any value; Go's \<^verbatim>\<open>/\<close> truncates, which \<open>go_div\<close> spells out.
\<close>

definition go_div :: "int \<Rightarrow> int \<Rightarrow> int" where
  "go_div a b = sgn a * sgn b * (\<bar>a\<bar> div \<bar>b\<bar>)"

lemma go_div_nonneg [simp]: "0 \<le> a \<Longrightarrow> 0 < b \<Longrightarrow> go_div a b = a div b"
  by (cases "a = 0") (simp_all add: go_div_def)

subsection \<open>Limits\<close>

definition DataHeaderSize :: int where "DataHeaderSize = 12"
definition MaxFragments :: int where "MaxFragments = 16"
definition MinInnerMTU :: int where "MinInnerMTU = 1280"
definition DefaultInnerMTU :: int where "DefaultInnerMTU = 1500"
definition MaxInnerMTU :: int where "MaxInnerMTU = 9612"
definition DefaultCarrierPayload :: int where "DefaultCarrierPayload = 613"
definition DefaultMinPackData :: int where "DefaultMinPackData = 128"

lemmas limits_defs = DataHeaderSize_def MaxFragments_def MinInnerMTU_def DefaultInnerMTU_def
  MaxInnerMTU_def DefaultCarrierPayload_def DefaultMinPackData_def

definition MinCarrierPayload :: "int \<Rightarrow> int" where
  "MinCarrierPayload mtu = go_div (mtu + MaxFragments - 1) MaxFragments + DataHeaderSize"

datatype limits_error =
    InnerMTURange int
  | CarrierPayloadBelow int int int

definition ValidateInnerMTU :: "int \<Rightarrow> limits_error option" where
  "ValidateInnerMTU mtu =
     (if mtu < MinInnerMTU \<or> mtu > MaxInnerMTU then Some (InnerMTURange mtu) else None)"

definition ValidateMinCarrierPayload :: "int \<Rightarrow> int \<Rightarrow> limits_error option" where
  "ValidateMinCarrierPayload mtu payload =
     (case ValidateInnerMTU mtu of
        Some err \<Rightarrow> Some err
      | None \<Rightarrow>
          (let minimum = max DefaultCarrierPayload (MinCarrierPayload mtu) in
           if payload < minimum then Some (CarrierPayloadBelow payload minimum mtu) else None))"

subsection \<open>The packing plan\<close>

record plan =
  pl_StartInTail :: bool
  pl_Fragments :: int
  pl_FirstData :: int

datatype plan_error =
    PacketLengthNotPositive int
  | CarrierPayloadTooSmall int
  | RemainingOutside int int
  | MinPackNotPositive int
  | TooManyPlanFragments int int int

definition ceilDiv :: "int \<Rightarrow> int \<Rightarrow> int" where
  "ceilDiv n d = (if n \<le> 0 then 0 else go_div (n + d - 1) d)"

definition MakePlan :: "int \<Rightarrow> int \<Rightarrow> int \<Rightarrow> int \<Rightarrow> plan_error + plan" where
  "MakePlan packetLen carrierPayload remaining minPack =
     (if packetLen < 1 then Inl (PacketLengthNotPositive packetLen)
      else if carrierPayload \<le> DataHeaderSize then Inl (CarrierPayloadTooSmall carrierPayload)
      else if remaining < 0 \<or> remaining > carrierPayload then Inl (RemainingOutside remaining carrierPayload)
      else if minPack < 1 then Inl (MinPackNotPositive minPack)
      else
        (let fullData = carrierPayload - DataHeaderSize;
             tailData = remaining - DataHeaderSize;
             first = min packetLen tailData;
             tailFragments = 1 + ceilDiv (packetLen - first) fullData;
             fragments = ceilDiv packetLen fullData
         in
         if tailData \<ge> minPack \<and> tailFragments \<le> MaxFragments
         then Inr \<lparr>pl_StartInTail = True, pl_Fragments = tailFragments, pl_FirstData = first\<rparr>
         else if fragments > MaxFragments
         then Inl (TooManyPlanFragments packetLen fragments carrierPayload)
         else Inr \<lparr>pl_StartInTail = False, pl_Fragments = fragments, pl_FirstData = 0\<rparr>))"

subsection \<open>Ceiling division\<close>

lemma int_div_less_iff: "0 < q \<Longrightarrow> m div q < n \<longleftrightarrow> m < n * q" for m n q :: int
proof -
  assume q: "0 < q"
  have "m div q < n \<longleftrightarrow> (m + (- n) * q) div q < 0"
    using q by (subst div_mult_self1) auto
  also have "\<dots> \<longleftrightarrow> m + (- n) * q < 0"
    by (rule pos_imp_zdiv_neg_iff [OF q])
  finally show ?thesis by simp
qed

lemma ceilDiv_pos: "0 < n \<Longrightarrow> 0 < d \<Longrightarrow> ceilDiv n d = (n + d - 1) div d"
  by (simp add: ceilDiv_def)

lemma ceilDiv_nonneg: "0 < d \<Longrightarrow> 0 \<le> ceilDiv n d"
  by (cases "n \<le> 0") (simp_all add: ceilDiv_def pos_imp_zdiv_nonneg_iff)

text \<open>\<open>ceilDiv n d\<close> is the least \<open>k\<close> with \<open>n \<le> k * d\<close>.\<close>

lemma ceilDiv_le_iff:
  assumes "0 < d" and "0 \<le> k"
  shows "ceilDiv n d \<le> k \<longleftrightarrow> n \<le> k * d"
proof (cases "0 < n")
  case True
  have "ceilDiv n d \<le> k \<longleftrightarrow> (n + d - 1) div d < k + 1"
    using True assms by (auto simp: ceilDiv_pos)
  also have "\<dots> \<longleftrightarrow> n + d - 1 < (k + 1) * d"
    using assms(1) by (rule int_div_less_iff)
  also have "\<dots> \<longleftrightarrow> n \<le> k * d"
    by (auto simp: algebra_simps)
  finally show ?thesis .
next
  case False
  have "0 \<le> k * d" using assms by simp
  with False have "n \<le> k * d" by linarith
  moreover have "ceilDiv n d \<le> k" using False assms by (simp add: ceilDiv_def)
  ultimately show ?thesis by simp
qed

lemma ceilDiv_mult_ge: "0 < d \<Longrightarrow> n \<le> ceilDiv n d * d"
  using ceilDiv_le_iff [of d "ceilDiv n d" n] ceilDiv_nonneg [of d n] by simp

lemma ceilDiv_lower: "0 < d \<Longrightarrow> 0 < n \<Longrightarrow> (ceilDiv n d - 1) * d < n"
proof -
  assume d: "0 < d" and n: "0 < n"
  have pos: "0 < ceilDiv n d"
    using d n ceilDiv_le_iff [of d 0 n] by simp
  then show ?thesis
    using d n ceilDiv_le_iff [of d "ceilDiv n d - 1" n] by simp
qed

lemma ceilDiv_step: "0 < d \<Longrightarrow> 0 < n \<Longrightarrow> 1 + ceilDiv (n - min n d) d = ceilDiv n d"
proof -
  assume d: "0 < d" and n: "0 < n"
  show ?thesis
  proof (cases "n \<le> d")
    case True
    then show ?thesis
      using d n ceilDiv_le_iff [of d 0 n] ceilDiv_le_iff [of d 1 n] by (simp add: ceilDiv_def [of 0])
  next
    case False
    have "(n + d - 1) div d = (n - 1) div d + 1"
      using d div_add_self2 [of d "n - 1"] by (simp add: algebra_simps)
    then show ?thesis
      using d n False by (simp add: ceilDiv_pos)
  qed
qed

subsection \<open>What a plan promises\<close>

text \<open>The capacity a plan gives to the first fragment and to every later one.\<close>

definition plan_capacity :: "int \<Rightarrow> plan \<Rightarrow> int \<Rightarrow> int" where
  "plan_capacity fullData pl n =
     (if pl_StartInTail pl then pl_FirstData pl + (n - 1) * fullData else n * fullData)"

lemma MakePlan_bounds:
  assumes "MakePlan packetLen carrierPayload remaining minPack = Inr pl"
  shows "1 \<le> packetLen" and "DataHeaderSize < carrierPayload" and "0 \<le> remaining"
    and "remaining \<le> carrierPayload" and "1 \<le> minPack"
  using assms by (auto simp: MakePlan_def split: if_splits)

lemma MakePlan_tail:
  assumes "MakePlan packetLen carrierPayload remaining minPack = Inr pl" and "pl_StartInTail pl"
  shows "minPack \<le> remaining - DataHeaderSize"
    and "pl_FirstData pl = min packetLen (remaining - DataHeaderSize)"
    and "pl_Fragments pl = 1 + ceilDiv (packetLen - pl_FirstData pl) (carrierPayload - DataHeaderSize)"
    and "pl_Fragments pl \<le> MaxFragments"
  using assms by (auto simp: MakePlan_def Let_def split: if_splits)

lemma MakePlan_fresh:
  assumes "MakePlan packetLen carrierPayload remaining minPack = Inr pl" and "\<not> pl_StartInTail pl"
  shows "pl_Fragments pl = ceilDiv packetLen (carrierPayload - DataHeaderSize)"
    and "pl_Fragments pl \<le> MaxFragments"
  using assms by (auto simp: MakePlan_def Let_def split: if_splits)

lemma MakePlan_fragments:
  assumes "MakePlan packetLen carrierPayload remaining minPack = Inr pl"
  shows "1 \<le> pl_Fragments pl" and "pl_Fragments pl \<le> MaxFragments"
proof -
  note b = MakePlan_bounds [OF assms]
  then have full: "0 < carrierPayload - DataHeaderSize" by simp
  show "pl_Fragments pl \<le> MaxFragments"
    using MakePlan_tail(4) [OF assms] MakePlan_fresh(2) [OF assms] by blast
  show "1 \<le> pl_Fragments pl"
  proof (cases "pl_StartInTail pl")
    case True
    then show ?thesis
      using MakePlan_tail(3) [OF assms True] ceilDiv_nonneg [OF full] by simp
  next
    case False
    have "\<not> ceilDiv packetLen (carrierPayload - DataHeaderSize) \<le> 0"
      using b(1) ceilDiv_le_iff [OF full, of 0 packetLen] by simp
    then show ?thesis using MakePlan_fresh(1) [OF assms False] by simp
  qed
qed

lemma MakePlan_first_data:
  assumes "MakePlan packetLen carrierPayload remaining minPack = Inr pl" and "pl_StartInTail pl"
  shows "1 \<le> pl_FirstData pl" and "pl_FirstData pl \<le> packetLen"
    and "pl_FirstData pl + DataHeaderSize \<le> remaining"
  using MakePlan_tail(1,2) [OF assms] MakePlan_bounds [OF assms(1)] by auto

text \<open>The planned fragments hold the whole packet, and the packet needs the last of them.\<close>

lemma MakePlan_capacity:
  assumes "MakePlan packetLen carrierPayload remaining minPack = Inr pl"
  defines "full \<equiv> carrierPayload - DataHeaderSize"
  shows "packetLen \<le> plan_capacity full pl (pl_Fragments pl)"
    and "1 < pl_Fragments pl \<Longrightarrow> plan_capacity full pl (pl_Fragments pl - 1) < packetLen"
proof -
  have full: "0 < full" using MakePlan_bounds(2) [OF assms(1)] by (simp add: full_def)
  have "packetLen \<le> plan_capacity full pl (pl_Fragments pl) \<and>
    (1 < pl_Fragments pl \<longrightarrow> plan_capacity full pl (pl_Fragments pl - 1) < packetLen)"
  proof (cases "pl_StartInTail pl")
    case True
    define rest where "rest = packetLen - pl_FirstData pl"
    have frags: "pl_Fragments pl = 1 + ceilDiv rest full"
      using MakePlan_tail(3) [OF assms(1) True] by (simp add: full_def rest_def)
    have "0 < rest" if "1 < pl_Fragments pl"
      using that frags ceilDiv_le_iff [OF full, of 0 rest] by simp
    then show ?thesis
      using True frags ceilDiv_mult_ge [OF full, of rest] ceilDiv_lower [OF full, of rest]
      by (auto simp: plan_capacity_def rest_def algebra_simps)
  next
    case False
    then show ?thesis
      using MakePlan_fresh(1) [OF assms(1) False] MakePlan_bounds(1) [OF assms(1)]
        ceilDiv_mult_ge [OF full, of packetLen] ceilDiv_lower [OF full, of packetLen]
      by (auto simp: plan_capacity_def full_def)
  qed
  then show "packetLen \<le> plan_capacity full pl (pl_Fragments pl)"
    and "1 < pl_Fragments pl \<Longrightarrow> plan_capacity full pl (pl_Fragments pl - 1) < packetLen"
    by blast+
qed

text \<open>With a whole carrier left, both ways of starting need the same number of fragments.\<close>

lemma MakePlan_whole_carrier:
  assumes "MakePlan packetLen carrierPayload carrierPayload minPack = Inr pl"
  shows "pl_Fragments pl = ceilDiv packetLen (carrierPayload - DataHeaderSize)"
proof (cases "pl_StartInTail pl")
  case True
  then show ?thesis
    using MakePlan_tail [OF assms] MakePlan_bounds [OF assms] by (simp add: ceilDiv_step)
next
  case False
  then show ?thesis by (rule MakePlan_fresh(1) [OF assms])
qed

lemma MakePlan_succeeds:
  assumes "1 \<le> packetLen" and "DataHeaderSize < carrierPayload"
    and "ceilDiv packetLen (carrierPayload - DataHeaderSize) \<le> MaxFragments"
    and "0 \<le> remaining" and "remaining \<le> carrierPayload" and "1 \<le> minPack"
  shows "\<exists>pl. MakePlan packetLen carrierPayload remaining minPack = Inr pl"
  using assms by (auto simp: MakePlan_def Let_def)

lemma ValidateMinCarrierPayload_fits:
  assumes "ValidateMinCarrierPayload mtu payload = None" and "packetLen \<le> mtu"
  shows "DataHeaderSize < payload"
    and "ceilDiv packetLen (payload - DataHeaderSize) \<le> MaxFragments"
proof -
  have mtu: "MinInnerMTU \<le> mtu"
    using assms(1) by (auto simp: ValidateMinCarrierPayload_def ValidateInnerMTU_def split: if_splits)
  have p: "DefaultCarrierPayload \<le> payload" "MinCarrierPayload mtu \<le> payload"
    using assms(1) by (auto simp: ValidateMinCarrierPayload_def Let_def split: option.splits if_splits)
  show full: "DataHeaderSize < payload"
    using p(1) by (simp add: limits_defs)
  have "(mtu + 15) div 16 + 12 \<le> payload"
    using p(2) mtu by (simp add: MinCarrierPayload_def limits_defs)
  then have "mtu \<le> 16 * (payload - 12)"
    by presburger
  with assms(2) show "ceilDiv packetLen (payload - DataHeaderSize) \<le> MaxFragments"
    using full by (subst ceilDiv_le_iff) (simp_all add: limits_defs)
qed

end
