(* ===== verification/Fragment.thy ===== *)
theory Fragment
  imports Carrier Packing
begin

text \<open>
  \<^verbatim>\<open>internal/core/fragment/fragment.go\<close>: one inner packet becomes at most sixteen DATA record
  descriptors.  The caller's descriptor slice is represented by its length; the descriptors
  written into it are the result.
\<close>

datatype fragment_error =
    ErrPacketSize
  | ErrDataSessionID
  | ErrCarrierPayload
  | ErrCarrierRemaining
  | ErrMinPack
  | ErrTooManyFragments
  | ErrOutputTooShort

record Metadata =
  md_DataSessionID :: u16
  md_LaneID :: byte
  md_LaneSequence :: u32

record Options =
  op_CarrierPayload :: int
  op_CarrierRemaining :: int
  op_MinPack :: int

record Frag =
  fr_Header :: Header
  fr_Data :: bytes

record SplitResult =
  sr_Fragments :: "Frag list"
  sr_StartInTail :: bool

text \<open>\<open>split_loop packet metadata fullData plan i n offset\<close>: the last \<open>n\<close> rounds of the loop.\<close>

fun split_loop :: "bytes \<Rightarrow> Metadata \<Rightarrow> int \<Rightarrow> plan \<Rightarrow> nat \<Rightarrow> nat \<Rightarrow> int \<Rightarrow> Frag list \<times> int" where
  "split_loop packet metadata fullData pl i 0 offset = ([], offset)"
| "split_loop packet metadata fullData pl i (Suc n) offset =
     (let capacity = (if i = 0 \<and> pl_StartInTail pl then pl_FirstData pl else fullData);
          dataLen = min capacity (int (length packet) - offset);
          stop = offset + dataLen;
          frag = \<lparr>fr_Header = \<lparr>hd_FragmentIndex = of_nat i,
                               hd_FragmentCount = of_int (pl_Fragments pl),
                               hd_LaneID = md_LaneID metadata,
                               hd_DataSessionID = md_DataSessionID metadata,
                               hd_LaneSequence = md_LaneSequence metadata,
                               hd_Offset = of_int offset\<rparr>,
                  fr_Data = subslice (nat offset) (nat stop) packet\<rparr>;
          (frags, final) = split_loop packet metadata fullData pl (Suc i) n stop
      in (frag # frags, final))"

definition Split :: "bytes \<Rightarrow> Metadata \<Rightarrow> Options \<Rightarrow> nat \<Rightarrow> fragment_error + SplitResult" where
  "Split packet metadata options outputLen =
     (if length packet < 1 \<or> int (length packet) > MaxInnerMTU then Inl ErrPacketSize
      else if md_DataSessionID metadata = 0 then Inl ErrDataSessionID
      else if op_CarrierPayload options \<le> int HeaderSize \<or> op_CarrierPayload options > 2 ^ 16 - 1
      then Inl ErrCarrierPayload
      else if op_CarrierRemaining options < 0 \<or> op_CarrierRemaining options > op_CarrierPayload options
      then Inl ErrCarrierRemaining
      else if op_MinPack options < 1 then Inl ErrMinPack
      else
        (case MakePlan (int (length packet)) (op_CarrierPayload options)
                       (op_CarrierRemaining options) (op_MinPack options) of
           Inl _ \<Rightarrow> Inl ErrTooManyFragments
         | Inr pl \<Rightarrow>
             (if pl_Fragments pl < 1 \<or> pl_Fragments pl > MaxFragments then Inl ErrTooManyFragments
              else if int outputLen < pl_Fragments pl then Inl ErrOutputTooShort
              else
                (let fullData = op_CarrierPayload options - int HeaderSize;
                     (frags, offset) = split_loop packet metadata fullData pl 0 (nat (pl_Fragments pl)) 0
                 in if offset \<noteq> int (length packet) then Inl ErrTooManyFragments
                    else Inr \<lparr>sr_Fragments = frags, sr_StartInTail = pl_StartInTail pl\<rparr>))))"

subsection \<open>The loop in closed form\<close>

text \<open>Where fragment \<open>j\<close> of a packet of \<open>len\<close> bytes starts.\<close>

definition frag_offset :: "int \<Rightarrow> int \<Rightarrow> plan \<Rightarrow> nat \<Rightarrow> int" where
  "frag_offset len fullData pl j = (if j = 0 then 0 else min len (plan_capacity fullData pl (int j)))"

definition frag_at :: "bytes \<Rightarrow> Metadata \<Rightarrow> int \<Rightarrow> plan \<Rightarrow> nat \<Rightarrow> Frag" where
  "frag_at packet metadata fullData pl j =
     (let off = frag_offset (int (length packet)) fullData pl in
      \<lparr>fr_Header = \<lparr>hd_FragmentIndex = of_nat j, hd_FragmentCount = of_int (pl_Fragments pl),
                    hd_LaneID = md_LaneID metadata, hd_DataSessionID = md_DataSessionID metadata,
                    hd_LaneSequence = md_LaneSequence metadata, hd_Offset = of_int (off j)\<rparr>,
       fr_Data = subslice (nat (off j)) (nat (off (Suc j))) packet\<rparr>)"

lemma frag_offset_0 [simp]: "frag_offset len full pl 0 = 0"
  by (simp add: frag_offset_def)

lemma plan_capacity_1: "plan_capacity full pl 1 = (if pl_StartInTail pl then pl_FirstData pl else full)"
  by (simp add: plan_capacity_def)

lemma plan_capacity_Suc: "plan_capacity full pl (1 + int j) = plan_capacity full pl (int j) + full"
  by (simp add: plan_capacity_def algebra_simps)

lemma frag_offset_Suc:
  assumes "0 \<le> full" and "pl_StartInTail pl \<Longrightarrow> 0 \<le> pl_FirstData pl" and "0 \<le> len"
  shows "frag_offset len full pl j +
      min (if j = 0 \<and> pl_StartInTail pl then pl_FirstData pl else full) (len - frag_offset len full pl j) =
    frag_offset len full pl (Suc j)"
  using assms
  by (cases "j = 0") (auto simp: frag_offset_def plan_capacity_1 plan_capacity_Suc min_def)

lemma frag_offset_mono:
  assumes "0 \<le> full" and "pl_StartInTail pl \<Longrightarrow> 0 \<le> pl_FirstData pl" and "0 \<le> len"
  shows "frag_offset len full pl j \<le> frag_offset len full pl (Suc j)"
  using assms
  by (cases "j = 0") (auto simp: frag_offset_def plan_capacity_1 plan_capacity_Suc min_def)

lemma frag_offset_bounds:
  assumes "0 \<le> full" and "pl_StartInTail pl \<Longrightarrow> 0 \<le> pl_FirstData pl" and "0 \<le> len"
  shows "0 \<le> frag_offset len full pl j" and "frag_offset len full pl j \<le> len"
  using assms by (auto simp: frag_offset_def plan_capacity_def)

lemma split_loop_closed:
  assumes "0 \<le> full" and "pl_StartInTail pl \<Longrightarrow> 0 \<le> pl_FirstData pl"
  shows "split_loop packet md full pl i n (frag_offset (int (length packet)) full pl i) =
    (map (frag_at packet md full pl) [i..<i + n], frag_offset (int (length packet)) full pl (i + n))"
proof (induction n arbitrary: i)
  case 0
  then show ?case by simp
next
  case (Suc n)
  note step = frag_offset_Suc [OF assms, where len = "int (length packet)" and j = i, simplified]
  have "[i..<i + Suc n] = i # [Suc i..<Suc i + n]"
    by (simp add: upt_conv_Cons)
  then show ?case
    using Suc.IH [of "Suc i"] step by (simp add: Let_def frag_at_def)
qed

lemma concat_subslices:
  assumes "\<And>j. f j \<le> f (Suc j)"
  shows "concat (map (\<lambda>j. subslice (f j) (f (Suc j)) xs) [i..<i + n]) = subslice (f i) (f (i + n)) xs"
proof (induction n)
  case 0
  then show ?case by (simp add: subslice_def)
next
  case (Suc n)
  have "f i \<le> f (i + n)"
    using lift_Suc_mono_le [of f i "i + n"] assms by simp
  then show ?case
    using Suc assms [of "i + n"] by (simp add: subslice_append)
qed

subsection \<open>What a split promises\<close>

text \<open>
  \<open>fragmentation packet md frags\<close>: the records \<open>frags\<close> carry exactly \<open>packet\<close>, in order, each with
  its index, the common count, its byte offset, and at least one byte.
\<close>

definition fragmentation :: "bytes \<Rightarrow> Metadata \<Rightarrow> Frag list \<Rightarrow> bool" where
  "fragmentation packet md frags \<longleftrightarrow>
     1 \<le> length frags \<and> length frags \<le> 16 \<and> concat (map fr_Data frags) = packet \<and>
     (\<forall>j < length frags.
        fr_Data (frags ! j) \<noteq> [] \<and>
        fr_Header (frags ! j) =
          \<lparr>hd_FragmentIndex = of_nat j, hd_FragmentCount = of_nat (length frags),
           hd_LaneID = md_LaneID md, hd_DataSessionID = md_DataSessionID md,
           hd_LaneSequence = md_LaneSequence md,
           hd_Offset = of_nat (length (concat (map fr_Data (take j frags))))\<rparr>)"

text \<open>The hypotheses on a plan that make the loop a fragmentation, collected once.\<close>

definition plan_fits :: "int \<Rightarrow> int \<Rightarrow> plan \<Rightarrow> bool" where
  "plan_fits len full pl \<longleftrightarrow>
     1 \<le> len \<and> 1 \<le> full \<and> 1 \<le> pl_Fragments pl \<and> pl_Fragments pl \<le> 16 \<and>
     (pl_StartInTail pl \<longrightarrow> 1 \<le> pl_FirstData pl \<and> pl_FirstData pl \<le> len) \<and>
     len \<le> plan_capacity full pl (pl_Fragments pl) \<and>
     (1 < pl_Fragments pl \<longrightarrow> plan_capacity full pl (pl_Fragments pl - 1) < len)"

lemma MakePlan_plan_fits:
  "MakePlan len carrierPayload remaining minPack = Inr pl \<Longrightarrow> plan_fits len (carrierPayload - 12) pl"
  using MakePlan_bounds [of len carrierPayload remaining minPack pl]
    MakePlan_fragments [of len carrierPayload remaining minPack pl]
    MakePlan_first_data [of len carrierPayload remaining minPack pl]
    MakePlan_capacity [of len carrierPayload remaining minPack pl]
  by (auto simp: plan_fits_def DataHeaderSize_def MaxFragments_def)

lemma plan_capacity_mono: "0 \<le> full \<Longrightarrow> m \<le> n \<Longrightarrow> plan_capacity full pl m \<le> plan_capacity full pl n"
  by (simp add: plan_capacity_def mult_right_mono)

lemma frag_offset_strict:
  assumes "plan_fits len full pl" and "int j < pl_Fragments pl"
  shows "frag_offset len full pl j < frag_offset len full pl (Suc j)"
proof (cases "j = 0")
  case True
  then show ?thesis
    using assms by (auto simp: frag_offset_def plan_capacity_1 plan_fits_def)
next
  case False
  have "plan_capacity full pl (int j) \<le> plan_capacity full pl (pl_Fragments pl - 1)"
    using assms by (intro plan_capacity_mono) (auto simp: plan_fits_def)
  also have "\<dots> < len"
    using assms False by (auto simp: plan_fits_def)
  finally show ?thesis
    using False assms(1) by (auto simp: frag_offset_def plan_capacity_Suc plan_fits_def)
qed

lemma frag_offset_last:
  "plan_fits len full pl \<Longrightarrow> frag_offset len full pl (nat (pl_Fragments pl)) = len"
  by (auto simp: frag_offset_def plan_fits_def)

lemma plan_fits_side:
  "plan_fits len full pl \<Longrightarrow> 0 \<le> full"
  "plan_fits len full pl \<Longrightarrow> pl_StartInTail pl \<Longrightarrow> 0 \<le> pl_FirstData pl"
  "plan_fits len full pl \<Longrightarrow> 0 \<le> len"
  by (auto simp: plan_fits_def)

lemma frag_at_concat:
  assumes "plan_fits (int (length packet)) full pl"
  shows "concat (map fr_Data (map (frag_at packet md full pl) [0..<n])) =
    take (nat (frag_offset (int (length packet)) full pl n)) packet"
proof -
  let ?f = "\<lambda>j. nat (frag_offset (int (length packet)) full pl j)"
  have mono: "?f j \<le> ?f (Suc j)" for j
    using frag_offset_mono [OF plan_fits_side [OF assms], of j] by (simp add: nat_mono)
  have "concat (map (\<lambda>j. subslice (?f j) (?f (Suc j)) packet) [0..<n]) = subslice (?f 0) (?f n) packet"
    using concat_subslices [of ?f packet 0 n, OF mono] by simp
  then show ?thesis
    by (simp add: frag_at_def Let_def comp_def subslice_def)
qed

lemma length_frag_at:
  assumes "plan_fits (int (length packet)) full pl"
  shows "int (length (fr_Data (frag_at packet md full pl j))) =
    frag_offset (int (length packet)) full pl (Suc j) - frag_offset (int (length packet)) full pl j"
  using frag_offset_bounds [OF plan_fits_side [OF assms], of "Suc j"]
    frag_offset_bounds [OF plan_fits_side [OF assms], of j]
    frag_offset_mono [OF plan_fits_side [OF assms], of j]
  by (simp add: frag_at_def Let_def)

lemma frag_at_fragmentation:
  assumes "plan_fits (int (length packet)) full pl"
  shows "fragmentation packet md (map (frag_at packet md full pl) [0..<nat (pl_Fragments pl)])"
proof -
  let ?n = "nat (pl_Fragments pl)"
  let ?fs = "map (frag_at packet md full pl) [0..<?n]"
  let ?off = "frag_offset (int (length packet)) full pl"
  have n: "1 \<le> ?n" "?n \<le> 16" "int ?n = pl_Fragments pl"
    using assms by (auto simp: plan_fits_def)
  have all: "concat (map fr_Data ?fs) = packet"
    using frag_at_concat [OF assms, of md ?n] frag_offset_last [OF assms] by simp
  have "fr_Data (?fs ! j) \<noteq> [] \<and> fr_Header (?fs ! j) =
      \<lparr>hd_FragmentIndex = of_nat j, hd_FragmentCount = of_nat (length ?fs),
       hd_LaneID = md_LaneID md, hd_DataSessionID = md_DataSessionID md,
       hd_LaneSequence = md_LaneSequence md,
       hd_Offset = of_nat (length (concat (map fr_Data (take j ?fs))))\<rparr>" if j: "j < ?n" for j
  proof -
    have "int (length (fr_Data (frag_at packet md full pl j))) > 0"
      using frag_offset_strict [OF assms, of j] length_frag_at [OF assms, of md j] j n(3) by simp
    moreover have "take j ?fs = map (frag_at packet md full pl) [0..<j]"
      using j by (simp add: take_map)
    then have "int (length (concat (map fr_Data (take j ?fs)))) = ?off j"
      using frag_at_concat [OF assms, of md j] frag_offset_bounds [OF plan_fits_side [OF assms], of j]
      by simp
    then have "of_nat (length (concat (map fr_Data (take j ?fs)))) = (of_int (?off j) :: u16)"
      by (metis of_int_of_nat_eq)
    moreover have "(of_nat (length ?fs) :: byte) = of_int (pl_Fragments pl)"
      by (metis length_map length_upt minus_nat.diff_0 n(3) of_int_of_nat_eq)
    ultimately show ?thesis
      using j by (simp add: frag_at_def Let_def)
  qed
  with all n show ?thesis by (simp add: fragmentation_def)
qed

lemma frag_at_size:
  assumes "plan_fits (int (length packet)) full pl"
  shows "int (length (fr_Data (frag_at packet md full pl j))) \<le>
    (if j = 0 \<and> pl_StartInTail pl then pl_FirstData pl else full)"
  using length_frag_at [OF assms, of md j] frag_offset_Suc [OF plan_fits_side [OF assms], of j] by simp

lemma Split_Inr:
  assumes "Split packet md opts outputLen = Inr r"
  obtains pl where "MakePlan (int (length packet)) (op_CarrierPayload opts) (op_CarrierRemaining opts)
      (op_MinPack opts) = Inr pl"
    and "sr_Fragments r = map (frag_at packet md (op_CarrierPayload opts - 12) pl) [0..<nat (pl_Fragments pl)]"
    and "sr_StartInTail r = pl_StartInTail pl" and "pl_Fragments pl \<le> int outputLen"
proof -
  from assms obtain pl fs off where
    pl: "MakePlan (int (length packet)) (op_CarrierPayload opts) (op_CarrierRemaining opts)
      (op_MinPack opts) = Inr pl" "pl_Fragments pl \<le> int outputLen" and
    fs: "split_loop packet md (op_CarrierPayload opts - 12) pl 0 (nat (pl_Fragments pl)) 0 = (fs, off)" and
    r: "r = \<lparr>sr_Fragments = fs, sr_StartInTail = pl_StartInTail pl\<rparr>"
    by (auto simp: Split_def Let_def HeaderSize_def split: if_splits sum.splits prod.splits)
  have "fs = map (frag_at packet md (op_CarrierPayload opts - 12) pl) [0..<nat (pl_Fragments pl)]"
    using split_loop_closed [OF plan_fits_side(1,2) [OF MakePlan_plan_fits [OF pl(1)]], of packet md 0] fs
    by (simp add: plan_fits_side [OF MakePlan_plan_fits [OF pl(1)]])
  then show thesis using that pl r by simp
qed

lemma Split_args:
  assumes "Split packet md opts outputLen = Inr r"
  shows "1 \<le> length packet" and "int (length packet) \<le> MaxInnerMTU" and "md_DataSessionID md \<noteq> 0"
    and "int HeaderSize < op_CarrierPayload opts" and "op_CarrierPayload opts \<le> 65535"
  using assms by (auto simp: Split_def Suc_le_eq split: if_splits)

lemma Split_fragmentation:
  assumes "Split packet md opts outputLen = Inr r"
  shows "fragmentation packet md (sr_Fragments r)"
  using assms by (elim Split_Inr) (simp add: frag_at_fragmentation MakePlan_plan_fits)

lemma Split_fragment_size:
  assumes "Split packet md opts outputLen = Inr r" and "f \<in> set (sr_Fragments r)"
  shows "int (HeaderSize + length (fr_Data f)) \<le> op_CarrierPayload opts"
proof -
  from assms obtain pl j where
    pl: "MakePlan (int (length packet)) (op_CarrierPayload opts) (op_CarrierRemaining opts)
      (op_MinPack opts) = Inr pl" and f: "f = frag_at packet md (op_CarrierPayload opts - 12) pl j"
    by (auto elim!: Split_Inr)
  have "pl_FirstData pl + 12 \<le> op_CarrierPayload opts" if "pl_StartInTail pl"
    using MakePlan_first_data(3) [OF pl that] MakePlan_bounds(4) [OF pl] by (simp add: DataHeaderSize_def)
  then show ?thesis
    using frag_at_size [OF MakePlan_plan_fits [OF pl], of md j] f
    by (auto simp: HeaderSize_def split: if_splits)
qed

lemma Split_tail_size:
  assumes "Split packet md opts outputLen = Inr r" and "sr_StartInTail r"
  shows "int (HeaderSize + length (fr_Data (hd (sr_Fragments r)))) \<le> op_CarrierRemaining opts"
proof -
  from assms(1) obtain pl where
    pl: "MakePlan (int (length packet)) (op_CarrierPayload opts) (op_CarrierRemaining opts)
      (op_MinPack opts) = Inr pl" and
    fs: "sr_Fragments r = map (frag_at packet md (op_CarrierPayload opts - 12) pl) [0..<nat (pl_Fragments pl)]" and
    tail: "sr_StartInTail r = pl_StartInTail pl"
    by (elim Split_Inr)
  have "hd (sr_Fragments r) = frag_at packet md (op_CarrierPayload opts - 12) pl 0"
    using MakePlan_fragments(1) [OF pl] by (simp add: fs hd_map upt_conv_Cons)
  then show ?thesis
    using frag_at_size [OF MakePlan_plan_fits [OF pl], of md 0] MakePlan_first_data(3) [OF pl] assms(2) tail
    by (simp add: HeaderSize_def DataHeaderSize_def)
qed

lemma fragmentation_offsets:
  assumes "fragmentation packet md frags" and "j < length frags"
  shows "length (concat (map fr_Data (take j frags))) + length (fr_Data (frags ! j)) \<le> length packet"
proof -
  have "concat (map fr_Data frags) =
      concat (map fr_Data (take j frags)) @ fr_Data (frags ! j) @ concat (map fr_Data (drop (Suc j) frags))"
    using assms(2) by (subst id_take_nth_drop [of j frags]) simp_all
  moreover have "concat (map fr_Data frags) = packet"
    using assms(1) by (simp add: fragmentation_def)
  ultimately show ?thesis
    by (metis length_append le_add1 add.assoc)
qed

lemma Split_record_ok:
  assumes "Split packet md opts outputLen = Inr r" and "f \<in> set (sr_Fragments r)"
  shows "validate (fr_Header f) (length (fr_Data f)) = None"
proof -
  note fr = Split_fragmentation [OF assms(1)]
  from assms(2) obtain j where j: "j < length (sr_Fragments r)" "f = sr_Fragments r ! j"
    by (auto simp: in_set_conv_nth)
  let ?n = "length (sr_Fragments r)"
  let ?o = "length (concat (map fr_Data (take j (sr_Fragments r))))"
  have h: "hd_FragmentIndex (fr_Header f) = of_nat j" "hd_FragmentCount (fr_Header f) = of_nat ?n"
    "hd_DataSessionID (fr_Header f) = md_DataSessionID md" "hd_Offset (fr_Header f) = of_nat ?o"
    and ne: "fr_Data f \<noteq> []" and n: "1 \<le> ?n" "?n \<le> 16"
    using fr j by (auto simp: fragmentation_def)
  have "?o + length (fr_Data f) \<le> 9612"
    using fragmentation_offsets [OF fr j(1)] Split_args(2) [OF assms(1)] j(2) by (simp add: MaxInnerMTU_def)
  moreover have "HeaderSize + length (fr_Data f) \<le> 65535"
    using Split_fragment_size [OF assms] Split_args(5) [OF assms(1)] by simp
  moreover have "(1 :: byte) \<le> of_nat ?n" "of_nat ?n \<le> (16 :: byte)" "(of_nat j :: byte) < of_nat ?n"
    using n j(1) by (simp_all add: word_le_nat_alt word_less_nat_alt)
  moreover have "1 \<le> length (fr_Data f)"
    using ne by (simp add: Suc_le_eq)
  ultimately show ?thesis
    using h Split_args(3) [OF assms(1)] by (simp add: validate_None maxUint16_def)
qed

text \<open>A packet that fits the interface MTU can always be split on a validated carrier payload.\<close>

lemma Split_succeeds_planned:
  assumes "1 \<le> length packet" and "int (length packet) \<le> MaxInnerMTU"
    and "DataHeaderSize < op_CarrierPayload opts" and "op_CarrierPayload opts \<le> 65535"
    and "ceilDiv (int (length packet)) (op_CarrierPayload opts - DataHeaderSize) \<le> MaxFragments"
    and "0 \<le> op_CarrierRemaining opts" and "op_CarrierRemaining opts \<le> op_CarrierPayload opts"
    and "1 \<le> op_MinPack opts" and "md_DataSessionID md \<noteq> 0" and "16 \<le> outputLen"
  shows "\<exists>r. Split packet md opts outputLen = Inr r"
proof -
  obtain pl where pl: "MakePlan (int (length packet)) (op_CarrierPayload opts) (op_CarrierRemaining opts)
      (op_MinPack opts) = Inr pl"
    using MakePlan_succeeds [OF _ assms(3,5-8)] assms(1) by auto
  have "split_loop packet md (op_CarrierPayload opts - 12) pl 0 (nat (pl_Fragments pl)) 0 =
      (map (frag_at packet md (op_CarrierPayload opts - 12) pl) [0..<nat (pl_Fragments pl)], int (length packet))"
    using split_loop_closed [OF plan_fits_side(1,2) [OF MakePlan_plan_fits [OF pl]], of packet md 0]
      frag_offset_last [OF MakePlan_plan_fits [OF pl]]
    by (simp add: plan_fits_side [OF MakePlan_plan_fits [OF pl]])
  then show ?thesis
    using assms pl MakePlan_fragments [OF pl]
    by (auto simp: Split_def Let_def HeaderSize_def DataHeaderSize_def MaxFragments_def)
qed

lemma Split_succeeds:
  assumes "ValidateMinCarrierPayload mtu (op_CarrierPayload opts) = None"
    and "op_CarrierPayload opts \<le> 65535"
    and "1 \<le> length packet" and "int (length packet) \<le> mtu"
    and "0 \<le> op_CarrierRemaining opts" and "op_CarrierRemaining opts \<le> op_CarrierPayload opts"
    and "1 \<le> op_MinPack opts" and "md_DataSessionID md \<noteq> 0" and "16 \<le> outputLen"
  shows "\<exists>r. Split packet md opts outputLen = Inr r"
proof -
  note payload = ValidateMinCarrierPayload_fits [OF assms(1,4)]
  have "mtu \<le> MaxInnerMTU"
    using assms(1) by (auto simp: ValidateMinCarrierPayload_def ValidateInnerMTU_def split: if_splits)
  then show ?thesis
    using assms payload by (intro Split_succeeds_planned) auto
qed

text \<open>A packet that does not start in the tail of a carrier can always start in a fresh one.\<close>

lemma Split_again:
  assumes "Split packet md opts n = Inr r" and "\<not> sr_StartInTail r" and "16 \<le> n"
  shows "\<exists>r'. Split packet md (opts\<lparr>op_CarrierRemaining := op_CarrierPayload opts\<rparr>) n = Inr r'"
proof -
  note args = Split_args [OF assms(1)]
  from assms(1) obtain pl where
    pl: "MakePlan (int (length packet)) (op_CarrierPayload opts) (op_CarrierRemaining opts) (op_MinPack opts) = Inr pl"
    and tail: "sr_StartInTail r = pl_StartInTail pl" by (elim Split_Inr)
  note b = MakePlan_bounds [OF pl] and fresh = MakePlan_fresh [OF pl]
  have "ceilDiv (int (length packet)) (op_CarrierPayload opts - DataHeaderSize) \<le> MaxFragments"
    using fresh assms(2) tail by simp
  then show ?thesis
    using args b assms(3) by (intro Split_succeeds_planned) auto
qed

lemma Split_again_count:
  assumes "Split packet md opts n = Inr r" and "\<not> sr_StartInTail r"
    and "Split packet md (opts\<lparr>op_CarrierRemaining := op_CarrierPayload opts\<rparr>) n = Inr r'"
  shows "length (sr_Fragments r') = length (sr_Fragments r)"
proof -
  from assms(1) obtain pl where
    "MakePlan (int (length packet)) (op_CarrierPayload opts) (op_CarrierRemaining opts) (op_MinPack opts) = Inr pl"
    "sr_StartInTail r = pl_StartInTail pl" "length (sr_Fragments r) = nat (pl_Fragments pl)"
    by (elim Split_Inr) simp
  moreover from assms(3) obtain pl' where
    "MakePlan (int (length packet)) (op_CarrierPayload opts) (op_CarrierPayload opts) (op_MinPack opts) = Inr pl'"
    "length (sr_Fragments r') = nat (pl_Fragments pl')"
    by (elim Split_Inr) simp
  ultimately show ?thesis
    using MakePlan_fresh(1) MakePlan_whole_carrier assms(2) by metis
qed

subsection \<open>Properties\<close>

definition sample_metadata :: Metadata where
  "sample_metadata = \<lparr>md_DataSessionID = 9, md_LaneID = 1, md_LaneSequence = 5\<rparr>"

definition sample_options :: Options where
  "sample_options = \<lparr>op_CarrierPayload = 30, op_CarrierRemaining = 25, op_MinPack = 8\<rparr>"

text \<open>
  C20.  The fragments \<open>Split\<close> returns are a fragmentation of the packet: between 1 and 16 non-empty
  pieces that concatenate to the packet, numbered consecutively, each carrying the count, the
  metadata and its own offset.  Every record fits a carrier, and the first one fits what is left of
  the current carrier when the plan starts in its tail.
\<close>

theorem Split_correct:
  assumes "Split packet md opts outputLen = Inr r"
  shows "fragmentation packet md (sr_Fragments r) \<and>
    (\<forall>f\<in>set (sr_Fragments r). int (HeaderSize + length (fr_Data f)) \<le> op_CarrierPayload opts) \<and>
    (sr_StartInTail r \<longrightarrow>
       int (HeaderSize + length (fr_Data (hd (sr_Fragments r)))) \<le> op_CarrierRemaining opts)"
  using Split_fragmentation [OF assms] Split_fragment_size [OF assms] Split_tail_size [OF assms] by blast

theorem Split_correct_witness:
  "\<exists>r. Split (replicate 40 7) sample_metadata sample_options 16 = Inr r \<and>
       length (sr_Fragments r) = 3 \<and> fragmentation (replicate 40 7) sample_metadata (sr_Fragments r)"
proof -
  have "case Split (replicate 40 7) sample_metadata sample_options 16 of
      Inl _ \<Rightarrow> False | Inr r \<Rightarrow> length (sr_Fragments r) = 3"
    by code_simp
  then obtain r where r: "Split (replicate 40 7) sample_metadata sample_options 16 = Inr r"
    "length (sr_Fragments r) = 3" by (auto split: sum.splits)
  then show ?thesis using Split_correct [OF r(1)] by blast
qed

text \<open>
  C22.  \<open>Split\<close> never fails on a packet within a validated configuration: if the carrier payload passes
  \<open>ValidateMinCarrierPayload\<close> for the inner MTU, every packet of 1 to MTU bytes can be fragmented, from
  any fill level of the current carrier.
\<close>

theorem Split_total:
  assumes "ValidateMinCarrierPayload mtu (op_CarrierPayload opts) = None"
    and "op_CarrierPayload opts \<le> 65535"
    and "1 \<le> length packet" and "int (length packet) \<le> mtu"
    and "0 \<le> op_CarrierRemaining opts" and "op_CarrierRemaining opts \<le> op_CarrierPayload opts"
    and "1 \<le> op_MinPack opts" and "md_DataSessionID md \<noteq> 0" and "16 \<le> outputLen"
  shows "\<exists>r. Split packet md opts outputLen = Inr r \<and> length (sr_Fragments r) \<le> outputLen"
proof -
  obtain r where r: "Split packet md opts outputLen = Inr r"
    using Split_succeeds [OF assms] by blast
  moreover have "length (sr_Fragments r) \<le> 16"
    using Split_fragmentation [OF r] by (simp add: fragmentation_def)
  ultimately show ?thesis using assms(9) by auto
qed

theorem Split_total_witness:
  "\<exists>r. Split (replicate 1500 7) sample_metadata
         \<lparr>op_CarrierPayload = 613, op_CarrierRemaining = 100, op_MinPack = 128\<rparr> 16 = Inr r \<and>
       length (sr_Fragments r) \<le> 16"
  by (rule Split_total [of 1500])
    (simp_all add: ValidateMinCarrierPayload_def ValidateInnerMTU_def MinCarrierPayload_def limits_defs
       go_div_def sample_metadata_def)


end
