(* ===== verification/Packetizer.thy ===== *)
theory Packetizer
  imports Fragment
begin

text \<open>
  \<^verbatim>\<open>internal/core/packetizer/packetizer.go\<close>: complete DATA records are packed into one carrier
  buffer, which the emitter consumes when it is flushed.  The emitter is an interface of the
  source: here a function from the world it acts on and a payload to the new world and an
  optional error.  The fixed descriptor array \<^verbatim>\<open>frags\<close> is kept, because the code clears its
  references to the caller's packet; a nil data slice is the empty list.
\<close>

type_synonym ('w, 'e) emitter = "'w \<Rightarrow> bytes \<Rightarrow> 'w \<times> 'e option"

datatype 'e packetizer_error =
    pz_ErrCarrierPayload
  | pz_ErrMinPack
  | pz_ErrEmitter
  | pz_ErrUninitialized
  | pz_Split fragment_error
  | pz_Marshal carrier_error
  | pz_Emit 'e

record PacketizerConfig =
  pc_CarrierPayload :: int
  pc_MinPack :: int

record ('w, 'e) Packetizer =
  pz_buffer :: bytes
  pz_used :: nat
  pz_config :: PacketizerConfig
  pz_emitter :: "('w, 'e) emitter option"
  pz_frags :: "Frag list"
  pz_valid :: bool

definition clearFragments :: "('w, 'e) Packetizer \<Rightarrow> ('w, 'e) Packetizer" where
  "clearFragments p = p\<lparr>pz_frags := map (\<lambda>f. f\<lparr>fr_Data := []\<rparr>) (pz_frags p)\<rparr>"

definition Packetizer_Init ::
    "('w, 'e) Packetizer \<Rightarrow> bytes \<Rightarrow> PacketizerConfig \<Rightarrow> ('w, 'e) emitter option \<Rightarrow>
     'e packetizer_error + ('w, 'e) Packetizer" where
  "Packetizer_Init p buffer config emitter =
     (if pc_CarrierPayload config \<le> int HeaderSize \<or> pc_CarrierPayload config > 2 ^ 16 - 1 \<or>
         int (length buffer) < pc_CarrierPayload config then Inl pz_ErrCarrierPayload
      else if pc_MinPack config < 1 then Inl pz_ErrMinPack
      else if emitter = None then Inl pz_ErrEmitter
      else Inr (p\<lparr>pz_buffer := take (nat (pc_CarrierPayload config)) buffer, pz_used := 0,
                  pz_config := config, pz_emitter := emitter, pz_valid := True\<rparr>))"

definition Packetizer_Len :: "('w, 'e) Packetizer \<Rightarrow> nat" where
  "Packetizer_Len p = pz_used p"

definition Packetizer_Reset :: "('w, 'e) Packetizer \<Rightarrow> ('w, 'e) Packetizer" where
  "Packetizer_Reset p = clearFragments (p\<lparr>pz_used := 0\<rparr>)"

definition Packetizer_Flush ::
    "('w, 'e) Packetizer \<Rightarrow> 'w \<Rightarrow> ('w, 'e) Packetizer \<times> 'w \<times> 'e packetizer_error option" where
  "Packetizer_Flush p w =
     (if \<not> pz_valid p then (p, w, Some pz_ErrUninitialized)
      else if pz_used p = 0 then (p, w, None)
      else (case the (pz_emitter p) w (take (pz_used p) (pz_buffer p)) of
              (w', Some err) \<Rightarrow> (p, w', Some (pz_Emit err))
            | (w', None) \<Rightarrow> (p\<lparr>pz_used := 0\<rparr>, w', None)))"

text \<open>\<open>add_loop p w i n\<close>: the rounds \<open>i, \<dots>, i + n - 1\<close> of the loop over \<^verbatim>\<open>result.Fragments\<close>.\<close>

fun add_loop ::
    "('w, 'e) Packetizer \<Rightarrow> 'w \<Rightarrow> nat \<Rightarrow> nat \<Rightarrow> ('w, 'e) Packetizer \<times> 'w \<times> 'e packetizer_error option" where
  "add_loop p w i 0 = (p, w, None)"
| "add_loop p w i (Suc n) =
     (let frag = pz_frags p ! i in
      case (if length (pz_buffer p) - pz_used p < HeaderSize + length (fr_Data frag)
            then Packetizer_Flush p w else (p, w, None)) of
        (p1, w1, Some err) \<Rightarrow> (clearFragments p1, w1, Some err)
      | (p1, w1, None) \<Rightarrow>
          (case MarshalTo (drop (pz_used p1) (pz_buffer p1)) (fr_Header frag) (fr_Data frag) of
             Inl err \<Rightarrow> (clearFragments p1, w1, Some (pz_Marshal err))
           | Inr (dst, written) \<Rightarrow>
               add_loop (p1\<lparr>pz_buffer := take (pz_used p1) (pz_buffer p1) @ dst,
                            pz_used := pz_used p1 + written,
                            pz_frags := (pz_frags p1)[i := frag\<lparr>fr_Data := []\<rparr>]\<rparr>)
                        w1 (Suc i) n))"

text \<open>\<open>split_into p packet metadata remaining\<close> is the call of \<open>Split\<close> with \<^verbatim>\<open>p.frags[:]\<close> as output.\<close>

definition split_into ::
    "('w, 'e) Packetizer \<Rightarrow> bytes \<Rightarrow> Metadata \<Rightarrow> int \<Rightarrow> fragment_error + ('w, 'e) Packetizer \<times> nat \<times> bool" where
  "split_into p packet metadata remaining =
     (case Split packet metadata
             \<lparr>op_CarrierPayload = pc_CarrierPayload (pz_config p), op_CarrierRemaining = remaining,
              op_MinPack = pc_MinPack (pz_config p)\<rparr> (length (pz_frags p)) of
        Inl err \<Rightarrow> Inl err
      | Inr result \<Rightarrow>
          Inr (p\<lparr>pz_frags := sr_Fragments result @ drop (length (sr_Fragments result)) (pz_frags p)\<rparr>,
               length (sr_Fragments result), sr_StartInTail result))"

definition Packetizer_Add ::
    "('w, 'e) Packetizer \<Rightarrow> 'w \<Rightarrow> bytes \<Rightarrow> Metadata \<Rightarrow> ('w, 'e) Packetizer \<times> 'w \<times> 'e packetizer_error option" where
  "Packetizer_Add p w packet metadata =
     (if \<not> pz_valid p then (p, w, Some pz_ErrUninitialized)
      else
        (case split_into p packet metadata (int (length (pz_buffer p)) - int (pz_used p)) of
           Inl err \<Rightarrow> (clearFragments p, w, Some (pz_Split err))
         | Inr (p1, n, startInTail) \<Rightarrow>
             (if \<not> startInTail \<and> pz_used p1 \<noteq> 0 then
                (case Packetizer_Flush p1 w of
                   (p2, w2, Some err) \<Rightarrow> (clearFragments p2, w2, Some err)
                 | (p2, w2, None) \<Rightarrow>
                     (case split_into p2 packet metadata (int (length (pz_buffer p2))) of
                        Inl err \<Rightarrow> (clearFragments p2, w2, Some (pz_Split err))
                      | Inr (p3, n3, _) \<Rightarrow> add_loop p3 w2 0 n3))
              else add_loop p1 w 0 n)))"

subsection \<open>The invariant and the record view of a carrier\<close>

text \<open>
  \<open>packs p rs\<close>: the packetizer is initialised and the filled part of its buffer is the encoding of
  the pending records \<open>rs\<close>.
\<close>

definition packetizer_ok :: "('w, 'e) Packetizer \<Rightarrow> bool" where
  "packetizer_ok p \<longleftrightarrow>
     pz_valid p \<and> pz_emitter p \<noteq> None \<and> int HeaderSize < pc_CarrierPayload (pz_config p) \<and>
     pc_CarrierPayload (pz_config p) \<le> 65535 \<and> 1 \<le> pc_MinPack (pz_config p) \<and>
     int (length (pz_buffer p)) = pc_CarrierPayload (pz_config p) \<and>
     pz_used p \<le> length (pz_buffer p) \<and> length (pz_frags p) = 16"

definition packs :: "('w, 'e) Packetizer \<Rightarrow> Record list \<Rightarrow> bool" where
  "packs p rs \<longleftrightarrow>
     packetizer_ok p \<and> take (pz_used p) (pz_buffer p) = encode_records rs \<and> (\<forall>r\<in>set rs. record_ok r)"

definition no_retained_data :: "('w, 'e) Packetizer \<Rightarrow> bool" where
  "no_retained_data p \<longleftrightarrow> (\<forall>f\<in>set (pz_frags p). fr_Data f = [])"

definition frag_record :: "Frag \<Rightarrow> Record" where
  "frag_record f = \<lparr>rc_Header = fr_Header f, rc_Data = fr_Data f\<rparr>"

text \<open>\<open>emit_all\<close> hands a list of payloads to the emitter, in order, and stops at the first error.\<close>

fun emit_all :: "('w, 'e) emitter \<Rightarrow> 'w \<Rightarrow> bytes list \<Rightarrow> 'w \<times> 'e option" where
  "emit_all emit w [] = (w, None)"
| "emit_all emit w (b # bs) =
     (case emit w b of (w', Some err) \<Rightarrow> (w', Some err) | (w', None) \<Rightarrow> emit_all emit w' bs)"

lemma emit_all_append:
  "emit_all emit w (xs @ ys) =
     (case emit_all emit w xs of (w', Some err) \<Rightarrow> (w', Some err) | (w', None) \<Rightarrow> emit_all emit w' ys)"
  by (induction xs arbitrary: w) (auto split: prod.splits option.splits)

subsection \<open>One operation at a time\<close>

lemma packs_used: "packs p rs \<Longrightarrow> pz_used p = length (encode_records rs)"
  unfolding packs_def packetizer_ok_def by (metis length_take min.absorb2)

lemma packs_used_0: "packs p rs \<Longrightarrow> pz_used p = 0 \<longleftrightarrow> rs = []"
  by (simp add: packs_used)

lemma packs_cong:
  assumes "packs p rs" and "pz_valid p' = pz_valid p" and "pz_emitter p' = pz_emitter p"
    and "pz_config p' = pz_config p" and "pz_buffer p' = pz_buffer p" and "pz_used p' = pz_used p"
    and "length (pz_frags p') = length (pz_frags p)"
  shows "packs p' rs"
  using assms by (simp add: packs_def packetizer_ok_def)

lemma packs_clearFragments [simp]: "packs (clearFragments p) rs \<longleftrightarrow> packs p rs"
  by (auto simp: packs_def packetizer_ok_def clearFragments_def)

lemma no_retained_clearFragments [simp]: "no_retained_data (clearFragments p)"
  by (auto simp: no_retained_data_def clearFragments_def)

lemma emitter_clearFragments [simp]: "pz_emitter (clearFragments p) = pz_emitter p"
  by (simp add: clearFragments_def)

lemma packs_emptied: "packs p rs \<Longrightarrow> packs (p\<lparr>pz_used := 0\<rparr>) []"
  by (auto simp: packs_def packetizer_ok_def)

lemma Flush_packs:
  assumes "packs p rs"
  shows "Packetizer_Flush p w =
    (if rs = [] then (p, w, None)
     else case the (pz_emitter p) w (encode_records rs) of
            (w', Some err) \<Rightarrow> (p, w', Some (pz_Emit err))
          | (w', None) \<Rightarrow> (p\<lparr>pz_used := 0\<rparr>, w', None))"
  using assms packs_used_0 [OF assms] by (simp add: Packetizer_Flush_def packs_def packetizer_ok_def)

lemma MarshalTo_packs:
  assumes "packs p rs" and "validate (fr_Header f) (length (fr_Data f)) = None"
    and "pz_used p + HeaderSize + length (fr_Data f) \<le> length (pz_buffer p)"
  obtains dst where
    "MarshalTo (drop (pz_used p) (pz_buffer p)) (fr_Header f) (fr_Data f) = Inr (dst, HeaderSize + length (fr_Data f))"
    and "packs (p\<lparr>pz_buffer := take (pz_used p) (pz_buffer p) @ dst,
                  pz_used := pz_used p + (HeaderSize + length (fr_Data f)),
                  pz_frags := (pz_frags p)[i := g]\<rparr>) (rs @ [frag_record f])"
proof -
  let ?n = "HeaderSize + length (fr_Data f)"
  let ?dst = "encode (fr_Header f) (fr_Data f) @ drop ?n (drop (pz_used p) (pz_buffer p))"
  have "MarshalTo (drop (pz_used p) (pz_buffer p)) (fr_Header f) (fr_Data f) = Inr (?dst, ?n)"
    using assms(2,3) by (simp add: MarshalTo_Inr)
  moreover have "packs (p\<lparr>pz_buffer := take (pz_used p) (pz_buffer p) @ ?dst, pz_used := pz_used p + ?n,
      pz_frags := (pz_frags p)[i := g]\<rparr>) (rs @ [frag_record f])"
    using assms packs_used [OF assms(1)]
    by (auto simp: packs_def packetizer_ok_def frag_record_def record_ok_def)
  ultimately show thesis by (rule that)
qed

subsection \<open>The loop over the fragments\<close>

text \<open>
  What an \<open>Add\<close> may do to a packetizer that holds the records \<open>rs\<close>, given the fragments \<open>fs\<close> of the
  packet.  Either every emission succeeds, the emitted carriers and the pending one are a cut of
  \<open>rs @ fs\<close> into consecutive non-empty groups, and nothing is lost or reordered; or the emitter
  fails on a carrier, which stays pending.
\<close>

definition add_outcome ::
    "('w, 'e) emitter \<Rightarrow> 'w \<Rightarrow> Record list \<Rightarrow> Record list \<Rightarrow>
     ('w, 'e) Packetizer \<times> 'w \<times> 'e packetizer_error option \<Rightarrow> bool" where
  "add_outcome emit w rs fs out =
     (case out of
        (p', w', None) \<Rightarrow>
          \<exists>gs rs'. emit_all emit w (map encode_records gs) = (w', None) \<and> concat gs @ rs' = rs @ fs \<and>
                   [] \<notin> set gs \<and> packs p' rs' \<and> pz_emitter p' = Some emit
      | (p', w', Some e) \<Rightarrow>
          \<exists>gs g rest err. e = pz_Emit err \<and> emit_all emit w (map encode_records (gs @ [g])) = (w', Some err) \<and>
                   concat gs @ g @ rest = rs @ fs \<and> [] \<notin> set gs \<and> g \<noteq> [] \<and> packs p' g \<and>
                   pz_emitter p' = Some emit)"

lemma add_outcome_after_emit:
  assumes "emit w (encode_records rs) = (w1, None)" and "rs \<noteq> []" and "add_outcome emit w1 [] fs out"
  shows "add_outcome emit w rs fs out"
proof -
  obtain p' w' res where out: "out = (p', w', res)" by (cases out)
  show ?thesis
  proof (cases res)
    case None
    with assms(3) out obtain gs rs' where "emit_all emit w1 (map encode_records gs) = (w', None)"
      "concat gs @ rs' = fs" "[] \<notin> set gs" "packs p' rs'" "pz_emitter p' = Some emit"
      by (auto simp: add_outcome_def)
    with assms(1,2) show ?thesis
      unfolding out None add_outcome_def by (simp, intro exI [of _ "rs # gs"]) auto
  next
    case (Some e)
    with assms(3) out obtain gs g rest err where "e = pz_Emit err"
      "emit_all emit w1 (map encode_records (gs @ [g])) = (w', Some err)" "concat gs @ g @ rest = fs"
      "[] \<notin> set gs" "g \<noteq> []" "packs p' g" "pz_emitter p' = Some emit"
      by (auto simp: add_outcome_def)
    with assms(1,2) show ?thesis
      unfolding out Some add_outcome_def
      by (simp, intro exI [of _ "rs # gs"] exI [of _ g]) auto
  qed
qed

lemma add_outcome_emit_failed:
  assumes "emit w (encode_records rs) = (w1, Some err)" and "rs \<noteq> []" and "packs p rs"
    and "pz_emitter p = Some emit"
  shows "add_outcome emit w rs fs (p, w1, Some (pz_Emit err))"
  using assms unfolding add_outcome_def by (simp, intro exI [of _ "[]"] exI [of _ rs]) simp

lemma add_outcome_shift:
  "add_outcome emit w (rs @ [f]) fs out \<Longrightarrow> add_outcome emit w rs (f # fs) out"
  by (simp only: add_outcome_def append_assoc append_Cons append_Nil)

text \<open>One round after room has been made: the record is appended and the loop goes on.\<close>

lemma add_round_outcome:
  assumes "packs p rs" and "pz_emitter p = Some emit"
    and "validate (fr_Header f) (length (fr_Data f)) = None"
    and "pz_used p + HeaderSize + length (fr_Data f) \<le> length (pz_buffer p)"
    and IH: "\<And>p2. packs p2 (rs @ [frag_record f]) \<Longrightarrow> pz_emitter p2 = Some emit \<Longrightarrow>
      pz_frags p2 = (pz_frags p)[i := f\<lparr>fr_Data := []\<rparr>] \<Longrightarrow> length (pz_buffer p2) = length (pz_buffer p) \<Longrightarrow>
      add_outcome emit w (rs @ [frag_record f]) tail (add_loop p2 w (Suc i) n)"
  shows "add_outcome emit w rs (frag_record f # tail)
    (case MarshalTo (drop (pz_used p) (pz_buffer p)) (fr_Header f) (fr_Data f) of
       Inl err \<Rightarrow> (clearFragments p, w, Some (pz_Marshal err))
     | Inr (dst, written) \<Rightarrow>
         add_loop (p\<lparr>pz_buffer := take (pz_used p) (pz_buffer p) @ dst, pz_used := pz_used p + written,
                     pz_frags := (pz_frags p)[i := f\<lparr>fr_Data := []\<rparr>]\<rparr>) w (Suc i) n)"
proof -
  from MarshalTo_packs [OF assms(1,3,4), of i "f\<lparr>fr_Data := []\<rparr>"] obtain dst where
    m: "MarshalTo (drop (pz_used p) (pz_buffer p)) (fr_Header f) (fr_Data f) =
          Inr (dst, HeaderSize + length (fr_Data f))" and
    p2: "packs (p\<lparr>pz_buffer := take (pz_used p) (pz_buffer p) @ dst,
                  pz_used := pz_used p + (HeaderSize + length (fr_Data f)),
                  pz_frags := (pz_frags p)[i := f\<lparr>fr_Data := []\<rparr>]\<rparr>) (rs @ [frag_record f])" by metis
  from p2 have "int (length (take (pz_used p) (pz_buffer p) @ dst)) = pc_CarrierPayload (pz_config p)"
    unfolding packs_def packetizer_ok_def by simp
  moreover have "int (length (pz_buffer p)) = pc_CarrierPayload (pz_config p)"
    using assms(1) by (simp add: packs_def packetizer_ok_def)
  ultimately have "length (take (pz_used p) (pz_buffer p) @ dst) = length (pz_buffer p)"
    by linarith
  then show ?thesis
    using IH [OF p2] assms(2) by (simp add: m add_outcome_shift)
qed

lemma add_loop_outcome:
  assumes "packs p rs" and "pz_emitter p = Some emit"
    and "\<And>k. i \<le> k \<Longrightarrow> k < i + n \<Longrightarrow> validate (fr_Header (pz_frags p ! k)) (length (fr_Data (pz_frags p ! k))) = None"
    and "\<And>k. i \<le> k \<Longrightarrow> k < i + n \<Longrightarrow> HeaderSize + length (fr_Data (pz_frags p ! k)) \<le> length (pz_buffer p)"
  shows "add_outcome emit w rs (map (\<lambda>k. frag_record (pz_frags p ! k)) [i..<i + n]) (add_loop p w i n)"
  using assms
proof (induction n arbitrary: p w i rs)
  case 0
  then show ?case
    unfolding add_outcome_def by (simp, intro exI [of _ "[]"] exI [of _ rs]) simp
next
  case (Suc n)
  define f where "f = pz_frags p ! i"
  define tail where "tail = map (\<lambda>k. frag_record (pz_frags p ! k)) [Suc i..<Suc i + n]"
  have frs: "map (\<lambda>k. frag_record (pz_frags p ! k)) [i..<i + Suc n] = frag_record f # tail"
    unfolding tail_def f_def by (subst upt_conv_Cons) simp_all
  have ok: "validate (fr_Header f) (length (fr_Data f)) = None"
    and size: "HeaderSize + length (fr_Data f) \<le> length (pz_buffer p)"
    using Suc.prems(3,4) [of i] by (simp_all add: f_def)
  have IH: "add_outcome emit w1 rs1 tail (add_loop p2 w1 (Suc i) n)"
    if "packs p2 rs1" "pz_emitter p2 = Some emit" "pz_frags p2 = (pz_frags p)[i := f\<lparr>fr_Data := []\<rparr>]"
      "length (pz_buffer p2) = length (pz_buffer p)" for p2 w1 rs1
  proof -
    have same: "pz_frags p2 ! k = pz_frags p ! k" if "Suc i \<le> k" for k
      using that \<open>pz_frags p2 = _\<close> by simp
    then have eq: "tail = map (\<lambda>k. frag_record (pz_frags p2 ! k)) [Suc i..<Suc i + n]"
      unfolding tail_def by (intro map_cong) auto
    show ?thesis
      unfolding eq by (rule Suc.IH [OF that(1,2)]) (use Suc.prems(3,4) that(4) same in simp_all)
  qed
  have round: "add_outcome emit w1 rs1 (frag_record f # tail)
      (case MarshalTo (drop (pz_used q) (pz_buffer q)) (fr_Header f) (fr_Data f) of
         Inl err \<Rightarrow> (clearFragments q, w1, Some (pz_Marshal err))
       | Inr (dst, written) \<Rightarrow>
           add_loop (q\<lparr>pz_buffer := take (pz_used q) (pz_buffer q) @ dst, pz_used := pz_used q + written,
                       pz_frags := (pz_frags q)[i := f\<lparr>fr_Data := []\<rparr>]\<rparr>) w1 (Suc i) n)"
    if "packs q rs1" "pz_emitter q = Some emit" "pz_frags q = pz_frags p" "pz_buffer q = pz_buffer p"
      "pz_used q + HeaderSize + length (fr_Data f) \<le> length (pz_buffer q)" for q w1 rs1
    by (rule add_round_outcome [OF that(1,2) ok that(5)]) (rule IH; simp add: that(3,4))
  show ?case
  proof (cases "length (pz_buffer p) - pz_used p < HeaderSize + length (fr_Data f)")
    case False
    moreover have "pz_used p \<le> length (pz_buffer p)"
      using Suc.prems(1) by (simp add: packs_def packetizer_ok_def)
    ultimately show ?thesis
      unfolding frs using round [OF Suc.prems(1,2) refl refl] by (simp add: Let_def flip: f_def)
  next
    case True
    then have ne: "rs \<noteq> []"
      using size packs_used_0 [OF Suc.prems(1)] by auto
    obtain w1 res where e: "emit w (encode_records rs) = (w1, res)" by fastforce
    have fl: "Packetizer_Flush p w =
        (case res of Some err \<Rightarrow> (p, w1, Some (pz_Emit err)) | None \<Rightarrow> (p\<lparr>pz_used := 0\<rparr>, w1, None))"
      using ne e Suc.prems(2) by (simp add: Flush_packs [OF Suc.prems(1)])
    show ?thesis
    proof (cases res)
      case (Some err)
      have "add_loop p w i (Suc n) = (clearFragments p, w1, Some (pz_Emit err))"
        using True by (simp add: fl Some Let_def flip: f_def)
      then show ?thesis
        using add_outcome_emit_failed [OF _ ne, of emit w w1 err "clearFragments p"] e Some Suc.prems(1,2) by simp
    next
      case None
      have after: "add_outcome emit w1 [] (frag_record f # tail) (add_loop p w i (Suc n))"
        using round [OF packs_emptied [OF Suc.prems(1)], of w1] Suc.prems(2) size True
        by (simp add: fl None Let_def flip: f_def)
      from e None have "emit w (encode_records rs) = (w1, None)" by simp
      then show ?thesis
        unfolding frs using ne after by (rule add_outcome_after_emit)
    qed
  qed
qed

subsection \<open>\<open>Packetizer_Add\<close>\<close>

lemma split_into_Split:
  assumes "split_into p packet md remaining = Inr (p1, n, tail)"
  obtains r where "Split packet md \<lparr>op_CarrierPayload = pc_CarrierPayload (pz_config p),
      op_CarrierRemaining = remaining, op_MinPack = pc_MinPack (pz_config p)\<rparr> (length (pz_frags p)) = Inr r"
    and "p1 = p\<lparr>pz_frags := sr_Fragments r @ drop (length (sr_Fragments r)) (pz_frags p)\<rparr>"
    and "n = length (sr_Fragments r)" and "tail = sr_StartInTail r"
proof (cases "Split packet md \<lparr>op_CarrierPayload = pc_CarrierPayload (pz_config p),
      op_CarrierRemaining = remaining, op_MinPack = pc_MinPack (pz_config p)\<rparr> (length (pz_frags p))")
  case (Inl e)
  with assms show thesis by (simp add: split_into_def)
next
  case (Inr r)
  with assms show thesis by (intro that [OF Inr]) (auto simp: split_into_def)
qed

lemma split_into_again:
  assumes "packs p rs" and "split_into p packet md remaining = Inr (p1, n, False)"
  shows "\<exists>p3 n3 tail. split_into (p1\<lparr>pz_used := 0\<rparr>) packet md (int (length (pz_buffer p1))) = Inr (p3, n3, tail)"
proof -
  let ?opts = "\<lparr>op_CarrierPayload = pc_CarrierPayload (pz_config p), op_CarrierRemaining = remaining,
      op_MinPack = pc_MinPack (pz_config p)\<rparr>"
  from assms(2) obtain r where
    r: "Split packet md ?opts (length (pz_frags p)) = Inr r" and
    p1: "p1 = p\<lparr>pz_frags := sr_Fragments r @ drop (length (sr_Fragments r)) (pz_frags p)\<rparr>" and
    tail: "\<not> sr_StartInTail r"
    by (rule split_into_Split) simp
  have ok: "length (pz_frags p) = 16" "int (length (pz_buffer p)) = pc_CarrierPayload (pz_config p)"
    using assms(1) by (simp_all add: packs_def packetizer_ok_def)
  have "length (sr_Fragments r) \<le> 16"
    using Split_fragmentation [OF r] by (simp add: fragmentation_def)
  then show ?thesis
    using Split_again [OF r tail] ok by (auto simp: split_into_def p1)
qed

lemma split_into_Inr:
  assumes "packs p rs" and "split_into p packet md remaining = Inr (p1, n, tail)"
  obtains fs where "fragmentation packet md fs" and "n = length fs"
    and "p1 = p\<lparr>pz_frags := fs @ drop n (pz_frags p)\<rparr>" and "packs p1 rs"
    and "\<And>f. f \<in> set fs \<Longrightarrow> validate (fr_Header f) (length (fr_Data f)) = None"
    and "\<And>f. f \<in> set fs \<Longrightarrow> HeaderSize + length (fr_Data f) \<le> length (pz_buffer p)"
proof -
  from assms(2) obtain r where
    r: "Split packet md \<lparr>op_CarrierPayload = pc_CarrierPayload (pz_config p), op_CarrierRemaining = remaining,
      op_MinPack = pc_MinPack (pz_config p)\<rparr> (length (pz_frags p)) = Inr r" and
    p1: "p1 = p\<lparr>pz_frags := sr_Fragments r @ drop (length (sr_Fragments r)) (pz_frags p)\<rparr>" and
    n: "n = length (sr_Fragments r)"
    by (rule split_into_Split)
  have ok: "packetizer_ok p" using assms(1) by (simp add: packs_def)
  have "length (sr_Fragments r) \<le> length (pz_frags p)"
    using Split_fragmentation [OF r] ok by (simp add: fragmentation_def packetizer_ok_def)
  then have packs: "packs p1 rs"
    by (intro packs_cong [OF assms(1)]) (simp_all add: p1)
  have size: "HeaderSize + length (fr_Data f) \<le> length (pz_buffer p)" if "f \<in> set (sr_Fragments r)" for f
    using Split_fragment_size [OF r that] ok by (simp add: packetizer_ok_def)
  show thesis
  proof (rule that)
    show "fragmentation packet md (sr_Fragments r)" by (rule Split_fragmentation [OF r])
    show "p1 = p\<lparr>pz_frags := sr_Fragments r @ drop n (pz_frags p)\<rparr>" unfolding n by (rule p1)
  qed (fact n packs Split_record_ok [OF r] size)+
qed

lemma add_loop_fragments:
  assumes "packs p rs" and "pz_emitter p = Some emit" and "pz_frags p = fs @ rest"
    and "\<And>f. f \<in> set fs \<Longrightarrow> validate (fr_Header f) (length (fr_Data f)) = None"
    and "\<And>f. f \<in> set fs \<Longrightarrow> HeaderSize + length (fr_Data f) \<le> length (pz_buffer p)"
  shows "add_outcome emit w rs (map frag_record fs) (add_loop p w 0 (length fs))"
proof -
  have "map (\<lambda>k. frag_record (pz_frags p ! k)) [0..<0 + length fs] = map frag_record fs"
    by (rule nth_equalityI) (simp_all add: assms(3) nth_append)
  moreover have "pz_frags p ! k \<in> set fs" if "k < 0 + length fs" for k
    using that by (simp add: assms(3) nth_append)
  ultimately show ?thesis
    using add_loop_outcome [OF assms(1,2), of 0 "length fs" w] assms(4,5) by auto
qed

lemma add_loop_after_split:
  assumes "packs p rs" and "pz_emitter p = Some emit" and "split_into p packet md remaining = Inr (p1, n, tail)"
  shows "\<exists>fs. fragmentation packet md fs \<and> add_outcome emit w rs (map frag_record fs) (add_loop p1 w 0 n)"
proof -
  obtain fs where fs: "fragmentation packet md fs" "n = length fs"
    "p1 = p\<lparr>pz_frags := fs @ drop n (pz_frags p)\<rparr>" "packs p1 rs"
    "\<And>f. f \<in> set fs \<Longrightarrow> validate (fr_Header f) (length (fr_Data f)) = None"
    "\<And>f. f \<in> set fs \<Longrightarrow> HeaderSize + length (fr_Data f) \<le> length (pz_buffer p)"
    by (rule split_into_Inr [OF assms(1,3)]) blast
  have "add_outcome emit w rs (map frag_record fs) (add_loop p1 w 0 (length fs))"
    by (rule add_loop_fragments [OF fs(4), of _ _ "drop n (pz_frags p)"]) (use fs(3,5,6) assms(2) in auto)
  then show ?thesis
    using fs(1,2) by blast
qed

lemma Add_after_flush:
  assumes "packs p1 rs" and "pz_emitter p1 = Some emit" and "rs \<noteq> []"
    and "split_into (p1\<lparr>pz_used := 0\<rparr>) packet md (int (length (pz_buffer p1))) = Inr (p3, n3, tail)"
  shows "\<exists>fs. fragmentation packet md fs \<and> add_outcome emit w rs (map frag_record fs)
    (case Packetizer_Flush p1 w of
       (p2, w2, Some err) \<Rightarrow> (clearFragments p2, w2, Some err)
     | (p2, w2, None) \<Rightarrow>
         (case split_into p2 packet md (int (length (pz_buffer p2))) of
            Inl err \<Rightarrow> (clearFragments p2, w2, Some (pz_Split err))
          | Inr (p3, n3, _) \<Rightarrow> add_loop p3 w2 0 n3))"
proof -
  obtain w1 res where e: "emit w (encode_records rs) = (w1, res)" by fastforce
  obtain fs where fs: "fragmentation packet md fs" "add_outcome emit w1 [] (map frag_record fs) (add_loop p3 w1 0 n3)"
    using add_loop_after_split [OF packs_emptied [OF assms(1)] _ assms(4)] assms(2) by auto
  show ?thesis
  proof (cases res)
    case (Some err)
    then show ?thesis
      using add_outcome_emit_failed [OF _ assms(3), of emit w w1 err "clearFragments p1" "map frag_record fs"]
        e assms(1-3) fs(1) by (auto simp: Flush_packs [OF assms(1)])
  next
    case None
    then have "add_outcome emit w rs (map frag_record fs) (add_loop p3 w1 0 n3)"
      using add_outcome_after_emit [OF _ assms(3) fs(2)] e by simp
    then show ?thesis
      using fs(1) e None assms(2,3,4) by (auto simp: Flush_packs [OF assms(1)])
  qed
qed

lemma Add_outcome:
  assumes "packs p rs" and "pz_emitter p = Some emit"
  shows "(\<exists>e. Packetizer_Add p w packet md = (clearFragments p, w, Some (pz_Split e))) \<or>
    (\<exists>fs. fragmentation packet md fs \<and>
      add_outcome emit w rs (map frag_record fs) (Packetizer_Add p w packet md))"
proof (cases "split_into p packet md (int (length (pz_buffer p)) - int (pz_used p))")
  case (Inl e)
  then show ?thesis
    using assms by (simp add: Packetizer_Add_def packs_def packetizer_ok_def)
next
  case (Inr out)
  obtain p1 n tail where out: "out = (p1, n, tail)" by (cases out)
  have valid: "pz_valid p" using assms(1) by (simp add: packs_def packetizer_ok_def)
  have p1: "packs p1 rs" "pz_used p1 = pz_used p" "pz_emitter p1 = pz_emitter p"
    by (rule split_into_Inr [OF assms(1) Inr [unfolded out]]; simp)+
  show ?thesis
  proof (cases "\<not> tail \<and> pz_used p \<noteq> 0")
    case False
    then have "Packetizer_Add p w packet md = add_loop p1 w 0 n"
      using Inr out valid p1(2) by (auto simp: Packetizer_Add_def)
    then show ?thesis
      using add_loop_after_split [OF assms Inr [unfolded out]] by simp
  next
    case True
    then have "split_into p packet md (int (length (pz_buffer p)) - int (pz_used p)) = Inr (p1, n, False)"
      using Inr out by simp
    from split_into_again [OF assms(1) this] obtain p3 n3 t3 where
      again: "split_into (p1\<lparr>pz_used := 0\<rparr>) packet md (int (length (pz_buffer p1))) = Inr (p3, n3, t3)"
      by blast
    show ?thesis
      using Add_after_flush [OF p1(1) _ _ again, of emit w] assms p1 packs_used_0 [OF assms(1)] True Inr out valid
      by (simp add: Packetizer_Add_def)
  qed
qed

subsection \<open>Caller data is not retained\<close>

lemma Flush_frags: "Packetizer_Flush p w = (p', w', res) \<Longrightarrow> pz_frags p' = pz_frags p"
  by (auto simp: Packetizer_Flush_def split: if_splits prod.splits option.splits)

lemma no_retained_update:
  assumes "\<forall>k < length fs. k < i \<or> i + Suc n \<le> k \<longrightarrow> fr_Data (fs ! k) = []"
  shows "\<forall>k < length (fs[i := f\<lparr>fr_Data := []\<rparr>]). k < Suc i \<or> Suc i + n \<le> k \<longrightarrow>
    fr_Data (fs[i := f\<lparr>fr_Data := []\<rparr>] ! k) = []"
  using assms by (auto simp: nth_list_update less_Suc_eq)

lemma add_loop_no_retained:
  assumes "\<forall>k < length (pz_frags p). k < i \<or> i + n \<le> k \<longrightarrow> fr_Data (pz_frags p ! k) = []"
  shows "no_retained_data (fst (add_loop p w i n))"
  using assms
proof (induction n arbitrary: p w i)
  case 0
  then show ?case by (simp add: no_retained_data_def all_set_conv_all_nth) (meson not_le)
next
  case (Suc n)
  define f where "f = pz_frags p ! i"
  obtain p1 w1 res where fl: "(if length (pz_buffer p) - pz_used p < HeaderSize + length (fr_Data f)
      then Packetizer_Flush p w else (p, w, None)) = (p1, w1, res)" by (metis prod_cases3)
  then have frags: "pz_frags p1 = pz_frags p"
    using Flush_frags by (fastforce split: if_splits)
  show ?case
    using no_retained_update [OF Suc.prems, of f] Suc.IH fl
    by (auto simp: Let_def frags f_def [symmetric] split: option.splits sum.splits)
qed

lemma split_into_retained:
  assumes "split_into p packet md remaining = Inr (p1, n, tail)"
    and "\<forall>k < length (pz_frags p). n \<le> k \<longrightarrow> fr_Data (pz_frags p ! k) = []"
  shows "\<forall>k < length (pz_frags p1). n \<le> k \<longrightarrow> fr_Data (pz_frags p1 ! k) = []"
proof -
  obtain r :: SplitResult where
    p1: "p1 = p\<lparr>pz_frags := sr_Fragments r @ drop (length (sr_Fragments r)) (pz_frags p)\<rparr>" and
    n: "n = length (sr_Fragments r)" by (rule split_into_Split [OF assms(1)])
  show ?thesis
    using assms(2) by (auto simp: p1 n nth_append)
qed

lemma split_into_same_count:
  assumes "packetizer_ok p" and "split_into p packet md remaining = Inr (p1, n, False)"
    and "pz_frags p2 = pz_frags p1" and "pz_config p2 = pz_config p"
    and "split_into p2 packet md (int (length (pz_buffer p))) = Inr (p3, n3, tail)"
  shows "n3 = n"
proof -
  let ?opts = "\<lparr>op_CarrierPayload = pc_CarrierPayload (pz_config p), op_CarrierRemaining = remaining,
      op_MinPack = pc_MinPack (pz_config p)\<rparr>"
  obtain r where r: "Split packet md ?opts (length (pz_frags p)) = Inr r" "n = length (sr_Fragments r)"
      "\<not> sr_StartInTail r"
      "p1 = p\<lparr>pz_frags := sr_Fragments r @ drop (length (sr_Fragments r)) (pz_frags p)\<rparr>"
    by (rule split_into_Split [OF assms(2)]) simp
  obtain r' where r': "Split packet md \<lparr>op_CarrierPayload = pc_CarrierPayload (pz_config p2),
      op_CarrierRemaining = int (length (pz_buffer p)), op_MinPack = pc_MinPack (pz_config p2)\<rparr>
      (length (pz_frags p2)) = Inr r'" "n3 = length (sr_Fragments r')"
    by (rule split_into_Split [OF assms(5)])
  have "length (sr_Fragments r) \<le> 16"
    using Split_fragmentation [OF r(1)] by (simp add: fragmentation_def)
  then have "length (pz_frags p2) = length (pz_frags p)"
    using assms(1,3) by (simp add: r(4) packetizer_ok_def)
  then show ?thesis
    using Split_again_count [OF r(1,3)] r(2) r' assms(1,4) by (simp add: packetizer_ok_def)
qed

lemma Flush_config:
  "Packetizer_Flush p w = (p', w', res) \<Longrightarrow> pz_config p' = pz_config p \<and> pz_buffer p' = pz_buffer p"
  by (auto simp: Packetizer_Flush_def split: if_splits prod.splits option.splits)

lemma Add_no_retained:
  assumes "packetizer_ok p" and "no_retained_data p"
  shows "no_retained_data (fst (Packetizer_Add p w packet md))"
proof (cases "split_into p packet md (int (length (pz_buffer p)) - int (pz_used p))")
  case (Inl e)
  then show ?thesis using assms by (simp add: Packetizer_Add_def)
next
  case (Inr out)
  obtain p1 n tail where out: "out = (p1, n, tail)" by (cases out)
  note first = Inr [unfolded out]
  have left: "\<forall>k < length (pz_frags p1). n \<le> k \<longrightarrow> fr_Data (pz_frags p1 ! k) = []"
    using split_into_retained [OF first] assms(2) by (simp add: no_retained_data_def)
  have "pz_config p1 = pz_config p" "pz_buffer p1 = pz_buffer p"
    by (rule split_into_Split [OF first]; simp)+
  moreover obtain p2 w2 res where fl: "Packetizer_Flush p1 w = (p2, w2, res)" by (metis prod_cases3)
  ultimately have p2: "pz_config p2 = pz_config p" "pz_buffer p2 = pz_buffer p" "pz_frags p2 = pz_frags p1"
    using Flush_config [OF fl] Flush_frags [OF fl] by simp_all
  have second: "no_retained_data (fst (add_loop p3 w2 0 n3))"
    if "\<not> tail" "split_into p2 packet md (int (length (pz_buffer p2))) = Inr (p3, n3, t3)" for p3 n3 t3
  proof -
    have "n3 = n"
      using split_into_same_count [OF assms(1) _ p2(3,1)] first that p2(2) by simp
    then show ?thesis
      using add_loop_no_retained [of p3 0 n w2] split_into_retained [OF that(2)] left p2(3) by simp
  qed
  show ?thesis
    using add_loop_no_retained [of p1 0 n w] left first fl second assms(2)
    by (cases "split_into p2 packet md (int (length (pz_buffer p2)))")
      (auto simp: Packetizer_Add_def split: option.splits)
qed

subsection \<open>Properties\<close>

definition sample_emitter :: "(bytes list, unit) emitter" where
  "sample_emitter w b = (w @ [b], None)"

definition sample_packetizer :: "(bytes list, unit) Packetizer" where
  "sample_packetizer =
     \<lparr>pz_buffer = replicate 30 0, pz_used = 0, pz_config = \<lparr>pc_CarrierPayload = 30, pc_MinPack = 8\<rparr>,
      pz_emitter = Some sample_emitter,
      pz_frags = replicate 16 \<lparr>fr_Header = \<lparr>hd_FragmentIndex = 0, hd_FragmentCount = 0, hd_LaneID = 0,
        hd_DataSessionID = 0, hd_LaneSequence = 0, hd_Offset = 0\<rparr>, fr_Data = []\<rparr>, pz_valid = True\<rparr>"

lemma sample_packetizer_packs: "packs sample_packetizer []"
  by (simp add: packs_def packetizer_ok_def sample_packetizer_def HeaderSize_def)

text \<open>
  C14.  \<open>Packetizer_Add\<close> loses, duplicates and reorders nothing.  On success the carriers handed to the
  emitter and the records left pending are, in order, a cut of the previously pending records
  followed by the fragments of the packet into non-empty carriers.  If the emitter fails, the
  carrier it rejected stays pending and the carriers before it were emitted in order.  The only
  other failure is a packet that \<open>Split\<close> refuses: then nothing is emitted and the pending records
  are unchanged; in particular no record can fail to marshal.
\<close>

theorem Packetizer_Add_stream:
  assumes "packs p rs" and "pz_emitter p = Some emit"
  shows "case Packetizer_Add p w packet md of
      (p', w', None) \<Rightarrow>
        \<exists>fs gs rs'. fragmentation packet md fs \<and> [] \<notin> set gs \<and> packs p' rs' \<and>
          emit_all emit w (map encode_records gs) = (w', None) \<and> concat gs @ rs' = rs @ map frag_record fs
    | (p', w', Some (pz_Split e)) \<Rightarrow> w' = w \<and> packs p' rs
    | (p', w', Some (pz_Emit e)) \<Rightarrow>
        \<exists>fs gs g rest. fragmentation packet md fs \<and> [] \<notin> set gs \<and> g \<noteq> [] \<and> packs p' g \<and>
          emit_all emit w (map encode_records (gs @ [g])) = (w', Some e) \<and>
          concat gs @ g @ rest = rs @ map frag_record fs
    | (p', w', Some _) \<Rightarrow> False"
proof -
  obtain p' w' res where out: "Packetizer_Add p w packet md = (p', w', res)" by (metis prod_cases3)
  consider (split) e where "p' = clearFragments p" "w' = w" "res = Some (pz_Split e)"
    | (frags) fs where "fragmentation packet md fs" "add_outcome emit w rs (map frag_record fs) (p', w', res)"
    using Add_outcome [OF assms, of w packet md] out by auto
  then show ?thesis
  proof cases
    case split
    with assms(1) show ?thesis by (simp add: out)
  next
    case frags
    show ?thesis
    proof (cases res)
      case None
      with frags show ?thesis by (simp add: out add_outcome_def) blast
    next
      case (Some e)
      with frags(2) obtain err where "e = pz_Emit err" by (auto simp: add_outcome_def)
      with Some frags show ?thesis by (simp add: out add_outcome_def) blast
    qed
  qed
qed

theorem Packetizer_Add_stream_witness:
  "\<exists>p' w' fs gs rs'. Packetizer_Add sample_packetizer [] (replicate 40 7) sample_metadata = (p', w', None) \<and>
     length w' = 2 \<and> fragmentation (replicate 40 7) sample_metadata fs \<and> concat gs @ rs' = map frag_record fs \<and>
     emit_all sample_emitter [] (map encode_records gs) = (w', None)"
proof -
  obtain p' w' res where out: "Packetizer_Add sample_packetizer [] (replicate 40 7) sample_metadata = (p', w', res)"
    by (metis prod_cases3)
  have "case Packetizer_Add sample_packetizer [] (replicate 40 7) sample_metadata of
      (_, w', res) \<Rightarrow> Option.is_none res \<and> length w' = 2"
    by code_simp
  then have "res = None" "length w' = 2"
    by (simp_all add: out Option.is_none_def split: option.splits)
  moreover have "pz_emitter sample_packetizer = Some sample_emitter"
    by (simp add: sample_packetizer_def)
  ultimately show ?thesis
    using Packetizer_Add_stream [OF sample_packetizer_packs, where emit = sample_emitter and w = "[]"
        and packet = "replicate 40 7" and md = sample_metadata]
    by (auto simp: out)
qed

text \<open>
  After \<open>Packetizer_Add\<close>, whatever its outcome, no descriptor still refers to the caller's packet:
  every data slice of the descriptor array is nil.
\<close>

theorem Packetizer_Add_retains_nothing:
  assumes "packs p rs" and "no_retained_data p"
  shows "no_retained_data (fst (Packetizer_Add p w packet md))"
  using assms by (intro Add_no_retained) (simp add: packs_def)

theorem Packetizer_Add_retains_nothing_witness:
  "no_retained_data (fst (Packetizer_Add sample_packetizer [] (replicate 40 7) sample_metadata))"
  by (rule Packetizer_Add_retains_nothing [OF sample_packetizer_packs])
    (simp add: no_retained_data_def sample_packetizer_def)


end
