(* ===== verification/InnerIP.thy ===== *)
theory InnerIP
  imports Netip
begin

text \<open>
  \<^verbatim>\<open>internal/core/innerip/fragment.go\<close>: length validation of inner IPv4 and IPv6 datagrams, detection
  of native fragments, and the addresses the datapath validates.
\<close>

datatype innerip_error =
    ErrTooShort
  | ErrUnsupportedIP
  | ErrInvalidIPv4
  | ErrInvalidIPv6
  | ErrTrailingData
  | ErrNativeFragment

record InnerPacket =
  ip_Version :: byte
  ip_Source :: addr
  ip_Destination :: addr
  ip_Data :: bytes

text \<open>\<open>be16 hi lo\<close> is the recurring Go expression \<^verbatim>\<open>int(hi)<<8 | int(lo)\<close>.\<close>

definition be16 :: "byte \<Rightarrow> byte \<Rightarrow> nat" where
  "be16 hi lo = push_bit 8 (unat hi) OR unat lo"

definition ipv4Fragmented :: "bytes \<Rightarrow> innerip_error + bool" where
  "ipv4Fragmented packet =
     (if length packet < 20 then Inl ErrTooShort
      else
        (let headerLen = unat (packet ! 0 AND 0x0f) * 4 in
         if headerLen < 20 \<or> headerLen > length packet then Inl ErrInvalidIPv4
         else
           (let totalLen = be16 (packet ! 2) (packet ! 3) in
            if totalLen < headerLen \<or> totalLen > length packet then Inl ErrInvalidIPv4
            else
              (let flagsOffset = push_bit 8 (ucast (packet ! 6)) OR ucast (packet ! 7) :: u16 in
               Inr (flagsOffset AND 0x2000 \<noteq> 0 \<or> flagsOffset AND 0x1fff \<noteq> 0)))))"

text \<open>
  The walk over extension headers.  \<open>ext_loop packet next offset n\<close> is the state of the loop with \<open>n\<close>
  rounds left; the loop starts with four.
\<close>

fun ext_loop :: "bytes \<Rightarrow> byte \<Rightarrow> nat \<Rightarrow> nat \<Rightarrow> innerip_error + bool" where
  "ext_loop packet next offset 0 = Inl ErrInvalidIPv6"
| "ext_loop packet next offset (Suc n) =
     (if next = 44 then
        (if offset + 8 > length packet then Inl ErrInvalidIPv6 else Inr True)
      else if next = 0 \<or> next = 43 \<or> next = 60 then
        (if offset + 2 > length packet then Inl ErrInvalidIPv6
         else
           (let headerLen = (unat (packet ! (offset + 1)) + 1) * 8 in
            if headerLen < 8 \<or> offset + headerLen > length packet then Inl ErrInvalidIPv6
            else ext_loop packet (packet ! offset) (offset + headerLen) n))
      else if next = 51 then
        (if offset + 2 > length packet then Inl ErrInvalidIPv6
         else
           (let headerLen = (unat (packet ! (offset + 1)) + 2) * 4 in
            if headerLen < 8 \<or> offset + headerLen > length packet then Inl ErrInvalidIPv6
            else ext_loop packet (packet ! offset) (offset + headerLen) n))
      else Inr False)"

definition ipv6Fragmented :: "bytes \<Rightarrow> innerip_error + bool" where
  "ipv6Fragmented packet =
     (if length packet < 40 then Inl ErrTooShort
      else
        (let payloadLen = be16 (packet ! 4) (packet ! 5) in
         if length packet \<noteq> 40 + payloadLen then Inl ErrInvalidIPv6
         else ext_loop packet (packet ! 6) 40 4))"

definition HasNativeFragment :: "bytes \<Rightarrow> innerip_error + bool" where
  "HasNativeFragment packet =
     (if length packet = 0 then Inl ErrTooShort
      else if drop_bit 4 (packet ! 0) = 4 then ipv4Fragmented packet
      else if drop_bit 4 (packet ! 0) = 6 then ipv6Fragmented packet
      else Inl ErrUnsupportedIP)"

definition innerip_Parse :: "bytes \<Rightarrow> innerip_error + InnerPacket" where
  "innerip_Parse packet =
     (case HasNativeFragment packet of
        Inl err \<Rightarrow> Inl err
      | Inr fragmented \<Rightarrow>
          (if fragmented then Inl ErrNativeFragment
           else if drop_bit 4 (packet ! 0) = 4 then
             (let length' = be16 (packet ! 2) (packet ! 3) in
              Inr \<lparr>ip_Version = 4, ip_Source = AddrFrom4 (subslice 12 16 packet),
                   ip_Destination = AddrFrom4 (subslice 16 20 packet), ip_Data = take length' packet\<rparr>)
           else if drop_bit 4 (packet ! 0) = 6 then
             (let length' = 40 + push_bit 8 (unat (packet ! 4)) + unat (packet ! 5) in
              Inr \<lparr>ip_Version = 6, ip_Source = AddrFrom16 (subslice 8 24 packet),
                   ip_Destination = AddrFrom16 (subslice 24 40 packet), ip_Data = take length' packet\<rparr>)
           else Inl ErrUnsupportedIP))"

definition ParseExact :: "bytes \<Rightarrow> innerip_error + InnerPacket" where
  "ParseExact packet =
     (case innerip_Parse packet of
        Inl err \<Rightarrow> Inl err
      | Inr parsed \<Rightarrow> if length (ip_Data parsed) \<noteq> length packet then Inl ErrTrailingData else Inr parsed)"

subsection \<open>Sixteen-bit fields\<close>

lemma be16_eq: "be16 hi lo = 256 * unat hi + unat lo"
proof -
  have "unat lo = take_bit 8 (unat lo)"
    using unat_u8_less [of lo] by (simp add: take_bit_nat_eq_self)
  then have "\<not> bit (push_bit 8 (unat hi)) n \<or> \<not> bit (unat lo) n" for n
    by (metis bit_push_bit_iff bit_take_bit_iff not_le)
  then have "push_bit 8 (unat hi) + unat lo = push_bit 8 (unat hi) OR unat lo"
    by (rule disjunctive_add)
  then show ?thesis by (simp add: be16_def push_bit_nat_def mult.commute)
qed

lemma be16_less: "be16 hi lo < 65536"
  using unat_u8_less [of hi] unat_u8_less [of lo] unfolding be16_eq by linarith

subsection \<open>Extension header chains\<close>

text \<open>
  What the walk means: \<open>ext_chain packet next offset k next' offset'\<close> says that from an extension
  header of type \<open>next\<close> at \<open>offset\<close>, \<open>k\<close> complete headers lead to a header of type \<open>next'\<close> at \<open>offset'\<close>.
\<close>

definition ext_header_len :: "byte \<Rightarrow> byte \<Rightarrow> nat" where
  "ext_header_len next lenByte = (if next = 51 then (unat lenByte + 2) * 4 else (unat lenByte + 1) * 8)"

inductive ext_chain :: "bytes \<Rightarrow> byte \<Rightarrow> nat \<Rightarrow> nat \<Rightarrow> byte \<Rightarrow> nat \<Rightarrow> bool" for packet where
  here: "ext_chain packet next offset 0 next offset"
| hop: "next \<in> {0, 43, 51, 60} \<Longrightarrow> offset + 2 \<le> length packet \<Longrightarrow>
    offset + ext_header_len next (packet ! (offset + 1)) \<le> length packet \<Longrightarrow>
    ext_chain packet (packet ! offset) (offset + ext_header_len next (packet ! (offset + 1))) k next' offset' \<Longrightarrow>
    ext_chain packet next offset (Suc k) next' offset'"

inductive_cases ext_chain_0 [elim!]: "ext_chain packet next offset 0 next' offset'"
inductive_cases ext_chain_Suc [elim!]: "ext_chain packet next offset (Suc k) next' offset'"

inductive_simps ext_chain_0_iff [simp]: "ext_chain packet next offset 0 next' offset'"
inductive_simps ext_chain_Suc_iff: "ext_chain packet next offset (Suc k) next' offset'"

lemma ext_chain_no_hop:
  "next \<notin> {0, 43, 51, 60} \<Longrightarrow> ext_chain packet next offset k next' offset' \<longleftrightarrow> k = 0 \<and> next' = next \<and> offset' = offset"
  by (cases k) (auto simp: ext_chain_Suc_iff)

lemma ex_less_Suc0: "(\<exists>k < Suc n. P k) \<longleftrightarrow> P 0 \<or> (\<exists>k < n. P (Suc k))"
  by (metis less_Suc_eq_0_disj)

lemma ext_loop_Suc:
  "ext_loop packet next offset (Suc n) =
     (if next = 44 then (if offset + 8 > length packet then Inl ErrInvalidIPv6 else Inr True)
      else if next \<in> {0, 43, 51, 60} then
        (if offset + 2 \<le> length packet \<and> offset + ext_header_len next (packet ! (offset + 1)) \<le> length packet
         then ext_loop packet (packet ! offset) (offset + ext_header_len next (packet ! (offset + 1))) n
         else Inl ErrInvalidIPv6)
      else Inr False)"
  by (auto simp: ext_header_len_def Let_def)

lemma ext_loop_spec:
  "ext_loop packet next offset n = Inr fragmented \<longleftrightarrow>
     (\<exists>k < n. \<exists>next' offset'. ext_chain packet next offset k next' offset' \<and>
        next' \<notin> {0, 43, 51, 60} \<and> fragmented = (next' = 44) \<and> (fragmented \<longrightarrow> offset' + 8 \<le> length packet))"
proof (induction n arbitrary: "next" offset)
  case 0
  then show ?case by simp
next
  case (Suc n)
  show ?case
  proof (cases "next \<in> {0, 43, 51, 60}")
    case True
    then have "next \<noteq> 44" by auto
    with True show ?thesis
      unfolding ext_loop_Suc ex_less_Suc0 by (auto simp: Suc.IH ext_chain_Suc_iff)
  next
    case False
    then show ?thesis
      unfolding ext_loop_Suc ex_less_Suc0 by (auto simp: ext_chain_no_hop)
  qed
qed

subsection \<open>Accepted datagrams\<close>

definition ipv4_datagram :: "bytes \<Rightarrow> bool" where
  "ipv4_datagram packet \<longleftrightarrow>
     20 \<le> length packet \<and> drop_bit 4 (packet ! 0) = 4 \<and>
     20 \<le> unat (packet ! 0 AND 0x0f) * 4 \<and> unat (packet ! 0 AND 0x0f) * 4 \<le> length packet \<and>
     be16 (packet ! 2) (packet ! 3) = length packet \<and>
     Uint16 (subslice 6 8 packet) AND 0x3fff = 0"

definition ipv6_datagram :: "bytes \<Rightarrow> bool" where
  "ipv6_datagram packet \<longleftrightarrow>
     40 \<le> length packet \<and> drop_bit 4 (packet ! 0) = 6 \<and>
     40 + be16 (packet ! 4) (packet ! 5) = length packet \<and>
     (\<exists>k < 4. \<exists>next offset. ext_chain packet (packet ! 6) 40 k next offset \<and> next \<notin> {0, 43, 44, 51, 60})"

lemma flags_mask: "(x :: u16) AND 0x2000 = 0 \<and> x AND 0x1fff = 0 \<longleftrightarrow> x AND 0x3fff = 0"
proof -
  have "(0x3fff :: u16) = 0x2000 OR 0x1fff" by simp
  then have "x AND 0x3fff = (x AND 0x2000) OR (x AND 0x1fff)"
    by (simp only: bit.conj_disj_distrib)
  then show ?thesis by (simp only: or_eq_0_iff)
qed

lemma subslice_pair: "i + 2 \<le> length xs \<Longrightarrow> subslice i (i + 2) xs = [xs ! i, xs ! (i + 1)]"
  by (rule nth_equalityI) (auto simp: subslice_def less_Suc_eq numeral_2_eq_2)

lemma flagsOffset_eq:
  "20 \<le> length packet \<Longrightarrow> push_bit 8 (ucast (packet ! 6)) OR ucast (packet ! 7) = Uint16 (subslice 6 8 packet)"
  using subslice_pair [of 6 packet] by (simp add: Uint16_def)

lemma ipv4Fragmented_False:
  "ipv4Fragmented packet = Inr False \<longleftrightarrow>
     20 \<le> length packet \<and> 20 \<le> unat (packet ! 0 AND 0x0f) * 4 \<and>
     unat (packet ! 0 AND 0x0f) * 4 \<le> be16 (packet ! 2) (packet ! 3) \<and>
     be16 (packet ! 2) (packet ! 3) \<le> length packet \<and> Uint16 (subslice 6 8 packet) AND 0x3fff = 0"
  using flags_mask [of "Uint16 (subslice 6 8 packet)"]
  by (auto simp: ipv4Fragmented_def Let_def flagsOffset_eq not_less)

lemma ipv6Fragmented_False:
  "ipv6Fragmented packet = Inr False \<longleftrightarrow>
     40 \<le> length packet \<and> 40 + be16 (packet ! 4) (packet ! 5) = length packet \<and>
     (\<exists>k < 4. \<exists>next offset. ext_chain packet (packet ! 6) 40 k next offset \<and> next \<notin> {0, 43, 44, 51, 60})"
  by (auto simp: ipv6Fragmented_def Let_def ext_loop_spec)

lemma HasNativeFragment_False:
  "HasNativeFragment packet = Inr False \<longleftrightarrow>
     (drop_bit 4 (packet ! 0) = 4 \<and> ipv4Fragmented packet = Inr False) \<or>
     (drop_bit 4 (packet ! 0) = 6 \<and> ipv6Fragmented packet = Inr False)"
  by (auto simp: HasNativeFragment_def ipv4Fragmented_False ipv6Fragmented_False)

lemma innerip_Parse_Inr:
  "innerip_Parse packet = Inr p \<longleftrightarrow>
     (drop_bit 4 (packet ! 0) = 4 \<and> ipv4Fragmented packet = Inr False \<and>
        p = \<lparr>ip_Version = 4, ip_Source = Addr4 (subslice 12 16 packet),
             ip_Destination = Addr4 (subslice 16 20 packet),
             ip_Data = take (be16 (packet ! 2) (packet ! 3)) packet\<rparr>) \<or>
     (drop_bit 4 (packet ! 0) = 6 \<and> ipv6Fragmented packet = Inr False \<and>
        p = \<lparr>ip_Version = 6, ip_Source = Addr6 (subslice 8 24 packet) [],
             ip_Destination = Addr6 (subslice 24 40 packet) [], ip_Data = packet\<rparr>)"
proof -
  have len6: "40 + push_bit 8 (unat (packet ! 4)) + unat (packet ! 5) = length packet"
    if "ipv6Fragmented packet = Inr False"
    using that by (auto simp: ipv6Fragmented_False be16_eq push_bit_nat_def)
  show ?thesis
  proof (cases "HasNativeFragment packet = Inr False")
    case True
    then consider "drop_bit 4 (packet ! 0) = 4" "ipv4Fragmented packet = Inr False"
      | "drop_bit 4 (packet ! 0) = 6" "ipv6Fragmented packet = Inr False"
      unfolding HasNativeFragment_False by blast
    then show ?thesis
      using True len6 by cases (auto simp: innerip_Parse_def AddrFrom4_def AddrFrom16_def Let_def)
  next
    case False
    then show ?thesis
      using HasNativeFragment_False [of packet]
      by (auto simp: innerip_Parse_def split: sum.splits if_splits)
  qed
qed

lemma ParseExact_v4: "ParseExact packet = Inr p \<Longrightarrow> ip_Version p = 4 \<Longrightarrow> ipv4_datagram packet"
  by (auto simp: ParseExact_def innerip_Parse_Inr ipv4_datagram_def ipv4Fragmented_False
      split: sum.splits if_splits)

lemma ParseExact_v6: "ParseExact packet = Inr p \<Longrightarrow> ip_Version p = 6 \<Longrightarrow> ipv6_datagram packet"
  by (auto simp: ParseExact_def innerip_Parse_Inr ipv6_datagram_def ipv6Fragmented_False
      split: sum.splits if_splits)

text \<open>
  C26.  \<open>ParseExact\<close> accepts exactly the complete, non-fragmented datagrams and returns their addresses
  and bytes.  For IPv4: a header of at least 20 bytes inside the packet, a total length equal to the
  packet, and neither a fragment offset nor the more-fragments flag.  For IPv6: a payload length that
  matches the packet and a chain of fewer than four well-formed extension headers that ends in a
  header other than the fragment header.
\<close>

theorem ParseExact_iff:
  "ParseExact packet = Inr p \<longleftrightarrow>
     (ipv4_datagram packet \<and>
        p = \<lparr>ip_Version = 4, ip_Source = Addr4 (subslice 12 16 packet),
             ip_Destination = Addr4 (subslice 16 20 packet), ip_Data = packet\<rparr>) \<or>
     (ipv6_datagram packet \<and>
        p = \<lparr>ip_Version = 6, ip_Source = Addr6 (subslice 8 24 packet) [],
             ip_Destination = Addr6 (subslice 24 40 packet) [], ip_Data = packet\<rparr>)"
proof -
  have "ParseExact packet = Inr p \<longleftrightarrow> innerip_Parse packet = Inr p \<and> length (ip_Data p) = length packet"
    by (auto simp: ParseExact_def split: sum.splits if_splits)
  also have "\<dots> \<longleftrightarrow>
     (ipv4_datagram packet \<and>
        p = \<lparr>ip_Version = 4, ip_Source = Addr4 (subslice 12 16 packet),
             ip_Destination = Addr4 (subslice 16 20 packet), ip_Data = packet\<rparr>) \<or>
     (ipv6_datagram packet \<and>
        p = \<lparr>ip_Version = 6, ip_Source = Addr6 (subslice 8 24 packet) [],
             ip_Destination = Addr6 (subslice 24 40 packet) [], ip_Data = packet\<rparr>)"
    unfolding innerip_Parse_Inr ipv4Fragmented_False ipv6Fragmented_False
    by (auto simp: ipv4_datagram_def ipv6_datagram_def)
  finally show ?thesis .
qed

definition sample_ipv4 :: bytes where
  "sample_ipv4 = [0x45, 0, 0, 24, 0, 0, 0x40, 0, 64, 17, 0, 0, 10, 0, 0, 1, 10, 0, 0, 2, 1, 2, 3, 4]"

lemma sample_ipv4_accepted: "ipv4_datagram sample_ipv4"
  by code_simp

end
