(* ===== verification/Lane.thy ===== *)
theory Lane
  imports InnerIP
begin

text \<open>
  \<^verbatim>\<open>internal/core/lane/lane.go\<close>: the wire lane of a packet.  The standard \<^verbatim>\<open>hash/maphash\<close> is a
  parameter \<open>sum64\<close> of the model, a function of the seed and of the bytes written: the package
  documents that a hash depends on the seed and the byte sequence only.  The state of a
  \<^verbatim>\<open>maphash.Hash\<close> is the list of bytes written so far.
\<close>

definition Lanes :: nat where "Lanes = 256"
definition DefaultDepth :: int where "DefaultDepth = 1"
definition MaxDepth :: int where "MaxDepth = 4"
definition vxlanPort :: u16 where "vxlanPort = 4789"

datatype lane_error = ErrDepth

record 'seed Classifier =
  cl_seed :: 'seed
  cl_depth :: int

definition NewClassifier :: "'seed \<Rightarrow> int \<Rightarrow> lane_error + 'seed Classifier" where
  "NewClassifier makeSeed depth =
     (if depth < 1 \<or> depth > MaxDepth then Inl ErrDepth
      else Inr \<lparr>cl_seed = makeSeed, cl_depth = depth\<rparr>)"

text \<open>\<open>addresses_loop hash packet next offset n\<close>: the extension-header loop with \<open>n\<close> rounds left.\<close>

fun addresses_loop :: "bytes \<Rightarrow> bytes \<Rightarrow> byte \<Rightarrow> nat \<Rightarrow> nat \<Rightarrow> bytes \<times> (byte \<times> bytes) option" where
  "addresses_loop hash packet next offset 0 = (hash, None)"
| "addresses_loop hash packet next offset (Suc n) =
     (if next = 0 \<or> next = 43 \<or> next = 60 then
        (if offset + 2 > length packet then (hash, None)
         else
           (let headerLen = (unat (packet ! (offset + 1)) + 1) * 8 in
            if offset + headerLen > length packet then (hash, None)
            else addresses_loop hash packet (packet ! offset) (offset + headerLen) n))
      else if next = 51 then
        (if offset + 2 > length packet then (hash, None)
         else
           (let headerLen = (unat (packet ! (offset + 1)) + 2) * 4 in
            if offset + headerLen > length packet then (hash, None)
            else addresses_loop hash packet (packet ! offset) (offset + headerLen) n))
      else (hash @ [next], Some (next, drop offset packet)))"

definition writeAddresses :: "bytes \<Rightarrow> bytes \<Rightarrow> bytes \<times> (byte \<times> bytes) option" where
  "writeAddresses hash packet =
     (if length packet = 0 then (hash, None)
      else if drop_bit 4 (packet ! 0) = 4 then
        (if length packet < 20 then (hash, None)
         else
           (let headerLen = unat (packet ! 0 AND 0x0f) * 4 in
            if headerLen < 20 \<or> headerLen > length packet then (hash, None)
            else (hash @ subslice 12 20 packet @ [packet ! 9], Some (packet ! 9, drop headerLen packet))))
      else if drop_bit 4 (packet ! 0) = 6 then
        (if length packet < 40 then (hash, None)
         else addresses_loop (hash @ subslice 8 40 packet) packet (packet ! 6) 40 4)
      else (hash, None))"

definition vxlanInner :: "bytes \<Rightarrow> bytes option" where
  "vxlanInner udp =
     (if length udp < 8 + 8 + 14 then None
      else
        (let frame = drop 16 udp;
             etherType = Uint16 (subslice 12 14 frame)
         in
         if etherType = 0x8100 \<and> length frame < 18 then None
         else
           (let (etherType, payload) =
                  (if etherType = 0x8100 then (Uint16 (subslice 16 18 frame), drop 18 frame)
                   else (etherType, drop 14 frame))
            in if etherType = 0x0800 \<or> etherType = 0x86dd then Some payload else None)))"

text \<open>The depth is between 1 and 4, so the recursion is on a natural number.\<close>

function writeFlow :: "bytes \<Rightarrow> bytes \<Rightarrow> nat \<Rightarrow> bytes" where
  "writeFlow hash packet depth =
     (case writeAddresses hash packet of
        (hash, None) \<Rightarrow> hash
      | (hash, Some (transport, payload)) \<Rightarrow>
          (if transport = 6 \<or> transport = 17 \<or> transport = 132 then
             (if length payload < 4 then hash
              else
                (let ports = take 4 payload;
                     hash = hash @ ports
                 in
                 if depth \<le> 1 \<or> transport \<noteq> 17 \<or> Uint16 (subslice 2 4 ports) \<noteq> vxlanPort then hash
                 else
                   (case vxlanInner payload of
                      None \<Rightarrow> hash
                    | Some inner \<Rightarrow> writeFlow hash inner (depth - 1))))
           else hash))"
  by pat_completeness auto
termination
  by (relation "measure (\<lambda>(hash, packet, depth). depth)") auto

declare writeFlow.simps [simp del]

definition Classifier_Lane :: "('seed \<Rightarrow> bytes \<Rightarrow> u64) \<Rightarrow> 'seed Classifier \<Rightarrow> bytes \<Rightarrow> byte" where
  "Classifier_Lane sum64 c packet =
     (let hash = writeFlow [] packet (nat (cl_depth c)) in ucast (sum64 (cl_seed c) hash))"

subsection \<open>What is hashed\<close>

text \<open>
  The flow key of an IPv4 packet: both addresses, the protocol and, for TCP, UDP and SCTP, the ports.
\<close>

definition ipv4_flow :: "bytes \<Rightarrow> bytes" where
  "ipv4_flow packet =
     (let transport = drop (unat (packet ! 0 AND 0x0f) * 4) packet in
      subslice 12 20 packet @ [packet ! 9] @
      (if packet ! 9 \<in> {6, 17, 132} \<and> 4 \<le> length transport then take 4 transport else []))"

lemma writeAddresses_ipv4:
  assumes "ipv4_datagram packet"
  shows "writeAddresses hash packet =
    (hash @ subslice 12 20 packet @ [packet ! 9], Some (packet ! 9, drop (unat (packet ! 0 AND 0x0f) * 4) packet))"
  using assms by (auto simp: writeAddresses_def ipv4_datagram_def Let_def)

lemma addresses_loop_prefix: "\<exists>k. fst (addresses_loop hash packet next offset n) = hash @ k \<and> length k \<le> 1"
  by (induction hash packet "next" offset n rule: addresses_loop.induct) (auto simp: Let_def)

lemma writeAddresses_prefix: "\<exists>k. fst (writeAddresses hash packet) = hash @ k \<and> length k \<le> 33"
proof -
  have v6: "\<exists>k. fst (addresses_loop (hash @ subslice 8 40 packet) packet next 40 4) = hash @ k \<and> length k \<le> 33"
    if "40 \<le> length packet" for "next"
    using addresses_loop_prefix [of "hash @ subslice 8 40 packet" packet "next" 40 4] that by auto
  then show ?thesis
    by (auto simp: writeAddresses_def Let_def)
qed

lemma writeFlow_extends:
  "\<exists>k. writeFlow hash packet depth = hash @ k \<and> length k \<le> 37 * max 1 depth"
proof (induction hash packet depth rule: writeFlow.induct)
  case (1 hash packet depth)
  obtain k0 res where w: "writeAddresses hash packet = (hash @ k0, res)" and k0: "length k0 \<le> 33"
    using writeAddresses_prefix [of hash packet] by (metis prod.collapse)
  show ?case
  proof (cases res)
    case None
    then show ?thesis using w k0 by (simp add: writeFlow.simps [of hash])
  next
    case (Some tp)
    obtain transport payload where tp: "tp = (transport, payload)" by (cases tp)
    let ?ports = "take 4 payload"
    let ?stop = "\<not> (transport = 6 \<or> transport = 17 \<or> transport = 132) \<or> length payload < 4"
    let ?flat = "depth \<le> 1 \<or> transport \<noteq> 17 \<or> Uint16 (subslice 2 4 ?ports) \<noteq> vxlanPort \<or> vxlanInner payload = None"
    consider (stop) ?stop | (flat) "\<not> ?stop" ?flat | (inner) inner where "\<not> ?stop" "\<not> ?flat" "vxlanInner payload = Some inner"
      by auto
    then show ?thesis
    proof cases
      case stop
      then have "writeFlow hash packet depth = hash @ k0"
        using w Some tp by (auto simp: writeFlow.simps [of hash])
      then show ?thesis using k0 by auto
    next
      case flat
      then have "writeFlow hash packet depth = hash @ k0 @ ?ports"
        using w Some tp by (auto simp: writeFlow.simps [of hash] Let_def)
      then show ?thesis using k0 by auto
    next
      case inner
      then have "writeFlow hash packet depth = writeFlow ((hash @ k0) @ ?ports) inner (depth - 1)"
        using w Some tp by (auto simp: writeFlow.simps [of hash] Let_def)
      moreover have "\<exists>k. writeFlow ((hash @ k0) @ ?ports) inner (depth - 1) = ((hash @ k0) @ ?ports) @ k \<and>
          length k \<le> 37 * max 1 (depth - 1)"
        using inner by (intro "1.IH" [OF w [symmetric] Some tp [symmetric] _ _ refl refl]) auto
      moreover have "37 + 37 * max 1 (depth - 1) = 37 * max 1 depth"
        using inner by (auto simp: max_def)
      ultimately show ?thesis
        using k0 inner by auto
    qed
  qed
qed

text \<open>A deeper classifier starts from what a classifier of depth 1 hashes.\<close>

lemma writeFlow_outer: "1 \<le> depth \<Longrightarrow> \<exists>k. writeFlow hash packet depth = writeFlow hash packet 1 @ k"
proof -
  obtain hash1 res where w: "writeAddresses hash packet = (hash1, res)" by fastforce
  have "\<exists>k. writeFlow ((hash1) @ take 4 payload) inner (depth - 1) = (hash1 @ take 4 payload) @ k" for payload inner
    using writeFlow_extends by blast
  then show ?thesis
    unfolding writeFlow.simps [of hash packet] by (auto simp: w Let_def split: option.splits)
qed

lemma writeFlow_ipv4:
  assumes "ipv4_datagram packet" and "depth \<le> 1"
  shows "writeFlow hash packet depth = hash @ ipv4_flow packet"
  using assms(2)
  by (subst writeFlow.simps) (auto simp: writeAddresses_ipv4 [OF assms(1)] ipv4_flow_def Let_def)

lemma addresses_loop_chain:
  assumes "ext_chain packet next offset k next' offset'" and "k < n" and "next' \<notin> {0, 43, 51, 60}"
  shows "addresses_loop hash packet next offset n = (hash @ [next'], Some (next', drop offset' packet))"
  using assms
proof (induction arbitrary: n rule: ext_chain.induct)
  case (here "next" offset)
  then show ?case by (cases n) auto
next
  case (hop "next" offset k next' offset')
  then obtain m where n: "n = Suc m" "k < m" by (cases n) auto
  then show ?case
    using hop by (auto simp: ext_header_len_def Let_def)
qed

subsection \<open>Properties\<close>


definition sample_ipv4_other :: bytes where
  "sample_ipv4_other =
     [0x46, 8, 0, 32, 7, 7, 0x40, 0, 9, 17, 0, 0, 10, 0, 0, 1, 10, 0, 0, 2, 0, 0, 0, 0, 1, 2, 3, 4, 5, 6, 7, 8]"


text \<open>
  Unwrapping encapsulations only refines a flow: whatever depth a classifier has, what it hashes is
  what a classifier of depth 1 hashes for the same packet followed by more bytes, at most 37 for each
  level; malformed or unknown payloads add nothing.
\<close>

theorem writeFlow_refines_outer_flow:
  assumes "1 \<le> depth"
  shows "\<exists>k. writeFlow [] packet depth = writeFlow [] packet 1 @ k \<and> length (writeFlow [] packet depth) \<le> 37 * depth"
  using writeFlow_outer [OF assms, of "[]" packet] writeFlow_extends [of "[]" packet depth] assms
  by (auto simp: max_def split: if_splits)

theorem writeFlow_refines_outer_flow_witness:
  "\<exists>k. writeFlow [] sample_ipv4 4 = writeFlow [] sample_ipv4 1 @ k \<and> length (writeFlow [] sample_ipv4 4) \<le> 37 * 4"
  by (rule writeFlow_refines_outer_flow) simp

end
