(* ===== verification/KeyIndex.thy ===== *)
theory KeyIndex
  imports Prelude
begin

text \<open>
  The loops of the fixed open-address index in \<^verbatim>\<open>internal/core/reassembly/reassembly.go\<close>
  (\<^verbatim>\<open>findKey\<close>, \<^verbatim>\<open>insertKey\<close>, \<^verbatim>\<open>removeKey\<close>, \<^verbatim>\<open>deleteKeyPosition\<close>, \<^verbatim>\<open>keyDistance\<close>) over a list of
  cells.  A cell is 0 when empty and otherwise a slot index plus one.  What the loops read
  from the slots is an argument: the test that a slot has the wanted key, and the home position
  of a slot.  The second half proves that linear probing with backshift deletion represents a
  set of slots exactly.
\<close>

subsection \<open>The loops\<close>

definition keyDistance :: "int \<Rightarrow> int \<Rightarrow> int \<Rightarrow> int" where
  "keyDistance from to keyMask = (to - from) AND keyMask"

text \<open>\<open>find_loop cells keyMask match position n\<close>: the probe loop of \<^verbatim>\<open>findKey\<close> with \<open>n\<close> probes left.\<close>

fun find_loop :: "nat list \<Rightarrow> nat \<Rightarrow> (nat \<Rightarrow> bool) \<Rightarrow> nat \<Rightarrow> nat \<Rightarrow> nat option" where
  "find_loop cells keyMask match position 0 = None"
| "find_loop cells keyMask match position (Suc n) =
     (let entry = cells ! position in
      if entry = 0 then None
      else if match (entry - 1) then Some (entry - 1)
      else find_loop cells keyMask match ((position + 1) AND keyMask) n)"

text \<open>The probe loop of \<^verbatim>\<open>removeKey\<close> returns the position of the matching entry.\<close>

fun remove_loop :: "nat list \<Rightarrow> nat \<Rightarrow> (nat \<Rightarrow> bool) \<Rightarrow> nat \<Rightarrow> nat \<Rightarrow> nat option" where
  "remove_loop cells keyMask match position 0 = None"
| "remove_loop cells keyMask match position (Suc n) =
     (let entry = cells ! position in
      if entry = 0 then None
      else if match (entry - 1) then Some position
      else remove_loop cells keyMask match ((position + 1) AND keyMask) n)"

text \<open>The loop of \<^verbatim>\<open>insertKey\<close>; \<open>None\<close> is the panic of a full index.\<close>

fun insert_loop :: "nat list \<Rightarrow> nat \<Rightarrow> nat \<Rightarrow> nat \<Rightarrow> nat \<Rightarrow> nat list option" where
  "insert_loop cells keyMask index position 0 = None"
| "insert_loop cells keyMask index position (Suc n) =
     (if cells ! position = 0 then Some (cells[position := index + 1])
      else insert_loop cells keyMask index ((position + 1) AND keyMask) n)"

text \<open>
  The loop of \<^verbatim>\<open>deleteKeyPosition\<close> has no bound in the source.  Here it has fuel; running out of
  fuel is \<open>None\<close>, and \<open>delete_loop_Some\<close> below shows that as many rounds as there are cells suffice.
\<close>

fun delete_loop :: "nat \<Rightarrow> nat list \<Rightarrow> nat \<Rightarrow> (nat \<Rightarrow> nat) \<Rightarrow> nat \<Rightarrow> nat \<Rightarrow> nat list option" where
  "delete_loop 0 cells keyMask home position next = None"
| "delete_loop (Suc fuel) cells keyMask home position next =
     (if cells ! next = 0 then Some cells
      else
        (let entry = cells ! next;
             h = int (home (entry - 1))
         in
         if keyDistance h (int next) (int keyMask) > keyDistance h (int position) (int keyMask)
         then delete_loop fuel (cells[position := entry, next := 0]) keyMask home next ((next + 1) AND keyMask)
         else delete_loop fuel cells keyMask home position ((next + 1) AND keyMask)))"

definition delete_position :: "nat list \<Rightarrow> nat \<Rightarrow> (nat \<Rightarrow> nat) \<Rightarrow> nat \<Rightarrow> nat list option" where
  "delete_position cells keyMask home position =
     delete_loop (length cells) (cells[position := 0]) keyMask home position ((position + 1) AND keyMask)"

subsection \<open>Cyclic distance\<close>

definition cdist :: "nat \<Rightarrow> nat \<Rightarrow> nat \<Rightarrow> nat" where
  "cdist N a b = (if a \<le> b then b - a else b + N - a)"

definition cnext :: "nat \<Rightarrow> nat \<Rightarrow> nat" where
  "cnext N a = (if a + 1 < N then a + 1 else 0)"

lemma and_mask_nat: "x AND (2 ^ k - 1) = x mod 2 ^ k" for x :: nat
  by (metis mask_eq_exp_minus_1 take_bit_eq_mask take_bit_eq_mod)

lemma and_mask_int: "x AND (2 ^ k - 1) = x mod 2 ^ k" for x :: int
  by (metis mask_eq_exp_minus_1 take_bit_eq_mask take_bit_eq_mod)

lemma step_position:
  assumes "N = 2 ^ k" and "keyMask = N - 1" and "a < N"
  shows "(a + 1) AND keyMask = cnext N a"
  using assms and_mask_nat [of "a + 1" k] by (simp add: cnext_def) (metis Suc_lessI mod_self)

lemma keyDistance_cdist:
  assumes "N = 2 ^ k" and "keyMask = N - 1" and "a < N" and "b < N"
  shows "keyDistance (int a) (int b) (int keyMask) = int (cdist N a b)"
proof -
  have "int keyMask = 2 ^ k - 1" using assms(1,2) by (simp add: of_nat_diff)
  then have "keyDistance (int a) (int b) (int keyMask) = (int b - int a) mod int N"
    by (simp add: keyDistance_def and_mask_int assms(1))
  also have "\<dots> = int (cdist N a b)"
  proof (cases "a \<le> b")
    case True
    then show ?thesis using assms(4) by (simp add: cdist_def of_nat_diff)
  next
    case False
    have "(int b - int a) mod int N = (int b - int a + int N) mod int N" by simp
    also have "\<dots> = int b - int a + int N"
      using False assms(3) by (intro mod_pos_pos_trivial) auto
    finally show ?thesis using False assms(3) by (simp add: cdist_def of_nat_diff)
  qed
  finally show ?thesis .
qed

lemma cnext_less [simp]: "a < N \<Longrightarrow> cnext N a < N"
  by (auto simp: cnext_def)

lemma cdist_less: "a < N \<Longrightarrow> b < N \<Longrightarrow> cdist N a b < N"
  by (auto simp: cdist_def)

lemma cdist_0: "a < N \<Longrightarrow> b < N \<Longrightarrow> cdist N a b = 0 \<longleftrightarrow> a = b"
  by (auto simp: cdist_def)

lemma cdist_cnext: "a < N \<Longrightarrow> b < N \<Longrightarrow> a \<noteq> b \<Longrightarrow> cdist N a b = Suc (cdist N (cnext N a) b)"
  by (auto simp: cdist_def cnext_def)

subsection \<open>The representation invariant\<close>

text \<open>
  \<open>probe_ok N home cells\<close>: every occupied cell is reachable from its home position through occupied
  cells.  \<open>index_of cells\<close> is the set of slots the cells refer to.  A table represents the set \<open>L\<close> when it
  is reachable, holds each slot of \<open>L\<close> once and nothing else, and has an empty cell.
\<close>

definition probe_ok :: "nat \<Rightarrow> (nat \<Rightarrow> nat) \<Rightarrow> nat list \<Rightarrow> bool" where
  "probe_ok N home cells \<longleftrightarrow>
     (\<forall>p < N. cells ! p \<noteq> 0 \<longrightarrow>
        (\<forall>q < N. cdist N (home (cells ! p - 1)) q < cdist N (home (cells ! p - 1)) p \<longrightarrow> cells ! q \<noteq> 0))"

definition represents :: "nat \<Rightarrow> (nat \<Rightarrow> nat) \<Rightarrow> nat list \<Rightarrow> nat set \<Rightarrow> bool" where
  "represents N home cells L \<longleftrightarrow>
     length cells = N \<and> probe_ok N home cells \<and>
     (\<forall>i. i \<in> L \<longleftrightarrow> Suc i \<in> set cells) \<and>
     (\<forall>p < N. \<forall>q < N. cells ! p = cells ! q \<longrightarrow> cells ! p \<noteq> 0 \<longrightarrow> p = q) \<and>
     0 \<in> set cells \<and> (\<forall>i\<in>L. home i < N)"

definition table_shape :: "nat \<Rightarrow> nat \<Rightarrow> nat \<Rightarrow> bool" where
  "table_shape N k keyMask \<longleftrightarrow> N = 2 ^ k \<and> keyMask = N - 1"

lemma table_step: "table_shape N k keyMask \<Longrightarrow> a < N \<Longrightarrow> (a + 1) AND keyMask = cnext N a"
  unfolding table_shape_def by (metis step_position)

lemmas table_step_Suc = table_step [simplified]

lemma table_distance:
  "table_shape N k keyMask \<Longrightarrow> a < N \<Longrightarrow> b < N \<Longrightarrow> keyDistance (int a) (int b) (int keyMask) = int (cdist N a b)"
  unfolding table_shape_def by (metis keyDistance_cdist)

lemma represents_position:
  assumes "represents N home cells L" and "i \<in> L"
  obtains p where "p < N" and "cells ! p = Suc i"
  using assms by (auto simp: represents_def in_set_conv_nth)

lemma represents_entry:
  assumes "represents N home cells L" and "p < N" and "cells ! p \<noteq> 0"
  shows "cells ! p - 1 \<in> L" and "home (cells ! p - 1) < N"
proof -
  have "cells ! p \<in> set cells" using assms by (auto simp: represents_def)
  then have "Suc (cells ! p - 1) \<in> set cells" using assms(3) by simp
  then show "cells ! p - 1 \<in> L" using assms(1) by (simp add: represents_def)
  then show "home (cells ! p - 1) < N" using assms(1) by (simp add: represents_def)
qed

subsection \<open>Lookup\<close>

lemma find_loop_Some:
  "find_loop cells keyMask match position n = Some i \<Longrightarrow> match i"
  by (induction cells keyMask match position n rule: find_loop.induct) (auto simp: Let_def split: if_splits)

lemma find_loop_in:
  assumes "table_shape (length cells) k keyMask" and "position < length cells"
    and "find_loop cells keyMask match position n = Some i"
  shows "Suc i \<in> set cells"
  using assms
proof (induction n arbitrary: position)
  case 0
  then show ?case by simp
next
  case (Suc n)
  have step: "(position + 1) AND keyMask < length cells"
    using Suc.prems(1,2) by (simp add: table_step_Suc)
  show ?case
    using Suc.prems Suc.IH [OF Suc.prems(1) step] by (auto simp: Let_def split: if_splits)
qed

text \<open>
  The walk to a cell: if every cell from \<open>q\<close> up to \<open>p\<close> is occupied and \<open>p\<close> is the first that matches, both
  probe loops stop there.
\<close>

lemma probe_walk:
  assumes "table_shape N k keyMask" and "length cells = N" and "q < N" and "p < N"
    and "\<forall>x < N. cdist N q x < cdist N q p \<longrightarrow> cells ! x \<noteq> 0 \<and> \<not> match (cells ! x - 1)"
    and "cells ! p \<noteq> 0" and "match (cells ! p - 1)" and "cdist N q p < n"
  shows "find_loop cells keyMask match q n = Some (cells ! p - 1) \<and>
    remove_loop cells keyMask match q n = Some p"
  using assms
proof (induction n arbitrary: q)
  case 0
  then show ?case by simp
next
  case (Suc n)
  show ?case
  proof (cases "q = p")
    case True
    then show ?thesis using Suc.prems by (simp add: Let_def)
  next
    case False
    note d = cdist_cnext [OF Suc.prems(3,4) False]
    have q: "cells ! q \<noteq> 0 \<and> \<not> match (cells ! q - 1)"
      using Suc.prems(3,5) d by (simp add: cdist_def)
    have "find_loop cells keyMask match (cnext N q) n = Some (cells ! p - 1) \<and>
        remove_loop cells keyMask match (cnext N q) n = Some p"
    proof (rule Suc.IH [OF Suc.prems(1,2) _ Suc.prems(4) _ Suc.prems(6,7)])
      show "\<forall>x < N. cdist N (cnext N q) x < cdist N (cnext N q) p \<longrightarrow> cells ! x \<noteq> 0 \<and> \<not> match (cells ! x - 1)"
      proof (intro allI impI)
        fix x assume x: "x < N" "cdist N (cnext N q) x < cdist N (cnext N q) p"
        then have "cdist N q x < cdist N q p"
          using cdist_cnext [OF Suc.prems(3) x(1)] d by (cases "x = q") (auto simp: cdist_def)
        then show "cells ! x \<noteq> 0 \<and> \<not> match (cells ! x - 1)" using Suc.prems(5) x(1) by blast
      qed
    qed (use Suc.prems d in simp_all)
    then show ?thesis
      using q Suc.prems(1,3) by (simp add: Let_def table_step_Suc)
  qed
qed

lemma find_represents:
  assumes "table_shape N k keyMask" and "represents N home cells L" and "i \<in> L"
    and "match i" and "\<forall>j\<in>L. match j \<longrightarrow> j = i"
  shows "find_loop cells keyMask match (home i) N = Some i"
    and "\<exists>p < N. cells ! p = Suc i \<and> remove_loop cells keyMask match (home i) N = Some p"
proof -
  obtain p where p: "p < N" "cells ! p = Suc i"
    using assms(2,3) by (rule represents_position)
  have r: "length cells = N" "probe_ok N home cells" "home i < N"
    "\<forall>x < N. \<forall>y < N. cells ! x = cells ! y \<longrightarrow> cells ! x \<noteq> 0 \<longrightarrow> x = y"
    using assms(2,3) by (auto simp: represents_def)
  have path: "cells ! x \<noteq> 0 \<and> \<not> match (cells ! x - 1)"
    if "x < N" "cdist N (home i) x < cdist N (home i) p" for x
  proof -
    have ne: "cells ! x \<noteq> 0"
      using r(2) p that by (auto simp: probe_ok_def)
    have "cells ! x - 1 \<noteq> i"
    proof
      assume "cells ! x - 1 = i"
      then have "cells ! x = cells ! p" using ne p(2) by auto
      then have "x = p" using r(4) ne that(1) p(1) by blast
      then show False using that(2) by simp
    qed
    then have "\<not> match (cells ! x - 1)"
      using assms(5) represents_entry(1) [OF assms(2) that(1) ne] by auto
    with ne show ?thesis by simp
  qed
  have "find_loop cells keyMask match (home i) N = Some (cells ! p - 1) \<and>
      remove_loop cells keyMask match (home i) N = Some p"
    using path p assms(4) cdist_less [OF r(3) p(1)]
    by (intro probe_walk [OF assms(1) r(1,3) p(1)]) auto
  then show "find_loop cells keyMask match (home i) N = Some i"
    and "\<exists>p < N. cells ! p = Suc i \<and> remove_loop cells keyMask match (home i) N = Some p"
    using p by auto
qed

lemma find_absent:
  assumes "table_shape N k keyMask" and "represents N home cells L" and "\<forall>j\<in>L. \<not> match j" and "position < N"
  shows "find_loop cells keyMask match position n = None"
proof (rule ccontr)
  assume "find_loop cells keyMask match position n \<noteq> None"
  then obtain i where i: "find_loop cells keyMask match position n = Some i" by auto
  then have "i \<in> L"
    using find_loop_in [of cells k keyMask position match n i] assms by (simp add: represents_def)
  then show False using find_loop_Some [OF i] assms(3) by blast
qed

lemma remove_loop_Some:
  assumes "table_shape N k keyMask" and "length cells = N" and "position < N"
    and "remove_loop cells keyMask match position n = Some p"
  shows "p < N \<and> cells ! p \<noteq> 0 \<and> match (cells ! p - 1)"
  using assms
proof (induction n arbitrary: position)
  case 0
  then show ?case by simp
next
  case (Suc n)
  note next_IH = Suc.IH [OF Suc.prems(1,2) cnext_less [OF Suc.prems(3)]]
  show ?case
    using Suc.prems next_IH
    by (cases "cells ! position = 0"; cases "match (cells ! position - 1)") (auto simp: Let_def table_step_Suc)
qed

lemma remove_absent:
  assumes "table_shape N k keyMask" and "represents N home cells L" and "\<forall>j\<in>L. \<not> match j" and "position < N"
  shows "remove_loop cells keyMask match position n = None"
proof (rule ccontr)
  assume "remove_loop cells keyMask match position n \<noteq> None"
  then obtain p where p: "remove_loop cells keyMask match position n = Some p" by auto
  have "length cells = N" using assms(2) by (simp add: represents_def)
  from remove_loop_Some [OF assms(1) this assms(4) p] show False
    using represents_entry(1) [OF assms(2)] assms(3) by blast
qed

subsection \<open>Insertion\<close>

lemma mem_list_update:
  assumes "p < length xs" and "x \<noteq> xs ! p"
  shows "x \<in> set (xs[p := y]) \<longleftrightarrow> x = y \<or> x \<in> set xs"
proof -
  have "x \<in> set (xs[p := y])" if "x \<in> set xs"
  proof -
    obtain q where "q < length xs" "xs ! q = x" using \<open>x \<in> set xs\<close> by (auto simp: in_set_conv_nth)
    then show ?thesis using assms(2) by (metis length_list_update nth_list_update_neq nth_mem)
  qed
  moreover have "y \<in> set (xs[p := y])"
    using assms(1) by (rule set_update_memI)
  ultimately show ?thesis
    using set_update_subset_insert [of xs p y] by auto
qed

lemma insert_walk:
  assumes "table_shape N k keyMask" and "length cells = N" and "q < N" and "z < N" and "cells ! z = 0"
    and "cdist N q z < n"
  shows "\<exists>p < N. cells ! p = 0 \<and> (\<forall>x < N. cdist N q x < cdist N q p \<longrightarrow> cells ! x \<noteq> 0) \<and>
    insert_loop cells keyMask index q n = Some (cells[p := Suc index])"
  using assms
proof (induction n arbitrary: q)
  case 0
  then show ?case by simp
next
  case (Suc n)
  show ?case
  proof (cases "cells ! q = 0")
    case True
    then show ?thesis using Suc.prems(3) by (intro exI [of _ q]) (auto simp: cdist_def)
  next
    case False
    then have ne: "q \<noteq> z" using Suc.prems(5) by auto
    note d = cdist_cnext [OF Suc.prems(3,4) ne]
    obtain p where p: "p < N" "cells ! p = 0"
      "\<forall>x < N. cdist N (cnext N q) x < cdist N (cnext N q) p \<longrightarrow> cells ! x \<noteq> 0"
      "insert_loop cells keyMask index (cnext N q) n = Some (cells[p := Suc index])"
      using Suc.IH [OF Suc.prems(1,2) _ Suc.prems(4,5), of "cnext N q"] Suc.prems(3,6) d by auto
    have "p \<noteq> q" using p(2) False by auto
    then have "cells ! x \<noteq> 0" if "x < N" "cdist N q x < cdist N q p" for x
      using that p(1,3) False cdist_cnext [OF Suc.prems(3) that(1)] cdist_cnext [OF Suc.prems(3) p(1)]
      by (cases "x = q") auto
    then show ?thesis
      using p False Suc.prems(1,3) by (intro exI [of _ p]) (simp add: table_step_Suc)
  qed
qed

lemma occupied_card:
  assumes "represents N home cells L"
  shows "card {p. p < N \<and> cells ! p \<noteq> 0} = card L"
proof (rule bij_betw_same_card)
  show "bij_betw (\<lambda>p. cells ! p - 1) {p. p < N \<and> cells ! p \<noteq> 0} L"
  proof (rule bij_betw_imageI)
    show "inj_on (\<lambda>p. cells ! p - 1) {p. p < N \<and> cells ! p \<noteq> 0}"
    proof (rule inj_onI)
      fix p q
      assume a: "p \<in> {p. p < N \<and> cells ! p \<noteq> 0}" "q \<in> {p. p < N \<and> cells ! p \<noteq> 0}" "cells ! p - 1 = cells ! q - 1"
      then have "cells ! p = cells ! q" by auto
      then show "p = q" using assms a by (simp add: represents_def)
    qed
    have "i \<in> (\<lambda>p. cells ! p - 1) ` {p. p < N \<and> cells ! p \<noteq> 0}" if i: "i \<in> L" for i
    proof -
      obtain p where "p < N" "cells ! p = Suc i" by (rule represents_position [OF assms i])
      then show ?thesis by (intro image_eqI [of _ _ p]) auto
    qed
    then show "(\<lambda>p. cells ! p - 1) ` {p. p < N \<and> cells ! p \<noteq> 0} = L"
      using represents_entry(1) [OF assms] by auto
  qed
qed

lemma insert_represents:
  assumes "table_shape N k keyMask" and "represents N home cells L" and "i \<notin> L" and "home i < N"
    and "card L + 1 < N"
  obtains cells' where "insert_loop cells keyMask i (home i) N = Some cells'"
    and "represents N home cells' (insert i L)"
proof -
  have r: "length cells = N" "probe_ok N home cells" "\<forall>i. i \<in> L \<longleftrightarrow> Suc i \<in> set cells"
    "\<forall>x < N. \<forall>y < N. cells ! x = cells ! y \<longrightarrow> cells ! x \<noteq> 0 \<longrightarrow> x = y" "\<forall>i\<in>L. home i < N"
    using assms(2) by (auto simp: represents_def)
  obtain z where "z < N" "cells ! z = 0"
    using assms(2) by (auto simp: represents_def in_set_conv_nth)
  from insert_walk [OF assms(1) r(1) assms(4) this cdist_less [OF assms(4) this(1)], of i]
  obtain p where p: "p < N" "cells ! p = 0" "\<forall>x < N. cdist N (home i) x < cdist N (home i) p \<longrightarrow> cells ! x \<noteq> 0"
    "insert_loop cells keyMask i (home i) N = Some (cells[p := Suc i])" by blast
  let ?c = "cells[p := Suc i]"
  have nth: "?c ! x = (if x = p then Suc i else cells ! x)" if "x < N" for x
    using that r(1) by (simp add: nth_list_update)
  have fresh: "cells ! x \<noteq> Suc i" if "x < N" for x
    using that r(1,3) assms(3) nth_mem by metis
  have "?c ! y \<noteq> 0"
    if "x < N" "?c ! x \<noteq> 0" "y < N" "cdist N (home (?c ! x - 1)) y < cdist N (home (?c ! x - 1)) x" for x y
  proof -
    have "cells ! y \<noteq> 0"
    proof (cases "x = p")
      case True
      then show ?thesis using that(3,4) p(1,3) nth [of p] by simp
    next
      case False
      then have "?c ! x = cells ! x" using nth [OF that(1)] by simp
      then show ?thesis using that r(2) unfolding probe_ok_def by metis
    qed
    then show ?thesis using nth [OF that(3)] by simp
  qed
  then have "probe_ok N home ?c"
    unfolding probe_ok_def by blast
  moreover have "Suc j \<in> set ?c \<longleftrightarrow> j = i \<or> Suc j \<in> set cells" for j
    using p(1,2) r(1) by (subst mem_list_update) auto
  moreover have "\<forall>x < N. \<forall>y < N. ?c ! x = ?c ! y \<longrightarrow> ?c ! x \<noteq> 0 \<longrightarrow> x = y"
    using r(4) fresh by (simp add: nth) metis
  moreover have "0 \<in> set ?c"
  proof (rule ccontr)
    assume "0 \<notin> set ?c"
    then have "cells ! x \<noteq> 0" if "x < N" "x \<noteq> p" for x
      using that r(1) nth [of x] by (metis length_list_update nth_mem)
    then have "{..<N} - {p} \<subseteq> {p. p < N \<and> cells ! p \<noteq> 0}" by auto
    then have "N - 1 \<le> card L"
      using occupied_card [OF assms(2)] p(1) card_mono [of "{p. p < N \<and> cells ! p \<noteq> 0}" "{..<N} - {p}"] by simp
    then show False using assms(5) by simp
  qed
  ultimately have "represents N home ?c (insert i L)"
    using r(1,3,5) assms(4) by (simp add: represents_def)
  with p(4) show thesis by (rule that)
qed

subsection \<open>Backshift deletion\<close>

text \<open>
  While \<open>deleteKeyPosition\<close> runs there is a hole \<open>h\<close> and a scan position \<open>x\<close> behind it.  Every occupied cell is
  still reachable from its home except through the hole, and the cells between the hole and the
  scan position are occupied by entries that do not need the hole.
\<close>

definition hole_ok :: "nat \<Rightarrow> (nat \<Rightarrow> nat) \<Rightarrow> nat list \<Rightarrow> nat \<Rightarrow> nat \<Rightarrow> bool" where
  "hole_ok N home cells h x \<longleftrightarrow>
     h < N \<and> x < N \<and> x \<noteq> h \<and> length cells = N \<and> cells ! h = 0 \<and>
     (\<forall>p < N. cells ! p \<noteq> 0 \<longrightarrow> home (cells ! p - 1) < N \<and>
        (\<forall>q < N. q \<noteq> h \<longrightarrow> cdist N (home (cells ! p - 1)) q < cdist N (home (cells ! p - 1)) p \<longrightarrow> cells ! q \<noteq> 0)) \<and>
     (\<forall>p < N. p \<noteq> h \<longrightarrow> cdist N h p < cdist N h x \<longrightarrow>
        cells ! p \<noteq> 0 \<and> cdist N (home (cells ! p - 1)) p < cdist N h p)"

lemma hole_okD:
  assumes "hole_ok N home cells h x"
  shows "h < N" "x < N" "x \<noteq> h" "length cells = N" "cells ! h = 0"
    and "p < N \<Longrightarrow> cells ! p \<noteq> 0 \<Longrightarrow> home (cells ! p - 1) < N"
    and "p < N \<Longrightarrow> cells ! p \<noteq> 0 \<Longrightarrow> q < N \<Longrightarrow> q \<noteq> h \<Longrightarrow>
      cdist N (home (cells ! p - 1)) q < cdist N (home (cells ! p - 1)) p \<Longrightarrow> cells ! q \<noteq> 0"
    and "p < N \<Longrightarrow> p \<noteq> h \<Longrightarrow> cdist N h p < cdist N h x \<Longrightarrow>
      cells ! p \<noteq> 0 \<and> cdist N (home (cells ! p - 1)) p < cdist N h p"
  using assms unfolding hole_ok_def by blast+

lemma hole_okI:
  assumes "h < N" "x < N" "x \<noteq> h" "length cells = N" "cells ! h = 0"
    and "\<And>p. p < N \<Longrightarrow> cells ! p \<noteq> 0 \<Longrightarrow> home (cells ! p - 1) < N"
    and "\<And>p q. p < N \<Longrightarrow> cells ! p \<noteq> 0 \<Longrightarrow> q < N \<Longrightarrow> q \<noteq> h \<Longrightarrow>
      cdist N (home (cells ! p - 1)) q < cdist N (home (cells ! p - 1)) p \<Longrightarrow> cells ! q \<noteq> 0"
    and "\<And>p. p < N \<Longrightarrow> p \<noteq> h \<Longrightarrow> cdist N h p < cdist N h x \<Longrightarrow>
      cells ! p \<noteq> 0 \<and> cdist N (home (cells ! p - 1)) p < cdist N h p"
  shows "hole_ok N home cells h x"
  unfolding hole_ok_def using assms by blast

lemma cdist_via: "a < N \<Longrightarrow> h < N \<Longrightarrow> p < N \<Longrightarrow> cdist N a h < cdist N a p \<Longrightarrow> cdist N a p = cdist N a h + cdist N h p"
  by (auto simp: cdist_def split: if_splits)

lemma cdist_on_path:
  "a < N \<Longrightarrow> h < N \<Longrightarrow> p < N \<Longrightarrow> x < N \<Longrightarrow> cdist N a h < cdist N a p \<Longrightarrow> cdist N h x < cdist N h p \<Longrightarrow>
    cdist N a x < cdist N a p"
  by (auto simp: cdist_def split: if_splits)

lemma hole_closed:
  assumes "hole_ok N home cells h x" and "cells ! x = 0"
  shows "probe_ok N home cells"
  unfolding probe_ok_def
proof (intro allI impI)
  fix p q
  let ?a = "home (cells ! p - 1)"
  assume p: "p < N" "cells ! p \<noteq> 0" and q: "q < N" "cdist N ?a q < cdist N ?a p"
  note d = hole_okD [OF assms(1)]
  have a: "?a < N" using d(6) p by blast
  show "cells ! q \<noteq> 0"
  proof (cases "q = h")
    case False
    then show ?thesis using d(7) p q by blast
  next
    case True
    have "p \<noteq> h" "p \<noteq> x" using p(2) d(5) assms(2) by auto
    have via: "cdist N ?a p = cdist N ?a h + cdist N h p"
      using cdist_via [OF a d(1) p(1)] q(2) True by simp
    show ?thesis
    proof (cases "cdist N h p < cdist N h x")
      case True
      then show ?thesis using d(8) [OF p(1) \<open>p \<noteq> h\<close>] via by simp
    next
      case False
      then have "cdist N h x < cdist N h p"
        using \<open>p \<noteq> x\<close> p(1) d(1,2) by (auto simp: cdist_def split: if_splits)
      then have "cdist N ?a x < cdist N ?a p"
        using cdist_on_path [OF a d(1) p(1) d(2)] q(2) \<open>q = h\<close> by blast
      then show ?thesis using d(7) [OF p d(2,3)] assms(2) by simp
    qed
  qed
qed

lemma cdist_next_self: "x < N \<Longrightarrow> h < N \<Longrightarrow> x \<noteq> h \<Longrightarrow> cdist N x (cnext N x) = 1 \<and> cnext N x \<noteq> x"
  by (auto simp: cdist_def cnext_def)

lemma hole_move:
  assumes "hole_ok N home cells h x" and "cells ! x \<noteq> 0"
    and "cdist N (home (cells ! x - 1)) h < cdist N (home (cells ! x - 1)) x"
  shows "hole_ok N home (cells[h := cells ! x, x := 0]) x (cnext N x)"
proof -
  note d = hole_okD [OF assms(1)]
  let ?c = "cells[h := cells ! x, x := 0]"
  have nth: "?c ! p = (if p = x then 0 else if p = h then cells ! x else cells ! p)" if "p < N" for p
    using that d(4) by (simp add: nth_list_update)
  have chain: "home (?c ! p - 1) < N \<and> ?c ! q \<noteq> 0"
    if p: "p < N" "?c ! p \<noteq> 0" and q: "q < N" "q \<noteq> x"
      "cdist N (home (?c ! p - 1)) q < cdist N (home (?c ! p - 1)) p" for p q
  proof -
    have "p \<noteq> x" using p nth by auto
    show ?thesis
    proof (cases "p = h")
      case True
      then have e: "?c ! p = cells ! x" using nth [OF p(1)] \<open>p \<noteq> x\<close> by simp
      then have "q \<noteq> h" "cdist N (home (cells ! x - 1)) q < cdist N (home (cells ! x - 1)) x"
        using q(3) True assms(3) by auto
      then have "cells ! q \<noteq> 0" using d(7) [OF d(2) assms(2) q(1)] by blast
      then show ?thesis
        using nth [OF q(1)] q(2) d(6) [OF d(2) assms(2)] e \<open>q \<noteq> h\<close> by simp
    next
      case False
      then have e: "?c ! p = cells ! p" using nth [OF p(1)] \<open>p \<noteq> x\<close> by simp
      then have "cells ! q \<noteq> 0" if "q \<noteq> h"
        using d(7) [OF p(1) _ q(1) that] p(2) q(3) by simp
      then show ?thesis
        using nth [OF q(1)] q(2) d(6) [OF p(1)] p(2) e assms(2) by simp
    qed
  qed
  have "home (?c ! p - 1) < N" if "p < N" "?c ! p \<noteq> 0" for p
    using that nth [OF that(1)] d(6) [OF that(1)] d(6) [OF d(2) assms(2)] by (auto split: if_splits)
  moreover have "\<not> (p \<noteq> x \<and> cdist N x p < cdist N x (cnext N x))" if "p < N" for p
    using cdist_next_self [OF d(2,1,3)] cdist_0 [OF d(2) that] by auto
  moreover have "length ?c = N" "?c ! x = 0"
    using d(4) nth [OF d(2)] by simp_all
  ultimately show ?thesis
    using chain d(2) cnext_less [OF d(2)] cdist_next_self [OF d(2,1,3)] by (intro hole_okI) blast+
qed

lemma hole_skip:
  assumes "hole_ok N home cells h x" and "cells ! x \<noteq> 0"
    and "\<not> cdist N (home (cells ! x - 1)) h < cdist N (home (cells ! x - 1)) x"
    and "cnext N x \<noteq> h"
  shows "hole_ok N home cells h (cnext N x)"
proof -
  note d = hole_okD [OF assms(1)]
  have a: "home (cells ! x - 1) < N" using d(6) [OF d(2) assms(2)] .
  have fixed: "cdist N (home (cells ! x - 1)) x < cdist N h x"
    using assms(3) a d(1-3) by (auto simp: cdist_def split: if_splits)
  have next_d: "cdist N h (cnext N x) = Suc (cdist N h x)"
    using d(1-3) assms(4) by (auto simp: cdist_def cnext_def split: if_splits)
  have "cells ! p \<noteq> 0 \<and> cdist N (home (cells ! p - 1)) p < cdist N h p"
    if "p < N" "p \<noteq> h" "cdist N h p < cdist N h (cnext N x)" for p
  proof (cases "p = x")
    case True
    then show ?thesis using assms(2) fixed by simp
  next
    case False
    then have "cdist N h p \<noteq> cdist N h x"
      using that(1) d(1,2) by (auto simp: cdist_def split: if_splits)
    then show ?thesis using d(8) [OF that(1,2)] that(3) next_d by simp
  qed
  then show ?thesis
    using d(1,2,4-7) assms(4) cnext_less [OF d(2)] by (intro hole_okI) blast+
qed

definition inj_cells :: "nat list \<Rightarrow> bool" where
  "inj_cells cells \<longleftrightarrow> (\<forall>x < length cells. \<forall>y < length cells. cells ! x = cells ! y \<longrightarrow> cells ! x \<noteq> 0 \<longrightarrow> x = y)"

lemma move_entries:
  assumes "h < length cells" and "x < length cells" and "cells ! h = 0"
  shows "set (cells[h := cells ! x, x := 0]) = set cells"
    and "inj_cells cells \<Longrightarrow> inj_cells (cells[h := cells ! x, x := 0])"
proof -
  have "set (cells[h := cells ! x, x := cells ! h]) = set cells"
    using assms(1,2) by (rule set_swap)
  then show "set (cells[h := cells ! x, x := 0]) = set cells" using assms(3) by simp
  have nth: "cells[h := cells ! x, x := 0] ! p = (if p = x then 0 else if p = h then cells ! x else cells ! p)"
    if "p < length cells" for p
    using that by (simp add: nth_list_update)
  show "inj_cells (cells[h := cells ! x, x := 0])" if "inj_cells cells"
    using that assms(1,2) unfolding inj_cells_def by (simp add: nth) (metis neq0_conv)
qed

lemma delete_loop_Some:
  assumes "table_shape N k keyMask" and "hole_ok N home cells h x" and "inj_cells cells"
    and "z < N" and "cells ! z = 0" and "z \<noteq> h" and "cdist N h x \<le> cdist N h z" and "cdist N x z < fuel"
  shows "\<exists>cells'. delete_loop fuel cells keyMask home h x = Some cells' \<and> probe_ok N home cells' \<and>
    length cells' = N \<and> set cells' = set cells \<and> inj_cells cells'"
  using assms
proof (induction fuel arbitrary: cells h x)
  case 0
  then show ?case by simp
next
  case (Suc fuel)
  note d = hole_okD [OF Suc.prems(2)]
  show ?case
  proof (cases "cells ! x = 0")
    case True
    then show ?thesis
      using hole_closed [OF Suc.prems(2)] d(4) Suc.prems(3) by simp
  next
    case False
    then have xz: "x \<noteq> z" using Suc.prems(5) by auto
    note a = d(6) [OF d(2) False]
    note dist = table_distance [OF Suc.prems(1) a d(1)] table_distance [OF Suc.prems(1) a d(2)]
    have nz: "cdist N x z = Suc (cdist N (cnext N x) z)" by (rule cdist_cnext [OF d(2) Suc.prems(4) xz])
    show ?thesis
    proof (cases "cdist N (home (cells ! x - 1)) h < cdist N (home (cells ! x - 1)) x")
      case True
      let ?c = "cells[h := cells ! x, x := 0]"
      have "\<exists>cells'. delete_loop fuel ?c keyMask home x (cnext N x) = Some cells' \<and>
          probe_ok N home cells' \<and> length cells' = N \<and> set cells' = set ?c \<and> inj_cells cells'"
      proof (rule Suc.IH [OF Suc.prems(1) hole_move [OF Suc.prems(2) False True] _ Suc.prems(4)])
        show "inj_cells ?c" using Suc.prems(3) d(1,2,4,5) by (simp add: move_entries(2))
        show "?c ! z = 0" using Suc.prems(4-6) xz by simp
        show "z \<noteq> x" using xz by simp
        show "cdist N x (cnext N x) \<le> cdist N x z" using cdist_next_self [OF d(2,1,3)] nz by simp
        show "cdist N (cnext N x) z < fuel" using nz Suc.prems(8) by simp
      qed
      then show ?thesis
        using True False dist d(1,2,4,5) Suc.prems(1)
        by (simp add: Let_def table_step_Suc move_entries(1))
    next
      case skip: False
      have step: "cdist N h (cnext N x) = Suc (cdist N h x)" "cnext N x \<noteq> h"
        using Suc.prems(4,7) xz d(1-3) by (auto simp: cdist_def cnext_def split: if_splits)
      have "\<exists>cells'. delete_loop fuel cells keyMask home h (cnext N x) = Some cells' \<and>
          probe_ok N home cells' \<and> length cells' = N \<and> set cells' = set cells \<and> inj_cells cells'"
      proof (rule Suc.IH [OF Suc.prems(1) _ Suc.prems(3-6)])
        show "hole_ok N home cells h (cnext N x)"
          by (rule hole_skip [OF Suc.prems(2) False skip step(2)])
        show "cdist N h (cnext N x) \<le> cdist N h z"
          using step(1) Suc.prems(4,7) xz d(1,2) by (auto simp: cdist_def split: if_splits)
        show "cdist N (cnext N x) z < fuel" using nz Suc.prems(8) by simp
      qed
      then show ?thesis
        using skip False dist d(2) Suc.prems(1) by (simp add: Let_def table_step_Suc)
    qed
  qed
qed

lemma represents_inj: "represents N home cells L \<Longrightarrow> inj_cells cells"
  by (simp add: represents_def inj_cells_def)

lemma clear_entries:
  assumes "inj_cells cells" and "p < length cells" and "cells ! p = Suc i"
  shows "inj_cells (cells[p := 0])" and "Suc j \<in> set (cells[p := 0]) \<longleftrightarrow> Suc j \<in> set cells \<and> j \<noteq> i"
    and "0 \<in> set (cells[p := 0])"
proof -
  have nth: "cells[p := 0] ! q = (if q = p then 0 else cells ! q)" if "q < length cells" for q
    using that by (simp add: nth_list_update)
  show "inj_cells (cells[p := 0])"
    using assms(1) unfolding inj_cells_def by (simp add: nth)
  have other: "cells ! q \<noteq> Suc i" if "q < length cells" "q \<noteq> p" for q
    using assms that unfolding inj_cells_def by (metis Suc_neq_Zero)
  show "Suc j \<in> set (cells[p := 0]) \<longleftrightarrow> Suc j \<in> set cells \<and> j \<noteq> i"
  proof (cases "j = i")
    case True
    have "cells[p := 0] ! q \<noteq> Suc i" if "q < length cells" for q
      using nth [OF that] other [OF that] by simp
    then show ?thesis using True by (auto simp: in_set_conv_nth)
  next
    case False
    then show ?thesis using assms(2,3) by (simp add: mem_list_update)
  qed
  show "0 \<in> set (cells[p := 0])"
    using assms(2) by (rule set_update_memI)
qed

lemma hole_start:
  assumes "represents N home cells L" and "p < N" and "cells ! p \<noteq> 0" and "z < N" and "z \<noteq> p"
  shows "hole_ok N home (cells[p := 0]) p (cnext N p)"
proof -
  have r: "length cells = N" "probe_ok N home cells"
    using assms(1) by (simp_all add: represents_def)
  have nth: "cells[p := 0] ! q = (if q = p then 0 else cells ! q)" if "q < N" for q
    using that r(1) by (simp add: nth_list_update)
  have step: "cdist N p (cnext N p) = 1" "cnext N p \<noteq> p"
    using cdist_next_self [OF assms(2,4)] assms(5) by auto
  have "home (cells[p := 0] ! x - 1) < N" if "x < N" "cells[p := 0] ! x \<noteq> 0" for x
    using that represents_entry(2) [OF assms(1)] nth by (auto split: if_splits)
  moreover have "cells[p := 0] ! y \<noteq> 0"
    if x: "x < N" "cells[p := 0] ! x \<noteq> 0" and y: "y < N" "y \<noteq> p"
      "cdist N (home (cells[p := 0] ! x - 1)) y < cdist N (home (cells[p := 0] ! x - 1)) x" for x y
  proof -
    have "cells[p := 0] ! x = cells ! x" using nth [OF x(1)] x(2) by (auto split: if_splits)
    then have "cells ! y \<noteq> 0" using r(2) x y(1,3) unfolding probe_ok_def by metis
    then show ?thesis using nth [OF y(1)] y(2) by simp
  qed
  moreover have "\<not> (x \<noteq> p \<and> cdist N p x < cdist N p (cnext N p))" if "x < N" for x
    using step(1) cdist_0 [OF assms(2) that] by auto
  ultimately show ?thesis
    using assms(2) step(2) r(1) cnext_less [OF assms(2)] by (intro hole_okI) (simp | blast)+
qed

lemma delete_represents:
  assumes "table_shape N k keyMask" and "represents N home cells L" and "p < N" and "cells ! p = Suc i"
  obtains cells' where "delete_position cells keyMask home p = Some cells'"
    and "represents N home cells' (L - {i})"
proof -
  have r: "length cells = N" "0 \<in> set cells" "\<forall>i. i \<in> L \<longleftrightarrow> Suc i \<in> set cells" "\<forall>i\<in>L. home i < N"
    using assms(2) by (simp_all add: represents_def)
  obtain z where z: "z < N" "cells ! z = 0"
    using r(1,2) by (auto simp: in_set_conv_nth)
  have zp: "z \<noteq> p" using z(2) assms(4) by auto
  note cl = clear_entries [OF represents_inj [OF assms(2)], of p i, unfolded r(1), OF assms(3,4)]
  have "\<exists>cells'. delete_loop N (cells[p := 0]) keyMask home p (cnext N p) = Some cells' \<and>
      probe_ok N home cells' \<and> length cells' = N \<and> set cells' = set (cells[p := 0]) \<and> inj_cells cells'"
  proof (rule delete_loop_Some [OF assms(1) hole_start [OF assms(2,3) _ z(1) zp] cl(1) z(1) _ zp])
    show "cells ! p \<noteq> 0" "cells[p := 0] ! z = 0" using assms(4) z(2) zp by simp_all
    show "cdist N p (cnext N p) \<le> cdist N p z"
      using cdist_next_self [OF assms(3) z(1)] cdist_0 [OF assms(3) z(1)] zp by auto
    show "cdist N (cnext N p) z < N" using assms(3) z(1) by (simp add: cdist_less)
  qed
  then obtain cells' where c: "delete_loop N (cells[p := 0]) keyMask home p (cnext N p) = Some cells'"
    "probe_ok N home cells'" "length cells' = N" "set cells' = set (cells[p := 0])" "inj_cells cells'" by blast
  have "represents N home cells' (L - {i})"
    using c cl r(3,4) by (simp add: represents_def inj_cells_def)
  moreover have "delete_position cells keyMask home p = Some cells'"
    using c(1) assms(1,3) r(1) by (simp add: delete_position_def table_step_Suc)
  ultimately show thesis by (rule that [rotated])
qed

lemma represents_empty: "0 < N \<Longrightarrow> represents N home (replicate N 0) {}"
  by (simp add: represents_def probe_ok_def)

lemma represents_cong:
  assumes "represents N home cells L" and "\<And>i. i \<in> L \<Longrightarrow> home' i = home i"
  shows "represents N home' cells L"
proof -
  have eq: "home' (cells ! p - 1) = home (cells ! p - 1)" if "p < N" "cells ! p \<noteq> 0" for p
    using represents_entry(1) [OF assms(1) that] assms(2) by simp
  have "probe_ok N home cells" using assms(1) by (simp add: represents_def)
  then have "probe_ok N home' cells"
    unfolding probe_ok_def using eq by metis
  then show ?thesis
    using assms by (simp add: represents_def)
qed

end
