(* ===== verification/Reassembly.thy ===== *)
theory Reassembly
  imports KeyIndex Fragment "HOL-Library.Monad_Syntax"
begin

text \<open>
  \<^verbatim>\<open>internal/core/reassembly/reassembly.go\<close>.  The reassembler owns a fixed number of slots, a free
  list threaded through them, a counter of slots per peer and the open-address index of
  \<open>KeyIndex\<close>.  Every operation of the source is a definition; an operation that can panic, or that
  runs a loop without a bound, returns an option whose \<open>None\<close> is the panic or the endless loop.  The
  buffers are disjoint parts of one allocation, so each slot carries its own list of bytes.
  Go's \<^verbatim>\<open>-1\<close> for "no slot" is \<open>None\<close>, except in the free list, where the integers are kept.
  The index \<^verbatim>\<open>r.slots[i]\<close> is \<open>ra_slots r ! i\<close>.
\<close>

definition maxFragments :: byte where "maxFragments = 16"

datatype reassembly_error =
    ErrInvalidConfig
  | ErrInvalidPeer
  | ErrInvalidKey
  | ErrKeyMismatch
  | ra_ErrInvalidFragment
  | ra_ErrInvalidRange
  | ErrFragmentCountMismatch
  | ErrFragmentConflict
  | ErrFragmentOverlap
  | ErrCoverage
  | ErrPeerQuota
  | ErrNoSlot
  | ErrInvalidHandle
  | ErrCompletedPacketConflict

type_synonym PeerID = u32

record Key =
  k_PeerID :: PeerID
  k_DataSessionID :: u16
  k_LaneID :: byte
  k_LaneSequence :: u32

record ReassemblyConfig =
  rg_Slots :: int
  rg_MaxPacketSize :: int
  rg_MaxPeers :: int
  rg_PerPeerSlots :: int
  rg_Lifetime :: duration

datatype ResultStatus = StatusAccepted | StatusDuplicate | StatusCompleted

record SlotHandle =
  sh_index :: int
  sh_generation :: u64

record Packet =
  pk_Handle :: SlotHandle
  pk_Key :: Key
  pk_Data :: bytes

record ReassemblyResult =
  rr_Status :: ResultStatus
  rr_Packet :: "Packet option"
  rr_Evicted :: bool
  rr_EvictedKey :: Key

datatype slotState = slotFree | slotAssembling | slotCompleted

record slot =
  sl_state :: slotState
  sl_detached :: bool
  sl_counted :: bool
  sl_freeNext :: int
  sl_generation :: u64
  sl_born :: u64
  sl_key :: Key
  sl_firstSeen :: gotime
  sl_count :: byte
  sl_present :: u16
  sl_offsets :: "u16 list"
  sl_lengths :: "u16 list"
  sl_packetLen :: nat
  sl_buf :: bytes

record Reassembler =
  ra_config :: ReassemblyConfig
  ra_slots :: "slot list"
  ra_peerCounts :: "u32 list"
  ra_keySlots :: "nat list"
  ra_keyMask :: u64
  ra_freeHead :: int
  ra_nextBorn :: u64

definition zero_key :: Key where
  "zero_key = \<lparr>k_PeerID = 0, k_DataSessionID = 0, k_LaneID = 0, k_LaneSequence = 0\<rparr>"

text \<open>The zero value of \<^verbatim>\<open>slot\<close> apart from the fields given.\<close>

definition zero_slot :: "u64 \<Rightarrow> int \<Rightarrow> bytes \<Rightarrow> slot" where
  "zero_slot generation freeNext buf =
     \<lparr>sl_state = slotFree, sl_detached = False, sl_counted = False, sl_freeNext = freeNext,
      sl_generation = generation, sl_born = 0, sl_key = zero_key, sl_firstSeen = 0, sl_count = 0,
      sl_present = 0, sl_offsets = replicate 16 0, sl_lengths = replicate 16 0, sl_packetLen = 0, sl_buf = buf\<rparr>"

definition maxInt :: int where "maxInt = 2 ^ 63 - 1"

text \<open>The doubling loop of \<^verbatim>\<open>keyIndexSize\<close>; its variable \<^verbatim>\<open>size\<close> is \<open>2 ^ k\<close>.\<close>

function size_loop :: "int \<Rightarrow> nat \<Rightarrow> reassembly_error + int" where
  "size_loop want k =
     (let size = 2 ^ k :: int in
      if size < want then
        (if size > maxInt div 2 then Inl ErrInvalidConfig else size_loop want (Suc k))
      else Inr size)"
  by pat_completeness auto
termination
  by (relation "measure (\<lambda>(want, k). nat (want - 2 ^ k))") auto

declare size_loop.simps [simp del]

definition keyIndexSize :: "int \<Rightarrow> reassembly_error + int" where
  "keyIndexSize slots =
     (if slots > maxInt div 2 then Inl ErrInvalidConfig else size_loop (slots * 2) 0)"

definition NewReassembler :: "ReassemblyConfig \<Rightarrow> reassembly_error + Reassembler" where
  "NewReassembler config =
     (if rg_Slots config \<le> 0 \<or> rg_MaxPacketSize config \<le> 0 \<or> rg_MaxPacketSize config > 2 ^ 16 - 1 \<or>
         rg_MaxPeers config \<le> 0 \<or> rg_PerPeerSlots config \<le> 0 \<or> rg_PerPeerSlots config > rg_Slots config \<or>
         rg_Lifetime config \<le> 0 \<or> rg_Slots config > maxInt div rg_MaxPacketSize config
      then Inl ErrInvalidConfig
      else
        (case keyIndexSize (rg_Slots config) of
           Inl err \<Rightarrow> Inl ErrInvalidConfig
         | Inr keySlots \<Rightarrow>
             (let n = nat (rg_Slots config);
                  slot = (\<lambda>i. zero_slot 0 (if i = n - 1 then -1 else int i + 1)
                                 (replicate (nat (rg_MaxPacketSize config)) 0))
              in Inr \<lparr>ra_config = config, ra_slots = map slot [0..<n],
                      ra_peerCounts = replicate (nat (rg_MaxPeers config)) 0,
                      ra_keySlots = replicate (nat keySlots) 0, ra_keyMask = of_int (keySlots - 1),
                      ra_freeHead = 0, ra_nextBorn = 0\<rparr>)))"

subsection \<open>The key index\<close>

definition hashKey :: "Key \<Rightarrow> u64" where
  "hashKey key =
     (let x = push_bit 40 (ucast (k_PeerID key)) OR push_bit 24 (ucast (k_DataSessionID key)) OR
              push_bit 16 (ucast (k_LaneID key));
          x = x XOR ucast (k_LaneSequence key);
          x = x + 0x9e3779b97f4a7c15;
          x = (x XOR drop_bit 30 x) * 0xbf58476d1ce4e5b9;
          x = (x XOR drop_bit 27 x) * 0x94d049bb133111eb
      in x XOR drop_bit 31 x)"

definition keyPosition :: "Reassembler \<Rightarrow> Key \<Rightarrow> nat" where
  "keyPosition r key = unat (hashKey key AND ra_keyMask r)"

definition findKey :: "Reassembler \<Rightarrow> Key \<Rightarrow> nat option" where
  "findKey r key =
     find_loop (ra_keySlots r) (unat (ra_keyMask r))
       (\<lambda>index. let s = ra_slots r ! index in \<not> sl_detached s \<and> sl_state s \<noteq> slotFree \<and> sl_key s = key)
       (keyPosition r key) (length (ra_keySlots r))"

definition insertKey :: "Reassembler \<Rightarrow> nat \<Rightarrow> Reassembler option" where
  "insertKey r index =
     (let key = sl_key (ra_slots r ! index) in
      map_option (\<lambda>cells. r\<lparr>ra_keySlots := cells\<rparr>)
        (insert_loop (ra_keySlots r) (unat (ra_keyMask r)) index (keyPosition r key) (length (ra_keySlots r))))"

definition deleteKeyPosition :: "Reassembler \<Rightarrow> nat \<Rightarrow> Reassembler option" where
  "deleteKeyPosition r position =
     map_option (\<lambda>cells. r\<lparr>ra_keySlots := cells\<rparr>)
       (delete_position (ra_keySlots r) (unat (ra_keyMask r))
          (\<lambda>index. keyPosition r (sl_key (ra_slots r ! index))) position)"

definition removeKey :: "Reassembler \<Rightarrow> Key \<Rightarrow> Reassembler option" where
  "removeKey r key =
     (case remove_loop (ra_keySlots r) (unat (ra_keyMask r)) (\<lambda>index. sl_key (ra_slots r ! index) = key)
             (keyPosition r key) (length (ra_keySlots r)) of
        None \<Rightarrow> Some r
      | Some position \<Rightarrow> deleteKeyPosition r position)"

subsection \<open>Slots\<close>

definition set_slot :: "Reassembler \<Rightarrow> nat \<Rightarrow> slot \<Rightarrow> Reassembler" where
  "set_slot r index s = r\<lparr>ra_slots := (ra_slots r)[index := s]\<rparr>"

definition slot_expired :: "Reassembler \<Rightarrow> slot \<Rightarrow> gotime \<Rightarrow> bool" where
  "slot_expired r s now = (\<not> now < sl_firstSeen s + rg_Lifetime (ra_config r))"

definition uncount :: "Reassembler \<Rightarrow> nat \<Rightarrow> Reassembler" where
  "uncount r index =
     (let s = ra_slots r ! index in
      if \<not> sl_counted s then r
      else
        (let peer = unat (k_PeerID (sl_key s));
             counts = (if ra_peerCounts r ! peer > 0
                       then (ra_peerCounts r)[peer := ra_peerCounts r ! peer - 1] else ra_peerCounts r)
         in set_slot (r\<lparr>ra_peerCounts := counts\<rparr>) index (s\<lparr>sl_counted := False\<rparr>)))"

definition clearSlot :: "Reassembler \<Rightarrow> nat \<Rightarrow> Reassembler option" where
  "clearSlot r index =
     (let s = ra_slots r ! index in
      if sl_state s = slotFree then Some r
      else do {
        r1 \<leftarrow> (if \<not> sl_detached s then removeKey r (sl_key s) else Some r);
        let r2 = uncount r1 index;
        let s2 = ra_slots r2 ! index;
        Some ((set_slot r2 index (zero_slot (sl_generation s2) (ra_freeHead r2)
                 (take (nat (rg_MaxPacketSize (ra_config r2))) (sl_buf s2))))\<lparr>ra_freeHead := int index\<rparr>)
      })"

text \<open>Indexing outside the slots panics, as does a slot of the free list that is not free.\<close>

definition takeFreeSlot :: "Reassembler \<Rightarrow> (Reassembler \<times> nat option) option" where
  "takeFreeSlot r =
     (let index = ra_freeHead r in
      if index < 0 then Some (r, None)
      else if nat index \<ge> length (ra_slots r) then None
      else
        (let s = ra_slots r ! nat index in
         if sl_state s \<noteq> slotFree then None
         else Some ((set_slot r (nat index) (s\<lparr>sl_freeNext := -1\<rparr>))\<lparr>ra_freeHead := sl_freeNext s\<rparr>, Some (nat index))))"

definition startSlot :: "Reassembler \<Rightarrow> nat \<Rightarrow> gotime \<Rightarrow> Key \<Rightarrow> byte \<Rightarrow> Reassembler option" where
  "startSlot r index now key count =
     (let s = ra_slots r ! index;
          buf = take (nat (rg_MaxPacketSize (ra_config r))) (sl_buf s);
          born = ra_nextBorn r + 1;
          peer = unat (k_PeerID key);
          r1 = (set_slot r index
                 ((zero_slot (sl_generation s + 1) 0 buf)
                    \<lparr>sl_state := slotAssembling, sl_counted := True, sl_born := born, sl_key := key,
                     sl_firstSeen := now, sl_count := count\<rparr>))
               \<lparr>ra_nextBorn := born, ra_peerCounts := (ra_peerCounts r)[peer := ra_peerCounts r ! peer + 1]\<rparr>
      in insertKey r1 index)"

text \<open>One round of the scan for the oldest assembling slot.\<close>

definition older :: "Reassembler \<Rightarrow> PeerID \<Rightarrow> bool \<Rightarrow> nat option \<Rightarrow> nat \<Rightarrow> nat option" where
  "older r peer samePeer oldest i =
     (let s = ra_slots r ! i in
      if sl_state s \<noteq> slotAssembling \<or> (samePeer \<and> k_PeerID (sl_key s) \<noteq> peer) then oldest
      else
        (case oldest of
           None \<Rightarrow> Some i
         | Some best \<Rightarrow>
             (if sl_firstSeen s < sl_firstSeen (ra_slots r ! best) \<or>
                 (sl_firstSeen s = sl_firstSeen (ra_slots r ! best) \<and> sl_born s < sl_born (ra_slots r ! best))
              then Some i else oldest)))"

definition oldestAssembling :: "Reassembler \<Rightarrow> PeerID \<Rightarrow> bool \<Rightarrow> nat option" where
  "oldestAssembling r peer samePeer = foldl (older r peer samePeer) None [0..<length (ra_slots r)]"

definition replaceSlot ::
    "Reassembler \<Rightarrow> nat \<Rightarrow> gotime \<Rightarrow> Key \<Rightarrow> byte \<Rightarrow> (Reassembler \<times> (nat \<times> Key \<times> bool) option) option" where
  "replaceSlot r index now key count =
     do {
       let evicted = sl_key (ra_slots r ! index);
       r1 \<leftarrow> clearSlot r index;
       (r2, got) \<leftarrow> takeFreeSlot r1;
       if got \<noteq> Some index then None
       else do {
         r3 \<leftarrow> startSlot r2 index now key count;
         Some (r3, Some (index, evicted, True))
       }
     }"

definition allocateSlot ::
    "Reassembler \<Rightarrow> gotime \<Rightarrow> Key \<Rightarrow> byte \<Rightarrow> (Reassembler \<times> (nat \<times> Key \<times> bool) option) option" where
  "allocateSlot r now key count =
     (if int (unat (ra_peerCounts r ! unat (k_PeerID key))) \<ge> rg_PerPeerSlots (ra_config r) then
        (case oldestAssembling r (k_PeerID key) True of
           None \<Rightarrow> Some (r, None)
         | Some oldest \<Rightarrow> replaceSlot r oldest now key count)
      else do {
        (r1, free) \<leftarrow> takeFreeSlot r;
        (case free of
           Some index \<Rightarrow> do {
             r2 \<leftarrow> startSlot r1 index now key count;
             Some (r2, Some (index, zero_key, False))
           }
         | None \<Rightarrow>
             (case oldestAssembling r1 0 False of
                None \<Rightarrow> Some (r1, None)
              | Some oldest \<Rightarrow> replaceSlot r1 oldest now key count))
      })"

definition dropAssemblingKey :: "Reassembler \<Rightarrow> Key \<Rightarrow> Reassembler option" where
  "dropAssemblingKey r key =
     (case findKey r key of
        Some index \<Rightarrow> if sl_state (ra_slots r ! index) = slotAssembling then clearSlot r index else Some r
      | None \<Rightarrow> Some r)"

definition conflict ::
    "Reassembler \<Rightarrow> nat \<Rightarrow> reassembly_error \<Rightarrow> (Reassembler \<times> (reassembly_error + ReassemblyResult)) option" where
  "conflict r index err =
     (if sl_state (ra_slots r ! index) = slotCompleted then Some (r, Inl ErrCompletedPacketConflict)
      else do { r1 \<leftarrow> clearSlot r index; Some (r1, Inl err) })"

subsection \<open>Fragments\<close>

text \<open>\<open>contiguous_loop s n next used\<close>: the last \<open>n\<close> rounds of the loop in \<^verbatim>\<open>contiguousLength\<close>.\<close>

fun contiguous_loop :: "slot \<Rightarrow> nat \<Rightarrow> nat \<Rightarrow> u16 \<Rightarrow> nat option" where
  "contiguous_loop s 0 next used = Some next"
| "contiguous_loop s (Suc n) next used =
     (case find (\<lambda>i. used AND push_bit i 1 = 0 \<and> unat (sl_offsets s ! i) = next) [0..<unat (sl_count s)] of
        None \<Rightarrow> None
      | Some found \<Rightarrow> contiguous_loop s n (next + unat (sl_lengths s ! found)) (used OR push_bit found 1))"

definition contiguousLength :: "slot \<Rightarrow> nat option" where
  "contiguousLength s = contiguous_loop s (unat (sl_count s)) 0 0"

definition overlaps :: "slot \<Rightarrow> nat \<Rightarrow> nat \<Rightarrow> bool" where
  "overlaps s start stop =
     list_ex (\<lambda>i. sl_present s AND push_bit i 1 \<noteq> 0 \<and>
        start < unat (sl_offsets s ! i) + unat (sl_lengths s ! i) \<and> unat (sl_offsets s ! i) < stop)
       [0..<unat (sl_count s)]"

text \<open>The part of \<^verbatim>\<open>Accept\<close> behind the choice of a slot.\<close>

definition accept_fragment ::
    "Reassembler \<Rightarrow> nat \<Rightarrow> Record \<Rightarrow> bool \<Rightarrow> Key \<Rightarrow> (Reassembler \<times> (reassembly_error + ReassemblyResult)) option" where
  "accept_fragment r index record evicted evictedKey =
     (let s = ra_slots r ! index;
          h = rc_Header record;
          result = (\<lambda>status packet. Inr \<lparr>rr_Status = status, rr_Packet = packet, rr_Evicted = evicted,
                                          rr_EvictedKey = evictedKey\<rparr>)
      in
      if sl_count s \<noteq> hd_FragmentCount h then conflict r index ErrFragmentCountMismatch
      else
        (let fragmentIndex = unat (hd_FragmentIndex h);
             bit = push_bit fragmentIndex 1 :: u16;
             start = unat (hd_Offset h);
             stop = start + length (rc_Data record)
         in
         if sl_present s AND bit \<noteq> 0 then
           (if unat (sl_offsets s ! fragmentIndex) = start \<and>
               unat (sl_lengths s ! fragmentIndex) = length (rc_Data record) \<and>
               subslice start stop (sl_buf s) = rc_Data record
            then Some (r, result StatusDuplicate None)
            else conflict r index ErrFragmentConflict)
         else if overlaps s start stop then conflict r index ErrFragmentOverlap
         else
           (let s1 = s\<lparr>sl_buf := copy_at start (rc_Data record) (sl_buf s),
                       sl_offsets := (sl_offsets s)[fragmentIndex := hd_Offset h],
                       sl_lengths := (sl_lengths s)[fragmentIndex := of_nat (length (rc_Data record))],
                       sl_present := sl_present s OR bit\<rparr>;
                r1 = set_slot r index s1;
                expected = push_bit (unat (sl_count s1)) 1 - 1 :: u16
            in
            if sl_present s1 \<noteq> expected then Some (r1, result StatusAccepted None)
            else
              (case contiguousLength s1 of
                 None \<Rightarrow> conflict r1 index ErrCoverage
               | Some packetLen \<Rightarrow>
                   (let s2 = s1\<lparr>sl_state := slotCompleted, sl_packetLen := packetLen\<rparr> in
                    Some (set_slot r1 index s2,
                          result StatusCompleted
                            (Some \<lparr>pk_Handle = \<lparr>sh_index = int index, sh_generation = sl_generation s2\<rparr>,
                                   pk_Key = sl_key s2, pk_Data = take packetLen (sl_buf s2)\<rparr>)))))))"

subsection \<open>Operations\<close>

definition validateKey :: "Reassembler \<Rightarrow> Key \<Rightarrow> reassembly_error option" where
  "validateKey r key =
     (if int (unat (k_PeerID key)) \<ge> rg_MaxPeers (ra_config r) then Some ErrInvalidPeer
      else if k_DataSessionID key = 0 then Some ErrInvalidKey
      else None)"

definition validateRecord :: "Reassembler \<Rightarrow> Key \<Rightarrow> Record \<Rightarrow> reassembly_error option" where
  "validateRecord r key record =
     (let h = rc_Header record in
      if hd_DataSessionID h \<noteq> k_DataSessionID key \<or> hd_LaneID h \<noteq> k_LaneID key \<or>
         hd_LaneSequence h \<noteq> k_LaneSequence key then Some ErrKeyMismatch
      else if hd_FragmentCount h < 1 \<or> hd_FragmentCount h > maxFragments \<or>
              hd_FragmentIndex h \<ge> hd_FragmentCount h then Some ra_ErrInvalidFragment
      else if length (rc_Data record) < 1 \<or> int (length (rc_Data record)) > rg_MaxPacketSize (ra_config r)
      then Some ra_ErrInvalidRange
      else if int (unat (hd_Offset h)) > rg_MaxPacketSize (ra_config r) - int (length (rc_Data record))
      then Some ra_ErrInvalidRange
      else None)"

definition Reassembler_Accept ::
    "Reassembler \<Rightarrow> gotime \<Rightarrow> Key \<Rightarrow> Record \<Rightarrow> (Reassembler \<times> (reassembly_error + ReassemblyResult)) option" where
  "Reassembler_Accept r now key record =
     (case validateKey r key of
        Some err \<Rightarrow> Some (r, Inl err)
      | None \<Rightarrow>
     (case validateRecord r key record of
        Some err \<Rightarrow> do { r1 \<leftarrow> dropAssemblingKey r key; Some (r1, Inl err) }
      | None \<Rightarrow> do {
          (r1, index) \<leftarrow>
            (case findKey r key of
               None \<Rightarrow> Some (r, None)
             | Some i \<Rightarrow>
                 (if sl_state (ra_slots r ! i) = slotAssembling \<and> slot_expired r (ra_slots r ! i) now
                  then do { r1 \<leftarrow> clearSlot r i; Some (r1, None) }
                  else Some (r, Some i)));
          (case index of
             Some i \<Rightarrow> accept_fragment r1 i record False zero_key
           | None \<Rightarrow> do {
               (r2, allocated) \<leftarrow> allocateSlot r1 now key (hd_FragmentCount (rc_Header record));
               (case allocated of
                  None \<Rightarrow>
                    Some (r2, Inl (if int (unat (ra_peerCounts r2 ! unat (k_PeerID key))) \<ge> rg_PerPeerSlots (ra_config r2)
                                   then ErrPeerQuota else ErrNoSlot))
                | Some (i, evicted, didEvict) \<Rightarrow> accept_fragment r2 i record didEvict evicted)
             })
        }))"

text \<open>The loops of \<^verbatim>\<open>Expire\<close> and \<^verbatim>\<open>PurgePeer\<close> go over the slot indexes in order.\<close>

fun expire_loop :: "Reassembler \<Rightarrow> gotime \<Rightarrow> nat \<Rightarrow> nat list \<Rightarrow> (Reassembler \<times> nat) option" where
  "expire_loop r now expired [] = Some (r, expired)"
| "expire_loop r now expired (i # is) =
     (let s = ra_slots r ! i in
      if sl_state s = slotAssembling \<and> slot_expired r s now
      then do { r1 \<leftarrow> clearSlot r i; expire_loop r1 now (expired + 1) is }
      else expire_loop r now expired is)"

definition Reassembler_Expire :: "Reassembler \<Rightarrow> gotime \<Rightarrow> (Reassembler \<times> nat) option" where
  "Reassembler_Expire r now = expire_loop r now 0 [0..<length (ra_slots r)]"

fun purge_loop :: "Reassembler \<Rightarrow> PeerID \<Rightarrow> nat \<Rightarrow> nat list \<Rightarrow> (Reassembler \<times> nat) option" where
  "purge_loop r peer purged [] = Some (r, purged)"
| "purge_loop r peer purged (i # is) =
     (let s = ra_slots r ! i in
      if sl_state s = slotFree \<or> k_PeerID (sl_key s) \<noteq> peer \<or> sl_detached s then purge_loop r peer purged is
      else if sl_state s = slotCompleted then do {
        r1 \<leftarrow> removeKey (set_slot r i (s\<lparr>sl_detached := True\<rparr>)) (sl_key s);
        purge_loop (uncount r1 i) peer (purged + 1) is
      }
      else do { r1 \<leftarrow> clearSlot r i; purge_loop r1 peer (purged + 1) is })"

definition Reassembler_PurgePeer :: "Reassembler \<Rightarrow> PeerID \<Rightarrow> (Reassembler \<times> nat) option" where
  "Reassembler_PurgePeer r peer =
     (if int (unat peer) \<ge> rg_MaxPeers (ra_config r) then Some (r, 0)
      else purge_loop r peer 0 [0..<length (ra_slots r)])"

definition Reassembler_Release :: "Reassembler \<Rightarrow> SlotHandle \<Rightarrow> (Reassembler \<times> reassembly_error option) option" where
  "Reassembler_Release r handle =
     (if sh_index handle < 0 \<or> sh_index handle \<ge> int (length (ra_slots r)) then Some (r, Some ErrInvalidHandle)
      else
        (let index = nat (sh_index handle);
             s = ra_slots r ! index
         in
         if sl_state s \<noteq> slotCompleted \<or> sl_generation s \<noteq> sh_generation handle then Some (r, Some ErrInvalidHandle)
         else do { r1 \<leftarrow> clearSlot r index; Some (r1, None) }))"

end
