(* ===== verification/ReassemblyInv.thy ===== *)
theory ReassemblyInv
  imports Reassembly
begin

text \<open>
  The invariant of the reassembler and that every operation keeps it: the index holds exactly the
  live slots, the free list threads exactly the free slots, the peer counters count the live
  slots of each peer, and the fragments recorded in a slot are disjoint ranges of its buffer.  The
  invariant implies that none of the panics of the source is reachable and that the unbounded
  loop of \<^verbatim>\<open>deleteKeyPosition\<close> ends.
\<close>

subsection \<open>The interface of a key index\<close>

text \<open>
  What a reassembler relies on: an index over numbered slots that finds the slot of a key, takes a
  further slot and forgets a key.  \<open>repr t L\<close> says that the index of \<open>t\<close> holds exactly the slots \<open>L\<close>.
\<close>

locale key_index =
  fixes lookup :: "'t \<Rightarrow> 'k \<Rightarrow> nat option"
    and ins :: "'t \<Rightarrow> nat \<Rightarrow> 't option"
    and rem :: "'t \<Rightarrow> 'k \<Rightarrow> 't option"
    and key_of :: "'t \<Rightarrow> nat \<Rightarrow> 'k"
    and repr :: "'t \<Rightarrow> nat set \<Rightarrow> bool"
    and fits :: "'t \<Rightarrow> nat \<Rightarrow> bool"
  assumes lookup_member: "repr t L \<Longrightarrow> i \<in> L \<Longrightarrow> lookup t (key_of t i) = Some i"
    and lookup_absent: "repr t L \<Longrightarrow> k \<notin> key_of t ` L \<Longrightarrow> lookup t k = None"
    and ins_ok: "repr t L \<Longrightarrow> fits t i \<Longrightarrow> key_of t i \<notin> key_of t ` L \<Longrightarrow>
      \<exists>t'. ins t i = Some t' \<and> repr t' (insert i L) \<and> key_of t' = key_of t"
    and rem_ok: "repr t L \<Longrightarrow> i \<in> L \<Longrightarrow>
      \<exists>t'. rem t (key_of t i) = Some t' \<and> repr t' (L - {i}) \<and> key_of t' = key_of t"
begin

lemma keys_distinct: "repr t L \<Longrightarrow> i \<in> L \<Longrightarrow> j \<in> L \<Longrightarrow> key_of t i = key_of t j \<Longrightarrow> i = j"
  by (metis lookup_member option.inject)

lemma lookup_Some:
  assumes "repr t L"
  shows "lookup t k = Some i \<longleftrightarrow> i \<in> L \<and> key_of t i = k"
proof (cases "k \<in> key_of t ` L")
  case True
  then obtain j where "j \<in> L" "k = key_of t j" by blast
  then show ?thesis
    using lookup_member [OF assms] keys_distinct [OF assms] by auto
next
  case False
  then show ?thesis using lookup_absent [OF assms] by auto
qed

lemma lookup_None: "repr t L \<Longrightarrow> lookup t k = None \<longleftrightarrow> (\<forall>i\<in>L. key_of t i \<noteq> k)"
  using lookup_Some [of t L k] by (cases "lookup t k") auto

lemma lookup_ins:
  assumes "repr t L" and "fits t i" and "key_of t i \<notin> key_of t ` L" and "ins t i = Some t'"
  shows "lookup t' k = (if k = key_of t i then Some i else lookup t k)"
proof -
  have r: "repr t' (insert i L)" "key_of t' = key_of t"
    using ins_ok [OF assms(1-3)] assms(4) by auto
  show ?thesis
    by (rule option_ext) (use lookup_Some [OF r(1)] lookup_Some [OF assms(1)] r(2) assms(3) in \<open>auto simp: image_iff\<close>)
qed

lemma lookup_rem:
  assumes "repr t L" and "i \<in> L" and "rem t (key_of t i) = Some t'"
  shows "lookup t' k = (if k = key_of t i then None else lookup t k)"
proof -
  have r: "repr t' (L - {i})" "key_of t' = key_of t"
    using rem_ok [OF assms(1,2)] assms(3) by auto
  show ?thesis
    by (rule option_ext) (use lookup_Some [OF r(1)] lookup_Some [OF assms(1)] r(2) keys_distinct [OF assms(1) _ assms(2)] in auto)
qed

end

subsection \<open>The index of the reassembler\<close>

definition key_at :: "Reassembler \<Rightarrow> nat \<Rightarrow> Key" where
  "key_at r i = sl_key (ra_slots r ! i)"

definition live :: "Reassembler \<Rightarrow> nat \<Rightarrow> bool" where
  "live r i \<longleftrightarrow> i < length (ra_slots r) \<and> sl_state (ra_slots r ! i) \<noteq> slotFree \<and> \<not> sl_detached (ra_slots r ! i)"

abbreviation home_of :: "Reassembler \<Rightarrow> nat \<Rightarrow> nat" where
  "home_of r i \<equiv> keyPosition r (key_at r i)"

text \<open>The index holds exactly the slots \<open>L\<close>, whose keys differ.\<close>

definition index_holds :: "Reassembler \<Rightarrow> nat set \<Rightarrow> bool" where
  "index_holds r L \<longleftrightarrow>
     (\<exists>k. table_shape (length (ra_keySlots r)) k (unat (ra_keyMask r))) \<and>
     represents (length (ra_keySlots r)) (home_of r) (ra_keySlots r) L \<and>
     L \<subseteq> {..<length (ra_slots r)} \<and> 2 * length (ra_slots r) \<le> length (ra_keySlots r) \<and>
     inj_on (key_at r) L"

definition index_live :: "Reassembler \<Rightarrow> nat set \<Rightarrow> bool" where
  "index_live r L \<longleftrightarrow> index_holds r L \<and> (\<forall>i\<in>L. live r i)"

lemma keyPosition_less:
  assumes "table_shape N k (unat (ra_keyMask r))"
  shows "keyPosition r key < N"
proof -
  have "unat (hashKey key AND ra_keyMask r) = unat (hashKey key) AND (2 ^ k - 1)"
    using assms by (simp add: unsigned_and_eq table_shape_def)
  also have "\<dots> < 2 ^ k" by (simp only: and_mask_nat) simp
  finally show ?thesis using assms by (simp add: keyPosition_def table_shape_def)
qed

lemma key_at_keySlots [simp]: "key_at (r\<lparr>ra_keySlots := c\<rparr>) = key_at r"
  by (rule ext) (simp add: key_at_def)

lemma keyPosition_keySlots [simp]: "keyPosition (r\<lparr>ra_keySlots := c\<rparr>) = keyPosition r"
  by (rule ext) (simp add: keyPosition_def)

lemma live_keySlots [simp]: "live (r\<lparr>ra_keySlots := c\<rparr>) = live r"
  by (rule ext) (simp add: live_def)

lemma represents_length: "represents N home cells L \<Longrightarrow> length cells = N"
  by (simp add: represents_def)

lemma index_remove:
  assumes "index_holds r L" and "i \<in> L"
  obtains cells where "removeKey r (key_at r i) = Some (r\<lparr>ra_keySlots := cells\<rparr>)"
    and "index_holds (r\<lparr>ra_keySlots := cells\<rparr>) (L - {i})"
proof -
  let ?N = "length (ra_keySlots r)" and ?m = "unat (ra_keyMask r)"
  from assms(1) obtain k where t: "table_shape ?N k ?m"
    and rep: "represents ?N (home_of r) (ra_keySlots r) L"
    and rest: "L \<subseteq> {..<length (ra_slots r)}" "2 * length (ra_slots r) \<le> ?N" "inj_on (key_at r) L"
    by (auto simp: index_holds_def)
  have uniq: "\<forall>j\<in>L. sl_key (ra_slots r ! j) = key_at r i \<longrightarrow> j = i"
    using rest(3) assms(2) by (auto simp: inj_on_def key_at_def)
  obtain p where p: "p < ?N" "ra_keySlots r ! p = Suc i"
    "remove_loop (ra_keySlots r) ?m (\<lambda>j. sl_key (ra_slots r ! j) = key_at r i) (home_of r i) ?N = Some p"
    using find_represents(2) [OF t rep assms(2) _ uniq] by (auto simp: key_at_def)
  obtain cells where c: "delete_position (ra_keySlots r) ?m (home_of r) p = Some cells"
    "represents ?N (home_of r) cells (L - {i})"
    by (rule delete_represents [OF t rep p(1,2)])
  have "removeKey r (key_at r i) = Some (r\<lparr>ra_keySlots := cells\<rparr>)"
    using p(3) c(1) by (simp add: removeKey_def deleteKeyPosition_def key_at_def)
  moreover have "index_holds (r\<lparr>ra_keySlots := cells\<rparr>) (L - {i})"
    using c(2) t rest represents_length [OF c(2)] by (auto simp: index_holds_def inj_on_def)
  ultimately show thesis by (rule that)
qed

lemma index_insert:
  assumes "index_holds r L" and "i < length (ra_slots r)" and "i \<notin> L" and "key_at r i \<notin> key_at r ` L"
  obtains cells where "insertKey r i = Some (r\<lparr>ra_keySlots := cells\<rparr>)"
    and "index_holds (r\<lparr>ra_keySlots := cells\<rparr>) (insert i L)"
proof -
  let ?N = "length (ra_keySlots r)" and ?m = "unat (ra_keyMask r)"
  from assms(1) obtain k where t: "table_shape ?N k ?m"
    and rep: "represents ?N (home_of r) (ra_keySlots r) L"
    and rest: "L \<subseteq> {..<length (ra_slots r)}" "2 * length (ra_slots r) \<le> ?N" "inj_on (key_at r) L"
    by (auto simp: index_holds_def)
  have "card L < length (ra_slots r)"
    using rest(1) assms(2,3) psubset_card_mono [of "{..<length (ra_slots r)}" L] by auto
  then have "card L + 1 < ?N" using rest(2) by linarith
  from insert_represents [OF t rep assms(3) keyPosition_less [OF t] this]
  obtain cells where c: "insert_loop (ra_keySlots r) ?m i (home_of r i) ?N = Some cells"
    "represents ?N (home_of r) cells (insert i L)" by metis
  have "insertKey r i = Some (r\<lparr>ra_keySlots := cells\<rparr>)"
    using c(1) by (simp add: insertKey_def key_at_def)
  moreover have "index_holds (r\<lparr>ra_keySlots := cells\<rparr>) (insert i L)"
    using c(2) t rest assms(2-4) represents_length [OF c(2)] by (auto simp: index_holds_def)
  ultimately show thesis by (rule that)
qed

lemma index_find:
  assumes "index_live r L"
  shows "i \<in> L \<Longrightarrow> findKey r (key_at r i) = Some i" and "key \<notin> key_at r ` L \<Longrightarrow> findKey r key = None"
proof -
  let ?N = "length (ra_keySlots r)" and ?m = "unat (ra_keyMask r)"
  let ?match = "\<lambda>key index. let s = ra_slots r ! index in \<not> sl_detached s \<and> sl_state s \<noteq> slotFree \<and> sl_key s = key"
  from assms obtain k where t: "table_shape ?N k ?m"
    and rep: "represents ?N (home_of r) (ra_keySlots r) L"
    and inj: "inj_on (key_at r) L" and live: "\<forall>i\<in>L. live r i"
    by (auto simp: index_holds_def index_live_def)
  have match: "?match key j \<longleftrightarrow> key_at r j = key" if "j \<in> L" for key j
    using live that by (auto simp: live_def key_at_def Let_def)
  show "findKey r (key_at r i) = Some i" if "i \<in> L"
    using find_represents(1) [OF t rep that, of "?match (key_at r i)"] match inj that
    by (auto simp: findKey_def inj_on_def)
  show "findKey r key = None" if "key \<notin> key_at r ` L"
    unfolding findKey_def
    by (rule find_absent [OF t rep _ keyPosition_less [OF t]]) (metis match image_eqI that)
qed

lemma index_live_remove:
  assumes "index_live r L" and "i \<in> L"
  shows "\<exists>r'. removeKey r (key_at r i) = Some r' \<and> index_live r' (L - {i}) \<and> key_at r' = key_at r"
proof -
  obtain cells where "removeKey r (key_at r i) = Some (r\<lparr>ra_keySlots := cells\<rparr>)"
    "index_holds (r\<lparr>ra_keySlots := cells\<rparr>) (L - {i})"
    using assms by (auto simp: index_live_def elim: index_remove)
  then show ?thesis using assms(1) by (auto simp: index_live_def)
qed

lemma index_live_insert:
  assumes "index_live r L" and "live r i" and "key_at r i \<notin> key_at r ` L"
  shows "\<exists>r'. insertKey r i = Some r' \<and> index_live r' (insert i L) \<and> key_at r' = key_at r"
proof -
  have "i \<notin> L" "i < length (ra_slots r)" using assms(2,3) by (auto simp: live_def)
  then obtain cells where "insertKey r i = Some (r\<lparr>ra_keySlots := cells\<rparr>)"
    "index_holds (r\<lparr>ra_keySlots := cells\<rparr>) (insert i L)"
    using assms by (auto simp: index_live_def elim: index_insert)
  then show ?thesis using assms(1,2) by (auto simp: index_live_def)
qed

interpretation ki: key_index findKey insertKey removeKey key_at index_live live
  using index_find index_live_insert index_live_remove by unfold_locales blast+

subsection \<open>Presence bits\<close>

text \<open>The simplifier writes \<open>push_bit i 1\<close> as \<open>2 ^ i\<close>.\<close>

lemma present_test [simp]: "(w :: u16) AND 2 ^ i = 0 \<longleftrightarrow> \<not> bit w i"
  using bit_iff_and_push_bit_not_eq_0 [of w i] by simp

lemma bit_set_present [simp]: "i < 16 \<Longrightarrow> bit ((w :: u16) OR 2 ^ i) j \<longleftrightarrow> bit w j \<or> j = i"
  by (auto simp: bit_or_iff bit_exp_iff)

lemma bit_u16_less: "bit (w :: u16) i \<Longrightarrow> i < 16"
  using bit_imp_le_length [of w i] by simp

lemma expected_mask [simp]: "2 ^ n - 1 = (mask n :: u16)"
  by (simp add: mask_eq_exp_minus_1)

lemma present_all: "n \<le> 16 \<Longrightarrow> (w :: u16) = mask n \<longleftrightarrow> (\<forall>j. bit w j \<longleftrightarrow> j < n)"
proof
  assume n: "n \<le> 16" and w: "w = mask n"
  show "\<forall>j. bit w j \<longleftrightarrow> j < n" using n by (auto simp: w bit_mask_iff)
next
  assume n: "n \<le> 16" and w: "\<forall>j. bit w j \<longleftrightarrow> j < n"
  show "w = mask n" by (rule bit_word_eqI) (use n w in \<open>simp add: bit_mask_iff\<close>)
qed

subsection \<open>The invariant\<close>

definition config_ok :: "ReassemblyConfig \<Rightarrow> bool" where
  "config_ok cfg \<longleftrightarrow>
     0 < rg_Slots cfg \<and> rg_Slots cfg < 2 ^ 32 \<and> 0 < rg_MaxPacketSize cfg \<and> rg_MaxPacketSize cfg \<le> 65535 \<and>
     0 < rg_MaxPeers cfg \<and> 0 < rg_PerPeerSlots cfg \<and> rg_PerPeerSlots cfg \<le> rg_Slots cfg \<and> 0 < rg_Lifetime cfg"

definition frag_start :: "slot \<Rightarrow> nat \<Rightarrow> nat" where
  "frag_start s i = unat (sl_offsets s ! i)"

definition frag_stop :: "slot \<Rightarrow> nat \<Rightarrow> nat" where
  "frag_stop s i = unat (sl_offsets s ! i) + unat (sl_lengths s ! i)"

text \<open>The recorded fragments are non-empty, disjoint ranges of the buffer.\<close>

definition fragments_ok :: "slot \<Rightarrow> bool" where
  "fragments_ok s \<longleftrightarrow>
     length (sl_offsets s) = 16 \<and> length (sl_lengths s) = 16 \<and> 1 \<le> unat (sl_count s) \<and> unat (sl_count s) \<le> 16 \<and>
     (\<forall>i. bit (sl_present s) i \<longrightarrow>
        i < unat (sl_count s) \<and> frag_start s i < frag_stop s i \<and> frag_stop s i \<le> length (sl_buf s)) \<and>
     (\<forall>i j. bit (sl_present s) i \<longrightarrow> bit (sl_present s) j \<longrightarrow> i \<noteq> j \<longrightarrow>
        frag_stop s i \<le> frag_start s j \<or> frag_stop s j \<le> frag_start s i)"

definition slot_ok :: "ReassemblyConfig \<Rightarrow> slot \<Rightarrow> bool" where
  "slot_ok cfg s \<longleftrightarrow>
     int (length (sl_buf s)) = rg_MaxPacketSize cfg \<and>
     (sl_counted s \<longleftrightarrow> sl_state s \<noteq> slotFree \<and> \<not> sl_detached s) \<and>
     (sl_detached s \<longrightarrow> sl_state s = slotCompleted) \<and>
     (sl_state s \<noteq> slotFree \<longrightarrow> int (unat (k_PeerID (sl_key s))) < rg_MaxPeers cfg \<and> fragments_ok s) \<and>
     (sl_state s = slotCompleted \<longrightarrow>
        sl_present s = mask (unat (sl_count s)) \<and> contiguousLength s = Some (sl_packetLen s))"

fun free_list :: "slot list \<Rightarrow> int \<Rightarrow> nat list \<Rightarrow> bool" where
  "free_list ss h [] \<longleftrightarrow> h = -1"
| "free_list ss h (i # is) \<longleftrightarrow> h = int i \<and> i < length ss \<and> free_list ss (sl_freeNext (ss ! i)) is"

definition free_slots :: "slot list \<Rightarrow> nat set" where
  "free_slots ss = {i. i < length ss \<and> sl_state (ss ! i) = slotFree}"

definition counts_for :: "nat \<Rightarrow> slot \<Rightarrow> bool" where
  "counts_for p s \<longleftrightarrow> sl_counted s \<and> unat (k_PeerID (sl_key s)) = p"

definition count_peer :: "slot list \<Rightarrow> nat \<Rightarrow> nat" where
  "count_peer ss p = length (filter (counts_for p) ss)"

definition free_ok :: "Reassembler \<Rightarrow> bool" where
  "free_ok r \<longleftrightarrow> (\<exists>fl. free_list (ra_slots r) (ra_freeHead r) fl \<and> distinct fl \<and> set fl = free_slots (ra_slots r))"

definition counts_ok :: "Reassembler \<Rightarrow> bool" where
  "counts_ok r \<longleftrightarrow>
     (\<forall>p < length (ra_peerCounts r). unat (ra_peerCounts r ! p) = count_peer (ra_slots r) p \<and>
        int (count_peer (ra_slots r) p) \<le> rg_PerPeerSlots (ra_config r))"

definition reasm_ok :: "Reassembler \<Rightarrow> bool" where
  "reasm_ok r \<longleftrightarrow>
     config_ok (ra_config r) \<and> int (length (ra_slots r)) = rg_Slots (ra_config r) \<and>
     int (length (ra_peerCounts r)) = rg_MaxPeers (ra_config r) \<and>
     (\<forall>s\<in>set (ra_slots r). slot_ok (ra_config r) s) \<and>
     index_live r {i. live r i} \<and> free_ok r \<and> counts_ok r"

lemma free_list_update:
  "j \<notin> set fl \<Longrightarrow> free_list (ss[j := s]) h fl \<longleftrightarrow> free_list ss h fl"
  by (induction fl arbitrary: h) auto

lemma count_peer_update:
  assumes "i < length ss"
  shows "count_peer (ss[i := s]) p + of_bool (counts_for p (ss ! i)) = count_peer ss p + of_bool (counts_for p s)"
proof -
  have ss: "ss = take i ss @ ss ! i # drop (Suc i) ss"
    using assms by (rule id_take_nth_drop)
  have "ss[i := s] = take i ss @ s # drop (Suc i) ss"
    using assms by (rule upd_conv_take_nth_drop)
  then have "count_peer (ss[i := s]) p =
      length (filter (counts_for p) (take i ss)) + of_bool (counts_for p s) + length (filter (counts_for p) (drop (Suc i) ss))"
    by (simp add: count_peer_def)
  moreover have "count_peer ss p =
      length (filter (counts_for p) (take i ss)) + of_bool (counts_for p (ss ! i)) + length (filter (counts_for p) (drop (Suc i) ss))"
    unfolding count_peer_def by (subst ss) simp
  ultimately show ?thesis by simp
qed

lemma count_peer_le: "count_peer ss p \<le> length ss"
  by (simp add: count_peer_def)

lemma reasm_okD:
  assumes "reasm_ok r"
  shows "config_ok (ra_config r)" and "int (length (ra_slots r)) = rg_Slots (ra_config r)"
    and "int (length (ra_peerCounts r)) = rg_MaxPeers (ra_config r)"
    and "i < length (ra_slots r) \<Longrightarrow> slot_ok (ra_config r) (ra_slots r ! i)"
    and "index_live r {i. live r i}" and "free_ok r" and "counts_ok r"
  using assms by (auto simp: reasm_ok_def)

lemma index_holds_cong:
  assumes "index_holds r L" and "\<And>i. i \<in> L \<Longrightarrow> key_at r' i = key_at r i"
    and "ra_keySlots r' = ra_keySlots r" and "ra_keyMask r' = ra_keyMask r"
    and "length (ra_slots r') = length (ra_slots r)"
  shows "index_holds r' L"
proof -
  have pos: "keyPosition r' = keyPosition r"
    using assms(4) by (simp add: keyPosition_def fun_eq_iff)
  have "represents (length (ra_keySlots r)) (home_of r) (ra_keySlots r) L"
    using assms(1) by (simp add: index_holds_def)
  then have "represents (length (ra_keySlots r)) (home_of r') (ra_keySlots r) L"
    by (rule represents_cong) (simp add: pos assms(2))
  moreover have "inj_on (key_at r') L"
    using assms(1,2) by (simp add: index_holds_def inj_on_def)
  ultimately show ?thesis
    using assms(1,3-5) by (simp add: index_holds_def)
qed

lemma slots_ok_update:
  assumes "\<forall>s\<in>set ss. slot_ok cfg s" and "slot_ok cfg s"
  shows "\<forall>s\<in>set (ss[i := s]). slot_ok cfg s"
  using assms set_update_subset_insert [of ss i s] by blast

lemma free_slots_update:
  "i < length ss \<Longrightarrow> free_slots (ss[i := s]) = (if sl_state s = slotFree then insert i (free_slots ss) else free_slots ss - {i})"
  by (auto simp: free_slots_def nth_list_update)

lemma slot_ok_zero:
  "int (length buf) = rg_MaxPacketSize cfg \<Longrightarrow> slot_ok cfg (zero_slot g n buf)"
  by (simp add: slot_ok_def zero_slot_def)

subsection \<open>Clearing a slot\<close>

definition cleared :: "Reassembler \<Rightarrow> nat \<Rightarrow> nat list \<Rightarrow> u32 list \<Rightarrow> Reassembler" where
  "cleared r i cells counts =
     r\<lparr>ra_slots := (ra_slots r)[i := zero_slot (sl_generation (ra_slots r ! i)) (ra_freeHead r) (sl_buf (ra_slots r ! i))],
       ra_keySlots := cells, ra_peerCounts := counts, ra_freeHead := int i\<rparr>"

lemma live_cleared: "i < length (ra_slots r) \<Longrightarrow> {j. live (cleared r i cells counts) j} = {j. live r j} - {i}"
  by (auto simp: live_def cleared_def nth_list_update zero_slot_def)

lemma free_ok_cleared:
  assumes "free_ok r" and "i < length (ra_slots r)" and "sl_state (ra_slots r ! i) \<noteq> slotFree"
  shows "free_ok (cleared r i cells counts)"
proof -
  obtain fl where fl: "free_list (ra_slots r) (ra_freeHead r) fl" "distinct fl" "set fl = free_slots (ra_slots r)"
    using assms(1) by (auto simp: free_ok_def)
  have i: "i \<notin> set fl" using fl(3) assms(3) by (simp add: free_slots_def)
  then show ?thesis
    unfolding free_ok_def
    by (intro exI [of _ "i # fl"])
      (use fl assms(2) in \<open>simp add: cleared_def free_list_update free_slots_update zero_slot_def\<close>)
qed

lemma unat_dec: "0 < unat (c :: u32) \<Longrightarrow> unat (c - 1) = unat c - 1"
  by (metis gr0I unat_0 unat_minus_one less_numeral_extra(3))

lemma counts_pos:
  assumes "counts_ok r" and "i < length (ra_slots r)" and "sl_counted (ra_slots r ! i)"
    and "p0 = unat (k_PeerID (sl_key (ra_slots r ! i)))" and "p0 < length (ra_peerCounts r)"
  shows "ra_peerCounts r ! p0 > 0" and "0 < unat (ra_peerCounts r ! p0)"
proof -
  have "ra_slots r ! i \<in> set (filter (counts_for p0) (ra_slots r))"
    using assms(2-4) by (simp add: counts_for_def)
  then have "0 < count_peer (ra_slots r) p0"
    unfolding count_peer_def by (rule length_pos_if_in_set)
  then show "0 < unat (ra_peerCounts r ! p0)"
    using assms(1,5) by (simp add: counts_ok_def)
  then show "ra_peerCounts r ! p0 > 0" by (simp add: word_gt_0 unat_gt_0)
qed

lemma counts_ok_uncounted:
  assumes "counts_ok r" and "i < length (ra_slots r)"
    and "counts = (if sl_counted (ra_slots r ! i)
      then (ra_peerCounts r)[p0 := ra_peerCounts r ! p0 - 1] else ra_peerCounts r)"
    and "p0 = unat (k_PeerID (sl_key (ra_slots r ! i)))" and "p0 < length (ra_peerCounts r)"
    and "ra_slots r' = (ra_slots r)[i := z]" and "\<not> sl_counted z" and "ra_peerCounts r' = counts"
    and "ra_config r' = ra_config r"
  shows "counts_ok r'"
proof -
  have upd: "count_peer ((ra_slots r)[i := z]) p + of_bool (counts_for p (ra_slots r ! i)) = count_peer (ra_slots r) p" for p
    using count_peer_update [OF assms(2), of z p] assms(7) by (simp add: counts_for_def)
  have old: "unat (ra_peerCounts r ! p) = count_peer (ra_slots r) p"
    "int (count_peer (ra_slots r) p) \<le> rg_PerPeerSlots (ra_config r)" if "p < length (ra_peerCounts r)" for p
    using assms(1) that by (auto simp: counts_ok_def)
  have "unat (counts ! p) = count_peer ((ra_slots r)[i := z]) p \<and>
      int (count_peer ((ra_slots r)[i := z]) p) \<le> rg_PerPeerSlots (ra_config r)"
    if p: "p < length (ra_peerCounts r)" for p
  proof (cases "sl_counted (ra_slots r ! i) \<and> p = p0")
    case True
    then have "counts ! p = ra_peerCounts r ! p0 - 1" using assms(3,5) by simp
    moreover have "0 < unat (ra_peerCounts r ! p0)" using counts_pos(2) [OF assms(1,2) _ assms(4,5)] True by simp
    ultimately show ?thesis
      using upd [of p] old [OF p] True assms(4) unat_dec by (auto simp: counts_for_def)
  next
    case False
    then have "counts ! p = ra_peerCounts r ! p" using assms(3) by auto
    then show ?thesis
      using upd [of p] old [OF p] False assms(4) by (auto simp: counts_for_def)
  qed
  moreover have "length counts = length (ra_peerCounts r)" using assms(3) by simp
  ultimately show "counts_ok r'"
    using assms(6,8,9) by (simp add: counts_ok_def)
qed

lemma index_cleared:
  assumes "index_holds (r\<lparr>ra_keySlots := cells\<rparr>) ({j. live r j} - {i})" and "i < length (ra_slots r)"
  shows "index_live (cleared r i cells counts) {j. live (cleared r i cells counts) j}"
proof -
  have "index_holds (cleared r i cells counts) ({j. live r j} - {i})"
    by (rule index_holds_cong [OF assms(1)]) (auto simp: cleared_def key_at_def)
  then show ?thesis
    using live_cleared [OF assms(2)] by (auto simp: index_live_def)
qed

lemma cleared_ok:
  assumes "reasm_ok r" and "i < length (ra_slots r)" and "sl_state (ra_slots r ! i) \<noteq> slotFree"
    and "index_holds (r\<lparr>ra_keySlots := cells\<rparr>) ({j. live r j} - {i})"
    and "counts = (if sl_counted (ra_slots r ! i)
      then (ra_peerCounts r)[p0 := ra_peerCounts r ! p0 - 1] else ra_peerCounts r)"
    and "p0 = unat (k_PeerID (sl_key (ra_slots r ! i)))"
  shows "reasm_ok (cleared r i cells counts)"
proof -
  note d = reasm_okD [OF assms(1)]
  have "int p0 < rg_MaxPeers (ra_config r)"
    using d(4) [OF assms(2)] assms(3,6) by (simp add: slot_ok_def)
  then have p0: "p0 < length (ra_peerCounts r)" using d(3) by simp
  have zero: "slot_ok (ra_config r) (zero_slot (sl_generation (ra_slots r ! i)) (ra_freeHead r) (sl_buf (ra_slots r ! i)))"
    using d(4) [OF assms(2)] by (intro slot_ok_zero) (simp add: slot_ok_def)
  have "\<forall>s\<in>set (ra_slots r). slot_ok (ra_config r) s" using assms(1) by (simp add: reasm_ok_def)
  from slots_ok_update [OF this zero]
  have "\<forall>s\<in>set (ra_slots (cleared r i cells counts)). slot_ok (ra_config r) s" by (simp add: cleared_def)
  moreover have "length counts = length (ra_peerCounts r)" using assms(5) by simp
  moreover have "counts_ok (cleared r i cells counts)"
    by (rule counts_ok_uncounted [OF d(7) assms(2,5,6) p0,
          where z = "zero_slot (sl_generation (ra_slots r ! i)) (ra_freeHead r) (sl_buf (ra_slots r ! i))"])
      (simp_all add: cleared_def, simp add: zero_slot_def)
  ultimately show ?thesis
    using d(1-3) index_cleared [OF assms(4,2)] free_ok_cleared [OF d(6) assms(2,3)]
    unfolding reasm_ok_def by (simp add: cleared_def)
qed

lemma clearSlot_ok:
  assumes "reasm_ok r" and "i < length (ra_slots r)" and "sl_state (ra_slots r ! i) \<noteq> slotFree"
  obtains cells counts where "clearSlot r i = Some (cleared r i cells counts)"
    and "reasm_ok (cleared r i cells counts)"
proof -
  note d = reasm_okD [OF assms(1)]
  let ?s = "ra_slots r ! i"
  define p0 where "p0 = unat (k_PeerID (sl_key ?s))"
  define counts where "counts = (if sl_counted ?s
      then (ra_peerCounts r)[p0 := ra_peerCounts r ! p0 - 1] else ra_peerCounts r)"
  have s: "int (length (sl_buf ?s)) = rg_MaxPacketSize (ra_config r)"
    "sl_counted ?s \<longleftrightarrow> \<not> sl_detached ?s" "int p0 < rg_MaxPeers (ra_config r)"
    using d(4) [OF assms(2)] assms(3) by (auto simp: slot_ok_def p0_def)
  then have buf: "take (nat (rg_MaxPacketSize (ra_config r))) (sl_buf ?s) = sl_buf ?s" by simp
  have pos: "sl_counted ?s \<Longrightarrow> ra_peerCounts r ! p0 > 0"
    using counts_pos(1) [OF d(7) assms(2) _ p0_def] s(3) d(3) by simp
  obtain cells where
    rem: "(if \<not> sl_detached ?s then removeKey r (sl_key ?s) else Some r) = Some (r\<lparr>ra_keySlots := cells\<rparr>)" and
    idx: "index_holds (r\<lparr>ra_keySlots := cells\<rparr>) ({j. live r j} - {i})"
  proof (cases "sl_detached ?s")
    case True
    then have "{j. live r j} - {i} = {j. live r j}" by (auto simp: live_def)
    then show thesis using that [of "ra_keySlots r"] True d(5) by (simp add: index_live_def)
  next
    case False
    then have "i \<in> {j. live r j}" using assms(2,3) by (simp add: live_def)
    then show thesis
      using index_remove [of r "{j. live r j}" i] d(5) that False by (auto simp: index_live_def key_at_def)
  qed
  have "clearSlot r i = Some (cleared r i cells counts)"
    unfolding clearSlot_def Let_def
    using assms(2,3) rem pos s(2) buf
    by (simp add: uncount_def set_slot_def cleared_def Let_def counts_def p0_def)
  then show thesis
    using that cleared_ok [OF assms idx counts_def p0_def] by blast
qed

subsection \<open>Taking and starting a slot\<close>

definition taken :: "Reassembler \<Rightarrow> nat \<Rightarrow> Reassembler" where
  "taken r i = r\<lparr>ra_slots := (ra_slots r)[i := (ra_slots r ! i)\<lparr>sl_freeNext := -1\<rparr>],
                 ra_freeHead := sl_freeNext (ra_slots r ! i)\<rparr>"

definition new_slot :: "slot \<Rightarrow> u64 \<Rightarrow> gotime \<Rightarrow> Key \<Rightarrow> byte \<Rightarrow> slot" where
  "new_slot s born now key count =
     (zero_slot (sl_generation s + 1) 0 (sl_buf s))
       \<lparr>sl_state := slotAssembling, sl_counted := True, sl_born := born, sl_key := key, sl_firstSeen := now,
        sl_count := count\<rparr>"

definition started :: "Reassembler \<Rightarrow> nat \<Rightarrow> gotime \<Rightarrow> Key \<Rightarrow> byte \<Rightarrow> nat list \<Rightarrow> Reassembler" where
  "started r i now key count cells =
     r\<lparr>ra_slots := (ra_slots r)[i := new_slot (ra_slots r ! i) (ra_nextBorn r + 1) now key count],
       ra_keySlots := cells, ra_freeHead := sl_freeNext (ra_slots r ! i), ra_nextBorn := ra_nextBorn r + 1,
       ra_peerCounts := (ra_peerCounts r)[unat (k_PeerID key) := ra_peerCounts r ! unat (k_PeerID key) + 1]\<rparr>"

lemma takeFreeSlot_ok:
  assumes "reasm_ok r"
  obtains (none) "takeFreeSlot r = Some (r, None)" and "free_slots (ra_slots r) = {}"
  | (some) i where "takeFreeSlot r = Some (taken r i, Some i)" and "i < length (ra_slots r)"
      and "sl_state (ra_slots r ! i) = slotFree" and "ra_freeHead r = int i"
proof -
  obtain fl where fl: "free_list (ra_slots r) (ra_freeHead r) fl" "set fl = free_slots (ra_slots r)"
    using reasm_okD(6) [OF assms] by (auto simp: free_ok_def)
  show thesis
  proof (cases fl)
    case Nil
    then show thesis using none fl by (simp add: takeFreeSlot_def)
  next
    case (Cons i rest)
    then have "ra_freeHead r = int i" "i < length (ra_slots r)" "sl_state (ra_slots r ! i) = slotFree"
      using fl by (auto simp: free_slots_def)
    then show thesis using some [of i] by (simp add: takeFreeSlot_def taken_def set_slot_def Let_def)
  qed
qed

lemma free_ok_started:
  assumes "free_ok r" and "ra_freeHead r = int i" and "i < length (ra_slots r)"
  shows "free_ok (started r i now key count cells)"
proof -
  obtain fl where fl: "free_list (ra_slots r) (ra_freeHead r) fl" "distinct fl" "set fl = free_slots (ra_slots r)"
    using assms(1) by (auto simp: free_ok_def)
  then obtain rest where rest: "fl = i # rest" using assms(2) by (cases fl) auto
  then have "free_list ((ra_slots r)[i := s]) (sl_freeNext (ra_slots r ! i)) rest" for s
    using fl by (simp add: free_list_update)
  moreover have "set rest = free_slots (ra_slots r) - {i}" using fl rest by auto
  ultimately show ?thesis
    unfolding free_ok_def using fl(2) rest assms(3)
    by (intro exI [of _ rest]) (simp add: started_def free_slots_update new_slot_def)
qed

lemma counts_ok_started:
  assumes "counts_ok r" and "i < length (ra_slots r)" and "\<not> sl_counted (ra_slots r ! i)"
    and "unat (k_PeerID key) < length (ra_peerCounts r)"
    and "int (unat (ra_peerCounts r ! unat (k_PeerID key))) < rg_PerPeerSlots (ra_config r)"
    and "rg_PerPeerSlots (ra_config r) < 2 ^ 32"
  shows "counts_ok (started r i now key count cells)"
proof -
  let ?n = "new_slot (ra_slots r ! i) (ra_nextBorn r + 1) now key count"
  let ?p0 = "unat (k_PeerID key)"
  have upd: "count_peer ((ra_slots r)[i := ?n]) p = count_peer (ra_slots r) p + of_bool (p = ?p0)" for p
    using count_peer_update [OF assms(2), of ?n p] assms(3) by (auto simp: counts_for_def new_slot_def)
  have "int (unat (ra_peerCounts r ! ?p0) + 1) < int (2 ^ 32)"
    using assms(5,6) by simp
  then have "unat (ra_peerCounts r ! ?p0) + 1 < 2 ^ 32"
    by (simp only: of_nat_less_iff)
  then have "unat (ra_peerCounts r ! ?p0 + 1) = unat (ra_peerCounts r ! ?p0) + 1"
    by (subst unat_add_lem [THEN iffD1]) simp_all
  then show ?thesis
    using assms(1,4,5) upd by (auto simp: counts_ok_def started_def nth_list_update)
qed

lemma slot_ok_new:
  assumes "int (length (sl_buf s)) = rg_MaxPacketSize cfg" and "int (unat (k_PeerID key)) < rg_MaxPeers cfg"
    and "1 \<le> unat count" and "unat count \<le> 16"
  shows "slot_ok cfg (new_slot s born now key count)"
  using assms by (simp add: slot_ok_def new_slot_def zero_slot_def fragments_ok_def)

lemma live_started:
  "i < length (ra_slots r) \<Longrightarrow> {j. live (started r i now key count cells) j} = insert i {j. live r j}"
  by (auto simp: live_def started_def nth_list_update new_slot_def zero_slot_def)

lemma index_started:
  assumes "index_live r {j. live r j}" and "i < length (ra_slots r)" and "sl_state (ra_slots r ! i) = slotFree"
    and "\<And>j. live r j \<Longrightarrow> key_at r j \<noteq> key"
  obtains cells where "insertKey (started r i now key count (ra_keySlots r)) i = Some (started r i now key count cells)"
    and "index_live (started r i now key count cells) {j. live (started r i now key count cells) j}"
proof -
  let ?r1 = "started r i now key count (ra_keySlots r)"
  have i: "i \<notin> {j. live r j}" using assms(3) by (simp add: live_def)
  have keys: "key_at ?r1 j = (if j = i then key else key_at r j)" for j
    using assms(2) by (simp add: key_at_def started_def new_slot_def)
  have "index_holds r {j. live r j}" using assms(1) by (simp add: index_live_def)
  then have h: "index_holds ?r1 {j. live r j}"
    by (rule index_holds_cong) (use i keys in \<open>auto simp: started_def\<close>)
  have k: "key_at ?r1 i \<notin> key_at ?r1 ` {j. live r j}"
    using assms(4) i keys by auto
  have len: "i < length (ra_slots ?r1)"
    using assms(2) by (simp add: started_def)
  obtain cells where c: "insertKey ?r1 i = Some (?r1\<lparr>ra_keySlots := cells\<rparr>)"
    "index_holds (?r1\<lparr>ra_keySlots := cells\<rparr>) (insert i {j. live r j})"
    by (rule index_insert [OF h len i k])
  have "?r1\<lparr>ra_keySlots := cells\<rparr> = started r i now key count cells"
    by (simp add: started_def)
  then show thesis
    using that [of cells] c live_started [OF assms(2), of now key count cells] by (auto simp: index_live_def)
qed

lemma startSlot_ok:
  assumes "reasm_ok r" and "i < length (ra_slots r)" and "sl_state (ra_slots r ! i) = slotFree"
    and "ra_freeHead r = int i" and "int (unat (k_PeerID key)) < rg_MaxPeers (ra_config r)"
    and "1 \<le> unat count" and "unat count \<le> 16" and "\<And>j. live r j \<Longrightarrow> key_at r j \<noteq> key"
    and "int (unat (ra_peerCounts r ! unat (k_PeerID key))) < rg_PerPeerSlots (ra_config r)"
  obtains cells where "startSlot (taken r i) i now key count = Some (started r i now key count cells)"
    and "reasm_ok (started r i now key count cells)"
proof -
  note d = reasm_okD [OF assms(1)]
  have s: "int (length (sl_buf (ra_slots r ! i))) = rg_MaxPacketSize (ra_config r)" "\<not> sl_counted (ra_slots r ! i)"
    using d(4) [OF assms(2)] assms(3) by (auto simp: slot_ok_def)
  obtain cells where ins: "insertKey (started r i now key count (ra_keySlots r)) i = Some (started r i now key count cells)"
    and idx: "index_live (started r i now key count cells) {j. live (started r i now key count cells) j}"
    by (rule index_started [OF d(5) assms(2,3,8)])
  have "startSlot (taken r i) i now key count = insertKey (started r i now key count (ra_keySlots r)) i"
    using assms(2) s(1)
    by (simp add: startSlot_def taken_def started_def new_slot_def zero_slot_def set_slot_def Let_def,
        intro arg_cong2 [where f = insertKey]) simp_all
  moreover have "reasm_ok (started r i now key count cells)"
  proof -
    have "\<forall>s\<in>set (ra_slots r). slot_ok (ra_config r) s" using assms(1) by (simp add: reasm_ok_def)
    from slots_ok_update [OF this slot_ok_new [OF s(1) assms(5-7)]]
    have "\<forall>s\<in>set (ra_slots (started r i now key count cells)). slot_ok (ra_config r) s"
      by (simp add: started_def)
    moreover have "counts_ok (started r i now key count cells)"
      using counts_ok_started [OF d(7) assms(2) s(2) _ assms(9)] d(1,3) assms(5) by (simp add: config_ok_def)
    ultimately show ?thesis
      using d(1-3) idx free_ok_started [OF d(6) assms(4,2)] unfolding reasm_ok_def by (simp add: started_def)
  qed
  ultimately show thesis using that ins by simp
qed

subsection \<open>Allocation and eviction\<close>

definition evictable :: "Reassembler \<Rightarrow> PeerID \<Rightarrow> bool \<Rightarrow> nat \<Rightarrow> bool" where
  "evictable r peer samePeer i \<longleftrightarrow>
     sl_state (ra_slots r ! i) = slotAssembling \<and> (samePeer \<longrightarrow> k_PeerID (key_at r i) = peer)"

definition not_younger :: "Reassembler \<Rightarrow> nat \<Rightarrow> nat \<Rightarrow> bool" where
  "not_younger r i j \<longleftrightarrow>
     sl_firstSeen (ra_slots r ! i) < sl_firstSeen (ra_slots r ! j) \<or>
     (sl_firstSeen (ra_slots r ! i) = sl_firstSeen (ra_slots r ! j) \<and> sl_born (ra_slots r ! i) \<le> sl_born (ra_slots r ! j))"

lemma not_younger_trans: "not_younger r i j \<Longrightarrow> not_younger r j k \<Longrightarrow> not_younger r i k"
  by (auto simp: not_younger_def)

lemma oldest_scan:
  "(case foldl (older r peer samePeer) None [0..<m] of
      None \<Rightarrow> \<forall>i < m. \<not> evictable r peer samePeer i
    | Some b \<Rightarrow> b < m \<and> evictable r peer samePeer b \<and> (\<forall>i < m. evictable r peer samePeer i \<longrightarrow> not_younger r b i))"
proof (induction m)
  case 0
  then show ?case by simp
next
  case (Suc m)
  let ?f = "foldl (older r peer samePeer) None [0..<m]"
  have step: "foldl (older r peer samePeer) None [0..<Suc m] = older r peer samePeer ?f m" by simp
  show ?case
  proof (cases "evictable r peer samePeer m")
    case False
    then have "older r peer samePeer ?f m = ?f" by (auto simp: older_def evictable_def key_at_def Let_def)
    then show ?thesis
      using Suc False unfolding step by (auto simp: less_Suc_eq split: option.splits)
  next
    case True
    show ?thesis
    proof (cases ?f)
      case None
      then have "older r peer samePeer ?f m = Some m"
        using True by (auto simp: older_def evictable_def key_at_def Let_def)
      then show ?thesis
        using Suc None True unfolding step by (auto simp: less_Suc_eq not_younger_def)
    next
      case (Some b)
      have old: "older r peer samePeer ?f m = (if not_younger r b m then Some b else Some m)"
        using True Some by (auto simp: older_def evictable_def key_at_def not_younger_def Let_def)
      have "not_younger r b m \<or> not_younger r m b" by (auto simp: not_younger_def)
      then show ?thesis
        using Suc Some True not_younger_trans [of r m b] unfolding step old
        by (auto simp: less_Suc_eq not_younger_def)
    qed
  qed
qed

lemma oldestAssembling_Some:
  assumes "oldestAssembling r peer samePeer = Some b"
  shows "b < length (ra_slots r)" and "evictable r peer samePeer b"
    and "i < length (ra_slots r) \<Longrightarrow> evictable r peer samePeer i \<Longrightarrow> not_younger r b i"
  using oldest_scan [where r = r and peer = peer and samePeer = samePeer and m = "length (ra_slots r)"] assms by (auto simp: oldestAssembling_def)

lemma oldestAssembling_None:
  assumes "oldestAssembling r peer samePeer = None" and "i < length (ra_slots r)"
  shows "\<not> evictable r peer samePeer i"
  using oldest_scan [where r = r and peer = peer and samePeer = samePeer and m = "length (ra_slots r)"] assms by (auto simp: oldestAssembling_def)

text \<open>
  What an allocation does: one slot that was free or assembling becomes a fresh slot for the key; every
  other slot, in particular every completed one, is untouched.
\<close>

definition allocated :: "Reassembler \<Rightarrow> Reassembler \<Rightarrow> nat \<Rightarrow> gotime \<Rightarrow> Key \<Rightarrow> byte \<Rightarrow> bool" where
  "allocated r r' i now key count \<longleftrightarrow>
     reasm_ok r' \<and> ra_config r' = ra_config r \<and> i < length (ra_slots r) \<and>
     sl_state (ra_slots r ! i) \<noteq> slotCompleted \<and>
     ra_slots r' = (ra_slots r)[i := new_slot (ra_slots r ! i) (ra_nextBorn r + 1) now key count]"

lemma cleared_below_quota:
  assumes "reasm_ok r" and "i < length (ra_slots r)" and "sl_state (ra_slots r ! i) = slotAssembling"
    and "reasm_ok (cleared r i cells counts)" and "int (unat (k_PeerID key)) < rg_MaxPeers (ra_config r)"
    and "int (unat (ra_peerCounts r ! unat (k_PeerID key))) < rg_PerPeerSlots (ra_config r) \<or>
      k_PeerID (key_at r i) = k_PeerID key"
  shows "int (unat (counts ! unat (k_PeerID key))) < rg_PerPeerSlots (ra_config r)"
proof -
  note d = reasm_okD [OF assms(1)] and d' = reasm_okD [OF assms(4)]
  let ?p = "unat (k_PeerID key)"
  let ?z = "zero_slot (sl_generation (ra_slots r ! i)) (ra_freeHead r) (sl_buf (ra_slots r ! i))"
  have "int (length counts) = rg_MaxPeers (ra_config r)"
    using d'(3) by (simp add: cleared_def)
  then have p: "?p < length (ra_peerCounts r)" "?p < length counts"
    using assms(5) d(3) by linarith+
  have "sl_counted (ra_slots r ! i)"
    using d(4) [OF assms(2)] assms(3) by (auto simp: slot_ok_def)
  then have "counts_for ?p (ra_slots r ! i) \<longleftrightarrow> k_PeerID (key_at r i) = k_PeerID key"
    by (auto simp: counts_for_def key_at_def unsigned_word_eqI)
  then have "count_peer ((ra_slots r)[i := ?z]) ?p \<le> count_peer (ra_slots r) ?p \<and>
      (k_PeerID (key_at r i) = k_PeerID key \<longrightarrow> count_peer ((ra_slots r)[i := ?z]) ?p < count_peer (ra_slots r) ?p)"
    using count_peer_update [OF assms(2), of ?z ?p] by (auto simp: counts_for_def zero_slot_def of_bool_def split: if_splits)
  moreover have "unat (counts ! ?p) = count_peer ((ra_slots r)[i := ?z]) ?p"
    using d'(7) p(2) by (simp add: counts_ok_def cleared_def)
  moreover have "unat (ra_peerCounts r ! ?p) = count_peer (ra_slots r) ?p"
    "int (count_peer (ra_slots r) ?p) \<le> rg_PerPeerSlots (ra_config r)"
    using d(7) p(1) by (simp_all add: counts_ok_def)
  ultimately show ?thesis
    using assms(6) by linarith
qed

lemma replaceSlot_ok:
  assumes "reasm_ok r" and "i < length (ra_slots r)" and "sl_state (ra_slots r ! i) = slotAssembling"
    and "int (unat (k_PeerID key)) < rg_MaxPeers (ra_config r)" and "1 \<le> unat count" and "unat count \<le> 16"
    and "\<And>j. live r j \<Longrightarrow> key_at r j \<noteq> key"
    and "int (unat (ra_peerCounts r ! unat (k_PeerID key))) < rg_PerPeerSlots (ra_config r) \<or>
      k_PeerID (key_at r i) = k_PeerID key"
  obtains r' where "replaceSlot r i now key count = Some (r', Some (i, key_at r i, True))"
    and "allocated r r' i now key count"
proof -
  obtain cells counts where c: "clearSlot r i = Some (cleared r i cells counts)" "reasm_ok (cleared r i cells counts)"
    by (rule clearSlot_ok [OF assms(1,2)]) (simp add: assms(3))
  let ?c = "cleared r i cells counts"
  have cl: "length (ra_slots ?c) = length (ra_slots r)" "ra_config ?c = ra_config r" "ra_freeHead ?c = int i"
    "ra_slots ?c ! i = zero_slot (sl_generation (ra_slots r ! i)) (ra_freeHead r) (sl_buf (ra_slots r ! i))"
    "ra_peerCounts ?c = counts" "ra_nextBorn ?c = ra_nextBorn r"
    using assms(2) by (simp_all add: cleared_def)
  have free: "sl_state (ra_slots ?c ! i) = slotFree" by (simp add: cl(4) zero_slot_def)
  have fresh: "key_at ?c j \<noteq> key" if "live ?c j" for j
  proof -
    have "live r j" "j \<noteq> i" using live_cleared [OF assms(2), of cells counts] that by auto
    then show ?thesis using assms(7) by (simp add: key_at_def cleared_def)
  qed
  have quota: "int (unat (counts ! unat (k_PeerID key))) < rg_PerPeerSlots (ra_config r)"
    by (rule cleared_below_quota [OF assms(1,2,3) c(2) assms(4,8)])
  have take: "takeFreeSlot ?c = Some (taken ?c i, Some i)"
    using cl(1,3) free assms(2) by (simp add: takeFreeSlot_def taken_def set_slot_def Let_def)
  obtain cells' where st: "startSlot (taken ?c i) i now key count = Some (started ?c i now key count cells')"
    "reasm_ok (started ?c i now key count cells')"
    by (rule startSlot_ok [OF c(2) _ free cl(3) _ assms(5,6) fresh]) (use assms(2,4) cl quota in simp_all)
  have "replaceSlot r i now key count = Some (started ?c i now key count cells', Some (i, key_at r i, True))"
    using c(1) take st(1) by (simp add: replaceSlot_def Let_def key_at_def)
  moreover have "allocated r (started ?c i now key count cells') i now key count"
    using st(2) assms(2,3) cl
    by (simp add: allocated_def started_def new_slot_def zero_slot_def) (simp add: cleared_def)
  ultimately show thesis by (rule that)
qed

lemma allocateSlot_ok:
  assumes "reasm_ok r" and "int (unat (k_PeerID key)) < rg_MaxPeers (ra_config r)"
    and "1 \<le> unat count" and "unat count \<le> 16" and "\<And>j. live r j \<Longrightarrow> key_at r j \<noteq> key"
  obtains (refused) "allocateSlot r now key count = Some (r, None)"
      and "\<forall>i < length (ra_slots r). \<not> evictable r (k_PeerID key) True i"
  | (granted) r' i evicted didEvict where
      "allocateSlot r now key count = Some (r', Some (i, evicted, didEvict))"
      and "allocated r r' i now key count" and "didEvict \<Longrightarrow> evicted = key_at r i"
      and "didEvict \<longleftrightarrow> sl_state (ra_slots r ! i) = slotAssembling"
proof (cases "int (unat (ra_peerCounts r ! unat (k_PeerID key))) \<ge> rg_PerPeerSlots (ra_config r)")
  case quota: True
  show thesis
  proof (cases "oldestAssembling r (k_PeerID key) True")
    case None
    then show thesis
      using refused quota oldestAssembling_None [OF None] by (simp add: allocateSlot_def)
  next
    case (Some b)
    note b = oldestAssembling_Some [OF Some]
    have st: "sl_state (ra_slots r ! b) = slotAssembling" "k_PeerID (key_at r b) = k_PeerID key"
      using b(2) by (simp_all add: evictable_def)
    obtain r' where r': "replaceSlot r b now key count = Some (r', Some (b, key_at r b, True))"
      "allocated r r' b now key count"
      by (rule replaceSlot_ok [OF assms(1) b(1) st(1) assms(2-5)]) (use st(2) in simp_all)
    have "allocateSlot r now key count = Some (r', Some (b, key_at r b, True))"
      using quota Some r'(1) by (simp add: allocateSlot_def)
    then show thesis using r'(2) st(1) by (intro granted) simp_all
  qed
next
  case room: False
  show thesis
  proof (rule takeFreeSlot_ok [OF assms(1)])
    fix i assume i: "takeFreeSlot r = Some (taken r i, Some i)" "i < length (ra_slots r)"
      "sl_state (ra_slots r ! i) = slotFree" "ra_freeHead r = int i"
    obtain cells where c: "startSlot (taken r i) i now key count = Some (started r i now key count cells)"
      "reasm_ok (started r i now key count cells)"
      by (rule startSlot_ok [OF assms(1) i(2-4) assms(2-5)]) (use room in simp_all)
    have "allocateSlot r now key count = Some (started r i now key count cells, Some (i, zero_key, False))"
      using room i(1) c(1) by (simp add: allocateSlot_def)
    moreover have "allocated r (started r i now key count cells) i now key count"
      using c(2) i(2,3) by (simp add: allocated_def started_def)
    ultimately show thesis by (rule granted) (use i(3) in simp_all)
  next
    assume none: "takeFreeSlot r = Some (r, None)"
    show thesis
    proof (cases "oldestAssembling r 0 False")
      case None
      then have "\<not> evictable r (k_PeerID key) True i" if "i < length (ra_slots r)" for i
        using oldestAssembling_None [OF None that] by (simp add: evictable_def)
      then show thesis using refused room none None by (simp add: allocateSlot_def)
    next
      case (Some b)
      note b = oldestAssembling_Some [OF Some]
      have st: "sl_state (ra_slots r ! b) = slotAssembling" using b(2) by (simp add: evictable_def)
      obtain r' where r': "replaceSlot r b now key count = Some (r', Some (b, key_at r b, True))"
        "allocated r r' b now key count"
        by (rule replaceSlot_ok [OF assms(1) b(1) st assms(2-5)]) (use room in simp_all)
      have "allocateSlot r now key count = Some (r', Some (b, key_at r b, True))"
        using room none Some r'(1) by (simp add: allocateSlot_def)
      then show thesis using r'(2) st by (intro granted) simp_all
    qed
  qed
qed

subsection \<open>Storing a fragment\<close>

lemma set_slot_ok:
  assumes "reasm_ok r" and "i < length (ra_slots r)" and "slot_ok (ra_config r) s"
    and "sl_state (ra_slots r ! i) \<noteq> slotFree" and "sl_state s \<noteq> slotFree"
    and "sl_key s = sl_key (ra_slots r ! i)" and "sl_detached s = sl_detached (ra_slots r ! i)"
    and "sl_counted s = sl_counted (ra_slots r ! i)"
  shows "reasm_ok (set_slot r i s)"
proof -
  note d = reasm_okD [OF assms(1)]
  have live: "live (set_slot r i s) j \<longleftrightarrow> live r j" for j
    using assms(2,4,5,7) by (auto simp: live_def set_slot_def nth_list_update)
  have "index_holds r {j. live r j}" using d(5) by (simp add: index_live_def)
  then have "index_holds (set_slot r i s) {j. live r j}"
    by (rule index_holds_cong) (use assms(2,6) in \<open>auto simp: set_slot_def key_at_def nth_list_update\<close>)
  then have idx: "index_live (set_slot r i s) {j. live (set_slot r i s) j}"
    by (simp add: index_live_def live)
  obtain fl where fl: "free_list (ra_slots r) (ra_freeHead r) fl" "distinct fl" "set fl = free_slots (ra_slots r)"
    using d(6) by (auto simp: free_ok_def)
  have "i \<notin> set fl" using fl(3) assms(4) by (simp add: free_slots_def)
  then have free: "free_ok (set_slot r i s)"
    unfolding free_ok_def using fl assms(2,5)
    by (intro exI [of _ fl]) (auto simp: set_slot_def free_list_update free_slots_update)
  have "counts_for p s = counts_for p (ra_slots r ! i)" for p
    using assms(6,8) by (simp add: counts_for_def)
  then have "count_peer ((ra_slots r)[i := s]) p = count_peer (ra_slots r) p" for p
    using count_peer_update [OF assms(2), of s p] by simp
  then have counts: "counts_ok (set_slot r i s)"
    using d(7) by (simp add: counts_ok_def set_slot_def)
  have "\<forall>s\<in>set (ra_slots r). slot_ok (ra_config r) s" using assms(1) by (simp add: reasm_ok_def)
  from slots_ok_update [OF this assms(3)] show ?thesis
    using d(1-3) idx free counts unfolding reasm_ok_def by (simp add: set_slot_def)
qed

text \<open>A record that passed \<open>validateRecord\<close> for buffers of \<open>cap\<close> bytes.\<close>

definition record_fits :: "nat \<Rightarrow> Record \<Rightarrow> bool" where
  "record_fits cap record \<longleftrightarrow>
     1 \<le> hd_FragmentCount (rc_Header record) \<and> hd_FragmentCount (rc_Header record) \<le> 16 \<and>
     hd_FragmentIndex (rc_Header record) < hd_FragmentCount (rc_Header record) \<and>
     1 \<le> length (rc_Data record) \<and> unat (hd_Offset (rc_Header record)) + length (rc_Data record) \<le> cap \<and> cap \<le> 65535"

definition stored :: "slot \<Rightarrow> Record \<Rightarrow> slot" where
  "stored s record =
     (let f = unat (hd_FragmentIndex (rc_Header record)) in
      s\<lparr>sl_buf := copy_at (unat (hd_Offset (rc_Header record))) (rc_Data record) (sl_buf s),
        sl_offsets := (sl_offsets s)[f := hd_Offset (rc_Header record)],
        sl_lengths := (sl_lengths s)[f := of_nat (length (rc_Data record))],
        sl_present := sl_present s OR push_bit f 1\<rparr>)"

lemma overlaps_iff:
  "overlaps s start stop \<longleftrightarrow>
     (\<exists>i < unat (sl_count s). bit (sl_present s) i \<and> start < frag_stop s i \<and> frag_start s i < stop)"
  by (auto simp: overlaps_def list_ex_iff frag_start_def frag_stop_def)

lemma stored_ranges:
  assumes "fragments_ok s" and "record_fits (length (sl_buf s)) record"
    and "sl_count s = hd_FragmentCount (rc_Header record)"
  defines "f \<equiv> unat (hd_FragmentIndex (rc_Header record))"
  defines "start \<equiv> unat (hd_Offset (rc_Header record))"
  shows "f < unat (sl_count s)" and "f < 16"
    and "frag_start (stored s record) i = (if i = f then start else frag_start s i)"
    and "frag_stop (stored s record) i = (if i = f then start + length (rc_Data record) else frag_stop s i)"
    and "bit (sl_present (stored s record)) i \<longleftrightarrow> bit (sl_present s) i \<or> i = f"
proof -
  show f: "f < unat (sl_count s)"
    using assms(2,3) by (simp add: record_fits_def f_def word_less_nat_alt)
  then show f16: "f < 16" using assms(1) by (simp add: fragments_ok_def)
  have len: "unat (of_nat (length (rc_Data record)) :: u16) = length (rc_Data record)"
    using assms(2) by (intro unat_of_nat_u16) (simp add: record_fits_def)
  have l16: "length (sl_offsets s) = 16" "length (sl_lengths s) = 16"
    using assms(1) by (simp_all add: fragments_ok_def)
  show "frag_start (stored s record) i = (if i = f then start else frag_start s i)"
    using f16 l16 by (simp add: frag_start_def stored_def Let_def f_def start_def)
  show "frag_stop (stored s record) i = (if i = f then start + length (rc_Data record) else frag_stop s i)"
    using f16 l16 len by (simp add: frag_stop_def stored_def Let_def f_def start_def)
  show "bit (sl_present (stored s record)) i \<longleftrightarrow> bit (sl_present s) i \<or> i = f"
    using f16 by (simp add: stored_def Let_def f_def)
qed

lemma stored_fragments_ok:
  assumes "fragments_ok s" and "record_fits (length (sl_buf s)) record"
    and "sl_count s = hd_FragmentCount (rc_Header record)"
    and "\<not> bit (sl_present s) (unat (hd_FragmentIndex (rc_Header record)))"
    and "\<not> overlaps s (unat (hd_Offset (rc_Header record)))
      (unat (hd_Offset (rc_Header record)) + length (rc_Data record))"
  shows "fragments_ok (stored s record)"
proof -
  let ?f = "unat (hd_FragmentIndex (rc_Header record))" and ?start = "unat (hd_Offset (rc_Header record))"
  note r = stored_ranges [OF assms(1-3)]
  have fit: "1 \<le> length (rc_Data record)" "?start + length (rc_Data record) \<le> length (sl_buf s)"
    using assms(2) by (simp_all add: record_fits_def)
  have same: "sl_count (stored s record) = sl_count s" "length (sl_offsets (stored s record)) = length (sl_offsets s)"
    "length (sl_lengths (stored s record)) = length (sl_lengths s)"
    "length (sl_buf (stored s record)) = length (sl_buf s)"
    using fit by (simp_all add: stored_def Let_def)
  have old: "i < unat (sl_count s) \<and> frag_start s i < frag_stop s i \<and> frag_stop s i \<le> length (sl_buf s)"
    if "bit (sl_present s) i" for i
    using assms(1) that by (simp add: fragments_ok_def)
  have disj: "frag_stop s i \<le> ?start \<or> ?start + length (rc_Data record) \<le> frag_start s i"
    if "bit (sl_present s) i" for i
    using assms(5) old [OF that] that unfolding overlaps_iff by (meson not_le)
  have pair: "frag_stop s i \<le> frag_start s j \<or> frag_stop s j \<le> frag_start s i"
    if "bit (sl_present s) i" "bit (sl_present s) j" "i \<noteq> j" for i j
    using assms(1) that unfolding fragments_ok_def by blast
  have "1 \<le> unat (sl_count s)" "unat (sl_count s) \<le> 16" "length (sl_offsets s) = 16" "length (sl_lengths s) = 16"
    using assms(1) by (simp_all add: fragments_ok_def)
  then show ?thesis
    unfolding fragments_ok_def same r(3-5) using r(1) old disj pair fit assms(4) by (auto simp del: not_le)
qed

subsection \<open>Completed packets are protected\<close>

text \<open>What a caller that holds a completed packet can see of its slot.\<close>

definition packet_view :: "slot \<Rightarrow> slotState \<times> u64 \<times> Key \<times> nat \<times> bytes" where
  "packet_view s = (sl_state s, sl_generation s, sl_key s, sl_packetLen s, sl_buf s)"

definition preserves :: "Reassembler \<Rightarrow> Reassembler \<Rightarrow> bool" where
  "preserves r r' \<longleftrightarrow>
     ra_config r' = ra_config r \<and> length (ra_slots r') = length (ra_slots r) \<and>
     (\<forall>j < length (ra_slots r). sl_state (ra_slots r ! j) = slotCompleted \<longrightarrow>
        packet_view (ra_slots r' ! j) = packet_view (ra_slots r ! j))"

lemma preserves_refl [simp, intro]: "preserves r r"
  by (simp add: preserves_def)

lemma preserves_trans: "preserves r r' \<Longrightarrow> preserves r' r'' \<Longrightarrow> preserves r r''"
  by (auto simp: preserves_def packet_view_def)

lemma preserves_update:
  assumes "ra_config r' = ra_config r" and "ra_slots r' = (ra_slots r)[i := s]"
    and "sl_state (ra_slots r ! i) \<noteq> slotCompleted"
  shows "preserves r r'"
  using assms by (auto simp: preserves_def) (metis nth_list_update_neq)

lemma clearSlot_preserves:
  assumes "reasm_ok r" and "i < length (ra_slots r)" and "sl_state (ra_slots r ! i) = slotAssembling"
  obtains r' where "clearSlot r i = Some r'" and "reasm_ok r'" and "preserves r r'"
    and "{j. live r' j} = {j. live r j} - {i}"
    and "\<And>j. j \<noteq> i \<Longrightarrow> ra_slots r' ! j = ra_slots r ! j" and "sl_state (ra_slots r' ! i) = slotFree"
proof -
  obtain cells counts where c: "clearSlot r i = Some (cleared r i cells counts)" "reasm_ok (cleared r i cells counts)"
    by (rule clearSlot_ok [OF assms(1,2)]) (simp add: assms(3))
  have "preserves r (cleared r i cells counts)"
    by (rule preserves_update [of _ _ i]) (simp_all add: cleared_def assms(3))
  with c show thesis
    using that live_cleared [OF assms(2)] assms(2) by (simp add: cleared_def zero_slot_def)
qed

text \<open>The slot a packet refers to still holds it.\<close>

definition holds_packet :: "Reassembler \<Rightarrow> Packet \<Rightarrow> bool" where
  "holds_packet r p \<longleftrightarrow>
     (let i = nat (sh_index (pk_Handle p)); s = ra_slots r ! i in
      0 \<le> sh_index (pk_Handle p) \<and> i < length (ra_slots r) \<and> sl_state s = slotCompleted \<and>
      sl_generation s = sh_generation (pk_Handle p) \<and> sl_key s = pk_Key p \<and> take (sl_packetLen s) (sl_buf s) = pk_Data p)"

lemma accept_fragment_holds:
  assumes "accept_fragment r i rec ev evk = Some (r', Inr res)" and "rr_Packet res = Some p" and "i < length (ra_slots r)"
  shows "holds_packet r' p"
  using assms
  by (auto simp: accept_fragment_def Let_def conflict_def set_slot_def holds_packet_def
      split: if_splits option.splits bind_splits)

definition reasm_keeps ::
    "Reassembler \<Rightarrow> (Reassembler \<times> (reassembly_error + ReassemblyResult)) option \<Rightarrow> bool" where
  "reasm_keeps r out \<longleftrightarrow> (\<exists>r' res. out = Some (r', res) \<and> reasm_ok r' \<and> preserves r r')"

lemma reasm_keeps_trans: "preserves r r1 \<Longrightarrow> reasm_keeps r1 out \<Longrightarrow> reasm_keeps r out"
  by (auto simp: reasm_keeps_def intro: preserves_trans)

lemma conflict_keeps:
  assumes "reasm_ok r" and "i < length (ra_slots r)" and "sl_state (ra_slots r ! i) \<noteq> slotFree"
  shows "reasm_keeps r (conflict r i err)"
proof (cases "sl_state (ra_slots r ! i)")
  case slotFree
  with assms(3) show ?thesis by simp
next
  case slotAssembling
  obtain r' where "clearSlot r i = Some r'" "reasm_ok r'" "preserves r r'"
    by (rule clearSlot_preserves [OF assms(1,2) slotAssembling])
  then show ?thesis using slotAssembling by (simp add: conflict_def reasm_keeps_def)
next
  case slotCompleted
  then show ?thesis using assms(1) by (simp add: conflict_def reasm_keeps_def)
qed

lemma accept_fragment_unfold:
  "accept_fragment r i record ev evk =
     (let s = ra_slots r ! i;
          f = unat (hd_FragmentIndex (rc_Header record));
          start = unat (hd_Offset (rc_Header record));
          stop = start + length (rc_Data record);
          result = (\<lambda>status packet. Inr \<lparr>rr_Status = status, rr_Packet = packet, rr_Evicted = ev, rr_EvictedKey = evk\<rparr>)
      in
      if sl_count s \<noteq> hd_FragmentCount (rc_Header record) then conflict r i ErrFragmentCountMismatch
      else if bit (sl_present s) f then
        (if frag_start s f = start \<and> frag_stop s f = stop \<and> subslice start stop (sl_buf s) = rc_Data record
         then Some (r, result StatusDuplicate None) else conflict r i ErrFragmentConflict)
      else if overlaps s start stop then conflict r i ErrFragmentOverlap
      else if sl_present (stored s record) \<noteq> mask (unat (sl_count s))
      then Some (set_slot r i (stored s record), result StatusAccepted None)
      else
        (case contiguousLength (stored s record) of
           None \<Rightarrow> conflict (set_slot r i (stored s record)) i ErrCoverage
         | Some packetLen \<Rightarrow>
             Some (set_slot r i ((stored s record)\<lparr>sl_state := slotCompleted, sl_packetLen := packetLen\<rparr>),
               result StatusCompleted
                 (Some \<lparr>pk_Handle = \<lparr>sh_index = int i, sh_generation = sl_generation s\<rparr>,
                        pk_Key = sl_key s, pk_Data = take packetLen (sl_buf (stored s record))\<rparr>))))"
  by (auto simp: accept_fragment_def stored_def Let_def frag_start_def frag_stop_def set_slot_def split: option.split)

lemma stored_slot_ok:
  assumes "slot_ok cfg s" and "sl_state s = slotAssembling" and "fragments_ok (stored s record)"
    and "record_fits (length (sl_buf s)) record"
  shows "slot_ok cfg (stored s record)"
    and "sl_present (stored s record) = mask (unat (sl_count s)) \<Longrightarrow> contiguousLength (stored s record) = Some n \<Longrightarrow>
      slot_ok cfg ((stored s record)\<lparr>sl_state := slotCompleted, sl_packetLen := n\<rparr>)"
proof -
  have same: "sl_state (stored s record) = sl_state s" "sl_key (stored s record) = sl_key s"
    "sl_counted (stored s record) = sl_counted s" "sl_detached (stored s record) = sl_detached s"
    "sl_count (stored s record) = sl_count s" "length (sl_buf (stored s record)) = length (sl_buf s)"
    using assms(4) by (simp_all add: stored_def Let_def record_fits_def)
  show "slot_ok cfg (stored s record)"
    using assms(1-3) by (simp add: slot_ok_def same)
  assume full: "sl_present (stored s record) = mask (unat (sl_count s))" "contiguousLength (stored s record) = Some n"
  have loop: "contiguous_loop (t\<lparr>sl_state := a, sl_packetLen := b\<rparr>) m next used = contiguous_loop t m next used" for t a b m "next" used
    by (induction t m "next" used rule: contiguous_loop.induct) (auto split: option.splits)
  have "contiguousLength ((stored s record)\<lparr>sl_state := slotCompleted, sl_packetLen := n\<rparr>) = Some n"
    using full(2) by (simp add: contiguousLength_def loop)
  moreover have "fragments_ok ((stored s record)\<lparr>sl_state := slotCompleted, sl_packetLen := n\<rparr>)"
    using assms(3) by (simp add: fragments_ok_def frag_start_def frag_stop_def)
  ultimately show "slot_ok cfg ((stored s record)\<lparr>sl_state := slotCompleted, sl_packetLen := n\<rparr>)"
    using assms(1,2) full by (simp add: slot_ok_def same)
qed

lemma accept_fragment_keeps:
  assumes "reasm_ok r" and "live r i" and "record_fits (nat (rg_MaxPacketSize (ra_config r))) record"
  shows "reasm_keeps r (accept_fragment r i record ev evk)"
proof -
  note d = reasm_okD [OF assms(1)]
  let ?s = "ra_slots r ! i"
  let ?f = "unat (hd_FragmentIndex (rc_Header record))" and ?start = "unat (hd_Offset (rc_Header record))"
  have i: "i < length (ra_slots r)" and nf: "sl_state ?s \<noteq> slotFree" using assms(2) by (simp_all add: live_def)
  note conf = conflict_keeps [OF assms(1) i nf]
  have s: "slot_ok (ra_config r) ?s" by (rule d(4) [OF i])
  then have fo: "fragments_ok ?s" using nf by (simp add: slot_ok_def)
  have fits: "record_fits (length (sl_buf ?s)) record"
    using assms(3) s by (simp add: slot_ok_def) (metis nat_int)
  show ?thesis
  proof (cases "sl_count ?s = hd_FragmentCount (rc_Header record) \<and> \<not> bit (sl_present ?s) ?f \<and>
      \<not> overlaps ?s ?start (?start + length (rc_Data record))")
    case False
    then show ?thesis
      using conf assms(1) unfolding accept_fragment_unfold Let_def by (auto simp: reasm_keeps_def)
  next
    case True
    then have "?f < unat (sl_count ?s)" using fits by (simp add: record_fits_def word_less_nat_alt)
    then have asm: "sl_state ?s = slotAssembling"
      using True s nf present_all [of "unat (sl_count ?s)" "sl_present ?s"] fo
      by (cases "sl_state ?s") (auto simp: slot_ok_def fragments_ok_def)
    have fo1: "fragments_ok (stored ?s record)" using True fo fits by (intro stored_fragments_ok) auto
    note so = stored_slot_ok [OF s asm fo1 fits]
    have upd: "reasm_ok (set_slot r i t) \<and> preserves r (set_slot r i t)"
      if "slot_ok (ra_config r) t" "sl_state t \<noteq> slotFree" "sl_key t = sl_key ?s" "sl_detached t = sl_detached ?s"
        "sl_counted t = sl_counted ?s" for t
      using set_slot_ok [OF assms(1) i that(1) nf that(2-5)] preserves_update [of "set_slot r i t" r i t] asm
      by (simp add: set_slot_def)
    have same: "sl_key (stored ?s record) = sl_key ?s" "sl_state (stored ?s record) = sl_state ?s"
      "sl_detached (stored ?s record) = sl_detached ?s" "sl_counted (stored ?s record) = sl_counted ?s"
      by (simp_all add: stored_def Let_def)
    have up1: "reasm_ok (set_slot r i (stored ?s record)) \<and> preserves r (set_slot r i (stored ?s record))"
      using upd [OF so(1)] asm same by simp
    then have "reasm_keeps r (conflict (set_slot r i (stored ?s record)) i ErrCoverage)"
      using asm same i by (intro reasm_keeps_trans [OF _ conflict_keeps]) (simp_all add: set_slot_def)
    then show ?thesis
      using True up1 upd [OF so(2)] same
      unfolding accept_fragment_unfold Let_def by (auto simp: reasm_keeps_def split: option.split)
  qed
qed

text \<open>A step keeps the invariant and all completed packets, and a packet it hands out is held by its slot.\<close>

definition reasm_step ::
    "Reassembler \<Rightarrow> (Reassembler \<times> (reassembly_error + ReassemblyResult)) option \<Rightarrow> bool" where
  "reasm_step r out \<longleftrightarrow> (\<exists>r' res. out = Some (r', res) \<and> reasm_ok r' \<and> preserves r r' \<and>
     (\<forall>rr p. res = Inr rr \<longrightarrow> rr_Packet rr = Some p \<longrightarrow> holds_packet r' p))"

lemma reasm_step_trans: "preserves r r1 \<Longrightarrow> reasm_step r1 out \<Longrightarrow> reasm_step r out"
  unfolding reasm_step_def using preserves_trans by blast

lemma accept_fragment_step:
  assumes "reasm_ok r" and "live r i" and "record_fits (nat (rg_MaxPacketSize (ra_config r))) record"
  shows "reasm_step r (accept_fragment r i record ev evk)"
proof -
  obtain r' res where r': "accept_fragment r i record ev evk = Some (r', res)" "reasm_ok r'" "preserves r r'"
    using accept_fragment_keeps [OF assms, of ev evk] by (auto simp: reasm_keeps_def)
  have "i < length (ra_slots r)" using assms(2) by (simp add: live_def)
  then have "holds_packet r' p" if "res = Inr rr" "rr_Packet rr = Some p" for rr p
    using accept_fragment_holds [of r i "record" ev evk r' rr p] r'(1) that by simp
  with r' show ?thesis by (auto simp: reasm_step_def)
qed

end
