(* ===== verification/ReassemblyOps.thy ===== *)
theory ReassemblyOps
  imports ReassemblyInv
begin

text \<open>
  The exported operations of the reassembler: \<^verbatim>\<open>New\<close> establishes the invariant, \<^verbatim>\<open>Accept\<close>, \<^verbatim>\<open>Expire\<close>,
  \<^verbatim>\<open>PurgePeer\<close> and \<^verbatim>\<open>Release\<close> keep it and never panic, and a completed packet is not touched before
  its handle is released.
\<close>

subsection \<open>\<open>New\<close>\<close>

lemma size_loop_Inr:
  assumes "size_loop want k = Inr n" and "k \<le> 62"
  shows "\<exists>j \<le> 62. n = 2 ^ j \<and> want \<le> n"
  using assms
proof (induction want k rule: size_loop.induct)
  case (1 want k)
  show ?case
  proof (cases "(2 :: int) ^ k < want")
    case False
    then show ?thesis using "1.prems" by (auto simp: size_loop.simps [of want k] Let_def)
  next
    case True
    then have small: "\<not> (2 :: int) ^ k > maxInt div 2"
      using "1.prems"(1) by (auto simp: size_loop.simps [of want k] Let_def)
    then have "(2 :: int) ^ k \<noteq> 2 ^ 62" by (simp add: maxInt_def)
    then have "Suc k \<le> 62" using "1.prems"(2) by (cases "k = 62") auto
    then show ?thesis
      using "1.IH" [OF refl True small] "1.prems"(1) True small by (simp add: size_loop.simps [of want k] Let_def)
  qed
qed

lemma free_list_initial:
  assumes "\<And>i. i < n \<Longrightarrow> sl_freeNext (ss ! i) = (if i = n - 1 then -1 else int i + 1)" and "length ss = n" and "j < n"
  shows "free_list ss (int j) [j..<n]"
  using assms(3)
proof (induction "n - j" arbitrary: j)
  case 0
  then show ?case by simp
next
  case (Suc m)
  show ?case
  proof (cases "j = n - 1")
    case True
    then have "[j..<n] = [j]" using Suc.prems by (simp add: upt_conv_Cons)
    then show ?thesis using assms(1,2) Suc.prems True by simp
  next
    case False
    then have "Suc j < n" using Suc.prems by simp
    then show ?thesis
      using Suc.hyps(1) [of "Suc j"] Suc.hyps(2) assms(1) [OF Suc.prems] assms(2) False
      by (simp add: upt_conv_Cons)
  qed
qed

lemma New_index:
  assumes "keyIndexSize slots = Inr n" and "0 < slots" and "int (length ss) = slots"
  shows "index_live \<lparr>ra_config = cfg, ra_slots = ss, ra_peerCounts = counts, ra_keySlots = replicate (nat n) 0,
    ra_keyMask = of_int (n - 1), ra_freeHead = h, ra_nextBorn = b\<rparr> {}"
proof -
  obtain j where j: "j \<le> 62" "n = 2 ^ j" "slots * 2 \<le> n"
    using assms(1) size_loop_Inr [of "slots * 2" 0 n] by (auto simp: keyIndexSize_def split: if_splits)
  have small: "(2 :: int) ^ j < 2 ^ 64" using j(1) by (intro power_strict_increasing) auto
  have "uint (of_int (n - 1) :: u64) = n - 1"
    by (rule uint_of_int_u64) (use small j(2) in simp_all)
  then have "unat (of_int (n - 1) :: u64) = nat (n - 1)"
    by (simp only: unat_eq_nat_uint)
  then have "unat (of_int (n - 1) :: u64) = 2 ^ j - 1"
    by (simp only: j(2)) (simp add: nat_diff_distrib nat_power_eq)
  moreover have "nat n = 2 ^ j" by (simp add: j(2) nat_power_eq)
  moreover have "2 * length ss \<le> nat n" using j(3) assms(3) by linarith
  ultimately show ?thesis
    by (auto simp: index_live_def index_holds_def table_shape_def nat_power_eq intro!: represents_empty exI [of _ j])
qed

lemma NewReassembler_ok:
  assumes "NewReassembler cfg = Inr r" and "rg_Slots cfg < 2 ^ 32"
  shows "reasm_ok r"
proof -
  let ?n = "nat (rg_Slots cfg)"
  let ?slot = "\<lambda>i. zero_slot 0 (if i = ?n - 1 then -1 else int i + 1) (replicate (nat (rg_MaxPacketSize cfg)) 0)"
  from assms(1) obtain keySlots where
    cfg: "0 < rg_Slots cfg" "0 < rg_MaxPacketSize cfg" "rg_MaxPacketSize cfg \<le> 65535" "0 < rg_MaxPeers cfg"
      "0 < rg_PerPeerSlots cfg" "rg_PerPeerSlots cfg \<le> rg_Slots cfg" "0 < rg_Lifetime cfg" and
    size: "keyIndexSize (rg_Slots cfg) = Inr keySlots" and
    r: "r = \<lparr>ra_config = cfg, ra_slots = map ?slot [0..<?n], ra_peerCounts = replicate (nat (rg_MaxPeers cfg)) 0,
      ra_keySlots = replicate (nat keySlots) 0, ra_keyMask = of_int (keySlots - 1), ra_freeHead = 0, ra_nextBorn = 0\<rparr>"
    by (auto simp: NewReassembler_def Let_def split: if_splits sum.splits)
  have "\<not> live r i" for i by (auto simp: live_def r zero_slot_def)
  then have idx: "index_live r {i. live r i}"
    using New_index [OF size cfg(1)] cfg(1) by (simp add: r)
  have "free_list (map ?slot [0..<?n]) (int 0) [0..<?n]"
    by (rule free_list_initial) (use cfg(1) in \<open>auto simp: zero_slot_def\<close>)
  then have "free_ok r"
    unfolding free_ok_def by (intro exI [of _ "[0..<?n]"]) (auto simp: r free_slots_def zero_slot_def)
  moreover have "counts_ok r"
    using cfg(5) by (auto simp: counts_ok_def r count_peer_def counts_for_def zero_slot_def)
  moreover have "\<forall>s\<in>set (ra_slots r). slot_ok cfg s"
    using cfg(2) by (auto simp: r intro!: slot_ok_zero)
  ultimately show ?thesis
    using idx cfg assms(2) by (simp add: reasm_ok_def config_ok_def r)
qed

subsection \<open>\<open>Accept\<close>\<close>

lemma findKey_iff:
  "reasm_ok r \<Longrightarrow> findKey r key = Some i \<longleftrightarrow> live r i \<and> key_at r i = key"
  using ki.lookup_Some [OF reasm_okD(5)] by simp

lemma findKey_None_iff:
  "reasm_ok r \<Longrightarrow> findKey r key = None \<longleftrightarrow> (\<forall>i. live r i \<longrightarrow> key_at r i \<noteq> key)"
  using ki.lookup_None [OF reasm_okD(5)] by simp

lemma validateKey_None: "validateKey r key = None \<Longrightarrow> int (unat (k_PeerID key)) < rg_MaxPeers (ra_config r)"
  by (simp add: validateKey_def split: if_splits)

lemma validateRecord_fits:
  assumes "validateRecord r key record = None" and "reasm_ok r"
  shows "record_fits (nat (rg_MaxPacketSize (ra_config r))) record"
proof -
  have v: "\<not> hd_FragmentCount (rc_Header record) < 1" "\<not> hd_FragmentCount (rc_Header record) > 16"
    "hd_FragmentIndex (rc_Header record) < hd_FragmentCount (rc_Header record)" "1 \<le> length (rc_Data record)"
    "int (unat (hd_Offset (rc_Header record))) + int (length (rc_Data record)) \<le> rg_MaxPacketSize (ra_config r)"
    using assms(1) by (auto simp: validateRecord_def Let_def maxFragments_def Suc_le_eq split: if_splits)
  have "rg_MaxPacketSize (ra_config r) \<le> 65535"
    using reasm_okD(1) [OF assms(2)] by (simp add: config_ok_def)
  with v(5) have "unat (hd_Offset (rc_Header record)) + length (rc_Data record) \<le> nat (rg_MaxPacketSize (ra_config r))"
    "nat (rg_MaxPacketSize (ra_config r)) \<le> 65535" by linarith+
  with v show ?thesis
    unfolding record_fits_def by (simp only: not_less simp_thms)
qed

lemma record_fits_count: "record_fits n record \<Longrightarrow> 1 \<le> unat (hd_FragmentCount (rc_Header record)) \<and> unat (hd_FragmentCount (rc_Header record)) \<le> 16"
  by (auto simp: record_fits_def word_le_nat_alt)

lemma live_allocated: "allocated r r' i now key count \<Longrightarrow> live r' i"
  by (simp add: allocated_def live_def new_slot_def zero_slot_def)

lemma preserves_allocated: "allocated r r' i now key count \<Longrightarrow> preserves r r'"
  unfolding allocated_def by (intro preserves_update) auto

lemma accept_new_slot:
  assumes "reasm_ok r" and "int (unat (k_PeerID key)) < rg_MaxPeers (ra_config r)"
    and "record_fits (nat (rg_MaxPacketSize (ra_config r))) record" and "\<And>j. live r j \<Longrightarrow> key_at r j \<noteq> key"
  shows "reasm_step r
    (do {
       (r2, alloc) \<leftarrow> allocateSlot r now key (hd_FragmentCount (rc_Header record));
       (case alloc of
          None \<Rightarrow>
            Some (r2, Inl (if int (unat (ra_peerCounts r2 ! unat (k_PeerID key))) \<ge> rg_PerPeerSlots (ra_config r2)
                           then ErrPeerQuota else ErrNoSlot))
        | Some (i, evicted, didEvict) \<Rightarrow> accept_fragment r2 i record didEvict evicted)
     })"
proof -
  note count = record_fits_count [OF assms(3)]
  show ?thesis
  proof (rule allocateSlot_ok [OF assms(1,2) conjunct1 [OF count] conjunct2 [OF count] assms(4)])
    assume "allocateSlot r now key (hd_FragmentCount (rc_Header record)) = Some (r, None)"
    then show ?thesis using assms(1) by (simp add: reasm_step_def)
  next
    fix r' i evicted didEvict
    assume a: "allocateSlot r now key (hd_FragmentCount (rc_Header record)) = Some (r', Some (i, evicted, didEvict))"
      and al: "allocated r r' i now key (hd_FragmentCount (rc_Header record))"
    have "reasm_ok r'" "ra_config r' = ra_config r" using al by (simp_all add: allocated_def)
    then have "reasm_step r' (accept_fragment r' i record didEvict evicted)"
      using live_allocated [OF al] assms(3) by (intro accept_fragment_step) simp_all
    from reasm_step_trans [OF preserves_allocated [OF al] this] show ?thesis by (simp add: a)
  qed
qed

lemma dropAssemblingKey_ok:
  assumes "reasm_ok r"
  shows "\<exists>r1. dropAssemblingKey r key = Some r1 \<and> reasm_ok r1 \<and> preserves r r1"
proof (cases "\<exists>i. findKey r key = Some i \<and> sl_state (ra_slots r ! i) = slotAssembling")
  case True
  then obtain i where i: "findKey r key = Some i" "sl_state (ra_slots r ! i) = slotAssembling" by blast
  then have "i < length (ra_slots r)" using findKey_iff [OF assms] by (simp add: live_def)
  then obtain r1 where "clearSlot r i = Some r1" "reasm_ok r1" "preserves r r1"
    by (rule clearSlot_preserves [OF assms _ i(2)])
  then show ?thesis using i by (simp add: dropAssemblingKey_def)
next
  case False
  then show ?thesis using assms by (auto simp: dropAssemblingKey_def split: option.split)
qed

lemma Accept_step:
  assumes "reasm_ok r"
  shows "reasm_step r (Reassembler_Accept r now key record)"
proof (cases "validateKey r key")
  case (Some err)
  then show ?thesis using assms by (simp add: Reassembler_Accept_def reasm_step_def)
next
  case vk: None
  note peer = validateKey_None [OF vk]
  show ?thesis
  proof (cases "validateRecord r key record")
    case (Some err)
    have "\<exists>r1. dropAssemblingKey r key = Some r1 \<and> reasm_ok r1 \<and> preserves r r1"
      by (rule dropAssemblingKey_ok [OF assms])
    then show ?thesis using vk Some by (auto simp: Reassembler_Accept_def reasm_step_def)
  next
    case vr: None
    note fits = validateRecord_fits [OF vr assms]
    show ?thesis
    proof (cases "findKey r key")
      case None
      then have "live r j \<Longrightarrow> key_at r j \<noteq> key" for j using findKey_None_iff [OF assms] by blast
      from accept_new_slot [OF assms peer fits this, of now] show ?thesis
        using vk vr None by (simp add: Reassembler_Accept_def)
    next
      case (Some i)
      then have i: "live r i" "key_at r i = key" using findKey_iff [OF assms] by auto
      show ?thesis
      proof (cases "sl_state (ra_slots r ! i) = slotAssembling \<and> slot_expired r (ra_slots r ! i) now")
        case False
        then show ?thesis
          using accept_fragment_step [OF assms i(1) fits, of False zero_key] vk vr Some
          by (auto simp: Reassembler_Accept_def)
      next
        case True
        obtain r1 where r1: "clearSlot r i = Some r1" "reasm_ok r1" "preserves r r1"
            "{j. live r1 j} = {j. live r j} - {i}" "\<And>j. j \<noteq> i \<Longrightarrow> ra_slots r1 ! j = ra_slots r ! j"
          by (rule clearSlot_preserves [OF assms]) (use i(1) True in \<open>auto simp: live_def\<close>)
        have "key_at r1 j \<noteq> key" if "live r1 j" for j
        proof -
          have "live r j" "j \<noteq> i" using r1(4) that by auto
          moreover have "key_at r1 j = key_at r j" using r1(5) \<open>j \<noteq> i\<close> by (simp add: key_at_def)
          moreover have "key_at r j \<noteq> key_at r i"
            using ki.keys_distinct [OF reasm_okD(5) [OF assms], of j i] i(1) \<open>live r j\<close> \<open>j \<noteq> i\<close> by auto
          ultimately show ?thesis using i(2) by simp
        qed
        moreover have "ra_config r1 = ra_config r" using r1(3) by (simp add: preserves_def)
        ultimately show ?thesis
          using reasm_step_trans [OF r1(3) accept_new_slot [OF r1(2), of key "record" now]] peer fits vk vr Some True r1(1)
          by (simp add: Reassembler_Accept_def)
      qed
    qed
  qed
qed

subsection \<open>\<open>Expire\<close>, \<open>PurgePeer\<close> and \<open>Release\<close>\<close>

text \<open>
  \<open>Expire\<close> frees exactly the assembling slots whose lifetime is over: afterwards every other slot is as it
  was and the number returned is the number of slots freed.
\<close>

definition expiring :: "Reassembler \<Rightarrow> gotime \<Rightarrow> nat \<Rightarrow> bool" where
  "expiring r now i \<longleftrightarrow> sl_state (ra_slots r ! i) = slotAssembling \<and> slot_expired r (ra_slots r ! i) now"

lemma expire_loop_Cons:
  "expire_loop r now n (i # is) =
     (if expiring r now i then Option.bind (clearSlot r i) (\<lambda>r1. expire_loop r1 now (n + 1) is) else expire_loop r now n is)"
  by (simp add: expiring_def Let_def)

declare expire_loop.simps(2) [simp del]

lemma expire_loop_ok:
  assumes "reasm_ok r" and "distinct is" and "set is \<subseteq> {..<length (ra_slots r)}"
  shows "\<exists>r'. expire_loop r now n is = Some (r', n + length (filter (expiring r now) is)) \<and> reasm_ok r' \<and> preserves r r' \<and>
    (\<forall>i < length (ra_slots r). if i \<in> set is \<and> expiring r now i
       then sl_state (ra_slots r' ! i) = slotFree else ra_slots r' ! i = ra_slots r ! i)"
  using assms
proof (induction "is" arbitrary: r n)
  case Nil
  then show ?case by simp
next
  case (Cons i "is")
  have i: "i < length (ra_slots r)" using Cons.prems(3) by simp
  show ?case
  proof (cases "expiring r now i")
    case False
    then obtain r' where r': "expire_loop r now n is = Some (r', n + length (filter (expiring r now) is))"
      "reasm_ok r'" "preserves r r'"
      "\<forall>j < length (ra_slots r). if j \<in> set is \<and> expiring r now j
         then sl_state (ra_slots r' ! j) = slotFree else ra_slots r' ! j = ra_slots r ! j"
      using Cons.IH [of r n] Cons.prems by auto
    then show ?thesis using False by (intro exI [of _ r']) (auto simp: expire_loop_Cons)
  next
    case True
    then have asm: "sl_state (ra_slots r ! i) = slotAssembling" by (simp add: expiring_def)
    obtain r1 where r1: "clearSlot r i = Some r1" "reasm_ok r1" "preserves r r1"
      "\<And>j. j \<noteq> i \<Longrightarrow> ra_slots r1 ! j = ra_slots r ! j" "sl_state (ra_slots r1 ! i) = slotFree"
      using clearSlot_preserves [OF Cons.prems(1) i asm] by metis
    have len: "length (ra_slots r1) = length (ra_slots r)" "ra_config r1 = ra_config r"
      using r1(3) by (simp_all add: preserves_def)
    have same: "expiring r1 now j \<longleftrightarrow> expiring r now j" if "j \<noteq> i" for j
      using r1(4) [OF that] len by (simp add: expiring_def slot_expired_def)
    then have "filter (expiring r1 now) is = filter (expiring r now) is"
      using Cons.prems(2) by (intro filter_cong refl) (metis distinct.simps(2))
    then obtain r' where r': "expire_loop r1 now (n + 1) is = Some (r', n + 1 + length (filter (expiring r now) is))"
      "reasm_ok r'" "preserves r1 r'"
      "\<forall>j < length (ra_slots r1). if j \<in> set is \<and> expiring r1 now j
         then sl_state (ra_slots r' ! j) = slotFree else ra_slots r' ! j = ra_slots r1 ! j"
      using Cons.IH [of r1 "n + 1"] Cons.prems r1(2) len by auto
    have "if j \<in> set (i # is) \<and> expiring r now j
        then sl_state (ra_slots r' ! j) = slotFree else ra_slots r' ! j = ra_slots r ! j" if "j < length (ra_slots r)" for j
      using r'(4) that len(1) same [of j] r1(4) [of j] r1(5) Cons.prems(2) True by (cases "j = i") auto
    then show ?thesis
      using True r1(1) r'(1,2) preserves_trans [OF r1(3) r'(3)]
      by (intro exI [of _ r']) (simp add: expire_loop_Cons)
  qed
qed

lemma Release_ok:
  assumes "reasm_ok r"
  shows "\<exists>r' res. Reassembler_Release r handle = Some (r', res) \<and> reasm_ok r' \<and> ra_config r' = ra_config r \<and>
    (res \<noteq> None \<longrightarrow> r' = r) \<and>
    (res = None \<longrightarrow> (\<exists>i < length (ra_slots r). sh_index handle = int i \<and> sl_state (ra_slots r ! i) = slotCompleted \<and>
       sl_generation (ra_slots r ! i) = sh_generation handle \<and>
       ra_slots r' = (ra_slots r)[i := zero_slot (sh_generation handle) (ra_freeHead r) (sl_buf (ra_slots r ! i))]))"
proof (cases "0 \<le> sh_index handle \<and> sh_index handle < int (length (ra_slots r)) \<and>
    sl_state (ra_slots r ! nat (sh_index handle)) = slotCompleted \<and>
    sl_generation (ra_slots r ! nat (sh_index handle)) = sh_generation handle")
  case True
  let ?i = "nat (sh_index handle)"
  obtain cells counts where c: "clearSlot r ?i = Some (cleared r ?i cells counts)" "reasm_ok (cleared r ?i cells counts)"
    by (rule clearSlot_ok [OF assms, of ?i]) (use True in auto)
  then show ?thesis
    using True by (auto simp: Reassembler_Release_def Let_def cleared_def intro!: exI [of _ ?i])
next
  case False
  then have "Reassembler_Release r handle = Some (r, Some ErrInvalidHandle)"
    by (auto simp: Reassembler_Release_def Let_def)
  then show ?thesis using assms by simp
qed

lemma free_ok_swap:
  assumes "free_ok r" and "i < length (ra_slots r)" and "sl_state (ra_slots r ! i) \<noteq> slotFree"
    and "ra_slots r' = (ra_slots r)[i := s]" and "sl_state s \<noteq> slotFree" and "ra_freeHead r' = ra_freeHead r"
  shows "free_ok r'"
proof -
  obtain fl where fl: "free_list (ra_slots r) (ra_freeHead r) fl" "distinct fl" "set fl = free_slots (ra_slots r)"
    using assms(1) by (auto simp: free_ok_def)
  have "i \<notin> set fl" using fl(3) assms(3) by (simp add: free_slots_def)
  then show ?thesis
    unfolding free_ok_def using fl assms(2,4-6)
    by (intro exI [of _ fl]) (auto simp: free_list_update free_slots_update)
qed

lemma detached_view:
  "fragments_ok (s\<lparr>sl_detached := a, sl_counted := b\<rparr>) = fragments_ok s"
  "contiguousLength (s\<lparr>sl_detached := a, sl_counted := b\<rparr>) = contiguousLength s"
proof -
  have "contiguous_loop (s\<lparr>sl_detached := a, sl_counted := b\<rparr>) m next used = contiguous_loop s m next used" for m "next" used
    by (induction s m "next" used rule: contiguous_loop.induct) (auto split: option.splits)
  then show "contiguousLength (s\<lparr>sl_detached := a, sl_counted := b\<rparr>) = contiguousLength s"
    by (simp add: contiguousLength_def)
qed (simp add: fragments_ok_def frag_start_def frag_stop_def)

text \<open>Detaching a completed slot: what the body of the \<^verbatim>\<open>PurgePeer\<close> loop does to it.\<close>

lemma detach_ok:
  assumes "reasm_ok r" and "live r i" and "sl_state (ra_slots r ! i) = slotCompleted"
  obtains r1 where "removeKey (set_slot r i ((ra_slots r ! i)\<lparr>sl_detached := True\<rparr>)) (key_at r i) = Some r1"
    and "reasm_ok (uncount r1 i)" and "ra_config (uncount r1 i) = ra_config r"
    and "ra_slots (uncount r1 i) = (ra_slots r)[i := (ra_slots r ! i)\<lparr>sl_detached := True, sl_counted := False\<rparr>]"
proof -
  note d = reasm_okD [OF assms(1)]
  let ?s = "ra_slots r ! i" and ?p0 = "unat (k_PeerID (key_at r i))"
  let ?t = "?s\<lparr>sl_detached := True, sl_counted := False\<rparr>"
  let ?rd = "set_slot r i (?s\<lparr>sl_detached := True\<rparr>)"
  have i: "i < length (ra_slots r)" using assms(2) by (simp add: live_def)
  have s: "slot_ok (ra_config r) ?s" by (rule d(4) [OF i])
  then have counted: "sl_counted ?s" using assms(2) by (auto simp: slot_ok_def live_def)
  have "int ?p0 < rg_MaxPeers (ra_config r)" using s assms(3) by (simp add: slot_ok_def key_at_def)
  then have p0: "?p0 < length (ra_peerCounts r)" using d(3) by linarith
  have keys: "key_at ?rd j = key_at r j" for j
    using i by (cases "j = i") (simp_all add: key_at_def set_slot_def)
  have "index_holds r {j. live r j}" using d(5) by (simp add: index_live_def)
  then have holds: "index_holds ?rd {j. live r j}"
    by (rule index_holds_cong) (simp only: keys, simp_all add: set_slot_def)
  have mem: "i \<in> {j. live r j}" using assms(2) by simp
  obtain cells where c: "removeKey ?rd (key_at ?rd i) = Some (?rd\<lparr>ra_keySlots := cells\<rparr>)"
    "index_holds (?rd\<lparr>ra_keySlots := cells\<rparr>) ({j. live r j} - {i})"
    by (rule index_remove [OF holds mem])
  define r2 where "r2 = uncount (?rd\<lparr>ra_keySlots := cells\<rparr>) i"
  define counts where "counts = (ra_peerCounts r)[?p0 := ra_peerCounts r ! ?p0 - 1]"
  have r2: "r2 = r\<lparr>ra_slots := (ra_slots r)[i := ?t], ra_keySlots := cells, ra_peerCounts := counts\<rparr>"
    using i counted counts_pos(1) [OF d(7) i counted refl] p0
    by (simp add: r2_def uncount_def set_slot_def Let_def key_at_def counts_def)
  have live: "{j. live r2 j} = {j. live r j} - {i}"
    using i by (auto simp: r2 live_def nth_list_update)
  have "index_holds r2 ({j. live r j} - {i})"
    by (rule index_holds_cong [OF c(2)]) (use i in \<open>auto simp: r2 key_at_def set_slot_def\<close>)
  then have idx: "index_live r2 {j. live r2 j}" using live by (auto simp: index_live_def)
  have free: "free_ok r2" by (rule free_ok_swap [OF d(6) i, where s = ?t]) (simp_all add: r2 assms(3))
  have cnt: "counts_ok r2"
    by (rule counts_ok_uncounted [OF d(7) i, where counts = counts and z = ?t])
      (use counted p0 in \<open>simp_all add: r2 counts_def key_at_def\<close>)
  have "slot_ok (ra_config r) ?t" using s assms(3) by (simp add: slot_ok_def detached_view)
  moreover have "\<forall>s\<in>set (ra_slots r). slot_ok (ra_config r) s" using assms(1) by (simp add: reasm_ok_def)
  ultimately have "\<forall>s\<in>set ((ra_slots r)[i := ?t]). slot_ok (ra_config r) s" by (intro slots_ok_update)
  then have "reasm_ok r2"
    using d(1-3) idx free cnt unfolding reasm_ok_def by (simp add: r2 counts_def)
  then show thesis
    using that [of "?rd\<lparr>ra_keySlots := cells\<rparr>"] c(1) keys unfolding r2_def [symmetric] by (simp add: r2)
qed

text \<open>
  \<open>PurgePeer\<close>: assembling slots of the peer are freed, completed ones leave the index and the quota but
  keep their packet, all other slots are untouched.
\<close>

definition of_peer :: "Reassembler \<Rightarrow> PeerID \<Rightarrow> nat \<Rightarrow> bool" where
  "of_peer r peer i \<longleftrightarrow> live r i \<and> k_PeerID (key_at r i) = peer"

definition purged_slot :: "Reassembler \<Rightarrow> Reassembler \<Rightarrow> nat \<Rightarrow> bool" where
  "purged_slot r r' i \<longleftrightarrow>
     \<not> live r' i \<and>
     (sl_state (ra_slots r ! i) = slotCompleted \<longrightarrow>
        ra_slots r' ! i = (ra_slots r ! i)\<lparr>sl_detached := True, sl_counted := False\<rparr>) \<and>
     (sl_state (ra_slots r ! i) = slotAssembling \<longrightarrow> sl_state (ra_slots r' ! i) = slotFree)"

lemma purge_one:
  assumes "reasm_ok r" and "of_peer r peer i"
  obtains r1 where "purge_loop r peer n (i # is) = purge_loop r1 peer (n + 1) is"
    and "reasm_ok r1" and "preserves r r1" and "purged_slot r r1 i"
    and "\<And>j. j \<noteq> i \<Longrightarrow> ra_slots r1 ! j = ra_slots r ! j"
proof -
  have i: "live r i" "i < length (ra_slots r)" "k_PeerID (sl_key (ra_slots r ! i)) = peer"
    using assms(2) by (simp_all add: of_peer_def live_def key_at_def)
  show thesis
  proof (cases "sl_state (ra_slots r ! i) = slotCompleted")
    case True
    obtain r1 where r1: "removeKey (set_slot r i ((ra_slots r ! i)\<lparr>sl_detached := True\<rparr>)) (key_at r i) = Some r1"
      "reasm_ok (uncount r1 i)" "ra_config (uncount r1 i) = ra_config r"
      "ra_slots (uncount r1 i) = (ra_slots r)[i := (ra_slots r ! i)\<lparr>sl_detached := True, sl_counted := False\<rparr>]"
      by (rule detach_ok [OF assms(1) i(1) True])
    have "purge_loop r peer n (i # is) = purge_loop (uncount r1 i) peer (n + 1) is"
      using True i r1(1) by (simp add: live_def key_at_def Let_def)
    moreover have "preserves r (uncount r1 i)"
      using r1(3,4) i(2) by (auto simp: preserves_def nth_list_update packet_view_def)
    moreover have "purged_slot r (uncount r1 i) i"
      using r1(4) i(2) True by (simp add: purged_slot_def live_def)
    ultimately show thesis using that r1(2,4) by simp
  next
    case False
    then have asm: "sl_state (ra_slots r ! i) = slotAssembling"
      using i(1) by (cases "sl_state (ra_slots r ! i)") (auto simp: live_def)
    obtain r1 where r1: "clearSlot r i = Some r1" "reasm_ok r1" "preserves r r1"
      "{j. live r1 j} = {j. live r j} - {i}"
      "\<And>j. j \<noteq> i \<Longrightarrow> ra_slots r1 ! j = ra_slots r ! j" "sl_state (ra_slots r1 ! i) = slotFree"
      by (rule clearSlot_preserves [OF assms(1) i(2) asm]) blast
    have "purge_loop r peer n (i # is) = purge_loop r1 peer (n + 1) is"
      using asm i r1(1) by (simp add: live_def Let_def)
    moreover have "purged_slot r r1 i" using asm r1(6) by (simp add: purged_slot_def live_def)
    ultimately show thesis using that r1(2,3,5) by simp
  qed
qed

lemma purge_loop_ok:
  assumes "reasm_ok r" and "distinct is" and "set is \<subseteq> {..<length (ra_slots r)}"
  shows "\<exists>r'. purge_loop r peer n is = Some (r', n + length (filter (of_peer r peer) is)) \<and> reasm_ok r' \<and> preserves r r' \<and>
    (\<forall>i < length (ra_slots r). if i \<in> set is \<and> of_peer r peer i
       then purged_slot r r' i else ra_slots r' ! i = ra_slots r ! i)"
  using assms
proof (induction "is" arbitrary: r n)
  case Nil
  then show ?case by simp
next
  case (Cons i "is")
  have i: "i < length (ra_slots r)" using Cons.prems(3) by simp
  show ?case
  proof (cases "of_peer r peer i")
    case False
    then have "purge_loop r peer n (i # is) = purge_loop r peer n is"
      using i by (auto simp: of_peer_def live_def key_at_def Let_def)
    then show ?thesis
      using Cons.IH [of r n] Cons.prems False by (auto simp del: purge_loop.simps)
  next
    case True
    obtain r1 where r1: "purge_loop r peer n (i # is) = purge_loop r1 peer (n + 1) is" "reasm_ok r1" "preserves r r1"
      "purged_slot r r1 i" "\<And>j. j \<noteq> i \<Longrightarrow> ra_slots r1 ! j = ra_slots r ! j"
      by (rule purge_one [OF Cons.prems(1) True, of n "is"]) blast
    have len: "length (ra_slots r1) = length (ra_slots r)" using r1(3) by (simp add: preserves_def)
    have same: "of_peer r1 peer j \<longleftrightarrow> of_peer r peer j" if "j \<noteq> i" for j
      using r1(5) [OF that] len by (simp add: of_peer_def live_def key_at_def)
    then have "filter (of_peer r1 peer) is = filter (of_peer r peer) is"
      using Cons.prems(2) by (intro filter_cong refl) (metis distinct.simps(2))
    then obtain r' where r': "purge_loop r1 peer (n + 1) is = Some (r', n + 1 + length (filter (of_peer r peer) is))"
      "reasm_ok r'" "preserves r1 r'"
      "\<forall>j < length (ra_slots r1). if j \<in> set is \<and> of_peer r1 peer j then purged_slot r1 r' j else ra_slots r' ! j = ra_slots r1 ! j"
      using Cons.IH [of r1 "n + 1"] Cons.prems(2,3) r1(2) len by auto
    have len': "length (ra_slots r') = length (ra_slots r1)" using r'(3) by (simp add: preserves_def)
    have "if j \<in> set (i # is) \<and> of_peer r peer j then purged_slot r r' j else ra_slots r' ! j = ra_slots r ! j"
      if "j < length (ra_slots r)" for j
      using r'(4) that len len' same [of j] r1(4) r1(5) [of j] Cons.prems(2) True
      by (cases "j = i") (auto simp: purged_slot_def live_def)
    then show ?thesis
      using True r1(1) r'(1,2) preserves_trans [OF r1(3) r'(3)] by (intro exI [of _ r']) simp
  qed
qed

end
