(* ===== verification/ReassemblyCorrect.thy ===== *)
theory ReassemblyCorrect
  imports ReassemblyOps Packetizer
begin

text \<open>
  Reassembly is correct: the fragments of a packet, delivered in any order and with any repetition,
  give back the packet exactly once.
\<close>

subsection \<open>A slot that holds some fragments of a packet\<close>

definition frag_off :: "Frag list \<Rightarrow> nat \<Rightarrow> nat" where
  "frag_off frags j = length (concat (map fr_Data (take j frags)))"

text \<open>\<open>holds_part s frags D\<close>: the slot \<open>s\<close> holds exactly the fragments with index in \<open>D\<close>.\<close>

definition holds_part :: "slot \<Rightarrow> Frag list \<Rightarrow> nat set \<Rightarrow> bool" where
  "holds_part s frags D \<longleftrightarrow>
     D \<subseteq> {..<length frags} \<and> unat (sl_count s) = length frags \<and>
     (\<forall>j. bit (sl_present s) j \<longleftrightarrow> j \<in> D) \<and>
     (\<forall>j\<in>D. frag_start s j = frag_off frags j \<and> frag_stop s j = frag_off frags (Suc j) \<and>
        subslice (frag_off frags j) (frag_off frags (Suc j)) (sl_buf s) = fr_Data (frags ! j))"

lemma frag_off_0 [simp]: "frag_off frags 0 = 0"
  by (simp add: frag_off_def)

lemma frag_off_Suc: "j < length frags \<Longrightarrow> frag_off frags (Suc j) = frag_off frags j + length (fr_Data (frags ! j))"
  by (simp add: frag_off_def take_Suc_conv_app_nth)

lemma frag_off_mono_step: "frag_off frags j \<le> frag_off frags (Suc j)"
  by (cases "j < length frags") (simp_all add: frag_off_Suc, simp add: frag_off_def)

lemma frag_off_mono: "i \<le> j \<Longrightarrow> frag_off frags i \<le> frag_off frags j"
  by (rule lift_Suc_mono_le [of "frag_off frags"]) (rule frag_off_mono_step)

lemma fragmentation_off:
  assumes "fragmentation packet md frags"
  shows "frag_off frags (length frags) = length packet"
    and "j < length frags \<Longrightarrow> frag_off frags j < frag_off frags (Suc j)"
    and "j \<le> length frags \<Longrightarrow> frag_off frags j \<le> length packet"
proof -
  show last: "frag_off frags (length frags) = length packet"
    using assms by (simp add: fragmentation_def frag_off_def)
  show "frag_off frags j < frag_off frags (Suc j)" if "j < length frags"
    using assms that by (simp add: frag_off_Suc fragmentation_def)
  show "frag_off frags j \<le> length packet" if "j \<le> length frags"
    using frag_off_mono [OF that, of frags] last by simp
qed

lemma frag_off_inj:
  assumes "fragmentation packet md frags" and "i < length frags" and "j < length frags"
    and "frag_off frags i = frag_off frags j"
  shows "i = j"
proof -
  have "\<not> a < b" if "a < length frags" "frag_off frags a = frag_off frags b" for a b
    using fragmentation_off(2) [OF assms(1) that(1)] frag_off_mono [of "Suc a" b frags] that(2) by (auto simp: Suc_le_eq)
  then show ?thesis using assms(2-4) by (metis linorder_neqE_nat)
qed

lemma fragment_header:
  assumes "fragmentation packet md frags" and "j < length frags" and "length packet \<le> 65535"
  shows "unat (hd_FragmentIndex (fr_Header (frags ! j))) = j"
    and "unat (hd_FragmentCount (fr_Header (frags ! j))) = length frags"
    and "unat (hd_Offset (fr_Header (frags ! j))) = frag_off frags j"
proof -
  have n: "length frags \<le> 16" using assms(1) by (simp add: fragmentation_def)
  have h: "fr_Header (frags ! j) = \<lparr>hd_FragmentIndex = of_nat j, hd_FragmentCount = of_nat (length frags),
      hd_LaneID = md_LaneID md, hd_DataSessionID = md_DataSessionID md, hd_LaneSequence = md_LaneSequence md,
      hd_Offset = of_nat (frag_off frags j)\<rparr>"
    using assms(1,2) by (simp add: fragmentation_def frag_off_def)
  have "frag_off frags j \<le> length packet" by (rule fragmentation_off(3) [OF assms(1)]) (use assms(2) in simp)
  then show "unat (hd_Offset (fr_Header (frags ! j))) = frag_off frags j"
    using assms(3) by (simp add: h unat_of_nat_u16 del: unat_of_nat)
  show "unat (hd_FragmentIndex (fr_Header (frags ! j))) = j"
    using n assms(2) by (simp add: h unat_of_nat_u8 del: unat_of_nat)
  show "unat (hd_FragmentCount (fr_Header (frags ! j))) = length frags"
    using n by (simp add: h unat_of_nat_u8 del: unat_of_nat)
qed

subsection \<open>All fragments\<close>

lemma find_upt_Some:
  assumes "k < n" and "P k" and "\<And>i. i < k \<Longrightarrow> \<not> P i"
  shows "find P [0..<n] = Some k"
  unfolding find_Some_iff using assms by (intro exI [of _ k]) auto

lemma mask_OR_bit: "k < 16 \<Longrightarrow> (mask k :: u16) OR 2 ^ k = mask (Suc k)"
  by (rule bit_word_eqI) (auto simp: bit_mask_iff less_Suc_eq bit_or_iff bit_exp_iff)

lemma contiguous_part:
  assumes "fragmentation packet md frags" and "holds_part s frags {..<length frags}"
  shows "contiguousLength s = Some (length packet)"
proof -
  let ?n = "length frags"
  have n: "?n \<le> 16" "unat (sl_count s) = ?n"
    using assms by (simp_all add: fragmentation_def holds_part_def)
  have part: "unat (sl_offsets s ! j) = frag_off frags j \<and>
      unat (sl_offsets s ! j) + unat (sl_lengths s ! j) = frag_off frags (Suc j)" if "j < ?n" for j
    using assms(2) that unfolding holds_part_def frag_start_def frag_stop_def by blast
  have "contiguous_loop s (?n - k) (frag_off frags k) (mask k) = Some (length packet)" if "k \<le> ?n" for k
    using that
  proof (induction "?n - k" arbitrary: k)
    case 0
    then show ?case using fragmentation_off(1) [OF assms(1)] by simp
  next
    case (Suc m)
    then have k: "k < ?n" "?n - k = Suc m" "m = ?n - Suc k" by auto
    have "find (\<lambda>i. (mask k :: u16) AND push_bit i 1 = 0 \<and> unat (sl_offsets s ! i) = frag_off frags k) [0..<?n] = Some k"
      by (rule find_upt_Some) (use k n part in \<open>auto simp: bit_mask_iff\<close>)
    moreover have "frag_off frags k + unat (sl_lengths s ! k) = frag_off frags (Suc k)"
      using part [OF k(1)] by simp
    ultimately show ?case
      using Suc.hyps(1) [of "Suc k"] k n by (simp add: mask_OR_bit)
  qed
  from this [of 0] show ?thesis by (simp add: contiguousLength_def n)
qed

lemma take_part:
  assumes "fragmentation packet md frags" and "holds_part s frags {..<length frags}"
  shows "take (length packet) (sl_buf s) = packet"
proof -
  let ?n = "length frags"
  have "take (length packet) (sl_buf s) = subslice (frag_off frags 0) (frag_off frags (0 + ?n)) (sl_buf s)"
    using fragmentation_off(1) [OF assms(1)] by (simp add: subslice_def)
  also have "\<dots> = concat (map (\<lambda>j. subslice (frag_off frags j) (frag_off frags (Suc j)) (sl_buf s)) [0..<0 + ?n])"
    by (rule concat_subslices [symmetric]) (rule frag_off_mono_step)
  also have "\<dots> = concat (map (\<lambda>j. fr_Data (frags ! j)) [0..<?n])"
    using assms(2) by (auto simp: holds_part_def intro!: arg_cong [of _ _ concat])
  also have "map (\<lambda>j. fr_Data (frags ! j)) [0..<?n] = map fr_Data frags"
    by (rule nth_equalityI) simp_all
  also have "concat (map fr_Data frags) = packet"
    using assms(1) by (simp add: fragmentation_def)
  finally show ?thesis .
qed

subsection \<open>One more fragment\<close>

lemma fragment_fits:
  assumes "fragmentation packet md frags" and "j < length frags" and "length packet \<le> cap" and "cap \<le> 65535"
  shows "record_fits cap (frag_record (frags ! j))"
proof -
  note h = fragment_header [OF assms(1,2)]
  have "frag_off frags (Suc j) \<le> length packet"
    by (rule fragmentation_off(3) [OF assms(1)]) (use assms(2) in simp)
  moreover have "1 \<le> length frags" "length frags \<le> 16" using assms(1) by (simp_all add: fragmentation_def)
  ultimately show ?thesis
    using assms h fragmentation_off(2) [OF assms(1,2)]
    unfolding record_fits_def frag_record_def
    by (simp add: word_le_nat_alt word_less_nat_alt frag_off_Suc Suc_le_eq)
qed

lemma part_disjoint:
  assumes "fragmentation packet md frags" and "holds_part s frags D" and "j < length frags" and "j \<notin> D"
  shows "\<not> overlaps s (frag_off frags j) (frag_off frags (Suc j))"
proof
  assume "overlaps s (frag_off frags j) (frag_off frags (Suc j))"
  then obtain i where i: "i \<in> D" "frag_off frags j < frag_off frags (Suc i)" "frag_off frags i < frag_off frags (Suc j)"
    using assms(2) by (auto simp: overlaps_iff holds_part_def)
  then have "\<not> Suc i \<le> j" "\<not> Suc j \<le> i"
    using frag_off_mono [of "Suc i" j frags] frag_off_mono [of "Suc j" i frags] by auto
  then have "i = j" by simp
  then show False using i(1) assms(4) by simp
qed

lemma stored_part:
  assumes "fragmentation packet md frags" and "holds_part s frags D" and "j < length frags" and "j \<notin> D"
    and "fragments_ok s" and "length packet \<le> length (sl_buf s)" and "length (sl_buf s) \<le> 65535"
  shows "holds_part (stored s (frag_record (frags ! j))) frags (insert j D)"
proof -
  let ?rec = "frag_record (frags ! j)" and ?n = "length frags"
  have l: "length packet \<le> 65535" using assms(6,7) by simp
  have h: "unat (hd_FragmentIndex (rc_Header ?rec)) = j" "unat (hd_FragmentCount (rc_Header ?rec)) = ?n"
    "unat (hd_Offset (rc_Header ?rec)) = frag_off frags j" "rc_Data ?rec = fr_Data (frags ! j)"
    using fragment_header [OF assms(1,3) l] by (simp_all add: frag_record_def)
  have cnt: "sl_count s = hd_FragmentCount (rc_Header ?rec)"
    using assms(2) h(2) by (simp add: holds_part_def word_unat_eq_iff)
  note r = stored_ranges [OF assms(5) fragment_fits [OF assms(1,3,6,7)] cnt, unfolded h]
  have stop: "frag_off frags j + length (fr_Data (frags ! j)) = frag_off frags (Suc j)"
    using assms(3) by (simp add: frag_off_Suc)
  have bound: "frag_off frags (Suc k) \<le> length (sl_buf s)" if "k < ?n" for k
    using fragmentation_off(3) [OF assms(1), of "Suc k"] that assms(6) by simp
  have buf: "sl_buf (stored s ?rec) = copy_at (frag_off frags j) (fr_Data (frags ! j)) (sl_buf s)"
    by (simp add: stored_def Let_def h)
  have new: "subslice (frag_off frags j) (frag_off frags (Suc j)) (sl_buf (stored s ?rec)) = fr_Data (frags ! j)"
    using subslice_copy_at_same [of "frag_off frags j" "fr_Data (frags ! j)" "sl_buf s"] stop bound [OF assms(3)] buf by simp
  have old: "subslice (frag_off frags k) (frag_off frags (Suc k)) (sl_buf (stored s ?rec)) = fr_Data (frags ! k)"
    if k: "k \<in> D" for k
  proof -
    have kn: "k < ?n" "k \<noteq> j" using k assms(2,4) by (auto simp: holds_part_def)
    then have "frag_off frags (Suc k) \<le> frag_off frags j \<or> frag_off frags (Suc j) \<le> frag_off frags k"
      using frag_off_mono [of "Suc k" j frags] frag_off_mono [of "Suc j" k frags] by (cases "k < j") auto
    then have "subslice (frag_off frags k) (frag_off frags (Suc k)) (sl_buf (stored s ?rec)) =
        subslice (frag_off frags k) (frag_off frags (Suc k)) (sl_buf s)"
      unfolding buf using bound [OF assms(3)] bound [OF kn(1)] stop by (intro subslice_copy_at_disjoint) auto
    then show ?thesis using k assms(2) by (simp add: holds_part_def)
  qed
  have "sl_count (stored s ?rec) = sl_count s" by (simp add: stored_def Let_def)
  then show ?thesis
    unfolding holds_part_def r(3-5) stop using assms(2,3) new old by (auto simp: holds_part_def)
qed

text \<open>The result of offering fragment \<open>j\<close> of a packet to a slot that holds the fragments \<open>D\<close> of it.\<close>

definition expected_status :: "nat \<Rightarrow> nat set \<Rightarrow> nat \<Rightarrow> ResultStatus" where
  "expected_status n D j =
     (if j \<in> D then StatusDuplicate else if insert j D = {..<n} then StatusCompleted else StatusAccepted)"

lemma present_part:
  assumes "holds_part s frags D" and "length frags \<le> 16"
  shows "sl_present s = mask (unat (sl_count s)) \<longleftrightarrow> D = {..<length frags}"
  using assms present_all [of "length frags" "sl_present s"] by (auto simp: holds_part_def)

definition part_step ::
    "Reassembler \<Rightarrow> nat \<Rightarrow> Frag list \<Rightarrow> bytes \<Rightarrow> nat set \<Rightarrow> nat \<Rightarrow>
     (Reassembler \<times> (reassembly_error + ReassemblyResult)) option \<Rightarrow> bool" where
  "part_step r i frags packet D j out \<longleftrightarrow>
     (\<exists>r' res. out = Some (r', Inr res) \<and> rr_Status res = expected_status (length frags) D j \<and>
        (rr_Packet res \<noteq> None \<longleftrightarrow> rr_Status res = StatusCompleted) \<and>
        (\<forall>p. rr_Packet res = Some p \<longrightarrow> pk_Data p = packet \<and> pk_Key p = key_at r i) \<and>
        holds_part (ra_slots r' ! i) frags (insert j D) \<and> live r' i \<and> key_at r' i = key_at r i \<and>
        sl_firstSeen (ra_slots r' ! i) = sl_firstSeen (ra_slots r ! i) \<and> reasm_ok r' \<and> ra_config r' = ra_config r \<and>
        length (ra_slots r') = length (ra_slots r) \<and> (\<forall>k. k \<noteq> i \<longrightarrow> ra_slots r' ! k = ra_slots r ! k))"

lemma part_step_set:
  assumes "reasm_step r (Some (set_slot r i u, Inr res))" and "live r i"
    and "rr_Status res = expected_status (length frags) D j"
    and "rr_Packet res \<noteq> None \<longleftrightarrow> rr_Status res = StatusCompleted"
    and "\<forall>p. rr_Packet res = Some p \<longrightarrow> pk_Data p = packet \<and> pk_Key p = key_at r i"
    and "holds_part u frags (insert j D)" and "sl_key u = key_at r i" and "sl_state u \<noteq> slotFree"
    and "sl_detached u = sl_detached (ra_slots r ! i)" and "sl_firstSeen u = sl_firstSeen (ra_slots r ! i)"
  shows "part_step r i frags packet D j (Some (set_slot r i u, Inr res))"
proof -
  have "reasm_ok (set_slot r i u)" "ra_config (set_slot r i u) = ra_config r"
    using assms(1) by (auto simp: reasm_step_def preserves_def)
  then show ?thesis
    unfolding part_step_def using assms(2-10)
    by (intro exI [of _ "set_slot r i u"] exI [of _ res]) (auto simp: live_def set_slot_def key_at_def)
qed

lemma holds_part_completed [simp]:
  "holds_part (s\<lparr>sl_state := a, sl_packetLen := b\<rparr>) frags D \<longleftrightarrow> holds_part s frags D"
  by (simp add: holds_part_def frag_start_def frag_stop_def)

lemma accept_part:
  assumes "reasm_ok r" and "live r i" and "fragmentation packet md frags" and "holds_part (ra_slots r ! i) frags D"
    and "j < length frags" and "int (length packet) \<le> rg_MaxPacketSize (ra_config r)"
  shows "part_step r i frags packet D j (accept_fragment r i (frag_record (frags ! j)) ev evk)"
proof -
  let ?s = "ra_slots r ! i" and ?rec = "frag_record (frags ! j)" and ?n = "length frags"
  note d = reasm_okD [OF assms(1)]
  have i: "i < length (ra_slots r)" and nf: "sl_state ?s \<noteq> slotFree" using assms(2) by (simp_all add: live_def)
  have fo: "fragments_ok ?s" and bl: "int (length (sl_buf ?s)) = rg_MaxPacketSize (ra_config r)"
    using d(4) [OF i] nf by (simp_all add: slot_ok_def)
  have len: "length packet \<le> length (sl_buf ?s)" "length (sl_buf ?s) \<le> 65535" "length packet \<le> 65535"
    using assms(6) bl d(1) by (auto simp: config_ok_def)
  have n16: "?n \<le> 16" using assms(3) by (simp add: fragmentation_def)
  note h = fragment_header [OF assms(3,5) len(3)]
  have stop: "frag_off frags j + length (fr_Data (frags ! j)) = frag_off frags (Suc j)"
    using assms(5) by (simp add: frag_off_Suc)
  have cnt: "sl_count ?s = hd_FragmentCount (rc_Header ?rec)"
    using assms(4) h(2) by (simp add: holds_part_def frag_record_def word_unat_eq_iff)
  have "record_fits (nat (rg_MaxPacketSize (ra_config r))) ?rec"
    using fragment_fits [OF assms(3,5) len(1,2)] bl by (metis nat_int)
  note step = accept_fragment_step [OF assms(1,2) this, of ev evk]
  have hr: "unat (hd_FragmentIndex (rc_Header ?rec)) = j" "unat (hd_Offset (rc_Header ?rec)) = frag_off frags j"
    "rc_Data ?rec = fr_Data (frags ! j)" using h by (simp_all add: frag_record_def)
  have bitD: "bit (sl_present ?s) j \<longleftrightarrow> j \<in> D" using assms(4) by (simp add: holds_part_def)
  note unf = accept_fragment_unfold [of r i ?rec ev evk, unfolded Let_def hr stop]
  show ?thesis
  proof (cases "j \<in> D")
    case True
    then have "accept_fragment r i ?rec ev evk =
        Some (r, Inr \<lparr>rr_Status = StatusDuplicate, rr_Packet = None, rr_Evicted = ev, rr_EvictedKey = evk\<rparr>)"
      using assms(4) bitD cnt unfolding unf by (simp add: holds_part_def)
    then show ?thesis
      using True assms(1,2,4) by (simp add: part_step_def expected_status_def insert_absorb)
  next
    case False
    let ?t = "stored ?s ?rec"
    have part: "holds_part ?t frags (insert j D)"
      by (rule stored_part [OF assms(3,4,5) False fo len(1,2)])
    have full: "sl_present ?t = mask (unat (sl_count ?s)) \<longleftrightarrow> insert j D = {..<?n}"
      using present_part [OF part n16] by (simp add: stored_def Let_def)
    have same: "sl_key ?t = key_at r i" "sl_state ?t = sl_state ?s" "sl_detached ?t = sl_detached ?s"
      "sl_firstSeen ?t = sl_firstSeen ?s" by (simp_all add: stored_def Let_def key_at_def)
    show ?thesis
    proof (cases "insert j D = {..<?n}")
      case notyet: False
      then have a: "accept_fragment r i ?rec ev evk =
          Some (set_slot r i ?t, Inr \<lparr>rr_Status = StatusAccepted, rr_Packet = None, rr_Evicted = ev, rr_EvictedKey = evk\<rparr>)"
        using cnt bitD False full part_disjoint [OF assms(3,4,5) False] unfolding unf by simp
      show ?thesis
        unfolding a by (rule part_step_set [OF step [unfolded a] assms(2)])
          (use False notyet part same nf in \<open>simp_all add: expected_status_def\<close>)
    next
      case all: True
      let ?u = "?t\<lparr>sl_state := slotCompleted, sl_packetLen := length packet\<rparr>"
      have t: "contiguousLength ?t = Some (length packet)" "take (length packet) (sl_buf ?t) = packet"
        using contiguous_part [OF assms(3), of ?t] take_part [OF assms(3), of ?t] part all by simp_all
      then have a: "accept_fragment r i ?rec ev evk =
          Some (set_slot r i ?u, Inr \<lparr>rr_Status = StatusCompleted,
            rr_Packet = Some \<lparr>pk_Handle = \<lparr>sh_index = int i, sh_generation = sl_generation ?s\<rparr>, pk_Key = key_at r i, pk_Data = packet\<rparr>,
            rr_Evicted = ev, rr_EvictedKey = evk\<rparr>)"
        using cnt bitD False full all part_disjoint [OF assms(3,4,5) False] unfolding unf by (simp add: key_at_def)
      show ?thesis
        unfolding a by (rule part_step_set [OF step [unfolded a] assms(2)])
          (use False all same part in \<open>simp_all add: expected_status_def\<close>)
    qed
  qed
qed

subsection \<open>A whole packet\<close>

fun accept_all ::
    "Reassembler \<Rightarrow> Key \<Rightarrow> (gotime \<times> Record) list \<Rightarrow> (Reassembler \<times> (reassembly_error + ReassemblyResult) list) option" where
  "accept_all r key [] = Some (r, [])"
| "accept_all r key ((now, rec) # rest) =
     do {
       (r1, res) \<leftarrow> Reassembler_Accept r now key rec;
       (r2, ress) \<leftarrow> accept_all r1 key rest;
       Some (r2, res # ress)
     }"

definition packet_key :: "PeerID \<Rightarrow> Metadata \<Rightarrow> Key" where
  "packet_key peer md = \<lparr>k_PeerID = peer, k_DataSessionID = md_DataSessionID md, k_LaneID = md_LaneID md,
     k_LaneSequence = md_LaneSequence md\<rparr>"

text \<open>The statuses of a series of fragments, given the set of those that came before.\<close>

fun statuses :: "nat \<Rightarrow> nat set \<Rightarrow> nat list \<Rightarrow> ResultStatus list" where
  "statuses n D [] = []"
| "statuses n D (j # js) = expected_status n D j # statuses n (insert j D) js"

lemma statuses_completed:
  assumes "finite D" and "D \<subseteq> {..<n}" and "set js \<subseteq> {..<n}"
  shows "length (filter (\<lambda>s. s = StatusCompleted) (statuses n D js)) = of_bool (D \<noteq> {..<n} \<and> D \<union> set js = {..<n})"
  using assms
proof (induction n D js rule: statuses.induct)
  case (1 n D)
  then show ?case by simp
next
  case (2 n D j js)
  have IH: "length (filter (\<lambda>s. s = StatusCompleted) (statuses n (insert j D) js)) =
      of_bool (insert j D \<noteq> {..<n} \<and> insert j D \<union> set js = {..<n})"
    using 2 by simp
  show ?case
  proof (cases "j \<in> D")
    case True
    then show ?thesis using IH by (simp add: expected_status_def insert_absorb)
  next
    case False
    then have "insert j D = {..<n} \<Longrightarrow> D \<noteq> {..<n}" "insert j D \<union> set js = D \<union> set (j # js)" by auto
    moreover have "D \<noteq> {..<n}" using False "2.prems"(3) by auto
    moreover have "insert j D = {..<n} \<Longrightarrow> D \<union> set (j # js) = {..<n}" using "2.prems"(3) by auto
    ultimately show ?thesis using IH False by (auto simp: expected_status_def)
  qed
qed

lemma fragment_valid:
  assumes "fragmentation packet md frags" and "j < length frags" and "reasm_ok r"
    and "int (length packet) \<le> rg_MaxPacketSize (ra_config r)"
  shows "validateRecord r (packet_key peer md) (frag_record (frags ! j)) = None"
proof -
  have cap: "rg_MaxPacketSize (ra_config r) \<le> 65535"
    using reasm_okD(1) [OF assms(3)] by (simp add: config_ok_def)
  then have f: "record_fits (nat (rg_MaxPacketSize (ra_config r))) (frag_record (frags ! j))"
    using assms(4) by (intro fragment_fits [OF assms(1,2)]) auto
  have "int (unat (hd_Offset (rc_Header (frag_record (frags ! j)))) + length (rc_Data (frag_record (frags ! j)))) \<le>
      rg_MaxPacketSize (ra_config r)"
    using f assms(4) unfolding record_fits_def by linarith
  moreover from this have "int (length (rc_Data (frag_record (frags ! j)))) \<le> rg_MaxPacketSize (ra_config r)"
    by linarith
  moreover have "hd_DataSessionID (fr_Header (frags ! j)) = md_DataSessionID md \<and> hd_LaneID (fr_Header (frags ! j)) = md_LaneID md \<and>
      hd_LaneSequence (fr_Header (frags ! j)) = md_LaneSequence md"
    using assms(1,2) by (simp add: fragmentation_def)
  ultimately show ?thesis
    using f by (auto simp: validateRecord_def record_fits_def packet_key_def frag_record_def maxFragments_def Let_def
        Suc_le_eq not_le not_less)
qed

lemma accept_known:
  assumes "reasm_ok r" and "live r i" and "key_at r i = packet_key peer md" and "fragmentation packet md frags"
    and "j < length frags" and "int (length packet) \<le> rg_MaxPacketSize (ra_config r)"
    and "validateKey r (packet_key peer md) = None"
    and "now < sl_firstSeen (ra_slots r ! i) + rg_Lifetime (ra_config r)" and "holds_part (ra_slots r ! i) frags D"
  shows "part_step r i frags packet D j (Reassembler_Accept r now (packet_key peer md) (frag_record (frags ! j)))"
proof -
  have "findKey r (packet_key peer md) = Some i" using findKey_iff [OF assms(1)] assms(2,3) by simp
  then have "Reassembler_Accept r now (packet_key peer md) (frag_record (frags ! j)) =
      accept_fragment r i (frag_record (frags ! j)) False zero_key"
    using fragment_valid [OF assms(4,5,1,6)] assms(7,8) by (simp add: Reassembler_Accept_def slot_expired_def)
  then show ?thesis using accept_part [OF assms(1,2,4,9,5,6)] by simp
qed

text \<open>The first fragment of an unknown packet, when a slot is free and the peer is below its quota.\<close>

lemma accept_first:
  assumes "reasm_ok r" and "findKey r (packet_key peer md) = None" and "fragmentation packet md frags"
    and "j < length frags" and "int (length packet) \<le> rg_MaxPacketSize (ra_config r)"
    and "validateKey r (packet_key peer md) = None"
    and "int (unat (ra_peerCounts r ! unat peer)) < rg_PerPeerSlots (ra_config r)" and "free_slots (ra_slots r) \<noteq> {}"
  obtains r2 i where "part_step r2 i frags packet {} j (Reassembler_Accept r now (packet_key peer md) (frag_record (frags ! j)))"
    and "key_at r2 i = packet_key peer md" and "sl_firstSeen (ra_slots r2 ! i) = now" and "ra_config r2 = ra_config r"
    and "length (ra_slots r2) = length (ra_slots r)" and "\<And>k. k \<noteq> i \<Longrightarrow> ra_slots r2 ! k = ra_slots r ! k"
proof -
  let ?key = "packet_key peer md" and ?count = "hd_FragmentCount (fr_Header (frags ! j))"
  have cap: "length packet \<le> 65535" "nat (rg_MaxPacketSize (ra_config r)) \<le> 65535"
    "length packet \<le> nat (rg_MaxPacketSize (ra_config r))"
    using reasm_okD(1) [OF assms(1)] assms(5) by (auto simp: config_ok_def)
  have n: "unat ?count = length frags" by (rule fragment_header(2) [OF assms(3,4) cap(1)])
  then have count: "1 \<le> unat ?count" "unat ?count \<le> 16" using assms(3) by (simp_all add: fragmentation_def)
  note valid = fragment_valid [OF assms(3,4,1,5), of peer]
  have fresh: "live r k \<Longrightarrow> key_at r k \<noteq> ?key" for k using assms(2) findKey_None_iff [OF assms(1)] by blast
  obtain i where i: "takeFreeSlot r = Some (taken r i, Some i)" "i < length (ra_slots r)"
    "sl_state (ra_slots r ! i) = slotFree" "ra_freeHead r = int i"
    by (rule takeFreeSlot_ok [OF assms(1)]) (use assms(8) in auto)
  have peer: "int (unat (k_PeerID ?key)) < rg_MaxPeers (ra_config r)" by (rule validateKey_None [OF assms(6)])
  obtain cells where c: "startSlot (taken r i) i now ?key ?count = Some (started r i now ?key ?count cells)"
    "reasm_ok (started r i now ?key ?count cells)"
    by (rule startSlot_ok [OF assms(1) i(2-4) peer count fresh]) (use assms(7) in \<open>simp_all add: packet_key_def\<close>)
  let ?r2 = "started r i now ?key ?count cells"
  have alloc: "allocateSlot r now ?key ?count = Some (?r2, Some (i, zero_key, False))"
    using assms(7) i(1) c(1) by (simp add: allocateSlot_def packet_key_def)
  have acc: "Reassembler_Accept r now ?key (frag_record (frags ! j)) =
      accept_fragment ?r2 i (frag_record (frags ! j)) False zero_key"
    using assms(2,6) valid alloc by (simp add: Reassembler_Accept_def frag_record_def)
  have slot: "ra_slots ?r2 ! i = new_slot (ra_slots r ! i) (ra_nextBorn r + 1) now ?key ?count"
    using i(2) by (simp add: started_def)
  have "holds_part (ra_slots ?r2 ! i) frags {}"
    by (simp add: slot holds_part_def new_slot_def zero_slot_def n)
  moreover have "live ?r2 i" using live_started [OF i(2)] by blast
  ultimately have "part_step ?r2 i frags packet {} j (Reassembler_Accept r now ?key (frag_record (frags ! j)))"
    unfolding acc using assms(5) by (intro accept_part [OF c(2) _ assms(3) _ assms(4)]) (simp_all add: started_def)
  then show thesis
    by (rule that) (simp_all add: key_at_def slot new_slot_def, simp_all add: started_def)
qed

definition deliver :: "Frag list \<Rightarrow> gotime list \<Rightarrow> nat list \<Rightarrow> (gotime \<times> Record) list" where
  "deliver frags ts js = zip ts (map (\<lambda>j. frag_record (frags ! j)) js)"

definition delivered :: "Frag list \<Rightarrow> bytes \<Rightarrow> Key \<Rightarrow> nat set \<Rightarrow> nat list \<Rightarrow> ReassemblyResult list \<Rightarrow> bool" where
  "delivered frags packet key D js rs \<longleftrightarrow>
     map rr_Status rs = statuses (length frags) D js \<and>
     (\<forall>res\<in>set rs. case rr_Packet res of
        None \<Rightarrow> rr_Status res \<noteq> StatusCompleted
      | Some p \<Rightarrow> rr_Status res = StatusCompleted \<and> pk_Data p = packet \<and> pk_Key p = key)"

lemma accept_rest:
  assumes "reasm_ok r" and "live r i" and "key_at r i = packet_key peer md" and "fragmentation packet md frags"
    and "int (length packet) \<le> rg_MaxPacketSize (ra_config r)" and "validateKey r (packet_key peer md) = None"
    and "holds_part (ra_slots r ! i) frags D" and "set js \<subseteq> {..<length frags}" and "length ts = length js"
    and "\<forall>t\<in>set ts. t < sl_firstSeen (ra_slots r ! i) + rg_Lifetime (ra_config r)"
  shows "\<exists>r' rs. accept_all r (packet_key peer md) (deliver frags ts js) = Some (r', map Inr rs) \<and> reasm_ok r' \<and>
    delivered frags packet (packet_key peer md) D js rs"
  using assms
proof (induction js arbitrary: r D ts)
  case Nil
  then show ?case by (simp add: deliver_def delivered_def)
next
  case (Cons j js)
  obtain t ts' where ts: "ts = t # ts'" "length ts' = length js" using Cons.prems(9) by (cases ts) auto
  have j: "j < length frags" using Cons.prems(8) by simp
  have "part_step r i frags packet D j (Reassembler_Accept r t (packet_key peer md) (frag_record (frags ! j)))"
    using Cons.prems(10) ts by (intro accept_known [OF Cons.prems(1-4) j Cons.prems(5,6) _ Cons.prems(7)]) simp
  then obtain r1 res where r1: "Reassembler_Accept r t (packet_key peer md) (frag_record (frags ! j)) = Some (r1, Inr res)"
    "rr_Status res = expected_status (length frags) D j" "rr_Packet res \<noteq> None \<longleftrightarrow> rr_Status res = StatusCompleted"
    "\<forall>p. rr_Packet res = Some p \<longrightarrow> pk_Data p = packet \<and> pk_Key p = key_at r i"
    "holds_part (ra_slots r1 ! i) frags (insert j D)" "live r1 i" "key_at r1 i = key_at r i"
    "sl_firstSeen (ra_slots r1 ! i) = sl_firstSeen (ra_slots r ! i)" "reasm_ok r1" "ra_config r1 = ra_config r"
    by (auto simp: part_step_def)
  have "validateKey r1 (packet_key peer md) = None" using Cons.prems(6) r1(10) by (simp add: validateKey_def)
  then obtain r' rs where "accept_all r1 (packet_key peer md) (deliver frags ts' js) = Some (r', map Inr rs)"
    "reasm_ok r'" "delivered frags packet (packet_key peer md) (insert j D) js rs"
    using Cons.IH [of r1 "insert j D" ts'] r1 Cons.prems ts by auto
  then show ?case
    using r1(1-4) Cons.prems(3) ts(1)
    by (intro exI [of _ r'] exI [of _ "res # rs"]) (auto simp: deliver_def delivered_def split: option.splits)
qed

text \<open>
  C3.  Reassembly restores packets whatever the order of arrival.  Offer the fragments of a packet to a
  reassembler that does not know the packet yet, has a free slot and is below the quota of the peer;
  in any order, with any repetition, all within the lifetime that starts with the first one.  Then
  every call succeeds, a repeated fragment is reported as duplicate, a packet is delivered exactly once
  if every fragment occurs and not at all otherwise, by the call that brings the last missing
  fragment, and what is delivered is the original packet under its key.
\<close>

theorem reassembles_in_any_order:
  assumes "reasm_ok r" and "findKey r (packet_key peer md) = None" and "validateKey r (packet_key peer md) = None"
    and "int (unat (ra_peerCounts r ! unat peer)) < rg_PerPeerSlots (ra_config r)" and "free_slots (ra_slots r) \<noteq> {}"
    and "fragmentation packet md frags" and "int (length packet) \<le> rg_MaxPacketSize (ra_config r)"
    and "js \<noteq> []" and "set js \<subseteq> {..<length frags}" and "length ts = length js"
    and "\<forall>t\<in>set ts. t < hd ts + rg_Lifetime (ra_config r)"
  shows "\<exists>r' rs. accept_all r (packet_key peer md) (deliver frags ts js) = Some (r', map Inr rs) \<and> reasm_ok r' \<and>
    delivered frags packet (packet_key peer md) {} js rs \<and>
    length (filter (\<lambda>res. rr_Status res = StatusCompleted) rs) = of_bool (set js = {..<length frags})"
proof -
  obtain j js' t ts' where js: "js = j # js'" "ts = t # ts'" "length ts' = length js'"
    using assms(8,10) by (cases js; cases ts) auto
  have j: "j < length frags" using assms(9) js by simp
  obtain r2 i where st: "part_step r2 i frags packet {} j (Reassembler_Accept r t (packet_key peer md) (frag_record (frags ! j)))"
    "key_at r2 i = packet_key peer md" "sl_firstSeen (ra_slots r2 ! i) = t" "ra_config r2 = ra_config r"
    by (rule accept_first [OF assms(1,2,6) j assms(7,3-5)])
  then obtain r1 res where r1: "Reassembler_Accept r t (packet_key peer md) (frag_record (frags ! j)) = Some (r1, Inr res)"
    "rr_Status res = expected_status (length frags) {} j" "rr_Packet res \<noteq> None \<longleftrightarrow> rr_Status res = StatusCompleted"
    "\<forall>p. rr_Packet res = Some p \<longrightarrow> pk_Data p = packet \<and> pk_Key p = packet_key peer md"
    "holds_part (ra_slots r1 ! i) frags {j}" "live r1 i" "key_at r1 i = packet_key peer md"
    "sl_firstSeen (ra_slots r1 ! i) = t" "reasm_ok r1" "ra_config r1 = ra_config r"
    by (auto simp: part_step_def)
  have "validateKey r1 (packet_key peer md) = None" using assms(3) r1(10) by (simp add: validateKey_def)
  then obtain r' rs where rest: "accept_all r1 (packet_key peer md) (deliver frags ts' js') = Some (r', map Inr rs)"
    "reasm_ok r'" "delivered frags packet (packet_key peer md) {j} js' rs"
    using accept_rest [OF r1(9,6,7) assms(6) _ _ r1(5), of js' ts'] assms(7,9,11) js r1(8,10) by auto
  have all: "delivered frags packet (packet_key peer md) {} js (res # rs)"
    using rest(3) r1(2-4) js(1) by (auto simp: delivered_def split: option.splits)
  have "length (filter (\<lambda>res. rr_Status res = StatusCompleted) (res # rs)) =
      length (filter (\<lambda>s. s = StatusCompleted) (map rr_Status (res # rs)))"
    by (simp add: filter_map comp_def)
  also have "\<dots> = length (filter (\<lambda>s. s = StatusCompleted) (statuses (length frags) {} js))"
    using all by (simp only: delivered_def)
  also have "\<dots> = of_bool (set js = {..<length frags})"
    using statuses_completed [of "{}" "length frags" js] assms(9) j by auto
  finally show ?thesis
    using rest(1,2) r1(1) all js
    by (intro exI [of _ r'] exI [of _ "res # rs"]) (simp add: deliver_def)
qed

definition sample_frags :: "Frag list" where
  "sample_frags = (case Split (replicate 40 7) sample_metadata sample_options 16 of Inr r \<Rightarrow> sr_Fragments r | Inl _ \<Rightarrow> [])"

definition sample_reassembler :: Reassembler where
  "sample_reassembler =
     projr (NewReassembler \<lparr>rg_Slots = 2, rg_MaxPacketSize = 64, rg_MaxPeers = 2, rg_PerPeerSlots = 2, rg_Lifetime = 100\<rparr>)"

lemma sample_frags: "fragmentation (replicate 40 7) sample_metadata sample_frags" and length_sample_frags: "length sample_frags = 3"
proof -
  have "case Split (replicate 40 7) sample_metadata sample_options 16 of Inl _ \<Rightarrow> False | Inr r \<Rightarrow> length (sr_Fragments r) = 3"
    by code_simp
  then obtain r where r: "Split (replicate 40 7) sample_metadata sample_options 16 = Inr r" "length (sr_Fragments r) = 3"
    by (auto split: sum.splits)
  then show "fragmentation (replicate 40 7) sample_metadata sample_frags" "length sample_frags = 3"
    using Split_fragmentation [OF r(1)] by (simp_all add: sample_frags_def)
qed

lemma sample_reassembler_new:
  "NewReassembler \<lparr>rg_Slots = 2, rg_MaxPacketSize = 64, rg_MaxPeers = 2, rg_PerPeerSlots = 2, rg_Lifetime = 100\<rparr> = Inr sample_reassembler"
proof -
  have "\<not> isl (NewReassembler \<lparr>rg_Slots = 2, rg_MaxPacketSize = 64, rg_MaxPeers = 2, rg_PerPeerSlots = 2, rg_Lifetime = 100\<rparr>)"
    by code_simp
  then show ?thesis by (simp add: sample_reassembler_def)
qed

lemma sample_reassembler_ok: "reasm_ok sample_reassembler"
  by (rule NewReassembler_ok [OF sample_reassembler_new]) simp

lemma sample_reassembler_config:
  "rg_MaxPacketSize (ra_config sample_reassembler) = 64" "rg_Lifetime (ra_config sample_reassembler) = 100"
  by code_simp+

text \<open>The sample reassembler is empty: it can take a packet of peer 1.\<close>

lemma sample_reassembler_ready:
  "findKey sample_reassembler (packet_key 1 sample_metadata) = None"
  "validateKey sample_reassembler (packet_key 1 sample_metadata) = None"
  "int (unat (ra_peerCounts sample_reassembler ! unat (1 :: PeerID))) < rg_PerPeerSlots (ra_config sample_reassembler)"
  "free_slots (ra_slots sample_reassembler) \<noteq> {}"
proof -
  have "list_all (\<lambda>s. sl_state s = slotFree) (ra_slots sample_reassembler)" by code_simp
  then have "\<not> live sample_reassembler i" for i by (auto simp: live_def list_all_length)
  then show "findKey sample_reassembler (packet_key 1 sample_metadata) = None"
    by (simp add: findKey_None_iff [OF sample_reassembler_ok])
  have "Option.is_none (validateKey sample_reassembler (packet_key 1 sample_metadata))" by code_simp
  then show "validateKey sample_reassembler (packet_key 1 sample_metadata) = None"
    by (simp add: Option.is_none_def split: option.splits)
  show "int (unat (ra_peerCounts sample_reassembler ! unat (1 :: PeerID))) < rg_PerPeerSlots (ra_config sample_reassembler)"
    by code_simp
  have "0 < length (ra_slots sample_reassembler) \<and> sl_state (ra_slots sample_reassembler ! 0) = slotFree" by code_simp
  then show "free_slots (ra_slots sample_reassembler) \<noteq> {}" by (auto simp: free_slots_def)
qed

theorem reassembles_in_any_order_witness:
  "\<exists>r' rs. accept_all sample_reassembler (packet_key 1 sample_metadata) (deliver sample_frags [10, 11, 12, 13] [2, 0, 2, 1]) =
       Some (r', map Inr rs) \<and> length (filter (\<lambda>res. rr_Status res = StatusCompleted) rs) = 1"
proof -
  have all: "{2, 0, 2, Suc 0} = {..<(3 :: nat)}" by auto
  show ?thesis
    using reassembles_in_any_order [OF sample_reassembler_ok sample_reassembler_ready sample_frags, of "[2, 0, 2, 1]" "[10, 11, 12, 13]"]
    by (auto simp: sample_reassembler_config all length_sample_frags)
qed

end
