(* ===== verification/ReassemblyRun.thy ===== *)
theory ReassemblyRun
  imports ReassemblyCorrect
begin

text \<open>
  Runs of the reassembler: any interleaving of \<open>Accept\<close>, \<open>Expire\<close>, \<open>PurgePeer\<close> and \<open>Release\<close> from
  a state \<open>New\<close> returned.  The invariant of \<open>ReassemblyInv\<close> holds in every reachable state, so that no
  operation panics or loops there, and a completed packet is protected until it is released.
\<close>

datatype reasm_op =
    OpAccept gotime Key Record
  | OpExpire gotime
  | OpPurgePeer PeerID
  | OpRelease SlotHandle

fun reasm_exec :: "Reassembler \<Rightarrow> reasm_op \<Rightarrow> Reassembler option" where
  "reasm_exec r (OpAccept now key rec) = map_option fst (Reassembler_Accept r now key rec)"
| "reasm_exec r (OpExpire now) = map_option fst (Reassembler_Expire r now)"
| "reasm_exec r (OpPurgePeer peer) = map_option fst (Reassembler_PurgePeer r peer)"
| "reasm_exec r (OpRelease handle) = map_option fst (Reassembler_Release r handle)"

inductive reasm_reachable :: "ReassemblyConfig \<Rightarrow> Reassembler \<Rightarrow> bool" for cfg where
  new: "NewReassembler cfg = Inr r \<Longrightarrow> reasm_reachable cfg r"
| step: "reasm_reachable cfg r \<Longrightarrow> reasm_exec r op = Some r' \<Longrightarrow> reasm_reachable cfg r'"

subsection \<open>One operation\<close>

lemma Expire_ok:
  assumes "reasm_ok r"
  shows "\<exists>r'. Reassembler_Expire r now = Some (r', card {i. i < length (ra_slots r) \<and> expiring r now i}) \<and>
    reasm_ok r' \<and> preserves r r' \<and>
    (\<forall>i < length (ra_slots r). if expiring r now i then sl_state (ra_slots r' ! i) = slotFree
       else ra_slots r' ! i = ra_slots r ! i)"
proof -
  have "length (filter (expiring r now) [0..<length (ra_slots r)]) = card {i. i < length (ra_slots r) \<and> expiring r now i}"
    by (auto simp: length_filter_conv_card intro: arg_cong [of _ _ card])
  then show ?thesis
    using expire_loop_ok [OF assms, of "[0..<length (ra_slots r)]" now 0] by (auto simp: Reassembler_Expire_def lessThan_atLeast0)
qed

lemma live_peer: "reasm_ok r \<Longrightarrow> live r i \<Longrightarrow> int (unat (k_PeerID (key_at r i))) < rg_MaxPeers (ra_config r)"
  using reasm_okD(4) [of r i] by (simp add: live_def slot_ok_def key_at_def)

lemma PurgePeer_ok:
  assumes "reasm_ok r"
  shows "\<exists>r'. Reassembler_PurgePeer r peer = Some (r', card {i. of_peer r peer i}) \<and>
    reasm_ok r' \<and> preserves r r' \<and>
    (\<forall>i < length (ra_slots r). if of_peer r peer i then purged_slot r r' i else ra_slots r' ! i = ra_slots r ! i)"
proof (cases "int (unat peer) \<ge> rg_MaxPeers (ra_config r)")
  case True
  then have none: "\<not> of_peer r peer i" for i using live_peer [OF assms, of i] by (auto simp: of_peer_def)
  then show ?thesis using True assms by (simp add: Reassembler_PurgePeer_def)
next
  case False
  have "length (filter (of_peer r peer) [0..<length (ra_slots r)]) = card {i. of_peer r peer i}"
    by (auto simp: length_filter_conv_card of_peer_def live_def intro: arg_cong [of _ _ card])
  then show ?thesis
    using purge_loop_ok [OF assms, of "[0..<length (ra_slots r)]" peer 0] False
    by (auto simp: Reassembler_PurgePeer_def lessThan_atLeast0)
qed

lemma Release_preserves:
  assumes "reasm_ok r" and "holds_packet r p" and "pk_Handle p \<noteq> handle" and "Reassembler_Release r handle = Some (r', res)"
  shows "holds_packet r' p"
proof -
  obtain r1 res1 where "Reassembler_Release r handle = Some (r1, res1)" and
    r1: "res1 \<noteq> None \<longrightarrow> r1 = r"
      "res1 = None \<longrightarrow> (\<exists>i < length (ra_slots r). sh_index handle = int i \<and> sl_state (ra_slots r ! i) = slotCompleted \<and>
         sl_generation (ra_slots r ! i) = sh_generation handle \<and>
         ra_slots r1 = (ra_slots r)[i := zero_slot (sh_generation handle) (ra_freeHead r) (sl_buf (ra_slots r ! i))])"
    using Release_ok [OF assms(1), of handle] by blast
  then have r': "r' = r1" "res = res1" using assms(4) by simp_all
  show ?thesis
  proof (cases res1)
    case (Some e)
    then show ?thesis using r1(1) assms(2) r' by simp
  next
    case None
    with r1(2) obtain i where i: "sh_index handle = int i" "sl_generation (ra_slots r ! i) = sh_generation handle"
      "ra_slots r1 = (ra_slots r)[i := zero_slot (sh_generation handle) (ra_freeHead r) (sl_buf (ra_slots r ! i))]" by blast
    have "nat (sh_index (pk_Handle p)) \<noteq> i"
      using assms(2,3) i(1,2) by (cases "pk_Handle p"; cases handle) (auto simp: holds_packet_def Let_def)
    then show ?thesis using assms(2) i(3) r'(1) by (simp add: holds_packet_def Let_def)
  qed
qed

lemma preserves_holds: "preserves r r' \<Longrightarrow> holds_packet r p \<Longrightarrow> holds_packet r' p"
  by (simp add: preserves_def holds_packet_def Let_def packet_view_def)

text \<open>Every operation succeeds in a state that satisfies the invariant, and keeps it and the packets.\<close>

lemma reasm_exec_ok:
  assumes "reasm_ok r"
  obtains r' where "reasm_exec r op = Some r'" and "reasm_ok r'" and "ra_config r' = ra_config r"
    and "\<And>p. holds_packet r p \<Longrightarrow> op \<noteq> OpRelease (pk_Handle p) \<Longrightarrow> holds_packet r' p"
proof (cases op)
  case (OpAccept now key rec)
  then show thesis
    using that Accept_step [OF assms, of now key rec] preserves_holds by (auto simp: reasm_step_def preserves_def)
next
  case (OpExpire now)
  then show thesis using that Expire_ok [OF assms, of now] preserves_holds by (auto simp: preserves_def)
next
  case (OpPurgePeer peer)
  then show thesis using that PurgePeer_ok [OF assms, of peer] preserves_holds by (auto simp: preserves_def)
next
  case (OpRelease handle)
  obtain r' res where r': "Reassembler_Release r handle = Some (r', res)" "reasm_ok r'" "ra_config r' = ra_config r"
    using Release_ok [OF assms] by blast
  have "holds_packet r' p" if "holds_packet r p" "op \<noteq> OpRelease (pk_Handle p)" for p
    using Release_preserves [OF assms that(1) _ r'(1)] that(2) OpRelease by auto
  then show thesis using that r' OpRelease by simp
qed

lemma reachable_ok:
  "reasm_reachable cfg r \<Longrightarrow> rg_Slots cfg < 2 ^ 32 \<Longrightarrow> reasm_ok r \<and> ra_config r = cfg"
proof (induction rule: reasm_reachable.induct)
  case (new r)
  then show ?case using NewReassembler_ok by (auto simp: NewReassembler_def Let_def split: if_splits sum.splits)
next
  case (step r op r')
  then show ?case using reasm_exec_ok [of r op] by (metis option.inject)
qed


subsection \<open>Runs\<close>

fun reasm_run :: "Reassembler \<Rightarrow> reasm_op list \<Rightarrow> Reassembler option" where
  "reasm_run r [] = Some r"
| "reasm_run r (op # ops) = Option.bind (reasm_exec r op) (\<lambda>r1. reasm_run r1 ops)"

lemma reasm_run_ok:
  assumes "reasm_ok r"
  shows "\<exists>r'. reasm_run r ops = Some r' \<and> reasm_ok r' \<and>
    (\<forall>p. holds_packet r p \<longrightarrow> OpRelease (pk_Handle p) \<notin> set ops \<longrightarrow> holds_packet r' p)"
  using assms
proof (induction ops arbitrary: r)
  case Nil
  then show ?case by simp
next
  case (Cons op ops)
  obtain r1 where r1: "reasm_exec r op = Some r1" "reasm_ok r1"
    "\<And>p. holds_packet r p \<Longrightarrow> op \<noteq> OpRelease (pk_Handle p) \<Longrightarrow> holds_packet r1 p"
    using reasm_exec_ok [OF Cons.prems, of op] by metis
  obtain r' where "reasm_run r1 ops = Some r'" "reasm_ok r'"
    "\<forall>p. holds_packet r1 p \<longrightarrow> OpRelease (pk_Handle p) \<notin> set ops \<longrightarrow> holds_packet r' p"
    using Cons.IH [OF r1(2)] by blast
  with r1 show ?case by auto
qed

lemma Release_held:
  assumes "reasm_ok r" and "holds_packet r p"
  obtains r' where "Reassembler_Release r (pk_Handle p) = Some (r', None)"
    and "Reassembler_Release r' (pk_Handle p) = Some (r', Some ErrInvalidHandle)"
proof -
  let ?i = "nat (sh_index (pk_Handle p))"
  have p: "0 \<le> sh_index (pk_Handle p)" "?i < length (ra_slots r)" "sl_state (ra_slots r ! ?i) = slotCompleted"
    "sl_generation (ra_slots r ! ?i) = sh_generation (pk_Handle p)"
    using assms(2) by (simp_all add: holds_packet_def Let_def)
  obtain cells counts where c: "clearSlot r ?i = Some (cleared r ?i cells counts)"
    by (rule clearSlot_ok [OF assms(1) p(2)]) (simp add: p(3))
  have "sl_state (ra_slots (cleared r ?i cells counts) ! ?i) = slotFree"
    "length (ra_slots (cleared r ?i cells counts)) = length (ra_slots r)"
    using p(2) by (simp_all add: cleared_def zero_slot_def)
  then show thesis
    using p c by (intro that [of "cleared r ?i cells counts"]) (auto simp: Reassembler_Release_def Let_def)
qed

subsection \<open>Properties\<close>




definition sample_small :: "Frag list" where
  "sample_small = (case Split [7, 8, 9] sample_metadata sample_options 16 of Inr r \<Rightarrow> sr_Fragments r | Inl _ \<Rightarrow> [])"

lemma sample_small: "fragmentation [7, 8, 9] sample_metadata sample_small" and length_sample_small: "length sample_small = 1"
proof -
  have "case Split [7, 8, 9] sample_metadata sample_options 16 of Inl _ \<Rightarrow> False | Inr r \<Rightarrow> length (sr_Fragments r) = 1"
    by code_simp
  then obtain r where r: "Split [7, 8, 9] sample_metadata sample_options 16 = Inr r" "length (sr_Fragments r) = 1"
    by (auto split: sum.splits)
  then show "fragmentation [7, 8, 9] sample_metadata sample_small" "length sample_small = 1"
    using Split_fragmentation [OF r(1)] by (simp_all add: sample_small_def)
qed


text \<open>
  C25.  \<open>Expire\<close> frees exactly the assembling slots whose lifetime has passed and reports their number;
  \<open>PurgePeer\<close> takes every slot of the peer out of the index, frees the unfinished ones, keeps completed
  packets readable, reports the number and touches no slot of another peer.
\<close>

theorem expire_and_purge:
  assumes "reasm_ok r"
  shows "(\<exists>r'. Reassembler_Expire r now = Some (r', card {i. i < length (ra_slots r) \<and> expiring r now i}) \<and> reasm_ok r' \<and>
      (\<forall>i < length (ra_slots r). if expiring r now i then sl_state (ra_slots r' ! i) = slotFree
         else ra_slots r' ! i = ra_slots r ! i)) \<and>
    (\<exists>r'. Reassembler_PurgePeer r peer = Some (r', card {i. of_peer r peer i}) \<and> reasm_ok r' \<and>
      (\<forall>i < length (ra_slots r). if of_peer r peer i then purged_slot r r' i else ra_slots r' ! i = ra_slots r ! i))"
  using Expire_ok [OF assms, of now] PurgePeer_ok [OF assms, of peer] by blast

theorem expire_and_purge_witness:
  "\<exists>r'. Reassembler_PurgePeer sample_reassembler 1 = Some (r', card {i. of_peer sample_reassembler 1 i})"
  using expire_and_purge [OF sample_reassembler_ok, of 0 1] by blast

end
