(* ===== verification/Reorder.thy ===== *)
theory Reorder
  imports Reassembly "HOL-Library.Multiset"
begin

text \<open>
  \<^verbatim>\<open>internal/core/reorder/reorder.go\<close>.  A reorderer holds completed packets of one lane behind a
  gap in the lane sequence and hands them out in sequence order.  The output slice of the source is
  modelled by its length and by the list of the packets written; writing past the length is the panic
  \<open>None\<close>, and so is an index of -1.
\<close>

definition halfSequenceSpace :: u32 where "halfSequenceSpace = 2 ^ 31"

datatype reorder_error = ro_ErrInvalidConfig | ErrWrongLane | ErrOutputTooSmall

record ReorderLane =
  ln_PeerID :: PeerID
  ln_DataSessionID :: u16
  ln_LaneID :: byte

record ReorderConfig =
  ro_Enabled :: bool
  ro_Capacity :: int
  ro_MaxDelay :: duration
  ro_Lane :: ReorderLane
  ro_NextSequence :: u32

datatype ReorderStatus = StatusDelivered | StatusQueued | ro_StatusDuplicate | StatusLate | StatusFlushed

record entry =
  en_used :: bool
  en_packet :: Packet

record Reorderer =
  re_config :: ReorderConfig
  re_next :: u32
  re_entries :: "entry list"
  re_count :: int
  re_gapStartedAt :: gotime

text \<open>The zero value of \<^verbatim>\<open>entry\<close>.\<close>

definition zero_entry :: entry where
  "zero_entry = \<lparr>en_used = False,
     en_packet = \<lparr>pk_Handle = \<lparr>sh_index = 0, sh_generation = 0\<rparr>, pk_Key = zero_key, pk_Data = []\<rparr>\<rparr>"

abbreviation seq_of :: "Packet \<Rightarrow> u32" where
  "seq_of p \<equiv> k_LaneSequence (pk_Key p)"

definition NewReorderer :: "ReorderConfig \<Rightarrow> reorder_error + Reorderer" where
  "NewReorderer config =
     (if \<not> ro_Enabled config then
        Inr \<lparr>re_config = config, re_next = ro_NextSequence config, re_entries = [], re_count = 0, re_gapStartedAt = 0\<rparr>
      else if ro_Capacity config \<le> 0 \<or> ro_Capacity config \<ge> uint halfSequenceSpace \<or>
              ro_MaxDelay config \<le> 0 \<or> ln_DataSessionID (ro_Lane config) = 0
      then Inl ro_ErrInvalidConfig
      else Inr \<lparr>re_config = config, re_next = ro_NextSequence config,
                re_entries = replicate (nat (ro_Capacity config)) zero_entry, re_count = 0, re_gapStartedAt = 0\<rparr>)"

definition Reorderer_Reset ::
    "Reorderer \<Rightarrow> u32 \<Rightarrow> nat \<Rightarrow> Reorderer \<times> (reorder_error + Packet list)" where
  "Reorderer_Reset r nextSequence droppedLen =
     (if int droppedLen < re_count r then (r, Inl ErrOutputTooSmall)
      else
        (r\<lparr>re_entries := map (\<lambda>e. zero_entry) (re_entries r), re_count := 0, re_next := nextSequence,
           re_gapStartedAt := 0\<rparr>,
         Inr (map en_packet (filter en_used (re_entries r)))))"

definition aheadOf :: "u32 \<Rightarrow> u32 \<Rightarrow> bool" where
  "aheadOf sequence expected = (let delta = sequence - expected in delta \<noteq> 0 \<and> delta < halfSequenceSpace)"

definition matchesLane :: "Reorderer \<Rightarrow> Packet \<Rightarrow> bool" where
  "matchesLane r packet =
     (if \<not> ro_Enabled (re_config r) then True
      else
        (let key = pk_Key packet; lane = ro_Lane (re_config r) in
         k_PeerID key = ln_PeerID lane \<and> k_DataSessionID key = ln_DataSessionID lane \<and> k_LaneID key = ln_LaneID lane))"

text \<open>\<open>insert\<close> uses the first free entry, if there is one.\<close>

definition Reorderer_insert :: "Reorderer \<Rightarrow> Packet \<Rightarrow> Reorderer" where
  "Reorderer_insert r packet =
     (case find (\<lambda>i. \<not> en_used (re_entries r ! i)) [0..<length (re_entries r)] of
        None \<Rightarrow> r
      | Some i \<Rightarrow> r\<lparr>re_entries := (re_entries r)[i := \<lparr>en_used = True, en_packet = packet\<rparr>], re_count := re_count r + 1\<rparr>)"

definition Reorderer_contains :: "Reorderer \<Rightarrow> u32 \<Rightarrow> bool" where
  "Reorderer_contains r sequence = list_ex (\<lambda>e. en_used e \<and> seq_of (en_packet e) = sequence) (re_entries r)"

text \<open>Emptying entry \<open>i\<close> after its packet was written.\<close>

definition take_entry :: "Reorderer \<Rightarrow> nat \<Rightarrow> Reorderer" where
  "take_entry r i = r\<lparr>re_entries := (re_entries r)[i := zero_entry], re_count := re_count r - 1\<rparr>"

definition used_entries :: "entry list \<Rightarrow> nat" where
  "used_entries es = length (filter en_used es)"

lemma used_entries_clear:
  "i < length es \<Longrightarrow> en_used (es ! i) \<Longrightarrow> used_entries (es[i := zero_entry]) < used_entries es"
  by (induction es arbitrary: i) (auto simp: used_entries_def zero_entry_def nth_Cons split: nat.splits)

definition next_index :: "Reorderer \<Rightarrow> nat option" where
  "next_index r =
     find (\<lambda>i. en_used (re_entries r ! i) \<and> seq_of (en_packet (re_entries r ! i)) = re_next r) [0..<length (re_entries r)]"

lemma next_index_Some:
  assumes "next_index r = Some i"
  shows "i < length (re_entries r)" and "en_used (re_entries r ! i)" and "seq_of (en_packet (re_entries r ! i)) = re_next r"
  using assms by (auto simp: next_index_def find_Some_iff)

text \<open>The loop of \<^verbatim>\<open>drainContiguous\<close>; \<open>acc\<close> is what was written to \<^verbatim>\<open>out\<close> so far.\<close>

function drain_loop :: "Reorderer \<Rightarrow> nat \<Rightarrow> Packet list \<Rightarrow> (Reorderer \<times> Packet list) option" where
  "drain_loop r outLen acc =
     (case next_index r of
        None \<Rightarrow> Some (r, acc)
      | Some i \<Rightarrow>
          (if length acc \<ge> outLen then None
           else drain_loop ((take_entry r i)\<lparr>re_next := re_next r + 1\<rparr>) outLen (acc @ [en_packet (re_entries r ! i)])))"
  by pat_completeness auto
termination
  by (relation "measure (\<lambda>(r, outLen, acc). used_entries (re_entries r))")
    (auto simp: take_entry_def intro: used_entries_clear dest: next_index_Some)

declare drain_loop.simps [simp del]

definition drainContiguous :: "Reorderer \<Rightarrow> nat \<Rightarrow> (Reorderer \<times> Packet list) option" where
  "drainContiguous r outLen = (if re_count r = 0 then Some (r, []) else drain_loop r outLen [])"

text \<open>One round of the scan in \<^verbatim>\<open>closestAhead\<close>.\<close>

definition closer :: "Reorderer \<Rightarrow> nat option \<Rightarrow> nat \<Rightarrow> nat option" where
  "closer r best i =
     (if \<not> en_used (re_entries r ! i) then best
      else
        (case best of
           None \<Rightarrow> Some i
         | Some b \<Rightarrow>
             if seq_of (en_packet (re_entries r ! i)) - re_next r < seq_of (en_packet (re_entries r ! b)) - re_next r
             then Some i else best))"

definition closestAhead :: "Reorderer \<Rightarrow> nat option" where
  "closestAhead r = foldl (closer r) None [0..<length (re_entries r)]"

lemma closest_scan:
  "case foldl (closer r) None [0..<m] of
     None \<Rightarrow> \<forall>i < m. \<not> en_used (re_entries r ! i)
   | Some b \<Rightarrow> b < m \<and> en_used (re_entries r ! b) \<and>
       (\<forall>i < m. en_used (re_entries r ! i) \<longrightarrow>
          seq_of (en_packet (re_entries r ! b)) - re_next r \<le> seq_of (en_packet (re_entries r ! i)) - re_next r)"
proof (induction m)
  case 0
  then show ?case by simp
next
  case (Suc m)
  then show ?case
    by (auto simp: closer_def less_Suc_eq not_less split: option.splits intro: order_trans less_imp_le)
qed

lemma closestAhead_Some:
  assumes "closestAhead r = Some b"
  shows "b < length (re_entries r)" and "en_used (re_entries r ! b)"
    and "i < length (re_entries r) \<Longrightarrow> en_used (re_entries r ! i) \<Longrightarrow>
      seq_of (en_packet (re_entries r ! b)) - re_next r \<le> seq_of (en_packet (re_entries r ! i)) - re_next r"
  using closest_scan [where r = r and m = "length (re_entries r)"] assms by (auto simp: closestAhead_def)

lemma closestAhead_None: "closestAhead r = None \<longleftrightarrow> used_entries (re_entries r) = 0"
  using closest_scan [where r = r and m = "length (re_entries r)"]
  by (auto simp: closestAhead_def used_entries_def filter_empty_conv in_set_conv_nth split: option.splits) (metis nth_mem)

lemma closestAhead_clear:
  "Some b = closestAhead r \<Longrightarrow> used_entries ((re_entries r)[b := zero_entry]) < used_entries (re_entries r)"
  using closestAhead_Some [of r b] used_entries_clear by metis

function flush_loop :: "Reorderer \<Rightarrow> nat \<Rightarrow> Packet list \<Rightarrow> (Reorderer \<times> Packet list) option" where
  "flush_loop r outLen acc =
     (if re_count r > 0 then
        (case closestAhead r of
           None \<Rightarrow> None
         | Some i \<Rightarrow>
             (if length acc \<ge> outLen then None
              else
                (let p = en_packet (re_entries r ! i) in
                 flush_loop ((take_entry r i)\<lparr>re_next := seq_of p + 1\<rparr>) outLen (acc @ [p]))))
      else Some (r\<lparr>re_gapStartedAt := 0\<rparr>, acc))"
  by pat_completeness auto
termination
  by (relation "measure (\<lambda>(r, outLen, acc). nat (re_count r))") (auto simp: take_entry_def)

declare flush_loop.simps [simp del]

definition Reorderer_flush :: "Reorderer \<Rightarrow> nat \<Rightarrow> (Reorderer \<times> Packet list) option" where
  "Reorderer_flush r outLen = flush_loop r outLen []"

text \<open>The loop of \<^verbatim>\<open>flushIncluding\<close>; \<open>virtual\<close> is \<open>None\<close> for the nil pointer.\<close>

function including_loop :: "Reorderer \<Rightarrow> Packet option \<Rightarrow> nat \<Rightarrow> Packet list \<Rightarrow> (Reorderer \<times> Packet list) option" where
  "including_loop r virtual outLen acc =
     (if re_count r > 0 \<or> virtual \<noteq> None then
        (let index = closestAhead r;
             bestIsVirtual =
               (case virtual of
                  None \<Rightarrow> False
                | Some v \<Rightarrow>
                    (case index of
                       None \<Rightarrow> True
                     | Some i \<Rightarrow> seq_of v - re_next r < seq_of (en_packet (re_entries r ! i)) - re_next r))
         in
         if bestIsVirtual then
           (if length acc \<ge> outLen then None
            else including_loop (r\<lparr>re_next := seq_of (the virtual) + 1\<rparr>) None outLen (acc @ [the virtual]))
         else
           (case index of
              None \<Rightarrow> None
            | Some i \<Rightarrow>
                (if length acc \<ge> outLen then None
                 else
                   (let p = en_packet (re_entries r ! i) in
                    including_loop ((take_entry r i)\<lparr>re_next := seq_of p + 1\<rparr>) virtual outLen (acc @ [p])))))
      else Some (r\<lparr>re_gapStartedAt := 0\<rparr>, acc))"
  by pat_completeness auto
termination
  by (relation "measure (\<lambda>(r, virtual, outLen, acc). used_entries (re_entries r) + (if virtual = None then 0 else 1))")
    (auto simp: take_entry_def intro: closestAhead_clear split: option.splits)

declare including_loop.simps [simp del]

definition Reorderer_flushIncluding :: "Reorderer \<Rightarrow> Packet \<Rightarrow> nat \<Rightarrow> (Reorderer \<times> Packet list) option" where
  "Reorderer_flushIncluding r packet outLen = including_loop r (Some packet) outLen []"

definition Reorderer_Accept ::
    "Reorderer \<Rightarrow> gotime \<Rightarrow> Packet \<Rightarrow> nat \<Rightarrow> (Reorderer \<times> (reorder_error + ReorderStatus \<times> Packet list)) option" where
  "Reorderer_Accept r now packet outLen =
     (if \<not> matchesLane r packet then Some (r, Inl ErrWrongLane)
      else if \<not> ro_Enabled (re_config r) then
        (if outLen < 1 then Some (r, Inl ErrOutputTooSmall) else Some (r, Inr (StatusDelivered, [packet])))
      else if outLen < length (re_entries r) + 1 then Some (r, Inl ErrOutputTooSmall)
      else
        (let sequence = seq_of packet in
         if sequence = re_next r then
           do {
             (r1, out) \<leftarrow> drainContiguous (r\<lparr>re_next := re_next r + 1\<rparr>) (outLen - 1);
             let r2 = (if re_count r1 = 0 then r1\<lparr>re_gapStartedAt := 0\<rparr> else r1);
             Some (r2, Inr (StatusDelivered, packet # out))
           }
         else if \<not> aheadOf sequence (re_next r) then Some (r, Inr (StatusLate, []))
         else if Reorderer_contains r sequence then Some (r, Inr (ro_StatusDuplicate, []))
         else if re_count r = int (length (re_entries r)) then
           do {
             (r1, out) \<leftarrow> Reorderer_flushIncluding r packet outLen;
             Some (r1, Inr (StatusFlushed, out))
           }
         else
           (let r1 = Reorderer_insert r packet;
                r2 = (if re_count r1 = 1 then r1\<lparr>re_gapStartedAt := now\<rparr> else r1)
            in Some (r2, Inr (StatusQueued, [])))))"

definition Reorderer_Tick :: "Reorderer \<Rightarrow> gotime \<Rightarrow> nat \<Rightarrow> (Reorderer \<times> (reorder_error + Packet list)) option" where
  "Reorderer_Tick r now outLen =
     (if \<not> ro_Enabled (re_config r) \<or> re_count r = 0 \<or> now < re_gapStartedAt r + ro_MaxDelay (re_config r)
      then Some (r, Inr [])
      else if outLen < length (re_entries r) then Some (r, Inl ErrOutputTooSmall)
      else do { (r1, out) \<leftarrow> Reorderer_flush r outLen; Some (r1, Inr out) })"

definition Reorderer_Pending :: "Reorderer \<Rightarrow> int" where
  "Reorderer_Pending r = re_count r"

definition Reorderer_GapStartedAt :: "Reorderer \<Rightarrow> gotime" where
  "Reorderer_GapStartedAt r = re_gapStartedAt r"

definition Reorderer_WouldQueue :: "Reorderer \<Rightarrow> u32 \<Rightarrow> bool" where
  "Reorderer_WouldQueue r sequence =
     (if \<not> ro_Enabled (re_config r) \<or> sequence = re_next r \<or> \<not> aheadOf sequence (re_next r) \<or>
         Reorderer_contains r sequence then False
      else re_count r < int (length (re_entries r)))"

definition Reorderer_Flush :: "Reorderer \<Rightarrow> nat \<Rightarrow> (Reorderer \<times> (reorder_error + Packet list)) option" where
  "Reorderer_Flush r outLen =
     (if \<not> ro_Enabled (re_config r) \<or> re_count r = 0 then Some (r, Inr [])
      else if outLen < length (re_entries r) then Some (r, Inl ErrOutputTooSmall)
      else do { (r1, out) \<leftarrow> Reorderer_flush r outLen; Some (r1, Inr out) })"

definition Reorderer_FlushIncluding ::
    "Reorderer \<Rightarrow> Packet \<Rightarrow> nat \<Rightarrow> (Reorderer \<times> (reorder_error + Packet list)) option" where
  "Reorderer_FlushIncluding r packet outLen =
     (if \<not> ro_Enabled (re_config r) then
        (if outLen < 1 then Some (r, Inl ErrOutputTooSmall) else Some (r, Inr [packet]))
      else if \<not> matchesLane r packet then Some (r, Inl ErrWrongLane)
      else if outLen < length (re_entries r) + 1 then Some (r, Inl ErrOutputTooSmall)
      else do { (r1, out) \<leftarrow> Reorderer_flushIncluding r packet outLen; Some (r1, Inr out) })"


subsection \<open>Held packets\<close>

definition held :: "Reorderer \<Rightarrow> Packet list" where
  "held r = map en_packet (filter en_used (re_entries r))"

lemma length_held: "length (held r) = used_entries (re_entries r)"
  by (simp add: held_def used_entries_def)

lemma held_next [simp]: "held (r\<lparr>re_next := n\<rparr>) = held r" and held_gap [simp]: "held (r\<lparr>re_gapStartedAt := t\<rparr>) = held r"
  by (simp_all add: held_def)

lemma held_take_entry:
  assumes "i < length (re_entries r)" and "en_used (re_entries r ! i)"
  obtains xs ys where "held r = xs @ en_packet (re_entries r ! i) # ys" and "held (take_entry r i) = xs @ ys"
proof -
  let ?es = "re_entries r"
  have "?es = take i ?es @ ?es ! i # drop (Suc i) ?es" by (rule id_take_nth_drop [OF assms(1)])
  then have "filter en_used ?es = filter en_used (take i ?es) @ ?es ! i # filter en_used (drop (Suc i) ?es)"
    using assms(2) by (metis filter.simps(2) filter_append)
  moreover have "filter en_used (?es[i := zero_entry]) = filter en_used (take i ?es) @ filter en_used (drop (Suc i) ?es)"
    using assms(1) by (simp add: upd_conv_take_nth_drop zero_entry_def)
  ultimately show thesis
    using that by (simp add: held_def take_entry_def)
qed

lemma held_insert:
  assumes "used_entries (re_entries r) < length (re_entries r)"
  obtains xs ys where "held r = xs @ ys" and "held (Reorderer_insert r p) = xs @ p # ys"
    and "re_count (Reorderer_insert r p) = re_count r + 1"
    and "length (re_entries (Reorderer_insert r p)) = length (re_entries r)"
proof -
  let ?es = "re_entries r"
  have "\<exists>e\<in>set ?es. \<not> en_used e"
    using assms by (metis used_entries_def filter_True less_irrefl)
  then have "find (\<lambda>i. \<not> en_used (?es ! i)) [0..<length ?es] \<noteq> None"
    by (auto simp: find_None_iff in_set_conv_nth)
  then obtain i where i: "find (\<lambda>i. \<not> en_used (?es ! i)) [0..<length ?es] = Some i" by blast
  then have le: "i < length ?es" and un: "\<not> en_used (?es ! i)" by (auto simp: find_Some_iff)
  have "?es = take i ?es @ ?es ! i # drop (Suc i) ?es" by (rule id_take_nth_drop [OF le])
  then have "filter en_used ?es = filter en_used (take i ?es) @ filter en_used (drop (Suc i) ?es)"
    using un by (metis filter.simps(2) filter_append)
  moreover have "filter en_used (?es[i := \<lparr>en_used = True, en_packet = p\<rparr>]) =
      filter en_used (take i ?es) @ \<lparr>en_used = True, en_packet = p\<rparr> # filter en_used (drop (Suc i) ?es)"
    using le by (simp add: upd_conv_take_nth_drop)
  ultimately show thesis
    using that i by (simp add: held_def Reorderer_insert_def)
qed

lemma set_held: "set (held r) = {en_packet (re_entries r ! i) | i. i < length (re_entries r) \<and> en_used (re_entries r ! i)}"
  by (auto simp: held_def) (metis in_set_conv_nth)

lemma contains_iff: "Reorderer_contains r s \<longleftrightarrow> s \<in> seq_of ` set (held r)"
  by (auto simp: Reorderer_contains_def held_def list_ex_iff)

lemma next_index_None: "next_index r = None \<longleftrightarrow> re_next r \<notin> seq_of ` set (held r)"
  by (force simp: next_index_def find_None_iff set_held image_iff)


subsection \<open>Draining and flushing\<close>

text \<open>The queue invariant the loops rely on: the counter counts the held packets.\<close>

definition counted :: "Reorderer \<Rightarrow> bool" where
  "counted r \<longleftrightarrow> re_count r = int (length (held r))"

definition same_shape :: "Reorderer \<Rightarrow> Reorderer \<Rightarrow> bool" where
  "same_shape r r' \<longleftrightarrow> re_config r' = re_config r \<and> length (re_entries r') = length (re_entries r)"

lemma same_shape_refl [simp]: "same_shape r r"
  by (simp add: same_shape_def)

lemma same_shape_take: "same_shape ((take_entry r i)\<lparr>re_next := n\<rparr>) r' = same_shape r r'"
  by (simp add: same_shape_def take_entry_def)

lemma counted_take:
  assumes "counted r" and "i < length (re_entries r)" and "en_used (re_entries r ! i)"
  shows "counted ((take_entry r i)\<lparr>re_next := n\<rparr>)"
proof -
  obtain xs ys where "held r = xs @ en_packet (re_entries r ! i) # ys" "held (take_entry r i) = xs @ ys"
    by (rule held_take_entry [OF assms(2,3)])
  then show ?thesis using assms(1) by (simp add: counted_def) (simp add: take_entry_def)
qed

lemma drain_loop_ok:
  assumes "counted r" and "length acc + length (held r) \<le> outLen" and "distinct (map seq_of (held r))"
  shows "\<exists>r' out. drain_loop r outLen acc = Some (r', acc @ out) \<and> counted r' \<and> same_shape r r' \<and>
    mset (held r) = mset out + mset (held r') \<and> distinct (map seq_of (held r')) \<and>
    map seq_of out = map (\<lambda>k. re_next r + of_nat k) [0..<length out] \<and> re_next r' = re_next r + of_nat (length out) \<and>
    re_next r' \<notin> seq_of ` set (held r') \<and> re_gapStartedAt r' = re_gapStartedAt r"
  using assms
proof (induction r outLen acc rule: drain_loop.induct)
  case (1 r outLen acc)
  show ?case
  proof (cases "next_index r")
    case None
    then have "drain_loop r outLen acc = Some (r, acc @ [])" "re_next r \<notin> seq_of ` set (held r)"
      by (simp_all add: drain_loop.simps [of r], simp add: next_index_None)
    then show ?thesis using "1.prems" by (intro exI [of _ r] exI [of _ "[]"]) simp
  next
    case (Some i)
    note i = next_index_Some [OF Some]
    let ?p = "en_packet (re_entries r ! i)" and ?r1 = "(take_entry r i)\<lparr>re_next := re_next r + 1\<rparr>"
    obtain xs ys where xy: "held r = xs @ ?p # ys" "held (take_entry r i) = xs @ ys"
      by (rule held_take_entry [OF i(1,2)])
    have len: "\<not> length acc \<ge> outLen" using "1.prems"(2) xy(1) by simp
    have step: "drain_loop r outLen acc = drain_loop ?r1 outLen (acc @ [?p])"
      using Some len by (simp add: drain_loop.simps [of r])
    obtain r' out where r': "drain_loop ?r1 outLen (acc @ [?p]) = Some (r', (acc @ [?p]) @ out)" "counted r'" "same_shape ?r1 r'"
      "mset (held ?r1) = mset out + mset (held r')" "distinct (map seq_of (held r'))"
      "map seq_of out = map (\<lambda>k. re_next ?r1 + of_nat k) [0..<length out]" "re_next r' = re_next ?r1 + of_nat (length out)"
      "re_next r' \<notin> seq_of ` set (held r')" "re_gapStartedAt r' = re_gapStartedAt ?r1"
      using "1.IH" [OF Some len counted_take [OF "1.prems"(1) i(1,2)]] "1.prems"(2,3) xy by auto
    have "map seq_of (?p # out) = map (\<lambda>k. re_next r + of_nat k) [0..<length (?p # out)]"
      using r'(6) i(3) by (simp add: upt_conv_Cons map_Suc_upt [symmetric] comp_def algebra_simps del: upt_Suc)
    moreover have "mset (held r) = mset (?p # out) + mset (held r')" using r'(4) xy by simp
    moreover have "drain_loop r outLen acc = Some (r', acc @ ?p # out)" using step r'(1) by simp
    moreover have "same_shape r r'" using r'(3) by (simp add: same_shape_take)
    moreover have "re_gapStartedAt r' = re_gapStartedAt r" using r'(9) by (simp add: take_entry_def)
    moreover have "re_next r' = re_next r + of_nat (length (?p # out))" using r'(7) by simp
    ultimately show ?thesis using r'(2,5,8) by blast
  qed
qed

lemma flush_loop_including: "flush_loop r outLen acc = including_loop r None outLen acc"
proof (induction r outLen acc rule: flush_loop.induct)
  case (1 r outLen acc)
  then show ?case
    by (auto simp: flush_loop.simps [of r] including_loop.simps [of r] Let_def split: option.split)
qed

lemma delta_shift:
  fixes a b c :: "'a::len word"
  assumes "c < a" and "c < b"
  shows "a - (c + 1) < b - (c + 1) \<longleftrightarrow> a < b"
proof -
  have "unat c + 1 < 2 ^ LENGTH('a)"
    using assms(1) unsigned_less [of a, where 'a = nat] unfolding word_less_nat_alt by linarith
  then have "unat (c + 1) = unat c + 1" by (simp add: unat_word_ariths)
  moreover have "c + 1 \<le> a" "c + 1 \<le> b" using assms by (simp_all add: inc_le)
  ultimately show ?thesis using assms by (simp add: word_less_nat_alt unat_sub word_le_nat_alt) linarith
qed

lemma delta_after:
  fixes a b c n :: "'a::len word"
  assumes "c - n < a - n" and "c - n < b - n" and "a - (c + 1) < b - (c + 1)"
  shows "a - n < b - n"
  using delta_shift [OF assms(1,2)] assms(3) by (simp add: algebra_simps)

text \<open>The packets still to be written by \<^verbatim>\<open>flushIncluding\<close>.\<close>

definition waiting :: "Reorderer \<Rightarrow> Packet option \<Rightarrow> Packet list" where
  "waiting r virtual = held r @ (case virtual of None \<Rightarrow> [] | Some v \<Rightarrow> [v])"

definition flushes :: "Reorderer \<Rightarrow> Packet list \<Rightarrow> Reorderer \<Rightarrow> Packet list \<Rightarrow> bool" where
  "flushes r ps r' out \<longleftrightarrow>
     mset out = mset ps \<and> sorted_wrt (\<lambda>p q. seq_of p - re_next r < seq_of q - re_next r) out \<and>
     held r' = [] \<and> counted r' \<and> same_shape r r' \<and> re_gapStartedAt r' = 0 \<and>
     re_next r' = (if out = [] then re_next r else seq_of (last out) + 1)"

lemma flushes_Cons:
  assumes "flushes (r1\<lparr>re_next := seq_of p + 1\<rparr>) ps r' out" and "same_shape r r1" and "mset qs = add_mset p (mset ps)"
    and "\<And>q. q \<in> set ps \<Longrightarrow> seq_of p - re_next r < seq_of q - re_next r"
  shows "flushes r qs r' (p # out)"
proof -
  have set: "set out = set ps" using assms(1) by (metis flushes_def mset_eq_setD)
  have "sorted_wrt (\<lambda>p' q. seq_of p' - (seq_of p + 1) < seq_of q - (seq_of p + 1)) out"
    using assms(1) by (simp add: flushes_def)
  then have "sorted_wrt (\<lambda>p' q. seq_of p' - re_next r < seq_of q - re_next r) out"
    by (rule sorted_wrt_mono_rel [rotated]) (use delta_after assms(4) set in blast)
  then show ?thesis
    using assms set by (auto simp: flushes_def same_shape_def)
qed

lemma waiting_take:
  assumes "closestAhead r = Some i" and "distinct (map seq_of (waiting r virtual))"
  defines "p \<equiv> en_packet (re_entries r ! i)"
  shows "mset (waiting r virtual) = add_mset p (mset (waiting ((take_entry r i)\<lparr>re_next := n\<rparr>) virtual))"
    and "distinct (map seq_of (waiting ((take_entry r i)\<lparr>re_next := n\<rparr>) virtual))"
    and "q \<in> set (waiting ((take_entry r i)\<lparr>re_next := n\<rparr>) virtual) \<Longrightarrow> q \<in> set (waiting r virtual) \<and> seq_of q \<noteq> seq_of p"
proof -
  obtain xs ys where xy: "held r = xs @ p # ys" "held (take_entry r i) = xs @ ys"
    unfolding p_def by (rule held_take_entry [OF closestAhead_Some(1,2) [OF assms(1)]])
  show "mset (waiting r virtual) = add_mset p (mset (waiting ((take_entry r i)\<lparr>re_next := n\<rparr>) virtual))"
    using xy by (simp add: waiting_def)
  show "distinct (map seq_of (waiting ((take_entry r i)\<lparr>re_next := n\<rparr>) virtual))"
    using xy assms(2) by (auto simp: waiting_def)
  show "q \<in> set (waiting ((take_entry r i)\<lparr>re_next := n\<rparr>) virtual) \<Longrightarrow> q \<in> set (waiting r virtual) \<and> seq_of q \<noteq> seq_of p"
  proof -
    let ?vs = "case virtual of None \<Rightarrow> [] | Some v \<Rightarrow> [v]"
    assume "q \<in> set (waiting ((take_entry r i)\<lparr>re_next := n\<rparr>) virtual)"
    then have q: "q \<in> set (xs @ ys @ ?vs)" using xy(2) by (simp add: waiting_def)
    moreover have "seq_of p \<notin> seq_of ` set (xs @ ys @ ?vs)" using xy(1) assms(2) by (auto simp: waiting_def)
    ultimately have "seq_of q \<noteq> seq_of p" by (metis image_eqI)
    then show ?thesis using xy(1) q by (auto simp: waiting_def)
  qed
qed

lemma closestAhead_min:
  assumes "closestAhead r = Some i" and "q \<in> set (held r)"
  shows "seq_of (en_packet (re_entries r ! i)) - re_next r \<le> seq_of q - re_next r"
  using closestAhead_Some(3) [OF assms(1)] assms(2) by (auto simp: set_held)

lemma closestAhead_held: "closestAhead r = None \<longleftrightarrow> held r = []"
  by (metis closestAhead_None length_0_conv length_held)

lemma including_loop_ok:
  assumes "counted r" and "distinct (map seq_of (waiting r virtual))" and "length acc + length (waiting r virtual) \<le> outLen"
  shows "\<exists>r' out. including_loop r virtual outLen acc = Some (r', acc @ out) \<and> flushes r (waiting r virtual) r' out"
  using assms
proof (induction r virtual outLen acc rule: including_loop.induct)
  case (1 r virtual outLen acc)
  consider (stop) "re_count r \<le> 0" "virtual = None"
    | (virt) v where "virtual = Some v" "case closestAhead r of None \<Rightarrow> True
        | Some i \<Rightarrow> seq_of v - re_next r < seq_of (en_packet (re_entries r ! i)) - re_next r"
    | (entry) i where "closestAhead r = Some i" "case virtual of None \<Rightarrow> True
        | Some v \<Rightarrow> \<not> seq_of v - re_next r < seq_of (en_packet (re_entries r ! i)) - re_next r"
    using "1.prems"(1) closestAhead_held [of r]
    by (cases virtual; cases "closestAhead r") (auto simp: counted_def)
  then show ?case
  proof cases
    case stop
    then have "held r = []" using "1.prems"(1) by (simp add: counted_def)
    with stop have "including_loop r virtual outLen acc = Some (r\<lparr>re_gapStartedAt := 0\<rparr>, acc @ [])"
      "flushes r (waiting r virtual) (r\<lparr>re_gapStartedAt := 0\<rparr>) []"
      using "1.prems"(1) by (simp_all add: including_loop.simps [of r] flushes_def waiting_def counted_def same_shape_def)
    then show ?thesis by blast
  next
    case virt
    let ?r1 = "r\<lparr>re_next := seq_of v + 1\<rparr>"
    have len: "\<not> length acc \<ge> outLen" using "1.prems"(3) virt(1) by (simp add: waiting_def)
    have step: "including_loop r virtual outLen acc = including_loop ?r1 None outLen (acc @ [v])"
      using virt len by (auto simp: including_loop.simps [of r] split: option.splits)
    have "\<exists>r' out. including_loop ?r1 None outLen (acc @ [v]) = Some (r', (acc @ [v]) @ out) \<and> flushes ?r1 (waiting ?r1 None) r' out"
      using "1.IH"(1) virt len "1.prems" by (auto simp: waiting_def counted_def split: option.splits)
    then obtain r' out where r': "including_loop ?r1 None outLen (acc @ [v]) = Some (r', (acc @ [v]) @ out)"
      "flushes ?r1 (waiting ?r1 None) r' out" by blast
    have "flushes r (waiting r virtual) r' (v # out)"
    proof (rule flushes_Cons [OF r'(2)])
      fix q assume "q \<in> set (waiting ?r1 None)"
      then have q: "q \<in> set (held r)" by (simp add: waiting_def)
      then obtain i where i: "closestAhead r = Some i" using closestAhead_held [of r] by fastforce
      show "seq_of v - re_next r < seq_of q - re_next r"
        using virt(2) closestAhead_min [OF i q] i by simp
    qed (simp_all add: waiting_def virt(1))
    then show ?thesis using step r'(1) by auto
  next
    case entry
    let ?p = "en_packet (re_entries r ! i)" and ?r1 = "(take_entry r i)\<lparr>re_next := seq_of (en_packet (re_entries r ! i)) + 1\<rparr>"
    note w = waiting_take [OF entry(1) "1.prems"(2), where n = "seq_of ?p + 1"]
    have size: "length (waiting r virtual) = Suc (length (waiting ?r1 virtual))"
      using arg_cong [OF w(1), of size] by simp
    have len: "\<not> length acc \<ge> outLen" using "1.prems"(3) size by simp
    have pos: "re_count r > 0"
      using "1.prems"(1) closestAhead_held [of r] entry(1) by (simp add: counted_def)
    have step: "including_loop r virtual outLen acc = including_loop ?r1 virtual outLen (acc @ [?p])"
      using entry len pos by (auto simp: including_loop.simps [of r] Let_def split: option.splits)
    have "\<exists>r' out. including_loop ?r1 virtual outLen (acc @ [?p]) = Some (r', (acc @ [?p]) @ out) \<and>
        flushes ?r1 (waiting ?r1 virtual) r' out"
      using "1.IH"(2) [OF _ refl refl _ entry(1) len refl] pos entry counted_take [OF "1.prems"(1) closestAhead_Some(1,2) [OF entry(1)]]
        w(2) "1.prems"(3) size
      by (auto split: option.splits)
    then obtain r' out where r': "including_loop ?r1 virtual outLen (acc @ [?p]) = Some (r', (acc @ [?p]) @ out)"
      "flushes ?r1 (waiting ?r1 virtual) r' out" by blast
    have "flushes r (waiting r virtual) r' (?p # out)"
    proof (rule flushes_Cons [OF r'(2) _ w(1)])
      fix q assume "q \<in> set (waiting ?r1 virtual)"
      then have q: "q \<in> set (waiting r virtual)" "seq_of q \<noteq> seq_of ?p" using w(3) by auto
      have "seq_of ?p - re_next r \<le> seq_of q - re_next r"
        using q(1) closestAhead_min [OF entry(1), of q] entry(2) by (auto simp: waiting_def not_less split: option.splits)
      then show "seq_of ?p - re_next r < seq_of q - re_next r" using q(2) by (simp add: order.strict_iff_order)
    qed (simp add: same_shape_def take_entry_def)
    then show ?thesis using step r'(1) by auto
  qed
qed


subsection \<open>The invariant and the operations\<close>

definition reorder_ok :: "Reorderer \<Rightarrow> bool" where
  "reorder_ok r \<longleftrightarrow>
     counted r \<and> ro_Enabled (re_config r) \<and> 0 < ro_MaxDelay (re_config r) \<and> 0 < length (re_entries r) \<and>
     int (length (re_entries r)) = ro_Capacity (re_config r) \<and> distinct (map seq_of (held r)) \<and>
     (\<forall>p\<in>set (held r). aheadOf (seq_of p) (re_next r) \<and> matchesLane r p)"

text \<open>
  \<open>chain n ps\<close>: in serial number order from \<open>n\<close>, every packet of \<open>ps\<close> is at or ahead of the successor
  of the one before it.  \<open>after n ps\<close> is the sequence number expected behind \<open>ps\<close>.
\<close>

fun chain :: "u32 \<Rightarrow> Packet list \<Rightarrow> bool" where
  "chain n [] \<longleftrightarrow> True"
| "chain n (p # ps) \<longleftrightarrow> seq_of p - n < halfSequenceSpace \<and> chain (seq_of p + 1) ps"

definition after :: "u32 \<Rightarrow> Packet list \<Rightarrow> u32" where
  "after n ps = (if ps = [] then n else seq_of (last ps) + 1)"

lemma after_simps [simp]: "after n [] = n" "after n (p # ps) = after (seq_of p + 1) ps"
  by (simp_all add: after_def)

lemma after_append [simp]: "after n (ps @ qs) = after (after n ps) qs"
  by (induction ps arbitrary: n) auto

lemma chain_append [simp]: "chain n (ps @ qs) \<longleftrightarrow> chain n ps \<and> chain (after n ps) qs"
  by (induction ps arbitrary: n) auto

lemma delta_shrinks:
  fixes p n q h :: u32
  assumes "p - n < q - n" and "q - n < h"
  shows "q - (p + 1) < h"
proof -
  have "q - (p + 1) = (q - n) - ((p - n) + 1)" by simp
  moreover have "(p - n) + 1 \<le> q - n" by (rule inc_le [OF assms(1)])
  ultimately have "unat (q - (p + 1)) = unat (q - n) - unat (p - n + 1)" by (simp only: unat_sub)
  then have "unat (q - (p + 1)) \<le> unat (q - n)" by simp
  then show ?thesis using assms(2) unfolding word_less_nat_alt by linarith
qed

lemma sorted_chain:
  assumes "sorted_wrt (\<lambda>p q. seq_of p - n < seq_of q - n) ps" and "\<forall>p\<in>set ps. seq_of p - n < halfSequenceSpace"
  shows "chain n ps"
  using assms
proof (induction ps arbitrary: n)
  case Nil
  then show ?case by simp
next
  case (Cons p ps)
  have "sorted_wrt (\<lambda>a b. seq_of a - (seq_of p + 1) < seq_of b - (seq_of p + 1)) ps"
  proof (rule sorted_wrt_mono_rel)
    fix a b assume "a \<in> set ps" "b \<in> set ps" "seq_of a - n < seq_of b - n"
    then show "seq_of a - (seq_of p + 1) < seq_of b - (seq_of p + 1)"
      using Cons.prems(1) delta_shift [of "seq_of p - n" "seq_of a - n" "seq_of b - n"] by (simp add: algebra_simps)
  qed (use Cons.prems(1) in simp)
  moreover have "\<forall>q\<in>set ps. seq_of q - (seq_of p + 1) < halfSequenceSpace"
    using Cons.prems delta_shrinks [of "seq_of p" n] by auto
  ultimately have "chain (seq_of p + 1) ps" by (rule Cons.IH)
  then show ?case using Cons.prems(2) by simp
qed

lemma flushes_chain:
  assumes "flushes r ps r' out" and "\<forall>p\<in>set ps. seq_of p - re_next r < halfSequenceSpace"
  shows "chain (re_next r) out \<and> re_next r' = after (re_next r) out"
proof -
  have "set out = set ps" using assms(1) by (metis flushes_def mset_eq_setD)
  then show ?thesis using assms by (auto simp: flushes_def after_def intro: sorted_chain)
qed

lemma half_pos: "0 < halfSequenceSpace"
  by code_simp

lemma consecutive_chain:
  "map seq_of ps = map (\<lambda>k. n + of_nat k) [0..<length ps] \<Longrightarrow>
   chain n ps \<and> after n ps = n + of_nat (length ps)"
proof (induction ps arbitrary: n)
  case Nil
  then show ?case by simp
next
  case (Cons p ps)
  have "seq_of p = n" "map seq_of ps = map (\<lambda>k. (n + 1) + of_nat k) [0..<length ps]"
    using Cons.prems by (simp_all add: upt_conv_Cons map_Suc_upt [symmetric] comp_def algebra_simps del: upt_Suc)
  then show ?case using Cons.IH [of "n + 1"] by (simp add: half_pos algebra_simps)
qed

text \<open>
  What every operation promises: the invariant, no packet lost or duplicated (\<open>gained\<close> are the packets
  the operation takes in), and delivery in sequence order.
\<close>

definition reorder_step :: "Reorderer \<Rightarrow> Packet list \<Rightarrow> Reorderer \<Rightarrow> Packet list \<Rightarrow> bool" where
  "reorder_step r gained r' out \<longleftrightarrow>
     reorder_ok r' \<and> re_config r' = re_config r \<and>
     mset out + mset (held r') = mset (held r) + mset gained \<and>
     chain (re_next r) out \<and> re_next r' = after (re_next r) out"

text \<open>The clock of a gap starts with the packet that is queued first and runs on while a packet is held.\<close>

definition clock_step :: "gotime \<Rightarrow> Reorderer \<Rightarrow> Reorderer \<Rightarrow> bool" where
  "clock_step now r r' \<longleftrightarrow>
     (held r' \<noteq> [] \<longrightarrow> Reorderer_GapStartedAt r' = (if held r = [] then now else Reorderer_GapStartedAt r))"

lemma clock_step_refl: "clock_step now r r" and clock_step_empty: "held r' = [] \<Longrightarrow> clock_step now r r'"
  by (simp_all add: clock_step_def)

lemma reorder_step_refl: "reorder_ok r \<Longrightarrow> reorder_step r [] r []"
  by (simp add: reorder_step_def)

lemma reorder_step_trans:
  "reorder_step r ps r1 out1 \<Longrightarrow> reorder_step r1 qs r2 out2 \<Longrightarrow> reorder_step r (ps @ qs) r2 (out1 @ out2)"
  by (auto simp: reorder_step_def ac_simps)

lemma flushes_step:
  assumes "flushes r (held r @ ps) r' out" and "reorder_ok r" and "\<forall>p\<in>set ps. seq_of p - re_next r < halfSequenceSpace"
  shows "reorder_step r ps r' out"
proof -
  have "\<forall>p\<in>set (held r @ ps). seq_of p - re_next r < halfSequenceSpace"
    using assms(2,3) by (auto simp: reorder_ok_def aheadOf_def Let_def)
  then have "chain (re_next r) out \<and> re_next r' = after (re_next r) out" using assms(1) by (intro flushes_chain) auto
  moreover have "reorder_ok r'" using assms(1,2) by (auto simp: reorder_ok_def flushes_def same_shape_def)
  ultimately show ?thesis using assms(1) by (simp add: reorder_step_def flushes_def same_shape_def)
qed

lemma flush_ok:
  assumes "reorder_ok r" and "length (re_entries r) \<le> outLen"
  shows "\<exists>r' out. Reorderer_flush r outLen = Some (r', out) \<and> reorder_step r [] r' out \<and> held r' = []"
proof -
  have "length (held r) \<le> length (re_entries r)" by (simp add: held_def)
  then obtain r' out where "Reorderer_flush r outLen = Some (r', out)" "flushes r (held r @ []) r' out"
    using including_loop_ok [of r None "[]" outLen] assms
    by (auto simp: Reorderer_flush_def flush_loop_including reorder_ok_def waiting_def)
  then show ?thesis using flushes_step [of r "[]" r' out] assms(1) by (auto simp: flushes_def)
qed

lemma flushIncluding_ok:
  assumes "reorder_ok r" and "length (re_entries r) < outLen" and "seq_of p - re_next r < halfSequenceSpace"
    and "\<not> Reorderer_contains r (seq_of p)"
  shows "\<exists>r' out. Reorderer_flushIncluding r p outLen = Some (r', out) \<and> reorder_step r [p] r' out \<and> held r' = []"
proof -
  have "length (held r) \<le> length (re_entries r)" by (simp add: held_def)
  then obtain r' out where "Reorderer_flushIncluding r p outLen = Some (r', out)" "flushes r (held r @ [p]) r' out"
    using including_loop_ok [of r "Some p" "[]" outLen] assms
    by (auto simp: Reorderer_flushIncluding_def reorder_ok_def waiting_def contains_iff)
  then show ?thesis using flushes_step [of r "[p]" r' out] assms(1,3) by (auto simp: flushes_def)
qed

lemma mem_subset_mset: "mset xs = mset ys + mset zs \<Longrightarrow> set zs \<subseteq> set xs"
  by (metis Un_upper2 mset_append mset_eq_setD set_append)

lemma skip_delta:
  fixes q n h :: u32
  assumes "q - n < h" and "\<And>k. k < m \<Longrightarrow> q \<noteq> n + of_nat k"
  shows "q - (n + of_nat m) < h"
  using assms(2)
proof (induction m)
  case 0
  then show ?case using assms(1) by simp
next
  case (Suc m)
  then have "q - (n + of_nat m) < h" "q - (n + of_nat m) \<noteq> 0" by simp_all
  then have "q - (n + of_nat m) - 1 < h" using measure_unat [of "q - (n + of_nat m)"] by (simp add: word_less_nat_alt)
  then show ?case by (simp add: algebra_simps)
qed

lemma accept_in_order:
  assumes "reorder_ok r" and "length (re_entries r) < outLen" and "seq_of p = re_next r" and "matchesLane r p"
  shows "\<exists>r' out. Reorderer_Accept r now p outLen = Some (r', Inr (StatusDelivered, p # out)) \<and> reorder_step r [p] r' (p # out) \<and>
    map seq_of out = map (\<lambda>k. (re_next r + 1) + of_nat k) [0..<length out] \<and> clock_step now r r'"
proof -
  let ?r1 = "r\<lparr>re_next := re_next r + 1\<rparr>"
  have ok: "counted ?r1" "distinct (map seq_of (held r))" "ro_Enabled (re_config r)"
    using assms(1) by (simp_all add: reorder_ok_def counted_def)
  have lens: "length (held r) \<le> outLen - 1" using assms(2) by (auto simp: held_def intro: order_trans [OF length_filter_le])
  have "\<exists>r2 out. drainContiguous ?r1 (outLen - 1) = Some (r2, out) \<and> counted r2 \<and> same_shape ?r1 r2 \<and>
      mset (held r) = mset out + mset (held r2) \<and> distinct (map seq_of (held r2)) \<and>
      map seq_of out = map (\<lambda>k. re_next ?r1 + of_nat k) [0..<length out] \<and> re_next r2 = re_next ?r1 + of_nat (length out) \<and>
      re_next r2 \<notin> seq_of ` set (held r2) \<and> clock_step now r r2"
  proof (cases "re_count r = 0")
    case True
    then have "held r = []" using assms(1) by (simp add: reorder_ok_def counted_def)
    then show ?thesis using True ok by (simp add: drainContiguous_def clock_step_def)
  next
    case False
    then show ?thesis
      using drain_loop_ok [of ?r1 "[]" "outLen - 1"] ok lens
      by (auto simp: drainContiguous_def clock_step_def Reorderer_GapStartedAt_def)
  qed
  then obtain r2 out where r2: "drainContiguous ?r1 (outLen - 1) = Some (r2, out)" "counted r2" "same_shape ?r1 r2"
    "mset (held r) = mset out + mset (held r2)" "distinct (map seq_of (held r2))"
    "map seq_of out = map (\<lambda>k. re_next ?r1 + of_nat k) [0..<length out]" "re_next r2 = re_next ?r1 + of_nat (length out)"
    "re_next r2 \<notin> seq_of ` set (held r2)" "clock_step now r r2" by blast
  let ?r3 = "if re_count r2 = 0 then r2\<lparr>re_gapStartedAt := 0\<rparr> else r2"
  have acc: "Reorderer_Accept r now p outLen = Some (?r3, Inr (StatusDelivered, p # out))"
    using assms(2-4) ok(3) r2(1) by (simp add: Reorderer_Accept_def Let_def)
  have r3: "re_next ?r3 = re_next r2" "held ?r3 = held r2" "counted ?r3 = counted r2" "re_config ?r3 = re_config r"
    "length (re_entries ?r3) = length (re_entries r)"
    using r2(3) by (simp_all add: counted_def same_shape_def)
  have ch: "chain (re_next r + 1) out" "after (re_next r + 1) out = re_next r2"
    using consecutive_chain [of out "re_next r + 1"] r2(6,7) by simp_all
  have "aheadOf (seq_of q) (re_next r2) \<and> matchesLane ?r3 q" if "q \<in> set (held r2)" for q
  proof -
    have q: "q \<in> set (held r)" using r2(4) that mem_subset_mset by blast
    have "distinct (map seq_of (out @ held r2))"
      using ok(2) r2(4) by (metis mset_append mset_map mset_eq_imp_distinct_iff)
    then have "seq_of q \<notin> set (map seq_of out)" using that by force
    then have out: "seq_of q \<noteq> re_next r + 1 + of_nat k" if "k < length out" for k
      unfolding r2(6) using that by auto
    have q': "seq_of q - re_next r < halfSequenceSpace" "seq_of q \<noteq> re_next r"
      using q assms(1) by (auto simp: reorder_ok_def aheadOf_def Let_def)
    have "seq_of q - (re_next r + 1) < halfSequenceSpace"
      using skip_delta [OF q'(1), of 1] q'(2) by simp
    then have "seq_of q - re_next r2 < halfSequenceSpace"
      using skip_delta [of "seq_of q" "re_next r + 1" halfSequenceSpace "length out"] out r2(7) by simp
    moreover have "seq_of q \<noteq> re_next r2" using r2(8) that by (metis image_eqI)
    moreover have "matchesLane ?r3 q" using q assms(1) r3(4) by (simp add: reorder_ok_def matchesLane_def)
    ultimately show ?thesis by (simp add: aheadOf_def Let_def)
  qed
  then have "reorder_ok ?r3" using assms(1) r2(2,5) r3 by (simp add: reorder_ok_def)
  moreover have "chain (re_next r) (p # out)" using ch assms(3) half_pos by simp
  moreover have "re_next ?r3 = after (re_next r) (p # out)" using ch(2) assms(3) r3(1) by simp
  ultimately have "reorder_step r [p] ?r3 (p # out)"
    using r2(4) r3 by (simp add: reorder_step_def)
  moreover have "map seq_of out = map (\<lambda>k. (re_next r + 1) + of_nat k) [0..<length out]" using r2(6) by simp
  moreover have "clock_step now r ?r3"
    using r2(2,9) by (auto simp: clock_step_def Reorderer_GapStartedAt_def counted_def)
  ultimately show ?thesis using acc by blast
qed

lemma insert_fields:
  "re_config (Reorderer_insert r p) = re_config r" "re_next (Reorderer_insert r p) = re_next r"
  "re_gapStartedAt (Reorderer_insert r p) = re_gapStartedAt r"
  by (simp_all add: Reorderer_insert_def split: option.split)

lemma accept_queued:
  assumes "reorder_ok r" and "matchesLane r p" and "aheadOf (seq_of p) (re_next r)" and "\<not> Reorderer_contains r (seq_of p)"
    and "re_count r \<noteq> int (length (re_entries r))"
  defines "r1 \<equiv> Reorderer_insert r p"
  shows "reorder_step r [p] (if re_count r1 = 1 then r1\<lparr>re_gapStartedAt := now\<rparr> else r1) []"
    and "clock_step now r (if re_count r1 = 1 then r1\<lparr>re_gapStartedAt := now\<rparr> else r1)"
proof -
  have "used_entries (re_entries r) \<le> length (re_entries r)" by (simp add: used_entries_def)
  then have "used_entries (re_entries r) < length (re_entries r)"
    using assms(1,5) by (auto simp: reorder_ok_def counted_def length_held)
  then obtain xs ys where xy: "held r = xs @ ys" "held r1 = xs @ p # ys" "re_count r1 = re_count r + 1"
    "length (re_entries r1) = length (re_entries r)"
    unfolding r1_def by (rule held_insert)
  have "reorder_ok r1"
    using assms(1-4) xy insert_fields [of r p]
    by (auto simp: reorder_ok_def counted_def contains_iff r1_def matchesLane_def)
  then have "reorder_ok (r1\<lparr>re_gapStartedAt := now\<rparr>)"
    by (simp add: reorder_ok_def counted_def matchesLane_def)
  with \<open>reorder_ok r1\<close> show "reorder_step r [p] (if re_count r1 = 1 then r1\<lparr>re_gapStartedAt := now\<rparr> else r1) []"
    using xy insert_fields [of r p] by (simp add: reorder_step_def r1_def)
  have "re_count r = int (length (held r))" using assms(1) by (simp add: reorder_ok_def counted_def)
  then have first: "re_count r1 = 1 \<longleftrightarrow> held r = []" using xy(3) by simp
  show "clock_step now r (if re_count r1 = 1 then r1\<lparr>re_gapStartedAt := now\<rparr> else r1)"
    using first insert_fields(3) [of r p] by (simp add: clock_step_def Reorderer_GapStartedAt_def r1_def)
qed

text \<open>The status tells what happened to the packet; it was taken in unless it was late or a duplicate.\<close>

definition accept_status :: "Reorderer \<Rightarrow> Packet \<Rightarrow> ReorderStatus" where
  "accept_status r p =
     (if seq_of p = re_next r then StatusDelivered
      else if \<not> aheadOf (seq_of p) (re_next r) then StatusLate
      else if seq_of p \<in> seq_of ` set (held r) then ro_StatusDuplicate
      else if length (held r) = length (re_entries r) then StatusFlushed
      else StatusQueued)"

definition taken_in :: "ReorderStatus \<Rightarrow> Packet \<Rightarrow> Packet list" where
  "taken_in st p = (if st = StatusLate \<or> st = ro_StatusDuplicate then [] else [p])"

lemma Accept_ok:
  assumes "reorder_ok r" and "length (re_entries r) < outLen" and "matchesLane r p"
  shows "\<exists>r' out. Reorderer_Accept r now p outLen = Some (r', Inr (accept_status r p, out)) \<and>
    reorder_step r (taken_in (accept_status r p) p) r' out \<and> (accept_status r p = StatusQueued \<longrightarrow> out = []) \<and> clock_step now r r'"
proof -
  have cnt: "re_count r = int (length (held r))" and en: "ro_Enabled (re_config r)" and lens: "\<not> outLen < length (re_entries r) + 1"
    using assms(1,2) by (simp_all add: reorder_ok_def counted_def)
  note unfold = Reorderer_Accept_def [of r now p outLen]
  show ?thesis
  proof (cases "seq_of p = re_next r")
    case True
    then show ?thesis using accept_in_order [OF assms(1,2) True assms(3), of now] by (auto simp: accept_status_def taken_in_def)
  next
    case ne: False
    show ?thesis
    proof (cases "aheadOf (seq_of p) (re_next r) \<and> \<not> Reorderer_contains r (seq_of p)")
      case False
      then show ?thesis
        using ne assms(3) en lens reorder_step_refl [OF assms(1)] clock_step_refl
        by (auto simp: unfold accept_status_def taken_in_def contains_iff)
    next
      case True
      then have lt: "seq_of p - re_next r < halfSequenceSpace" by (simp add: aheadOf_def Let_def)
      show ?thesis
      proof (cases "length (held r) = length (re_entries r)")
        case full: True
        then have "accept_status r p = StatusFlushed" using ne True by (simp add: accept_status_def contains_iff)
        then show ?thesis
          using flushIncluding_ok [OF assms(1,2) lt] True ne full assms(3) en lens cnt
          by (auto simp: unfold taken_in_def clock_step_empty)
      next
        case room: False
        then have "accept_status r p = StatusQueued" using ne True by (simp add: accept_status_def contains_iff)
        then show ?thesis
          using accept_queued [OF assms(1,3), of now] True ne room assms(3) en lens cnt
          by (simp add: unfold taken_in_def Let_def)
      qed
    qed
  qed
qed

lemma Tick_ok:
  assumes "reorder_ok r" and "length (re_entries r) \<le> outLen"
  shows "\<exists>r' out. Reorderer_Tick r now outLen = Some (r', Inr out) \<and> reorder_step r [] r' out \<and>
    (held r' \<noteq> [] \<longrightarrow> r' = r \<and> now < re_gapStartedAt r + ro_MaxDelay (re_config r))"
proof (cases "re_count r = 0 \<or> now < re_gapStartedAt r + ro_MaxDelay (re_config r)")
  case True
  then show ?thesis
    using assms reorder_step_refl [OF assms(1)] by (auto simp: Reorderer_Tick_def reorder_ok_def counted_def)
next
  case False
  then show ?thesis
    using flush_ok [OF assms] assms by (auto simp: Reorderer_Tick_def reorder_ok_def)
qed

lemma Flush_ok:
  assumes "reorder_ok r" and "length (re_entries r) \<le> outLen"
  shows "\<exists>r' out. Reorderer_Flush r outLen = Some (r', Inr out) \<and> reorder_step r [] r' out \<and> held r' = []"
proof (cases "re_count r = 0")
  case True
  then show ?thesis
    using assms reorder_step_refl [OF assms(1)] by (auto simp: Reorderer_Flush_def reorder_ok_def counted_def)
next
  case False
  then show ?thesis
    using flush_ok [OF assms] assms by (auto simp: Reorderer_Flush_def reorder_ok_def)
qed

lemma New_reorder_ok:
  "NewReorderer cfg = Inr r \<Longrightarrow> ro_Enabled cfg \<Longrightarrow> reorder_ok r \<and> held r = [] \<and> re_next r = ro_NextSequence cfg \<and> re_config r = cfg"
  by (auto simp: NewReorderer_def reorder_ok_def counted_def held_def zero_entry_def split: if_splits)

lemma Reset_ok:
  assumes "reorder_ok r" and "length (held r) \<le> droppedLen"
  shows "\<exists>r'. Reorderer_Reset r n droppedLen = (r', Inr (held r)) \<and> reorder_ok r' \<and> held r' = [] \<and> re_next r' = n"
  using assms
  by (auto simp: Reorderer_Reset_def reorder_ok_def counted_def held_def zero_entry_def filter_map comp_def matchesLane_def)

subsection \<open>Runs\<close>

datatype reorder_op = RoAccept gotime Packet | RoTick gotime | RoFlush

text \<open>
  \<open>reorder_run r outLen ops\<close>: the final state, everything delivered, and the packets refused as late or
  duplicate.
\<close>

fun reorder_run :: "Reorderer \<Rightarrow> nat \<Rightarrow> reorder_op list \<Rightarrow> (Reorderer \<times> Packet list \<times> Packet list) option" where
  "reorder_run r outLen [] = Some (r, [], [])"
| "reorder_run r outLen (RoAccept now p # ops) =
     (case Reorderer_Accept r now p outLen of
        Some (r1, Inr (st, out)) \<Rightarrow>
          map_option (\<lambda>(r2, outs, refused). (r2, out @ outs, if taken_in st p = [] then p # refused else refused))
            (reorder_run r1 outLen ops)
      | _ \<Rightarrow> None)"
| "reorder_run r outLen (RoTick now # ops) =
     (case Reorderer_Tick r now outLen of
        Some (r1, Inr out) \<Rightarrow> map_option (\<lambda>(r2, outs, refused). (r2, out @ outs, refused)) (reorder_run r1 outLen ops)
      | _ \<Rightarrow> None)"
| "reorder_run r outLen (RoFlush # ops) =
     (case Reorderer_Flush r outLen of
        Some (r1, Inr out) \<Rightarrow> map_option (\<lambda>(r2, outs, refused). (r2, out @ outs, refused)) (reorder_run r1 outLen ops)
      | _ \<Rightarrow> None)"

fun offered :: "reorder_op list \<Rightarrow> Packet list" where
  "offered [] = []"
| "offered (RoAccept now p # ops) = p # offered ops"
| "offered (RoTick now # ops) = offered ops"
| "offered (RoFlush # ops) = offered ops"

definition run_ok :: "Reorderer \<Rightarrow> Packet list \<Rightarrow> Reorderer \<Rightarrow> Packet list \<Rightarrow> Packet list \<Rightarrow> bool" where
  "run_ok r ps r' outs refused \<longleftrightarrow>
     reorder_ok r' \<and> mset outs + mset (held r') + mset refused = mset (held r) + mset ps \<and>
     chain (re_next r) outs \<and> re_next r' = after (re_next r) outs"

lemma run_ok_step:
  assumes "reorder_step r gained r1 out" and "run_ok r1 ps r2 outs refused"
  shows "run_ok r (gained @ ps) r2 (out @ outs) refused"
  using assms by (auto simp: reorder_step_def run_ok_def ac_simps)

lemma run_ok_refused: "run_ok r ps r' outs refused \<Longrightarrow> run_ok r (p # ps) r' outs (p # refused)"
  by (simp add: run_ok_def)

lemma reorder_step_shape:
  assumes "reorder_step r g r1 out" and "reorder_ok r"
  shows "length (re_entries r1) = length (re_entries r)" and "matchesLane r1 p = matchesLane r p"
proof -
  have "int (length (re_entries r1)) = int (length (re_entries r))"
    using assms by (simp add: reorder_step_def reorder_ok_def)
  then show "length (re_entries r1) = length (re_entries r)" by simp
qed (use assms in \<open>simp add: reorder_step_def matchesLane_def\<close>)

lemma reorder_run_ok:
  assumes "reorder_ok r" and "length (re_entries r) < outLen" and "\<forall>p\<in>set (offered ops). matchesLane r p"
  shows "\<exists>r' outs refused. reorder_run r outLen ops = Some (r', outs, refused) \<and> run_ok r (offered ops) r' outs refused"
  using assms
proof (induction r outLen ops rule: reorder_run.induct)
  case (1 r outLen)
  then show ?case by (simp add: run_ok_def)
next
  case (2 r outLen now p ops)
  then obtain r1 out where r1: "Reorderer_Accept r now p outLen = Some (r1, Inr (accept_status r p, out))"
    "reorder_step r (taken_in (accept_status r p) p) r1 out"
    using Accept_ok [of r outLen p now] by auto
  obtain r2 outs refused where r2: "reorder_run r1 outLen ops = Some (r2, outs, refused)" "run_ok r1 (offered ops) r2 outs refused"
    using "2.IH" [OF r1(1) refl refl refl] "2.prems" reorder_step_shape [OF r1(2) "2.prems"(1)] r1(2)
    by (auto simp: reorder_step_def)
  show ?case
    using r1(1) r2(1) run_ok_step [OF r1(2) r2(2)] run_ok_refused [of r "offered ops" r2 "out @ outs" refused p]
    by (auto simp: taken_in_def split: if_splits)
next
  case (3 r outLen now ops)
  then obtain r1 out where r1: "Reorderer_Tick r now outLen = Some (r1, Inr out)" "reorder_step r [] r1 out"
    using Tick_ok [of r outLen now] by auto
  then show ?case
    using "3.IH" [OF r1(1) refl refl] "3.prems" reorder_step_shape [OF r1(2) "3.prems"(1)] run_ok_step [OF r1(2), of "offered ops"]
    by (fastforce simp: reorder_step_def)
next
  case (4 r outLen ops)
  then obtain r1 out where r1: "Reorderer_Flush r outLen = Some (r1, Inr out)" "reorder_step r [] r1 out"
    using Flush_ok [of r outLen] by auto
  then show ?case
    using "4.IH" [OF r1(1) refl refl] "4.prems" reorder_step_shape [OF r1(2) "4.prems"(1)] run_ok_step [OF r1(2), of "offered ops"]
    by (fastforce simp: reorder_step_def)
qed

end
