(* ===== verification/ReorderRun.thy ===== *)
theory ReorderRun
  imports Reorder
begin

text \<open>
  What the reorderer guarantees: delivery in sequence order without loss or duplication on every run,
  complete restoration of order within its window, and a bounded wait.
\<close>

definition off :: "u32 \<Rightarrow> nat \<Rightarrow> u32" where
  "off n k = n + of_nat k"

lemma unat_of_nat_u32: "k < 2 ^ 32 \<Longrightarrow> unat (of_nat k :: u32) = k"
  by (simp add: unat_of_nat take_bit_eq_mod)

lemma off_eq_iff: "k < 2 ^ 32 \<Longrightarrow> l < 2 ^ 32 \<Longrightarrow> off n k = off n l \<longleftrightarrow> k = l"
  unfolding off_def add_left_cancel by (metis unat_of_nat_u32)

lemma off_add: "off (off n j) k = off n (j + k)"
  by (simp add: off_def)

lemma off_delta: "m \<le> k \<Longrightarrow> off n k - off n m = of_nat (k - m)"
  by (simp add: off_def of_nat_diff)

lemma inj_on_off: "inj_on (off n) {..<2 ^ 32}"
  by (rule inj_onI) (simp add: off_eq_iff)

text \<open>
  \<open>window r n m K H N\<close>: of the sequence numbers \<open>n .. n + N - 1\<close> the first \<open>m\<close> have been delivered, those
  with offset in \<open>H\<close> are held, those with offset in \<open>K\<close> are still to come.
\<close>

definition window :: "Reorderer \<Rightarrow> u32 \<Rightarrow> nat \<Rightarrow> nat set \<Rightarrow> nat set \<Rightarrow> nat \<Rightarrow> bool" where
  "window r n m K H N \<longleftrightarrow>
     reorder_ok r \<and> re_next r = off n m \<and> seq_of ` set (held r) = off n ` H \<and> length (held r) = card H \<and>
     K \<inter> H = {} \<and> K \<union> H = {m..<N} \<and> N \<le> Suc (length (re_entries r)) \<and> N \<le> 2 ^ 31"

lemma window_next:
  assumes "window r n m K H N"
  shows "m \<notin> H"
proof
  assume "m \<in> H"
  then have "off n m \<in> seq_of ` set (held r)" using assms by (simp add: window_def)
  then obtain q where "q \<in> set (held r)" "seq_of q = off n m" by (metis imageE)
  moreover have "re_next r = off n m" using assms by (simp add: window_def)
  ultimately show False using assms by (auto simp: window_def reorder_ok_def aheadOf_def Let_def)
qed

lemma window_delta:
  assumes "window r n m K H N" and "k \<in> {m..<N}"
  shows "unat (off n k - re_next r) = k - m"
proof -
  have "off n k - re_next r = of_nat (k - m)" using assms by (simp only: window_def) (simp add: off_delta)
  moreover have "k - m < 2 ^ 32" using assms by (auto simp: window_def)
  ultimately show ?thesis by (simp only: unat_of_nat_u32)
qed

lemma window_queue:
  assumes "window r n m K H N" and "k \<in> K" and "k \<noteq> m" and "seq_of p = off n k" and "matchesLane r p" and "length (re_entries r) < outLen"
  shows "\<exists>r'. Reorderer_Accept r now p outLen = Some (r', Inr (StatusQueued, [])) \<and> window r' n m (K - {k}) (insert k H) N \<and>
    re_config r' = re_config r \<and> length (re_entries r') = length (re_entries r)"
proof -
  note w = assms(1) [unfolded window_def]
  have ok: "reorder_ok r" and nxt: "re_next r = off n m" and hs: "seq_of ` set (held r) = off n ` H"
    and card: "length (held r) = card H" and part: "K \<inter> H = {}" "K \<union> H = {m..<N}" and N: "N \<le> Suc (length (re_entries r))" "N \<le> 2 ^ 31"
    using w by auto
  have k: "m < k" "k < N" "k \<notin> H" using assms(2,3) part by auto (metis UnI1 assms(3) atLeastLessThan_iff le_neq_implies_less)+
  have "H \<subseteq> {m..<N}" using part(2) by blast
  then have fin: "finite H" "H \<subseteq> {..<2 ^ 32}" using N(2) by (auto intro: finite_subset)
  have "m \<notin> H" by (rule window_next [OF assms(1)])
  have "insert k (insert m H) \<subseteq> {m..<N}" using k part(2) by auto
  then have "card (insert k (insert m H)) \<le> N - m" by (metis card_atLeastLessThan card_mono finite_atLeastLessThan)
  then have room: "length (held r) < length (re_entries r)"
    using card fin(1) k \<open>m \<notin> H\<close> N(1) by simp
  have fresh: "seq_of p \<notin> seq_of ` set (held r)"
    unfolding hs assms(4) using k(3) inj_on_off [of n] fin(2) k(2) N(2) by (auto simp: off_eq_iff)
  have "unat (seq_of p - re_next r) = k - m" using window_delta [OF assms(1), of k] k assms(4) by simp
  moreover have "unat halfSequenceSpace = 2 ^ 31" by code_simp
  ultimately have ahead: "aheadOf (seq_of p) (re_next r)" "seq_of p \<noteq> re_next r"
    using k N(2) by (auto simp: aheadOf_def Let_def word_less_nat_alt unat_eq_0)
  have st: "accept_status r p = StatusQueued" using ahead fresh room by (simp add: accept_status_def)
  obtain r' where r': "Reorderer_Accept r now p outLen = Some (r', Inr (StatusQueued, []))" "reorder_step r [p] r' []"
    using Accept_ok [OF ok assms(6,5), of now] st by (auto simp: taken_in_def)
  have held: "mset (held r') = mset (p # held r)" using r'(2) by (simp add: reorder_step_def)
  then have "set (held r') = set (p # held r)" "length (held r') = length (p # held r)" by (metis mset_eq_setD, metis mset_eq_length)
  then have "seq_of ` set (held r') = off n ` insert k H" "length (held r') = card (insert k H)"
    using hs assms(4) card fin k by simp_all
  moreover have "(K - {k}) \<union> insert k H = {m..<N}" "(K - {k}) \<inter> insert k H = {}" using part assms(2) by auto
  ultimately have "window r' n m (K - {k}) (insert k H) N"
    using r'(2) nxt N reorder_step_shape(1) [OF r'(2) ok] by (simp add: window_def reorder_step_def)
  then show ?thesis using r' reorder_step_shape(1) [OF r'(2) ok] by (simp add: reorder_step_def)
qed


lemma window_deliver:
  assumes "window r n m K H N" and "m \<in> K" and "seq_of p = off n m" and "matchesLane r p" and "length (re_entries r) < outLen"
  shows "\<exists>r' out j. Reorderer_Accept r now p outLen = Some (r', Inr (StatusDelivered, p # out)) \<and>
    map seq_of (p # out) = map (off n) [m..<j] \<and> m < j \<and> j \<le> N \<and> window r' n j (K - {m}) (H - {m..<j}) N \<and>
    re_config r' = re_config r \<and> length (re_entries r') = length (re_entries r)"
proof -
  note w = assms(1) [unfolded window_def]
  have ok: "reorder_ok r" and nxt: "re_next r = off n m" and hs: "seq_of ` set (held r) = off n ` H"
    and card: "length (held r) = card H" and part: "K \<inter> H = {}" "K \<union> H = {m..<N}" and N: "N \<le> Suc (length (re_entries r))" "N \<le> 2 ^ 31"
    using w by auto
  have H: "H \<subseteq> {Suc m..<N}"
  proof
    fix x assume "x \<in> H"
    then have "x \<in> {m..<N}" "x \<noteq> m" using part(2) window_next [OF assms(1)] by blast+
    then show "x \<in> {Suc m..<N}" by simp
  qed
  then have fin: "finite H" by (rule finite_subset) simp
  obtain r' out where r': "Reorderer_Accept r now p outLen = Some (r', Inr (StatusDelivered, p # out))" "reorder_step r [p] r' (p # out)"
    "map seq_of out = map (\<lambda>k. (re_next r + 1) + of_nat k) [0..<length out]"
    using accept_in_order [OF ok assms(5) _ assms(4), of now] assms(3) nxt by auto
  define j where "j = Suc m + length out"
  have "map (\<lambda>k. (re_next r + 1) + of_nat k) [0..<length out] = map (off n) (map (\<lambda>k. k + Suc m) [0..<length out])"
    by (simp add: nxt off_def algebra_simps)
  moreover have "map (\<lambda>k. k + Suc m) [0..<length out] = [Suc m..<j]"
    unfolding map_add_upt j_def by (simp only: add.commute)
  ultimately have seqs: "map seq_of out = map (off n) [Suc m..<j]" using r'(3) by metis
  have held: "mset (held r) = mset out + mset (held r')" using r'(2) by (simp add: reorder_step_def)
  have "length (held r) = length out + length (held r')" using arg_cong [OF held, of size] by simp
  moreover have "card H \<le> N - Suc m" using card_mono [OF _ H] by simp
  moreover have "m < N" using assms(2) part(2) by auto
  ultimately have j: "m < j" "j \<le> N" using card by (auto simp: j_def)
  have sub: "{Suc m..<j} \<subseteq> H"
  proof
    fix k assume k: "k \<in> {Suc m..<j}"
    then have "off n k \<in> seq_of ` set out" using arg_cong [OF seqs, of set] by simp
    moreover have "set out \<subseteq> set (held r)" using held mem_subset_mset [of "held r" "held r'" out] by (simp add: add.commute)
    ultimately have "off n k \<in> off n ` H" using hs by blast
    then obtain l where l: "l \<in> H" "off n k = off n l" by blast
    then have "k = l" using off_eq_iff [of k l n] k j(2) H N(2) by auto
    then show "k \<in> H" using l by simp
  qed
  have dist: "distinct (map seq_of (out @ held r'))"
    using ok held by (metis mset_append mset_map mset_eq_imp_distinct_iff reorder_ok_def)
  have "seq_of ` set (held r) = seq_of ` set out \<union> seq_of ` set (held r')"
    using arg_cong [OF held, of set_mset] by (simp add: image_Un)
  then have "seq_of ` set (held r') = off n ` H - seq_of ` set out" using hs dist by auto
  also have "seq_of ` set out = off n ` {Suc m..<j}" using arg_cong [OF seqs, of set] by simp
  also have "off n ` H - off n ` {Suc m..<j} = off n ` (H - {Suc m..<j})"
    by (rule inj_on_image_set_diff [OF inj_on_off, symmetric]) (use H N(2) j(2) in auto)
  also have "H - {Suc m..<j} = H - {m..<j}" using H by auto
  finally have hs': "seq_of ` set (held r') = off n ` (H - {m..<j})" .
  have "length (held r') = card (H - {m..<j})"
  proof -
    have "card (H - {Suc m..<j}) = card H - (j - Suc m)" using card_Diff_subset [OF _ sub] by simp
    moreover have "H - {Suc m..<j} = H - {m..<j}" using H by auto
    ultimately show ?thesis using \<open>length (held r) = length out + length (held r')\<close> card by (simp add: j_def)
  qed
  moreover have "re_next r' = off n j"
    using r'(2) consecutive_chain [OF r'(3)] assms(3) by (simp add: reorder_step_def nxt off_def j_def algebra_simps)
  moreover have "(K - {m}) \<union> (H - {m..<j}) = {j..<N}"
  proof (rule set_eqI)
    fix x
    have "x \<in> K \<or> x \<in> H \<longleftrightarrow> m \<le> x \<and> x < N" using part(2) by (metis Un_iff atLeastLessThan_iff)
    moreover have "Suc m \<le> x \<Longrightarrow> x < j \<Longrightarrow> x \<in> H" using sub by auto
    moreover have "\<not> (x \<in> K \<and> x \<in> H)" using part(1) by blast
    ultimately show "x \<in> (K - {m}) \<union> (H - {m..<j}) \<longleftrightarrow> x \<in> {j..<N}"
      using j by (cases "x = m"; cases "x < j") auto
  qed
  moreover have "(K - {m}) \<inter> (H - {m..<j}) = {}" using part(1) by blast
  ultimately have "window r' n j (K - {m}) (H - {m..<j}) N"
    using hs' r'(2) N reorder_step_shape(1) [OF r'(2) ok] by (simp add: window_def reorder_step_def)
  moreover have "map seq_of (p # out) = map (off n) [m..<j]" using seqs assms(3) j(1) by (simp add: upt_conv_Cons)
  ultimately show ?thesis
    using r'(1,2) j reorder_step_shape(1) [OF r'(2) ok] by (auto simp: reorder_step_def)
qed


lemma window_run:
  assumes "window r n m (set ks) H N" and "distinct ks" and "map seq_of ps = map (off n) ks" and "length ts = length ps"
    and "\<forall>p\<in>set ps. matchesLane r p" and "length (re_entries r) < outLen"
  shows "\<exists>r' outs. reorder_run r outLen (map2 RoAccept ts ps) = Some (r', outs, []) \<and> map seq_of outs = map (off n) [m..<N] \<and> held r' = []"
  using assms
proof (induction ps arbitrary: r m ks H ts)
  case Nil
  then have w: "window r n m {} H N" by simp
  then have "H = {m..<N}" "length (held r) = card H" by (simp_all add: window_def)
  moreover from this have "N \<le> m" using window_next [OF w] by auto
  ultimately show ?case by simp
next
  case (Cons p ps)
  obtain k ks' where ks: "ks = k # ks'" "seq_of p = off n k" "map seq_of ps = map (off n) ks'" using Cons.prems(3) by (cases ks) auto
  obtain t ts' where ts: "ts = t # ts'" "length ts' = length ps" using Cons.prems(4) by (cases ts) auto
  have k: "set ks - {k} = set ks'" "distinct ks'" "k \<in> set ks" using Cons.prems(2) ks(1) by auto
  have lane: "matchesLane r p" "\<forall>p\<in>set ps. matchesLane r p" using Cons.prems(5) by simp_all
  show ?case
  proof (cases "k = m")
    case False
    then obtain r1 where r1: "Reorderer_Accept r t p outLen = Some (r1, Inr (StatusQueued, []))"
      "window r1 n m (set ks') (insert k H) N" "re_config r1 = re_config r" "length (re_entries r1) = length (re_entries r)"
      using window_queue [OF Cons.prems(1) k(3) False ks(2) lane(1) Cons.prems(6), of t] k(1) by auto
    have "\<forall>p\<in>set ps. matchesLane r1 p" using lane(2) r1(3) by (simp add: matchesLane_def)
    with Cons.IH [OF r1(2) k(2) ks(3) ts(2)] Cons.prems(6) r1(1,4) ts(1) show ?thesis by (auto simp: taken_in_def)
  next
    case True
    then have m: "m \<in> set ks" "seq_of p = off n m" "set ks - {m} = set ks'" using k ks(2) by simp_all
    obtain r1 out j where r1: "Reorderer_Accept r t p outLen = Some (r1, Inr (StatusDelivered, p # out))"
      "map seq_of (p # out) = map (off n) [m..<j]" "m < j" "j \<le> N" "window r1 n j (set ks') (H - {m..<j}) N"
      "re_config r1 = re_config r" "length (re_entries r1) = length (re_entries r)"
      using window_deliver [OF Cons.prems(1) m(1,2) lane(1) Cons.prems(6), of t] unfolding m(3) by blast
    have "\<forall>p\<in>set ps. matchesLane r1 p" using lane(2) r1(6) by (simp add: matchesLane_def)
    then obtain r' outs where r': "reorder_run r1 outLen (map2 RoAccept ts' ps) = Some (r', outs, [])"
      "map seq_of outs = map (off n) [j..<N]" "held r' = []"
      using Cons.IH [OF r1(5) k(2) ks(3) ts(2)] Cons.prems(6) r1(7) by auto
    have "[m..<N] = [m..<j] @ [j..<N]" using upt_add_eq_append [of m j "N - j"] r1(3,4) by simp
    then have "map seq_of ((p # out) @ outs) = map (off n) [m..<N]" by (simp only: map_append r1(2) r'(2))
    then show ?thesis using r1(1) r' ts(1) by (simp add: taken_in_def)
  qed
qed

lemma offered_accepts: "length ts = length ps \<Longrightarrow> offered (map2 RoAccept ts ps) = ps"
  by (induction ts ps rule: list_induct2) auto

lemma offsets_exist:
  assumes "mset (map seq_of ps) = mset (map (off n) [0..<length ps])" and "length ps \<le> 2 ^ 32"
  obtains ks where "map seq_of ps = map (off n) ks" and "distinct ks" and "set ks = {0..<length ps}"
proof -
  let ?u = "\<lambda>x. unat (x - n)"
  let ?ks = "map ?u (map seq_of ps)"
  have off: "off n (?u x) = x" for x by (simp add: off_def)
  have "mset ?ks = image_mset ?u (mset (map (off n) [0..<length ps]))" using assms(1) by (simp only: mset_map)
  also have "\<dots> = mset (map (\<lambda>k. ?u (off n k)) [0..<length ps])" by (simp add: multiset.map_comp comp_def)
  also have "map (\<lambda>k. ?u (off n k)) [0..<length ps] = [0..<length ps]"
    using assms(2) by (intro map_idI) (auto simp: off_def unat_of_nat_u32)
  finally have "mset ?ks = mset [0..<length ps]" .
  then have "distinct ?ks" "set ?ks = {0..<length ps}"
    by (metis mset_eq_imp_distinct_iff distinct_upt, metis mset_eq_setD set_upt)
  moreover have "map seq_of ps = map (off n) ?ks" by (simp add: off)
  ultimately show thesis by (rule that [rotated 1])
qed

subsection \<open>Properties\<close>

text \<open>
  C4.  On any run of a new reorderer - any packets of its lane, ticks and flushes in any order - every
  operation returns, no packet is lost or duplicated: it is delivered, still held, or was refused as late or
  duplicate; and what is delivered, over the whole run, is in serial number order from the initial sequence
  number, across the wrap-around at \<open>2 ^ 32\<close>.
\<close>

theorem reorder_run_in_order:
  assumes "NewReorderer cfg = Inr r" and "ro_Enabled cfg" and "ro_Capacity cfg < int outLen"
    and "\<forall>p\<in>set (offered ops). matchesLane r p"
  shows "\<exists>r' outs refused. reorder_run r outLen ops = Some (r', outs, refused) \<and>
    mset outs + mset (held r') + mset refused = mset (offered ops) \<and>
    chain (ro_NextSequence cfg) outs \<and> re_next r' = after (ro_NextSequence cfg) outs"
proof -
  have r: "reorder_ok r" "held r = []" "re_next r = ro_NextSequence cfg" "re_config r = cfg"
    using New_reorder_ok [OF assms(1,2)] by auto
  then have "length (re_entries r) < outLen" using assms(3) by (simp add: reorder_ok_def)
  from reorder_run_ok [OF r(1) this assms(4)] show ?thesis using r by (auto simp: run_ok_def)
qed

definition sample_lane_packet :: "u32 \<Rightarrow> Packet" where
  "sample_lane_packet s = \<lparr>pk_Handle = \<lparr>sh_index = 0, sh_generation = 1\<rparr>,
     pk_Key = \<lparr>k_PeerID = 1, k_DataSessionID = 9, k_LaneID = 3, k_LaneSequence = s\<rparr>, pk_Data = [1]\<rparr>"

definition sample_reorder_config :: ReorderConfig where
  "sample_reorder_config = \<lparr>ro_Enabled = True, ro_Capacity = 2, ro_MaxDelay = 10,
     ro_Lane = \<lparr>ln_PeerID = 1, ln_DataSessionID = 9, ln_LaneID = 3\<rparr>, ro_NextSequence = - 1\<rparr>"

definition sample_reorderer :: Reorderer where
  "sample_reorderer = projr (NewReorderer sample_reorder_config)"

lemma sample_reorderer_new: "NewReorderer sample_reorder_config = Inr sample_reorderer"
proof -
  have "\<not> isl (NewReorderer sample_reorder_config)" by code_simp
  then show ?thesis by (simp add: sample_reorderer_def)
qed

lemma sample_reorder_config_simps [simp]:
  "ro_Enabled sample_reorder_config" "ro_Capacity sample_reorder_config = 2" "ro_NextSequence sample_reorder_config = - 1"
  by (simp_all add: sample_reorder_config_def)

lemma sample_lane: "matchesLane sample_reorderer (sample_lane_packet s)"
  using New_reorder_ok [OF sample_reorderer_new]
  by (simp add: matchesLane_def sample_lane_packet_def sample_reorder_config_def)

theorem reorder_run_in_order_witness:
  "\<exists>r' outs refused. reorder_run sample_reorderer 3
       [RoAccept 5 (sample_lane_packet 1), RoAccept 6 (sample_lane_packet 0), RoTick 20, RoAccept 21 (sample_lane_packet (- 1))] =
     Some (r', outs, refused) \<and> chain (- 1) outs"
  using reorder_run_in_order [OF sample_reorderer_new, of 3
      "[RoAccept 5 (sample_lane_packet 1), RoAccept 6 (sample_lane_packet 0), RoTick 20, RoAccept 21 (sample_lane_packet (- 1))]"]
    sample_lane by auto

text \<open>
  C28.  The reorderer restores the order: if the packets with the next \<open>n\<close> sequence numbers arrive, each
  once and in any order, and \<open>n\<close> is at most the capacity plus one, then none is refused, all are delivered
  in exactly the order of their sequence numbers, and nothing stays behind.
\<close>

theorem reorder_restores_order:
  assumes "NewReorderer cfg = Inr r" and "ro_Enabled cfg" and "ro_Capacity cfg < int outLen"
    and "\<forall>p\<in>set ps. matchesLane r p" and "int (length ps) \<le> ro_Capacity cfg + 1" and "length ts = length ps"
    and "mset (map seq_of ps) = mset (map (\<lambda>k. ro_NextSequence cfg + of_nat k) [0..<length ps])"
  shows "\<exists>r' outs. reorder_run r outLen (map2 RoAccept ts ps) = Some (r', outs, []) \<and> mset outs = mset ps \<and>
    map seq_of outs = map (\<lambda>k. ro_NextSequence cfg + of_nat k) [0..<length ps] \<and> held r' = []"
proof -
  let ?n = "ro_NextSequence cfg"
  have r: "reorder_ok r" "held r = []" "re_next r = ?n" "re_config r = cfg"
    using New_reorder_ok [OF assms(1,2)] by auto
  have "uint halfSequenceSpace = 2 ^ 31" by code_simp
  then have cap: "ro_Capacity cfg < 2 ^ 31" "int (length (re_entries r)) = ro_Capacity cfg"
    using assms(1,2) r(1,4) by (auto simp: NewReorderer_def reorder_ok_def split: if_splits)
  have fold: "(\<lambda>k. ?n + of_nat k) = off ?n" by (simp add: off_def fun_eq_iff)
  have offs: "mset (map seq_of ps) = mset (map (off ?n) [0..<length ps])" using assms(7) by (simp only: fold)
  have lens: "length ps \<le> 2 ^ 31" using assms(5) cap(1) by simp
  then have "length ps \<le> 2 ^ 32" by simp
  then obtain ks where ks: "map seq_of ps = map (off ?n) ks" "distinct ks" "set ks = {0..<length ps}"
    by (rule offsets_exist [OF offs])
  have "window r ?n 0 (set ks) {} (length ps)"
    using r ks(3) assms(5) cap lens by (simp add: window_def off_def)
  moreover have len: "length (re_entries r) < outLen" using cap(2) assms(3) by linarith
  ultimately obtain r' outs where run: "reorder_run r outLen (map2 RoAccept ts ps) = Some (r', outs, [])"
    "map seq_of outs = map (off ?n) [0..<length ps]" "held r' = []"
    using window_run [of r ?n 0 ks "{}" "length ps" ps ts outLen] ks(1,2) assms(4,6) by auto
  have "run_ok r ps r' outs []"
    using reorder_run_ok [OF r(1) len, of "map2 RoAccept ts ps"] offered_accepts [OF assms(6)] assms(4) run(1) by auto
  then have "mset outs = mset ps" using r(2) run(3) by (simp add: run_ok_def)
  then show ?thesis unfolding fold using run by blast
qed

theorem reorder_restores_order_witness:
  "\<exists>r' outs. reorder_run sample_reorderer 3 (map2 RoAccept [1, 2, 3] [sample_lane_packet 1, sample_lane_packet 0, sample_lane_packet (- 1)]) =
       Some (r', outs, []) \<and> map seq_of outs = [- 1, 0, 1] \<and> held r' = []"
  using reorder_restores_order [OF sample_reorderer_new, of 3 "[sample_lane_packet 1, sample_lane_packet 0, sample_lane_packet (- 1)]" "[1, 2, 3]"]
    sample_lane by (auto simp: sample_lane_packet_def upt_rec)

subsection \<open>The gap clock\<close>

fun arrivals :: "reorder_op list \<Rightarrow> gotime list" where
  "arrivals [] = []"
| "arrivals (RoAccept t p # ops) = t # arrivals ops"
| "arrivals (RoTick t # ops) = arrivals ops"
| "arrivals (RoFlush # ops) = arrivals ops"

lemma Tick_clock: "reorder_ok r \<Longrightarrow> length (re_entries r) < outLen \<Longrightarrow> Reorderer_Tick r now outLen = Some (r', Inr out) \<Longrightarrow> clock_step t r r'"
  using Tick_ok [of r outLen now] by (cases "held r' = []") (auto simp: clock_step_def)

lemma Flush_clock: "reorder_ok r \<Longrightarrow> length (re_entries r) < outLen \<Longrightarrow> Reorderer_Flush r outLen = Some (r', Inr out) \<Longrightarrow> clock_step t r r'"
  using Flush_ok [of r outLen] by (auto simp: clock_step_empty)

text \<open>One operation of a run, with what it takes in.\<close>

lemma reorder_run_step:
  assumes "reorder_ok r" and "length (re_entries r) < outLen" and "\<forall>p\<in>set (offered (op # ops)). matchesLane r p"
  obtains r1 out gained refused where "reorder_step r gained r1 out" and "clock_step (hd (arrivals [op] @ [0])) r r1"
    and "length (re_entries r1) < outLen" and "\<forall>p\<in>set (offered ops). matchesLane r1 p"
    and "\<And>more. reorder_run r outLen (op # more) = map_option (\<lambda>(r2, outs, late). (r2, out @ outs, refused @ late)) (reorder_run r1 outLen more)"
    and "arrivals [op] = [] \<Longrightarrow> held r1 \<noteq> [] \<Longrightarrow> held r \<noteq> []"
proof -
  have lanes: "\<forall>p\<in>set (offered ops). matchesLane r p" using assms(3) by (cases op) auto
  have next_ok: "length (re_entries r1) < outLen" "\<forall>p\<in>set (offered ops). matchesLane r1 p" if "reorder_step r g r1 out" for g r1 out
    using reorder_step_shape [OF that assms(1)] assms(2) lanes by simp_all
  have none: "held r \<noteq> []" if "reorder_step r [] r1 out" "held r1 \<noteq> []" for r1 out
    using that by (auto simp: reorder_step_def)
  show thesis
  proof (cases op)
    case (RoAccept t p)
    then obtain r1 out where a: "Reorderer_Accept r t p outLen = Some (r1, Inr (accept_status r p, out))"
      "reorder_step r (taken_in (accept_status r p) p) r1 out" "clock_step t r r1"
      using Accept_ok [OF assms(1,2), of p t] assms(3) by auto
    show thesis
      by (rule that [OF a(2) _ next_ok [OF a(2)], where refused = "if taken_in (accept_status r p) p = [] then [p] else []"])
         (use RoAccept a in \<open>auto simp: fun_eq_iff intro!: arg_cong [where f = "\<lambda>f. map_option f _"]\<close>)
  next
    case (RoTick t)
    then obtain r1 out where a: "Reorderer_Tick r t outLen = Some (r1, Inr out)" "reorder_step r [] r1 out"
      using Tick_ok [OF assms(1), of outLen t] assms(2) by auto
    show thesis
      by (rule that [OF a(2) _ next_ok [OF a(2)], where refused = "[]"])
         (use RoTick a Tick_clock [OF assms(1,2) a(1)] none [OF a(2)] in auto)
  next
    case RoFlush
    then obtain r1 out where a: "Reorderer_Flush r outLen = Some (r1, Inr out)" "reorder_step r [] r1 out"
      using Flush_ok [OF assms(1), of outLen] assms(2) by auto
    show thesis
      by (rule that [OF a(2) _ next_ok [OF a(2)], where refused = "[]"])
         (use RoFlush a Flush_clock [OF assms(1,2) a(1)] none [OF a(2)] in auto)
  qed
qed

lemma gap_arrival:
  assumes "reorder_ok r" and "length (re_entries r) < outLen" and "\<forall>p\<in>set (offered ops). matchesLane r p"
    and "reorder_run r outLen ops = Some (r', outs, refused)" and "held r' \<noteq> []"
  shows "Reorderer_GapStartedAt r' \<in> set (arrivals ops) \<or> held r \<noteq> [] \<and> Reorderer_GapStartedAt r' = Reorderer_GapStartedAt r"
  using assms
proof (induction ops arbitrary: r outs refused)
  case (Cons op ops)
  obtain r1 out gained late where s: "reorder_step r gained r1 out" "clock_step (hd (arrivals [op] @ [0])) r r1"
    "length (re_entries r1) < outLen" "\<forall>p\<in>set (offered ops). matchesLane r1 p"
    "\<And>more. reorder_run r outLen (op # more) = map_option (\<lambda>(r2, outs, xs). (r2, out @ outs, late @ xs)) (reorder_run r1 outLen more)"
    "arrivals [op] = [] \<Longrightarrow> held r1 \<noteq> [] \<Longrightarrow> held r \<noteq> []"
    by (rule reorder_run_step [OF Cons.prems(1-3)]) blast
  have "reorder_ok r1" using s(1) by (simp add: reorder_step_def)
  then have "Reorderer_GapStartedAt r' \<in> set (arrivals ops) \<or> held r1 \<noteq> [] \<and> Reorderer_GapStartedAt r' = Reorderer_GapStartedAt r1"
    using Cons.IH [of r1] s(3,4) Cons.prems(4,5) by (auto simp: s(5))
  moreover have "set (arrivals (op # ops)) = set (arrivals [op]) \<union> set (arrivals ops)" by (cases op) auto
  moreover have "held r1 \<noteq> [] \<Longrightarrow> Reorderer_GapStartedAt r1 \<in> set (arrivals [op]) \<or> held r \<noteq> [] \<and> Reorderer_GapStartedAt r1 = Reorderer_GapStartedAt r"
    using s(2,6) by (cases op) (auto simp: clock_step_def split: if_splits)
  ultimately show ?case by auto
qed simp

lemma run_shape:
  assumes "reorder_ok r" and "length (re_entries r) < outLen" and "\<forall>p\<in>set (offered ops). matchesLane r p"
    and "reorder_run r outLen ops = Some (r', outs, refused)"
  shows "re_config r' = re_config r \<and> length (re_entries r') = length (re_entries r)"
  using assms
proof (induction ops arbitrary: r outs refused)
  case (Cons op ops)
  obtain r1 out gained late where s: "reorder_step r gained r1 out" "length (re_entries r1) < outLen" "\<forall>p\<in>set (offered ops). matchesLane r1 p"
    "\<And>more. reorder_run r outLen (op # more) = map_option (\<lambda>(r2, outs, xs). (r2, out @ outs, late @ xs)) (reorder_run r1 outLen more)"
    by (rule reorder_run_step [OF Cons.prems(1-3)]) blast
  then show ?case
    using Cons.IH [of r1] Cons.prems(4) reorder_step_shape(1) [OF s(1) Cons.prems(1)] by (auto simp: s(4) reorder_step_def)
qed simp

lemma overdue_delivered:
  assumes "reorder_ok r" and "length (re_entries r) < outLen" and "\<forall>p\<in>set (offered ops). matchesLane r p"
    and "P \<subseteq># mset (held r)" and "P \<noteq> {#} \<Longrightarrow> Reorderer_GapStartedAt r + ro_MaxDelay (re_config r) \<le> now"
  shows "\<exists>r' outs refused. reorder_run r outLen (ops @ [RoTick now]) = Some (r', outs, refused) \<and> P \<subseteq># mset outs"
  using assms
proof (induction ops arbitrary: r P)
  case Nil
  obtain r' out where t: "Reorderer_Tick r now outLen = Some (r', Inr out)" "reorder_step r [] r' out"
    "held r' \<noteq> [] \<Longrightarrow> r' = r \<and> now < re_gapStartedAt r + ro_MaxDelay (re_config r)"
    using Tick_ok [OF Nil.prems(1), of outLen now] Nil.prems(2) by auto
  have "P \<subseteq># mset out"
  proof (cases "P = {#}")
    case False
    then have "held r' = []" using t(3) Nil.prems(5) by (force simp: Reorderer_GapStartedAt_def)
    then show ?thesis using t(2) Nil.prems(4) by (simp add: reorder_step_def)
  qed simp
  then show ?case using t(1) by simp
next
  case (Cons op ops)
  obtain r1 out gained late where s: "reorder_step r gained r1 out" "clock_step (hd (arrivals [op] @ [0])) r r1"
    "length (re_entries r1) < outLen" "\<forall>p\<in>set (offered ops). matchesLane r1 p"
    "\<And>more. reorder_run r outLen (op # more) = map_option (\<lambda>(r2, outs, xs). (r2, out @ outs, late @ xs)) (reorder_run r1 outLen more)"
    by (rule reorder_run_step [OF Cons.prems(1-3)]) blast
  have ok: "reorder_ok r1" "re_config r1 = re_config r" and eq: "mset out + mset (held r1) = mset (held r) + mset gained"
    using s(1) by (simp_all add: reorder_step_def)
  have sub: "P - mset out \<subseteq># mset (held r1)"
    unfolding subset_eq_diff_conv using subset_mset.order_trans [OF Cons.prems(4) mset_subset_eq_add_left [of _ "mset gained"]] eq
    by (simp add: add.commute)
  have "Reorderer_GapStartedAt r1 + ro_MaxDelay (re_config r1) \<le> now" if ne: "P - mset out \<noteq> {#}"
  proof -
    have "P \<noteq> {#}" using ne by auto
    then have "held r \<noteq> []" "held r1 \<noteq> []" using Cons.prems(4) sub ne by auto
    then show ?thesis using s(2) ok(2) Cons.prems(5) \<open>P \<noteq> {#}\<close> by (simp add: clock_step_def)
  qed
  from Cons.IH [OF ok(1) s(3,4) sub this] obtain r' outs refused
    where "reorder_run r1 outLen (ops @ [RoTick now]) = Some (r', outs, refused)" "P - mset out \<subseteq># mset outs" by blast
  then show ?case by (auto simp: s(5) subset_eq_diff_conv add.commute)
qed



end
