(* ===== verification/PeerRoute.thy ===== *)
theory PeerRoute
  imports Carrier
begin

text \<open>
  \<^verbatim>\<open>internal/core/peerroute\<close>: the AllowedIPs snapshot (\<^verbatim>\<open>allowedips.go\<close>), a binary trie per address
  family stored in one slice of nodes with child links \<open>index + 1\<close>, and the derivation of the hidden carrier
  addresses (\<^verbatim>\<open>carrier_address.go\<close>), in which the hash \<^verbatim>\<open>blake2s.Sum256\<close> is a parameter.
  Node indexes outside the slice would panic; \<open>trie_ok\<close> below shows that they never arise.
\<close>

type_synonym RoutePeer = u32

record AllowedIP =
  ai_Prefix :: prefix
  ai_PeerID :: RoutePeer

datatype allowedip_error =
    DuplicateAllowedIPError prefix nat nat RoutePeer RoutePeer
  | InvalidAllowedIPError nat prefix
  | ErrTooManyAllowedIPs nat

record routeNode =
  rn_children :: "u32 list"
  rn_peerID :: RoutePeer
  rn_hasPeer :: bool

record routeTrie =
  tr_nodes :: "routeNode list"

record Snapshot =
  sn_v4 :: routeTrie
  sn_v6 :: routeTrie
  sn_entries :: nat

definition zero_node :: routeNode where
  "zero_node = \<lparr>rn_children = [0, 0], rn_peerID = 0, rn_hasPeer = False\<rparr>"

definition addressBit4 :: "bytes \<Rightarrow> nat \<Rightarrow> byte" where
  "addressBit4 address depth = drop_bit (7 - depth mod 8) (address ! (depth div 8)) AND 1"

definition addressBit16 :: "bytes \<Rightarrow> nat \<Rightarrow> byte" where
  "addressBit16 address depth = drop_bit (7 - depth mod 8) (address ! (depth div 8)) AND 1"

text \<open>\<open>None\<close> is \<^verbatim>\<open>ErrTooManyAllowedIPs\<close>.\<close>

definition trie_child :: "routeTrie \<Rightarrow> u32 \<Rightarrow> byte \<Rightarrow> (routeTrie \<times> u32) option" where
  "trie_child t parent bt =
     (let encoded = rn_children (tr_nodes t ! unat parent) ! unat bt in
      if encoded \<noteq> 0 then Some (t, encoded - 1)
      else if length (tr_nodes t) \<ge> 2 ^ 32 - 1 then None
      else
        (let index = of_nat (length (tr_nodes t));
             nodes = tr_nodes t @ [zero_node];
             node = nodes ! unat parent
         in Some (\<lparr>tr_nodes = nodes[unat parent := node\<lparr>rn_children := (rn_children node)[unat bt := index + 1]\<rparr>]\<rparr>, index)))"

text \<open>The loop of \<^verbatim>\<open>insert\<close> over the bits of the prefix.\<close>

fun insert_path :: "routeTrie \<Rightarrow> u32 \<Rightarrow> byte list \<Rightarrow> (routeTrie \<times> u32) option" where
  "insert_path t nodeIndex [] = Some (t, nodeIndex)"
| "insert_path t nodeIndex (b # bs) =
     (case trie_child t nodeIndex b of
        None \<Rightarrow> None
      | Some (t1, child) \<Rightarrow> insert_path t1 child bs)"

definition trie_insert :: "routeTrie \<Rightarrow> prefix \<Rightarrow> RoutePeer \<Rightarrow> routeTrie option" where
  "trie_insert t prefix peer =
     (let address = px_Addr prefix;
          bits = (if Is4 address then map (addressBit4 (As4 address)) [0..<nat (px_Bits prefix)]
                  else map (addressBit16 (As16 address)) [0..<nat (px_Bits prefix)])
      in
      case insert_path t 0 bits of
        None \<Rightarrow> None
      | Some (t1, nodeIndex) \<Rightarrow>
          Some \<lparr>tr_nodes = (tr_nodes t1)[unat nodeIndex :=
                  (tr_nodes t1 ! unat nodeIndex)\<lparr>rn_peerID := peer, rn_hasPeer := True\<rparr>]\<rparr>)"

text \<open>The loop of \<^verbatim>\<open>lookup4\<close> and \<^verbatim>\<open>lookup6\<close> over the bits of the address.\<close>

fun lookup_path :: "routeTrie \<Rightarrow> u32 \<Rightarrow> RoutePeer \<Rightarrow> bool \<Rightarrow> byte list \<Rightarrow> RoutePeer \<times> bool" where
  "lookup_path t nodeIndex bestPeer found [] = (bestPeer, found)"
| "lookup_path t nodeIndex bestPeer found (b # bs) =
     (let encoded = rn_children (tr_nodes t ! unat nodeIndex) ! unat b in
      if encoded = 0 then (bestPeer, found)
      else
        (let node = tr_nodes t ! unat (encoded - 1) in
         if rn_hasPeer node then lookup_path t (encoded - 1) (rn_peerID node) True bs
         else lookup_path t (encoded - 1) bestPeer found bs))"

definition lookup4 :: "routeTrie \<Rightarrow> bytes \<Rightarrow> RoutePeer \<times> bool" where
  "lookup4 t address =
     (if tr_nodes t = [] then (0, False)
      else lookup_path t 0 (rn_peerID (tr_nodes t ! 0)) (rn_hasPeer (tr_nodes t ! 0)) (map (addressBit4 address) [0..<32]))"

definition lookup6 :: "routeTrie \<Rightarrow> bytes \<Rightarrow> RoutePeer \<times> bool" where
  "lookup6 t address =
     (if tr_nodes t = [] then (0, False)
      else lookup_path t 0 (rn_peerID (tr_nodes t ! 0)) (rn_hasPeer (tr_nodes t ! 0)) (map (addressBit16 address) [0..<128]))"

definition validAllowedPrefix :: "prefix \<Rightarrow> bool" where
  "validAllowedPrefix prefix =
     (prefix_IsValid prefix \<and> addr_IsValid (px_Addr prefix) \<and> Zone (px_Addr prefix) = [] \<and> \<not> Is4In6 (px_Addr prefix))"

definition validLookupAddress :: "addr \<Rightarrow> bool" where
  "validLookupAddress address = (addr_IsValid address \<and> Zone address = [] \<and> \<not> Is4In6 address)"

text \<open>The loop of \<^verbatim>\<open>NewSnapshot\<close> from entry \<open>index\<close> on; \<open>seen\<close> is its map of normalized prefixes.\<close>

fun snapshot_loop ::
    "Snapshot \<Rightarrow> (prefix \<rightharpoonup> nat \<times> RoutePeer) \<Rightarrow> nat \<Rightarrow> AllowedIP list \<Rightarrow> allowedip_error + Snapshot" where
  "snapshot_loop s seen index [] = Inr s"
| "snapshot_loop s seen index (entry # rest) =
     (if \<not> validAllowedPrefix (ai_Prefix entry) then Inl (InvalidAllowedIPError index (ai_Prefix entry))
      else
        (let prefix = Masked (ai_Prefix entry) in
         case seen prefix of
           Some (firstIndex, firstPeer) \<Rightarrow>
             Inl (DuplicateAllowedIPError prefix firstIndex index firstPeer (ai_PeerID entry))
         | None \<Rightarrow>
             (let seen1 = seen(prefix \<mapsto> (index, ai_PeerID entry)) in
              if Is4 (px_Addr prefix) then
                (case trie_insert (sn_v4 s) prefix (ai_PeerID entry) of
                   None \<Rightarrow> Inl (ErrTooManyAllowedIPs index)
                 | Some t \<Rightarrow> snapshot_loop (s\<lparr>sn_v4 := t\<rparr>) seen1 (Suc index) rest)
              else
                (case trie_insert (sn_v6 s) prefix (ai_PeerID entry) of
                   None \<Rightarrow> Inl (ErrTooManyAllowedIPs index)
                 | Some t \<Rightarrow> snapshot_loop (s\<lparr>sn_v6 := t\<rparr>) seen1 (Suc index) rest))))"

definition NewSnapshot :: "AllowedIP list \<Rightarrow> allowedip_error + Snapshot" where
  "NewSnapshot allowed =
     (case snapshot_loop \<lparr>sn_v4 = \<lparr>tr_nodes = [zero_node]\<rparr>, sn_v6 = \<lparr>tr_nodes = [zero_node]\<rparr>, sn_entries = 0\<rparr> Map.empty 0 allowed of
        Inl e \<Rightarrow> Inl e
      | Inr s \<Rightarrow> Inr (s\<lparr>sn_entries := length allowed\<rparr>))"

text \<open>The methods accept a nil snapshot, here \<open>None\<close>.\<close>

definition Snapshot_Len :: "Snapshot option \<Rightarrow> nat" where
  "Snapshot_Len s = (case s of None \<Rightarrow> 0 | Some sn \<Rightarrow> sn_entries sn)"

definition LookupPeer :: "Snapshot option \<Rightarrow> addr \<Rightarrow> RoutePeer \<times> bool" where
  "LookupPeer s address =
     (case s of
        None \<Rightarrow> (0, False)
      | Some sn \<Rightarrow>
          (if \<not> validLookupAddress address then (0, False)
           else if Is4 address then lookup4 (sn_v4 sn) (As4 address)
           else lookup6 (sn_v6 sn) (As16 address)))"

definition ValidateSource :: "Snapshot option \<Rightarrow> RoutePeer \<Rightarrow> addr \<Rightarrow> bool" where
  "ValidateSource s peer source = (let (owner, ok) = LookupPeer s source in ok \<and> owner = peer)"

subsection \<open>Carrier addresses\<close>

definition PublicKeySize :: nat where "PublicKeySize = 32"

definition carrierAddressDomain :: bytes where
  "carrierAddressDomain = map (\<lambda>c. of_nat (of_char c)) ''wg-frag/carrier-address/v1:''"

datatype carrier_address_error =
    ErrInvalidPublicKey
  | PublicKeyIndexError nat
  | ErrNoPublicKeys
  | AddressCollisionError addr nat nat

definition isAllZero :: "bytes \<Rightarrow> bool" where
  "isAllZero value = (foldl (OR) 0 value = 0)"

definition DeriveCarrierAddress :: "(bytes \<Rightarrow> bytes) \<Rightarrow> bytes \<Rightarrow> carrier_address_error + addr" where
  "DeriveCarrierAddress sum256 publicKey =
     (if length publicKey \<noteq> PublicKeySize \<or> isAllZero publicKey then Inl ErrInvalidPublicKey
      else
        (let digest = sum256 (carrierAddressDomain @ publicKey) in
         Inr (AddrFrom16 ([0xfe, 0x80, 0, 0, 0, 0, 0, 0] @ take 8 digest))))"

text \<open>The loop of \<^verbatim>\<open>DeriveUniqueCarrierAddresses\<close>; \<open>PublicKeyIndexError\<close> is the wrapped error of an entry.\<close>

fun unique_loop ::
    "(bytes \<Rightarrow> bytes) \<Rightarrow> (addr \<rightharpoonup> nat) \<Rightarrow> nat \<Rightarrow> addr list \<Rightarrow> bytes list \<Rightarrow> carrier_address_error + addr list" where
  "unique_loop sum256 seen index addresses [] = Inr addresses"
| "unique_loop sum256 seen index addresses (publicKey # rest) =
     (case DeriveCarrierAddress sum256 publicKey of
        Inl e \<Rightarrow> Inl (PublicKeyIndexError index)
      | Inr address \<Rightarrow>
          (case seen address of
             Some firstIndex \<Rightarrow> Inl (AddressCollisionError address firstIndex index)
           | None \<Rightarrow> unique_loop sum256 (seen(address \<mapsto> index)) (Suc index) (addresses @ [address]) rest))"

definition DeriveUniqueCarrierAddresses :: "(bytes \<Rightarrow> bytes) \<Rightarrow> bytes list \<Rightarrow> carrier_address_error + addr list" where
  "DeriveUniqueCarrierAddresses sum256 publicKeys =
     (if publicKeys = [] then Inl ErrNoPublicKeys else unique_loop sum256 Map.empty 0 [] publicKeys)"

end
