(* ===== verification/PeerRouteTrie.thy ===== *)
theory PeerRouteTrie
  imports PeerRoute
begin

text \<open>
  The node slice of \<open>PeerRoute\<close> as a binary trie: \<open>routes t\<close> is the map from bit strings to peers it
  stores.  Insertion updates this map at one key, and the lookup loop returns its longest match.
\<close>

abbreviation node_at :: "routeTrie \<Rightarrow> nat \<Rightarrow> routeNode" where
  "node_at t i \<equiv> tr_nodes t ! i"

definition link :: "routeTrie \<Rightarrow> nat \<Rightarrow> byte \<Rightarrow> nat" where
  "link t i b = unat (rn_children (node_at t i) ! unat b)"

definition is_bit :: "byte \<Rightarrow> bool" where
  "is_bit b \<longleftrightarrow> unat b < 2"

fun reach :: "routeTrie \<Rightarrow> nat \<Rightarrow> byte list \<Rightarrow> nat option" where
  "reach t i [] = Some i"
| "reach t i (b # bs) = (if link t i b = 0 then None else reach t (link t i b - 1) bs)"

definition routes_at :: "routeTrie \<Rightarrow> nat \<Rightarrow> byte list \<Rightarrow> RoutePeer option" where
  "routes_at t i bs =
     (case reach t i bs of
        None \<Rightarrow> None
      | Some j \<Rightarrow> if rn_hasPeer (node_at t j) then Some (rn_peerID (node_at t j)) else None)"

abbreviation routes :: "routeTrie \<Rightarrow> byte list \<Rightarrow> RoutePeer option" where
  "routes t \<equiv> routes_at t 0"

text \<open>Links point forward into the slice, and no two links share their target.\<close>

definition trie_ok :: "routeTrie \<Rightarrow> bool" where
  "trie_ok t \<longleftrightarrow>
     tr_nodes t \<noteq> [] \<and> length (tr_nodes t) < 2 ^ 32 \<and>
     (\<forall>i < length (tr_nodes t). length (rn_children (node_at t i)) = 2) \<and>
     (\<forall>i < length (tr_nodes t). \<forall>b. is_bit b \<longrightarrow> link t i b \<noteq> 0 \<longrightarrow> i < link t i b - 1 \<and> link t i b - 1 < length (tr_nodes t)) \<and>
     (\<forall>i < length (tr_nodes t). \<forall>j < length (tr_nodes t). \<forall>b c. is_bit b \<longrightarrow> is_bit c \<longrightarrow>
        link t i b \<noteq> 0 \<longrightarrow> link t i b = link t j c \<longrightarrow> i = j \<and> b = c)"

lemma trie_okD:
  assumes "trie_ok t"
  shows "0 < length (tr_nodes t)" and "length (tr_nodes t) < 2 ^ 32"
    and "i < length (tr_nodes t) \<Longrightarrow> length (rn_children (node_at t i)) = 2"
    and "i < length (tr_nodes t) \<Longrightarrow> is_bit b \<Longrightarrow> link t i b \<noteq> 0 \<Longrightarrow> i < link t i b - 1 \<and> link t i b - 1 < length (tr_nodes t)"
    and "i < length (tr_nodes t) \<Longrightarrow> j < length (tr_nodes t) \<Longrightarrow> is_bit b \<Longrightarrow> is_bit c \<Longrightarrow> link t i b \<noteq> 0 \<Longrightarrow>
      link t i b = link t j c \<Longrightarrow> i = j \<and> b = c"
  using assms unfolding trie_ok_def by (simp, simp, simp, simp, metis)

lemma reach_append: "reach t i (xs @ ys) = Option.bind (reach t i xs) (\<lambda>j. reach t j ys)"
  by (induction xs arbitrary: i) auto

lemma reach_bounds:
  assumes "trie_ok t" and "i < length (tr_nodes t)" and "\<forall>b\<in>set bs. is_bit b" and "reach t i bs = Some j"
  shows "j < length (tr_nodes t)" and "i + length bs \<le> j"
proof -
  have "j < length (tr_nodes t) \<and> i + length bs \<le> j"
    using assms(2-4)
  proof (induction bs arbitrary: i)
    case Nil
    then show ?case by simp
  next
    case (Cons b bs)
    then have b: "link t i b \<noteq> 0" "reach t (link t i b - 1) bs = Some j" by (simp_all split: if_splits)
    then have "i < link t i b - 1" "link t i b - 1 < length (tr_nodes t)"
      using trie_okD(4) [OF assms(1) Cons.prems(1), of b] Cons.prems(2) by auto
    then show ?case using Cons.IH [of "link t i b - 1"] Cons.prems(2) b(2) by auto
  qed
  then show "j < length (tr_nodes t)" and "i + length bs \<le> j" by auto
qed

text \<open>A node is reached from the root along one path only.\<close>

lemma reach_unique:
  assumes "trie_ok t" and "\<forall>b\<in>set xs. is_bit b" and "\<forall>b\<in>set ys. is_bit b"
    and "reach t 0 xs = Some j" and "reach t 0 ys = Some j"
  shows "xs = ys"
  using assms(2-5)
proof (induction xs arbitrary: ys j rule: rev_induct)
  case Nil
  then show ?case using reach_bounds(2) [OF assms(1) trie_okD(1) [OF assms(1)], of ys j] by simp
next
  case (snoc b xs)
  note pos = trie_okD(1) [OF assms(1)]
  have "0 < j" using reach_bounds(2) [OF assms(1) pos snoc.prems(1,3)] by simp
  then obtain ys' c where ys: "ys = ys' @ [c]" using snoc.prems(4) by (cases ys rule: rev_cases) auto
  obtain i where i: "reach t 0 xs = Some i" "link t i b \<noteq> 0" "j = link t i b - 1"
    using snoc.prems(3) by (auto simp: reach_append split: if_splits bind_splits)
  obtain i' where i': "reach t 0 ys' = Some i'" "link t i' c \<noteq> 0" "j = link t i' c - 1"
    using snoc.prems(4) by (auto simp: reach_append ys split: if_splits bind_splits)
  have "link t i b = link t i' c" using i(2,3) i'(2,3) by simp
  then have "i = i' \<and> b = c"
    using trie_okD(5) [OF assms(1), of i i' b c] reach_bounds(1) [OF assms(1) pos _ i(1)] reach_bounds(1) [OF assms(1) pos _ i'(1)]
      i(2) snoc.prems(1,2) ys by simp
  then show ?case using snoc.IH [of ys' i] snoc.prems(1,2) i(1) i'(1) ys by simp
qed

subsection \<open>Adding a node\<close>

definition extended :: "routeTrie \<Rightarrow> nat \<Rightarrow> byte \<Rightarrow> routeTrie" where
  "extended t p b =
     (let nodes = tr_nodes t @ [zero_node]; node = nodes ! p
      in \<lparr>tr_nodes = nodes[p := node\<lparr>rn_children := (rn_children node)[unat b := of_nat (length (tr_nodes t)) + 1]\<rparr>]\<rparr>)"

lemma unat_of_nat_Suc_u32: "n + 1 < 2 ^ 32 \<Longrightarrow> unat (of_nat n + 1 :: u32) = n + 1"
proof -
  assume n: "n + 1 < 2 ^ 32"
  have "(of_nat n + 1 :: u32) = of_nat (n + 1)" by simp
  then have "unat (of_nat n + 1 :: u32) = (n + 1) mod 2 ^ 32" by (simp only: unat_of_nat take_bit_eq_mod) simp
  with n show ?thesis by simp
qed

lemma link_extended:
  assumes "trie_ok t" and "p < length (tr_nodes t)" and "is_bit b" and "length (tr_nodes t) < 2 ^ 32 - 1"
    and "is_bit c" and "i \<le> length (tr_nodes t)"
  shows "link (extended t p b) i c =
    (if i = p \<and> c = b then length (tr_nodes t) + 1 else if i = length (tr_nodes t) then 0 else link t i c)"
proof -
  have u: "unat (of_nat (length (tr_nodes t)) + 1 :: u32) = length (tr_nodes t) + 1"
    using assms(4) by (intro unat_of_nat_Suc_u32) simp
  have bits: "unat c < 2" "unat b < 2" "unat b = unat c \<longleftrightarrow> c = b"
    using assms(3,5) by (auto simp: is_bit_def word_unat_eq_iff)
  have len: "length (rn_children (node_at t p)) = 2" by (rule trie_okD(3) [OF assms(1,2)])
  consider "i = p" | "i \<noteq> p" "i = length (tr_nodes t)" | "i \<noteq> p" "i < length (tr_nodes t)" using assms(6) by linarith
  then show ?thesis
  proof cases
    case 1
    then show ?thesis using assms(2) u len bits by (simp add: link_def extended_def Let_def nth_append nth_list_update)
  next
    case 2
    moreover have "[0, 0 :: u32] ! unat c = 0" using bits(1) by (auto simp: less_2_cases_iff)
    ultimately show ?thesis by (simp add: link_def extended_def Let_def nth_append zero_node_def)
  next
    case 3
    then show ?thesis by (simp add: link_def extended_def Let_def nth_append)
  qed
qed

lemma node_extended:
  assumes "p < length (tr_nodes t)" and "i \<le> length (tr_nodes t)"
  shows "rn_hasPeer (node_at (extended t p b) i) = (i < length (tr_nodes t) \<and> rn_hasPeer (node_at t i))"
    and "i < length (tr_nodes t) \<Longrightarrow> rn_peerID (node_at (extended t p b) i) = rn_peerID (node_at t i)"
  using assms by (auto simp: extended_def Let_def nth_append nth_list_update zero_node_def)

lemma length_extended [simp]: "length (tr_nodes (extended t p b)) = Suc (length (tr_nodes t))"
  by (simp add: extended_def Let_def)

lemma extended_ok:
  assumes "trie_ok t" and "p < length (tr_nodes t)" and "is_bit b" and "length (tr_nodes t) < 2 ^ 32 - 1" and "link t p b = 0"
  shows "trie_ok (extended t p b)"
proof -
  let ?n = "length (tr_nodes t)"
  note l = link_extended [OF assms(1-4)]
  have "length (rn_children (node_at (extended t p b) i)) = 2" if "i < Suc ?n" for i
    using that trie_okD(3) [OF assms(1), of i] assms(2)
    by (cases "i = ?n") (auto simp: extended_def Let_def nth_append nth_list_update zero_node_def)
  moreover have "i < link (extended t p b) i c - 1 \<and> link (extended t p b) i c - 1 < Suc ?n"
    if "i < Suc ?n" "is_bit c" "link (extended t p b) i c \<noteq> 0" for i c
    using that trie_okD(4) [OF assms(1), of i c] l [of c i] assms(2) by (auto split: if_splits)
  moreover have "i = j \<and> c = d"
    if "i < Suc ?n" "j < Suc ?n" "is_bit c" "is_bit d" "link (extended t p b) i c \<noteq> 0"
      "link (extended t p b) i c = link (extended t p b) j d" for i j c d
  proof -
    have old: "link t k e \<noteq> Suc ?n" if "k < ?n" "is_bit e" for k e using trie_okD(4) [OF assms(1) that] by auto
    show ?thesis
      using that l [of c i] l [of d j] old [of i c] old [of j d] trie_okD(5) [OF assms(1), of i j c d] by (auto split: if_splits)
  qed
  moreover have "Suc ?n < 2 ^ 32" using assms(4) by simp
  ultimately show ?thesis unfolding trie_ok_def length_extended by (auto simp: extended_def Let_def)
qed

text \<open>The new node is reached exactly along the path of its parent and the new link.\<close>

lemma reach_extended:
  assumes "trie_ok t" and "p < length (tr_nodes t)" and "is_bit b" and "length (tr_nodes t) < 2 ^ 32 - 1" and "link t p b = 0"
    and "i < length (tr_nodes t)" and "\<forall>c\<in>set bs. is_bit c"
  shows "reach (extended t p b) i bs =
    (case reach t i bs of
       Some j \<Rightarrow> Some j
     | None \<Rightarrow> if \<exists>ys. bs = ys @ [b] \<and> reach t i ys = Some p then Some (length (tr_nodes t)) else None)"
  using assms(6,7)
proof (induction bs arbitrary: i)
  case Nil
  then show ?case by simp
next
  case (Cons c bs)
  let ?n = "length (tr_nodes t)"
  note l = link_extended [OF assms(1-4)]
  show ?case
  proof (cases "i = p \<and> c = b")
    case True
    have "link (extended t p b) i c = Suc ?n" using l [of c i] True Cons.prems assms(3) by simp
    moreover have "reach (extended t p b) ?n bs = (if bs = [] then Some ?n else None)"
      using l [of "hd bs" ?n] Cons.prems assms(2) by (cases bs) auto
    moreover have "(\<exists>ys. c # bs = ys @ [b] \<and> reach t i ys = Some p) \<longleftrightarrow> bs = []"
    proof
      assume "\<exists>ys. c # bs = ys @ [b] \<and> reach t i ys = Some p"
      then obtain ys where ys: "c # bs = ys @ [b]" "reach t i ys = Some p" by blast
      show "bs = []"
      proof (cases ys)
        case (Cons d ds)
        then have "link t i c \<noteq> 0" using ys by (auto split: if_splits)
        then show ?thesis using True assms(5) by simp
      qed (use ys in simp)
    qed (use True in \<open>auto intro: exI [of _ "[]"]\<close>)
    ultimately show ?thesis using True assms(5) by simp
  next
    case False
    then have same: "link (extended t p b) i c = link t i c" using l [of c i] Cons.prems by auto
    show ?thesis
    proof (cases "link t i c = 0")
      case True
      have "\<not> (\<exists>ys. c # bs = ys @ [b] \<and> reach t i ys = Some p)"
        using False True by (auto simp: Cons_eq_append_conv)
      then show ?thesis using same True by simp
    next
      case nz: False
      have lt: "link t i c - 1 < ?n" using trie_okD(4) [OF assms(1) Cons.prems(1) _ nz] Cons.prems(2) by simp
      have "(\<exists>ys. c # bs = ys @ [b] \<and> reach t i ys = Some p) \<longleftrightarrow> (\<exists>ys. bs = ys @ [b] \<and> reach t (link t i c - 1) ys = Some p)"
        using nz False by (auto simp: Cons_eq_append_conv)
      then show ?thesis using Cons.IH [OF lt] Cons.prems(2) same nz by (cases "reach t (link t i c - 1) bs") auto
    qed
  qed
qed

lemma routes_extended:
  assumes "trie_ok t" and "p < length (tr_nodes t)" and "is_bit b" and "length (tr_nodes t) < 2 ^ 32 - 1" and "link t p b = 0"
    and "\<forall>c\<in>set bs. is_bit c"
  shows "routes (extended t p b) bs = routes t bs"
proof (cases "reach t 0 bs")
  case None
  then show ?thesis
    using reach_extended [OF assms(1-5) trie_okD(1) [OF assms(1)] assms(6)] node_extended [OF assms(2), of "length (tr_nodes t)" b]
    by (simp add: routes_at_def)
next
  case (Some j)
  then have "j < length (tr_nodes t)" using reach_bounds(1) [OF assms(1) trie_okD(1) [OF assms(1)] assms(6)] by simp
  then show ?thesis
    using reach_extended [OF assms(1-5) trie_okD(1) [OF assms(1)] assms(6)] node_extended [OF assms(2), of j b] Some
    by (simp add: routes_at_def)
qed


subsection \<open>Insertion\<close>

lemma unat_minus_1_u32: "x \<noteq> 0 \<Longrightarrow> unat (x - 1 :: u32) = unat x - 1"
  by (simp add: unat_minus_one)

lemma trie_child_ok:
  assumes "trie_ok t" and "unat p < length (tr_nodes t)" and "is_bit b" and "trie_child t p b = Some (t', c)"
  shows "trie_ok t'" and "\<forall>c\<in>set bs. is_bit c \<Longrightarrow> routes t' bs = routes t bs"
    and "\<forall>c\<in>set bs. is_bit c \<Longrightarrow> reach t 0 bs = Some (unat p) \<Longrightarrow> reach t' 0 (bs @ [b]) = Some (unat c)"
    and "length (tr_nodes t') \<le> Suc (length (tr_nodes t))"
proof -
  let ?l = "rn_children (node_at t (unat p)) ! unat b"
  have *: "trie_ok t' \<and> ((\<forall>c\<in>set bs. is_bit c) \<longrightarrow> routes t' bs = routes t bs \<and>
      (reach t 0 bs = Some (unat p) \<longrightarrow> reach t' 0 (bs @ [b]) = Some (unat c))) \<and> length (tr_nodes t') \<le> Suc (length (tr_nodes t))" for bs
  proof (cases "?l = 0")
    case False
    then have "t' = t" "unat c = link t (unat p) b - 1" "link t (unat p) b \<noteq> 0"
      using assms(4) by (auto simp: trie_child_def Let_def link_def unat_minus_1_u32 unat_eq_0)
    then show ?thesis using assms(1) by (simp add: reach_append)
  next
    case True
    then have len: "length (tr_nodes t) < 2 ^ 32 - 1" and c: "c = of_nat (length (tr_nodes t))" and t': "t' = extended t (unat p) b"
      using assms(4) by (auto simp: trie_child_def Let_def extended_def split: if_splits)
    have l0: "link t (unat p) b = 0" using True by (simp add: link_def)
    have uc: "unat c = length (tr_nodes t)" unfolding c unat_of_nat using len by (simp add: take_bit_nat_eq_self)
    have "reach t' 0 (bs @ [b]) = Some (unat c)" if "\<forall>c\<in>set bs. is_bit c" "reach t 0 bs = Some (unat p)"
    proof -
      have "reach t 0 (bs @ [b]) = None" using that(2) l0 by (simp add: reach_append)
      then show ?thesis
        using reach_extended [OF assms(1-3) len l0 trie_okD(1) [OF assms(1)], of "bs @ [b]"] that assms(3) uc by (simp add: t')
    qed
    then show ?thesis
      using extended_ok [OF assms(1-3) len l0] routes_extended [OF assms(1-3) len l0] by (simp add: t')
  qed
  show "trie_ok t'" and "\<forall>c\<in>set bs. is_bit c \<Longrightarrow> routes t' bs = routes t bs"
    and "\<forall>c\<in>set bs. is_bit c \<Longrightarrow> reach t 0 bs = Some (unat p) \<Longrightarrow> reach t' 0 (bs @ [b]) = Some (unat c)"
    and "length (tr_nodes t') \<le> Suc (length (tr_nodes t))"
    using * by auto
qed

lemma insert_path_ok:
  assumes "trie_ok t" and "\<forall>c\<in>set (pre @ bs). is_bit c" and "reach t 0 pre = Some (unat i)" and "insert_path t i bs = Some (t', j)"
  shows "trie_ok t' \<and> reach t' 0 (pre @ bs) = Some (unat j) \<and> (\<forall>xs. (\<forall>c\<in>set xs. is_bit c) \<longrightarrow> routes t' xs = routes t xs) \<and>
    length (tr_nodes t') \<le> length (tr_nodes t) + length bs"
  using assms
proof (induction t i bs arbitrary: pre rule: insert_path.induct)
  case (1 t i)
  then show ?case by simp
next
  case (2 t i b bs)
  obtain t1 c where t1: "trie_child t i b = Some (t1, c)" "insert_path t1 c bs = Some (t', j)"
    using "2.prems"(4) by (auto split: option.splits)
  have i: "unat i < length (tr_nodes t)" and bits: "is_bit b" "\<forall>c\<in>set pre. is_bit c"
    using reach_bounds(1) [OF "2.prems"(1) trie_okD(1) [OF "2.prems"(1)] _ "2.prems"(3)] "2.prems"(2) by auto
  note c = trie_child_ok [OF "2.prems"(1) i bits(1) t1(1)]
  have "trie_ok t' \<and> reach t' 0 ((pre @ [b]) @ bs) = Some (unat j) \<and> (\<forall>xs. (\<forall>c\<in>set xs. is_bit c) \<longrightarrow> routes t' xs = routes t1 xs) \<and>
      length (tr_nodes t') \<le> length (tr_nodes t1) + length bs"
    using "2.IH" [OF t1(1) refl c(1) _ c(3) [OF bits(2) "2.prems"(3)] t1(2)] "2.prems"(2) by auto
  then show ?case using c(2,4) by auto
qed

definition set_peer :: "routeTrie \<Rightarrow> nat \<Rightarrow> RoutePeer \<Rightarrow> routeTrie" where
  "set_peer t i peer = \<lparr>tr_nodes = (tr_nodes t)[i := (node_at t i)\<lparr>rn_peerID := peer, rn_hasPeer := True\<rparr>]\<rparr>"

lemma node_set_peer:
  "node_at (set_peer t i peer) j =
     (if j = i \<and> i < length (tr_nodes t) then (node_at t i)\<lparr>rn_peerID := peer, rn_hasPeer := True\<rparr> else node_at t j)"
  by (cases "i < length (tr_nodes t)") (auto simp: set_peer_def list_update_beyond)

lemma link_set_peer: "link (set_peer t i peer) j b = link t j b"
  by (simp add: link_def node_set_peer)

lemma reach_set_peer: "reach (set_peer t i peer) j bs = reach t j bs"
  by (induction bs arbitrary: j) (auto simp: link_set_peer)

lemma set_peer_ok: "trie_ok t \<Longrightarrow> trie_ok (set_peer t i peer)"
  unfolding trie_ok_def link_set_peer by (auto simp: node_set_peer) (simp_all add: set_peer_def)

lemma routes_set_peer:
  assumes "trie_ok t" and "reach t 0 bs = Some i" and "\<forall>c\<in>set bs. is_bit c" and "\<forall>c\<in>set xs. is_bit c"
  shows "routes (set_peer t i peer) xs = (if xs = bs then Some peer else routes t xs)"
proof -
  have i: "i < length (tr_nodes t)" by (rule reach_bounds(1) [OF assms(1) trie_okD(1) [OF assms(1)] assms(3,2)])
  show ?thesis
  proof (cases "reach t 0 xs = Some i")
    case True
    then have "xs = bs" using reach_unique [OF assms(1,4,3)] assms(2) by simp
    then show ?thesis using True i by (simp add: routes_at_def reach_set_peer node_set_peer)
  next
    case False
    then show ?thesis using assms(2) by (auto simp: routes_at_def reach_set_peer node_set_peer split: option.split)
  qed
qed

definition prefix_path :: "prefix \<Rightarrow> byte list" where
  "prefix_path p =
     (if Is4 (px_Addr p) then map (addressBit4 (As4 (px_Addr p))) [0..<nat (px_Bits p)]
      else map (addressBit16 (As16 (px_Addr p))) [0..<nat (px_Bits p)])"

lemma is_bit_addressBit [simp]: "is_bit (addressBit4 a k)" "is_bit (addressBit16 a k)"
proof -
  have "unat (x AND 1) < 2" for x :: byte
    by (simp add: and_one_eq unat_mod)
  then show "is_bit (addressBit4 a k)" "is_bit (addressBit16 a k)" by (simp_all add: is_bit_def addressBit4_def addressBit16_def)
qed

lemma prefix_path_bits: "\<forall>c\<in>set (prefix_path p). is_bit c"
  by (auto simp: prefix_path_def)

lemma trie_insert_ok:
  assumes "trie_ok t" and "trie_insert t prefix peer = Some t'"
  shows "trie_ok t'" and "\<forall>c\<in>set xs. is_bit c \<Longrightarrow> routes t' xs = (if xs = prefix_path prefix then Some peer else routes t xs)"
proof -
  obtain t1 j where t1: "insert_path t 0 (prefix_path prefix) = Some (t1, j)" "t' = set_peer t1 (unat j) peer"
    using assms(2) by (auto simp: trie_insert_def prefix_path_def set_peer_def Let_def split: option.splits)
  have "trie_ok t1" "reach t1 0 (prefix_path prefix) = Some (unat j)" "\<And>xs. \<forall>c\<in>set xs. is_bit c \<Longrightarrow> routes t1 xs = routes t xs"
    using insert_path_ok [OF assms(1) _ _ t1(1), of "[]"] prefix_path_bits by auto
  then show "trie_ok t'" and "\<forall>c\<in>set xs. is_bit c \<Longrightarrow> routes t' xs = (if xs = prefix_path prefix then Some peer else routes t xs)"
    using set_peer_ok routes_set_peer [OF _ _ prefix_path_bits] t1(2) by auto
qed

lemma insert_path_total:
  assumes "trie_ok t" and "\<forall>c\<in>set bs. is_bit c" and "unat i < length (tr_nodes t)" and "length (tr_nodes t) + length bs < 2 ^ 32"
  shows "insert_path t i bs \<noteq> None"
  using assms
proof (induction t i bs rule: insert_path.induct)
  case (1 t i)
  then show ?case by simp
next
  case (2 t i b bs)
  have "trie_child t i b \<noteq> None" using "2.prems"(4) by (simp add: trie_child_def Let_def)
  then obtain t1 c where t1: "trie_child t i b = Some (t1, c)" by auto
  have bit: "is_bit b" using "2.prems"(2) by simp
  note c = trie_child_ok [OF "2.prems"(1,3) bit t1]
  have "unat c < length (tr_nodes t1)"
    using t1 trie_okD(4) [OF "2.prems"(1,3) bit] "2.prems"(4)
    by (auto simp: trie_child_def Let_def link_def unat_minus_1_u32 unat_eq_0 unat_of_nat take_bit_nat_eq_self split: if_splits)
  then show ?case using "2.IH" [OF t1 refl c(1)] "2.prems"(2,4) c(4) t1 by auto
qed

lemma trie_insert_total:
  assumes "trie_ok t" and "length (tr_nodes t) + nat (px_Bits prefix) < 2 ^ 32"
  obtains t' where "trie_insert t prefix peer = Some t'" and "length (tr_nodes t') \<le> length (tr_nodes t) + nat (px_Bits prefix)"
proof -
  have len: "length (prefix_path prefix) = nat (px_Bits prefix)" by (simp add: prefix_path_def)
  have "insert_path t 0 (prefix_path prefix) \<noteq> None"
    by (rule insert_path_total [OF assms(1) prefix_path_bits]) (use assms(2) trie_okD(1) [OF assms(1)] len in simp_all)
  then obtain t1 j where t1: "insert_path t 0 (prefix_path prefix) = Some (t1, j)" by auto
  have "length (tr_nodes t1) \<le> length (tr_nodes t) + nat (px_Bits prefix)"
    using insert_path_ok [OF assms(1) _ _ t1, of "[]"] prefix_path_bits len by simp
  moreover have "trie_insert t prefix peer = Some (set_peer t1 (unat j) peer)"
    using t1 by (simp add: trie_insert_def prefix_path_def set_peer_def Let_def)
  ultimately show thesis using that [of "set_peer t1 (unat j) peer"] by (simp add: set_peer_def)
qed

subsection \<open>Lookup\<close>

lemma lookup_path_ok:
  assumes "trie_ok t" and "unat i < length (tr_nodes t)" and "\<forall>c\<in>set bs. is_bit c" and "lookup_path t i best found bs = (p, ok)"
  shows "(\<forall>k. 1 \<le> k \<and> k \<le> length bs \<longrightarrow> routes_at t (unat i) (take k bs) = None) \<and> p = best \<and> ok = found \<or>
    ok \<and> (\<exists>k. 1 \<le> k \<and> k \<le> length bs \<and> routes_at t (unat i) (take k bs) = Some p \<and>
      (\<forall>k'. k < k' \<and> k' \<le> length bs \<longrightarrow> routes_at t (unat i) (take k' bs) = None))"
  using assms(2-4)
proof (induction bs arbitrary: i best found)
  case Nil
  then show ?case by simp
next
  case (Cons b bs)
  let ?l = "rn_children (node_at t (unat i)) ! unat b"
  have take_Cons: "take k (b # bs) = b # take (k - 1) bs" if "1 \<le> k" for k using that by (cases k) auto
  show ?case
  proof (cases "?l = 0")
    case True
    then have "link t (unat i) b = 0" by (simp add: link_def)
    then have "routes_at t (unat i) (take k (b # bs)) = None" if "1 \<le> k" for k
      using take_Cons [OF that] by (simp add: routes_at_def)
    then show ?thesis using Cons.prems(3) True by simp
  next
    case False
    then have l: "link t (unat i) b \<noteq> 0" "unat (?l - 1) = link t (unat i) b - 1"
      by (simp_all add: link_def unat_minus_1_u32 unat_eq_0)
    let ?node = "node_at t (unat (?l - 1))"
    have lt: "unat (?l - 1) < length (tr_nodes t)"
      using trie_okD(4) [OF assms(1) Cons.prems(1) _ l(1)] Cons.prems(2) l(2) by simp
    have step: "routes_at t (unat i) (take k (b # bs)) = routes_at t (unat (?l - 1)) (take (k - 1) bs)" if "1 \<le> k" for k
      using take_Cons [OF that] l by (simp add: routes_at_def)
    have here: "routes_at t (unat (?l - 1)) [] = (if rn_hasPeer ?node then Some (rn_peerID ?node) else None)"
      by (simp add: routes_at_def)
    define best' where "best' = (if rn_hasPeer ?node then rn_peerID ?node else best)"
    define found' where "found' = (rn_hasPeer ?node \<or> found)"
    have "lookup_path t (?l - 1) best' found' bs = (p, ok)"
      using Cons.prems(3) False by (auto simp: Let_def best'_def found'_def split: if_splits)
    then consider
      (none) "\<forall>k. 1 \<le> k \<and> k \<le> length bs \<longrightarrow> routes_at t (unat (?l - 1)) (take k bs) = None" "p = best'" "ok = found'"
    | (some) k where "ok" "1 \<le> k" "k \<le> length bs" "routes_at t (unat (?l - 1)) (take k bs) = Some p"
        "\<forall>k'. k < k' \<and> k' \<le> length bs \<longrightarrow> routes_at t (unat (?l - 1)) (take k' bs) = None"
      using Cons.IH [OF lt _ \<open>lookup_path t (?l - 1) best' found' bs = (p, ok)\<close>] Cons.prems(2) by auto
    then show ?thesis
    proof cases
      case none
      have tail: "routes_at t (unat i) (take k (b # bs)) = None" if "1 < k" "k \<le> length (b # bs)" for k
      proof -
        have "1 \<le> k - 1 \<and> k - 1 \<le> length bs" using that by auto
        then show ?thesis using step [of k] none(1) that(1) by simp
      qed
      show ?thesis
      proof (cases "rn_hasPeer ?node")
        case True
        then have "routes_at t (unat i) (take 1 (b # bs)) = Some p" "ok"
          using step [of 1] here none(2,3) by (simp_all add: best'_def found'_def)
        then show ?thesis using tail by (intro disjI2 conjI exI [of _ 1]) auto
      next
        case False
        then have "routes_at t (unat i) (take 1 (b # bs)) = None" using step [of 1] here by simp
        then have "routes_at t (unat i) (take k (b # bs)) = None" if "1 \<le> k" "k \<le> length (b # bs)" for k
          using that tail [of k] by (cases "k = 1") simp_all
        then show ?thesis using False none(2,3) by (intro disjI1) (simp add: best'_def found'_def)
      qed
    next
      case some
      have "routes_at t (unat i) (take (Suc k) (b # bs)) = Some p" using step [of "Suc k"] some(4) by simp
      moreover have "routes_at t (unat i) (take k' (b # bs)) = None" if "Suc k < k'" "k' \<le> length (b # bs)" for k'
      proof -
        have "k < k' - 1 \<and> k' - 1 \<le> length bs" using that by auto
        then show ?thesis using step [of k'] some(5) that(1) by simp
      qed
      ultimately show ?thesis using some(1,3) by (intro disjI2 conjI exI [of _ "Suc k"]) auto
    qed
  qed
qed

text \<open>\<open>longest_match f bs p ok\<close>: \<open>p\<close> is what \<open>f\<close> gives for the longest prefix of \<open>bs\<close> it knows.\<close>

definition longest_match :: "(byte list \<Rightarrow> RoutePeer option) \<Rightarrow> byte list \<Rightarrow> RoutePeer \<Rightarrow> bool \<Rightarrow> bool" where
  "longest_match f bs p ok \<longleftrightarrow>
     (ok \<longleftrightarrow> (\<exists>k \<le> length bs. f (take k bs) \<noteq> None)) \<and>
     (ok \<longrightarrow> (\<exists>k \<le> length bs. f (take k bs) = Some p \<and> (\<forall>k' \<le> length bs. k < k' \<longrightarrow> f (take k' bs) = None)))"

lemma lookup_longest:
  assumes "trie_ok t" and "\<forall>c\<in>set bs. is_bit c"
    and "lookup_path t 0 (rn_peerID (node_at t 0)) (rn_hasPeer (node_at t 0)) bs = (p, ok)"
  shows "longest_match (routes t) bs p ok"
proof -
  have root: "routes t [] = (if rn_hasPeer (node_at t 0) then Some (rn_peerID (node_at t 0)) else None)"
    by (simp add: routes_at_def)
  consider
    (none) "\<forall>k. 1 \<le> k \<and> k \<le> length bs \<longrightarrow> routes t (take k bs) = None" "p = rn_peerID (node_at t 0)" "ok = rn_hasPeer (node_at t 0)"
  | (some) k where "ok" "1 \<le> k" "k \<le> length bs" "routes t (take k bs) = Some p"
      "\<forall>k'. k < k' \<and> k' \<le> length bs \<longrightarrow> routes t (take k' bs) = None"
    using lookup_path_ok [OF assms(1) _ assms(2,3)] trie_okD(1) [OF assms(1)] by auto
  then show ?thesis
  proof cases
    case none
    have "(\<exists>k \<le> length bs. routes t (take k bs) \<noteq> None) \<longleftrightarrow> routes t [] \<noteq> None"
      using none(1) by (metis One_nat_def Suc_leI le0 not_gr_zero take_0)
    then show ?thesis
      using none root by (auto simp: longest_match_def intro!: exI [of _ 0])
  next
    case some
    then show ?thesis unfolding longest_match_def by auto
  qed
qed

end
