(* ===== verification/PeerRouteCorrect.thy ===== *)
theory PeerRouteCorrect
  imports PeerRouteTrie
begin

text \<open>
  The snapshot of AllowedIPs implements longest-prefix matching over the configured entries, and the
  hidden carrier addresses are distinct link-local addresses.
\<close>

subsection \<open>Bits of addresses and prefixes\<close>

definition addr_bits :: "addr \<Rightarrow> byte list" where
  "addr_bits a = (if Is4 a then map (addressBit4 (As4 a)) [0..<32] else map (addressBit16 (As16 a)) [0..<128])"

text \<open>The address lies in the prefix: same family and the same leading bits.\<close>

definition prefix_covers :: "prefix \<Rightarrow> addr \<Rightarrow> bool" where
  "prefix_covers p a \<longleftrightarrow>
     Is4 (px_Addr p) = Is4 a \<and> take (nat (px_Bits p)) (addr_bits a) = take (nat (px_Bits p)) (addr_bits (px_Addr p))"

lemma addressBit16_4 [simp]: "addressBit16 = addressBit4"
  by (simp add: fun_eq_iff addressBit4_def addressBit16_def)

lemma addressBit_bit: "addressBit4 a k = of_bool (bit (a ! (k div 8)) (7 - k mod 8))"
  by (simp add: addressBit4_def and_one_eq mod_2_eq_odd bit_iff_odd_drop_bit)

lemma bit_masked_byte: "m < 8 \<Longrightarrow> k < 8 \<Longrightarrow> bit (x AND push_bit (8 - m) (- 1) :: byte) (7 - k) \<longleftrightarrow> k < m \<and> bit x (7 - k)"
  by (auto simp: bit_simps)

lemma addressBit_mask:
  assumes "k < n" and "k < 8 * length b"
  shows "addressBit4 (mask_bytes n b) k = addressBit4 b k"
  using assms
proof (induction n b arbitrary: k rule: mask_bytes.induct)
  case (1 n)
  then show ?case by simp
next
  case (2 n b bs)
  show ?case
  proof (cases "k < 8")
    case True
    then show ?thesis using "2.prems"(1) bit_masked_byte [of n k b] by (simp add: addressBit_bit)
  next
    case False
    then have k: "k div 8 = Suc ((k - 8) div 8)" "k mod 8 = (k - 8) mod 8" by (simp_all add: le_div_geq le_mod_geq)
    have "addressBit4 (mask_bytes (n - 8) bs) (k - 8) = addressBit4 bs (k - 8)"
      using False "2.prems" by (intro "2.IH") auto
    then show ?thesis by (simp add: addressBit_bit k)
  qed
qed

lemma of_bool_eq_iff_byte: "(of_bool P :: byte) = of_bool Q \<longleftrightarrow> P = Q"
  by (cases P; cases Q) simp_all

lemma mask_bytes_cong:
  assumes "length b = length c" and "\<And>k. k < n \<Longrightarrow> k < 8 * length b \<Longrightarrow> addressBit4 b k = addressBit4 c k"
  shows "mask_bytes n b = mask_bytes n c"
  using assms
proof (induction b c arbitrary: n rule: list_induct2)
  case Nil
  then show ?case by simp
next
  case (Cons x xs y ys)
  have bits: "bit x (7 - k) = bit y (7 - k)" if "k < n" "k < 8" for k
    using Cons.prems [of k] that by (simp add: addressBit_bit of_bool_eq_iff_byte)
  have head: "(if 8 \<le> n then x else x AND push_bit (8 - n) (- 1)) = (if 8 \<le> n then y else y AND push_bit (8 - n) (- 1))"
  proof (rule bit_word_eqI)
    fix i assume "i < LENGTH(8)"
    then have i: "i < 8" "i = 7 - (7 - i)" "7 - i < 8" by simp_all
    show "bit (if 8 \<le> n then x else x AND push_bit (8 - n) (- 1)) i = bit (if 8 \<le> n then y else y AND push_bit (8 - n) (- 1)) i"
      using bits [of "7 - i"] bit_masked_byte [of n "7 - i"] i by (cases "8 \<le> n") auto
  qed
  have "addressBit4 xs k = addressBit4 ys k" if "k < n - 8" "k < 8 * length xs" for k
  proof -
    have "addressBit4 (x # xs) (k + 8) = addressBit4 (y # ys) (k + 8)" using that by (intro Cons.prems) auto
    moreover have "(k + 8) div 8 = Suc (k div 8)" "(k + 8) mod 8 = k mod 8" by simp_all
    ultimately show ?thesis by (simp add: addressBit_bit of_bool_eq_iff_byte del: of_bool_eq_iff)
  qed
  then have "mask_bytes (n - 8) xs = mask_bytes (n - 8) ys" by (rule Cons.IH)
  with head show ?case by simp
qed

text \<open>What the map needs of an entry: Go's addresses have 4 or 16 bytes.\<close>

abbreviation prefix_wf :: "prefix \<Rightarrow> bool" where
  "prefix_wf p \<equiv> addr_wf (px_Addr p)"

lemma valid_cases:
  assumes "validAllowedPrefix p" and "prefix_wf p"
  obtains (v4) b where "px_Addr p = Addr4 b" and "length b = 4" and "0 \<le> px_Bits p" and "px_Bits p \<le> 32"
  | (v6) b where "px_Addr p = Addr6 b []" and "length b = 16" and "0 \<le> px_Bits p" and "px_Bits p \<le> 128"
  using assms
  by (cases "px_Addr p") (auto simp: validAllowedPrefix_def prefix_IsValid_def addr_IsValid_def BitLen_def addr_wf_def Zone_def)

lemma prefix_path_Masked:
  assumes "validAllowedPrefix p" and "prefix_wf p"
  shows "prefix_path (Masked p) = prefix_path p"
  using assms
  by (cases rule: valid_cases) (auto simp: prefix_path_def Masked_def Is4_def As4_def As16_def addressBit_mask)

lemma prefix_path_take:
  assumes "validAllowedPrefix p" and "prefix_wf p"
  shows "prefix_path p = take (nat (px_Bits p)) (addr_bits (px_Addr p))"
  using assms
  by (cases rule: valid_cases) (auto simp: prefix_path_def addr_bits_def Is4_def take_map min_def)

lemma Masked_inject:
  assumes "validAllowedPrefix p" and "prefix_wf p" and "validAllowedPrefix q" and "prefix_wf q"
    and "Is4 (px_Addr p) = Is4 (px_Addr q)" and "prefix_path p = prefix_path q"
  shows "Masked p = Masked q"
proof -
  have "nat (px_Bits p) = nat (px_Bits q)"
    using arg_cong [OF assms(6), of length] by (simp add: prefix_path_def split: if_splits)
  then have bits: "px_Bits p = px_Bits q"
    using assms(1,3) by (simp add: validAllowedPrefix_def prefix_IsValid_def eq_nat_nat_iff)
  have path: "addressBit4 (if Is4 (px_Addr p) then As4 (px_Addr p) else As16 (px_Addr p)) k =
      addressBit4 (if Is4 (px_Addr q) then As4 (px_Addr q) else As16 (px_Addr q)) k" if "k < nat (px_Bits p)" for k
    using arg_cong [OF assms(6), of "\<lambda>xs. xs ! k"] that bits assms(5) by (cases "Is4 (px_Addr q)") (simp_all add: prefix_path_def)
  show ?thesis
    using assms(1,2)
  proof (cases rule: valid_cases)
    case (v4 b)
    then obtain c where c: "px_Addr q = Addr4 c" "length c = 4"
      using assms(3-5) by (cases "px_Addr q") (auto simp: Is4_def addr_wf_def)
    have "mask_bytes (nat (px_Bits p)) b = mask_bytes (nat (px_Bits p)) c"
      using path v4 c by (intro mask_bytes_cong) (simp_all add: Is4_def As4_def)
    then show ?thesis using v4 c bits by (cases p; cases q) (simp add: Masked_def)
  next
    case (v6 b)
    then obtain c where c: "px_Addr q = Addr6 c []" "length c = 16"
      using assms(3-5) by (cases "px_Addr q") (auto simp: Is4_def addr_wf_def validAllowedPrefix_def Zone_def addr_IsValid_def)
    have "mask_bytes (nat (px_Bits p)) b = mask_bytes (nat (px_Bits p)) c"
      using path v6 c by (intro mask_bytes_cong) (simp_all add: Is4_def As16_def)
    then show ?thesis using v6 c bits by (cases p; cases q) (simp add: Masked_def)
  qed
qed


subsection \<open>The snapshot\<close>

text \<open>The tries hold exactly the entries processed so far, and \<open>seen\<close> knows their normalized prefixes.\<close>

definition family_routes :: "AllowedIP list \<Rightarrow> bool \<Rightarrow> byte list \<Rightarrow> RoutePeer option \<Rightarrow> bool" where
  "family_routes es v4 path res \<longleftrightarrow>
     (\<forall>peer. res = Some peer \<longleftrightarrow>
        (\<exists>e\<in>set es. Is4 (px_Addr (ai_Prefix e)) = v4 \<and> prefix_path (ai_Prefix e) = path \<and> ai_PeerID e = peer))"

definition snapshot_ok :: "AllowedIP list \<Rightarrow> Snapshot \<Rightarrow> bool" where
  "snapshot_ok es s \<longleftrightarrow>
     trie_ok (sn_v4 s) \<and> trie_ok (sn_v6 s) \<and>
     (\<forall>path. (\<forall>c\<in>set path. is_bit c) \<longrightarrow>
        family_routes es True path (routes (sn_v4 s) path) \<and> family_routes es False path (routes (sn_v6 s) path))"

definition entries_ok :: "AllowedIP list \<Rightarrow> bool" where
  "entries_ok es \<longleftrightarrow> (\<forall>e\<in>set es. validAllowedPrefix (ai_Prefix e)) \<and> distinct (map (\<lambda>e. Masked (ai_Prefix e)) es)"

text \<open>
  The contract between the snapshot and the trie: a finite map from bit strings to peers with an
  insertion that updates one key.
\<close>

locale route_map =
  fixes ok :: "'t \<Rightarrow> bool"
    and lookup :: "'t \<Rightarrow> byte list \<Rightarrow> RoutePeer option"
    and ins :: "'t \<Rightarrow> prefix \<Rightarrow> RoutePeer \<Rightarrow> 't option"
  assumes ins_ok: "ok t \<Longrightarrow> ins t p peer = Some t' \<Longrightarrow> ok t'"
    and lookup_ins: "ok t \<Longrightarrow> ins t p peer = Some t' \<Longrightarrow> \<forall>c\<in>set xs. is_bit c \<Longrightarrow>
      lookup t' xs = (if xs = prefix_path p then Some peer else lookup t xs)"
begin

lemma holds_insert:
  assumes "ok t" and "\<forall>path. (\<forall>c\<in>set path. is_bit c) \<longrightarrow> family_routes es v4 path (lookup t path)"
    and "ins t p (ai_PeerID e) = Some t'" and "prefix_path p = prefix_path (ai_Prefix e)" and "Is4 (px_Addr (ai_Prefix e)) = v4"
    and "\<And>e'. e' \<in> set es \<Longrightarrow> Is4 (px_Addr (ai_Prefix e')) = v4 \<Longrightarrow> prefix_path (ai_Prefix e') \<noteq> prefix_path (ai_Prefix e)"
  shows "ok t' \<and> (\<forall>path. (\<forall>c\<in>set path. is_bit c) \<longrightarrow> family_routes (es @ [e]) v4 path (lookup t' path))"
  using assms lookup_ins [OF assms(1,3)] ins_ok [OF assms(1,3)] by (auto simp: family_routes_def)

lemma holds_other:
  assumes "\<forall>path. (\<forall>c\<in>set path. is_bit c) \<longrightarrow> family_routes es v4 path (lookup t path)" and "Is4 (px_Addr (ai_Prefix e)) \<noteq> v4"
  shows "\<forall>path. (\<forall>c\<in>set path. is_bit c) \<longrightarrow> family_routes (es @ [e]) v4 path (lookup t path)"
  using assms by (auto simp: family_routes_def)

end

interpretation rm: route_map trie_ok routes trie_insert
  by unfold_locales (auto simp: trie_insert_ok)

lemma snapshot_loop_ok:
  assumes "snapshot_loop s seen index rest = Inr s'" and "snapshot_ok es s" and "entries_ok es"
    and "\<forall>p. seen p \<noteq> None \<longleftrightarrow> p \<in> (\<lambda>e. Masked (ai_Prefix e)) ` set es" and "\<forall>e\<in>set (es @ rest). prefix_wf (ai_Prefix e)"
  shows "snapshot_ok (es @ rest) s' \<and> entries_ok (es @ rest)"
  using assms
proof (induction rest arbitrary: s seen index es)
  case Nil
  then show ?case by simp
next
  case (Cons e rest)
  let ?p = "Masked (ai_Prefix e)" and ?v4 = "Is4 (px_Addr (ai_Prefix e))"
  have v: "validAllowedPrefix (ai_Prefix e)" using Cons.prems(1) by (auto split: if_splits)
  have wf: "prefix_wf (ai_Prefix e)" using Cons.prems(5) by simp
  have new: "seen ?p = None" using Cons.prems(1) v by (auto simp: Let_def split: option.splits)
  obtain s1 where s1: "snapshot_loop s1 (seen(?p \<mapsto> (index, ai_PeerID e))) (Suc index) rest = Inr s'"
    "if ?v4 then \<exists>t. trie_insert (sn_v4 s) ?p (ai_PeerID e) = Some t \<and> s1 = s\<lparr>sn_v4 := t\<rparr>
     else \<exists>t. trie_insert (sn_v6 s) ?p (ai_PeerID e) = Some t \<and> s1 = s\<lparr>sn_v6 := t\<rparr>"
    using Cons.prems(1) v new by (auto simp: Let_def split: if_splits option.splits)
  have fresh: "?p \<notin> (\<lambda>e. Masked (ai_Prefix e)) ` set es" using new Cons.prems(4) by (metis option.distinct(1))
  have ents: "entries_ok (es @ [e])" using Cons.prems(3) v fresh by (auto simp: entries_ok_def)
  have sep: "prefix_path (ai_Prefix e') \<noteq> prefix_path (ai_Prefix e)" if "e' \<in> set es" "Is4 (px_Addr (ai_Prefix e')) = ?v4" for e'
  proof
    assume "prefix_path (ai_Prefix e') = prefix_path (ai_Prefix e)"
    then have "Masked (ai_Prefix e') = ?p"
      using that v wf Cons.prems(3,5) by (intro Masked_inject) (auto simp: entries_ok_def)
    then show False using fresh that(1) by (metis image_eqI)
  qed
  have old: "trie_ok (sn_v4 s)" "trie_ok (sn_v6 s)"
    "\<forall>path. (\<forall>c\<in>set path. is_bit c) \<longrightarrow> family_routes es True path (routes (sn_v4 s) path)"
    "\<forall>path. (\<forall>c\<in>set path. is_bit c) \<longrightarrow> family_routes es False path (routes (sn_v6 s) path)"
    using Cons.prems(2) by (simp_all add: snapshot_ok_def)
  note path = prefix_path_Masked [OF v wf]
  have "snapshot_ok (es @ [e]) s1"
  proof (cases ?v4)
    case True
    then obtain t where t: "trie_insert (sn_v4 s) ?p (ai_PeerID e) = Some t" "s1 = s\<lparr>sn_v4 := t\<rparr>" using s1(2) by auto
    show ?thesis
      using rm.holds_insert [OF old(1,3) t(1) path] rm.holds_other [OF old(4)] True sep old(2) t(2) by (simp add: snapshot_ok_def)
  next
    case False
    then obtain t where t: "trie_insert (sn_v6 s) ?p (ai_PeerID e) = Some t" "s1 = s\<lparr>sn_v6 := t\<rparr>" using s1(2) by auto
    show ?thesis
      using rm.holds_insert [OF old(2,4) t(1) path] rm.holds_other [OF old(3)] False sep old(1) t(2) by (simp add: snapshot_ok_def)
  qed
  then show ?case
    using Cons.IH [OF s1(1) _ ents] Cons.prems(4,5) by auto
qed

lemma trie_ok_root: "trie_ok \<lparr>tr_nodes = [zero_node]\<rparr>" "routes \<lparr>tr_nodes = [zero_node]\<rparr> path = None" if "\<forall>c\<in>set path. is_bit c"
proof -
  have l: "link \<lparr>tr_nodes = [zero_node]\<rparr> 0 b = 0" if "is_bit b" for b
    using that by (auto simp: link_def zero_node_def is_bit_def less_2_cases_iff)
  then show "trie_ok \<lparr>tr_nodes = [zero_node]\<rparr>" by (auto simp: trie_ok_def zero_node_def)
  show "routes \<lparr>tr_nodes = [zero_node]\<rparr> path = None"
    using l that by (cases path) (simp_all add: routes_at_def zero_node_def)
qed

lemma NewSnapshot_ok:
  assumes "NewSnapshot es = Inr s" and "\<forall>e\<in>set es. prefix_wf (ai_Prefix e)"
  shows "snapshot_ok es s \<and> entries_ok es \<and> sn_entries s = length es"
proof -
  let ?s0 = "\<lparr>sn_v4 = \<lparr>tr_nodes = [zero_node]\<rparr>, sn_v6 = \<lparr>tr_nodes = [zero_node]\<rparr>, sn_entries = 0\<rparr>"
  obtain s1 where s1: "snapshot_loop ?s0 Map.empty 0 es = Inr s1" "s = s1\<lparr>sn_entries := length es\<rparr>"
    using assms(1) by (auto simp: NewSnapshot_def split: sum.splits)
  have "snapshot_ok [] ?s0" using trie_ok_root [of "[]"] trie_ok_root(2) by (simp add: snapshot_ok_def family_routes_def)
  then have "snapshot_ok ([] @ es) s1 \<and> entries_ok ([] @ es)"
    using assms(2) by (intro snapshot_loop_ok [OF s1(1)]) (simp_all add: entries_ok_def)
  then show ?thesis using s1(2) by (simp add: snapshot_ok_def)
qed

lemma addr_bits_bits: "\<forall>c\<in>set (addr_bits a). is_bit c"
  by (auto simp: addr_bits_def)

lemma LookupPeer_match:
  assumes "snapshot_ok es s" and "validLookupAddress a"
  shows "longest_match (routes (if Is4 a then sn_v4 s else sn_v6 s)) (addr_bits a)
    (fst (LookupPeer (Some s) a)) (snd (LookupPeer (Some s) a))"
proof -
  let ?t = "if Is4 a then sn_v4 s else sn_v6 s"
  have t: "trie_ok ?t" using assms(1) by (simp add: snapshot_ok_def)
  have "LookupPeer (Some s) a = lookup_path ?t 0 (rn_peerID (node_at ?t 0)) (rn_hasPeer (node_at ?t 0)) (addr_bits a)"
    using assms(2) trie_okD(1) [OF t] by (auto simp: LookupPeer_def lookup4_def lookup6_def addr_bits_def)
  then show ?thesis using lookup_longest [OF t addr_bits_bits] by (metis prod.collapse)
qed

lemma length_addr_bits: "length (addr_bits a) = (if Is4 a then 32 else 128)"
  by (simp add: addr_bits_def)

lemma covers_path:
  assumes "validAllowedPrefix p" and "prefix_wf p"
  shows "prefix_covers p a \<longleftrightarrow>
    Is4 (px_Addr p) = Is4 a \<and> prefix_path p = take (nat (px_Bits p)) (addr_bits a) \<and> nat (px_Bits p) \<le> length (addr_bits a)"
proof -
  have "nat (px_Bits p) \<le> length (addr_bits (px_Addr p))"
    using assms by (cases rule: valid_cases) (auto simp: length_addr_bits Is4_def)
  then show ?thesis
    using prefix_path_take [OF assms] by (auto simp: prefix_covers_def length_addr_bits)
qed

text \<open>The routes known at a prefix of the address are the entries that cover it.\<close>

lemma routes_cover:
  assumes "snapshot_ok es s" and "entries_ok es" and "\<forall>e\<in>set es. prefix_wf (ai_Prefix e)" and "k \<le> length (addr_bits a)"
  shows "routes (if Is4 a then sn_v4 s else sn_v6 s) (take k (addr_bits a)) = Some peer \<longleftrightarrow>
    (\<exists>e\<in>set es. prefix_covers (ai_Prefix e) a \<and> nat (px_Bits (ai_Prefix e)) = k \<and> ai_PeerID e = peer)"
proof -
  have bits: "\<forall>c\<in>set (take k (addr_bits a)). is_bit c" using addr_bits_bits by (meson in_set_takeD)
  have "family_routes es (Is4 a) (take k (addr_bits a)) (routes (if Is4 a then sn_v4 s else sn_v6 s) (take k (addr_bits a)))"
    using assms(1) bits by (cases "Is4 a") (auto simp: snapshot_ok_def)
  then have iff: "routes (if Is4 a then sn_v4 s else sn_v6 s) (take k (addr_bits a)) = Some peer \<longleftrightarrow>
      (\<exists>e\<in>set es. Is4 (px_Addr (ai_Prefix e)) = Is4 a \<and> prefix_path (ai_Prefix e) = take k (addr_bits a) \<and> ai_PeerID e = peer)"
    by (simp add: family_routes_def)
  have "(Is4 (px_Addr (ai_Prefix e)) = Is4 a \<and> prefix_path (ai_Prefix e) = take k (addr_bits a)) \<longleftrightarrow>
      prefix_covers (ai_Prefix e) a \<and> nat (px_Bits (ai_Prefix e)) = k" if "e \<in> set es" for e
  proof -
    have e: "validAllowedPrefix (ai_Prefix e)" "prefix_wf (ai_Prefix e)" using assms(2,3) that by (auto simp: entries_ok_def)
    have "length (prefix_path (ai_Prefix e)) = nat (px_Bits (ai_Prefix e))" by (simp add: prefix_path_def)
    then have "prefix_path (ai_Prefix e) = take k (addr_bits a) \<Longrightarrow> nat (px_Bits (ai_Prefix e)) = k"
      using assms(4) by (metis length_take min.absorb2)
    then show ?thesis using covers_path [OF e, of a] assms(4) by auto
  qed
  then show ?thesis using iff by blast
qed


text \<open>\<open>best_entry es a e\<close>: \<open>e\<close> covers \<open>a\<close> and is strictly longer than every other entry that does.\<close>

definition best_entry :: "AllowedIP list \<Rightarrow> addr \<Rightarrow> AllowedIP \<Rightarrow> bool" where
  "best_entry es a e \<longleftrightarrow>
     e \<in> set es \<and> prefix_covers (ai_Prefix e) a \<and>
     (\<forall>e'\<in>set es. prefix_covers (ai_Prefix e') a \<longrightarrow> e' = e \<or> px_Bits (ai_Prefix e') < px_Bits (ai_Prefix e))"

lemma cover_unique:
  assumes "entries_ok es" and "\<forall>e\<in>set es. prefix_wf (ai_Prefix e)" and "e \<in> set es" and "e' \<in> set es"
    and "prefix_covers (ai_Prefix e) a" and "prefix_covers (ai_Prefix e') a"
    and "nat (px_Bits (ai_Prefix e)) = nat (px_Bits (ai_Prefix e'))"
  shows "e' = e"
proof -
  have v: "validAllowedPrefix (ai_Prefix e)" "validAllowedPrefix (ai_Prefix e')" "prefix_wf (ai_Prefix e)" "prefix_wf (ai_Prefix e')"
    using assms(1-4) by (auto simp: entries_ok_def)
  have "Masked (ai_Prefix e') = Masked (ai_Prefix e)"
    using covers_path [OF v(1,3), of a] covers_path [OF v(2,4), of a] assms(5-7) v by (intro Masked_inject) auto
  moreover have "inj_on (\<lambda>e. Masked (ai_Prefix e)) (set es)" using assms(1) by (simp add: entries_ok_def distinct_map)
  ultimately show ?thesis using assms(3,4) by (auto dest: inj_onD)
qed

lemma longest_matchD:
  assumes "longest_match f bs p ok"
  shows "k \<le> length bs \<Longrightarrow> f (take k bs) = Some q \<Longrightarrow> ok"
    and "ok \<Longrightarrow> \<exists>k \<le> length bs. f (take k bs) = Some p \<and> (\<forall>k' \<le> length bs. k < k' \<longrightarrow> f (take k' bs) = None)"
  using assms unfolding longest_match_def by auto

lemma longest_is_best:
  assumes "snapshot_ok es s" and "entries_ok es" and "\<forall>e\<in>set es. prefix_wf (ai_Prefix e)"
    and "longest_match (routes (if Is4 a then sn_v4 s else sn_v6 s)) (addr_bits a) p ok"
  shows "ok \<longleftrightarrow> (\<exists>e\<in>set es. prefix_covers (ai_Prefix e) a)" and "ok \<and> p = peer \<longleftrightarrow> (\<exists>e. best_entry es a e \<and> ai_PeerID e = peer)"
proof -
  let ?f = "routes (if Is4 a then sn_v4 s else sn_v6 s)" and ?bs = "addr_bits a"
  note cov = routes_cover [OF assms(1-3)]
  have covered: "nat (px_Bits (ai_Prefix e)) \<le> length ?bs" if "e \<in> set es" "prefix_covers (ai_Prefix e) a" for e
    using covers_path [of "ai_Prefix e" a] that assms(2,3) by (auto simp: entries_ok_def)
  have known: "?f (take (nat (px_Bits (ai_Prefix e))) ?bs) = Some (ai_PeerID e)" if "e \<in> set es" "prefix_covers (ai_Prefix e) a" for e
    using cov [OF covered [OF that], of "ai_PeerID e"] that by blast
  show iff: "ok \<longleftrightarrow> (\<exists>e\<in>set es. prefix_covers (ai_Prefix e) a)"
  proof
    assume ok
    then obtain k where "k \<le> length ?bs" "?f (take k ?bs) = Some p" using longest_matchD(2) [OF assms(4)] by blast
    then show "\<exists>e\<in>set es. prefix_covers (ai_Prefix e) a" using cov by blast
  next
    assume "\<exists>e\<in>set es. prefix_covers (ai_Prefix e) a"
    then obtain e where e: "e \<in> set es" "prefix_covers (ai_Prefix e) a" by blast
    show ok by (rule longest_matchD(1) [OF assms(4) covered [OF e] known [OF e]])
  qed
  have best: "\<exists>e. best_entry es a e \<and> ai_PeerID e = p" if hit: ok
  proof -
    obtain k where k: "k \<le> length ?bs" "?f (take k ?bs) = Some p" "\<forall>k' \<le> length ?bs. k < k' \<longrightarrow> ?f (take k' ?bs) = None"
      using longest_matchD(2) [OF assms(4) hit] by blast
    obtain e where e: "e \<in> set es" "prefix_covers (ai_Prefix e) a" "nat (px_Bits (ai_Prefix e)) = k" "ai_PeerID e = p"
      using cov [OF k(1)] k(2) by blast
    have "e' = e \<or> px_Bits (ai_Prefix e') < px_Bits (ai_Prefix e)" if e': "e' \<in> set es" "prefix_covers (ai_Prefix e') a" for e'
    proof -
      have "\<not> k < nat (px_Bits (ai_Prefix e'))" using k(3) known [OF e'] covered [OF e'] by auto
      then consider "nat (px_Bits (ai_Prefix e')) = k" | "nat (px_Bits (ai_Prefix e')) < nat (px_Bits (ai_Prefix e))" using e(3) by linarith
      then show ?thesis
        using cover_unique [OF assms(2,3) e(1) e'(1) e(2) e'(2)] e(3) by cases auto
    qed
    then show ?thesis using e by (auto simp: best_entry_def)
  qed
  have "p = peer" if e: "best_entry es a e" "ai_PeerID e = peer" for e
  proof -
    have "ok" using iff e(1) by (auto simp: best_entry_def)
    then obtain e1 where "best_entry es a e1" "ai_PeerID e1 = p" using best by blast
    moreover from this have "e1 = e" using e(1) unfolding best_entry_def by fastforce
    ultimately show ?thesis using e(2) by simp
  qed
  then show "ok \<and> p = peer \<longleftrightarrow> (\<exists>e. best_entry es a e \<and> ai_PeerID e = peer)"
    using best iff by (auto simp: best_entry_def)
qed

subsection \<open>Properties\<close>

text \<open>
  C8.  \<open>LookupPeer\<close> is longest-prefix matching over the entries the snapshot was built from: it finds a
  peer exactly if some entry covers the address, and then returns the owner of the covering entry with the
  most bits, which is unique.  \<open>ValidateSource\<close> accepts exactly that owner, so a peer cannot use a source
  address that another peer owns more specifically.
\<close>

theorem LookupPeer_longest_prefix:
  assumes "NewSnapshot es = Inr s" and "\<forall>e\<in>set es. addr_wf (px_Addr (ai_Prefix e))" and "validLookupAddress a"
  shows "(snd (LookupPeer (Some s) a) \<longleftrightarrow> (\<exists>e\<in>set es. prefix_covers (ai_Prefix e) a)) \<and>
    (\<forall>peer. ValidateSource (Some s) peer a \<longleftrightarrow> (\<exists>e. best_entry es a e \<and> ai_PeerID e = peer))"
proof -
  have sn: "snapshot_ok es s" "entries_ok es" using NewSnapshot_ok [OF assms(1,2)] by auto
  note best = longest_is_best [OF sn assms(2) LookupPeer_match [OF sn(1) assms(3)]]
  have "ValidateSource (Some s) peer a \<longleftrightarrow> snd (LookupPeer (Some s) a) \<and> fst (LookupPeer (Some s) a) = peer" for peer
    by (simp add: ValidateSource_def case_prod_unfold Let_def)
  then show ?thesis using best by simp
qed

definition sample_allowed :: "AllowedIP list" where
  "sample_allowed =
     [\<lparr>ai_Prefix = \<lparr>px_Addr = Addr4 [10, 0, 0, 0], px_Bits = 0\<rparr>, ai_PeerID = 1\<rparr>,
      \<lparr>ai_Prefix = \<lparr>px_Addr = Addr4 [10, 1, 0, 0], px_Bits = 5\<rparr>, ai_PeerID = 2\<rparr>]"

definition sample_snapshot :: Snapshot where
  "sample_snapshot = projr (NewSnapshot sample_allowed)"

lemma sample_snapshot_new: "NewSnapshot sample_allowed = Inr sample_snapshot"
proof -
  have "\<not> isl (NewSnapshot sample_allowed)" by code_simp
  then show ?thesis by (simp add: sample_snapshot_def)
qed

theorem LookupPeer_longest_prefix_witness:
  "\<not> ValidateSource (Some sample_snapshot) 1 (Addr4 [10, 1, 2, 3]) \<and>
   (\<exists>e. best_entry sample_allowed (Addr4 [10, 1, 2, 3]) e \<and> ai_PeerID e = 2)"
proof -
  have v: "validLookupAddress (Addr4 [10, 1, 2, 3])" "\<forall>e\<in>set sample_allowed. addr_wf (px_Addr (ai_Prefix e))"
    by code_simp+
  have "ValidateSource (Some sample_snapshot) 2 (Addr4 [10, 1, 2, 3])" "\<not> ValidateSource (Some sample_snapshot) 1 (Addr4 [10, 1, 2, 3])"
    by code_simp+
  then show ?thesis using LookupPeer_longest_prefix [OF sample_snapshot_new v(2,1)] by blast
qed


subsection \<open>Which lists of entries are accepted\<close>

definition error_at :: "AllowedIP list \<Rightarrow> allowedip_error \<Rightarrow> bool" where
  "error_at es err =
     (case err of
        InvalidAllowedIPError i p \<Rightarrow>
          i < length es \<and> p = ai_Prefix (es ! i) \<and> \<not> validAllowedPrefix p \<and> entries_ok (take i es)
      | DuplicateAllowedIPError p i j peer peer' \<Rightarrow>
          i < j \<and> j < length es \<and> p = Masked (ai_Prefix (es ! i)) \<and> p = Masked (ai_Prefix (es ! j)) \<and>
          peer = ai_PeerID (es ! i) \<and> peer' = ai_PeerID (es ! j) \<and> entries_ok (take j es)
      | ErrTooManyAllowedIPs i \<Rightarrow> False)"

lemma entries_ok_error: "error_at es err \<Longrightarrow> \<not> entries_ok es"
  by (auto simp: error_at_def entries_ok_def distinct_conv_nth split: allowedip_error.splits) (metis less_trans less_irrefl)

definition small_trie :: "nat \<Rightarrow> routeTrie \<Rightarrow> bool" where
  "small_trie n t \<longleftrightarrow> trie_ok t \<and> length (tr_nodes t) \<le> 1 + 128 * n"

lemma small_insert:
  assumes "small_trie n t" and "validAllowedPrefix p" and "prefix_wf p" and "n < 2 ^ 24"
  obtains t' where "trie_insert t (Masked p) peer = Some t'" and "small_trie (Suc n) t'"
proof -
  have bits: "nat (px_Bits (Masked p)) \<le> 128" using assms(2,3) by (cases rule: valid_cases) auto
  moreover have len: "length (tr_nodes t) \<le> 1 + 128 * n" "trie_ok t" using assms(1) by (auto simp: small_trie_def)
  ultimately have "length (tr_nodes t) + nat (px_Bits (Masked p)) < 2 ^ 32" using assms(4) by simp
  then obtain t' where t': "trie_insert t (Masked p) peer = Some t'" "length (tr_nodes t') \<le> length (tr_nodes t) + nat (px_Bits (Masked p))"
    by (rule trie_insert_total [OF len(2)])
  have "small_trie (Suc n) t'" using trie_insert_ok(1) [OF len(2) t'(1)] t'(2) bits len(1) by (simp add: small_trie_def)
  with t'(1) show thesis by (rule that)
qed

lemma snapshot_loop_outcome:
  assumes "entries_ok es" and "small_trie (length es) (sn_v4 s)" and "small_trie (length es) (sn_v6 s)"
    and "\<forall>p i peer. seen p = Some (i, peer) \<longleftrightarrow> i < length es \<and> Masked (ai_Prefix (es ! i)) = p \<and> ai_PeerID (es ! i) = peer"
    and "\<forall>e\<in>set rest. prefix_wf (ai_Prefix e)" and "length es + length rest \<le> 2 ^ 24"
  shows "case snapshot_loop s seen (length es) rest of Inl err \<Rightarrow> error_at (es @ rest) err | Inr s' \<Rightarrow> entries_ok (es @ rest)"
  using assms
proof (induction rest arbitrary: es s seen)
  case Nil
  then show ?case by simp
next
  case (Cons e rest)
  let ?p = "Masked (ai_Prefix e)"
  consider (invalid) "\<not> validAllowedPrefix (ai_Prefix e)" | (dup) i peer where "validAllowedPrefix (ai_Prefix e)" "seen ?p = Some (i, peer)"
    | (ok) "validAllowedPrefix (ai_Prefix e)" "seen ?p = None" by (cases "seen ?p") auto
  then show ?case
  proof cases
    case invalid
    then show ?thesis using Cons.prems(1) by (simp add: error_at_def)
  next
    case dup
    then have "i < length es" "Masked (ai_Prefix (es ! i)) = ?p" "ai_PeerID (es ! i) = peer" using Cons.prems(4) by auto
    then show ?thesis using dup Cons.prems(1) by (simp add: error_at_def nth_append Let_def)
  next
    case ok
    let ?seen = "seen(?p \<mapsto> (length es, ai_PeerID e))"
    have wf: "prefix_wf (ai_Prefix e)" "length es < 2 ^ 24" using Cons.prems(5,6) by simp_all
    have small: "small_trie (Suc n) t" if "small_trie n t" for n t using that by (simp add: small_trie_def)
    have "?p \<notin> (\<lambda>e. Masked (ai_Prefix e)) ` set es"
      using Cons.prems(4) ok(2) by (auto simp: in_set_conv_nth) (metis option.distinct(1))
    then have ents: "entries_ok (es @ [e])" using Cons.prems(1) ok(1) by (auto simp: entries_ok_def)
    have seen: "\<forall>p i peer. ?seen p = Some (i, peer) \<longleftrightarrow>
        i < length (es @ [e]) \<and> Masked (ai_Prefix ((es @ [e]) ! i)) = p \<and> ai_PeerID ((es @ [e]) ! i) = peer"
      using Cons.prems(4) ok(2) by (auto simp: nth_append less_Suc_eq) (metis option.distinct(1))+
    have ih: "case snapshot_loop s1 ?seen (Suc (length es)) rest of Inl err \<Rightarrow> error_at (es @ e # rest) err | Inr s' \<Rightarrow> entries_ok (es @ e # rest)"
      if "small_trie (Suc (length es)) (sn_v4 s1)" "small_trie (Suc (length es)) (sn_v6 s1)" for s1
    proof -
      have "case snapshot_loop s1 ?seen (length (es @ [e])) rest of
          Inl err \<Rightarrow> error_at ((es @ [e]) @ rest) err | Inr s' \<Rightarrow> entries_ok ((es @ [e]) @ rest)"
        by (rule Cons.IH [OF ents _ _ seen]) (use that Cons.prems(5,6) in simp_all)
      then show ?thesis by (simp only: append_assoc append.simps length_append_singleton)
    qed
    show ?thesis
    proof (cases "Is4 (px_Addr (ai_Prefix e))")
      case True
      obtain t where t: "trie_insert (sn_v4 s) ?p (ai_PeerID e) = Some t" "small_trie (Suc (length es)) t"
        by (rule small_insert [OF Cons.prems(2) ok(1) wf])
      show ?thesis
        using ih [of "s\<lparr>sn_v4 := t\<rparr>"] t small [OF Cons.prems(3)] Cons.prems(5,6) ok True by (simp add: Let_def)
    next
      case False
      obtain t where t: "trie_insert (sn_v6 s) ?p (ai_PeerID e) = Some t" "small_trie (Suc (length es)) t"
        by (rule small_insert [OF Cons.prems(3) ok(1) wf])
      show ?thesis
        using ih [of "s\<lparr>sn_v6 := t\<rparr>"] t small [OF Cons.prems(2)] Cons.prems(5,6) ok False by (simp add: Let_def)
    qed
  qed
qed

text \<open>
  C30.  Up to \<open>2 ^ 24\<close> entries, \<open>NewSnapshot\<close> succeeds exactly if every prefix is valid and no two normalize
  to the same prefix; otherwise its error names the first offending entry and, for a duplicate, the
  earlier entry and both owners.
\<close>

theorem NewSnapshot_outcome:
  assumes "\<forall>e\<in>set es. addr_wf (px_Addr (ai_Prefix e))" and "length es \<le> 2 ^ 24"
  shows "case NewSnapshot es of
      Inr s \<Rightarrow> entries_ok es \<and> Snapshot_Len (Some s) = length es
    | Inl err \<Rightarrow> \<not> entries_ok es \<and> error_at es err"
proof -
  let ?s0 = "\<lparr>sn_v4 = \<lparr>tr_nodes = [zero_node]\<rparr>, sn_v6 = \<lparr>tr_nodes = [zero_node]\<rparr>, sn_entries = 0\<rparr>"
  have "small_trie 0 \<lparr>tr_nodes = [zero_node]\<rparr>" using trie_ok_root(1) [of "[]"] by (simp add: small_trie_def)
  then have "case snapshot_loop ?s0 Map.empty (length ([] :: AllowedIP list)) es of Inl err \<Rightarrow> error_at ([] @ es) err | Inr s' \<Rightarrow> entries_ok ([] @ es)"
    using assms by (intro snapshot_loop_outcome) (simp_all add: entries_ok_def)
  then show ?thesis using entries_ok_error by (auto simp: NewSnapshot_def Snapshot_Len_def split: sum.splits)
qed

theorem NewSnapshot_outcome_witness:
  "case NewSnapshot (sample_allowed @ [\<lparr>ai_Prefix = \<lparr>px_Addr = Addr4 [8, 7, 0, 0], px_Bits = 5\<rparr>, ai_PeerID = 9\<rparr>]) of
     Inr s \<Rightarrow> False
   | Inl err \<Rightarrow> error_at (sample_allowed @ [\<lparr>ai_Prefix = \<lparr>px_Addr = Addr4 [8, 7, 0, 0], px_Bits = 5\<rparr>, ai_PeerID = 9\<rparr>]) err"
proof -
  let ?es = "sample_allowed @ [\<lparr>ai_Prefix = \<lparr>px_Addr = Addr4 [8, 7, 0, 0], px_Bits = 5\<rparr>, ai_PeerID = 9\<rparr>]"
  have "isl (NewSnapshot ?es)" "length ?es = 3" "\<forall>e\<in>set ?es. addr_wf (px_Addr (ai_Prefix e))" by code_simp+
  then show ?thesis using NewSnapshot_outcome [of ?es] by (auto split: sum.splits)
qed

subsection \<open>Carrier addresses\<close>

lemma unique_loop_ok:
  assumes "\<forall>a. seen a \<noteq> None \<longleftrightarrow> a \<in> set as" and "distinct as" and "length as = index"
  shows "(case unique_loop sum256 seen index as keys of
      Inr as' \<Rightarrow> distinct as' \<and> (\<exists>bs. as' = as @ bs \<and> map (DeriveCarrierAddress sum256) keys = map Inr bs)
    | Inl err \<Rightarrow> \<not> (\<exists>bs. map (DeriveCarrierAddress sum256) keys = map Inr bs \<and> distinct (as @ bs)))"
  using assms
proof (induction keys arbitrary: seen index as)
  case Nil
  then show ?case by simp
next
  case (Cons key keys)
  show ?case
  proof (cases "DeriveCarrierAddress sum256 key")
    case (Inl e)
    then show ?thesis by (auto simp: Cons_eq_map_conv)
  next
    case (Inr a)
    show ?thesis
    proof (cases "seen a")
      case (Some i)
      then have "a \<in> set as" using Cons.prems(1) by (metis option.distinct(1))
      then show ?thesis using Inr Some by (auto simp: Cons_eq_map_conv)
    next
      case None
      then have "a \<notin> set as" using Cons.prems(1) by blast
      then have "case unique_loop sum256 (seen(a \<mapsto> index)) (Suc index) (as @ [a]) keys of
          Inr as' \<Rightarrow> distinct as' \<and> (\<exists>bs. as' = (as @ [a]) @ bs \<and> map (DeriveCarrierAddress sum256) keys = map Inr bs)
        | Inl err \<Rightarrow> \<not> (\<exists>bs. map (DeriveCarrierAddress sum256) keys = map Inr bs \<and> distinct ((as @ [a]) @ bs))"
        using Cons.prems by (intro Cons.IH) auto
      then show ?thesis using Inr None by (auto simp: Cons_eq_map_conv split: sum.splits)
    qed
  qed
qed

text \<open>
  C31.  Carrier addresses.  Given a hash with 32-byte digests, \<open>DeriveUniqueCarrierAddresses\<close> succeeds
  exactly if there is a key, every key is valid and no two keys collide; the addresses then come in the
  order of the keys, are pairwise distinct, and each is an address the carrier envelope accepts.
\<close>

theorem carrier_addresses_unique:
  assumes "\<forall>input. length (sum256 input) = 32"
  shows "(case DeriveUniqueCarrierAddresses sum256 keys of
      Inr as \<Rightarrow> keys \<noteq> [] \<and> map (DeriveCarrierAddress sum256) keys = map Inr as \<and> distinct as \<and>
        (\<forall>a\<in>set as. addr_wf a \<and> IsLinkLocalUnicast a \<and> validateCarrierAddress a = None)
    | Inl err \<Rightarrow> keys = [] \<or> \<not> (\<exists>as. map (DeriveCarrierAddress sum256) keys = map Inr as \<and> distinct as))"
proof (cases "keys = []")
  case True
  then show ?thesis by (simp add: DeriveUniqueCarrierAddresses_def)
next
  case False
  have a: "addr_wf a \<and> IsLinkLocalUnicast a \<and> validateCarrierAddress a = None" if key: "DeriveCarrierAddress sum256 key = Inr a" for key a
  proof -
    obtain iid where iid: "a = Addr6 (0xfe # 0x80 # 0 # 0 # 0 # 0 # 0 # 0 # iid) []" "length iid = 8"
      using key assms by (auto simp: DeriveCarrierAddress_def AddrFrom16_def Let_def split: if_splits)
    have "Uint16 [0xfe, 0x80] AND 0xffc0 = 0xfe80" by code_simp
    then have "Uint16 (0xfe # 0x80 # xs) AND 0xffc0 = 0xfe80" for xs by (simp add: Uint16_def)
    moreover have "0xfe # xs \<noteq> replicate 10 (0 :: byte) @ ys" for xs ys
    proof
      assume eq: "0xfe # xs = replicate 10 (0 :: byte) @ ys"
      have "(0xfe :: byte) = hd (replicate 10 0 @ ys)" unfolding eq [symmetric] by simp
      then show False by (simp add: hd_append)
    qed
    ultimately show ?thesis
      using iid by (simp add: addr_wf_def IsLinkLocalUnicast_def Unmap_def Is4In6_def validateCarrierAddress_def Is6_def Zone_def)
  qed
  have "case unique_loop sum256 Map.empty 0 [] keys of
      Inr as' \<Rightarrow> distinct as' \<and> (\<exists>bs. as' = [] @ bs \<and> map (DeriveCarrierAddress sum256) keys = map Inr bs)
    | Inl err \<Rightarrow> \<not> (\<exists>bs. map (DeriveCarrierAddress sum256) keys = map Inr bs \<and> distinct ([] @ bs))"
    by (rule unique_loop_ok) simp_all
  then show ?thesis
    using False a by (auto simp: DeriveUniqueCarrierAddresses_def split: sum.splits) (metis in_set_conv_nth length_map nth_map)+
qed

theorem carrier_addresses_unique_witness:
  "\<not> isl (DeriveUniqueCarrierAddresses (\<lambda>input. drop 27 input) [replicate 32 1, replicate 32 2]) \<and>
   (case DeriveUniqueCarrierAddresses (\<lambda>input. take 32 (rev input @ replicate 32 0)) [replicate 32 1, replicate 32 2] of
      Inr as \<Rightarrow> distinct as | Inl err \<Rightarrow> False)"
proof -
  let ?h = "\<lambda>input :: bytes. take 32 (rev input @ replicate 32 0)"
  have "\<not> isl (DeriveUniqueCarrierAddresses ?h [replicate 32 1, replicate 32 2])"
    "\<not> isl (DeriveUniqueCarrierAddresses (\<lambda>input. drop 27 input) [replicate 32 1, replicate 32 2])" by code_simp+
  moreover have "\<forall>input. length (?h input) = 32" by (auto simp: min_def)
  ultimately show ?thesis
    using carrier_addresses_unique [of ?h "[replicate 32 1, replicate 32 2]"] by (auto split: sum.splits)
qed

end
