(* ===== verification/Pmtu.thy ===== *)
theory Pmtu
  imports Packing "HOL-Library.Monad_Syntax"
begin

text \<open>
  \<^verbatim>\<open>internal/core/pmtu/pmtu.go\<close>, the search for the largest carrier payload of a path, and
  \<^verbatim>\<open>internal/wgadapter/pmtu.go\<close>, the payload sizes WireGuard's padding can represent.  The fields and
  methods of \<^verbatim>\<open>State\<close> are kept one by one.  \<^verbatim>\<open>beginRound\<close> and \<^verbatim>\<open>finishRound\<close> call each other; the option
  is the panic of an index outside \<^verbatim>\<open>rounds [3]uint32\<close>.
\<close>

definition ConfirmationFailureLimit :: int where "ConfirmationFailureLimit = 3"
definition SearchAttemptLimit :: int where "SearchAttemptLimit = 3"
definition minimumProbeTimeout :: duration where "minimumProbeTimeout = 100 * Millisecond"

datatype pmtu_error = pm_ErrInvalidConfig

record PmtuConfig =
  pc_Base :: u32
  pc_Ceiling :: u32
  pc_Canonicalize :: "(u32 \<Rightarrow> u32) option"
  pc_ProbeTimeout :: duration
  pc_RefreshInterval :: duration
  pc_ConfirmationInterval :: duration

record Probe =
  pb_Attempt :: u64
  pb_PayloadSize :: u32

record PmtuState =
  pm_config :: PmtuConfig
  pm_canonicalize :: "u32 \<Rightarrow> u32"
  pm_confirmed :: u32
  pm_low :: u32
  pm_bad :: u32
  pm_candidate :: u32
  pm_rounds :: "u32 list"
  pm_results :: nat
  pm_attempt :: u64
  pm_inFlight :: bool
  pm_pending :: bool
  pm_deadline :: gotime
  pm_nextRefresh :: gotime
  pm_candidateTries :: int
  pm_confirming :: bool
  pm_refreshing :: bool
  pm_confirmationCandidate :: u32
  pm_confirmFailures :: int
  pm_nextConfirmation :: gotime
  pm_blackholed :: bool
  pm_srtt :: duration
  pm_searchHint :: u32

definition identity :: "u32 \<Rightarrow> u32" where
  "identity payload = payload"

definition NewPmtu :: "PmtuConfig \<Rightarrow> pmtu_error + PmtuState" where
  "NewPmtu config =
     (if uint (pc_Base config) < DefaultCarrierPayload \<or> pc_Ceiling config < pc_Base config \<or>
         pc_ProbeTimeout config < minimumProbeTimeout \<or> pc_RefreshInterval config \<le> 0 \<or>
         pc_ConfirmationInterval config \<le> 0
      then Inl pm_ErrInvalidConfig
      else
        Inr \<lparr>pm_config = config,
             pm_canonicalize = (case pc_Canonicalize config of None \<Rightarrow> identity | Some f \<Rightarrow> f),
             pm_confirmed = pc_Base config, pm_low = 0, pm_bad = 0, pm_candidate = 0, pm_rounds = [0, 0, 0],
             pm_results = 0, pm_attempt = 0, pm_inFlight = False, pm_pending = False, pm_deadline = 0,
             pm_nextRefresh = 0, pm_candidateTries = 0, pm_confirming = False, pm_refreshing = False,
             pm_confirmationCandidate = 0, pm_confirmFailures = 0, pm_nextConfirmation = 0,
             pm_blackholed = False, pm_srtt = 0, pm_searchHint = 0\<rparr>)"

definition Outstanding :: "PmtuState \<Rightarrow> Probe option" where
  "Outstanding s =
     (if \<not> pm_inFlight s then None else Some \<lparr>pb_Attempt = pm_attempt s, pb_PayloadSize = pm_candidate s\<rparr>)"

definition AdjustCurrent :: "PmtuState \<Rightarrow> u64 \<Rightarrow> u32 \<Rightarrow> PmtuState \<times> bool" where
  "AdjustCurrent s attempt payloadSize =
     (if \<not> pm_inFlight s \<or> attempt \<noteq> pm_attempt s \<or> payloadSize < pc_Base (pm_config s) \<or>
         payloadSize > pc_Ceiling (pm_config s)
      then (s, False)
      else (s\<lparr>pm_candidate := payloadSize\<rparr>, True))"

definition Confirmed :: "PmtuState \<Rightarrow> u32" where
  "Confirmed s = pm_confirmed s"

definition Searching :: "PmtuState \<Rightarrow> bool" where
  "Searching s = (pm_pending s \<or> pm_inFlight s)"

definition Confirming :: "PmtuState \<Rightarrow> bool" where
  "Confirming s = pm_confirming s"

definition NextRefresh :: "PmtuState \<Rightarrow> gotime" where
  "NextRefresh s = pm_nextRefresh s"

definition canonicalCandidate :: "PmtuState \<Rightarrow> u32 \<Rightarrow> u32" where
  "canonicalCandidate s payload =
     (let candidate = pm_canonicalize s payload in
      if candidate < pc_Base (pm_config s) \<or> candidate > pc_Ceiling (pm_config s) then 0 else candidate)"

definition nextCandidate :: "PmtuState \<Rightarrow> u32" where
  "nextCandidate s =
     (if pm_bad s \<noteq> 0 then
        (let candidate = canonicalCandidate s (pm_low s + (pm_bad s - pm_low s) div 2) in
         if candidate \<le> pm_low s \<or> candidate \<ge> pm_bad s then 0 else candidate)
      else if pm_low s \<ge> pc_Ceiling (pm_config s) then 0
      else
        (let candidate = (if pm_low s > pc_Ceiling (pm_config s) div 2 then pc_Ceiling (pm_config s) else pm_low s * 2);
             candidate = canonicalCandidate s candidate
         in if candidate \<le> pm_low s then 0 else candidate))"

definition median :: "u32 \<Rightarrow> u32 \<Rightarrow> u32 \<Rightarrow> u32" where
  "median a b c =
     (let (a, b) = (if a > b then (b, a) else (a, b));
          b = (if b > c then c else b);
          b = (if a > b then a else b)
      in b)"

text \<open>The end of \<^verbatim>\<open>finishRound\<close>, when no further round is opened.\<close>

definition conclude :: "PmtuState \<Rightarrow> gotime \<Rightarrow> PmtuState" where
  "conclude s now =
     (let candidate = (if pm_results s = 2 then pm_rounds s ! 0
                       else median (pm_rounds s ! 0) (pm_rounds s ! 1) (pm_rounds s ! 2))
      in
      if candidate > pm_confirmed s then
        s\<lparr>pm_confirmationCandidate := candidate, pm_confirming := True, pm_candidate := candidate,
          pm_candidateTries := 0, pm_pending := True\<rparr>
      else
        s\<lparr>pm_searchHint := 0, pm_refreshing := False,
          pm_nextRefresh := now + pc_RefreshInterval (pm_config s),
          pm_nextConfirmation := now + pc_ConfirmationInterval (pm_config s)\<rparr>)"

text \<open>The assignments of \<^verbatim>\<open>beginRound\<close> and \<^verbatim>\<open>finishRound\<close> ahead of their branches.\<close>

definition open_round :: "PmtuState \<Rightarrow> PmtuState" where
  "open_round s =
     (let s1 = s\<lparr>pm_low := pc_Base (pm_config s), pm_bad := 0, pm_candidateTries := 0\<rparr>;
          s2 = s1\<lparr>pm_candidate := nextCandidate s1\<rparr>;
          hinted = canonicalCandidate s2 (pm_searchHint s2);
          s3 = (if hinted > pm_low s2 then s2\<lparr>pm_candidate := hinted\<rparr> else s2)
      in s3\<lparr>pm_searchHint := 0, pm_inFlight := False\<rparr>)"

definition close_round :: "PmtuState \<Rightarrow> PmtuState" where
  "close_round s =
     s\<lparr>pm_pending := False, pm_inFlight := False, pm_rounds := (pm_rounds s)[pm_results s := pm_low s],
       pm_results := Suc (pm_results s)\<rparr>"

lemma results_open_round [simp]: "pm_results (open_round s) = pm_results s"
  by (simp add: open_round_def Let_def)

lemma results_close_round [simp]: "pm_results (close_round s) = Suc (pm_results s)"
  by (simp add: close_round_def)

function beginRound :: "PmtuState \<Rightarrow> gotime \<Rightarrow> PmtuState option"
  and finishRound :: "PmtuState \<Rightarrow> gotime \<Rightarrow> PmtuState option" where
  "beginRound s now =
     (let s1 = open_round s in
      if pm_candidate s1 = 0 then finishRound s1 now else Some (s1\<lparr>pm_pending := True\<rparr>))"
| "finishRound s now =
     (if pm_results s \<ge> 3 then None
      else
        (let s1 = close_round s in
         if pm_results s1 = 1 then beginRound s1 now
         else if pm_results s1 = 2 \<and> pm_rounds s1 ! 0 \<noteq> pm_rounds s1 ! 1 then beginRound s1 now
         else Some (conclude s1 now)))"
  by pat_completeness auto
termination
  by (relation "measure (\<lambda>x. case x of Inl (s, now) \<Rightarrow> 2 * (3 - pm_results s) + 1 | Inr (s, now) \<Rightarrow> 2 * (3 - pm_results s))")
    (auto simp: Let_def)

declare beginRound.simps [simp del] finishRound.simps [simp del]

definition pmtu_start :: "PmtuState \<Rightarrow> gotime \<Rightarrow> bool \<Rightarrow> PmtuState option" where
  "pmtu_start s now refreshing =
     (let s = (if refreshing then s\<lparr>pm_searchHint := 0\<rparr> else s);
          s = s\<lparr>pm_results := 0, pm_confirming := False, pm_refreshing := refreshing,
                pm_confirmationCandidate := 0, pm_confirmFailures := 0, pm_nextConfirmation := 0\<rparr>
      in
      if pc_Ceiling (pm_config s) = pc_Base (pm_config s) then
        Some (s\<lparr>pm_confirmed := pc_Base (pm_config s), pm_pending := False, pm_inFlight := False, pm_searchHint := 0,
                pm_nextRefresh := now + pc_RefreshInterval (pm_config s),
                pm_nextConfirmation := now + pc_ConfirmationInterval (pm_config s)\<rparr>)
      else beginRound s now)"

definition Start :: "PmtuState \<Rightarrow> gotime \<Rightarrow> PmtuState option" where
  "Start s now = pmtu_start (s\<lparr>pm_searchHint := 0\<rparr>) now False"

definition StartWithHint :: "PmtuState \<Rightarrow> gotime \<Rightarrow> u32 \<Rightarrow> PmtuState option" where
  "StartWithHint s now hint = pmtu_start (s\<lparr>pm_searchHint := hint\<rparr>) now False"

definition RefreshDue :: "PmtuState \<Rightarrow> gotime \<Rightarrow> (PmtuState \<times> bool) option" where
  "RefreshDue s now =
     (if Searching s \<or> IsZero (pm_nextRefresh s) \<or> now < pm_nextRefresh s then Some (s, False)
      else do { s1 \<leftarrow> pmtu_start s now True; Some (s1, True) })"

definition ConfirmationDue :: "PmtuState \<Rightarrow> gotime \<Rightarrow> PmtuState \<times> bool" where
  "ConfirmationDue s now =
     (if Searching s \<or> IsZero (pm_nextConfirmation s) \<or> now < pm_nextConfirmation s then (s, False)
      else
        (s\<lparr>pm_confirming := True, pm_confirmationCandidate := 0, pm_candidate := pm_confirmed s,
           pm_candidateTries := 0, pm_pending := True\<rparr>, True))"

definition maxDuration :: duration where "maxDuration = 2 ^ 63 - 1"

definition probeTimeout :: "PmtuState \<Rightarrow> duration" where
  "probeTimeout s =
     (if pm_srtt s \<le> 0 then pc_ProbeTimeout (pm_config s)
      else if pm_srtt s > maxDuration div 4 then maxDuration
      else
        (let adaptive = 4 * pm_srtt s in
         if adaptive < minimumProbeTimeout then minimumProbeTimeout else adaptive))"

definition PmtuNext :: "PmtuState \<Rightarrow> gotime \<Rightarrow> PmtuState \<times> Probe option" where
  "PmtuNext s now =
     (if \<not> pm_pending s then (s, None)
      else
        (let s1 = s\<lparr>pm_pending := False, pm_inFlight := True, pm_attempt := pm_attempt s + 1,
                    pm_candidateTries := pm_candidateTries s + 1, pm_deadline := now + probeTimeout s\<rparr>
         in (s1, Some \<lparr>pb_Attempt = pm_attempt s1, pb_PayloadSize = pm_candidate s1\<rparr>)))"

text \<open>The common end of \<^verbatim>\<open>success\<close> and \<^verbatim>\<open>failure\<close>: the next candidate or the end of the round.\<close>

definition advance :: "PmtuState \<Rightarrow> gotime \<Rightarrow> PmtuState option" where
  "advance s now =
     (let s1 = s\<lparr>pm_candidateTries := 0\<rparr>;
          s2 = s1\<lparr>pm_candidate := nextCandidate s1\<rparr>
      in if pm_candidate s2 = 0 then finishRound s2 now else Some (s2\<lparr>pm_pending := True\<rparr>))"

definition pmtu_success :: "PmtuState \<Rightarrow> gotime \<Rightarrow> PmtuState option" where
  "pmtu_success s now = advance (s\<lparr>pm_low := pm_candidate s\<rparr>) now"

definition pmtu_failure :: "PmtuState \<Rightarrow> gotime \<Rightarrow> bool \<Rightarrow> PmtuState option" where
  "pmtu_failure s now definitive =
     (if \<not> definitive \<and> pm_candidateTries s < SearchAttemptLimit then Some (s\<lparr>pm_pending := True\<rparr>)
      else advance (s\<lparr>pm_bad := pm_candidate s\<rparr>) now)"

definition confirmSuccess :: "PmtuState \<Rightarrow> gotime \<Rightarrow> PmtuState" where
  "confirmSuccess s now =
     (if pm_confirmationCandidate s \<noteq> 0 then
        s\<lparr>pm_confirmed := pm_confirmationCandidate s, pm_confirmationCandidate := 0, pm_refreshing := False,
          pm_confirming := False, pm_pending := False, pm_confirmFailures := 0,
          pm_nextRefresh := now + pc_RefreshInterval (pm_config s),
          pm_nextConfirmation := now + pc_ConfirmationInterval (pm_config s)\<rparr>
      else
        s\<lparr>pm_confirming := False, pm_pending := False, pm_confirmFailures := 0,
          pm_nextConfirmation := now + pc_ConfirmationInterval (pm_config s)\<rparr>)"

definition confirmFailure :: "PmtuState \<Rightarrow> gotime \<Rightarrow> PmtuState option" where
  "confirmFailure s now =
     (if pm_confirmationCandidate s \<noteq> 0 then
        Some (s\<lparr>pm_confirmationCandidate := 0, pm_refreshing := False, pm_confirming := False, pm_pending := False,
                pm_confirmFailures := 0, pm_nextRefresh := now + pc_RefreshInterval (pm_config s),
                pm_nextConfirmation := now + pc_ConfirmationInterval (pm_config s)\<rparr>)
      else
        (let s1 = s\<lparr>pm_confirming := False, pm_pending := False, pm_confirmFailures := pm_confirmFailures s + 1\<rparr> in
         if pm_confirmFailures s1 < ConfirmationFailureLimit
         then Some (s1\<lparr>pm_nextConfirmation := now + pc_ConfirmationInterval (pm_config s)\<rparr>)
         else Start (s1\<lparr>pm_confirmed := pc_Base (pm_config s), pm_blackholed := True\<rparr>) now))"

definition Acknowledge :: "PmtuState \<Rightarrow> u64 \<Rightarrow> u32 \<Rightarrow> gotime \<Rightarrow> (PmtuState \<times> bool) option" where
  "Acknowledge s attempt payloadSize now =
     (if \<not> pm_inFlight s \<or> attempt \<noteq> pm_attempt s \<or> payloadSize \<noteq> pm_candidate s then Some (s, False)
      else
        (let s1 = s\<lparr>pm_inFlight := False\<rparr> in
         if pm_confirming s1 then Some (confirmSuccess s1 now, True)
         else do { s2 \<leftarrow> pmtu_success s1 now; Some (s2, True) }))"

text \<open>The common part of \<^verbatim>\<open>Fail\<close>, \<^verbatim>\<open>SoftFailCurrent\<close> and \<^verbatim>\<open>Tick\<close> once the probe counts as lost.\<close>

definition lost_probe :: "PmtuState \<Rightarrow> gotime \<Rightarrow> bool \<Rightarrow> (PmtuState \<times> bool) option" where
  "lost_probe s now definitive =
     (let s1 = s\<lparr>pm_inFlight := False\<rparr> in
      if pm_confirming s1 then do { s2 \<leftarrow> confirmFailure s1 now; Some (s2, True) }
      else do { s2 \<leftarrow> pmtu_failure s1 now definitive; Some (s2, True) })"

definition Fail :: "PmtuState \<Rightarrow> u64 \<Rightarrow> gotime \<Rightarrow> (PmtuState \<times> bool) option" where
  "Fail s attempt now =
     (if \<not> pm_inFlight s \<or> attempt \<noteq> pm_attempt s then Some (s, False) else lost_probe s now True)"

definition FailCurrent :: "PmtuState \<Rightarrow> gotime \<Rightarrow> (PmtuState \<times> bool) option" where
  "FailCurrent s now = (if \<not> pm_inFlight s then Some (s, False) else Fail s (pm_attempt s) now)"

definition SoftFailCurrent :: "PmtuState \<Rightarrow> gotime \<Rightarrow> (PmtuState \<times> bool) option" where
  "SoftFailCurrent s now = (if \<not> pm_inFlight s then Some (s, False) else lost_probe s now False)"

definition PmtuTick :: "PmtuState \<Rightarrow> gotime \<Rightarrow> (PmtuState \<times> bool) option" where
  "PmtuTick s now = (if \<not> pm_inFlight s \<or> now < pm_deadline s then Some (s, False) else lost_probe s now False)"

definition ReportBlackhole :: "PmtuState \<Rightarrow> gotime \<Rightarrow> PmtuState option" where
  "ReportBlackhole s now = Start (s\<lparr>pm_confirmed := pc_Base (pm_config s)\<rparr>) now"

definition ObserveRTT :: "PmtuState \<Rightarrow> duration \<Rightarrow> PmtuState" where
  "ObserveRTT s sample =
     (if sample \<le> 0 then s
      else if pm_srtt s = 0 then s\<lparr>pm_srtt := sample\<rparr>
      else s\<lparr>pm_srtt := pm_srtt s + go_div (sample - pm_srtt s) 8\<rparr>)"

definition TakeBlackhole :: "PmtuState \<Rightarrow> PmtuState \<times> bool" where
  "TakeBlackhole s = (s\<lparr>pm_blackholed := False\<rparr>, pm_blackholed s)"

subsection \<open>Payload sizes WireGuard's padding can represent\<close>

definition CanonicalCarrierPayload :: "u32 \<Rightarrow> u32" where
  "CanonicalCarrierPayload payload =
     (if payload < 40 then payload else (payload + 40) div 16 * 16 - 40)"

definition WireGuardDatagramSize :: "u32 \<Rightarrow> int" where
  "WireGuardDatagramSize payload = 32 + uint ((payload + 40 + 16 - 1) div 16 * 16)"

end
