(* ===== verification/PmtuInv.thy ===== *)
theory PmtuInv
  imports Pmtu
begin

text \<open>
  The invariant of the path MTU search and its consequences: confirmed sizes and probes stay between BASE
  and the ceiling, no call panics, and only a confirmation raises the confirmed size.
\<close>

definition within :: "PmtuState \<Rightarrow> u32 \<Rightarrow> bool" where
  "within s x \<longleftrightarrow> pc_Base (pm_config s) \<le> x \<and> x \<le> pc_Ceiling (pm_config s)"

definition pmtu_config_ok :: "PmtuConfig \<Rightarrow> bool" where
  "pmtu_config_ok c \<longleftrightarrow>
     613 \<le> uint (pc_Base c) \<and> pc_Base c \<le> pc_Ceiling c \<and> minimumProbeTimeout \<le> pc_ProbeTimeout c \<and>
     0 < pc_RefreshInterval c \<and> 0 < pc_ConfirmationInterval c"

text \<open>What holds in every state, and what a round in progress adds.\<close>

definition pmtu_base_ok :: "PmtuState \<Rightarrow> bool" where
  "pmtu_base_ok s \<longleftrightarrow>
     pmtu_config_ok (pm_config s) \<and> within s (pm_confirmed s) \<and> length (pm_rounds s) = 3 \<and> 0 \<le> pm_srtt s \<and>
     pm_results s \<le> 3 \<and> (\<forall>i < pm_results s. within s (pm_rounds s ! i)) \<and>
     0 \<le> pm_confirmFailures s \<and> pm_confirmFailures s < ConfirmationFailureLimit"

definition idle_confirmation :: "PmtuState \<Rightarrow> bool" where
  "idle_confirmation s \<longleftrightarrow> \<not> pm_confirming s \<and> pm_confirmationCandidate s = 0"

definition pmtu_ok :: "PmtuState \<Rightarrow> bool" where
  "pmtu_ok s \<longleftrightarrow>
     pmtu_base_ok s \<and> \<not> (pm_pending s \<and> pm_inFlight s) \<and>
     (Searching s \<longrightarrow> within s (pm_candidate s)) \<and>
     (Searching s \<and> \<not> pm_confirming s \<longrightarrow> pm_results s < 3 \<and> within s (pm_low s)) \<and>
     (pm_confirmationCandidate s \<noteq> 0 \<longrightarrow>
        pm_confirming s \<and> within s (pm_confirmationCandidate s) \<and> pm_confirmed s < pm_confirmationCandidate s)"

lemma within_cong: "pm_config s' = pm_config s \<Longrightarrow> within s' x = within s x"
  by (simp add: within_def)

lemma Base_pos: "pmtu_config_ok (pm_config s) \<Longrightarrow> within s x \<Longrightarrow> x \<noteq> 0"
  by (auto simp: pmtu_config_ok_def within_def word_le_def)

lemma canonicalCandidate_within: "canonicalCandidate s x \<noteq> 0 \<Longrightarrow> within s (canonicalCandidate s x)"
  by (auto simp: canonicalCandidate_def within_def Let_def not_less split: if_splits)

lemma nextCandidate_within: "nextCandidate s \<noteq> 0 \<Longrightarrow> within s (nextCandidate s) \<and> pm_low s < nextCandidate s"
  using canonicalCandidate_within [of s]
  by (auto simp: nextCandidate_def Let_def not_le split: if_splits)

definition keeps :: "PmtuState \<Rightarrow> PmtuState \<Rightarrow> bool" where
  "keeps s s' \<longleftrightarrow> pm_config s' = pm_config s \<and> pm_canonicalize s' = pm_canonicalize s \<and> pm_confirmed s' = pm_confirmed s \<and>
     pm_confirmFailures s' = pm_confirmFailures s \<and> pm_blackholed s' = pm_blackholed s"

lemma keeps_refl [simp]: "keeps s s"
  by (simp add: keeps_def)

lemma keeps_trans: "keeps s s1 \<Longrightarrow> keeps s1 s2 \<Longrightarrow> keeps s s2"
  by (simp add: keeps_def)

lemma keeps_base: "keeps s s' \<Longrightarrow> pmtu_base_ok s \<Longrightarrow> pm_rounds s' = pm_rounds s \<Longrightarrow> pm_results s' = pm_results s \<Longrightarrow>
  pm_srtt s' = pm_srtt s \<Longrightarrow> pmtu_base_ok s'"
  by (simp add: keeps_def pmtu_base_ok_def within_def)

lemma word_pos: "a < b \<Longrightarrow> b \<noteq> (0 :: u32)"
  by (auto simp: word_less_nat_alt)

lemma open_round_ok:
  assumes "pmtu_base_ok s" and "idle_confirmation s"
  shows "pmtu_base_ok (open_round s)" and "idle_confirmation (open_round s)" and "keeps s (open_round s)"
    and "within (open_round s) (pm_low (open_round s))" and "\<not> pm_inFlight (open_round s)"
    and "pm_candidate (open_round s) \<noteq> 0 \<Longrightarrow> within (open_round s) (pm_candidate (open_round s))"
proof -
  let ?s1 = "s\<lparr>pm_low := pc_Base (pm_config s), pm_bad := 0, pm_candidateTries := 0\<rparr>"
  let ?s2 = "?s1\<lparr>pm_candidate := nextCandidate ?s1\<rparr>"
  show k: "keeps s (open_round s)" by (simp add: open_round_def keeps_def Let_def)
  show "pmtu_base_ok (open_round s)" by (rule keeps_base [OF k assms(1)]) (simp_all add: open_round_def Let_def)
  show "idle_confirmation (open_round s)" using assms(2) by (simp add: open_round_def idle_confirmation_def Let_def)
  show "within (open_round s) (pm_low (open_round s))"
    using assms(1) by (simp add: open_round_def within_def Let_def pmtu_base_ok_def pmtu_config_ok_def)
  show "\<not> pm_inFlight (open_round s)" by (simp add: open_round_def Let_def)
  have hint: "pc_Base (pm_config s) < canonicalCandidate ?s2 (pm_searchHint s) \<Longrightarrow> within s (canonicalCandidate ?s2 (pm_searchHint s))"
    using canonicalCandidate_within [of ?s2 "pm_searchHint s"] word_pos by (simp add: within_def)
  show "pm_candidate (open_round s) \<noteq> 0 \<Longrightarrow> within (open_round s) (pm_candidate (open_round s))"
    using nextCandidate_within [of ?s1] hint by (auto simp: open_round_def Let_def within_def)
qed

lemma close_round_ok:
  assumes "pmtu_base_ok s" and "idle_confirmation s" and "within s (pm_low s)" and "pm_results s < 3"
  shows "pmtu_base_ok (close_round s)" and "idle_confirmation (close_round s)" and "keeps s (close_round s)"
    and "\<not> pm_inFlight (close_round s)" and "\<not> pm_pending (close_round s)"
  using assms
  by (auto simp: close_round_def pmtu_base_ok_def idle_confirmation_def keeps_def within_def less_Suc_eq nth_list_update)

lemma median_within: "within s a \<Longrightarrow> within s b \<Longrightarrow> within s c \<Longrightarrow> within s (median a b c)"
  by (auto simp: median_def within_def Let_def)

lemma conclude_ok:
  assumes "pmtu_base_ok s" and "idle_confirmation s" and "\<not> pm_inFlight s" and "\<not> pm_pending s" and "pm_results s = 2 \<or> pm_results s = 3"
  shows "pmtu_ok (conclude s now)" and "keeps s (conclude s now)"
proof -
  let ?c = "if pm_results s = 2 then pm_rounds s ! 0 else median (pm_rounds s ! 0) (pm_rounds s ! 1) (pm_rounds s ! 2)"
  have c: "within s ?c" using assms(1,5) by (auto simp: pmtu_base_ok_def intro!: median_within)
  show k: "keeps s (conclude s now)" by (simp add: conclude_def keeps_def Let_def)
  show "pmtu_ok (conclude s now)"
    using assms c unfolding pmtu_ok_def
    by (simp add: conclude_def Let_def idle_confirmation_def pmtu_base_ok_def within_def Searching_def)
qed

lemma rounds_ok:
  "pmtu_base_ok s \<Longrightarrow> idle_confirmation s \<Longrightarrow> pm_results s < 3 \<Longrightarrow>
     \<exists>s'. beginRound s now = Some s' \<and> pmtu_ok s' \<and> keeps s s'"
  "pmtu_base_ok s \<Longrightarrow> idle_confirmation s \<Longrightarrow> pm_results s < 3 \<Longrightarrow> within s (pm_low s) \<Longrightarrow>
     \<exists>s'. finishRound s now = Some s' \<and> pmtu_ok s' \<and> keeps s s'"
proof (induction s now and s now rule: beginRound_finishRound.induct)
  case (1 s now)
  note o = open_round_ok [OF "1.prems"(1,2)]
  show ?case
  proof (cases "pm_candidate (open_round s) = 0")
    case True
    then show ?thesis
      using "1.IH" [OF refl True o(1,2) _ o(4)] "1.prems"(3) keeps_trans [OF o(3)] by (auto simp: beginRound.simps Let_def)
  next
    case False
    have k: "keeps s ((open_round s)\<lparr>pm_pending := True\<rparr>)" using o(3) by (simp add: keeps_def)
    have "pmtu_ok ((open_round s)\<lparr>pm_pending := True\<rparr>)"
      using o False "1.prems"(3)
      by (simp add: pmtu_ok_def pmtu_base_ok_def within_def idle_confirmation_def Searching_def)
    with k False show ?thesis by (simp add: beginRound.simps Let_def)
  qed
next
  case (2 s now)
  note c = close_round_ok [OF "2.prems"(1,2,4,3)]
  have r: "\<not> pm_results s \<ge> 3" using "2.prems"(3) by simp
  consider (first) "pm_results (close_round s) = 1"
    | (third) "pm_results (close_round s) = 2" "pm_rounds (close_round s) ! 0 \<noteq> pm_rounds (close_round s) ! 1"
    | (stop) "pm_results (close_round s) = 2 \<or> pm_results (close_round s) = 3"
        "\<not> (pm_results (close_round s) = 2 \<and> pm_rounds (close_round s) ! 0 \<noteq> pm_rounds (close_round s) ! 1)"
    using "2.prems"(3) by fastforce
  then show ?case
  proof cases
    case first
    then show ?thesis
      using "2.IH"(1) [OF r refl first c(1,2)] keeps_trans [OF c(3)] r by (auto simp: finishRound.simps Let_def)
  next
    case third
    then show ?thesis
      using "2.IH"(2) [OF r refl _ _ c(1,2)] keeps_trans [OF c(3)] r by (auto simp: finishRound.simps Let_def)
  next
    case stop
    then show ?thesis
      using conclude_ok [OF c(1,2,4,5) stop(1)] keeps_trans [OF c(3)] r by (auto simp: finishRound.simps Let_def)
  qed
qed


subsection \<open>Every operation\<close>

lemma pmtu_okD:
  assumes "pmtu_ok s"
  shows "pmtu_base_ok s" and "pmtu_config_ok (pm_config s)" and "within s (pm_confirmed s)"
    and "pm_inFlight s \<Longrightarrow> \<not> pm_pending s" and "Searching s \<Longrightarrow> within s (pm_candidate s)"
    and "pm_inFlight s \<Longrightarrow> \<not> pm_confirming s \<Longrightarrow> idle_confirmation s \<and> pm_results s < 3 \<and> within s (pm_low s)"
  using assms by (auto simp: pmtu_ok_def pmtu_base_ok_def idle_confirmation_def Searching_def)

lemma start_ok:
  assumes "pmtu_base_ok s"
  shows "\<exists>s'. pmtu_start s now refreshing = Some s' \<and> pmtu_ok s' \<and> pm_config s' = pm_config s \<and> pm_canonicalize s' = pm_canonicalize s \<and>
    pm_confirmed s' = (if pc_Ceiling (pm_config s) = pc_Base (pm_config s) then pc_Base (pm_config s) else pm_confirmed s) \<and>
    pm_blackholed s' = pm_blackholed s \<and> pm_confirmFailures s' = 0"
proof -
  define s1 where "s1 = (if refreshing then s\<lparr>pm_searchHint := 0\<rparr> else s)
      \<lparr>pm_results := 0, pm_confirming := False, pm_refreshing := refreshing,
        pm_confirmationCandidate := 0, pm_confirmFailures := 0, pm_nextConfirmation := 0\<rparr>"
  have s1: "pmtu_base_ok s1" "idle_confirmation s1" "pm_results s1 < 3" "pm_config s1 = pm_config s" "pm_confirmed s1 = pm_confirmed s"
    "pm_canonicalize s1 = pm_canonicalize s" "pm_blackholed s1 = pm_blackholed s" "pm_confirmFailures s1 = 0"
    using assms by (auto simp: s1_def pmtu_base_ok_def idle_confirmation_def within_def ConfirmationFailureLimit_def)
  show ?thesis
  proof (cases "pc_Ceiling (pm_config s) = pc_Base (pm_config s)")
    case True
    then show ?thesis
      using s1 unfolding pmtu_start_def Let_def s1_def [symmetric]
      by (simp add: pmtu_ok_def pmtu_base_ok_def idle_confirmation_def within_def Searching_def)
  next
    case False
    then show ?thesis
      using s1 rounds_ok(1) [OF s1(1-3), of now] unfolding pmtu_start_def Let_def s1_def [symmetric] by (auto simp: keeps_def)
  qed
qed

lemma advance_ok:
  assumes "pmtu_base_ok s" and "idle_confirmation s" and "pm_results s < 3" and "within s (pm_low s)" and "\<not> pm_inFlight s"
  shows "\<exists>s'. advance s now = Some s' \<and> pmtu_ok s' \<and> keeps s s'"
proof -
  let ?s1 = "s\<lparr>pm_candidateTries := 0\<rparr>"
  let ?s2 = "?s1\<lparr>pm_candidate := nextCandidate ?s1\<rparr>"
  have s2: "pmtu_base_ok ?s2" "idle_confirmation ?s2" "pm_results ?s2 < 3" "within ?s2 (pm_low ?s2)"
    using assms by (auto simp: pmtu_base_ok_def idle_confirmation_def within_def)
  show ?thesis
  proof (cases "nextCandidate ?s1 = 0")
    case True
    then show ?thesis using rounds_ok(2) [OF s2, of now] by (auto simp: advance_def keeps_def)
  next
    case False
    then show ?thesis
      using nextCandidate_within [OF False] s2 assms(5)
      by (auto simp: advance_def Let_def pmtu_ok_def pmtu_base_ok_def within_def keeps_def idle_confirmation_def Searching_def)
  qed
qed

lemma confirmFailure_ok:
  assumes "pmtu_ok s" and "\<not> pm_inFlight s" and "pm_confirming s"
  shows "\<exists>s'. confirmFailure s now = Some s' \<and> pmtu_ok s' \<and> pm_config s' = pm_config s \<and> pm_canonicalize s' = pm_canonicalize s \<and>
    (pm_confirmed s' = pm_confirmed s \<or> pm_confirmed s' = pc_Base (pm_config s))"
proof (cases "pm_confirmationCandidate s \<noteq> 0 \<or> pm_confirmFailures s + 1 < ConfirmationFailureLimit")
  case True
  then show ?thesis
    using assms by (auto simp: confirmFailure_def pmtu_ok_def pmtu_base_ok_def within_def Searching_def ConfirmationFailureLimit_def)
next
  case False
  let ?s1 = "s\<lparr>pm_confirming := False, pm_pending := False, pm_confirmFailures := pm_confirmFailures s + 1,
      pm_confirmed := pc_Base (pm_config s), pm_blackholed := True, pm_searchHint := 0\<rparr>"
  have "pmtu_base_ok (?s1\<lparr>pm_confirmFailures := 0\<rparr>)"
    using assms(1) by (auto simp: pmtu_ok_def pmtu_base_ok_def within_def pmtu_config_ok_def ConfirmationFailureLimit_def)
  moreover have "pmtu_start ?s1 now False = pmtu_start (?s1\<lparr>pm_confirmFailures := 0\<rparr>) now False"
    by (simp add: pmtu_start_def Let_def)
  ultimately show ?thesis
    using start_ok [of "?s1\<lparr>pm_confirmFailures := 0\<rparr>" now False] False by (auto simp: confirmFailure_def Start_def Let_def)
qed

lemma lost_probe_ok:
  assumes "pmtu_ok s" and "pm_inFlight s"
  shows "\<exists>s'. lost_probe s now definitive = Some (s', True) \<and> pmtu_ok s' \<and> pm_config s' = pm_config s \<and> pm_canonicalize s' = pm_canonicalize s \<and>
    (pm_confirmed s' = pm_confirmed s \<or> pm_confirmed s' = pc_Base (pm_config s))"
proof -
  let ?s1 = "s\<lparr>pm_inFlight := False\<rparr>"
  have s1: "pmtu_ok ?s1" using assms by (simp add: pmtu_ok_def pmtu_base_ok_def within_def Searching_def)
  show ?thesis
  proof (cases "pm_confirming s")
    case True
    then show ?thesis using confirmFailure_ok [OF s1, of now] by (auto simp: lost_probe_def)
  next
    case False
    note f = pmtu_okD(6) [OF assms False]
    have cand: "within s (pm_candidate s)" using pmtu_okD(5) [OF assms(1)] assms(2) by (simp add: Searching_def)
    show ?thesis
    proof (cases "\<not> definitive \<and> pm_candidateTries s < SearchAttemptLimit")
      case True
      then have "lost_probe s now definitive = Some (?s1\<lparr>pm_pending := True\<rparr>, True)"
        using False by (simp add: lost_probe_def pmtu_failure_def)
      moreover have "pmtu_ok (?s1\<lparr>pm_pending := True\<rparr>)"
        using assms f False cand by (auto simp: pmtu_ok_def pmtu_base_ok_def within_def Searching_def idle_confirmation_def)
      ultimately show ?thesis by simp
    next
      case soft: False
      let ?s2 = "?s1\<lparr>pm_bad := pm_candidate ?s1\<rparr>"
      have "\<exists>s'. advance ?s2 now = Some s' \<and> pmtu_ok s' \<and> keeps ?s2 s'"
        by (rule advance_ok) (use f pmtu_okD(1) [OF assms(1)] in \<open>simp_all add: pmtu_base_ok_def within_def idle_confirmation_def\<close>)
      then show ?thesis using False soft by (auto simp: lost_probe_def pmtu_failure_def keeps_def)
    qed
  qed
qed

lemma Acknowledge_ok:
  assumes "pmtu_ok s"
  shows "\<exists>s' b. Acknowledge s attempt payload now = Some (s', b) \<and> pmtu_ok s' \<and> pm_config s' = pm_config s \<and> pm_canonicalize s' = pm_canonicalize s \<and>
    (pm_confirmed s' = pm_confirmed s \<or>
     pm_inFlight s \<and> pm_confirming s \<and> attempt = pm_attempt s \<and> payload = pm_candidate s \<and> pm_confirmationCandidate s \<noteq> 0 \<and>
     pm_confirmed s' = pm_confirmationCandidate s)"
proof (cases "\<not> pm_inFlight s \<or> attempt \<noteq> pm_attempt s \<or> payload \<noteq> pm_candidate s")
  case True
  then show ?thesis using assms by (auto simp: Acknowledge_def)
next
  case False
  then have fl: "pm_inFlight s" by simp
  show ?thesis
  proof (cases "pm_confirming s")
    case True
    then show ?thesis
      using False assms
      by (cases "pm_confirmationCandidate s = 0")
        (auto simp: Acknowledge_def Let_def confirmSuccess_def pmtu_ok_def pmtu_base_ok_def within_def Searching_def ConfirmationFailureLimit_def)
  next
    case nc: False
    note f = pmtu_okD(6) [OF assms fl nc]
    have cand: "within s (pm_candidate s)" using pmtu_okD(5) [OF assms] fl by (simp add: Searching_def)
    let ?s2 = "s\<lparr>pm_inFlight := False, pm_low := pm_candidate s\<rparr>"
    have "\<exists>s'. advance ?s2 now = Some s' \<and> pmtu_ok s' \<and> keeps ?s2 s'"
      by (rule advance_ok) (use f cand pmtu_okD(1) [OF assms] in \<open>simp_all add: pmtu_base_ok_def within_def idle_confirmation_def\<close>)
    then show ?thesis using False nc by (auto simp: Acknowledge_def pmtu_success_def keeps_def)
  qed
qed


subsection \<open>Runs\<close>

datatype pmtu_op =
    PStart gotime
  | PStartWithHint gotime u32
  | PRefreshDue gotime
  | PConfirmationDue gotime
  | PNext gotime
  | PAdjustCurrent u64 u32
  | PAcknowledge u64 u32 gotime
  | PFail u64 gotime
  | PFailCurrent gotime
  | PSoftFailCurrent gotime
  | PTick gotime
  | PReportBlackhole gotime
  | PObserveRTT duration
  | PTakeBlackhole

fun pmtu_exec :: "PmtuState \<Rightarrow> pmtu_op \<Rightarrow> PmtuState option" where
  "pmtu_exec s (PStart now) = Start s now"
| "pmtu_exec s (PStartWithHint now hint) = StartWithHint s now hint"
| "pmtu_exec s (PRefreshDue now) = map_option fst (RefreshDue s now)"
| "pmtu_exec s (PConfirmationDue now) = Some (fst (ConfirmationDue s now))"
| "pmtu_exec s (PNext now) = Some (fst (PmtuNext s now))"
| "pmtu_exec s (PAdjustCurrent attempt payload) = Some (fst (AdjustCurrent s attempt payload))"
| "pmtu_exec s (PAcknowledge attempt payload now) = map_option fst (Acknowledge s attempt payload now)"
| "pmtu_exec s (PFail attempt now) = map_option fst (Fail s attempt now)"
| "pmtu_exec s (PFailCurrent now) = map_option fst (FailCurrent s now)"
| "pmtu_exec s (PSoftFailCurrent now) = map_option fst (SoftFailCurrent s now)"
| "pmtu_exec s (PTick now) = map_option fst (PmtuTick s now)"
| "pmtu_exec s (PReportBlackhole now) = ReportBlackhole s now"
| "pmtu_exec s (PObserveRTT sample) = Some (ObserveRTT s sample)"
| "pmtu_exec s PTakeBlackhole = Some (fst (TakeBlackhole s))"

inductive pmtu_reachable :: "PmtuConfig \<Rightarrow> PmtuState \<Rightarrow> bool" for config where
  new: "NewPmtu config = Inr s \<Longrightarrow> pmtu_reachable config s"
| step: "pmtu_reachable config s \<Longrightarrow> pmtu_exec s op = Some s' \<Longrightarrow> pmtu_reachable config s'"

lemma NewPmtu_ok: "NewPmtu config = Inr s \<Longrightarrow> pmtu_ok s \<and> pm_config s = config"
  by (auto simp: NewPmtu_def pmtu_ok_def pmtu_base_ok_def pmtu_config_ok_def within_def Searching_def
      ConfirmationFailureLimit_def DefaultCarrierPayload_def not_less split: if_splits)

text \<open>
  \<open>raises s op s'\<close>: the operation is the acknowledgement, with the matching attempt and size, of the
  confirmation probe in flight, and the confirmed size becomes the candidate under confirmation.
\<close>

definition raises :: "PmtuState \<Rightarrow> pmtu_op \<Rightarrow> PmtuState \<Rightarrow> bool" where
  "raises s op s' \<longleftrightarrow>
     pm_inFlight s \<and> pm_confirming s \<and> pm_confirmationCandidate s \<noteq> 0 \<and> pm_confirmed s' = pm_confirmationCandidate s \<and>
     (\<exists>now. op = PAcknowledge (pm_attempt s) (pm_candidate s) now)"

definition pmtu_step_ok :: "PmtuState \<Rightarrow> pmtu_op \<Rightarrow> PmtuState \<Rightarrow> bool" where
  "pmtu_step_ok s op s' \<longleftrightarrow>
     pmtu_ok s' \<and> pm_config s' = pm_config s \<and> pm_canonicalize s' = pm_canonicalize s \<and>
     (pm_confirmed s' = pm_confirmed s \<or> pm_confirmed s' = pc_Base (pm_config s) \<or> raises s op s')"

lemma hint_base: "pmtu_ok s \<Longrightarrow> pmtu_base_ok (s\<lparr>pm_searchHint := h\<rparr>)"
  by (simp add: pmtu_ok_def pmtu_base_ok_def within_def)

lemma ObserveRTT_srtt:
  assumes "0 \<le> pm_srtt s"
  shows "0 \<le> pm_srtt (ObserveRTT s sample)"
proof -
  have "pm_srtt s + go_div (sample - pm_srtt s) 8 \<ge> 0" if "0 < sample"
  proof (cases "sample \<ge> pm_srtt s")
    case True
    then show ?thesis using assms by simp
  next
    case False
    then have "go_div (sample - pm_srtt s) 8 = - ((pm_srtt s - sample) div 8)" by (simp add: go_div_def)
    moreover have "(pm_srtt s - sample) div 8 \<le> pm_srtt s" using assms that False by linarith
    ultimately show ?thesis by simp
  qed
  then show ?thesis using assms by (simp add: ObserveRTT_def)
qed

lemma pmtu_exec_ok:
  assumes "pmtu_ok s"
  shows "\<exists>s'. pmtu_exec s op = Some s' \<and> pmtu_step_ok s op s'"
proof (cases op)
  case (PStart now)
  then show ?thesis using start_ok [OF hint_base [OF assms], of 0 now False] by (auto simp: Start_def pmtu_step_ok_def)
next
  case (PStartWithHint now hint)
  then show ?thesis using start_ok [OF hint_base [OF assms], of hint now False] by (auto simp: StartWithHint_def pmtu_step_ok_def)
next
  case (PRefreshDue now)
  then show ?thesis using start_ok [OF pmtu_okD(1) [OF assms], of now True] assms by (auto simp: RefreshDue_def pmtu_step_ok_def)
next
  case (PConfirmationDue now)
  then show ?thesis
    using assms by (auto simp: ConfirmationDue_def pmtu_step_ok_def pmtu_ok_def pmtu_base_ok_def within_def Searching_def)
next
  case (PNext now)
  then show ?thesis
    using assms by (auto simp: PmtuNext_def pmtu_step_ok_def pmtu_ok_def pmtu_base_ok_def within_def Searching_def Let_def)
next
  case (PAdjustCurrent attempt payload)
  then show ?thesis
    using assms by (auto simp: AdjustCurrent_def pmtu_step_ok_def pmtu_ok_def pmtu_base_ok_def within_def Searching_def)
next
  case (PAcknowledge attempt payload now)
  then show ?thesis using Acknowledge_ok [OF assms, of attempt payload now] by (auto simp: pmtu_step_ok_def raises_def)
next
  case (PFail attempt now)
  then show ?thesis using lost_probe_ok [OF assms, of now True] assms by (auto simp: Fail_def pmtu_step_ok_def)
next
  case (PFailCurrent now)
  then show ?thesis using lost_probe_ok [OF assms, of now True] assms by (auto simp: Fail_def FailCurrent_def pmtu_step_ok_def)
next
  case (PSoftFailCurrent now)
  then show ?thesis using lost_probe_ok [OF assms, of now False] assms by (auto simp: SoftFailCurrent_def pmtu_step_ok_def)
next
  case (PTick now)
  then show ?thesis using lost_probe_ok [OF assms, of now False] assms by (auto simp: PmtuTick_def pmtu_step_ok_def)
next
  case (PReportBlackhole now)
  have "pmtu_base_ok (s\<lparr>pm_confirmed := pc_Base (pm_config s), pm_searchHint := 0\<rparr>)"
    using assms by (simp add: pmtu_ok_def pmtu_base_ok_def within_def pmtu_config_ok_def)
  then show ?thesis
    using PReportBlackhole start_ok [of "s\<lparr>pm_confirmed := pc_Base (pm_config s), pm_searchHint := 0\<rparr>" now False]
    by (auto simp: ReportBlackhole_def Start_def pmtu_step_ok_def)
next
  case (PObserveRTT sample)
  have "0 \<le> pm_srtt s" using pmtu_okD(1) [OF assms] by (simp add: pmtu_base_ok_def)
  note rtt = ObserveRTT_srtt [OF this, of sample]
  obtain d where "ObserveRTT s sample = s\<lparr>pm_srtt := d\<rparr>"
  proof
    show "ObserveRTT s sample = s\<lparr>pm_srtt := pm_srtt (ObserveRTT s sample)\<rparr>" by (simp add: ObserveRTT_def)
  qed
  with rtt show ?thesis
    using PObserveRTT assms by (simp add: pmtu_step_ok_def pmtu_ok_def pmtu_base_ok_def within_def Searching_def)
next
  case PTakeBlackhole
  then show ?thesis
    using assms by (simp add: TakeBlackhole_def pmtu_step_ok_def pmtu_ok_def pmtu_base_ok_def within_def Searching_def)
qed

lemma reachable_pmtu_ok: "pmtu_reachable config s \<Longrightarrow> pmtu_ok s \<and> pm_config s = config"
proof (induction rule: pmtu_reachable.induct)
  case (new s)
  then show ?case by (rule NewPmtu_ok)
next
  case (step s op s')
  then show ?case using pmtu_exec_ok [of s op] by (auto simp: pmtu_step_ok_def)
qed

lemma probeTimeout_min:
  assumes "pmtu_config_ok (pm_config s)"
  shows "minimumProbeTimeout \<le> probeTimeout s"
proof -
  have "minimumProbeTimeout \<le> maxDuration" by (simp add: minimumProbeTimeout_def maxDuration_def Millisecond_def)
  then show ?thesis using assms by (auto simp: probeTimeout_def pmtu_config_ok_def Let_def)
qed


subsection \<open>Confirmation of the same size\<close>

text \<open>Unless an emitted frame was shorter than its candidate, the probe in flight has the size to be confirmed.\<close>

definition exact :: "PmtuState \<Rightarrow> bool" where
  "exact s \<longleftrightarrow> (pm_confirmationCandidate s \<noteq> 0 \<longrightarrow> pm_candidate s = pm_confirmationCandidate s)"

definition adjusts :: "pmtu_op \<Rightarrow> bool" where
  "adjusts op = (case op of PAdjustCurrent _ _ \<Rightarrow> True | _ \<Rightarrow> False)"

lemma exact_idle: "idle_confirmation s \<Longrightarrow> exact s"
  by (simp add: exact_def idle_confirmation_def)

lemma exact_rounds:
  "idle_confirmation s \<Longrightarrow> beginRound s now = Some s' \<Longrightarrow> exact s'"
  "idle_confirmation s \<Longrightarrow> finishRound s now = Some s' \<Longrightarrow> exact s'"
proof (induction s now and s now rule: beginRound_finishRound.induct)
  case (1 s now)
  have "idle_confirmation (open_round s)" using "1.prems"(1) by (simp add: open_round_def idle_confirmation_def Let_def)
  then show ?case
    using "1.IH" [OF refl] "1.prems"(2)
    by (auto simp: beginRound.simps [of s] Let_def exact_def idle_confirmation_def split: if_splits)
next
  case (2 s now)
  have i: "idle_confirmation (close_round s)" using "2.prems"(1) by (simp add: close_round_def idle_confirmation_def)
  then have "exact (conclude (close_round s) now)" by (simp add: conclude_def exact_def idle_confirmation_def Let_def)
  then show ?case
    using "2.IH" i "2.prems"(2) by (auto simp: finishRound.simps [of s] Let_def split: if_splits)
qed

lemma exact_start: "pmtu_start s now refreshing = Some s' \<Longrightarrow> exact s'"
  unfolding pmtu_start_def Let_def
  by (auto simp: exact_def split: if_splits dest!: exact_rounds(1) [rotated] simp: idle_confirmation_def)

lemma exact_advance: "idle_confirmation s \<Longrightarrow> advance s now = Some s' \<Longrightarrow> exact s'"
  by (auto simp: advance_def Let_def exact_def idle_confirmation_def split: if_splits dest!: exact_rounds(2) [rotated])

lemma exact_lost:
  assumes "pmtu_ok s" and "pm_inFlight s" and "lost_probe s now definitive = Some (s', b)"
  shows "exact s'"
proof (cases "pm_confirming s")
  case True
  then show ?thesis
    using assms(3) exact_start
    by (auto simp: lost_probe_def confirmFailure_def Start_def exact_def Let_def split: if_splits bind_splits)
next
  case False
  then have "idle_confirmation s" using pmtu_okD(6) [OF assms(1,2)] by simp
  then show ?thesis
    using assms(3) False
    by (auto simp: lost_probe_def pmtu_failure_def idle_confirmation_def Let_def split: if_splits bind_splits
        dest!: exact_advance [rotated]) (simp_all add: exact_def)
qed

lemma exact_exec:
  assumes "pmtu_ok s" and "exact s" and "\<not> adjusts op" and "pmtu_exec s op = Some s'"
  shows "exact s'"
proof (cases op)
  case (PAcknowledge attempt payload now)
  show ?thesis
  proof (cases "pm_inFlight s \<and> \<not> pm_confirming s")
    case True
    then have "idle_confirmation s" using pmtu_okD(6) [OF assms(1)] by simp
    then show ?thesis
      using assms(2,4) PAcknowledge True
      by (auto simp: Acknowledge_def pmtu_success_def idle_confirmation_def Let_def split: if_splits bind_splits
          dest!: exact_advance [rotated])
  next
    case False
    then show ?thesis
      using assms(2,4) PAcknowledge
      by (auto simp: Acknowledge_def confirmSuccess_def exact_def Let_def split: if_splits bind_splits)
  qed
qed (use assms exact_start exact_lost [OF assms(1)] in \<open>auto simp: Start_def StartWithHint_def RefreshDue_def ConfirmationDue_def
    PmtuNext_def adjusts_def Fail_def FailCurrent_def SoftFailCurrent_def PmtuTick_def ReportBlackhole_def ObserveRTT_def
    TakeBlackhole_def exact_def Let_def split: if_splits bind_splits\<close>)

fun pmtu_run :: "PmtuState \<Rightarrow> pmtu_op list \<Rightarrow> PmtuState option" where
  "pmtu_run s [] = Some s"
| "pmtu_run s (op # ops) = Option.bind (pmtu_exec s op) (\<lambda>s1. pmtu_run s1 ops)"

lemma pmtu_run_ok:
  "pmtu_ok s \<Longrightarrow> \<exists>s'. pmtu_run s ops = Some s' \<and> pmtu_ok s' \<and> (exact s \<and> (\<forall>op\<in>set ops. \<not> adjusts op) \<longrightarrow> exact s')"
proof (induction ops arbitrary: s)
  case Nil
  then show ?case by simp
next
  case (Cons op ops)
  obtain s1 where s1: "pmtu_exec s op = Some s1" "pmtu_ok s1" using pmtu_exec_ok [OF Cons.prems] by (auto simp: pmtu_step_ok_def)
  then show ?case using Cons.IH [OF s1(2)] exact_exec [OF Cons.prems _ _ s1(1)] by auto
qed

end
