(* ===== verification/PmtuSearch.thy ===== *)
theory PmtuSearch
  imports PmtuInv
begin

text \<open>
  What the path MTU search finds.  A path that carries exactly the payloads up to a limit answers the probes
  of size at most the limit and drops the others; on such a path the search ends, and it ends with the
  largest representable size the path carries.  The representable sizes are those of a canonicalizer, an
  interface with two providers in the code: the identity and WireGuard's padding.
\<close>

locale payload_canonicalizer =
  fixes canon :: "u32 \<Rightarrow> u32" and gap :: nat
  assumes gap_pos: "0 < gap" and gap_small: "gap \<le> 40"
    and lower: "40 \<le> unat p \<Longrightarrow> unat p < 2 ^ 31 \<Longrightarrow> 40 \<le> unat (canon p) \<and> unat (canon p) \<le> unat p"
    and never_up: "unat p < 2 ^ 31 \<Longrightarrow> canon p \<le> p"
    and dense: "40 \<le> unat p \<Longrightarrow> unat p < 2 ^ 31 \<Longrightarrow> unat p < unat (canon p) + gap"
    and idem: "40 \<le> unat p \<Longrightarrow> unat p < 2 ^ 31 \<Longrightarrow> canon (canon p) = canon p"
    and apart: "canon p = p \<Longrightarrow> canon q = q \<Longrightarrow> 40 \<le> unat p \<Longrightarrow> unat q < 2 ^ 31 \<Longrightarrow> p < q \<Longrightarrow> unat p + gap \<le> unat q"
begin

lemma canon_mono:
  assumes "40 \<le> unat p" and "unat q < 2 ^ 31" and "unat p \<le> unat q"
  shows "unat (canon p) \<le> unat (canon q)"
proof (rule ccontr)
  assume "\<not> unat (canon p) \<le> unat (canon q)"
  then have l: "canon q < canon p" by (simp add: word_less_nat_alt)
  have p: "40 \<le> unat p" "unat p < 2 ^ 31" and q: "40 \<le> unat q" "unat q < 2 ^ 31" using assms by linarith+
  have "unat (canon q) + gap \<le> unat (canon p)"
    by (rule apart [OF idem [OF q] idem [OF p] _ _ l]) (use lower [OF q] lower [OF p] p in linarith)+
  then show False using dense [OF q] lower [OF p] assms(3) by linarith
qed

text \<open>The midpoint of an interval that holds a further canonical size lies above its lower end after rounding.\<close>

lemma midpoint_above:
  assumes "40 \<le> unat low" and "canon bad = bad" and "unat bad < 2 ^ 31"
    and "canon x = x" and "low < x" and "x < bad" and "2 * unat mid + 1 \<ge> unat low + unat bad" and "unat mid \<le> unat bad"
  shows "unat low < unat (canon mid)"
proof -
  let ?c = "canon low"
  have low: "unat low < 2 ^ 31" using assms(3,5,6) by (simp add: word_less_nat_alt)
  note c = lower [OF assms(1) low] dense [OF assms(1) low] idem [OF assms(1) low]
  have "?c < x" using c assms(5) by (simp add: word_less_nat_alt)
  then have x1: "unat ?c + gap \<le> unat x" using apart [OF c(3) assms(4)] c assms(3,6) by (simp add: word_less_nat_alt)
  have x2: "unat x + gap \<le> unat bad"
    using apart [OF assms(4,2) _ assms(3,6)] assms(1,5) by (simp add: word_less_nat_alt)
  have mid: "40 \<le> unat mid" "unat mid < 2 ^ 31"
    using assms(1,3,5-8) by (simp_all add: word_less_nat_alt)
  let ?x0 = "canon mid"
  note m = lower [OF mid] dense [OF mid] idem [OF mid]
  show ?thesis
  proof (rule ccontr)
    assume n: "\<not> unat low < unat ?x0"
    have "unat ?c < unat low + 1" using c by simp
    have ge: "unat (canon low) \<ge> unat ?x0"
      using canon_mono [of ?x0 low] m n low by simp
    have "unat mid < unat ?c + gap" using m(2) ge by linarith
    moreover have "2 * unat mid + 1 \<ge> unat ?c + (unat ?c + 2 * gap)" using assms(7) c x1 x2 by linarith
    ultimately show False by linarith
  qed
qed

end

lemma bucket:
  fixes n :: nat
  shows "n div 16 * 16 \<le> n" and "n < n div 16 * 16 + 16" and "80 \<le> n \<Longrightarrow> 80 \<le> n div 16 * 16"
  by presburger+

lemma unat_CanonicalCarrierPayload:
  assumes "40 \<le> unat p" and "unat p < 2 ^ 31"
  shows "unat (CanonicalCarrierPayload p) = (unat p + 40) div 16 * 16 - 40"
proof -
  have a: "unat (p + 40) = unat p + 40" using assms by (subst unat_add_lem [THEN iffD1]) simp_all
  have d: "unat ((p + 40) div 16) = (unat p + 40) div 16" by (simp add: unat_div a)
  have m: "unat ((p + 40) div 16 * 16) = (unat p + 40) div 16 * 16"
    using assms d by (subst unat_mult_lem [THEN iffD1]) simp_all
  have "80 \<le> (unat p + 40) div 16 * 16" using assms(1) by (intro bucket(3)) simp
  then have "unat ((p + 40) div 16 * 16 - 40) = (unat p + 40) div 16 * 16 - 40"
    using m by (subst unat_sub) (simp_all add: word_le_nat_alt)
  moreover have "\<not> p < 40" using assms(1) by (simp add: word_less_nat_alt)
  ultimately show ?thesis by (simp add: CanonicalCarrierPayload_def)
qed

interpretation plain: payload_canonicalizer identity 1
  by unfold_locales (auto simp: identity_def word_less_nat_alt)

lemma padded_mod: "40 \<le> unat p \<Longrightarrow> unat p < 2 ^ 31 \<Longrightarrow> CanonicalCarrierPayload p = p \<Longrightarrow> (unat p + 40) mod 16 = 0"
proof -
  assume p: "40 \<le> unat p" "unat p < 2 ^ 31" "CanonicalCarrierPayload p = p"
  have "unat p + 40 = (unat p + 40) div 16 * 16" 
    using unat_CanonicalCarrierPayload [OF p(1,2)] p(1,3) bucket(3) [of "unat p + 40"] by simp
  then show ?thesis by (metis mod_mult_self2_is_0)
qed

interpretation padded: payload_canonicalizer CanonicalCarrierPayload 16
proof unfold_locales
  fix p :: u32
  assume p: "40 \<le> unat p" "unat p < 2 ^ 31"
  note u = unat_CanonicalCarrierPayload [OF p]
  have b: "80 \<le> (unat p + 40) div 16 * 16" using p by (intro bucket(3)) simp
  show r: "40 \<le> unat (CanonicalCarrierPayload p) \<and> unat (CanonicalCarrierPayload p) \<le> unat p"
    using u b bucket(1) [of "unat p + 40"] by linarith
  show "unat p < unat (CanonicalCarrierPayload p) + 16" using u p bucket [of "unat p + 40"] by simp
  have "unat (CanonicalCarrierPayload (CanonicalCarrierPayload p)) = unat (CanonicalCarrierPayload p)"
    using r p unat_CanonicalCarrierPayload [of "CanonicalCarrierPayload p"] u bucket(3) [of "unat p + 40"] by simp
  then show "CanonicalCarrierPayload (CanonicalCarrierPayload p) = CanonicalCarrierPayload p" by (simp add: word_unat_eq_iff)
next
  fix p :: u32
  assume "unat p < 2 ^ 31"
  then show "CanonicalCarrierPayload p \<le> p"
    using unat_CanonicalCarrierPayload [of p] bucket(1) [of "unat p + 40"]
    by (cases "p < 40") (auto simp: CanonicalCarrierPayload_def word_le_nat_alt word_less_nat_alt)
next
  fix p q :: u32
  assume pq: "CanonicalCarrierPayload p = p" "CanonicalCarrierPayload q = q" "40 \<le> unat p" "unat q < 2 ^ 31" "p < q"
  have l: "unat p < unat q" using pq(5) by (simp add: word_less_nat_alt)
  have "(unat p + 40) mod 16 = 0" "(unat q + 40) mod 16 = 0" using padded_mod pq l by simp_all
  then show "unat p + 16 \<le> unat q" using l by presburger
qed simp_all


subsection \<open>A path with a limit\<close>

text \<open>
  \<open>probe_path fuel M rtt s now\<close>: while a search is running, send the next probe, and either receive its
  acknowledgement after \<open>rtt\<close> or, when the probe is longer than the limit \<open>M\<close>, see its deadline pass.
\<close>

definition probe_once :: "u32 \<Rightarrow> duration \<Rightarrow> PmtuState \<Rightarrow> gotime \<Rightarrow> (PmtuState \<times> gotime) option" where
  "probe_once M rtt s now =
     (case PmtuNext s now of
        (s1, None) \<Rightarrow> None
      | (s1, Some p) \<Rightarrow>
          if pb_PayloadSize p \<le> M then
            do { (s2, _) \<leftarrow> Acknowledge s1 (pb_Attempt p) (pb_PayloadSize p) (now + rtt); Some (s2, now + rtt) }
          else do { (s2, _) \<leftarrow> PmtuTick s1 (pm_deadline s1); Some (s2, pm_deadline s1) })"

fun probe_path :: "nat \<Rightarrow> u32 \<Rightarrow> duration \<Rightarrow> PmtuState \<Rightarrow> gotime \<Rightarrow> PmtuState option" where
  "probe_path 0 M rtt s now = None"
| "probe_path (Suc fuel) M rtt s now =
     (if \<not> Searching s then Some s
      else do { (s1, now1) \<leftarrow> probe_once M rtt s now; probe_path fuel M rtt s1 now1 })"

text \<open>The search ends within \<open>n\<close> probes, with \<open>result\<close> confirmed.\<close>

definition settles :: "nat \<Rightarrow> u32 \<Rightarrow> duration \<Rightarrow> PmtuState \<Rightarrow> gotime \<Rightarrow> u32 \<Rightarrow> bool" where
  "settles n M rtt s now result \<longleftrightarrow>
     (\<exists>s'. (\<forall>fuel > n. probe_path fuel M rtt s now = Some s') \<and> \<not> Searching s' \<and> Confirmed s' = result)"

lemma settles_stop: "\<not> Searching s \<Longrightarrow> settles n M rtt s now (pm_confirmed s)"
  unfolding settles_def by (rule exI [of _ s]) (auto simp: Confirmed_def gr0_conv_Suc dest!: less_imp_Suc_add)

lemma settles_step:
  assumes "Searching s" and "probe_once M rtt s now = Some (s1, now1)" and "settles n M rtt s1 now1 result" and "n < m"
  shows "settles m M rtt s now result"
proof -
  obtain s' where s': "\<forall>fuel > n. probe_path fuel M rtt s1 now1 = Some s'" "\<not> Searching s'" "Confirmed s' = result"
    using assms(3) by (auto simp: settles_def)
  have "probe_path fuel M rtt s now = Some s'" if "m < fuel" for fuel
    using that assms(1,2,4) s'(1) by (cases fuel) auto
  then show ?thesis using s' by (auto simp: settles_def)
qed

lemma settles_mono: "settles n M rtt s now result \<Longrightarrow> n \<le> m \<Longrightarrow> settles m M rtt s now result"
  by (auto simp: settles_def)

subsection \<open>One round\<close>

text \<open>The largest payload the path and the configuration allow, in the canonicalizer's sizes.\<close>

definition best_payload :: "PmtuState \<Rightarrow> u32 \<Rightarrow> u32" where
  "best_payload s M = max (pc_Base (pm_config s)) (pm_canonicalize s (min M (pc_Ceiling (pm_config s))))"

definition bounds_ok :: "PmtuState \<Rightarrow> u32 \<Rightarrow> bool" where
  "bounds_ok s M \<longleftrightarrow>
     (pm_low s = pc_Base (pm_config s) \<or> pm_canonicalize s (pm_low s) = pm_low s \<and> pm_low s \<le> M) \<and>
     (pm_bad s \<noteq> 0 \<longrightarrow> pm_canonicalize s (pm_bad s) = pm_bad s \<and> M < pm_bad s \<and> pm_low s < pm_bad s \<and> within s (pm_bad s))"

text \<open>How far the round is from its end, counting the attempts left for the candidate.\<close>

definition interval :: "PmtuState \<Rightarrow> nat" where
  "interval s = (if pm_bad s = 0 then Suc (unat (pc_Ceiling (pm_config s))) else unat (pm_bad s)) - unat (pm_low s)"

definition search_ok :: "PmtuState \<Rightarrow> u32 \<Rightarrow> bool" where
  "search_ok s M \<longleftrightarrow>
     pmtu_base_ok s \<and> idle_confirmation s \<and> within s (pm_low s) \<and> bounds_ok s M \<and> pm_results s < 3 \<and>
     unat (pc_Ceiling (pm_config s)) < 2 ^ 31"

definition round_ok :: "PmtuState \<Rightarrow> u32 \<Rightarrow> bool" where
  "round_ok s M \<longleftrightarrow>
     search_ok s M \<and> pm_pending s \<and> \<not> pm_inFlight s \<and> pm_candidate s = nextCandidate s \<and> pm_candidate s \<noteq> 0 \<and>
     0 \<le> pm_candidateTries s \<and> pm_candidateTries s < SearchAttemptLimit"

text \<open>The size \<^const>\<open>nextCandidate\<close> rounds.\<close>

definition probe_point :: "PmtuState \<Rightarrow> u32" where
  "probe_point s =
     (if pm_bad s \<noteq> 0 then pm_low s + (pm_bad s - pm_low s) div 2
      else if pm_low s > pc_Ceiling (pm_config s) div 2 then pc_Ceiling (pm_config s) else pm_low s * 2)"

lemma nextCandidate_point:
  "nextCandidate s =
     (if pm_bad s = 0 \<and> pm_low s \<ge> pc_Ceiling (pm_config s) then 0
      else
        (let candidate = canonicalCandidate s (probe_point s) in
         if candidate \<le> pm_low s \<or> pm_bad s \<noteq> 0 \<and> candidate \<ge> pm_bad s then 0 else candidate))"
  by (simp add: nextCandidate_def probe_point_def Let_def)

lemma unat_midpoint:
  assumes "a \<le> (b :: u32)"
  shows "unat (a + (b - a) div 2) = unat a + (unat b - unat a) div 2"
proof -
  have d: "unat ((b - a) div 2) = (unat b - unat a) div 2" using assms by (simp add: unat_div unat_sub)
  have "unat a + (unat b - unat a) div 2 < 2 ^ 32" using unsigned_less [where 'a = nat, of b] assms by (simp add: word_le_nat_alt)
  then show ?thesis using d by (subst unat_add_lem [THEN iffD1]) simp_all
qed

lemma unat_double: "a \<le> (b :: u32) div 2 \<Longrightarrow> unat (a * 2) = 2 * unat a"
  using unsigned_less [where 'a = nat, of b] by (subst unat_mult_lem [THEN iffD1]) (simp_all add: word_le_nat_alt unat_div)

lemma probe_point_bounds:
  assumes "search_ok s M"
  shows "unat (pm_low s) \<le> unat (probe_point s)" and "unat (probe_point s) \<le> unat (pc_Ceiling (pm_config s))"
    and "pm_bad s \<noteq> 0 \<Longrightarrow> unat (pm_low s) + unat (pm_bad s) \<le> 2 * unat (probe_point s) + 1 \<and> unat (probe_point s) < unat (pm_bad s)"
    and "pm_bad s = 0 \<Longrightarrow> probe_point s = pc_Ceiling (pm_config s) \<or> unat (probe_point s) = 2 * unat (pm_low s)"
proof -
  let ?C = "pc_Ceiling (pm_config s)"
  have l: "unat (pm_low s) \<le> unat ?C" using assms by (simp add: search_ok_def within_def word_le_nat_alt)
  have bad: "unat (pm_low s) < unat (pm_bad s)" "unat (pm_bad s) \<le> unat ?C"
    "unat (probe_point s) = unat (pm_low s) + (unat (pm_bad s) - unat (pm_low s)) div 2" if "pm_bad s \<noteq> 0"
    using assms that unat_midpoint [of "pm_low s" "pm_bad s"]
    by (auto simp: search_ok_def bounds_ok_def within_def word_le_nat_alt word_less_nat_alt probe_point_def)
  have none: "probe_point s = ?C \<or> unat (probe_point s) = 2 * unat (pm_low s) \<and> 2 * unat (pm_low s) \<le> unat ?C" if "pm_bad s = 0"
    using that unat_double [of "pm_low s" ?C] by (auto simp: probe_point_def not_less word_le_nat_alt unat_div)
  show "unat (pm_low s) \<le> unat (probe_point s)" "unat (probe_point s) \<le> unat ?C"
    using l bad none by (cases "pm_bad s = 0"; fastforce)+
  show "pm_bad s \<noteq> 0 \<Longrightarrow> unat (pm_low s) + unat (pm_bad s) \<le> 2 * unat (probe_point s) + 1 \<and> unat (probe_point s) < unat (pm_bad s)"
    using bad by linarith
  show "pm_bad s = 0 \<Longrightarrow> probe_point s = ?C \<or> unat (probe_point s) = 2 * unat (pm_low s)" using none by auto
qed

context payload_canonicalizer
begin

lemma search_ranges:
  assumes "search_ok s M"
  shows "613 \<le> unat (pc_Base (pm_config s))" and "unat (pc_Base (pm_config s)) \<le> unat (pm_low s)"
    and "unat (pm_low s) \<le> unat (pc_Ceiling (pm_config s))" and "unat (pc_Ceiling (pm_config s)) < 2 ^ 31"
proof -
  have "613 \<le> uint (pc_Base (pm_config s))" using assms by (simp add: search_ok_def pmtu_base_ok_def pmtu_config_ok_def)
  then show "613 \<le> unat (pc_Base (pm_config s))"
    using uint_nat [of "pc_Base (pm_config s)"] by linarith
qed (use assms in \<open>simp_all add: search_ok_def within_def word_le_nat_alt\<close>)

lemma next_canonical:
  assumes "search_ok s M" and "pm_canonicalize s = canon" and "nextCandidate s \<noteq> 0"
  shows "canon (nextCandidate s) = nextCandidate s"
    and "pm_bad s \<noteq> 0 \<Longrightarrow> nextCandidate s < pm_bad s"
    and "within s (nextCandidate s)" and "pm_low s < nextCandidate s"
proof -
  note r = search_ranges [OF assms(1)]
  have idem_cc: "canonicalCandidate s x \<noteq> 0 \<Longrightarrow> canonicalCandidate s x = canon x" for x
    using assms(2) by (auto simp: canonicalCandidate_def Let_def split: if_splits)
  show w: "within s (nextCandidate s)" "pm_low s < nextCandidate s" using nextCandidate_within [OF assms(3)] by auto
  show "pm_bad s \<noteq> 0 \<Longrightarrow> nextCandidate s < pm_bad s"
    using assms(3) by (auto simp: nextCandidate_def Let_def split: if_splits)
  have "nextCandidate s = canonicalCandidate s (probe_point s)"
    using assms(3) by (auto simp: nextCandidate_point Let_def split: if_splits)
  then have "nextCandidate s = canon (probe_point s)" using idem_cc assms(3) by simp
  then show "canon (nextCandidate s) = nextCandidate s"
    using idem [of "probe_point s"] probe_point_bounds [OF assms(1)] r by simp
qed

text \<open>When no candidate is left, the lower bound of the round is the answer.\<close>

lemma round_result:
  assumes ok: "search_ok s M" and c: "pm_canonicalize s = canon" and none: "nextCandidate s = 0"
  shows "pm_low s = best_payload s M"
proof -
  let ?B = "pc_Base (pm_config s)" let ?C = "pc_Ceiling (pm_config s)" let ?m = "min M ?C"
  note r = search_ranges [OF ok]
  note pp = probe_point_bounds [OF ok]
  have pr: "40 \<le> unat (probe_point s)" "unat (probe_point s) < 2 ^ 31" using pp r by linarith+
  have m31: "unat ?m < 2 ^ 31" using r by (simp add: min_def word_le_nat_alt)
  have small: "unat (canon ?m) \<le> unat (pm_low s)" if hi: "40 \<le> unat ?m" "pm_low s < canon ?m"
  proof -
    note m = lower [OF hi(1) m31] dense [OF hi(1) m31] idem [OF hi(1) m31]
    have mC: "unat ?m \<le> unat ?C" by (simp add: min_def word_le_nat_alt)
    have lt: "unat (pm_low s) < unat (canon ?m)" using hi(2) by (simp add: word_less_nat_alt)
    have cc: "canonicalCandidate s (probe_point s) = canon (probe_point s)" if "pm_low s < canon (probe_point s)"
      using that c pp(2) r lower [OF pr] by (auto simp: canonicalCandidate_def Let_def word_less_nat_alt)
    have notpoint: "\<not> (pm_low s < canon (probe_point s) \<and> (pm_bad s \<noteq> 0 \<longrightarrow> canon (probe_point s) < pm_bad s))"
      using none cc lt mC m word_pos by (auto simp: nextCandidate_point Let_def word_le_nat_alt word_less_nat_alt split: if_splits)
    show ?thesis
    proof (cases "pm_bad s = 0")
      case True
      then have "unat (canon (probe_point s)) \<le> unat (pm_low s)" using notpoint by (simp add: word_less_nat_alt)
      moreover have "unat (canon (probe_point s)) > unat (pm_low s)" if "unat (probe_point s) = 2 * unat (pm_low s)"
        using that dense [OF pr] r gap_small by linarith
      moreover have "unat (canon ?m) \<le> unat (canon ?C)" using canon_mono [OF hi(1) r(4) mC] .
      ultimately show ?thesis using pp(4) [OF True] by fastforce
    next
      case False
      have b: "canon (pm_bad s) = pm_bad s" "M < pm_bad s" "unat (pm_bad s) < 2 ^ 31"
        using ok False c r by (auto simp: search_ok_def bounds_ok_def within_def word_le_nat_alt)
      have mb: "canon ?m < pm_bad s" using m b(2) by (auto simp: word_less_nat_alt word_le_nat_alt min_def split: if_splits)
      have "unat (pm_low s) < unat (canon (probe_point s))"
        by (rule midpoint_above [OF _ b(1,3) m(3) hi(2) mb]) (use pp(3) [OF False] r in linarith)+
      then show ?thesis using notpoint lower [OF pr] pp(3) [OF False] by (simp add: word_less_nat_alt)
    qed
  qed
  have ge: "canon ?m \<le> pm_low s"
  proof (cases "40 \<le> unat ?m")
    case True
    then show ?thesis using small by (cases "pm_low s < canon ?m") (simp_all add: word_le_nat_alt word_less_nat_alt)
  next
    case False
    then show ?thesis using never_up [OF m31] r by (simp add: word_le_nat_alt)
  qed
  have "pm_low s = ?B \<or> pm_low s \<le> canon ?m"
  proof (cases "pm_low s = ?B")
    case False
    then have l: "canon (pm_low s) = pm_low s" "pm_low s \<le> M" using ok c by (auto simp: search_ok_def bounds_ok_def)
    have "unat (canon (pm_low s)) \<le> unat (canon ?m)"
      by (rule canon_mono [OF _ m31]) (use l(2) r in \<open>auto simp: min_def word_le_nat_alt\<close>)
    then show ?thesis using l(1) by (simp add: word_le_nat_alt)
  qed simp
  moreover have "?B \<le> pm_low s" using r by (simp add: word_le_nat_alt)
  ultimately show ?thesis using ge c by (auto simp: best_payload_def max_def)
qed

end

definition same_round :: "PmtuState \<Rightarrow> PmtuState \<Rightarrow> bool" where
  "same_round s t \<longleftrightarrow>
     pm_config t = pm_config s \<and> pm_canonicalize t = pm_canonicalize s \<and> pm_confirmed t = pm_confirmed s \<and>
     pm_rounds t = pm_rounds s \<and> pm_results t = pm_results s \<and> pm_searchHint t = pm_searchHint s"

lemma same_round_trans: "same_round s t \<Longrightarrow> same_round t u \<Longrightarrow> same_round s u"
  by (simp add: same_round_def)

lemma best_payload_cong: "same_round s t \<Longrightarrow> best_payload t M = best_payload s M"
  by (simp add: same_round_def best_payload_def)

lemma nextCandidate_cong:
  "pm_low t = pm_low s \<Longrightarrow> pm_bad t = pm_bad s \<Longrightarrow> pm_config t = pm_config s \<Longrightarrow> pm_canonicalize t = pm_canonicalize s \<Longrightarrow>
     nextCandidate t = nextCandidate s"
  by (simp add: nextCandidate_def canonicalCandidate_def)

text \<open>What one probe of a round does, and its three outcomes: a larger lower bound, a retry, a smaller upper bound.\<close>

definition sent :: "PmtuState \<Rightarrow> gotime \<Rightarrow> PmtuState" where
  "sent s now = (fst (PmtuNext s now))\<lparr>pm_inFlight := False\<rparr>"

lemma probe_once_search:
  assumes "pm_pending s" and "\<not> pm_confirming s"
  shows "probe_once M rtt s now =
    (if pm_candidate s \<le> M
     then do { s2 \<leftarrow> advance ((sent s now)\<lparr>pm_low := pm_candidate s\<rparr>) (now + rtt); Some (s2, now + rtt) }
     else if pm_candidateTries s + 1 < SearchAttemptLimit
     then Some ((sent s now)\<lparr>pm_pending := True\<rparr>, now + probeTimeout s)
     else do { s2 \<leftarrow> advance ((sent s now)\<lparr>pm_bad := pm_candidate s\<rparr>) (now + probeTimeout s); Some (s2, now + probeTimeout s) })"
  using assms
  by (simp add: probe_once_def sent_def PmtuNext_def Let_def Acknowledge_def PmtuTick_def lost_probe_def pmtu_success_def
      pmtu_failure_def bind_assoc)

lemma advance_cases:
  "advance t now =
     (let t' = t\<lparr>pm_candidateTries := 0, pm_candidate := nextCandidate t\<rparr> in
      if nextCandidate t = 0 then finishRound t' now else Some (t'\<lparr>pm_pending := True\<rparr>))"
  using nextCandidate_cong [of "t\<lparr>pm_candidateTries := 0\<rparr>" t] by (simp add: advance_def)

lemma search_ok_cong:
  "search_ok s M \<Longrightarrow> same_round s t \<Longrightarrow> pm_low t = pm_low s \<Longrightarrow> pm_bad t = pm_bad s \<Longrightarrow> pm_srtt t = pm_srtt s \<Longrightarrow>
     pm_confirming t = pm_confirming s \<Longrightarrow> pm_confirmationCandidate t = pm_confirmationCandidate s \<Longrightarrow>
     pm_confirmFailures t = pm_confirmFailures s \<Longrightarrow> search_ok t M"
  by (simp add: search_ok_def same_round_def pmtu_base_ok_def idle_confirmation_def within_def bounds_ok_def)

text \<open>
  \<open>concludes n s M rtt result\<close>: however the round of \<open>s\<close> arrives at its answer, what follows settles
  within \<open>n\<close> probes.
\<close>

definition concludes :: "nat \<Rightarrow> PmtuState \<Rightarrow> u32 \<Rightarrow> duration \<Rightarrow> u32 \<Rightarrow> bool" where
  "concludes n s M rtt result \<longleftrightarrow>
     (\<forall>t now. search_ok t M \<and> same_round s t \<and> pm_low t = best_payload s M \<longrightarrow>
        (\<exists>s'. finishRound t now = Some s' \<and> settles n M rtt s' now result))"

lemma concludes_cong: "same_round s t \<Longrightarrow> concludes n s M rtt result \<Longrightarrow> concludes n t M rtt result"
  unfolding concludes_def using same_round_trans best_payload_cong by metis

context payload_canonicalizer
begin

lemma raised_bound:
  assumes "round_ok s M" and "pm_canonicalize s = canon" and "pm_candidate s \<le> M"
  shows "search_ok ((sent s now)\<lparr>pm_low := pm_candidate s\<rparr>) M"
    and "interval ((sent s now)\<lparr>pm_low := pm_candidate s\<rparr>) < interval s"
proof -
  have s: "search_ok s M" and n: "nextCandidate s = pm_candidate s" "nextCandidate s \<noteq> 0" using assms(1) by (auto simp: round_ok_def)
  note c = next_canonical [OF s assms(2) n(2), unfolded n(1)]
  show "search_ok ((sent s now)\<lparr>pm_low := pm_candidate s\<rparr>) M"
    using s c assms(2,3) by (auto simp: search_ok_def sent_def PmtuNext_def Let_def pmtu_base_ok_def idle_confirmation_def within_def bounds_ok_def)
  show "interval ((sent s now)\<lparr>pm_low := pm_candidate s\<rparr>) < interval s"
    using c(2-4) by (auto simp: interval_def sent_def PmtuNext_def Let_def within_def word_le_nat_alt word_less_nat_alt)
qed

lemma lowered_bound:
  assumes "round_ok s M" and "pm_canonicalize s = canon" and "\<not> pm_candidate s \<le> M"
  shows "search_ok ((sent s now)\<lparr>pm_bad := pm_candidate s\<rparr>) M"
    and "interval ((sent s now)\<lparr>pm_bad := pm_candidate s\<rparr>) < interval s"
proof -
  have s: "search_ok s M" and n: "nextCandidate s = pm_candidate s" "nextCandidate s \<noteq> 0" using assms(1) by (auto simp: round_ok_def)
  note c = next_canonical [OF s assms(2) n(2), unfolded n(1)]
  show "search_ok ((sent s now)\<lparr>pm_bad := pm_candidate s\<rparr>) M"
    using s c assms(2,3) by (auto simp: search_ok_def sent_def PmtuNext_def Let_def pmtu_base_ok_def idle_confirmation_def within_def bounds_ok_def)
  show "interval ((sent s now)\<lparr>pm_bad := pm_candidate s\<rparr>) < interval s"
    using c(2-4) n by (auto simp: interval_def sent_def PmtuNext_def Let_def within_def word_le_nat_alt word_less_nat_alt)
qed


lemma advance_settles:
  assumes "search_ok t M" and "pm_canonicalize t = canon" and "concludes n t M rtt result" and "\<not> pm_inFlight t"
    and go: "\<And>t' now'. round_ok t' M \<Longrightarrow> same_round t t' \<Longrightarrow> interval t' = interval t \<Longrightarrow> pm_candidateTries t' = 0 \<Longrightarrow>
      settles (n + 3 * interval t) M rtt t' now' result"
  shows "\<exists>s'. advance t now = Some s' \<and> settles (n + 3 * interval t) M rtt s' now result"
proof -
  let ?t = "t\<lparr>pm_candidateTries := 0, pm_candidate := nextCandidate t\<rparr>"
  have same: "same_round t ?t" by (simp add: same_round_def)
  have ok: "search_ok ?t M" by (rule search_ok_cong [OF assms(1) same]) simp_all
  show ?thesis
  proof (cases "nextCandidate t = 0")
    case True
    have "pm_low ?t = best_payload t M" using round_result [OF assms(1,2) True] by simp
    then obtain s' where "finishRound ?t now = Some s'" "settles n M rtt s' now result"
      using assms(3) ok same unfolding concludes_def by blast
    then show ?thesis using True settles_mono [of n M rtt s' now result "n + 3 * interval t"] by (simp add: advance_cases)
  next
    case False
    let ?u = "?t\<lparr>pm_pending := True\<rparr>"
    have same: "same_round t ?u" by (simp add: same_round_def)
    have "search_ok ?u M" by (rule search_ok_cong [OF assms(1) same]) simp_all
    then have "round_ok ?u M"
      using False assms(4) nextCandidate_cong [of ?u t] by (simp add: round_ok_def SearchAttemptLimit_def)
    then have "settles (n + 3 * interval t) M rtt ?u now result" using same by (intro go) (simp_all add: interval_def)
    then show ?thesis using False by (simp add: advance_cases)
  qed
qed

lemma sent_same: "same_round s (sent s now)" "\<not> pm_inFlight (sent s now)"
  by (simp_all add: sent_def PmtuNext_def Let_def same_round_def)

lemma round_settles:
  "round_ok s M \<Longrightarrow> pm_canonicalize s = canon \<Longrightarrow> concludes n s M rtt result \<Longrightarrow>
     settles (n + 3 * interval s - nat (pm_candidateTries s)) M rtt s now result"
proof (induction "3 * interval s - nat (pm_candidateTries s)" arbitrary: s now rule: less_induct)
  case less
  have s: "search_ok s M" "pm_pending s" "\<not> pm_confirming s" "Searching s" "0 \<le> pm_candidateTries s" "pm_candidateTries s < 3"
    "pm_candidate s = nextCandidate s" "nextCandidate s \<noteq> 0" "\<not> pm_inFlight s"
    using less.prems(1) by (auto simp: round_ok_def search_ok_def idle_confirmation_def Searching_def SearchAttemptLimit_def)
  note once = probe_once_search [OF s(2,3), of M rtt now]
  have bound: "settles (n + 3 * interval s - nat (pm_candidateTries s)) M rtt s now result"
    if t: "search_ok t M" "interval t < interval s" "same_round s t" "\<not> pm_inFlight t"
      and p: "probe_once M rtt s now = do { s2 \<leftarrow> advance t now1; Some (s2, now1) }" for t now1
  proof -
    have c: "pm_canonicalize t = canon" using t(3) less.prems(2) by (simp add: same_round_def)
    have k: "3 * interval t < 3 * interval s - nat (pm_candidateTries s)" using t(2) s(5,6) by linarith
    have "\<exists>s'. advance t now1 = Some s' \<and> settles (n + 3 * interval t) M rtt s' now1 result"
    proof (rule advance_settles [OF t(1) c concludes_cong [OF t(3) less.prems(3)] t(4)])
      fix t' now'
      assume a: "round_ok t' M" "same_round t t'" "interval t' = interval t" "pm_candidateTries t' = 0"
      have "pm_canonicalize t' = canon" using a(2) c by (simp add: same_round_def)
      then show "settles (n + 3 * interval t) M rtt t' now' result"
        using less.hyps [of t' now'] concludes_cong [OF same_round_trans [OF t(3) a(2)] less.prems(3)] a k by simp
    qed
    then obtain s' where s': "advance t now1 = Some s'" "settles (n + 3 * interval t) M rtt s' now1 result" by blast
    show ?thesis by (rule settles_step [OF s(4) _ s'(2)]) (use p s'(1) k in auto)
  qed
  consider (up) "pm_candidate s \<le> M" | (retry) "\<not> pm_candidate s \<le> M" "pm_candidateTries s + 1 < SearchAttemptLimit"
    | (down) "\<not> pm_candidate s \<le> M" "\<not> pm_candidateTries s + 1 < SearchAttemptLimit" by blast
  then show ?case
  proof cases
    case up
    show ?thesis
      by (rule bound [OF raised_bound [OF less.prems(1,2) up]])
        (use sent_same [of s now] once up in \<open>simp_all add: same_round_def\<close>)
  next
    case down
    show ?thesis
      by (rule bound [OF lowered_bound [OF less.prems(1,2) down(1)]])
        (use sent_same [of s now] once down in \<open>simp_all add: same_round_def\<close>)
  next
    case retry
    let ?t = "(sent s now)\<lparr>pm_pending := True\<rparr>"
    have same: "same_round s ?t" using sent_same [of s now] by (simp add: same_round_def)
    have f: "pm_low ?t = pm_low s" "pm_bad ?t = pm_bad s" "pm_candidateTries ?t = pm_candidateTries s + 1" "pm_candidate ?t = pm_candidate s"
      using s(2) by (simp_all add: sent_def PmtuNext_def Let_def)
    have i: "interval ?t = interval s" "0 < interval s"
      using f same next_canonical(3,4) [OF s(1) less.prems(2) s(8)] next_canonical(2) [OF s(1) less.prems(2) s(8)]
      by (auto simp: interval_def same_round_def within_def word_le_nat_alt word_less_nat_alt)
    have "search_ok ?t M"
      by (rule search_ok_cong [OF s(1) same f(1,2)]) (use s(2) in \<open>simp_all add: sent_def PmtuNext_def Let_def\<close>)
    then have "round_ok ?t M"
      using nextCandidate_cong [OF f(1,2)] same f retry(2) s sent_same(2) [of s now] by (simp add: round_ok_def same_round_def)
    then have st: "settles (n + 3 * interval ?t - nat (pm_candidateTries ?t)) M rtt ?t (now + probeTimeout s) result"
      using less.hyps [of ?t "now + probeTimeout s"] concludes_cong [OF same less.prems(3)] less.prems(2) same i f s(5,6) retry(2)
      by (simp add: same_round_def SearchAttemptLimit_def)
    show ?thesis
      by (rule settles_step [OF s(4) _ st]) (use once retry i f s(5,6) in \<open>simp_all add: SearchAttemptLimit_def\<close>)
  qed
qed


text \<open>A round that is opened, and the two rounds of a search on a path whose limit does not change.\<close>

lemma beginRound_settles:
  assumes "pmtu_base_ok s" and "idle_confirmation s" and "pm_results s < 3" and "pm_searchHint s = 0"
    and "unat (pc_Ceiling (pm_config s)) < 2 ^ 31" and c: "pm_canonicalize s = canon"
    and "concludes n s M rtt result" and k: "k = Suc (unat (pc_Ceiling (pm_config s))) - unat (pc_Base (pm_config s))"
  shows "\<exists>s'. beginRound s now = Some s' \<and> settles (n + 3 * k) M rtt s' now result"
proof -
  let ?s = "open_round s"
  note o = open_round_ok [OF assms(1,2)]
  have "canon 0 = 0" using never_up [of 0] by simp
  then have z: "canonicalCandidate t 0 = 0" if "pm_canonicalize t = canon" for t
    using that by (simp add: canonicalCandidate_def)
  let ?s1 = "s\<lparr>pm_low := pc_Base (pm_config s), pm_bad := 0, pm_candidateTries := 0\<rparr>"
  have r2: "pm_bad ?s = 0" "pm_candidateTries ?s = 0" "same_round s ?s" "pm_low ?s = pc_Base (pm_config s)" "pm_candidate ?s = nextCandidate ?s1"
    using assms(4) c z by (simp_all add: open_round_def Let_def same_round_def)
  have "nextCandidate ?s = nextCandidate ?s1" by (rule nextCandidate_cong) (use r2 in \<open>simp_all add: same_round_def\<close>)
  note r = this [folded r2(5), symmetric] r2(1-4)
  have c': "pm_canonicalize ?s = canon" using r c by (simp add: same_round_def)
  have ok: "search_ok ?s M" using o r assms(3,5) by (simp add: search_ok_def bounds_ok_def same_round_def)
  have i: "interval ?s = k" using r k by (simp add: interval_def same_round_def)
  show ?thesis
  proof (cases "pm_candidate ?s = 0")
    case True
    then have "pm_low ?s = best_payload s M" using round_result [OF ok c'] r best_payload_cong [OF r(4)] by simp
    then obtain s' where "finishRound ?s now = Some s'" "settles n M rtt s' now result"
      using assms(7) ok r(4) unfolding concludes_def by blast
    then show ?thesis using True settles_mono [of n M rtt s' now result "n + 3 * k"] by (simp add: beginRound.simps Let_def)
  next
    case False
    let ?u = "?s\<lparr>pm_pending := True\<rparr>"
    have same: "same_round ?s ?u" by (simp add: same_round_def)
    have "search_ok ?u M" by (rule search_ok_cong [OF ok same]) simp_all
    then have "round_ok ?u M"
      using False r o(5) nextCandidate_cong [of ?u ?s] by (simp add: round_ok_def SearchAttemptLimit_def)
    moreover have "concludes n ?u M rtt result" by (rule concludes_cong [OF same_round_trans [OF r(4) same] assms(7)])
    ultimately have "settles (n + 3 * interval ?u - nat (pm_candidateTries ?u)) M rtt ?u now result"
      by (intro round_settles) (simp_all add: c')
    moreover have "interval ?u = k" using i r(2) by (simp add: interval_def)
    ultimately show ?thesis using False r(3) by (simp add: beginRound.simps Let_def)
  qed
qed

text \<open>The second round agrees with the first, and its size, when it is new, is confirmed by a last probe.\<close>

lemma last_round:
  assumes "pm_results s = 1" and "pm_rounds s ! 0 = best_payload s M" and "pm_canonicalize s = canon"
  shows "concludes 1 s M rtt (max (pm_confirmed s) (best_payload s M))"
  unfolding concludes_def
proof (intro allI impI, elim conjE)
  fix t now
  assume t: "search_ok t M" "same_round s t" "pm_low t = best_payload s M"
  let ?b = "best_payload s M" let ?u = "close_round t"
  have f: "pm_results t = 1" "pm_rounds t ! 0 = ?b" "pm_confirmed t = pm_confirmed s" "length (pm_rounds t) = 3" "\<not> pm_confirming t"
    using t assms by (auto simp: same_round_def search_ok_def pmtu_base_ok_def idle_confirmation_def)
  have e: "finishRound t now = Some (conclude ?u now)"
    using f t(3) by (simp add: finishRound.simps Let_def close_round_def)
  have r: "pm_rounds ?u ! 0 = ?b" "pm_results ?u = 2" using f by (simp_all add: close_round_def)
  have "settles 1 M rtt (conclude ?u now) now (max (pm_confirmed s) ?b)"
  proof (cases "?b > pm_confirmed s")
    case False
    then have "\<not> Searching (conclude ?u now)" and "pm_confirmed (conclude ?u now) = max (pm_confirmed s) ?b"
      using r f by (simp_all add: conclude_def close_round_def Searching_def Let_def max_def not_less)
    then show ?thesis using settles_stop [of "conclude ?u now" 1 M rtt now] by simp
  next
    case True
    let ?v = "conclude ?u now"
    have base: "pc_Base (pm_config s) \<le> pm_confirmed s"
      using t by (simp add: search_ok_def same_round_def pmtu_base_ok_def within_def)
    have C: "unat (min M (pc_Ceiling (pm_config s))) < 2 ^ 31"
      using t(1,2) by (auto simp: search_ok_def same_round_def min_def word_le_nat_alt)
    have "?b = canon (min M (pc_Ceiling (pm_config s)))"
      using True base assms(3) by (auto simp: best_payload_def max_def split: if_splits)
    then have bM: "?b \<le> M" using never_up [OF C] by (metis min.boundedE)
    have v: "pm_candidate ?v = ?b" "pm_confirming ?v" "pm_pending ?v" "pm_confirmationCandidate ?v = ?b" "Searching ?v" "?b \<noteq> 0"
      using True r f word_pos [OF True] by (simp_all add: conclude_def close_round_def Let_def Searching_def)
    obtain w where w: "probe_once M rtt ?v now = Some (w, now + rtt)" "\<not> Searching w" "pm_confirmed w = ?b"
    proof
      show "probe_once M rtt ?v now = Some (confirmSuccess ((fst (PmtuNext ?v now))\<lparr>pm_inFlight := False\<rparr>) (now + rtt), now + rtt)"
        using v bM by (simp add: probe_once_def PmtuNext_def Let_def Acknowledge_def)
    qed (use v in \<open>simp_all add: confirmSuccess_def PmtuNext_def Let_def Searching_def\<close>)
    have "settles 0 M rtt w (now + rtt) ?b" using settles_stop [OF w(2), of 0] w(3) by simp
    then show ?thesis using settles_step [OF v(5) w(1)] True by (simp add: max_def)
  qed
  then show "\<exists>s'. finishRound t now = Some s' \<and> settles 1 M rtt s' now (max (pm_confirmed s) ?b)" using e by simp
qed


lemma first_round:
  assumes "pm_results s = 0" and c: "pm_canonicalize s = canon" and "pm_searchHint s = 0"
    and k: "k = Suc (unat (pc_Ceiling (pm_config s))) - unat (pc_Base (pm_config s))"
  shows "concludes (1 + 3 * k) s M rtt (max (pm_confirmed s) (best_payload s M))"
  unfolding concludes_def
proof (intro allI impI, elim conjE)
  fix t now
  assume t: "search_ok t M" "same_round s t" "pm_low t = best_payload s M"
  let ?u = "close_round t"
  have t': "pmtu_base_ok t" "idle_confirmation t" "within t (pm_low t)" "pm_results t < 3" "unat (pc_Ceiling (pm_config t)) < 2 ^ 31"
    and e: "pm_config t = pm_config s" "pm_confirmed t = pm_confirmed s" "pm_results t = 0" "pm_searchHint t = 0" "pm_canonicalize t = canon"
    using t assms by (auto simp: search_ok_def same_round_def)
  note u = close_round_ok [OF t'(1-4)]
  have b: "best_payload ?u M = best_payload s M" using e c by (simp add: best_payload_def close_round_def)
  have "concludes 1 ?u M rtt (max (pm_confirmed ?u) (best_payload ?u M))"
    by (rule last_round) (use e t(3) t'(1) b in \<open>auto simp: close_round_def pmtu_base_ok_def\<close>)
  then have "\<exists>s'. beginRound ?u now = Some s' \<and> settles (1 + 3 * k) M rtt s' now (max (pm_confirmed ?u) (best_payload ?u M))"
    by (intro beginRound_settles) (use u t' e k in \<open>simp_all add: close_round_def\<close>)
  then show "\<exists>s'. finishRound t now = Some s' \<and> settles (1 + 3 * k) M rtt s' now (max (pm_confirmed s) (best_payload s M))"
    using b e by (simp add: finishRound.simps Let_def) (simp add: close_round_def)
qed

lemma start_settles:
  assumes ok: "pmtu_ok s" and c: "pm_canonicalize s = canon" and C: "unat (pc_Ceiling (pm_config s)) < 2 ^ 31"
    and k: "k = Suc (unat (pc_Ceiling (pm_config s))) - unat (pc_Base (pm_config s))"
  shows "\<exists>s'. Start s now = Some s' \<and> settles (1 + 6 * k) M rtt s' now (max (pm_confirmed s) (best_payload s M))"
proof -
  define s1 where "s1 = s\<lparr>pm_searchHint := 0, pm_results := 0, pm_confirming := False, pm_refreshing := False,
        pm_confirmationCandidate := 0, pm_confirmFailures := 0, pm_nextConfirmation := 0\<rparr>"
  have s1: "pmtu_base_ok s1" "idle_confirmation s1" "pm_results s1 = 0" "pm_config s1 = pm_config s" "pm_confirmed s1 = pm_confirmed s"
    "pm_canonicalize s1 = canon" "pm_searchHint s1 = 0"
    using pmtu_okD(1) [OF ok] c by (auto simp: s1_def pmtu_base_ok_def idle_confirmation_def within_def ConfirmationFailureLimit_def)
  have b: "best_payload s1 M = best_payload s M" using s1 c by (simp add: best_payload_def)
  have st: "Start s now = (if pc_Ceiling (pm_config s) = pc_Base (pm_config s)
      then Some (s1\<lparr>pm_confirmed := pc_Base (pm_config s), pm_pending := False, pm_inFlight := False, pm_searchHint := 0,
                pm_nextRefresh := now + pc_RefreshInterval (pm_config s),
                pm_nextConfirmation := now + pc_ConfirmationInterval (pm_config s)\<rparr>)
      else beginRound s1 now)"
    by (simp add: Start_def pmtu_start_def s1_def Let_def)
  show ?thesis
  proof (cases "pc_Ceiling (pm_config s) = pc_Base (pm_config s)")
    case True
    have "pm_confirmed s = pc_Base (pm_config s)" using pmtu_okD(3) [OF ok] True by (auto simp: within_def)
    moreover have "unat (min M (pc_Ceiling (pm_config s))) < 2 ^ 31" using C by (simp add: min_def word_le_nat_alt)
    then have "canon (min M (pc_Ceiling (pm_config s))) \<le> pc_Base (pm_config s)"
      using never_up [of "min M (pc_Ceiling (pm_config s))"] True by (metis min.boundedE)
    ultimately have "max (pm_confirmed s) (best_payload s M) = pc_Base (pm_config s)"
      using c by (simp add: best_payload_def max_def)
    then show ?thesis using True st settles_stop [of "the (Start s now)" "1 + 6 * k" M rtt now] by (simp add: Searching_def)
  next
    case False
    have "concludes (1 + 3 * k) s1 M rtt (max (pm_confirmed s1) (best_payload s1 M))"
      using first_round [of s1 k] s1 k by simp
    then have "\<exists>s'. beginRound s1 now = Some s' \<and> settles (1 + 3 * k + 3 * k) M rtt s' now (max (pm_confirmed s1) (best_payload s1 M))"
      by (intro beginRound_settles) (use s1 C k in simp_all)
    then show ?thesis using False st b s1 by (simp add: algebra_simps)
  qed
qed


lemma best_payload_greatest:
  assumes "pm_canonicalize s = canon" and "canon x = x" and "x \<le> M" and "x \<le> pc_Ceiling (pm_config s)"
    and "unat (pc_Ceiling (pm_config s)) < 2 ^ 31" and "613 \<le> uint (pc_Base (pm_config s))"
  shows "x \<le> best_payload s M"
proof (cases "40 \<le> unat x")
  case True
  have "unat (canon x) \<le> unat (canon (min M (pc_Ceiling (pm_config s))))"
    by (rule canon_mono [OF True]) (use assms(3-5) in \<open>auto simp: min_def word_le_nat_alt\<close>)
  then have "x \<le> canon (min M (pc_Ceiling (pm_config s)))" using assms(2) by (simp add: word_le_nat_alt)
  then show ?thesis using assms(1) by (simp add: best_payload_def le_max_iff_disj)
next
  case False
  then have "x \<le> pc_Base (pm_config s)"
    using assms(6) uint_nat [of "pc_Base (pm_config s)"] unfolding word_le_nat_alt by linarith
  then show ?thesis by (simp add: best_payload_def le_max_iff_disj)
qed

lemma best_payload_fits:
  assumes "pm_canonicalize s = canon" and "unat (pc_Ceiling (pm_config s)) < 2 ^ 31" and "613 \<le> uint (pc_Base (pm_config s))"
    and "pc_Base (pm_config s) < best_payload s M"
  shows "canon (best_payload s M) = best_payload s M" and "best_payload s M \<le> M"
proof -
  let ?m = "min M (pc_Ceiling (pm_config s))"
  have m: "unat ?m < 2 ^ 31" using assms(2) by (auto simp: min_def word_le_nat_alt)
  have e: "best_payload s M = canon ?m" using assms(1,4) by (auto simp: best_payload_def max_def split: if_splits)
  show "best_payload s M \<le> M" using never_up [OF m] e by (metis min.boundedE)
  have "pc_Base (pm_config s) < ?m" using assms(4) e never_up [OF m] by (metis order_less_le_trans)
  then have "40 \<le> unat ?m" using assms(3) uint_nat [of "pc_Base (pm_config s)"] unfolding word_less_nat_alt by linarith
  then show "canon (best_payload s M) = best_payload s M" using e idem m by simp
qed

text \<open>The search of a state, in terms of the sizes the path carries.\<close>

lemma search_outcome:
  assumes ok: "pmtu_ok s" and c: "pm_canonicalize s = canon" and C: "unat (pc_Ceiling (pm_config s)) < 2 ^ 31"
  shows "\<exists>s0 s'. Start s now = Some s0 \<and>
    (\<forall>fuel > 1 + 6 * (Suc (unat (pc_Ceiling (pm_config s))) - unat (pc_Base (pm_config s))). probe_path fuel M rtt s0 now = Some s') \<and>
    \<not> Searching s' \<and>
    (Confirmed s' = Confirmed s \<or> canon (Confirmed s') = Confirmed s' \<and> Confirmed s < Confirmed s' \<and> Confirmed s' \<le> M) \<and>
    (\<forall>x. canon x = x \<and> x \<le> M \<and> x \<le> pc_Ceiling (pm_config s) \<longrightarrow> x \<le> Confirmed s')"
proof -
  have B: "613 \<le> uint (pc_Base (pm_config s))" using pmtu_okD(2) [OF ok] by (simp add: pmtu_config_ok_def)
  obtain s0 where s0: "Start s now = Some s0"
    "settles (1 + 6 * (Suc (unat (pc_Ceiling (pm_config s))) - unat (pc_Base (pm_config s)))) M rtt s0 now (max (pm_confirmed s) (best_payload s M))"
    using start_settles [OF ok c C refl] by blast
  obtain s' where s': "\<forall>fuel > 1 + 6 * (Suc (unat (pc_Ceiling (pm_config s))) - unat (pc_Base (pm_config s))). probe_path fuel M rtt s0 now = Some s'"
    "\<not> Searching s'" "Confirmed s' = max (pm_confirmed s) (best_payload s M)"
    using s0(2) by (auto simp: settles_def)
  have "Confirmed s' = Confirmed s \<or> canon (Confirmed s') = Confirmed s' \<and> Confirmed s < Confirmed s' \<and> Confirmed s' \<le> M"
  proof (cases "pm_confirmed s < best_payload s M")
    case True
    then have "pc_Base (pm_config s) < best_payload s M" using pmtu_okD(3) [OF ok] by (auto simp: within_def)
    then show ?thesis using best_payload_fits [OF c C B] True s'(3) by (simp add: max_def Confirmed_def)
  next
    case False
    then show ?thesis using s'(3) by (simp add: max_def Confirmed_def)
  qed
  moreover have "\<forall>x. canon x = x \<and> x \<le> M \<and> x \<le> pc_Ceiling (pm_config s) \<longrightarrow> x \<le> Confirmed s'"
    using best_payload_greatest [OF c _ _ _ C B] s'(3) by (simp add: le_max_iff_disj)
  ultimately show ?thesis using s0(1) s'(1,2) by blast
qed

end

lemma reachable_canonicalize:
  "pmtu_reachable config s \<Longrightarrow>
     pm_canonicalize s = (case pc_Canonicalize config of None \<Rightarrow> identity | Some f \<Rightarrow> f)"
proof (induction rule: pmtu_reachable.induct)
  case (new s)
  then show ?case by (auto simp: NewPmtu_def split: if_splits)
next
  case (step s op s')
  then show ?case using reachable_pmtu_ok [OF step.hyps(1)] pmtu_exec_ok [of s op] by (auto simp: pmtu_step_ok_def)
qed


text \<open>A configuration with WireGuard's padding, and the search state it starts with.\<close>

definition sample_pmtu_config :: PmtuConfig where
  "sample_pmtu_config =
     \<lparr>pc_Base = 613, pc_Ceiling = 1432, pc_Canonicalize = Some CanonicalCarrierPayload,
      pc_ProbeTimeout = 2 * Second, pc_RefreshInterval = 600 * Second, pc_ConfirmationInterval = 60 * Second\<rparr>"

definition sample_pmtu :: PmtuState where
  "sample_pmtu = projr (NewPmtu sample_pmtu_config)"

lemma sample_pmtu_new: "NewPmtu sample_pmtu_config = Inr sample_pmtu"
  by (simp add: sample_pmtu_def sample_pmtu_config_def NewPmtu_def DefaultCarrierPayload_def minimumProbeTimeout_def
      Second_def Millisecond_def)

lemma sample_pmtu_reachable: "pmtu_reachable sample_pmtu_config sample_pmtu"
  using sample_pmtu_new by (rule pmtu_reachable.new)

text \<open>A search with one size above BASE: two rounds and the probe that confirms it.\<close>

definition narrow_pmtu_config :: PmtuConfig where
  "narrow_pmtu_config = sample_pmtu_config\<lparr>pc_Ceiling := 616\<rparr>"

definition narrow_pmtu :: PmtuState where
  "narrow_pmtu = projr (NewPmtu narrow_pmtu_config)"

definition narrow_ops :: "pmtu_op list" where
  "narrow_ops = [PStart 0, PNext 0, PAcknowledge 1 616 1, PNext 1, PAcknowledge 2 616 2, PNext 2]"

lemma narrow_pmtu_new: "NewPmtu narrow_pmtu_config = Inr narrow_pmtu"
  by (simp add: narrow_pmtu_def narrow_pmtu_config_def sample_pmtu_config_def NewPmtu_def DefaultCarrierPayload_def
      minimumProbeTimeout_def Second_def Millisecond_def)

lemma run_reachable: "pmtu_reachable config s \<Longrightarrow> pmtu_run s ops = Some s' \<Longrightarrow> pmtu_reachable config s'"
  by (induction ops arbitrary: s) (auto split: bind_splits intro: pmtu_reachable.step)

lemma run_Some: "pmtu_ok s \<Longrightarrow> pmtu_run s ops = Some (the (pmtu_run s ops))"
  using pmtu_run_ok [of s ops] by auto

text \<open>
  \<^verbatim>\<open>AdjustCurrent\<close> changes the size of the probe in flight but not the size under confirmation: the
  acknowledgement of a 614-byte final-confirmation probe promotes 616 bytes.
\<close>

lemma adjusted_confirmation_promotes_larger_size:
  "map_option Confirmed (pmtu_run narrow_pmtu (narrow_ops @ [PAdjustCurrent 3 614, PAcknowledge 3 614 3])) = Some 616 \<and>
   map_option Outstanding (pmtu_run narrow_pmtu (narrow_ops @ [PAdjustCurrent 3 614])) = Some (Some \<lparr>pb_Attempt = 3, pb_PayloadSize = 614\<rparr>)"
  by code_simp

subsection \<open>The properties\<close>

text \<open>
  C7.  The search finds the path's limit.  From any reachable state, with no canonicalizer configured or with
  WireGuard's padding, and on a path that carries exactly the payloads up to \<open>M\<close> (it answers those probes and
  silently drops longer ones), \<^verbatim>\<open>Start\<close> begins a search that ends, after a number of probes bounded by the
  distance between BASE and the ceiling.  At its end no representable size up to the ceiling that the path
  carries is larger than the confirmed size, and a confirmed size that changed is representable, larger than
  before, and carried by the path.
\<close>

theorem search_finds_path_limit:
  assumes "pmtu_reachable config s" and "pc_Canonicalize config = None \<or> pc_Canonicalize config = Some CanonicalCarrierPayload"
    and "unat (pc_Ceiling config) < 2 ^ 31"
  shows "\<exists>s0 s'. Start s now = Some s0 \<and>
    (\<forall>fuel > 1 + 6 * (Suc (unat (pc_Ceiling config)) - unat (pc_Base config)). probe_path fuel M rtt s0 now = Some s') \<and>
    \<not> Searching s' \<and>
    (Confirmed s' = Confirmed s \<or>
     pm_canonicalize s (Confirmed s') = Confirmed s' \<and> Confirmed s < Confirmed s' \<and> Confirmed s' \<le> M) \<and>
    (\<forall>x. pm_canonicalize s x = x \<and> x \<le> M \<and> x \<le> pc_Ceiling config \<longrightarrow> x \<le> Confirmed s')"
proof -
  have ok: "pmtu_ok s" "pm_config s = config" using reachable_pmtu_ok [OF assms(1)] by auto
  note c = reachable_canonicalize [OF assms(1)]
  show ?thesis
  proof (cases "pc_Canonicalize config")
    case None
    then have "pm_canonicalize s = identity" using c by simp
    from plain.search_outcome [OF ok(1) this] show ?thesis using assms(3) ok(2) \<open>pm_canonicalize s = identity\<close> by simp
  next
    case (Some f)
    then have e: "pm_canonicalize s = CanonicalCarrierPayload" using c assms(2) by simp
    from padded.search_outcome [OF ok(1) e] show ?thesis using assms(3) ok(2) e by simp
  qed
qed

theorem search_finds_path_limit_witness:
  "\<exists>s0 s'. Start sample_pmtu 0 = Some s0 \<and>
    (\<forall>fuel > 1 + 6 * (Suc (unat (1432 :: u32)) - unat (613 :: u32)). probe_path fuel 1000 1 s0 0 = Some s') \<and>
    \<not> Searching s' \<and>
    (Confirmed s' = Confirmed sample_pmtu \<or>
     pm_canonicalize sample_pmtu (Confirmed s') = Confirmed s' \<and> Confirmed sample_pmtu < Confirmed s' \<and> Confirmed s' \<le> 1000) \<and>
    (\<forall>x. pm_canonicalize sample_pmtu x = x \<and> x \<le> 1000 \<and> x \<le> 1432 \<longrightarrow> x \<le> Confirmed s')"
  using search_finds_path_limit [OF sample_pmtu_reachable, of 0 1000 1] by (simp add: sample_pmtu_config_def)

text \<open>
  C32.  Bounds and totality of the path MTU state.  In every state reached by any sequence of calls, the
  confirmed size lies between BASE and the ceiling, so does every probe in flight or handed out next, a probe's
  deadline is at least 100 ms away, and every further call returns (the rounds array is never indexed out of
  range).
\<close>

theorem pmtu_safe:
  assumes "pmtu_reachable config s"
  shows "pc_Base config \<le> Confirmed s \<and> Confirmed s \<le> pc_Ceiling config \<and>
    (case Outstanding s of None \<Rightarrow> True
     | Some p \<Rightarrow> pc_Base config \<le> pb_PayloadSize p \<and> pb_PayloadSize p \<le> pc_Ceiling config) \<and>
    (case PmtuNext s now of (_, None) \<Rightarrow> \<not> pm_pending s
     | (s', Some p) \<Rightarrow>
         pc_Base config \<le> pb_PayloadSize p \<and> pb_PayloadSize p \<le> pc_Ceiling config \<and>
         Outstanding s' = Some p \<and> now + minimumProbeTimeout \<le> pm_deadline s') \<and>
    (\<exists>s'. pmtu_exec s op = Some s')"
proof -
  have ok: "pmtu_ok s" "pm_config s = config" using reachable_pmtu_ok [OF assms] by auto
  have "within s (pm_confirmed s)" "Searching s \<Longrightarrow> within s (pm_candidate s)" using pmtu_okD(3,5) [OF ok(1)] by auto
  moreover have "minimumProbeTimeout \<le> probeTimeout s" using probeTimeout_min pmtu_okD(2) [OF ok(1)] .
  ultimately show ?thesis
    using pmtu_exec_ok [OF ok(1), of op] ok(2)
    by (auto simp: within_def Confirmed_def Outstanding_def PmtuNext_def Searching_def Let_def split: option.splits)
qed

theorem pmtu_safe_witness:
  "613 \<le> Confirmed (fst (PmtuNext (the (Start sample_pmtu 5)) 5)) \<and>
   (case Outstanding (fst (PmtuNext (the (Start sample_pmtu 5)) 5)) of None \<Rightarrow> False | Some p \<Rightarrow> pb_PayloadSize p \<le> 1432)"
proof -
  have "\<exists>s1. pmtu_exec sample_pmtu (PStart 5) = Some s1" using pmtu_safe [OF sample_pmtu_reachable] by blast
  then have "pmtu_exec sample_pmtu (PStart 5) = Some (the (Start sample_pmtu 5))" by auto
  from pmtu_reachable.step [OF pmtu_reachable.step [OF sample_pmtu_reachable this], of "PNext 5"]
  have r: "pmtu_reachable sample_pmtu_config (fst (PmtuNext (the (Start sample_pmtu 5)) 5))" by simp
  have "Outstanding (fst (PmtuNext (the (Start sample_pmtu 5)) 5)) \<noteq> None" by code_simp
  then show ?thesis using pmtu_safe [OF r] by (auto simp: sample_pmtu_config_def split: option.splits)
qed

text \<open>
  C33.  Promotion follows the acknowledgement of the same size.  In a run from \<^verbatim>\<open>New\<close> in which no emitted frame
  was shorter than its candidate (no \<^verbatim>\<open>AdjustCurrent\<close>), a call that raises the confirmed size is the
  acknowledgement of the outstanding final-confirmation probe, and that probe carried exactly the new
  confirmed size.
\<close>

theorem promoted_size_was_acknowledged:
  assumes "NewPmtu config = Inr s0" and "\<forall>op\<in>set ops. \<not> adjusts op" and "pmtu_run s0 ops = Some s"
    and "pmtu_exec s op = Some s'" and "Confirmed s < Confirmed s'"
  shows "Confirming s \<and>
    (\<exists>attempt now. Outstanding s = Some \<lparr>pb_Attempt = attempt, pb_PayloadSize = Confirmed s'\<rparr> \<and>
       op = PAcknowledge attempt (Confirmed s') now)"
proof -
  have "exact s0" using assms(1) by (auto simp: NewPmtu_def exact_def split: if_splits)
  then have s: "pmtu_ok s" "exact s" using pmtu_run_ok [of s0 ops] NewPmtu_ok [OF assms(1)] assms(2,3) by auto
  have "pc_Base (pm_config s) \<le> pm_confirmed s" using pmtu_okD(3) [OF s(1)] by (simp add: within_def)
  then have "raises s op s'" using pmtu_exec_ok [OF s(1), of op] assms(4,5) by (auto simp: pmtu_step_ok_def Confirmed_def)
  then show ?thesis using s(2) by (auto simp: raises_def exact_def Confirming_def Outstanding_def Confirmed_def)
qed

theorem promoted_size_was_acknowledged_witness:
  "\<exists>s s'. pmtu_run narrow_pmtu narrow_ops = Some s \<and> pmtu_exec s (PAcknowledge 3 616 3) = Some s' \<and> Confirmed s < Confirmed s' \<and>
     Confirming s \<and> Outstanding s = Some \<lparr>pb_Attempt = 3, pb_PayloadSize = Confirmed s'\<rparr>"
proof -
  let ?s = "the (pmtu_run narrow_pmtu narrow_ops)" let ?op = "PAcknowledge 3 616 3"
  have n: "pmtu_ok narrow_pmtu" using NewPmtu_ok [OF narrow_pmtu_new] by simp
  note r = run_Some [OF n, of narrow_ops]
  have "pmtu_ok ?s" using pmtu_run_ok [OF n, of narrow_ops] by auto
  then have e: "pmtu_exec ?s ?op = Some (the (pmtu_exec ?s ?op))" using pmtu_exec_ok [of ?s ?op] by auto
  have l: "Confirmed ?s < Confirmed (the (pmtu_exec ?s ?op))" by code_simp
  have a: "\<forall>op\<in>set narrow_ops. \<not> adjusts op" by code_simp
  have "Confirming ?s \<and> Outstanding ?s = Some \<lparr>pb_Attempt = 3, pb_PayloadSize = Confirmed (the (pmtu_exec ?s ?op))\<rparr>"
    using promoted_size_was_acknowledged [OF narrow_pmtu_new a r e l] by auto
  with r e l show ?thesis by blast
qed



definition lossy_ops :: "pmtu_op list" where
  "lossy_ops = [PStart 0, PNext 0, PAcknowledge 1 616 1, PNext 1, PAcknowledge 2 616 2, PNext 2, PAcknowledge 3 616 3,
     PConfirmationDue (61 * Second), PNext (61 * Second), PTick (64 * Second),
     PConfirmationDue (125 * Second), PNext (125 * Second), PTick (128 * Second),
     PConfirmationDue (190 * Second), PNext (190 * Second)]"


end
