(* ===== verification/Sender.thy ===== *)
theory Sender
  imports Packetizer Lane PeerRoute
begin

text \<open>
  \<^verbatim>\<open>internal/core/datapath/sender.go\<close>: an inner packet is validated, routed, put on a lane, numbered and handed
  to the packetizer, whose emitter is the sender itself (\<^verbatim>\<open>EmitCarrier\<close>).  The sink of finished carriers is
  an interface of the source, here a function on the world it acts on; the world of the packetizer's
  emitter is that world together with the sender's reusable \<^verbatim>\<open>outer\<close> buffer.  The two readings of the
  clock in \<^verbatim>\<open>Add\<close> are its arguments \<open>now\<close> and \<open>later\<close>.
\<close>

datatype 'e emit_error = em_envelope envelope_error | em_sink 'e

datatype 'e sender_error =
    ErrInvalidSenderConfig
  | ErrPeerMTU
  | ErrInnerDest
  | ErrLaneWrap
  | se_innerip innerip_error
  | se_packetizer "'e emit_error packetizer_error"

type_synonym ('w, 'e) carrier_sink = "'w \<Rightarrow> bytes \<Rightarrow> 'w \<times> 'e option"
type_synonym ('w, 'e) payload_sink = "'w \<Rightarrow> RoutePeer \<Rightarrow> bytes \<Rightarrow> 'w \<times> 'e option"

record 'seed SenderConfig =
  sc_DataSessionID :: u16
  sc_LaneID :: byte
  sc_CarrierSource :: addr
  sc_CarrierDest :: addr
  sc_CarrierPayload :: int
  sc_MinPack :: int
  sc_RemotePeerMTU :: int
  sc_PeerID :: RoutePeer
  sc_AllowedIPs :: "Snapshot option"
  sc_Classifier :: "'seed Classifier option"
  sc_InitialSequences :: "u32 list option"
  sc_InitialWrapBlocks :: "gotime list option"
  sc_SequenceReuseLifetime :: duration

record ('seed, 'w, 'e) Sender =
  sd_config :: "'seed SenderConfig"
  sd_sink :: "('w, 'e) carrier_sink option"
  sd_payloadSink :: "('w, 'e) payload_sink option"
  sd_packetizer :: "(bytes \<times> 'w, 'e emit_error) Packetizer"
  sd_outer :: bytes
  sd_sequences :: "u32 list"
  sd_wrapBlocks :: "gotime list"
  sd_reuseWait :: duration

text \<open>\<^verbatim>\<open>EmitCarrier\<close> reads the fields \<^verbatim>\<open>config\<close>, \<^verbatim>\<open>sink\<close> and \<^verbatim>\<open>payloadSink\<close>, and writes \<^verbatim>\<open>outer\<close>.\<close>

definition EmitCarrier ::
    "'seed SenderConfig \<Rightarrow> ('w, 'e) carrier_sink option \<Rightarrow> ('w, 'e) payload_sink option \<Rightarrow> (bytes \<times> 'w, 'e emit_error) emitter" where
  "EmitCarrier config sink payloadSink world payload =
     (case world of (outer, w) \<Rightarrow>
        (case payloadSink of
           Some deliver \<Rightarrow>
             (case deliver w (sc_PeerID config) payload of (w', err) \<Rightarrow> ((outer, w'), map_option em_sink err))
         | None \<Rightarrow>
             (case MarshalEnvelopeTo outer (sc_CarrierSource config) (sc_CarrierDest config) payload of
                Inl err \<Rightarrow> ((outer, w), Some (em_envelope err))
              | Inr (outer', written) \<Rightarrow>
                  (case the sink w (take written outer') of (w', err) \<Rightarrow> ((outer', w'), map_option em_sink err)))))"

text \<open>The zero value of the packetizer, with its sixteen empty fragment descriptors.\<close>

definition zero_frag :: Frag where
  "zero_frag = \<lparr>fr_Header = \<lparr>hd_FragmentIndex = 0, hd_FragmentCount = 0, hd_LaneID = 0, hd_DataSessionID = 0, hd_LaneSequence = 0, hd_Offset = 0\<rparr>, fr_Data = []\<rparr>"

definition zero_packetizer :: "('w, 'e) Packetizer" where
  "zero_packetizer =
     \<lparr>pz_buffer = [], pz_used = 0, pz_config = \<lparr>pc_CarrierPayload = 0, pc_MinPack = 0\<rparr>, pz_emitter = None,
      pz_frags = replicate 16 zero_frag, pz_valid = False\<rparr>"

definition newSender ::
    "'seed SenderConfig \<Rightarrow> ('w, 'e) carrier_sink option \<Rightarrow> ('w, 'e) payload_sink option \<Rightarrow> bool \<Rightarrow>
     'e sender_error + ('seed, 'w, 'e) Sender" where
  "newSender config sink payloadSink synthetic =
     (if sc_DataSessionID config = 0 \<or> sc_CarrierPayload config \<le> int HeaderSize \<or>
         sc_CarrierPayload config > 2 ^ 16 - 1 - int IPv6HeaderSize \<or> sc_MinPack config < 1 \<or>
         ValidateInnerMTU (sc_RemotePeerMTU config) \<noteq> None \<or>
         (synthetic \<and>
           (\<not> Is6 (sc_CarrierSource config) \<or> \<not> IsLinkLocalUnicast (sc_CarrierSource config) \<or>
            \<not> Is6 (sc_CarrierDest config) \<or> \<not> IsLinkLocalUnicast (sc_CarrierDest config))) \<or>
         (synthetic \<and> sink = None) \<or> (\<not> synthetic \<and> payloadSink = None)
      then Inl ErrInvalidSenderConfig
      else
        (case Packetizer_Init zero_packetizer (replicate (nat (sc_CarrierPayload config)) 0)
                \<lparr>pc_CarrierPayload = sc_CarrierPayload config, pc_MinPack = sc_MinPack config\<rparr>
                (Some (EmitCarrier config sink payloadSink)) of
           Inl err \<Rightarrow> Inl (se_packetizer err)
         | Inr packetizer \<Rightarrow>
             Inr \<lparr>sd_config = config, sd_sink = sink, sd_payloadSink = payloadSink, sd_packetizer = packetizer,
                  sd_outer = (if synthetic then replicate (nat (int IPv6HeaderSize + sc_CarrierPayload config)) 0 else []),
                  sd_sequences = (case sc_InitialSequences config of Some xs \<Rightarrow> xs | None \<Rightarrow> replicate Lanes 0),
                  sd_wrapBlocks = (case sc_InitialWrapBlocks config of Some xs \<Rightarrow> xs | None \<Rightarrow> replicate Lanes 0),
                  sd_reuseWait = (if sc_SequenceReuseLifetime config \<le> 0 then 60 * Second else sc_SequenceReuseLifetime config)\<rparr>))"

definition NewSender :: "'seed SenderConfig \<Rightarrow> ('w, 'e) carrier_sink option \<Rightarrow> 'e sender_error + ('seed, 'w, 'e) Sender" where
  "NewSender config sink = newSender config sink None True"

definition NewPayloadSender :: "'seed SenderConfig \<Rightarrow> ('w, 'e) payload_sink option \<Rightarrow> 'e sender_error + ('seed, 'w, 'e) Sender" where
  "NewPayloadSender config sink = newSender config None sink False"

text \<open>The admission checks of \<^verbatim>\<open>Add\<close> ahead of the lane: the parsed packet, or the reason to refuse it.\<close>

definition admit :: "'seed SenderConfig \<Rightarrow> bytes \<Rightarrow> 'e sender_error + InnerPacket" where
  "admit config packet =
     (case innerip_Parse packet of
        Inl err \<Rightarrow> Inl (se_innerip err)
      | Inr parsed \<Rightarrow>
          (if sc_AllowedIPs config \<noteq> None \<and>
              (case LookupPeer (sc_AllowedIPs config) (ip_Destination parsed) of (peer, ok) \<Rightarrow> \<not> ok \<or> peer \<noteq> sc_PeerID config)
           then Inl ErrInnerDest
           else if int (length (ip_Data parsed)) > sc_RemotePeerMTU config then Inl ErrPeerMTU
           else Inr parsed))"

definition lane_of :: "('seed \<Rightarrow> bytes \<Rightarrow> u64) \<Rightarrow> 'seed SenderConfig \<Rightarrow> bytes \<Rightarrow> byte" where
  "lane_of sum64 config data =
     (case sc_Classifier config of None \<Rightarrow> sc_LaneID config | Some c \<Rightarrow> Classifier_Lane sum64 c data)"

definition Sender_Add ::
    "('seed \<Rightarrow> bytes \<Rightarrow> u64) \<Rightarrow> ('seed, 'w, 'e) Sender \<Rightarrow> gotime \<Rightarrow> gotime \<Rightarrow> 'w \<Rightarrow> bytes \<Rightarrow>
     ('seed, 'w, 'e) Sender \<times> 'w \<times> 'e sender_error option" where
  "Sender_Add sum64 s now later w packet =
     (case admit (sd_config s) packet of
        Inl err \<Rightarrow> (s, w, Some err)
      | Inr parsed \<Rightarrow>
          (let laneID = lane_of sum64 (sd_config s) (ip_Data parsed);
               blocked = sd_wrapBlocks s ! unat laneID
           in
           if blocked \<noteq> 0 \<and> now < blocked then (s, w, Some ErrLaneWrap)
           else
             (let s1 = (if blocked \<noteq> 0 then s\<lparr>sd_wrapBlocks := (sd_wrapBlocks s)[unat laneID := 0]\<rparr> else s) in
              case Packetizer_Add (sd_packetizer s1) (sd_outer s1, w) (ip_Data parsed)
                     \<lparr>md_DataSessionID = sc_DataSessionID (sd_config s1), md_LaneID = laneID,
                      md_LaneSequence = sd_sequences s1 ! unat laneID\<rparr> of
                (p, (outer, w'), Some err) \<Rightarrow> (s1\<lparr>sd_packetizer := p, sd_outer := outer\<rparr>, w', Some (se_packetizer err))
              | (p, (outer, w'), None) \<Rightarrow>
                  (let next = sd_sequences s1 ! unat laneID + 1;
                       s2 = s1\<lparr>sd_packetizer := p, sd_outer := outer, sd_sequences := (sd_sequences s1)[unat laneID := next]\<rparr>
                   in
                   (if next = 0 then s2\<lparr>sd_wrapBlocks := (sd_wrapBlocks s2)[unat laneID := later + sd_reuseWait s2]\<rparr> else s2,
                    w', None)))))"

definition Sender_Flush :: "('seed, 'w, 'e) Sender \<Rightarrow> 'w \<Rightarrow> ('seed, 'w, 'e) Sender \<times> 'w \<times> 'e sender_error option" where
  "Sender_Flush s w =
     (case Packetizer_Flush (sd_packetizer s) (sd_outer s, w) of
        (p, (outer, w'), err) \<Rightarrow> (s\<lparr>sd_packetizer := p, sd_outer := outer\<rparr>, w', map_option se_packetizer err))"

definition ResetPending :: "('seed, 'w, 'e) Sender \<Rightarrow> ('seed, 'w, 'e) Sender" where
  "ResetPending s = s\<lparr>sd_packetizer := Packetizer_Reset (sd_packetizer s)\<rparr>"

definition Sequences :: "('seed, 'w, 'e) Sender \<Rightarrow> u32 list" where
  "Sequences s = sd_sequences s"

definition WrapBlocks :: "('seed, 'w, 'e) Sender \<Rightarrow> gotime list" where
  "WrapBlocks s = sd_wrapBlocks s"

definition Sender_SetAllowedIPs :: "('seed, 'w, 'e) Sender \<Rightarrow> Snapshot option \<Rightarrow> ('seed, 'w, 'e) Sender" where
  "Sender_SetAllowedIPs s routes = s\<lparr>sd_config := (sd_config s)\<lparr>sc_AllowedIPs := routes\<rparr>\<rparr>"

end
