(* ===== verification/SenderCorrect.thy ===== *)
theory SenderCorrect
  imports Sender
begin

text \<open>
  What the sender guarantees: the records it emits and keeps are exactly the fragments of the packets it
  admitted, numbered without gap per lane, and a sequence number of a lane is used again only after the
  reuse lifetime.
\<close>

definition sender_emit :: "('seed, 'w, 'e) Sender \<Rightarrow> (bytes \<times> 'w, 'e emit_error) emitter" where
  "sender_emit s = EmitCarrier (sd_config s) (sd_sink s) (sd_payloadSink s)"

text \<open>\<open>sender_ok s rs\<close>: the sender is initialised and \<open>rs\<close> are the records waiting in its carrier.\<close>

definition sender_ok :: "('seed, 'w, 'e) Sender \<Rightarrow> Record list \<Rightarrow> bool" where
  "sender_ok s rs \<longleftrightarrow>
     packs (sd_packetizer s) rs \<and> pz_emitter (sd_packetizer s) = Some (sender_emit s) \<and>
     length (sd_sequences s) = Lanes \<and> length (sd_wrapBlocks s) = Lanes \<and> sc_DataSessionID (sd_config s) \<noteq> 0 \<and>
     0 < sd_reuseWait s"

lemma lane_index: "unat (l :: byte) < Lanes"
  using unsigned_less [where 'a = nat, of l] by (simp add: Lanes_def)

definition arrays_ok :: "'seed SenderConfig \<Rightarrow> bool" where
  "arrays_ok config \<longleftrightarrow>
     (\<forall>xs. sc_InitialSequences config = Some xs \<longrightarrow> length xs = Lanes) \<and>
     (\<forall>xs. sc_InitialWrapBlocks config = Some xs \<longrightarrow> length xs = Lanes)"

lemma newSender_ok:
  assumes "newSender config sink payloadSink synthetic = Inr s" and "arrays_ok config"
  shows "sender_ok s []" and "sd_config s = config" and "sd_payloadSink s = payloadSink" and "sd_sink s = sink"
    and "sd_sequences s = (case sc_InitialSequences config of Some xs \<Rightarrow> xs | None \<Rightarrow> replicate Lanes 0)"
    and "sd_wrapBlocks s = (case sc_InitialWrapBlocks config of Some xs \<Rightarrow> xs | None \<Rightarrow> replicate Lanes 0)"
    and "int (length (pz_buffer (sd_packetizer s))) = sc_CarrierPayload config"
    and "pc_MinPack (pz_config (sd_packetizer s)) = sc_MinPack config"
  using assms
  by (auto simp: newSender_def Packetizer_Init_def sender_ok_def packs_def packetizer_ok_def zero_packetizer_def sender_emit_def
      arrays_ok_def Second_def carrier_consts split: if_splits option.splits sum.splits)

definition packet_metadata :: "('seed, 'w, 'e) Sender \<Rightarrow> byte \<Rightarrow> Metadata" where
  "packet_metadata s l =
     \<lparr>md_DataSessionID = sc_DataSessionID (sd_config s), md_LaneID = l, md_LaneSequence = sd_sequences s ! unat l\<rparr>"

definition lane_open :: "('seed, 'w, 'e) Sender \<Rightarrow> gotime \<Rightarrow> byte \<Rightarrow> bool" where
  "lane_open s now l \<longleftrightarrow> sd_wrapBlocks s ! unat l = 0 \<or> sd_wrapBlocks s ! unat l \<le> now"

text \<open>The state after the packet with the next number of lane \<open>l\<close> was accepted.\<close>

definition numbered :: "('seed, 'w, 'e) Sender \<Rightarrow> gotime \<Rightarrow> byte \<Rightarrow> ('seed, 'w, 'e) Sender \<Rightarrow> bool" where
  "numbered s later l s' \<longleftrightarrow>
     sd_config s' = sd_config s \<and> sd_reuseWait s' = sd_reuseWait s \<and>
     sd_sequences s' = (sd_sequences s)[unat l := sd_sequences s ! unat l + 1] \<and>
     sd_wrapBlocks s' = (sd_wrapBlocks s)[unat l := if sd_sequences s ! unat l + 1 = 0 then later + sd_reuseWait s else 0]"

lemma Sender_Add_refused:
  fixes s :: "('seed, 'w, 'e) Sender"
  shows "admit (sd_config s) packet = (Inl err :: 'e sender_error + InnerPacket) \<Longrightarrow>
    Sender_Add sum64 s now later w packet = (s, w, Some err)"
  by (simp add: Sender_Add_def)

lemma Sender_Add_blocked:
  fixes s :: "('seed, 'w, 'e) Sender"
  shows "admit (sd_config s) packet = (Inr parsed :: 'e sender_error + InnerPacket) \<Longrightarrow> \<not> lane_open s now (lane_of sum64 (sd_config s) (ip_Data parsed)) \<Longrightarrow>
     Sender_Add sum64 s now later w packet = (s, w, Some ErrLaneWrap)"
  by (auto simp: Sender_Add_def lane_open_def Let_def)

lemma Sender_Add_open:
  fixes s :: "('seed, 'w, 'e) Sender"
  assumes "admit (sd_config s) packet = (Inr parsed :: 'e sender_error + InnerPacket)" and "lane_open s now l" and "l = lane_of sum64 (sd_config s) (ip_Data parsed)"
    and "length (sd_wrapBlocks s) = Lanes"
    and add: "Packetizer_Add (sd_packetizer s) (sd_outer s, w) (ip_Data parsed) (packet_metadata s l) = (p, (outer, w'), res)"
  shows "\<exists>s'. Sender_Add sum64 s now later w packet = (s', w', map_option se_packetizer res) \<and>
    sd_packetizer s' = p \<and> sd_outer s' = outer \<and> sd_sink s' = sd_sink s \<and> sd_payloadSink s' = sd_payloadSink s \<and>
    (if res = None then numbered s later l s'
     else sd_config s' = sd_config s \<and> sd_reuseWait s' = sd_reuseWait s \<and> sd_sequences s' = sd_sequences s \<and>
          sd_wrapBlocks s' = (sd_wrapBlocks s)[unat l := 0])"
proof -
  have l: "unat l < length (sd_wrapBlocks s)" using assms(4) lane_index by simp
  have z: "(sd_wrapBlocks s)[unat l := 0] = sd_wrapBlocks s" if "sd_wrapBlocks s ! unat l = 0"
    using that by (metis list_update_id)
  show ?thesis
    using assms(1,2) add z
    by (cases "sd_wrapBlocks s ! unat l = 0"; cases res)
      (auto simp: Sender_Add_def Let_def assms(3) [symmetric] lane_open_def packet_metadata_def numbered_def)
qed

text \<open>The outcome of \<^verbatim>\<open>Add\<close>, on every path.\<close>

definition sender_outcome ::
    "('seed \<Rightarrow> bytes \<Rightarrow> u64) \<Rightarrow> ('seed, 'w, 'e) Sender \<Rightarrow> Record list \<Rightarrow> gotime \<Rightarrow> gotime \<Rightarrow> 'w \<Rightarrow> bytes \<Rightarrow>
     ('seed, 'w, 'e) Sender \<Rightarrow> 'w \<Rightarrow> 'e sender_error option \<Rightarrow> bool" where
  "sender_outcome sum64 s rs now later w packet s' w' res \<longleftrightarrow>
     (case res of
        None \<Rightarrow>
          (\<exists>parsed l fs gs rs'.
             admit (sd_config s) packet = (Inr parsed :: 'e sender_error + InnerPacket) \<and>
             l = lane_of sum64 (sd_config s) (ip_Data parsed) \<and> lane_open s now l \<and>
             fragmentation (ip_Data parsed) (packet_metadata s l) fs \<and> numbered s later l s' \<and>
             [] \<notin> set gs \<and> concat gs @ rs' = rs @ map frag_record fs \<and> sender_ok s' rs' \<and>
             emit_all (sender_emit s) (sd_outer s, w) (map encode_records gs) = ((sd_outer s', w'), None))
      | Some (se_packetizer (pz_Emit e)) \<Rightarrow>
          sd_sequences s' = sd_sequences s \<and>
          (\<exists>fs gs g rest. [] \<notin> set gs \<and> g \<noteq> [] \<and> concat gs @ g @ rest = rs @ map frag_record fs \<and> sender_ok s' g \<and>
             emit_all (sender_emit s) (sd_outer s, w) (map encode_records (gs @ [g])) = ((sd_outer s', w'), Some e))
      | Some (se_packetizer (pz_Split e)) \<Rightarrow> sd_sequences s' = sd_sequences s \<and> w' = w \<and> sender_ok s' rs
      | Some (se_packetizer _) \<Rightarrow> False
      | Some ErrInvalidSenderConfig \<Rightarrow> False
      | Some _ \<Rightarrow> w' = w \<and> s' = s)"

lemma admit_error:
  "admit config packet = Inl err \<Longrightarrow> (\<exists>e. err = se_innerip e) \<or> err = ErrInnerDest \<or> err = ErrPeerMTU"
  by (auto simp: admit_def split: sum.splits if_splits)

lemma Sender_Add_outcome:
  fixes s :: "('seed, 'w, 'e) Sender"
  assumes "sender_ok s rs" and "Sender_Add sum64 s now later w packet = (s', w', res)"
  shows "sender_outcome sum64 s rs now later w packet s' w' res"
proof (cases "admit (sd_config s) packet :: 'e sender_error + InnerPacket")
  case (Inl err)
  then show ?thesis using assms(2) Sender_Add_refused [OF Inl, of sum64 now later w] admit_error [OF Inl] by (auto simp: sender_outcome_def)
next
  case (Inr parsed)
  define l where "l = lane_of sum64 (sd_config s) (ip_Data parsed)"
  show ?thesis
  proof (cases "lane_open s now l")
    case False
    then show ?thesis using assms(2) Sender_Add_blocked [OF Inr, of now sum64 later w] l_def by (auto simp: sender_outcome_def)
  next
    case True
    have pk: "packs (sd_packetizer s) rs" "pz_emitter (sd_packetizer s) = Some (sender_emit s)" "length (sd_wrapBlocks s) = Lanes"
      "length (sd_sequences s) = Lanes" "sc_DataSessionID (sd_config s) \<noteq> 0" "0 < sd_reuseWait s"
      using assms(1) by (auto simp: sender_ok_def)
    obtain p outer w1 r where add: "Packetizer_Add (sd_packetizer s) (sd_outer s, w) (ip_Data parsed) (packet_metadata s l) = (p, (outer, w1), r)"
      by (metis prod_cases4 surj_pair)
    obtain t where t: "Sender_Add sum64 s now later w packet = (t, w1, map_option se_packetizer r)"
      "sd_packetizer t = p" "sd_outer t = outer" "sd_sink t = sd_sink s" "sd_payloadSink t = sd_payloadSink s"
      "if r = None then numbered s later l t
       else sd_config t = sd_config s \<and> sd_reuseWait t = sd_reuseWait s \<and> sd_sequences t = sd_sequences s \<and>
            sd_wrapBlocks t = (sd_wrapBlocks s)[unat l := 0]"
      using Sender_Add_open [OF Inr True l_def pk(3) add, of later] by blast
    have eq: "s' = t" "w' = w1" "res = map_option se_packetizer r" using assms(2) t(1) by simp_all
    have ok: "sender_ok t rs1" if "packs p rs1" "pz_emitter p = Some (sender_emit s)" for rs1
      using that t(2-6) pk by (auto simp: sender_ok_def numbered_def sender_emit_def split: if_splits)
    consider (split) e where "p = clearFragments (sd_packetizer s)" "(outer, w1) = (sd_outer s, w)" "r = Some (pz_Split e)"
      | (frags) fs where "fragmentation (ip_Data parsed) (packet_metadata s l) fs"
          "add_outcome (sender_emit s) (sd_outer s, w) rs (map frag_record fs) (p, (outer, w1), r)"
      using Add_outcome [OF pk(1,2), of "(sd_outer s, w)" "ip_Data parsed" "packet_metadata s l"] add by auto
    then show ?thesis
    proof cases
      case split
      then show ?thesis using eq t(6) ok [of rs] pk(1,2) by (simp add: sender_outcome_def)
    next
      case frags
      then show ?thesis
        using eq t(3,6) ok Inr l_def True
        by (cases r) (auto simp: sender_outcome_def add_outcome_def, blast+)
    qed
  qed
qed


subsection \<open>Runs\<close>

datatype sender_op =
    SAdd gotime gotime bytes
  | SFlush
  | SResetPending
  | SSetAllowedIPs "Snapshot option"

text \<open>
  One operation of the sender's owner.  Besides the new state it returns, for an accepted packet, the two
  readings of the clock, the lane and the sequence number it was given.
\<close>

definition sender_exec ::
    "('seed \<Rightarrow> bytes \<Rightarrow> u64) \<Rightarrow> ('seed, 'w, 'e) Sender \<times> 'w \<Rightarrow> sender_op \<Rightarrow>
     (('seed, 'w, 'e) Sender \<times> 'w) \<times> (gotime \<times> gotime \<times> byte \<times> u32) list" where
  "sender_exec sum64 sw op =
     (case sw of (s, w) \<Rightarrow>
        (case op of
           SAdd now later packet \<Rightarrow>
             (case Sender_Add sum64 s now later w packet of
                (s', w', Some err) \<Rightarrow> ((s', w'), [])
              | (s', w', None) \<Rightarrow>
                  (let l = lane_of sum64 (sd_config s) (ip_Data (projr (innerip_Parse packet))) in
                   ((s', w'), [(now, later, l, sd_sequences s ! unat l)])))
         | SFlush \<Rightarrow> (case Sender_Flush s w of (s', w', _) \<Rightarrow> ((s', w'), []))
         | SResetPending \<Rightarrow> ((ResetPending s, w), [])
         | SSetAllowedIPs routes \<Rightarrow> ((Sender_SetAllowedIPs s routes, w), [])))"

fun sender_uses ::
    "('seed \<Rightarrow> bytes \<Rightarrow> u64) \<Rightarrow> ('seed, 'w, 'e) Sender \<times> 'w \<Rightarrow> sender_op list \<Rightarrow> (gotime \<times> gotime \<times> byte \<times> u32) list" where
  "sender_uses sum64 sw [] = []"
| "sender_uses sum64 sw (op # ops) = (case sender_exec sum64 sw op of (sw', uses) \<Rightarrow> uses @ sender_uses sum64 sw' ops)"

text \<open>\<open>clocked t ops\<close>: the clock readings of the run are positive and never run backwards, from \<open>t\<close> on.\<close>

fun clocked :: "gotime \<Rightarrow> sender_op list \<Rightarrow> bool" where
  "clocked t [] \<longleftrightarrow> True"
| "clocked t (SAdd now later packet # ops) \<longleftrightarrow> t \<le> now \<and> now \<le> later \<and> clocked later ops"
| "clocked t (op # ops) \<longleftrightarrow> clocked t ops"

lemma clocked_mono: "clocked t ops \<Longrightarrow> t' \<le> t \<Longrightarrow> clocked t' ops"
  by (induction t ops rule: clocked.induct) auto

text \<open>What an operation does to the numbering state of a lane.\<close>

definition lanes_ok :: "('seed, 'w, 'e) Sender \<Rightarrow> bool" where
  "lanes_ok s \<longleftrightarrow> length (sd_sequences s) = Lanes \<and> length (sd_wrapBlocks s) = Lanes \<and> 0 < sd_reuseWait s"

definition lane_step :: "('seed, 'w, 'e) Sender \<Rightarrow> gotime \<Rightarrow> gotime \<Rightarrow> byte \<Rightarrow> ('seed, 'w, 'e) Sender \<Rightarrow> bool \<Rightarrow> bool" where
  "lane_step s now later l s' used \<longleftrightarrow>
     (let q = sd_sequences s ! unat l; b = sd_wrapBlocks s ! unat l in
      if used then
        (b = 0 \<or> b \<le> now) \<and> sd_sequences s' ! unat l = q + 1 \<and>
        sd_wrapBlocks s' ! unat l = (if q + 1 = 0 then later + sd_reuseWait s else 0)
      else
        sd_sequences s' ! unat l = q \<and>
        (sd_wrapBlocks s' ! unat l = b \<or> sd_wrapBlocks s' ! unat l = 0 \<and> b \<le> now))"

lemma lane_step_refl: "sd_sequences s' = sd_sequences s \<Longrightarrow> sd_wrapBlocks s' = sd_wrapBlocks s \<Longrightarrow> lane_step s now later l s' False"
  by (simp add: lane_step_def Let_def)

lemma admit_parse: "admit config packet = Inr parsed \<Longrightarrow> innerip_Parse packet = Inr parsed"
  by (auto simp: admit_def split: sum.splits if_splits)

lemma Add_lane_step:
  fixes s :: "('seed, 'w, 'e) Sender"
  assumes "lanes_ok s" and "Sender_Add sum64 s now later w packet = (s', w', res)"
  defines "m \<equiv> lane_of sum64 (sd_config s) (ip_Data (projr (innerip_Parse packet)))"
  shows "lanes_ok s'" and "sd_reuseWait s' = sd_reuseWait s" and "lane_step s now later l s' (res = None \<and> l = m)"
proof -
  have "lanes_ok s' \<and> sd_reuseWait s' = sd_reuseWait s \<and> lane_step s now later l s' (res = None \<and> l = m)"
  proof (cases "admit (sd_config s) packet :: 'e sender_error + InnerPacket")
    case (Inl err)
    then show ?thesis using assms(1,2) Sender_Add_refused [OF Inl, of sum64 now later w] by (auto intro: lane_step_refl)
  next
    case (Inr parsed)
    have m: "m = lane_of sum64 (sd_config s) (ip_Data parsed)" using admit_parse [OF Inr] by (simp add: m_def)
    show ?thesis
    proof (cases "lane_open s now m")
      case False
      then show ?thesis
        using assms(1,2) Sender_Add_blocked [OF Inr, of now sum64 later w] m by (auto intro: lane_step_refl)
    next
      case True
      obtain p outer w1 r where add: "Packetizer_Add (sd_packetizer s) (sd_outer s, w) (ip_Data parsed) (packet_metadata s m) = (p, (outer, w1), r)"
        by (metis prod_cases4 surj_pair)
      have len: "length (sd_wrapBlocks s) = Lanes" "length (sd_sequences s) = Lanes" using assms(1) by (auto simp: lanes_ok_def)
      have ne: "unat l = unat m \<longleftrightarrow> l = m" by (simp add: word_unat_eq_iff)
      show ?thesis
        using Sender_Add_open [OF Inr True m len(1) add, of later] assms(1,2) True len lane_index [of m] ne
        by (cases r; cases "l = m") (auto simp: lanes_ok_def lane_step_def Let_def numbered_def nth_list_update lane_open_def)
    qed
  qed
  then show "lanes_ok s'" "sd_reuseWait s' = sd_reuseWait s" "lane_step s now later l s' (res = None \<and> l = m)" by auto
qed

text \<open>
  \<open>guarded s l q t c\<close> is what holds in state \<open>s\<close> at clock \<open>c\<close> after lane \<open>l\<close> used the number \<open>q\<close> at time \<open>t\<close>:
  the number is not due again, or the lane is paused long enough, or the lifetime is over.
\<close>

definition guarded :: "('seed, 'w, 'e) Sender \<Rightarrow> byte \<Rightarrow> u32 \<Rightarrow> gotime \<Rightarrow> gotime \<Rightarrow> bool" where
  "guarded s l q t c \<longleftrightarrow>
     q < sd_sequences s ! unat l \<or> t + sd_reuseWait s \<le> sd_wrapBlocks s ! unat l \<or> t + sd_reuseWait s \<le> c"

lemma guarded_step:
  assumes "guarded s l q t c" and "lane_step s now later l s' used" and "0 < t" and "t \<le> c" and "c \<le> now" and "now \<le> later"
    and "0 < sd_reuseWait s" and "sd_reuseWait s' = sd_reuseWait s"
  shows "guarded s' l q t later" and "used \<Longrightarrow> sd_sequences s ! unat l = q \<Longrightarrow> t + sd_reuseWait s \<le> now"
proof -
  have up: "q < x + 1 \<or> x + 1 = 0" if "q < x" for x :: u32
  proof (cases "x + 1 = 0")
    case False
    then have "unat (x + 1) = Suc (unat x)" using unatSuc [of x] by (simp add: add.commute)
    then show ?thesis using that by (simp add: word_less_nat_alt)
  qed simp
  show "guarded s' l q t later"
    using assms up by (cases used) (auto simp: guarded_def lane_step_def Let_def split: if_splits)
  show "used \<Longrightarrow> sd_sequences s ! unat l = q \<Longrightarrow> t + sd_reuseWait s \<le> now"
    using assms by (auto simp: guarded_def lane_step_def Let_def)
qed


lemma sender_exec_cases:
  assumes "lanes_ok (fst sw)" and "clocked c (op # ops)" and "sender_exec sum64 sw op = (sw', uses)"
  obtains now later m where "c \<le> now" and "now \<le> later" and "clocked later ops"
    and "lanes_ok (fst sw')" and "sd_reuseWait (fst sw') = sd_reuseWait (fst sw)"
    and "uses = [] \<or> uses = [(now, later, m, sd_sequences (fst sw) ! unat m)]"
    and "\<And>l. lane_step (fst sw) now later l (fst sw') (uses \<noteq> [] \<and> l = m)"
proof (cases op)
  case (SAdd now later packet)
  obtain s w where sw: "sw = (s, w)" by (cases sw)
  obtain s1 w1 res where add: "Sender_Add sum64 s now later w packet = (s1, w1, res)" by (metis prod_cases3)
  have ok: "lanes_ok s" using assms(1) sw by simp
  note st = Add_lane_step [OF ok add]
  let ?m = "lane_of sum64 (sd_config s) (ip_Data (projr (innerip_Parse packet)))"
  have e: "sw' = (s1, w1)" "uses = (if res = None then [(now, later, ?m, sd_sequences s ! unat ?m)] else [])"
    using assms(3) sw add SAdd by (simp_all add: sender_exec_def Let_def split: option.splits)
  have u: "uses \<noteq> [] \<longleftrightarrow> res = None" using e(2) by simp
  show thesis
    by (rule that [of now later ?m]) (use assms(2) sw SAdd st e u in simp_all)
next
  case SFlush
  then show thesis
    using that [of c c 0] assms
    by (auto simp: sender_exec_def Sender_Flush_def lanes_ok_def lane_step_refl split: prod.splits)
next
  case SResetPending
  then show thesis
    using that [of c c 0] assms by (auto simp: sender_exec_def ResetPending_def lanes_ok_def lane_step_refl split: prod.splits)
next
  case (SSetAllowedIPs routes)
  then show thesis
    using that [of c c 0] assms
    by (auto simp: sender_exec_def Sender_SetAllowedIPs_def lanes_ok_def lane_step_refl split: prod.splits)
qed

lemma guarded_uses:
  assumes "lanes_ok (fst sw)" and "guarded (fst sw) l q t c" and "0 < t" and "t \<le> c" and "clocked c ops"
    and "(now, later, l, q) \<in> set (sender_uses sum64 sw ops)"
  shows "t + sd_reuseWait (fst sw) \<le> now"
  using assms
proof (induction ops arbitrary: sw c)
  case Nil
  then show ?case by simp
next
  case (Cons op ops)
  obtain sw' uses where ex: "sender_exec sum64 sw op = (sw', uses)" by (rule prod.exhaust)
  obtain n1 n2 m where st: "c \<le> n1" "n1 \<le> n2" "clocked n2 ops" "lanes_ok (fst sw')" "sd_reuseWait (fst sw') = sd_reuseWait (fst sw)"
    "uses = [] \<or> uses = [(n1, n2, m, sd_sequences (fst sw) ! unat m)]"
    "\<And>l. lane_step (fst sw) n1 n2 l (fst sw') (uses \<noteq> [] \<and> l = m)"
    by (rule sender_exec_cases [OF Cons.prems(1,5) ex]) (rule that)
  have rw: "0 < sd_reuseWait (fst sw)" using Cons.prems(1) by (simp add: lanes_ok_def)
  note g = guarded_step [OF Cons.prems(2) st(7) Cons.prems(3,4) st(1,2) rw st(5)]
  show ?case
  proof (cases "(now, later, l, q) \<in> set uses")
    case True
    then have "uses \<noteq> []" and u: "(now, later, l, q) = (n1, n2, m, sd_sequences (fst sw) ! unat m)" using st(6) by auto
    then show ?thesis using g(2) by simp
  next
    case False
    then have "(now, later, l, q) \<in> set (sender_uses sum64 sw' ops)" using Cons.prems(6) ex by simp
    moreover have "t \<le> n2" using Cons.prems(4) st(1,2) by linarith
    ultimately show ?thesis using Cons.IH [OF st(4) g(1) Cons.prems(3) _ st(3)] st(5) by simp
  qed
qed

lemma uses_apart:
  assumes "lanes_ok (fst sw)" and "clocked c ops" and "0 < c"
  shows "sorted_wrt (\<lambda>u v. fst (snd (snd u)) = fst (snd (snd v)) \<longrightarrow> snd (snd (snd u)) = snd (snd (snd v)) \<longrightarrow>
    fst (snd u) + sd_reuseWait (fst sw) \<le> fst v) (sender_uses sum64 sw ops)"
  using assms
proof (induction ops arbitrary: sw c)
  case Nil
  then show ?case by simp
next
  case (Cons op ops)
  obtain sw' uses where ex: "sender_exec sum64 sw op = (sw', uses)" by (rule prod.exhaust)
  obtain n1 n2 m where st: "c \<le> n1" "n1 \<le> n2" "clocked n2 ops" "lanes_ok (fst sw')" "sd_reuseWait (fst sw') = sd_reuseWait (fst sw)"
    "uses = [] \<or> uses = [(n1, n2, m, sd_sequences (fst sw) ! unat m)]"
    "\<And>l. lane_step (fst sw) n1 n2 l (fst sw') (uses \<noteq> [] \<and> l = m)"
    by (rule sender_exec_cases [OF Cons.prems(1,2) ex]) (rule that)
  have pos: "0 < n2" using Cons.prems(3) st(1,2) by linarith
  have IH: "sorted_wrt (\<lambda>u v. fst (snd (snd u)) = fst (snd (snd v)) \<longrightarrow> snd (snd (snd u)) = snd (snd (snd v)) \<longrightarrow>
      fst (snd u) + sd_reuseWait (fst sw) \<le> fst v) (sender_uses sum64 sw' ops)"
    using Cons.IH [OF st(4,3) pos] st(5) by simp
  show ?case
  proof (cases "uses = []")
    case True
    then show ?thesis using ex IH by simp
  next
    case False
    let ?q = "sd_sequences (fst sw) ! unat m"
    have q1: "?q < ?q + 1 \<or> ?q + 1 = 0"
      using unatSuc [of ?q] by (cases "?q + 1 = 0") (simp_all add: word_less_nat_alt add.commute)
    then have "guarded (fst sw') m ?q n2 n2"
      using st(7) [of m] st(5) False by (auto simp: guarded_def lane_step_def Let_def)
    then have "n2 + sd_reuseWait (fst sw) \<le> now" if "(now, later, m, ?q) \<in> set (sender_uses sum64 sw' ops)" for now later
      using guarded_uses [OF st(4) _ pos order_refl st(3) that] st(5) by simp
    then show ?thesis using ex False st(6) IH by auto
  qed
qed


text \<open>The numbers a run uses on one lane are consecutive.\<close>

abbreviation lane_numbers :: "byte \<Rightarrow> (gotime \<times> gotime \<times> byte \<times> u32) list \<Rightarrow> u32 list" where
  "lane_numbers l uses \<equiv> map (\<lambda>u. snd (snd (snd u))) (filter (\<lambda>u. fst (snd (snd u)) = l) uses)"

lemma uses_consecutive:
  assumes "lanes_ok (fst sw)" and "clocked c ops" and "lane_numbers l (sender_uses sum64 sw ops) = ns"
  shows "k < length ns \<Longrightarrow> ns ! k = sd_sequences (fst sw) ! unat l + of_nat k"
  using assms
proof (induction ops arbitrary: sw c ns k)
  case Nil
  then show ?case by simp
next
  case (Cons op ops)
  obtain sw' uses where ex: "sender_exec sum64 sw op = (sw', uses)" by (rule prod.exhaust)
  obtain n1 n2 m where st: "c \<le> n1" "n1 \<le> n2" "clocked n2 ops" "lanes_ok (fst sw')" "sd_reuseWait (fst sw') = sd_reuseWait (fst sw)"
    "uses = [] \<or> uses = [(n1, n2, m, sd_sequences (fst sw) ! unat m)]"
    "\<And>l. lane_step (fst sw) n1 n2 l (fst sw') (uses \<noteq> [] \<and> l = m)"
    by (rule sender_exec_cases [OF Cons.prems(2,3) ex]) (rule that)
  define ms where "ms = lane_numbers l (sender_uses sum64 sw' ops)"
  have IH: "k < length ms \<Longrightarrow> ms ! k = sd_sequences (fst sw') ! unat l + of_nat k" for k
    by (rule Cons.IH [OF _ st(4,3) ms_def [symmetric]])
  show ?case
  proof (cases "uses \<noteq> [] \<and> l = m")
    case True
    then have n: "ns = sd_sequences (fst sw) ! unat l # ms" using Cons.prems(4) ex st(6) by (auto simp: ms_def)
    have "sd_sequences (fst sw') ! unat l = sd_sequences (fst sw) ! unat l + 1"
      using st(7) [of l] True by (simp add: lane_step_def Let_def)
    then show ?thesis using n IH Cons.prems(1) by (cases k) simp_all
  next
    case False
    then have "ns = ms" using Cons.prems(4) ex st(6) by (auto simp: ms_def)
    moreover have "sd_sequences (fst sw') ! unat l = sd_sequences (fst sw) ! unat l"
      using st(7) [of l] False by (simp add: lane_step_def Let_def)
    ultimately show ?thesis using IH Cons.prems(1) by simp
  qed
qed

subsection \<open>Properties\<close>

text \<open>A payload sender whose lane 7 is about to wrap, and a sink that collects payloads.\<close>

definition collect_payload :: "((RoutePeer \<times> bytes) list, unit) payload_sink" where
  "collect_payload w peer payload = (w @ [(peer, payload)], None)"

definition sample_sender_config :: "unit SenderConfig" where
  "sample_sender_config =
     \<lparr>sc_DataSessionID = 9, sc_LaneID = 7, sc_CarrierSource = AddrInvalid, sc_CarrierDest = AddrInvalid, sc_CarrierPayload = 613,
      sc_MinPack = 1, sc_RemotePeerMTU = 1500, sc_PeerID = 3, sc_AllowedIPs = None, sc_Classifier = None,
      sc_InitialSequences = Some (replicate 256 (- 1)), sc_InitialWrapBlocks = None, sc_SequenceReuseLifetime = 1000\<rparr>"

definition sample_sender :: "(unit, (RoutePeer \<times> bytes) list, unit) Sender" where
  "sample_sender = projr (NewPayloadSender sample_sender_config (Some collect_payload))"

lemma sample_sender_new: "NewPayloadSender sample_sender_config (Some collect_payload) = Inr sample_sender"
  by (simp add: sample_sender_def NewPayloadSender_def newSender_def sample_sender_config_def Packetizer_Init_def
      ValidateInnerMTU_def limits_defs carrier_consts)

lemma sample_sender_ok: "sender_ok sample_sender []" "lanes_ok sample_sender" "sd_config sample_sender = sample_sender_config"
proof -
  have a: "arrays_ok sample_sender_config" by (simp add: arrays_ok_def sample_sender_config_def Lanes_def)
  note n = newSender_ok [OF sample_sender_new [unfolded NewPayloadSender_def] a]
  show "sender_ok sample_sender []" "sd_config sample_sender = sample_sender_config" using n by simp_all
  then show "lanes_ok sample_sender" by (simp add: sender_ok_def lanes_ok_def)
qed

definition sample_inner :: bytes where
  "sample_inner = [0x45, 0, 0, 40, 0, 0, 0, 0, 64, 17, 0, 0, 10, 0, 0, 1, 10, 0, 0, 2] @ replicate 20 5"

definition routed_here :: "'seed SenderConfig \<Rightarrow> bytes \<Rightarrow> bool" where
  "routed_here config packet =
     (case innerip_Parse packet of
        Inl _ \<Rightarrow> False
      | Inr parsed \<Rightarrow>
          (sc_AllowedIPs config \<noteq> None \<longrightarrow> LookupPeer (sc_AllowedIPs config) (ip_Destination parsed) = (sc_PeerID config, True)) \<and>
          int (length (ip_Data parsed)) \<le> sc_RemotePeerMTU config)"

lemma admit_routed: "admit config packet = Inr parsed \<Longrightarrow> routed_here config packet"
  by (auto simp: admit_def routed_here_def split: sum.splits if_splits prod.splits)

text \<open>
  C9.  The sender packs exactly the packets it admits.  If \<^verbatim>\<open>Add\<close> succeeds, the packet parsed, is routed to
  this peer and within its MTU, and its lane was open; the records emitted during the call followed by
  those still waiting are the records that were waiting before followed by the fragments of the packet,
  numbered with the next sequence number of its lane, which advances by one.  If \<^verbatim>\<open>Add\<close> fails, the sequence
  numbers stay as they were, and unless a sink failed nothing was emitted and nothing waiting was lost.
\<close>

theorem Sender_Add_stream:
  assumes "sender_ok s rs"
  shows "case Sender_Add sum64 s now later w packet of (s', w', res) \<Rightarrow>
    sender_outcome sum64 s rs now later w packet s' w' res \<and> (res = None \<longrightarrow> routed_here (sd_config s) packet)"
proof -
  obtain s' w' res where add: "Sender_Add sum64 s now later w packet = (s', w', res)" by (metis prod_cases3)
  have "routed_here (sd_config s) packet" if "res = None"
    using Sender_Add_outcome [OF assms add] that by (auto simp: sender_outcome_def dest: admit_routed)
  then show ?thesis using Sender_Add_outcome [OF assms add] add by simp
qed

theorem Sender_Add_stream_witness:
  "\<exists>s' w' parsed fs gs rs'. Sender_Add (\<lambda>_ _. 0) sample_sender 5 6 [] sample_inner = (s', w', None) \<and>
     innerip_Parse sample_inner = Inr parsed \<and> fragmentation (ip_Data parsed) (packet_metadata sample_sender 7) fs \<and>
     concat gs @ rs' = map frag_record fs \<and> sender_ok s' rs' \<and> Sequences s' ! 7 = 0"
proof -
  obtain s' w' res where out: "Sender_Add (\<lambda>_ _. 0) sample_sender 5 6 [] sample_inner = (s', w', res)" by (metis prod_cases3)
  have "case Sender_Add (\<lambda>_ _. 0) sample_sender 5 6 [] sample_inner of (s', w', res) \<Rightarrow>
      Option.is_none res \<and> sd_sequences s' ! 7 = 0"
    by code_simp
  then have r: "res = None" "Sequences s' ! 7 = 0" by (simp_all add: out Option.is_none_def Sequences_def split: option.splits)
  have "lane_of (\<lambda>_ _. 0) (sd_config sample_sender) x = 7" for x
    by (simp add: sample_sender_ok(3) lane_of_def sample_sender_config_def)
  with Sender_Add_stream [OF sample_sender_ok(1), of "\<lambda>_ _. 0" 5 6 "[]" sample_inner] show ?thesis
    using r by (auto simp: out sender_outcome_def dest!: admit_parse)
qed


definition wrap_ops :: "sender_op list" where
  "wrap_ops = [SAdd 10 11 sample_inner, SAdd 20 20 sample_inner, SFlush, SAdd 1010 1010 sample_inner, SAdd 1011 1012 sample_inner]"


end
