(* ===== verification/Receiver.thy ===== *)
theory Receiver
  imports Reorder InnerIP PeerRoute
begin

text \<open>
  \<^verbatim>\<open>internal/core/datapath/receiver.go\<close> and \<^verbatim>\<open>classify.go\<close>: the inbound pipeline of one peer, from a carrier payload
  through reassembly and the reorder queues of the 256 lanes to the sink of inner packets.  The sink is an
  interface of the source, here a function on the world it acts on; a nil sink is \<open>None\<close>.  The output
  buffer \<^verbatim>\<open>delivered\<close> is represented by its length, its contents by the list a reorder operation returns.
  An outer \<open>None\<close> is a panic of a component.
\<close>

datatype 'e receiver_error =
    rv_ErrInvalidConfig
  | ErrDataSession
  | rv_Accounting
  | rv_envelope envelope_error
  | rv_carrier carrier_error
  | rv_innerip innerip_error
  | rv_reassembly reassembly_error
  | rv_reorder reorder_error
  | rv_sink 'e

type_synonym ('w, 'e) inner_sink = "'w \<Rightarrow> bytes \<Rightarrow> 'w \<times> 'e option"

record ReceiverConfig =
  rf_PeerID :: RoutePeer
  rf_DataSessionID :: u16
  rf_CarrierSource :: addr
  rf_CarrierDest :: addr
  rf_AllowedIPs :: "Snapshot option"
  rf_Slots :: int
  rf_PerPeerSlots :: int
  rf_MaxPacketSize :: int
  rf_Lifetime :: duration
  rf_ReorderEnabled :: bool
  rf_ReorderCapacity :: int
  rf_ReorderBudget :: int
  rf_ReorderMaxDelay :: duration

record ReceiverDrops =
  dr_SourceSpoof :: u64
  dr_NativeFragment :: u64
  dr_InnerInvalid :: u64

record Receiver =
  rv_config :: ReceiverConfig
  rv_payloadOnly :: bool
  rv_reassembly_state :: Reassembler
  rv_reorders :: "Reorderer list"
  rv_delivered :: nat
  rv_reorderHeld :: int
  rv_reorderBudget :: int
  rv_reorderDeadline :: gotime
  rv_drops :: ReceiverDrops
  rv_unknownSession :: u16

definition TakeUnknownSession :: "Receiver \<Rightarrow> Receiver \<times> u16 \<times> bool" where
  "TakeUnknownSession r = (r\<lparr>rv_unknownSession := 0\<rparr>, rv_unknownSession r, rv_unknownSession r \<noteq> 0)"

definition Drops :: "Receiver \<Rightarrow> ReceiverDrops" where
  "Drops r = rv_drops r"

definition Receiver_SetAllowedIPs :: "Receiver \<Rightarrow> Snapshot option \<Rightarrow> Receiver" where
  "Receiver_SetAllowedIPs r routes = r\<lparr>rv_config := (rv_config r)\<lparr>rf_AllowedIPs := routes\<rparr>\<rparr>"

text \<open>The loop that creates the reorderer of every lane.\<close>

definition lane_config :: "ReceiverConfig \<Rightarrow> nat \<Rightarrow> ReorderConfig" where
  "lane_config config lane =
     \<lparr>ro_Enabled = rf_ReorderEnabled config, ro_Capacity = rf_ReorderCapacity config, ro_MaxDelay = rf_ReorderMaxDelay config,
      ro_Lane = \<lparr>ln_PeerID = 0, ln_DataSessionID = rf_DataSessionID config, ln_LaneID = of_nat lane\<rparr>, ro_NextSequence = 0\<rparr>"

fun new_lanes :: "ReceiverConfig \<Rightarrow> nat list \<Rightarrow> 'e receiver_error + Reorderer list" where
  "new_lanes config [] = Inr []"
| "new_lanes config (lane # lanes) =
     (case NewReorderer (lane_config config lane) of
        Inl err \<Rightarrow> Inl (rv_reorder err)
      | Inr r \<Rightarrow> (case new_lanes config lanes of Inl err \<Rightarrow> Inl err | Inr rs \<Rightarrow> Inr (r # rs)))"

definition newConfiguredReceiver :: "ReceiverConfig \<Rightarrow> bool \<Rightarrow> 'e receiver_error + Receiver" where
  "newConfiguredReceiver config payloadOnly =
     (if rf_DataSessionID config = 0 \<or>
         (\<not> payloadOnly \<and>
           (\<not> Is6 (rf_CarrierSource config) \<or> \<not> IsLinkLocalUnicast (rf_CarrierSource config) \<or>
            \<not> Is6 (rf_CarrierDest config) \<or> \<not> IsLinkLocalUnicast (rf_CarrierDest config))) \<or>
         rf_AllowedIPs config = None \<or> rf_Slots config \<le> 0 \<or> rf_PerPeerSlots config \<le> 0 \<or>
         rf_MaxPacketSize config < MinInnerMTU \<or> rf_MaxPacketSize config > MaxInnerMTU \<or> rf_Lifetime config \<le> 0 \<or>
         (rf_ReorderEnabled config \<and> (rf_ReorderCapacity config \<le> 0 \<or> rf_ReorderMaxDelay config \<le> 0))
      then Inl rv_ErrInvalidConfig
      else
        (let config = (if rf_ReorderEnabled config \<and> rf_ReorderBudget config = 0
                       then config\<lparr>rf_ReorderBudget := rf_Slots config - 1\<rparr> else config)
         in
         if rf_ReorderEnabled config \<and> (rf_ReorderBudget config \<le> 0 \<or> rf_ReorderBudget config \<ge> rf_Slots config)
         then Inl rv_ErrInvalidConfig
         else
           (case NewReassembler \<lparr>rg_Slots = rf_Slots config, rg_MaxPacketSize = rf_MaxPacketSize config, rg_MaxPeers = 1,
                                 rg_PerPeerSlots = rf_PerPeerSlots config, rg_Lifetime = rf_Lifetime config\<rparr> of
              Inl err \<Rightarrow> Inl (rv_reassembly err)
            | Inr reassembler \<Rightarrow>
                (case new_lanes config [0..<256] of
                   Inl err \<Rightarrow> Inl err
                 | Inr lanes \<Rightarrow>
                     Inr \<lparr>rv_config = config, rv_payloadOnly = payloadOnly, rv_reassembly_state = reassembler, rv_reorders = lanes,
                          rv_delivered = (if rf_ReorderEnabled config then nat (rf_ReorderCapacity config + 1) else 1),
                          rv_reorderHeld = 0, rv_reorderBudget = rf_ReorderBudget config, rv_reorderDeadline = 0,
                          rv_drops = \<lparr>dr_SourceSpoof = 0, dr_NativeFragment = 0, dr_InnerInvalid = 0\<rparr>,
                          rv_unknownSession = 0\<rparr>))))"

definition NewReceiver :: "ReceiverConfig \<Rightarrow> 'e receiver_error + Receiver" where
  "NewReceiver config = newConfiguredReceiver config False"

definition NewPayloadReceiver :: "ReceiverConfig \<Rightarrow> 'e receiver_error + Receiver" where
  "NewPayloadReceiver config = newConfiguredReceiver config True"

subsection \<open>Delivery\<close>

text \<open>
  \<open>judge r packet\<close>: what \<^verbatim>\<open>deliver\<close> does with one packet, a drop with its counter or the data for the sink.
\<close>

definition judge :: "Receiver \<Rightarrow> bytes \<Rightarrow> ReceiverDrops + bytes" where
  "judge r packet =
     (let drops = rv_drops r in
      case ParseExact packet of
        Inl ErrNativeFragment \<Rightarrow> Inl (drops\<lparr>dr_NativeFragment := dr_NativeFragment drops + 1\<rparr>)
      | Inl _ \<Rightarrow> Inl (drops\<lparr>dr_InnerInvalid := dr_InnerInvalid drops + 1\<rparr>)
      | Inr parsed \<Rightarrow>
          (if \<not> ValidateSource (rf_AllowedIPs (rv_config r)) (rf_PeerID (rv_config r)) (ip_Source parsed)
           then Inl (drops\<lparr>dr_SourceSpoof := dr_SourceSpoof drops + 1\<rparr>)
           else Inr (ip_Data parsed)))"

text \<open>Releasing the slot of a packet; the error of \<^verbatim>\<open>Release\<close> is returned.\<close>

definition release :: "Receiver \<Rightarrow> Packet \<Rightarrow> (Receiver \<times> reassembly_error option) option" where
  "release r packet =
     (case Reassembler_Release (rv_reassembly_state r) (pk_Handle packet) of
        None \<Rightarrow> None
      | Some (ra, err) \<Rightarrow> Some (r\<lparr>rv_reassembly_state := ra\<rparr>, err))"

fun deliver_loop ::
    "Receiver \<Rightarrow> ('w, 'e) inner_sink option \<Rightarrow> 'w \<Rightarrow> 'e receiver_error option \<Rightarrow> Packet list \<Rightarrow>
     (Receiver \<times> 'w \<times> 'e receiver_error option) option" where
  "deliver_loop r sink w firstErr [] = Some (r, w, firstErr)"
| "deliver_loop r sink w firstErr (packet # packets) =
     (let (r1, w1, err1) =
        (case judge r (pk_Data packet) of
           Inl drops \<Rightarrow> (r\<lparr>rv_drops := drops\<rparr>, w, firstErr)
         | Inr data \<Rightarrow>
             (if firstErr = None \<and> sink \<noteq> None
              then (case the sink w data of (w', err) \<Rightarrow> (r, w', map_option rv_sink err))
              else (r, w, firstErr)))
      in do {
        (r2, releaseErr) \<leftarrow> release r1 packet;
        deliver_loop r2 sink w1 (if releaseErr \<noteq> None \<and> err1 = None then map_option rv_reassembly releaseErr else err1) packets
      })"

definition deliver_packets ::
    "Receiver \<Rightarrow> ('w, 'e) inner_sink option \<Rightarrow> 'w \<Rightarrow> Packet list \<Rightarrow> (Receiver \<times> 'w \<times> 'e receiver_error option) option" where
  "deliver_packets r sink w packets = deliver_loop r sink w None packets"

subsection \<open>The reorder deadline\<close>

definition refreshReorderDeadline :: "Receiver \<Rightarrow> bool \<Rightarrow> gotime \<Rightarrow> Receiver" where
  "refreshReorderDeadline r recompute now =
     (if \<not> rf_ReorderEnabled (rv_config r) \<or> rv_reorderHeld r = 0 then r\<lparr>rv_reorderDeadline := 0\<rparr>
      else if \<not> recompute \<and> IsZero (rv_reorderDeadline r)
      then r\<lparr>rv_reorderDeadline := now + rf_ReorderMaxDelay (rv_config r)\<rparr>
      else if \<not> recompute then r
      else
        r\<lparr>rv_reorderDeadline :=
            foldl (\<lambda>deadline reorderer.
                     if Reorderer_Pending reorderer = 0 then deadline
                     else
                       (let candidate = Reorderer_GapStartedAt reorderer + rf_ReorderMaxDelay (rv_config r) in
                        if IsZero deadline \<or> candidate < deadline then candidate else deadline))
              0 (rv_reorders r)\<rparr>)"

definition considerReorderDeadline :: "Receiver \<Rightarrow> gotime \<Rightarrow> Receiver" where
  "considerReorderDeadline r candidate =
     (if \<not> rf_ReorderEnabled (rv_config r) \<or> rv_reorderHeld r = 0 then r
      else if IsZero (rv_reorderDeadline r) \<or> candidate < rv_reorderDeadline r then r\<lparr>rv_reorderDeadline := candidate\<rparr>
      else r)"

text \<open>The scan for the lane whose gap is oldest; \<open>None\<close> is the index -1.\<close>

definition older_lane :: "Reorderer list \<Rightarrow> nat option \<Rightarrow> nat \<Rightarrow> nat option" where
  "older_lane lanes oldest lane =
     (if Reorderer_Pending (lanes ! lane) = 0 \<or>
         (case oldest of None \<Rightarrow> False | Some o1 \<Rightarrow> \<not> Reorderer_GapStartedAt (lanes ! lane) < Reorderer_GapStartedAt (lanes ! o1))
      then oldest else Some lane)"

definition oldestReorderLane :: "Receiver \<Rightarrow> nat option" where
  "oldestReorderLane r = foldl (older_lane (rv_reorders r)) None [0..<length (rv_reorders r)]"

definition set_lane :: "Receiver \<Rightarrow> nat \<Rightarrow> Reorderer \<Rightarrow> Receiver" where
  "set_lane r lane reorderer = r\<lparr>rv_reorders := (rv_reorders r)[lane := reorderer]\<rparr>"

definition flushOldestReorder ::
    "Receiver \<Rightarrow> gotime \<Rightarrow> ('w, 'e) inner_sink option \<Rightarrow> 'w \<Rightarrow> (Receiver \<times> 'w \<times> 'e receiver_error option) option" where
  "flushOldestReorder r now sink w =
     (case oldestReorderLane r of
        None \<Rightarrow> Some (r, w, Some rv_Accounting)
      | Some oldest \<Rightarrow> do {
          (lane, res) \<leftarrow> Reorderer_Flush (rv_reorders r ! oldest) (rv_delivered r);
          (case res of
             Inl err \<Rightarrow> Some (set_lane r oldest lane, w, Some (rv_reorder err))
           | Inr out \<Rightarrow>
               deliver_packets
                 (refreshReorderDeadline ((set_lane r oldest lane)\<lparr>rv_reorderHeld := rv_reorderHeld r - int (length out)\<rparr>) True now)
                 sink w out)
        })"

subsection \<open>One completed packet\<close>

text \<open>An error return that first releases the packet, ignoring the error of \<^verbatim>\<open>Release\<close>.\<close>

definition drop_packet ::
    "Receiver \<Rightarrow> Packet \<Rightarrow> 'w \<Rightarrow> 'e receiver_error \<Rightarrow> (Receiver \<times> 'w \<times> 'e receiver_error option) option" where
  "drop_packet r packet w err = do { (r1, _) \<leftarrow> release r packet; Some (r1, w, Some err) }"

text \<open>The lane's \<^verbatim>\<open>Accept\<close> and what follows it.\<close>

definition accept_ordered ::
    "Receiver \<Rightarrow> gotime \<Rightarrow> Packet \<Rightarrow> int \<Rightarrow> ('w, 'e) inner_sink option \<Rightarrow> 'w \<Rightarrow>
     (Receiver \<times> 'w \<times> 'e receiver_error option) option" where
  "accept_ordered r now packet beforeHeld sink w =
     (let l = unat (k_LaneID (pk_Key packet)) in do {
        (lane, res) \<leftarrow> Reorderer_Accept (rv_reorders r ! l) now packet (rv_delivered r);
        (let r1 = set_lane r l lane in
         case res of
           Inl err \<Rightarrow> drop_packet r1 packet w (rv_reorder err)
         | Inr (status, out) \<Rightarrow>
             (if status = StatusLate \<or> status = ro_StatusDuplicate then
                do { (r2, err) \<leftarrow> release r1 packet; Some (r2, w, map_option rv_reassembly err) }
              else
                (let r2 = (if status = StatusQueued
                           then considerReorderDeadline (r1\<lparr>rv_reorderHeld := rv_reorderHeld r1 + 1\<rparr>)
                                  (Reorderer_GapStartedAt lane + rf_ReorderMaxDelay (rv_config r1))
                           else r1\<lparr>rv_reorderHeld := rv_reorderHeld r1 - (int (length out) - 1)\<rparr>);
                     r3 = (if rv_reorderHeld r2 = 0 then refreshReorderDeadline r2 False now
                           else if beforeHeld = 0 then refreshReorderDeadline r2 False now
                           else if status = StatusFlushed \<or> (status = StatusDelivered \<and> length out > 1)
                           then refreshReorderDeadline r2 True now
                           else r2)
                 in deliver_packets r3 sink w out)))
      })"

definition accept_completed ::
    "Receiver \<Rightarrow> gotime \<Rightarrow> Packet \<Rightarrow> ('w, 'e) inner_sink option \<Rightarrow> 'w \<Rightarrow> (Receiver \<times> 'w \<times> 'e receiver_error option) option" where
  "accept_completed r now packet sink w =
     (let l = unat (k_LaneID (pk_Key packet));
          beforeHeld = rv_reorderHeld r
      in
      if rf_ReorderEnabled (rv_config r) \<and> rv_reorderHeld r \<ge> rv_reorderBudget r \<and>
         Reorderer_WouldQueue (rv_reorders r ! l) (seq_of packet)
      then
        (case oldestReorderLane r of
           None \<Rightarrow> drop_packet r packet w rv_Accounting
         | Some oldest \<Rightarrow>
             (if oldest = l then do {
                (lane, res) \<leftarrow> Reorderer_FlushIncluding (rv_reorders r ! l) packet (rv_delivered r);
                (let r1 = set_lane r l lane in
                 case res of
                   Inl err \<Rightarrow> drop_packet r1 packet w (rv_reorder err)
                 | Inr out \<Rightarrow>
                     deliver_packets
                       (refreshReorderDeadline (r1\<lparr>rv_reorderHeld := rv_reorderHeld r1 - (int (length out) - 1)\<rparr>) True now)
                       sink w out)
              }
              else do {
                (r1, w1, err) \<leftarrow> flushOldestReorder r now sink w;
                (case err of
                   Some e \<Rightarrow> drop_packet r1 packet w1 e
                 | None \<Rightarrow> accept_ordered r1 now packet beforeHeld sink w1)
              }))
      else accept_ordered r now packet beforeHeld sink w)"

subsection \<open>Payloads and carriers\<close>

definition accept_record ::
    "Receiver \<Rightarrow> gotime \<Rightarrow> ('w, 'e) inner_sink option \<Rightarrow> 'w \<Rightarrow> Record \<Rightarrow> (Receiver \<times> 'w \<times> 'e receiver_error option) option" where
  "accept_record r now sink w rec =
     (if hd_DataSessionID (rc_Header rec) \<noteq> rf_DataSessionID (rv_config r)
      then Some (r\<lparr>rv_unknownSession := hd_DataSessionID (rc_Header rec)\<rparr>, w, Some ErrDataSession)
      else do {
        (ra, res) \<leftarrow>
          Reassembler_Accept (rv_reassembly_state r) now
            \<lparr>k_PeerID = 0, k_DataSessionID = hd_DataSessionID (rc_Header rec), k_LaneID = hd_LaneID (rc_Header rec),
             k_LaneSequence = hd_LaneSequence (rc_Header rec)\<rparr> rec;
        (let r1 = r\<lparr>rv_reassembly_state := ra\<rparr> in
         case res of
           Inl err \<Rightarrow> Some (r1, w, Some (rv_reassembly err))
         | Inr result \<Rightarrow>
             (if rr_Status result \<noteq> StatusCompleted then Some (r1, w, None)
              else accept_completed r1 now (the (rr_Packet result)) sink w))
      })"

text \<open>The visitor of \<^verbatim>\<open>carrier.Parse\<close>; a panic ends the walk.\<close>

definition visit_record ::
    "gotime \<Rightarrow> ('w, 'e) inner_sink option \<Rightarrow> (Receiver \<times> 'w) option \<Rightarrow> Record \<Rightarrow>
     (Receiver \<times> 'w) option \<times> 'e receiver_error option" where
  "visit_record now sink state rec =
     (case state of
        None \<Rightarrow> (None, Some rv_Accounting)
      | Some (r, w) \<Rightarrow>
          (case accept_record r now sink w rec of
             None \<Rightarrow> (None, Some rv_Accounting)
           | Some (r', w', err) \<Rightarrow> (Some (r', w'), err)))"

definition acceptPayload ::
    "Receiver \<Rightarrow> gotime \<Rightarrow> bytes \<Rightarrow> ('w, 'e) inner_sink option \<Rightarrow> 'w \<Rightarrow> (Receiver \<times> 'w \<times> 'e receiver_error option) option" where
  "acceptPayload r now payload sink w =
     (case Parse payload (visit_record now sink) (Some (r, w)) of
        (None, _) \<Rightarrow> None
      | (Some (r', w'), None) \<Rightarrow> Some (r', w', None)
      | (Some (r', w'), Some (Inl err)) \<Rightarrow> Some (r', w', Some (rv_carrier err))
      | (Some (r', w'), Some (Inr err)) \<Rightarrow> Some (r', w', Some err))"

definition AcceptPayload ::
    "Receiver \<Rightarrow> gotime \<Rightarrow> bytes \<Rightarrow> ('w, 'e) inner_sink option \<Rightarrow> 'w \<Rightarrow> (Receiver \<times> 'w \<times> 'e receiver_error option) option" where
  "AcceptPayload r now payload sink w = acceptPayload r now payload sink w"

definition AcceptCarrier ::
    "Receiver \<Rightarrow> gotime \<Rightarrow> bytes \<Rightarrow> ('w, 'e) inner_sink option \<Rightarrow> 'w \<Rightarrow> (Receiver \<times> 'w \<times> 'e receiver_error option) option" where
  "AcceptCarrier r now outer sink w =
     (case ParseEnvelope outer (rf_CarrierSource (rv_config r)) (rf_CarrierDest (rv_config r)) of
        Inl err \<Rightarrow> Some (r, w, Some (rv_envelope err))
      | Inr envelope \<Rightarrow> acceptPayload r now (en_Payload envelope) sink w)"

subsection \<open>Timers\<close>

definition ExpireReassembly :: "Receiver \<Rightarrow> gotime \<Rightarrow> (Receiver \<times> nat) option" where
  "ExpireReassembly r now =
     (case Reassembler_Expire (rv_reassembly_state r) now of
        None \<Rightarrow> None
      | Some (ra, n) \<Rightarrow> Some (r\<lparr>rv_reassembly_state := ra\<rparr>, n))"

fun tick_loop ::
    "Receiver \<Rightarrow> gotime \<Rightarrow> ('w, 'e) inner_sink option \<Rightarrow> 'w \<Rightarrow> bool \<Rightarrow> nat list \<Rightarrow>
     (Receiver \<times> 'w \<times> 'e receiver_error option) option" where
  "tick_loop r now sink w flushed [] =
     Some (if flushed then refreshReorderDeadline r True now
           else if rv_reorderHeld r = 0 then refreshReorderDeadline r False now else r, w, None)"
| "tick_loop r now sink w flushed (l # ls) = do {
     (lane, res) \<leftarrow> Reorderer_Tick (rv_reorders r ! l) now (rv_delivered r);
     (let r1 = set_lane r l lane in
      case res of
        Inl err \<Rightarrow> Some (r1, w, Some (rv_reorder err))
      | Inr out \<Rightarrow>
          (let flushed1 = (flushed \<or> length out \<noteq> 0) in do {
             (r2, w2, err) \<leftarrow> deliver_packets (r1\<lparr>rv_reorderHeld := rv_reorderHeld r1 - int (length out)\<rparr>) sink w out;
             (case err of
                Some e \<Rightarrow> Some (if flushed1 then refreshReorderDeadline r2 True now else r2, w2, Some e)
              | None \<Rightarrow> tick_loop r2 now sink w2 flushed1 ls)
           }))
   }"

definition TickReorder ::
    "Receiver \<Rightarrow> gotime \<Rightarrow> ('w, 'e) inner_sink option \<Rightarrow> 'w \<Rightarrow> (Receiver \<times> 'w \<times> 'e receiver_error option) option" where
  "TickReorder r now sink w =
     (if \<not> rf_ReorderEnabled (rv_config r) \<or> rv_reorderHeld r = 0 then Some (r, w, None)
      else tick_loop r now sink w False [0..<length (rv_reorders r)])"

definition NextReorderDeadline :: "Receiver \<Rightarrow> gotime" where
  "NextReorderDeadline r = (if \<not> rf_ReorderEnabled (rv_config r) \<or> rv_reorderHeld r = 0 then 0 else rv_reorderDeadline r)"

definition Receiver_Tick ::
    "Receiver \<Rightarrow> gotime \<Rightarrow> ('w, 'e) inner_sink option \<Rightarrow> 'w \<Rightarrow> (Receiver \<times> 'w \<times> nat \<times> 'e receiver_error option) option" where
  "Receiver_Tick r now sink w = do {
     (r1, expired) \<leftarrow> ExpireReassembly r now;
     (r2, w2, err) \<leftarrow> TickReorder r1 now sink w;
     Some (r2, w2, expired, err)
   }"

subsection \<open>Classification of errors\<close>

text \<open>
  \<^verbatim>\<open>IsCarrierDrop\<close> compares with a fixed list of errors of the packages.  Whether an error of the sink counts is
  a parameter, because it is an arbitrary error value.
\<close>

definition IsCarrierDrop :: "('e \<Rightarrow> bool) \<Rightarrow> 'e receiver_error \<Rightarrow> bool" where
  "IsCarrierDrop sinkDrop err =
     (case err of
        rv_envelope e \<Rightarrow>
          e \<in> {ErrCarrierTooShort, ErrCarrierVersion, ErrCarrierNextHeader, ErrCarrierPayloadSize, ErrCarrierSource,
               ErrCarrierDestination, ErrCarrierPayloadLimit}
      | rv_carrier e \<Rightarrow>
          e \<in> {ErrHeaderTooShort, ErrRecordTruncated, ErrInvalidRecordLength, ErrInvalidFragment, ErrInvalidDataSessionID, ErrInvalidRange}
      | ErrDataSession \<Rightarrow> True
      | rv_innerip e \<Rightarrow> e \<in> {ErrTooShort, ErrUnsupportedIP, ErrInvalidIPv4, ErrInvalidIPv6, ErrNativeFragment}
      | rv_reassembly e \<Rightarrow>
          e \<in> {ErrInvalidKey, ErrKeyMismatch, ra_ErrInvalidFragment, ra_ErrInvalidRange, ErrFragmentCountMismatch, ErrFragmentConflict,
               ErrFragmentOverlap, ErrCoverage, ErrPeerQuota, ErrNoSlot, ErrCompletedPacketConflict}
      | rv_sink e \<Rightarrow> sinkDrop e
      | _ \<Rightarrow> False)"

end
