(* ===== verification/ReassemblyDone.thy ===== *)
theory ReassemblyDone
  imports ReassemblyRun "HOL-Library.Multiset"
begin

text \<open>
  Which slots of the reassembler hold a completed packet: \<open>Accept\<close> completes at most the slot of the packet
  it returns, every other operation completes none, and \<open>Release\<close> empties exactly one.  This is the contract
  the receiver's bookkeeping of held packets rests on.
\<close>

definition completed_slots :: "Reassembler \<Rightarrow> nat set" where
  "completed_slots r = {j. j < length (ra_slots r) \<and> sl_state (ra_slots r ! j) = slotCompleted}"

definition no_new :: "Reassembler \<Rightarrow> Reassembler \<Rightarrow> bool" where
  "no_new r r' \<longleftrightarrow> length (ra_slots r') = length (ra_slots r) \<and> completed_slots r' \<subseteq> completed_slots r"

lemma no_new_refl [simp]: "no_new r r"
  by (simp add: no_new_def)

lemma no_new_trans: "no_new r r1 \<Longrightarrow> no_new r1 r2 \<Longrightarrow> no_new r r2"
  by (auto simp: no_new_def)

lemma no_new_cong: "ra_slots r1 = ra_slots r \<Longrightarrow> no_new r1 r2 = no_new r r2" "ra_slots r2 = ra_slots r3 \<Longrightarrow> no_new r r2 = no_new r r3"
  by (simp_all add: no_new_def completed_slots_def)

lemma no_new_update: "ra_slots r' = (ra_slots r)[i := s] \<Longrightarrow> sl_state s \<noteq> slotCompleted \<or> sl_state s = sl_state (ra_slots r ! i) \<Longrightarrow> no_new r r'"
  unfolding no_new_def completed_slots_def by (auto, (metis nth_list_update_eq nth_list_update_neq)+)

lemma key_ops_slots: "removeKey r key = Some r' \<Longrightarrow> ra_slots r' = ra_slots r" "insertKey r i = Some r' \<Longrightarrow> ra_slots r' = ra_slots r"
  by (auto simp: removeKey_def deleteKeyPosition_def insertKey_def split: option.splits if_splits bind_splits)

lemma uncount_no_new: "no_new r (uncount r i)" "length (ra_slots (uncount r i)) = length (ra_slots r)"
proof -
  show "no_new r (uncount r i)"
    by (cases "sl_counted (ra_slots r ! i)")
      (auto simp: uncount_def Let_def set_slot_def intro!: no_new_update [of _ r i "(ra_slots r ! i)\<lparr>sl_counted := False\<rparr>"])
  then show "length (ra_slots (uncount r i)) = length (ra_slots r)" by (simp add: no_new_def)
qed

lemma clearSlot_no_new:
  assumes "clearSlot r i = Some r'"
  shows "no_new r r'"
proof (cases "sl_state (ra_slots r ! i) = slotFree")
  case True
  then show ?thesis using assms by (simp add: clearSlot_def)
next
  case False
  obtain r1 s where r1: "(if \<not> sl_detached (ra_slots r ! i) then removeKey r (sl_key (ra_slots r ! i)) else Some r) = Some r1"
    and r': "r' = (set_slot (uncount r1 i) i s)\<lparr>ra_freeHead := int i\<rparr>" "sl_state s = slotFree"
    using assms False by (auto simp: clearSlot_def Let_def zero_slot_def split: bind_splits)
  have e: "ra_slots r1 = ra_slots r" using r1 key_ops_slots(1) by (auto split: if_splits)
  have "no_new r (uncount r1 i)" using uncount_no_new(1) [of r1 i] no_new_cong(1) [OF e] by simp
  moreover have "no_new (uncount r1 i) r'" by (rule no_new_update [of _ _ i s]) (use r' in \<open>simp_all add: set_slot_def\<close>)
  ultimately show ?thesis by (rule no_new_trans)
qed

lemma allocated_no_new:
  assumes "allocated r r' i now key cnt"
  shows "no_new r r'" and "i \<notin> completed_slots r" and "sl_key (ra_slots r' ! i) = key" and "live r' i" and "reasm_ok r'"
    and "ra_config r' = ra_config r"
proof -
  show "no_new r r'"
    using assms by (intro no_new_update [of _ _ i "new_slot (ra_slots r ! i) (ra_nextBorn r + 1) now key cnt"])
      (simp_all add: allocated_def new_slot_def)
qed (use assms live_allocated [OF assms] in \<open>auto simp: allocated_def completed_slots_def new_slot_def\<close>)

text \<open>A fragment that is stored goes to a slot that is still assembling.\<close>

lemma stored_in_assembling:
  assumes "reasm_ok r" and "live r i" and "record_fits (nat (rg_MaxPacketSize (ra_config r))) rec"
    and "sl_count (ra_slots r ! i) = hd_FragmentCount (rc_Header rec)"
    and "\<not> bit (sl_present (ra_slots r ! i)) (unat (hd_FragmentIndex (rc_Header rec)))"
  shows "sl_state (ra_slots r ! i) = slotAssembling"
proof -
  let ?s = "ra_slots r ! i"
  have i: "i < length (ra_slots r)" and nf: "sl_state ?s \<noteq> slotFree" using assms(2) by (simp_all add: live_def)
  have s: "slot_ok (ra_config r) ?s" by (rule reasm_okD(4) [OF assms(1) i])
  then have "fragments_ok ?s" using nf by (simp add: slot_ok_def)
  moreover have "unat (hd_FragmentIndex (rc_Header rec)) < unat (sl_count ?s)"
    using assms(3,4) by (simp add: record_fits_def word_less_nat_alt)
  ultimately show ?thesis
    using s nf assms(5) present_all [of "unat (sl_count ?s)" "sl_present ?s"]
    by (cases "sl_state ?s") (auto simp: slot_ok_def fragments_ok_def)
qed

definition completes :: "Reassembler \<Rightarrow> Key \<Rightarrow> Reassembler \<Rightarrow> reassembly_error + ReassemblyResult \<Rightarrow> bool" where
  "completes r key r' res \<longleftrightarrow>
     (\<exists>rr p i. res = Inr rr \<and> rr_Status rr = StatusCompleted \<and> rr_Packet rr = Some p \<and> pk_Key p = key \<and>
        sh_index (pk_Handle p) = int i \<and> i \<notin> completed_slots r \<and> length (ra_slots r') = length (ra_slots r) \<and>
        completed_slots r' \<subseteq> insert i (completed_slots r))"

text \<open>The errors a record can be refused with.\<close>

definition fragment_errors :: "reassembly_error set" where
  "fragment_errors = {ErrInvalidKey, ErrKeyMismatch, ra_ErrInvalidFragment, ra_ErrInvalidRange, ErrFragmentCountMismatch, ErrFragmentConflict,
     ErrFragmentOverlap, ErrCoverage, ErrPeerQuota, ErrNoSlot, ErrCompletedPacketConflict}"

definition completes_none :: "Reassembler \<Rightarrow> Reassembler \<Rightarrow> reassembly_error + ReassemblyResult \<Rightarrow> bool" where
  "completes_none r r' res \<longleftrightarrow>
     no_new r r' \<and> (case res of Inl e \<Rightarrow> e \<in> fragment_errors | Inr rr \<Rightarrow> rr_Status rr \<noteq> StatusCompleted)"

lemma completes_trans:
  assumes "no_new r r1" and "completes r1 key r' res" and "i \<notin> completed_slots r"
    and "\<forall>rr p. res = Inr rr \<longrightarrow> rr_Packet rr = Some p \<longrightarrow> sh_index (pk_Handle p) = int i"
  shows "completes r key r' res"
proof -
  obtain rr p j where c: "res = Inr rr" "rr_Status rr = StatusCompleted" "rr_Packet rr = Some p" "pk_Key p = key" "sh_index (pk_Handle p) = int j"
    "length (ra_slots r') = length (ra_slots r1)" "completed_slots r' \<subseteq> insert j (completed_slots r1)"
    using assms(2) by (auto simp: completes_def)
  then have "j = i" using assms(4) by auto
  then show ?thesis using assms(1,3) c unfolding completes_def no_new_def by (intro exI [of _ rr] exI [of _ p] exI [of _ i]) auto
qed

lemma completes_none_trans: "no_new r r1 \<Longrightarrow> completes_none r1 r' res \<Longrightarrow> completes_none r r' res"
  by (auto simp: completes_none_def intro: no_new_trans)

lemma conflict_none:
  assumes "conflict r i err = Some (r', res)" and "err \<in> fragment_errors"
  shows "completes_none r r' res"
  using assms by (auto simp: conflict_def completes_none_def fragment_errors_def dest: clearSlot_no_new split: if_splits bind_splits)

lemma accept_fragment_done:
  assumes "reasm_ok r" and "live r i" and "record_fits (nat (rg_MaxPacketSize (ra_config r))) rec"
    and out: "accept_fragment r i rec ev evk = Some (r', res)"
  shows "completes r (sl_key (ra_slots r ! i)) r' res \<and> sl_state (ra_slots r ! i) = slotAssembling \<and>
      (\<forall>rr p. res = Inr rr \<longrightarrow> rr_Packet rr = Some p \<longrightarrow> sh_index (pk_Handle p) = int i) \<or> completes_none r r' res"
proof -
  let ?s = "ra_slots r ! i"
  let ?f = "unat (hd_FragmentIndex (rc_Header rec))" and ?start = "unat (hd_Offset (rc_Header rec))"
  let ?t = "stored ?s rec"
  have i: "i < length (ra_slots r)" using assms(2) by (simp add: live_def)
  have st: "sl_state ?t = sl_state ?s" "sl_key ?t = sl_key ?s" by (simp_all add: stored_def Let_def)
  have errs: "ErrFragmentCountMismatch \<in> fragment_errors" "ErrFragmentConflict \<in> fragment_errors"
    "ErrFragmentOverlap \<in> fragment_errors" "ErrCoverage \<in> fragment_errors" by (simp_all add: fragment_errors_def)
  have n1: "no_new r (set_slot r i ?t)" by (rule no_new_update [of _ _ i ?t]) (simp_all add: set_slot_def st)
  show ?thesis
  proof (cases "sl_count ?s = hd_FragmentCount (rc_Header rec) \<and> \<not> bit (sl_present ?s) ?f \<and>
      \<not> overlaps ?s ?start (?start + length (rc_Data rec)) \<and> sl_present ?t = mask (unat (sl_count ?s)) \<and> contiguousLength ?t \<noteq> None")
    case True
    then obtain n where n: "contiguousLength ?t = Some n" by blast
    have asm: "sl_state ?s = slotAssembling" using stored_in_assembling [OF assms(1-3)] True by blast
    have "completed_slots r' \<subseteq> insert i (completed_slots r)" and "length (ra_slots r') = length (ra_slots r)"
      using out True n unfolding accept_fragment_unfold Let_def
      by (auto simp: completed_slots_def set_slot_def nth_list_update split: if_splits)
    moreover have "i \<notin> completed_slots r" using asm by (simp add: completed_slots_def)
    ultimately show ?thesis
      using out True n asm unfolding accept_fragment_unfold Let_def completes_def by auto
  next
    case False
    have "completes_none r r' res"
      using out False conflict_none errs n1 completes_none_trans [OF n1 conflict_none]
      unfolding accept_fragment_unfold Let_def
      by (auto simp: completes_none_def split: if_splits option.splits)
    then show ?thesis ..
  qed
qed


lemma accept_new_done:
  assumes "reasm_ok r" and "int (unat (k_PeerID key)) < rg_MaxPeers (ra_config r)"
    and "record_fits (nat (rg_MaxPacketSize (ra_config r))) rec" and "\<And>j. live r j \<Longrightarrow> key_at r j \<noteq> key"
    and "(do {
       (r2, alloc) \<leftarrow> allocateSlot r now key (hd_FragmentCount (rc_Header rec));
       (case alloc of
          None \<Rightarrow>
            Some (r2, Inl (if int (unat (ra_peerCounts r2 ! unat (k_PeerID key))) \<ge> rg_PerPeerSlots (ra_config r2)
                           then ErrPeerQuota else ErrNoSlot))
        | Some (i, evicted, didEvict) \<Rightarrow> accept_fragment r2 i rec didEvict evicted)
     }) = Some (r', res)"
  shows "completes r key r' res \<or> completes_none r r' res"
proof -
  note count = record_fits_count [OF assms(3)]
  show ?thesis
  proof (rule allocateSlot_ok [OF assms(1,2) conjunct1 [OF count] conjunct2 [OF count] assms(4)])
    assume "allocateSlot r now key (hd_FragmentCount (rc_Header rec)) = Some (r, None)"
    then show ?thesis using assms(5) by (auto simp: completes_none_def fragment_errors_def)
  next
    fix r1 i evicted didEvict
    assume a: "allocateSlot r now key (hd_FragmentCount (rc_Header rec)) = Some (r1, Some (i, evicted, didEvict))"
      and al: "allocated r r1 i now key (hd_FragmentCount (rc_Header rec))"
    note n = allocated_no_new [OF al]
    have "accept_fragment r1 i rec didEvict evicted = Some (r', res)" using assms(5) by (simp add: a)
    from accept_fragment_done [OF n(5,4) _ this] assms(3) n(3,6) show ?thesis
      using completes_trans [OF n(1) _ n(2)] completes_none_trans [OF n(1)] by auto
  qed
qed

lemma Accept_done:
  assumes "reasm_ok r" and "int (unat (k_PeerID key)) < rg_MaxPeers (ra_config r)" and "Reassembler_Accept r now key rec = Some (r', res)"
  shows "completes r key r' res \<or> completes_none r r' res"
proof (cases "validateKey r key")
  case (Some err)
  then show ?thesis
    using assms by (auto simp: Reassembler_Accept_def completes_none_def validateKey_def fragment_errors_def split: if_splits)
next
  case vk: None
  show ?thesis
  proof (cases "validateRecord r key rec")
    case (Some err)
    have "err \<in> fragment_errors" using Some by (auto simp: validateRecord_def Let_def fragment_errors_def split: if_splits)
    then show ?thesis
      using assms(3) vk Some
      by (auto simp: Reassembler_Accept_def completes_none_def dropAssemblingKey_def dest: clearSlot_no_new
          split: bind_splits option.splits if_splits)
  next
    case vr: None
    note fits = validateRecord_fits [OF vr assms(1)]
    show ?thesis
    proof (cases "findKey r key")
      case None
      then have "live r j \<Longrightarrow> key_at r j \<noteq> key" for j using findKey_None_iff [OF assms(1)] by blast
      from accept_new_done [OF assms(1,2) fits this] show ?thesis
        using assms(3) vk vr None by (simp add: Reassembler_Accept_def)
    next
      case (Some i)
      then have i: "live r i" "key_at r i = key" using findKey_iff [OF assms(1)] by auto
      show ?thesis
      proof (cases "sl_state (ra_slots r ! i) = slotAssembling \<and> slot_expired r (ra_slots r ! i) now")
        case False
        then have "accept_fragment r i rec False zero_key = Some (r', res)"
          using assms(3) vk vr Some by (auto simp: Reassembler_Accept_def)
        from accept_fragment_done [OF assms(1) i(1) fits this] show ?thesis using i(2) by (auto simp: key_at_def)
      next
        case True
        obtain r1 where r1: "clearSlot r i = Some r1" "reasm_ok r1" "preserves r r1" "{j. live r1 j} = {j. live r j} - {i}"
          "\<And>j. j \<noteq> i \<Longrightarrow> ra_slots r1 ! j = ra_slots r ! j"
          by (rule clearSlot_preserves [OF assms(1)]) (use i(1) True in \<open>auto simp: live_def\<close>)
        have free: "key_at r1 j \<noteq> key" if "live r1 j" for j
        proof -
          have "live r j" "j \<noteq> i" using r1(4) that by auto
          then show ?thesis
            using r1(5) i ki.keys_distinct [OF reasm_okD(5) [OF assms(1)], of j i] by (auto simp: key_at_def)
        qed
        have cfg: "ra_config r1 = ra_config r" using r1(3) by (simp add: preserves_def)
        have same: "completed_slots r1 = completed_slots r"
          using clearSlot_no_new [OF r1(1)] r1(3) by (auto simp: no_new_def preserves_def completed_slots_def packet_view_def)
        have "completes r1 key r' res \<or> completes_none r1 r' res"
          using accept_new_done [OF r1(2) _ _ free, of "rec" now r' res] assms(2,3) fits vk vr Some True r1(1) cfg
          by (simp add: Reassembler_Accept_def)
        then show ?thesis
          using same clearSlot_no_new [OF r1(1)] completes_none_trans [OF clearSlot_no_new [OF r1(1)]]
          by (auto simp: completes_def no_new_def)
      qed
    qed
  qed
qed

text \<open>Together with the protection of completed packets this determines the completed slots.\<close>

lemma Accept_contract:
  assumes "reasm_ok r" and "int (unat (k_PeerID key)) < rg_MaxPeers (ra_config r)"
  obtains (packet) r' rr p i where "Reassembler_Accept r now key rec = Some (r', Inr rr)" and "reasm_ok r'" and "preserves r r'"
      and "rr_Status rr = StatusCompleted" and "rr_Packet rr = Some p" and "holds_packet r' p" and "pk_Key p = key"
      and "sh_index (pk_Handle p) = int i" and "i \<notin> completed_slots r" and "completed_slots r' = insert i (completed_slots r)"
  | (other) r' res where "Reassembler_Accept r now key rec = Some (r', res)" and "reasm_ok r'" and "preserves r r'"
      and "case res of Inl e \<Rightarrow> e \<in> fragment_errors | Inr rr \<Rightarrow> rr_Status rr \<noteq> StatusCompleted"
      and "completed_slots r' = completed_slots r"
proof -
  obtain r' res where a: "Reassembler_Accept r now key rec = Some (r', res)" "reasm_ok r'" "preserves r r'"
    "\<forall>rr p. res = Inr rr \<longrightarrow> rr_Packet rr = Some p \<longrightarrow> holds_packet r' p"
    using Accept_step [OF assms(1), of now key "rec"] by (auto simp: reasm_step_def)
  have keep: "completed_slots r \<subseteq> completed_slots r'"
    using a(3) by (auto simp: preserves_def completed_slots_def packet_view_def)
  from Accept_done [OF assms a(1)] show thesis
  proof
    assume "completes r key r' res"
    then obtain rr p i where c: "res = Inr rr" "rr_Status rr = StatusCompleted" "rr_Packet rr = Some p" "pk_Key p = key"
      "sh_index (pk_Handle p) = int i" "i \<notin> completed_slots r" "completed_slots r' \<subseteq> insert i (completed_slots r)"
      by (auto simp: completes_def)
    have h: "holds_packet r' p" using a(4) c by blast
    then have "i \<in> completed_slots r'" using c(5) by (simp add: holds_packet_def completed_slots_def Let_def)
    then show thesis using packet [of r' rr p i] a c h keep by auto
  next
    assume "completes_none r r' res"
    then show thesis using other [of r' res] a keep by (auto simp: completes_none_def no_new_def)
  qed
qed


lemma Release_contract:
  assumes "reasm_ok r" and "holds_packet r p"
  obtains r' where "Reassembler_Release r (pk_Handle p) = Some (r', None)" and "reasm_ok r'" and "ra_config r' = ra_config r"
    and "completed_slots r' = completed_slots r - {nat (sh_index (pk_Handle p))}"
    and "\<And>q. holds_packet r q \<Longrightarrow> nat (sh_index (pk_Handle q)) \<noteq> nat (sh_index (pk_Handle p)) \<Longrightarrow> holds_packet r' q"
proof -
  obtain r' where r': "Reassembler_Release r (pk_Handle p) = Some (r', None)" using Release_held [OF assms] by blast
  obtain i where i: "reasm_ok r'" "ra_config r' = ra_config r" "i < length (ra_slots r)" "sh_index (pk_Handle p) = int i"
    "ra_slots r' = (ra_slots r)[i := zero_slot (sh_generation (pk_Handle p)) (ra_freeHead r) (sl_buf (ra_slots r ! i))]"
    using Release_ok [OF assms(1), of "pk_Handle p"] r' by auto
  have "completed_slots r' = completed_slots r - {i}"
    using i(3,5) by (auto simp: completed_slots_def nth_list_update zero_slot_def split: if_splits)
  moreover have "holds_packet r' q" if "holds_packet r q" "nat (sh_index (pk_Handle q)) \<noteq> i" for q
    using that i(5) by (simp add: holds_packet_def Let_def)
  ultimately show thesis using that r' i(1,2,4) by simp
qed

lemma Expire_contract:
  assumes "reasm_ok r"
  obtains r' n where "Reassembler_Expire r now = Some (r', n)" and "reasm_ok r'" and "preserves r r'"
    and "completed_slots r' = completed_slots r"
proof -
  obtain r' where r': "Reassembler_Expire r now = Some (r', card {i. i < length (ra_slots r) \<and> expiring r now i})" "reasm_ok r'"
    "preserves r r'" "\<forall>i < length (ra_slots r). if expiring r now i then sl_state (ra_slots r' ! i) = slotFree
       else ra_slots r' ! i = ra_slots r ! i"
    using Expire_ok [OF assms, of now] by blast
  have len: "length (ra_slots r') = length (ra_slots r)" using r'(3) by (simp add: preserves_def)
  have "j \<in> completed_slots r' \<longleftrightarrow> j \<in> completed_slots r" for j
  proof (cases "expiring r now j")
    case True
    then show ?thesis using r'(4) len by (auto simp: completed_slots_def expiring_def)
  next
    case False
    then show ?thesis using r'(4) len by (auto simp: completed_slots_def)
  qed
  then show thesis using that r'(1-3) by blast
qed


subsection \<open>The store of completed packets\<close>

text \<open>
  What a holder of completed packets relies on: the slots in use are known, and releasing a packet it holds
  succeeds, frees the slot of that packet and leaves every other packet alone.
\<close>

abbreviation slot_of :: "Packet \<Rightarrow> nat" where
  "slot_of p \<equiv> nat (sh_index (pk_Handle p))"

fun release_each :: "('s \<Rightarrow> SlotHandle \<Rightarrow> ('s \<times> 'x option) option) \<Rightarrow> 's \<Rightarrow> Packet list \<Rightarrow> 's option" where
  "release_each release_one s [] = Some s"
| "release_each release_one s (p # ps) =
     (case release_one s (pk_Handle p) of Some (s', None) \<Rightarrow> release_each release_one s' ps | _ \<Rightarrow> None)"

locale packet_store =
  fixes store_inv :: "'s \<Rightarrow> bool"
    and holds :: "'s \<Rightarrow> Packet \<Rightarrow> bool"
    and in_use :: "'s \<Rightarrow> nat set"
    and release_one :: "'s \<Rightarrow> SlotHandle \<Rightarrow> ('s \<times> 'x option) option"
  assumes release_law: "store_inv s \<Longrightarrow> holds s p \<Longrightarrow>
    \<exists>s'. release_one s (pk_Handle p) = Some (s', None) \<and> store_inv s' \<and> in_use s' = in_use s - {slot_of p} \<and>
      (\<forall>q. holds s q \<longrightarrow> slot_of q \<noteq> slot_of p \<longrightarrow> holds s' q)"
begin

text \<open>\<open>accounts s ps\<close>: the slots in use are exactly those of the packets \<open>ps\<close>, one each.\<close>

definition accounts :: "'s \<Rightarrow> Packet list \<Rightarrow> bool" where
  "accounts s ps \<longleftrightarrow>
     store_inv s \<and> (\<forall>p\<in>set ps. holds s p) \<and> distinct (map slot_of ps) \<and> in_use s = slot_of ` set ps"

lemma accounts_perm:
  assumes "mset ps = mset qs"
  shows "accounts s ps \<longleftrightarrow> accounts s qs"
proof -
  have "mset (map slot_of ps) = mset (map slot_of qs)" using assms by simp
  then have "distinct (map slot_of ps) \<longleftrightarrow> distinct (map slot_of qs)" by (rule mset_eq_imp_distinct_iff)
  moreover have "set ps = set qs" using assms by (rule mset_eq_setD)
  ultimately show ?thesis by (simp add: accounts_def)
qed

lemma accounts_release:
  assumes "accounts s (p # ps)"
  shows "\<exists>s'. release_one s (pk_Handle p) = Some (s', None) \<and> accounts s' ps"
proof -
  have h: "store_inv s" "holds s p" "\<forall>q\<in>set ps. holds s q" "slot_of p \<notin> slot_of ` set ps" "distinct (map slot_of ps)"
    "in_use s = insert (slot_of p) (slot_of ` set ps)"
    using assms by (auto simp: accounts_def)
  obtain s' where s': "release_one s (pk_Handle p) = Some (s', None)" "store_inv s'" "in_use s' = in_use s - {slot_of p}"
    "\<forall>q. holds s q \<longrightarrow> slot_of q \<noteq> slot_of p \<longrightarrow> holds s' q"
    using release_law [OF h(1,2)] by blast
  have "holds s' q" if "q \<in> set ps" for q using s'(4) h(3,4) that by (metis image_eqI)
  then have "accounts s' ps" unfolding accounts_def using h s' by auto
  with s'(1) show ?thesis by blast
qed

lemma accounts_release_each:
  "accounts s (ps @ qs) \<Longrightarrow> \<exists>s'. release_each release_one s ps = Some s' \<and> accounts s' qs"
proof (induction ps arbitrary: s)
  case Nil
  then show ?case by simp
next
  case (Cons p ps)
  then obtain s1 where s1: "release_one s (pk_Handle p) = Some (s1, None)" "accounts s1 (ps @ qs)"
    using accounts_release [of s p "ps @ qs"] by auto
  then show ?case using Cons.IH [OF s1(2)] by auto
qed

lemma accounts_size: "accounts s ps \<Longrightarrow> card (in_use s) = length ps"
  by (auto simp: accounts_def dest!: distinct_card)

end

interpretation ps: packet_store reasm_ok holds_packet completed_slots Reassembler_Release
proof
  fix s :: Reassembler and p
  assume "reasm_ok s" "holds_packet s p"
  then obtain s' where "Reassembler_Release s (pk_Handle p) = Some (s', None)" "reasm_ok s'"
    "completed_slots s' = completed_slots s - {slot_of p}"
    "\<And>q. holds_packet s q \<Longrightarrow> slot_of q \<noteq> slot_of p \<Longrightarrow> holds_packet s' q"
    using Release_contract by metis
  then show "\<exists>s'. Reassembler_Release s (pk_Handle p) = Some (s', None) \<and> reasm_ok s' \<and>
      completed_slots s' = completed_slots s - {slot_of p} \<and>
      (\<forall>q. holds_packet s q \<longrightarrow> slot_of q \<noteq> slot_of p \<longrightarrow> holds_packet s' q)" by blast
qed

text \<open>The reassembler's own operations keep the account.\<close>

lemma preserves_accounts: "ps.accounts r qs \<Longrightarrow> reasm_ok r' \<Longrightarrow> preserves r r' \<Longrightarrow> completed_slots r' = completed_slots r \<Longrightarrow> ps.accounts r' qs"
  unfolding ps.accounts_def using preserves_holds by auto

lemma Accept_accounts:
  assumes "ps.accounts r qs" and "int (unat (k_PeerID key)) < rg_MaxPeers (ra_config r)"
  obtains (packet) r' rr p where "Reassembler_Accept r now key rec = Some (r', Inr rr)" and "ra_config r' = ra_config r"
      and "rr_Status rr = StatusCompleted" and "rr_Packet rr = Some p" and "pk_Key p = key" and "ps.accounts r' (p # qs)"
  | (other) r' res where "Reassembler_Accept r now key rec = Some (r', res)" and "ra_config r' = ra_config r"
      and "case res of Inl e \<Rightarrow> e \<in> fragment_errors | Inr rr \<Rightarrow> rr_Status rr \<noteq> StatusCompleted" and "ps.accounts r' qs"
proof -
  have ok: "reasm_ok r" using assms(1) by (simp add: ps.accounts_def)
  show thesis
  proof (rule Accept_contract [OF ok assms(2), of now "rec"])
    fix r' rr p i
    assume a: "Reassembler_Accept r now key rec = Some (r', Inr rr)" "reasm_ok r'" "preserves r r'" "rr_Status rr = StatusCompleted"
      "rr_Packet rr = Some p" "holds_packet r' p" "pk_Key p = key" "sh_index (pk_Handle p) = int i"
      "i \<notin> completed_slots r" "completed_slots r' = insert i (completed_slots r)"
    have "ps.accounts r' (p # qs)"
      using assms(1) a(2,6,8-10) preserves_holds [OF a(3)] unfolding ps.accounts_def by auto
    then show thesis using packet a by (simp add: preserves_def)
  next
    fix r' res
    assume a: "Reassembler_Accept r now key rec = Some (r', res)" "reasm_ok r'" "preserves r r'"
      "case res of Inl e \<Rightarrow> e \<in> fragment_errors | Inr rr \<Rightarrow> rr_Status rr \<noteq> StatusCompleted" "completed_slots r' = completed_slots r"
    then show thesis using other preserves_accounts [OF assms(1) a(2,3,5)] by (simp add: preserves_def)
  qed
qed

end
