(* ===== verification/ReceiverInv.thy ===== *)
theory ReceiverInv
  imports Receiver ReassemblyDone Packetizer
begin

text \<open>
  The invariant of the receiver.  The completed slots of the reassembler are at every moment exactly the
  packets waiting in the reorder queues, the counter \<^verbatim>\<open>reorderHeld\<close> counts them and stays within the budget.
  It follows that no operation panics, that no slot leaks, and that the receiver's internal error paths are
  never taken.
\<close>

subsection \<open>Delivery\<close>

text \<open>What the sink may see of a packet: the packet itself, if it parses exactly and its source belongs to the peer.\<close>

definition admissible :: "ReceiverConfig \<Rightarrow> bytes \<Rightarrow> bytes option" where
  "admissible config packet =
     (case ParseExact packet of
        Inl _ \<Rightarrow> None
      | Inr parsed \<Rightarrow>
          if ValidateSource (rf_AllowedIPs config) (rf_PeerID config) (ip_Source parsed) then Some (ip_Data parsed) else None)"

definition offered_data :: "ReceiverConfig \<Rightarrow> Packet list \<Rightarrow> bytes list" where
  "offered_data config packets = List.map_filter (\<lambda>p. admissible config (pk_Data p)) packets"

lemma judge_admissible:
  "judge r d = Inr x \<longleftrightarrow> admissible (rv_config r) d = Some x"
  "(\<exists>e. judge r d = Inl e) \<longleftrightarrow> admissible (rv_config r) d = None"
  by (auto simp: judge_def admissible_def Let_def split: sum.splits innerip_error.splits)

definition offer :: "('w, 'e) inner_sink option \<Rightarrow> 'w \<Rightarrow> bytes list \<Rightarrow> 'w \<times> 'e option" where
  "offer sink w datas = (case sink of None \<Rightarrow> (w, None) | Some f \<Rightarrow> emit_all f w datas)"

text \<open>The parts of the receiver that delivery does not touch.\<close>

definition same_queues :: "Receiver \<Rightarrow> Receiver \<Rightarrow> bool" where
  "same_queues r r' \<longleftrightarrow>
     rv_config r' = rv_config r \<and> rv_reorders r' = rv_reorders r \<and> rv_delivered r' = rv_delivered r \<and>
     rv_reorderHeld r' = rv_reorderHeld r \<and> rv_reorderBudget r' = rv_reorderBudget r \<and>
     rv_reorderDeadline r' = rv_reorderDeadline r \<and> rv_unknownSession r' = rv_unknownSession r \<and>
     ra_config (rv_reassembly_state r') = ra_config (rv_reassembly_state r)"

lemma same_queues_refl [simp]: "same_queues r r"
  by (simp add: same_queues_def)

lemma release_accounts:
  assumes "ps.accounts (rv_reassembly_state r) (p # qs)"
  shows "\<exists>s. release r p = Some (r\<lparr>rv_reassembly_state := s\<rparr>, None) \<and> ps.accounts s qs \<and> ra_config s = ra_config (rv_reassembly_state r)"
proof -
  obtain s where s: "Reassembler_Release (rv_reassembly_state r) (pk_Handle p) = Some (s, None)" "ps.accounts s qs"
    using ps.accounts_release [OF assms] by blast
  have "reasm_ok (rv_reassembly_state r)" using assms by (simp add: ps.accounts_def)
  then have "ra_config s = ra_config (rv_reassembly_state r)" using Release_ok [of "rv_reassembly_state r" "pk_Handle p"] s(1) by auto
  with s show ?thesis by (intro exI [of _ s]) (simp add: release_def)
qed

lemma deliver_loop_ok:
  assumes "ps.accounts (rv_reassembly_state r) (out @ qs)"
  shows "\<exists>r' w' err. deliver_loop r sink w firstErr out = Some (r', w', err) \<and>
    ps.accounts (rv_reassembly_state r') qs \<and> same_queues r r' \<and>
    (if firstErr \<noteq> None then w' = w \<and> err = firstErr
     else (w', err) = (fst (offer sink w (offered_data (rv_config r) out)), map_option rv_sink (snd (offer sink w (offered_data (rv_config r) out)))))"
  using assms
proof (induction out arbitrary: r w firstErr)
  case Nil
  then show ?case by (auto simp: offered_data_def offer_def map_filter_simps split: option.splits)
next
  case (Cons p out)
  define r1 where "r1 = (case judge r (pk_Data p) of Inl drops \<Rightarrow> r\<lparr>rv_drops := drops\<rparr> | Inr data \<Rightarrow> r)"
  define step where "step = (case judge r (pk_Data p) of Inl drops \<Rightarrow> (w, firstErr)
     | Inr data \<Rightarrow> if firstErr = None \<and> sink \<noteq> None
         then (case the sink w data of (w', err) \<Rightarrow> (w', map_option rv_sink err)) else (w, firstErr))"
  obtain w1 err1 where st: "step = (w1, err1)" by (cases step)
  have same: "same_queues r r1" "rv_config r1 = rv_config r" "rv_reassembly_state r1 = rv_reassembly_state r"
    by (simp_all add: r1_def same_queues_def split: sum.splits)
  obtain s where s: "release r1 p = Some (r1\<lparr>rv_reassembly_state := s\<rparr>, None)" "ps.accounts s (out @ qs)"
    "ra_config s = ra_config (rv_reassembly_state r)"
    using release_accounts [of r1 p "out @ qs"] Cons.prems same(3) by auto
  let ?r2 = "r1\<lparr>rv_reassembly_state := s\<rparr>"
  have e: "deliver_loop r sink w firstErr (p # out) = deliver_loop ?r2 sink w1 err1 out"
    using st s(1) by (auto simp: step_def r1_def Let_def split: sum.splits prod.splits if_splits)
  obtain r' w' err where IH: "deliver_loop ?r2 sink w1 err1 out = Some (r', w', err)" "ps.accounts (rv_reassembly_state r') qs"
    "same_queues ?r2 r'"
    "if err1 \<noteq> None then w' = w1 \<and> err = err1
     else (w', err) = (fst (offer sink w1 (offered_data (rv_config r) out)), map_option rv_sink (snd (offer sink w1 (offered_data (rv_config r) out))))"
    using Cons.IH [of ?r2 w1 err1] s(2) same(2) by auto
  have q: "same_queues r r'" using IH(3) same s(3) by (simp add: same_queues_def)
  have "if firstErr \<noteq> None then w' = w \<and> err = firstErr
     else (w', err) = (fst (offer sink w (offered_data (rv_config r) (p # out))),
       map_option rv_sink (snd (offer sink w (offered_data (rv_config r) (p # out)))))"
  proof (cases "judge r (pk_Data p)")
    case (Inl drops)
    then have "admissible (rv_config r) (pk_Data p) = None" using judge_admissible(2) by blast
    then have "offered_data (rv_config r) (p # out) = offered_data (rv_config r) out" by (simp add: offered_data_def map_filter_simps)
    moreover have "w1 = w" "err1 = firstErr" using st Inl by (simp_all add: step_def)
    ultimately show ?thesis using IH(4) by simp
  next
    case (Inr data)
    then have "admissible (rv_config r) (pk_Data p) = Some data" using judge_admissible(1) by blast
    then have o: "offered_data (rv_config r) (p # out) = data # offered_data (rv_config r) out" by (simp add: offered_data_def map_filter_simps)
    show ?thesis
      using IH(4) st Inr o
      by (cases sink; cases firstErr) (auto simp: step_def offer_def split: prod.splits option.splits)
  qed
  with e IH(1,2) q show ?case by auto
qed

lemma deliver_packets_ok:
  assumes "ps.accounts (rv_reassembly_state r) (out @ qs)"
  obtains r' where "deliver_packets r sink w out =
      Some (r', fst (offer sink w (offered_data (rv_config r) out)), map_option rv_sink (snd (offer sink w (offered_data (rv_config r) out))))"
    and "ps.accounts (rv_reassembly_state r') qs" and "same_queues r r'"
  using deliver_loop_ok [OF assms, of sink w None] by (auto simp: deliver_packets_def)


subsection \<open>The queues\<close>

definition waiting_packets :: "Reorderer list \<Rightarrow> Packet list" where
  "waiting_packets lanes = concat (map held lanes)"

definition lane_ok :: "ReceiverConfig \<Rightarrow> nat \<Rightarrow> Reorderer \<Rightarrow> bool" where
  "lane_ok config l x \<longleftrightarrow>
     re_config x = lane_config config l \<and> (if rf_ReorderEnabled config then reorder_ok x else re_entries x = [] \<and> re_count x = 0)"

definition queues_ok :: "Receiver \<Rightarrow> bool" where
  "queues_ok r \<longleftrightarrow>
     length (rv_reorders r) = 256 \<and> (\<forall>l < 256. lane_ok (rv_config r) l (rv_reorders r ! l)) \<and>
     rv_reorderHeld r = int (length (waiting_packets (rv_reorders r))) \<and> rf_DataSessionID (rv_config r) \<noteq> 0 \<and>
     rg_MaxPeers (ra_config (rv_reassembly_state r)) = 1 \<and>
     (if rf_ReorderEnabled (rv_config r)
      then int (rv_delivered r) = rf_ReorderCapacity (rv_config r) + 1 \<and> 0 < rv_reorderBudget r
      else rv_delivered r = 1)"

text \<open>\<open>receiver_inv r qs\<close>: besides the queued packets the receiver is working on the packets \<open>qs\<close>.\<close>

definition receiver_inv :: "Receiver \<Rightarrow> Packet list \<Rightarrow> bool" where
  "receiver_inv r qs \<longleftrightarrow> queues_ok r \<and> ps.accounts (rv_reassembly_state r) (waiting_packets (rv_reorders r) @ qs)"

definition within_budget :: "Receiver \<Rightarrow> bool" where
  "within_budget r \<longleftrightarrow> (rf_ReorderEnabled (rv_config r) \<longrightarrow> rv_reorderHeld r \<le> rv_reorderBudget r)"

definition receiver_ok :: "Receiver \<Rightarrow> bool" where
  "receiver_ok r \<longleftrightarrow> receiver_inv r [] \<and> within_budget r"

lemma waiting_update:
  assumes "l < length lanes" and "mset out + mset (held x') = mset (held (lanes ! l)) + mset gained"
  shows "mset (waiting_packets (lanes[l := x'])) + mset out = mset (waiting_packets lanes) + mset gained"
proof -
  have a: "lanes[l := x'] = take l lanes @ x' # drop (Suc l) lanes" using assms(1) by (rule upd_conv_take_nth_drop)
  have b: "lanes = take l lanes @ lanes ! l # drop (Suc l) lanes" using assms(1) by (rule id_take_nth_drop)
  have "mset (waiting_packets lanes) =
      mset (waiting_packets (take l lanes)) + mset (held (lanes ! l)) + mset (waiting_packets (drop (Suc l) lanes))"
    by (subst b) (simp add: waiting_packets_def)
  moreover have "mset (waiting_packets (lanes[l := x'])) =
      mset (waiting_packets (take l lanes)) + mset (held x') + mset (waiting_packets (drop (Suc l) lanes))"
    by (subst a) (simp add: waiting_packets_def)
  ultimately show ?thesis using assms(2) by (simp add: ac_simps)
qed

lemma held_disabled: "re_entries x = [] \<Longrightarrow> held x = []"
  by (simp add: held_def)

text \<open>An operation of lane \<open>l\<close> that takes in \<open>gained\<close> of the packets in work and hands out \<open>out\<close>.\<close>

lemma lane_operation:
  assumes "receiver_inv r (gained @ qs)" and "l < 256" and "lane_ok (rv_config r) l x'"
    and "mset out + mset (held x') = mset (held (rv_reorders r ! l)) + mset gained"
    and "held' = rv_reorderHeld r + int (length gained) - int (length out)"
  shows "receiver_inv ((set_lane r l x')\<lparr>rv_reorderHeld := held'\<rparr>) (out @ qs)"
proof -
  have len: "length (rv_reorders r) = 256" using assms(1) by (simp add: receiver_inv_def queues_ok_def)
  note w = waiting_update [of l "rv_reorders r", OF _ assms(4)]
  have m: "mset (waiting_packets ((rv_reorders r)[l := x']) @ (out @ qs)) = mset (waiting_packets (rv_reorders r) @ gained @ qs)"
    using w len assms(2) by (simp add: add.assoc [symmetric])
  have "size (mset (waiting_packets ((rv_reorders r)[l := x'])) + mset out) = size (mset (waiting_packets (rv_reorders r)) + mset gained)"
    using w len assms(2) by simp
  then have "held' = int (length (waiting_packets ((rv_reorders r)[l := x'])))"
    using assms(1,5) by (simp add: receiver_inv_def queues_ok_def)
  moreover have "ps.accounts (rv_reassembly_state r) (waiting_packets ((rv_reorders r)[l := x']) @ (out @ qs))"
    using assms(1) ps.accounts_perm [OF m] by (simp add: receiver_inv_def)
  ultimately show ?thesis
    using assms(1-3) len by (simp add: receiver_inv_def queues_ok_def set_lane_def nth_list_update)
qed

lemma same_queues_inv:
  "queues_ok r \<Longrightarrow> same_queues r r' \<Longrightarrow> ps.accounts (rv_reassembly_state r') (waiting_packets (rv_reorders r) @ qs) \<Longrightarrow> receiver_inv r' qs"
  by (simp add: receiver_inv_def queues_ok_def same_queues_def)

lemma inv_cong:
  "receiver_inv (r\<lparr>rv_reorderDeadline := d\<rparr>) qs = receiver_inv r qs"
  "receiver_inv (r\<lparr>rv_unknownSession := u\<rparr>) qs = receiver_inv r qs"
  by (simp_all add: receiver_inv_def queues_ok_def)

lemma refresh_fields: "\<exists>d. refreshReorderDeadline r b now = r\<lparr>rv_reorderDeadline := d\<rparr>"
proof -
  have "r = r\<lparr>rv_reorderDeadline := rv_reorderDeadline r\<rparr>" by simp
  then show ?thesis unfolding refreshReorderDeadline_def by metis
qed

lemma consider_fields: "\<exists>d. considerReorderDeadline r c = r\<lparr>rv_reorderDeadline := d\<rparr>"
proof -
  have "r = r\<lparr>rv_reorderDeadline := rv_reorderDeadline r\<rparr>" by simp
  then show ?thesis unfolding considerReorderDeadline_def by metis
qed

lemma refresh_inv [simp]:
  "receiver_inv (refreshReorderDeadline r b now) qs = receiver_inv r qs"
  "rv_config (refreshReorderDeadline r b now) = rv_config r" "rv_reorderHeld (refreshReorderDeadline r b now) = rv_reorderHeld r"
  "rv_reorderBudget (refreshReorderDeadline r b now) = rv_reorderBudget r" "rv_reorders (refreshReorderDeadline r b now) = rv_reorders r"
  "rv_reassembly_state (refreshReorderDeadline r b now) = rv_reassembly_state r"
  using refresh_fields [of r b now] by (auto simp: inv_cong)

lemma consider_inv [simp]:
  "receiver_inv (considerReorderDeadline r c) qs = receiver_inv r qs"
  "rv_config (considerReorderDeadline r c) = rv_config r" "rv_reorderHeld (considerReorderDeadline r c) = rv_reorderHeld r"
  "rv_reorderBudget (considerReorderDeadline r c) = rv_reorderBudget r" "rv_reorders (considerReorderDeadline r c) = rv_reorders r"
  "rv_reassembly_state (considerReorderDeadline r c) = rv_reassembly_state r"
  using consider_fields [of r c] by (auto simp: inv_cong)

text \<open>Delivering packets in work.\<close>

definition unchanged :: "Receiver \<Rightarrow> Receiver \<Rightarrow> bool" where
  "unchanged r r' \<longleftrightarrow> rv_config r' = rv_config r \<and> rv_reorderBudget r' = rv_reorderBudget r"

lemma deliver_inv:
  assumes "receiver_inv r (out @ qs)"
  obtains r' where "deliver_packets r sink w out =
      Some (r', fst (offer sink w (offered_data (rv_config r) out)), map_option rv_sink (snd (offer sink w (offered_data (rv_config r) out))))"
    and "receiver_inv r' qs" and "same_queues r r'"
proof -
  have "mset (waiting_packets (rv_reorders r) @ out @ qs) = mset (out @ waiting_packets (rv_reorders r) @ qs)" by simp
  then have "ps.accounts (rv_reassembly_state r) (out @ waiting_packets (rv_reorders r) @ qs)"
    using assms ps.accounts_perm unfolding receiver_inv_def by blast
  then obtain r' where r': "deliver_packets r sink w out =
      Some (r', fst (offer sink w (offered_data (rv_config r) out)), map_option rv_sink (snd (offer sink w (offered_data (rv_config r) out))))"
    "ps.accounts (rv_reassembly_state r') (waiting_packets (rv_reorders r) @ qs)" "same_queues r r'"
    by (rule deliver_packets_ok)
  have "receiver_inv r' qs" by (rule same_queues_inv [OF _ r'(3,2)]) (use assms in \<open>simp add: receiver_inv_def\<close>)
  with r' show thesis using that by blast
qed


subsection \<open>What a call hands to the sink\<close>

text \<open>
  \<open>delivers config sink w w' err\<close>: the sink was given, in order, some admissible packets; if it refused one, that
  error is returned, and otherwise only the rejection of a carrier.
\<close>

definition delivers :: "ReceiverConfig \<Rightarrow> ('w, 'e) inner_sink option \<Rightarrow> 'w \<Rightarrow> 'w \<Rightarrow> 'e receiver_error option \<Rightarrow> bool" where
  "delivers config sink w w' err \<longleftrightarrow>
     (\<exists>datas. (\<forall>d\<in>set datas. \<exists>x. admissible config x = Some d) \<and> w' = fst (offer sink w datas) \<and>
        (case snd (offer sink w datas) of
           Some e \<Rightarrow> err = Some (rv_sink e)
         | None \<Rightarrow> err = None \<or> (\<exists>x. err = Some x \<and> IsCarrierDrop (\<lambda>_. False) x)))"

lemma delivers_nothing: "err = None \<or> (\<exists>x. err = Some x \<and> IsCarrierDrop (\<lambda>_. False) x) \<Longrightarrow> delivers config sink w w err"
  unfolding delivers_def by (rule exI [of _ "[]"]) (auto simp: offer_def split: option.splits)

lemma delivers_offer:
  "delivers config sink w (fst (offer sink w (offered_data config out))) (map_option rv_sink (snd (offer sink w (offered_data config out))))"
  unfolding delivers_def
  by (rule exI [of _ "offered_data config out"])
    (auto simp: offered_data_def map_filter_def split: option.splits)

lemma offer_append:
  "offer sink w (xs @ ys) = (case offer sink w xs of (w', Some e) \<Rightarrow> (w', Some e) | (w', None) \<Rightarrow> offer sink w' ys)"
  by (auto simp: offer_def emit_all_append split: option.splits prod.splits)

lemma delivers_trans:
  assumes "delivers config sink w w1 None" and "delivers config sink w1 w2 err"
  shows "delivers config sink w w2 err"
proof -
  obtain xs where xs: "\<forall>d\<in>set xs. \<exists>x. admissible config x = Some d" "offer sink w xs = (w1, None)"
    using assms(1) by (auto simp: delivers_def split: option.splits) (metis prod.collapse)
  obtain ys where ys: "\<forall>d\<in>set ys. \<exists>x. admissible config x = Some d" "w2 = fst (offer sink w1 ys)"
    "case snd (offer sink w1 ys) of Some e \<Rightarrow> err = Some (rv_sink e) | None \<Rightarrow> err = None \<or> (\<exists>x. err = Some x \<and> IsCarrierDrop (\<lambda>_. False) x)"
    using assms(2) by (auto simp: delivers_def)
  have "offer sink w (xs @ ys) = offer sink w1 ys" using xs(2) by (simp add: offer_append)
  then show ?thesis using xs(1) ys unfolding delivers_def by (intro exI [of _ "xs @ ys"]) auto
qed

subsection \<open>Lane operations\<close>

lemma lane_entries:
  assumes "receiver_inv r qs" and "l < 256"
  shows "lane_ok (rv_config r) l (rv_reorders r ! l)"
    and "rf_ReorderEnabled (rv_config r) \<Longrightarrow> reorder_ok (rv_reorders r ! l) \<and> length (re_entries (rv_reorders r ! l)) < rv_delivered r"
  using assms by (auto simp: receiver_inv_def queues_ok_def lane_ok_def reorder_ok_def lane_config_def)

definition of_receiver :: "Receiver \<Rightarrow> Packet \<Rightarrow> bool" where
  "of_receiver r p \<longleftrightarrow> k_PeerID (pk_Key p) = 0 \<and> k_DataSessionID (pk_Key p) = rf_DataSessionID (rv_config r)"

abbreviation lane_index_of :: "Packet \<Rightarrow> nat" where
  "lane_index_of p \<equiv> unat (k_LaneID (pk_Key p))"

lemma lane_index_256: "lane_index_of p < 256"
  using unsigned_less [where 'a = nat, of "k_LaneID (pk_Key p)"] by simp

lemma packet_matches:
  "receiver_inv r qs \<Longrightarrow> of_receiver r p \<Longrightarrow> matchesLane (rv_reorders r ! lane_index_of p) p"
  using lane_entries(1) [OF _ lane_index_256, of r qs p]
  by (auto simp: lane_ok_def matchesLane_def of_receiver_def lane_config_def Let_def)

lemma step_lane_ok: "lane_ok config l x \<Longrightarrow> rf_ReorderEnabled config \<Longrightarrow> reorder_step x gained x' out \<Longrightarrow> lane_ok config l x'"
  by (simp add: lane_ok_def reorder_step_def)

lemma would_queue:
  assumes "reorder_ok x"
  shows "Reorderer_WouldQueue x (seq_of p) \<longleftrightarrow> accept_status x p = StatusQueued"
proof -
  have le: "length (held x) \<le> length (re_entries x)" by (simp add: held_def)
  have "re_count x = int (length (held x))" "ro_Enabled (re_config x)" using assms by (simp_all add: reorder_ok_def counted_def)
  then show ?thesis using le by (auto simp: Reorderer_WouldQueue_def accept_status_def contains_iff)
qed

lemma Accept_dropped:
  assumes "reorder_ok x" and "length (re_entries x) < outLen" and "matchesLane x p" and "accept_status x p = StatusLate \<or> accept_status x p = ro_StatusDuplicate"
  shows "Reorderer_Accept x now p outLen = Some (x, Inr (accept_status x p, []))"
  using assms by (auto simp: Reorderer_Accept_def accept_status_def contains_iff Let_def reorder_ok_def split: if_splits)


text \<open>The result of handing a completed packet to its lane.\<close>

definition step_ok :: "Receiver \<Rightarrow> ('w, 'e) inner_sink option \<Rightarrow> 'w \<Rightarrow> (Receiver \<times> 'w \<times> 'e receiver_error option) option \<Rightarrow> bool" where
  "step_ok r sink w out \<longleftrightarrow>
     (\<exists>r' w' err. out = Some (r', w', err) \<and> receiver_ok r' \<and> unchanged r r' \<and> delivers (rv_config r) sink w w' err)"

lemma deliver_step:
  assumes "receiver_inv r out" and "within_budget r" and "unchanged r0 r"
  shows "step_ok r0 sink w (deliver_packets r sink w out)"
proof -
  have "receiver_inv r (out @ [])" using assms(1) by simp
  then obtain r' where r': "deliver_packets r sink w out =
      Some (r', fst (offer sink w (offered_data (rv_config r) out)), map_option rv_sink (snd (offer sink w (offered_data (rv_config r) out))))"
    "receiver_inv r' []" "same_queues r r'" by (rule deliver_inv)
  have "receiver_ok r'" "unchanged r0 r'"
    using r'(2,3) assms(2,3) by (simp_all add: receiver_ok_def within_budget_def same_queues_def unchanged_def)
  moreover have "rv_config r = rv_config r0" using assms(3) by (simp add: unchanged_def)
  ultimately show ?thesis using r'(1) delivers_offer [of "rv_config r0" sink w out] by (auto simp: step_ok_def)
qed

lemma release_step:
  assumes "receiver_inv r [p]" and "within_budget r" and "unchanged r0 r"
  shows "\<exists>r'. release r p = Some (r', None) \<and> receiver_ok r' \<and> unchanged r0 r'"
proof -
  have m: "mset (waiting_packets (rv_reorders r) @ [p]) = mset (p # waiting_packets (rv_reorders r))" by simp
  have "ps.accounts (rv_reassembly_state r) (p # waiting_packets (rv_reorders r))"
    using assms(1) ps.accounts_perm [OF m] unfolding receiver_inv_def by blast
  then obtain s where s: "release r p = Some (r\<lparr>rv_reassembly_state := s\<rparr>, None)" "ps.accounts s (waiting_packets (rv_reorders r))"
    "ra_config s = ra_config (rv_reassembly_state r)" using release_accounts by blast
  have "same_queues r (r\<lparr>rv_reassembly_state := s\<rparr>)" using s(3) by (simp add: same_queues_def)
  then have "receiver_inv (r\<lparr>rv_reassembly_state := s\<rparr>) []"
    using assms(1) s(2) by (intro same_queues_inv [of r]) (simp_all add: receiver_inv_def)
  then show ?thesis using s(1) assms(2,3) by (auto simp: receiver_ok_def within_budget_def unchanged_def)
qed

lemma accept_disabled:
  assumes "receiver_inv r [p]" and "\<not> rf_ReorderEnabled (rv_config r)"
  shows "step_ok r sink w (accept_ordered r now p before sink w)"
proof -
  let ?l = "lane_index_of p"
  have l: "lane_ok (rv_config r) ?l (rv_reorders r ! ?l)" using lane_entries(1) [OF assms(1) lane_index_256] .
  then have a: "Reorderer_Accept (rv_reorders r ! ?l) now p (rv_delivered r) = Some (rv_reorders r ! ?l, Inr (StatusDelivered, [p]))"
    using assms by (simp add: Reorderer_Accept_def matchesLane_def lane_ok_def lane_config_def receiver_inv_def queues_ok_def)
  have u: "set_lane r ?l (rv_reorders r ! ?l) = r" by (simp add: set_lane_def)
  have zero: "rv_reorderHeld r = 0 \<Longrightarrow> receiver_inv (r\<lparr>rv_reorderHeld := 0\<rparr>) [p]"
    using assms(1) by (auto simp: receiver_inv_def queues_ok_def)
  have e: "accept_ordered r now p before sink w =
      deliver_packets (if rv_reorderHeld r = 0 then refreshReorderDeadline (r\<lparr>rv_reorderHeld := 0\<rparr>) False now
        else if before = 0 then refreshReorderDeadline r False now else r) sink w [p]"
    by (simp add: accept_ordered_def a Let_def u)
  show ?thesis unfolding e
    by (rule deliver_step) (use assms zero in \<open>auto simp: unchanged_def within_budget_def\<close>)
qed

lemma accept_enabled:
  assumes "receiver_inv r [p]" and en: "rf_ReorderEnabled (rv_config r)" and "of_receiver r p"
    and bud: "rv_reorderHeld r \<le> rv_reorderBudget r"
    and room: "Reorderer_WouldQueue (rv_reorders r ! lane_index_of p) (seq_of p) \<Longrightarrow> rv_reorderHeld r < rv_reorderBudget r"
  shows "step_ok r sink w (accept_ordered r now p before sink w)"
proof -
  let ?l = "lane_index_of p" let ?x = "rv_reorders r ! lane_index_of p"
  note lx = lane_entries [OF assms(1) lane_index_256]
  have x: "reorder_ok ?x" "length (re_entries ?x) < rv_delivered r" using lx(2) [OF en] by auto
  have ml: "matchesLane ?x p" by (rule packet_matches [OF assms(1,3)])
  let ?st = "accept_status ?x p"
  obtain x' out where a: "Reorderer_Accept ?x now p (rv_delivered r) = Some (x', Inr (?st, out))"
    "reorder_step ?x (taken_in ?st p) x' out" "?st = StatusQueued \<longrightarrow> out = []"
    using Accept_ok [OF x ml, of now] by blast
  have lo: "lane_ok (rv_config r) ?l x'" by (rule step_lane_ok [OF lx(1) en a(2)])
  show ?thesis
  proof (cases "?st = StatusLate \<or> ?st = ro_StatusDuplicate")
    case True
    then have same: "x' = ?x" "out = []" using Accept_dropped [OF x ml True, of now] a(1) by auto
    have u: "set_lane r ?l ?x = r" by (simp add: set_lane_def)
    obtain r' where "release r p = Some (r', None)" "receiver_ok r'" "unchanged r r'"
      using release_step [of r p r] assms(1) bud by (auto simp: within_budget_def unchanged_def)
    then show ?thesis
      using True a(1) same u by (auto simp: accept_ordered_def Let_def step_ok_def intro: delivers_nothing)
  next
    case False
    then have t: "taken_in ?st p = [p]" by (simp add: taken_in_def)
    have m: "mset out + mset (held x') = mset (held ?x) + mset [p]" using a(2) t by (simp add: reorder_step_def)
    let ?h = "rv_reorderHeld r + 1 - int (length out)"
    define r2 where "r2 = (set_lane r ?l x')\<lparr>rv_reorderHeld := ?h\<rparr>"
    have inv: "receiver_inv r2 out"
      using lane_operation [of r "[p]" "[]" ?l x' out ?h] assms(1) lane_index_256 [of p] lo m by (simp add: r2_def)
    have un: "unchanged r r2" by (simp add: r2_def set_lane_def unchanged_def)
    have wb: "within_budget r2"
    proof (cases "out = []")
      case True
      have "int (length (re_entries x')) = int (length (re_entries ?x))" using a(2) x(1) by (auto simp: reorder_step_def reorder_ok_def)
      moreover have "length (held x') \<le> length (re_entries x')" by (simp add: held_def)
      moreover have "size (mset (held x')) = size (mset (held ?x) + mset [p])" using m True by simp
      ultimately have "length (held ?x) \<noteq> length (re_entries ?x)" by simp
      moreover have "seq_of p \<noteq> re_next ?x" using a(1) True x ml by (auto simp: Reorderer_Accept_def reorder_ok_def Let_def split: bind_splits)
      ultimately have "?st = StatusQueued" using False by (auto simp: accept_status_def split: if_splits)
      then have "rv_reorderHeld r < rv_reorderBudget r" using room would_queue [OF x(1)] by blast
      then show ?thesis using True by (simp add: within_budget_def r2_def set_lane_def)
    next
      case False
      then have "1 \<le> length out" by (simp add: Suc_le_eq)
      then show ?thesis using bud by (simp add: within_budget_def r2_def set_lane_def)
    qed
    define r1 where "r1 = (if ?st = StatusQueued then considerReorderDeadline r2 (Reorderer_GapStartedAt x' + rf_ReorderMaxDelay (rv_config r)) else r2)"
    have "r2\<lparr>rv_reorderDeadline := rv_reorderDeadline r2\<rparr> = r2" by simp
    then obtain d1 where d1: "r1 = r2\<lparr>rv_reorderDeadline := d1\<rparr>" using consider_fields unfolding r1_def by metis
    define r3 where "r3 = (if rv_reorderHeld r1 = 0 then refreshReorderDeadline r1 False now
      else if before = 0 then refreshReorderDeadline r1 False now
      else if ?st = StatusFlushed \<or> (?st = StatusDelivered \<and> length out > 1) then refreshReorderDeadline r1 True now else r1)"
    have e: "accept_ordered r now p before sink w = deliver_packets r3 sink w out"
      using a(1,3) False by (simp add: accept_ordered_def Let_def r3_def r1_def r2_def set_lane_def algebra_simps)
    have "\<exists>d. refreshReorderDeadline r1 b now = r2\<lparr>rv_reorderDeadline := d\<rparr>" for b using refresh_fields [of r1 b now] d1 by auto
    then obtain d where d: "r3 = r2\<lparr>rv_reorderDeadline := d\<rparr>" using d1 unfolding r3_def by metis
    note r3 = e d
    show ?thesis unfolding r3(1)
      by (rule deliver_step) (use inv un wb r3(2) in \<open>simp_all add: inv_cong within_budget_def unchanged_def\<close>)
  qed
qed


text \<open>The scan for the oldest lane finds a lane that has packets, if any has.\<close>

lemma older_scan:
  "case foldl (older_lane lanes) None [0..<m] of
     None \<Rightarrow> \<forall>i < m. Reorderer_Pending (lanes ! i) = 0
   | Some b \<Rightarrow> b < m \<and> Reorderer_Pending (lanes ! b) \<noteq> 0 \<and>
       (\<forall>i < m. Reorderer_Pending (lanes ! i) \<noteq> 0 \<longrightarrow> Reorderer_GapStartedAt (lanes ! b) \<le> Reorderer_GapStartedAt (lanes ! i))"
proof (induction m)
  case 0
  then show ?case by simp
next
  case (Suc m)
  then show ?case
    by (auto simp: older_lane_def less_Suc_eq not_less split: option.splits intro: order_trans less_imp_le)
qed

lemma oldest_lane:
  assumes "receiver_inv r qs" and "rf_ReorderEnabled (rv_config r)" and "0 < rv_reorderHeld r"
  obtains l where "oldestReorderLane r = Some l" and "l < 256" and "held (rv_reorders r ! l) \<noteq> []"
proof -
  have len: "length (rv_reorders r) = 256" using assms(1) by (simp add: receiver_inv_def queues_ok_def)
  have pend: "Reorderer_Pending (rv_reorders r ! i) = int (length (held (rv_reorders r ! i)))" if "i < 256" for i
    using lane_entries(2) [OF assms(1) that assms(2)] by (simp add: Reorderer_Pending_def reorder_ok_def counted_def)
  have "waiting_packets (rv_reorders r) \<noteq> []" using assms(1,3) by (auto simp: receiver_inv_def queues_ok_def)
  then obtain i where "i < 256" "held (rv_reorders r ! i) \<noteq> []"
    using len by (auto simp: waiting_packets_def in_set_conv_nth)
  then have "Reorderer_Pending (rv_reorders r ! i) \<noteq> 0" "i < 256" using pend by simp_all
  then show thesis
    using older_scan [where lanes = "rv_reorders r" and m = 256] that pend len
    by (auto simp: oldestReorderLane_def split: option.splits)
qed

lemma flush_oldest_step:
  assumes "receiver_inv r qs" and en: "rf_ReorderEnabled (rv_config r)" and "0 < rv_reorderHeld r" and bud: "rv_reorderHeld r \<le> rv_reorderBudget r"
  obtains r' w' err l where "flushOldestReorder r now sink w = Some (r', w', err)" and "oldestReorderLane r = Some l"
    and "receiver_inv r' qs" and "rv_reorderHeld r' < rv_reorderBudget r'" and "unchanged r r'"
    and "delivers (rv_config r) sink w w' err" and "err = None \<or> (\<exists>e. err = Some (rv_sink e))"
    and "\<And>i. i \<noteq> l \<Longrightarrow> rv_reorders r' ! i = rv_reorders r ! i"
proof -
  obtain l where l: "oldestReorderLane r = Some l" "l < 256" "held (rv_reorders r ! l) \<noteq> []"
    by (rule oldest_lane [OF assms(1-3)])
  note x = lane_entries [OF assms(1) l(2)]
  obtain x' out where f: "Reorderer_Flush (rv_reorders r ! l) (rv_delivered r) = Some (x', Inr out)"
    "reorder_step (rv_reorders r ! l) [] x' out" "held x' = []"
    using Flush_ok [of "rv_reorders r ! l" "rv_delivered r"] x(2) [OF en] by auto
  let ?h = "rv_reorderHeld r - int (length out)"
  let ?r1 = "(set_lane r l x')\<lparr>rv_reorderHeld := ?h\<rparr>"
  have m: "mset out + mset (held x') = mset (held (rv_reorders r ! l)) + mset []" using f(2) by (simp add: reorder_step_def)
  then have "out \<noteq> []" using f(3) l(3) by auto
  then have out: "1 \<le> length out" by (simp add: Suc_le_eq)
  have "receiver_inv ?r1 (out @ qs)"
    by (rule lane_operation [where gained = "[]"]) (use assms(1) l(2) step_lane_ok [OF x(1) en f(2)] m in simp_all)
  then have inv: "receiver_inv (refreshReorderDeadline ?r1 True now) (out @ qs)" by simp
  obtain r' where r': "deliver_packets (refreshReorderDeadline ?r1 True now) sink w out =
      Some (r', fst (offer sink w (offered_data (rv_config r) out)), map_option rv_sink (snd (offer sink w (offered_data (rv_config r) out))))"
    "receiver_inv r' qs" "same_queues (refreshReorderDeadline ?r1 True now) r'"
    using deliver_inv [OF inv, of sink w] by (auto simp: set_lane_def)
  have "flushOldestReorder r now sink w =
      Some (r', fst (offer sink w (offered_data (rv_config r) out)), map_option rv_sink (snd (offer sink w (offered_data (rv_config r) out))))"
    using l(1) f(1) r'(1) by (simp add: flushOldestReorder_def)
  moreover have "rv_reorderHeld r' < rv_reorderBudget r'" "unchanged r r'"
    using r'(3) bud out by (simp_all add: same_queues_def set_lane_def unchanged_def)
  moreover have "rv_reorders r' ! i = rv_reorders r ! i" if "i \<noteq> l" for i using r'(3) that by (simp add: same_queues_def set_lane_def)
  moreover have "map_option rv_sink (snd (offer sink w (offered_data (rv_config r) out))) = None \<or>
      (\<exists>e. map_option rv_sink (snd (offer sink w (offered_data (rv_config r) out))) = Some (rv_sink e))"
    by (cases "snd (offer sink w (offered_data (rv_config r) out))") auto
  ultimately show thesis using that l(1) r'(2) delivers_offer [of "rv_config r" sink w out] by blast
qed

lemma accept_completed_step:
  assumes "receiver_inv r [p]" and "within_budget r" and "of_receiver r p"
  shows "step_ok r sink w (accept_completed r now p sink w)"
proof (cases "rf_ReorderEnabled (rv_config r) \<and> rv_reorderHeld r \<ge> rv_reorderBudget r \<and>
    Reorderer_WouldQueue (rv_reorders r ! lane_index_of p) (seq_of p)")
  case False
  then have e: "accept_completed r now p sink w = accept_ordered r now p (rv_reorderHeld r) sink w"
    by (auto simp: accept_completed_def Let_def)
  show ?thesis
  proof (cases "rf_ReorderEnabled (rv_config r)")
    case True
    then show ?thesis unfolding e using False assms by (intro accept_enabled) (auto simp: within_budget_def)
  qed (unfold e, rule accept_disabled [OF assms(1)])
next
  case full: True
  let ?l = "lane_index_of p" let ?x = "rv_reorders r ! lane_index_of p"
  have en: "rf_ReorderEnabled (rv_config r)" and wq: "Reorderer_WouldQueue ?x (seq_of p)" using full by auto
  have bud: "rv_reorderHeld r \<le> rv_reorderBudget r" "0 < rv_reorderHeld r"
    using assms(1,2) full by (auto simp: within_budget_def receiver_inv_def queues_ok_def)
  note lx = lane_entries [OF assms(1) lane_index_256 [of p]]
  have x: "reorder_ok ?x" "length (re_entries ?x) < rv_delivered r" using lx(2) [OF en] by auto
  obtain l where l: "oldestReorderLane r = Some l" using oldest_lane [OF assms(1) en bud(2)] by metis
  show ?thesis
  proof (cases "l = ?l")
    case True
    have "seq_of p - re_next ?x < halfSequenceSpace" "\<not> Reorderer_contains ?x (seq_of p)"
      using wq by (auto simp: Reorderer_WouldQueue_def aheadOf_def Let_def split: if_splits)
    then obtain x' out where f: "Reorderer_flushIncluding ?x p (rv_delivered r) = Some (x', out)" "reorder_step ?x [p] x' out" "held x' = []"
      using flushIncluding_ok [OF x] by blast
    have m: "mset out + mset (held x') = mset (held ?x) + mset [p]" using f(2) by (simp add: reorder_step_def)
    then have "out \<noteq> []" using f(3) by auto
    then have out: "1 \<le> length out" by (simp add: Suc_le_eq)
    let ?r1 = "(set_lane r ?l x')\<lparr>rv_reorderHeld := rv_reorderHeld r - (int (length out) - 1)\<rparr>"
    have inv: "receiver_inv ?r1 (out @ [])"
      by (rule lane_operation [where gained = "[p]"]) (use assms(1) lane_index_256 [of p] step_lane_ok [OF lx(1) en f(2)] m in simp_all)
    have "accept_completed r now p sink w = deliver_packets (refreshReorderDeadline ?r1 True now) sink w out"
      using full l True f(1) x(2) packet_matches [OF assms(1,3)] x(1)
      by (simp add: accept_completed_def Let_def Reorderer_FlushIncluding_def reorder_ok_def set_lane_def)
    then show ?thesis
      using deliver_step [of "refreshReorderDeadline ?r1 True now" out r sink w] inv out bud(1)
      by (simp add: unchanged_def within_budget_def set_lane_def)
  next
    case False
    obtain r' w' err where f: "flushOldestReorder r now sink w = Some (r', w', err)" "receiver_inv r' [p]" "rv_reorderHeld r' < rv_reorderBudget r'"
      "unchanged r r'" "delivers (rv_config r) sink w w' err" "err = None \<or> (\<exists>e. err = Some (rv_sink e))"
      using flush_oldest_step [OF assms(1) en bud(2,1), of now sink w] by metis
    have e: "accept_completed r now p sink w =
        (case err of Some e \<Rightarrow> drop_packet r' p w' e | None \<Rightarrow> accept_ordered r' now p (rv_reorderHeld r) sink w')"
      using full l False f(1) by (simp add: accept_completed_def Let_def)
    have cfg: "rv_config r' = rv_config r" using f(4) by (simp add: unchanged_def)
    show ?thesis
    proof (cases err)
      case None
      have "step_ok r' sink w' (accept_ordered r' now p (rv_reorderHeld r) sink w')"
        by (rule accept_enabled [OF f(2)]) (use f(3) cfg en assms(3) in \<open>simp_all add: of_receiver_def\<close>)
      then show ?thesis
        using e None f(4,5) cfg delivers_trans [of "rv_config r" sink w w'] by (auto simp: step_ok_def unchanged_def)
    next
      case (Some er)
      obtain r2 where "release r' p = Some (r2, None)" "receiver_ok r2" "unchanged r r2"
        using release_step [of r' p r] f(2-4) by (auto simp: within_budget_def)
      then show ?thesis using e Some f(5) by (auto simp: drop_packet_def step_ok_def)
    qed
  qed
qed


subsection \<open>Records, payloads and carriers\<close>

lemma fragment_error_drops: "e \<in> fragment_errors \<Longrightarrow> IsCarrierDrop f (rv_reassembly e)"
  by (auto simp: fragment_errors_def IsCarrierDrop_def)

lemma accept_record_step:
  assumes "receiver_ok r"
  shows "step_ok r sink w (accept_record r now sink w rec)"
proof (cases "hd_DataSessionID (rc_Header rec) = rf_DataSessionID (rv_config r)")
  case False
  have "receiver_ok (r\<lparr>rv_unknownSession := u\<rparr>)" "unchanged r (r\<lparr>rv_unknownSession := u\<rparr>)" for u
    using assms by (simp_all add: receiver_ok_def inv_cong within_budget_def unchanged_def)
  then show ?thesis
    using False by (auto simp: accept_record_def step_ok_def IsCarrierDrop_def intro!: delivers_nothing)
next
  case True
  let ?key = "\<lparr>k_PeerID = 0, k_DataSessionID = hd_DataSessionID (rc_Header rec), k_LaneID = hd_LaneID (rc_Header rec),
     k_LaneSequence = hd_LaneSequence (rc_Header rec)\<rparr>"
  have inv: "queues_ok r" "ps.accounts (rv_reassembly_state r) (waiting_packets (rv_reorders r))" "within_budget r"
    using assms by (simp_all add: receiver_ok_def receiver_inv_def)
  have peer: "int (unat (k_PeerID ?key)) < rg_MaxPeers (ra_config (rv_reassembly_state r))" using inv(1) by (simp add: queues_ok_def)
  have keep: "queues_ok (r\<lparr>rv_reassembly_state := s\<rparr>)" "within_budget (r\<lparr>rv_reassembly_state := s\<rparr>)"
    if "ra_config s = ra_config (rv_reassembly_state r)" for s using that inv by (simp_all add: queues_ok_def within_budget_def)
  show ?thesis
  proof (rule Accept_accounts [OF inv(2) peer, of now "rec"])
    fix s rr p
    assume a: "Reassembler_Accept (rv_reassembly_state r) now ?key rec = Some (s, Inr rr)" "ra_config s = ra_config (rv_reassembly_state r)"
      "rr_Status rr = StatusCompleted" "rr_Packet rr = Some p" "pk_Key p = ?key" "ps.accounts s (p # waiting_packets (rv_reorders r))"
    let ?r = "r\<lparr>rv_reassembly_state := s\<rparr>"
    have m: "mset (p # waiting_packets (rv_reorders r)) = mset (waiting_packets (rv_reorders r) @ [p])" by simp
    have "receiver_inv ?r [p]" using keep [OF a(2)] a(6) ps.accounts_perm [OF m] by (simp add: receiver_inv_def)
    moreover have "of_receiver ?r p" using a(5) True by (simp add: of_receiver_def)
    ultimately have "step_ok ?r sink w (accept_completed ?r now p sink w)"
      using keep(2) [OF a(2)] by (intro accept_completed_step) simp_all
    then show ?thesis using True a(1,3,4) by (auto simp: accept_record_def step_ok_def unchanged_def)
  next
    fix s res
    assume a: "Reassembler_Accept (rv_reassembly_state r) now ?key rec = Some (s, res)" "ra_config s = ra_config (rv_reassembly_state r)"
      "case res of Inl e \<Rightarrow> e \<in> fragment_errors | Inr rr \<Rightarrow> rr_Status rr \<noteq> StatusCompleted" "ps.accounts s (waiting_packets (rv_reorders r))"
    have "receiver_ok (r\<lparr>rv_reassembly_state := s\<rparr>)" using keep [OF a(2)] a(4) by (simp add: receiver_ok_def receiver_inv_def)
    then show ?thesis
      using True a(1,3) fragment_error_drops
      by (cases res) (auto simp: accept_record_def step_ok_def unchanged_def intro!: delivers_nothing)
  qed
qed

text \<open>The walk over the records of a payload.\<close>

lemma carrier_error_drops: "err \<noteq> ErrShortBuffer \<Longrightarrow> IsCarrierDrop f (rv_carrier err)"
  by (cases err) (auto simp: IsCarrierDrop_def)

lemma DecodeRecord_error: "DecodeRecord payload = Inl err \<Longrightarrow> err \<noteq> ErrShortBuffer"
  by (auto simp: DecodeRecord_def validate_def Let_def split: if_splits option.splits)

lemma parse_step:
  assumes "receiver_ok r"
  shows "\<exists>r' w' res. parse_loop payload (visit_record now sink) (Some (r, w)) = (Some (r', w'), res) \<and> receiver_ok r' \<and> unchanged r r' \<and>
    delivers (rv_config r) sink w w' (map_option (\<lambda>e. case e of Inl c \<Rightarrow> rv_carrier c | Inr x \<Rightarrow> x) res)"
  using assms
proof (induction payload arbitrary: r w rule: length_induct)
  case (1 payload)
  show ?case
  proof (cases "payload = []")
    case True
    then show ?thesis using "1.prems" by (auto simp: parse_loop.simps unchanged_def intro: delivers_nothing)
  next
    case ne: False
    show ?thesis
    proof (cases "DecodeRecord payload")
      case (Inl err)
      then show ?thesis
        using ne "1.prems" carrier_error_drops [OF DecodeRecord_error [OF Inl]]
        by (auto simp: parse_loop.simps unchanged_def intro: delivers_nothing)
    next
      case (Inr out)
      obtain rec consumed where o: "out = (rec, consumed)" by (cases out)
      obtain r1 w1 err where s: "accept_record r now sink w rec = Some (r1, w1, err)" "receiver_ok r1" "unchanged r r1"
        "delivers (rv_config r) sink w w1 err"
        using accept_record_step [OF "1.prems", of sink w now "rec"] by (auto simp: step_ok_def)
      show ?thesis
      proof (cases err)
        case (Some e)
        then show ?thesis using ne Inr o s by (auto simp: parse_loop.simps visit_record_def)
      next
        case None
        have "length (drop consumed payload) < length payload"
          using DecodeRecord_consumes [of payload "rec" consumed] Inr o ne by (simp add: minRecordSize_def HeaderSize_def)
        from "1.IH" [rule_format, OF this s(2), of w1] obtain r' w' res where
          IH: "parse_loop (drop consumed payload) (visit_record now sink) (Some (r1, w1)) = (Some (r', w'), res)" "receiver_ok r'" "unchanged r1 r'"
            "delivers (rv_config r1) sink w1 w' (map_option (\<lambda>e. case e of Inl c \<Rightarrow> rv_carrier c | Inr x \<Rightarrow> x) res)"
          by blast
        have cfg: "rv_config r1 = rv_config r" using s(3) by (simp add: unchanged_def)
        have "parse_loop payload (visit_record now sink) (Some (r, w)) = (Some (r', w'), res)"
          using ne Inr o s(1) None IH(1) by (simp add: parse_loop.simps [of payload] visit_record_def)
        then show ?thesis
          using IH(2-4) s(3,4) None cfg delivers_trans [of "rv_config r" sink w w1 w'] by (auto simp: unchanged_def)
      qed
    qed
  qed
qed

lemma acceptPayload_step:
  assumes "receiver_ok r"
  shows "step_ok r sink w (acceptPayload r now payload sink w)"
proof (cases "payload = []")
  case True
  then show ?thesis
    using assms carrier_error_drops [of ErrHeaderTooShort]
    by (auto simp: acceptPayload_def Parse_def step_ok_def unchanged_def intro!: delivers_nothing)
next
  case False
  obtain r' w' res where p: "parse_loop payload (visit_record now sink) (Some (r, w)) = (Some (r', w'), res)" "receiver_ok r'" "unchanged r r'"
    "delivers (rv_config r) sink w w' (map_option (\<lambda>e. case e of Inl c \<Rightarrow> rv_carrier c | Inr x \<Rightarrow> x) res)"
    using parse_step [OF assms, of payload now sink w] by blast
  then show ?thesis using False by (auto simp: acceptPayload_def Parse_def step_ok_def split: option.splits sum.splits)
qed


lemma AcceptCarrier_step:
  assumes "receiver_ok r" and "ParseEnvelope outer (rf_CarrierSource (rv_config r)) (rf_CarrierDest (rv_config r)) \<noteq> Inl ErrCarrierAddress"
  shows "step_ok r sink w (AcceptCarrier r now outer sink w)"
proof (cases "ParseEnvelope outer (rf_CarrierSource (rv_config r)) (rf_CarrierDest (rv_config r))")
  case (Inl err)
  then have "err \<noteq> ErrEnvelopeShortBuffer"
    by (auto simp: ParseEnvelope_def DecodeEnvelope_def validateCarrierAddress_def Let_def split: if_splits option.splits sum.splits)
  then have "IsCarrierDrop f (rv_envelope err)" for f using Inl assms(2) by (cases err) (auto simp: IsCarrierDrop_def)
  then show ?thesis
    using Inl assms(1) by (auto simp: AcceptCarrier_def step_ok_def unchanged_def intro!: delivers_nothing)
next
  case (Inr e)
  then show ?thesis using acceptPayload_step [OF assms(1)] by (simp add: AcceptCarrier_def)
qed

subsection \<open>Timers\<close>

lemma ExpireReassembly_ok:
  assumes "receiver_ok r"
  shows "\<exists>r' n. ExpireReassembly r now = Some (r', n) \<and> receiver_ok r' \<and> unchanged r r'"
proof -
  have ok: "queues_ok r" "ps.accounts (rv_reassembly_state r) (waiting_packets (rv_reorders r))" "within_budget r"
    using assms by (simp_all add: receiver_ok_def receiver_inv_def)
  have "reasm_ok (rv_reassembly_state r)" using ok(2) by (simp add: ps.accounts_def)
  then obtain s n where s: "Reassembler_Expire (rv_reassembly_state r) now = Some (s, n)" "reasm_ok s" "preserves (rv_reassembly_state r) s"
    "completed_slots s = completed_slots (rv_reassembly_state r)" by (rule Expire_contract)
  have "ps.accounts s (waiting_packets (rv_reorders r))" by (rule preserves_accounts [OF ok(2) s(2-4)])
  then show ?thesis
    using s(1,3) ok by (auto simp: ExpireReassembly_def receiver_ok_def receiver_inv_def queues_ok_def preserves_def within_budget_def unchanged_def)
qed

lemma tick_loop_step:
  assumes "receiver_ok r" and "rf_ReorderEnabled (rv_config r)" and "\<forall>l\<in>set ls. l < 256"
  shows "step_ok r sink w (tick_loop r now sink w flushed ls)"
  using assms
proof (induction ls arbitrary: r w flushed)
  case Nil
  have "receiver_ok (refreshReorderDeadline r b now)" "unchanged r (refreshReorderDeadline r b now)" for b
    using Nil.prems(1) by (simp_all add: receiver_ok_def within_budget_def unchanged_def)
  then show ?case using Nil.prems(1) by (auto simp: step_ok_def unchanged_def intro!: delivers_nothing)
next
  case (Cons l ls)
  have inv: "receiver_inv r []" and bud: "rv_reorderHeld r \<le> rv_reorderBudget r"
    using Cons.prems(1,2) by (simp_all add: receiver_ok_def within_budget_def)
  have l: "l < 256" using Cons.prems(3) by simp
  note x = lane_entries [OF inv l]
  obtain x' out where t: "Reorderer_Tick (rv_reorders r ! l) now (rv_delivered r) = Some (x', Inr out)" "reorder_step (rv_reorders r ! l) [] x' out"
    using Tick_ok [of "rv_reorders r ! l" "rv_delivered r" now] x(2) [OF Cons.prems(2)] by auto
  let ?r1 = "(set_lane r l x')\<lparr>rv_reorderHeld := rv_reorderHeld r - int (length out)\<rparr>"
  have "receiver_inv ?r1 (out @ [])"
    by (rule lane_operation [where gained = "[]"])
      (use inv l step_lane_ok [OF x(1) Cons.prems(2) t(2)] t(2) in \<open>simp_all add: reorder_step_def\<close>)
  then have "step_ok r sink w (deliver_packets ?r1 sink w out)"
    using bud by (intro deliver_step) (simp_all add: unchanged_def set_lane_def within_budget_def)
  then obtain r2 w2 err where d: "deliver_packets ?r1 sink w out = Some (r2, w2, err)" "receiver_ok r2" "unchanged r r2"
    "delivers (rv_config r) sink w w2 err" by (auto simp: step_ok_def)
  have e: "tick_loop r now sink w flushed (l # ls) =
      (case err of Some e \<Rightarrow> Some (if flushed \<or> length out \<noteq> 0 then refreshReorderDeadline r2 True now else r2, w2, Some e)
       | None \<Rightarrow> tick_loop r2 now sink w2 (flushed \<or> length out \<noteq> 0) ls)"
    using t(1) d(1) by (cases err) (simp_all add: Let_def set_lane_def)
  show ?case
  proof (cases err)
    case None
    have cfg: "rv_config r2 = rv_config r" using d(3) by (simp add: unchanged_def)
    have "step_ok r2 sink w2 (tick_loop r2 now sink w2 (flushed \<or> length out \<noteq> 0) ls)"
      by (rule Cons.IH [OF d(2)]) (use Cons.prems cfg in simp_all)
    then show ?thesis
      unfolding e using None d(3,4) cfg delivers_trans [of "rv_config r" sink w w2] by (auto simp: step_ok_def unchanged_def)
  next
    case (Some er)
    have "receiver_ok (refreshReorderDeadline r2 True now)" "unchanged r (refreshReorderDeadline r2 True now)"
      using d(2,3) by (simp_all add: receiver_ok_def within_budget_def unchanged_def)
    then show ?thesis unfolding e using Some d by (auto simp: step_ok_def)
  qed
qed

lemma TickReorder_step:
  assumes "receiver_ok r"
  shows "step_ok r sink w (TickReorder r now sink w)"
proof (cases "rf_ReorderEnabled (rv_config r) \<and> rv_reorderHeld r \<noteq> 0")
  case True
  have "length (rv_reorders r) = 256" using assms by (simp add: receiver_ok_def receiver_inv_def queues_ok_def)
  then show ?thesis using tick_loop_step [OF assms, of "[0..<256]" sink w now False] True by (simp add: TickReorder_def)
next
  case False
  then show ?thesis using assms by (auto simp: TickReorder_def step_ok_def unchanged_def intro!: delivers_nothing)
qed

subsection \<open>A new receiver\<close>

lemma new_lanes_ok:
  assumes "new_lanes config ls = (Inr lanes :: 'e receiver_error + Reorderer list)"
  shows "length lanes = length ls \<and> (\<forall>i < length ls. NewReorderer (lane_config config (ls ! i)) = Inr (lanes ! i))"
  using assms
proof (induction ls arbitrary: lanes)
  case Nil
  then show ?case by simp
next
  case (Cons l ls)
  then obtain x xs where "NewReorderer (lane_config config l) = Inr x"
    "new_lanes config ls = (Inr xs :: 'e receiver_error + Reorderer list)" "lanes = x # xs"
    by (auto split: sum.splits)
  then show ?case using Cons.IH [of xs] by (auto simp: nth_Cons split: nat.splits)
qed

lemma new_lane_ok: "NewReorderer (lane_config config l) = Inr x \<Longrightarrow> lane_ok config l x \<and> held x = [] \<and> re_next x = 0"
  by (auto simp: NewReorderer_def lane_ok_def reorder_ok_def counted_def held_def zero_entry_def lane_config_def split: if_splits)

text \<open>What \<^verbatim>\<open>newConfiguredReceiver\<close> puts together, with the default budget filled in.\<close>

definition effective_config :: "ReceiverConfig \<Rightarrow> ReceiverConfig" where
  "effective_config config =
     (if rf_ReorderEnabled config \<and> rf_ReorderBudget config = 0 then config\<lparr>rf_ReorderBudget := rf_Slots config - 1\<rparr> else config)"

lemma effective_config_same [simp]:
  "rf_DataSessionID (effective_config config) = rf_DataSessionID config" "rf_ReorderEnabled (effective_config config) = rf_ReorderEnabled config"
  "rf_ReorderCapacity (effective_config config) = rf_ReorderCapacity config" "rf_Slots (effective_config config) = rf_Slots config"
  "rf_PeerID (effective_config config) = rf_PeerID config" "rf_AllowedIPs (effective_config config) = rf_AllowedIPs config"
  "rf_MaxPacketSize (effective_config config) = rf_MaxPacketSize config" "rf_Lifetime (effective_config config) = rf_Lifetime config"
  "rf_PerPeerSlots (effective_config config) = rf_PerPeerSlots config"
  "rf_ReorderMaxDelay (effective_config config) = rf_ReorderMaxDelay config"
  by (simp_all add: effective_config_def)

definition reassembly_config :: "ReceiverConfig \<Rightarrow> ReassemblyConfig" where
  "reassembly_config config =
     \<lparr>rg_Slots = rf_Slots config, rg_MaxPacketSize = rf_MaxPacketSize config, rg_MaxPeers = 1,
      rg_PerPeerSlots = rf_PerPeerSlots config, rg_Lifetime = rf_Lifetime config\<rparr>"

lemma new_receiver_parts:
  assumes "newConfiguredReceiver config payloadOnly = (Inr r :: 'e receiver_error + Receiver)"
  shows "NewReassembler (reassembly_config config) = Inr (rv_reassembly_state r)"
    and "new_lanes (effective_config config) [0..<256] = (Inr (rv_reorders r) :: 'e receiver_error + Reorderer list)"
    and "rv_config r = effective_config config" and "rv_reorderHeld r = 0" and "rv_reorderBudget r = rf_ReorderBudget (effective_config config)"
    and "rv_delivered r = (if rf_ReorderEnabled config then nat (rf_ReorderCapacity config + 1) else 1)"
    and "rf_DataSessionID config \<noteq> 0" and "rf_ReorderEnabled config \<Longrightarrow> 0 < rf_ReorderCapacity config"
    and "rf_ReorderEnabled config \<Longrightarrow> 0 < rf_ReorderBudget (effective_config config)"
    and "rf_ReorderEnabled config \<Longrightarrow> rf_ReorderBudget (effective_config config) < rf_Slots config"
  using assms unfolding newConfiguredReceiver_def Let_def effective_config_def [symmetric]
  by (auto simp: reassembly_config_def split: if_splits sum.splits)

lemma new_receiver_lanes:
  assumes "newConfiguredReceiver config payloadOnly = (Inr r :: 'e receiver_error + Receiver)"
  shows "length (rv_reorders r) = 256" and "waiting_packets (rv_reorders r) = []"
    and "\<forall>i < 256. lane_ok (rv_config r) i (rv_reorders r ! i) \<and> re_next (rv_reorders r ! i) = 0"
proof -
  note parts = new_receiver_parts [OF assms]
  note l = new_lanes_ok [OF parts(2)]
  then show "length (rv_reorders r) = 256" by simp
  have "lane_ok (rv_config r) i (rv_reorders r ! i)" "held (rv_reorders r ! i) = []" "re_next (rv_reorders r ! i) = 0" if "i < 256" for i
    using l that new_lane_ok [of "effective_config config" i "rv_reorders r ! i"] parts(3) by auto
  then show "\<forall>i < 256. lane_ok (rv_config r) i (rv_reorders r ! i) \<and> re_next (rv_reorders r ! i) = 0" "waiting_packets (rv_reorders r) = []"
    using l by (auto simp: waiting_packets_def in_set_conv_nth)
qed

lemma new_reassembler_parts:
  assumes "NewReassembler cfg = Inr x"
  shows "ra_config x = cfg" and "completed_slots x = {}" and "\<forall>i < length (ra_slots x). sl_state (ra_slots x ! i) = slotFree"
  using assms by (auto simp: NewReassembler_def Let_def completed_slots_def zero_slot_def split: if_splits sum.splits)

lemma new_receiver_ok:
  assumes "newConfiguredReceiver config payloadOnly = (Inr r :: 'e receiver_error + Receiver)" and "rf_Slots config < 2 ^ 32"
  shows "receiver_ok r"
proof -
  note parts = new_receiver_parts [OF assms(1)] new_receiver_lanes [OF assms(1)]
  note ra = new_reassembler_parts [OF parts(1)]
  have "reasm_ok (rv_reassembly_state r)"
    by (rule NewReassembler_ok [OF parts(1)]) (use assms(2) in \<open>simp add: reassembly_config_def\<close>)
  then show ?thesis
    using ra parts
    by (auto simp: receiver_ok_def receiver_inv_def queues_ok_def within_budget_def ps.accounts_def reassembly_config_def)
qed

end
