(* ===== verification/EndToEnd.thy ===== *)
theory EndToEnd
  imports SenderCorrect ReceiverInv PeerRouteCorrect
begin

text \<open>
  Sender and receiver together.  The payloads a sender emits for a batch of packets, received in order, give
  back exactly those packets in order: the composition of fragmentation, packing, record encoding, parsing,
  reassembly, reordering and source validation is the identity on admitted packets.
\<close>

subsection \<open>Receiving records one by one\<close>

fun receive_records ::
    "('w, 'e) inner_sink option \<Rightarrow> Receiver \<Rightarrow> 'w \<Rightarrow> (gotime \<times> Record) list \<Rightarrow> (Receiver \<times> 'w \<times> 'e receiver_error option) option" where
  "receive_records sink r w [] = Some (r, w, None)"
| "receive_records sink r w ((now, rec) # rest) =
     (case accept_record r now sink w rec of
        None \<Rightarrow> None
      | Some (r1, w1, Some err) \<Rightarrow> Some (r1, w1, Some err)
      | Some (r1, w1, None) \<Rightarrow> receive_records sink r1 w1 rest)"

lemma receive_records_append:
  "receive_records sink r w (xs @ ys) =
     (case receive_records sink r w xs of
        Some (r1, w1, None) \<Rightarrow> receive_records sink r1 w1 ys | out \<Rightarrow> out)"
  by (induction xs arbitrary: r w) (auto split: option.splits)

lemma visit_all_receive:
  "visit_all (visit_record now sink) (Some (r, w)) rs =
     (case receive_records sink r w (map (Pair now) rs) of
        None \<Rightarrow> (None, Some rv_Accounting) | Some (r', w', err) \<Rightarrow> (Some (r', w'), err))"
  by (induction rs arbitrary: r w) (auto simp: visit_record_def split: option.splits)

lemma acceptPayload_records:
  assumes "\<forall>rec\<in>set rs. record_ok rec" and "rs \<noteq> []"
  shows "acceptPayload r now (encode_records rs) sink w = receive_records sink r w (map (Pair now) rs)"
  using parse_loop_encode [OF assms(1), of "visit_record now sink" "Some (r, w)"] assms(2) visit_all_receive [of now sink r w rs]
  by (auto simp: acceptPayload_def Parse_def map_prod_def split: option.splits)

subsection \<open>A receiver with nothing in flight\<close>

text \<open>All slots are free, nothing waits in a queue, and \<open>next l\<close> is the number lane \<open>l\<close> expects.\<close>

definition idle :: "Receiver \<Rightarrow> (byte \<Rightarrow> u32) \<Rightarrow> bool" where
  "idle r expected \<longleftrightarrow>
     receiver_ok r \<and> (\<forall>i < length (ra_slots (rv_reassembly_state r)). sl_state (ra_slots (rv_reassembly_state r) ! i) = slotFree) \<and>
     waiting_packets (rv_reorders r) = [] \<and>
     (rf_ReorderEnabled (rv_config r) \<longrightarrow> (\<forall>l. re_next (rv_reorders r ! unat l) = expected l))"

lemma waiting_Nil: "waiting_packets lanes = [] \<longleftrightarrow> (\<forall>x\<in>set lanes. held x = [])"
  by (auto simp: waiting_packets_def)

lemma idle_lane:
  assumes "receiver_inv r qs" and "waiting_packets (rv_reorders r) = []" and "rf_ReorderEnabled (rv_config r)"
  shows "held (rv_reorders r ! unat (l :: byte)) = []" and "re_count (rv_reorders r ! unat l) = 0"
    and "reorder_ok (rv_reorders r ! unat l)" and "length (re_entries (rv_reorders r ! unat l)) < rv_delivered r"
proof -
  have l: "unat l < 256" using unsigned_less [where 'a = nat, of l] by simp
  have "length (rv_reorders r) = 256" using assms(1) by (simp add: receiver_inv_def queues_ok_def)
  then show h: "held (rv_reorders r ! unat l) = []" using assms(2) l by (auto simp: waiting_Nil)
  show ok: "reorder_ok (rv_reorders r ! unat l)" "length (re_entries (rv_reorders r ! unat l)) < rv_delivered r"
    using lane_entries(2) [OF assms(1) l assms(3)] by auto
  show "re_count (rv_reorders r ! unat l) = 0" using ok(1) h by (simp add: reorder_ok_def counted_def)
qed

text \<open>A lane that waits for nothing hands a packet with the expected number straight through.\<close>

definition passed :: "Receiver \<Rightarrow> byte \<Rightarrow> Reorderer" where
  "passed r l =
     (let x = rv_reorders r ! unat l in
      if rf_ReorderEnabled (rv_config r) then x\<lparr>re_next := re_next x + 1, re_gapStartedAt := 0\<rparr> else x)"

lemma accept_passes:
  assumes "receiver_inv r [p]" and "waiting_packets (rv_reorders r) = []" and "of_receiver r p" and "l = k_LaneID (pk_Key p)"
    and "rf_ReorderEnabled (rv_config r) \<Longrightarrow> re_next (rv_reorders r ! unat l) = seq_of p"
  shows "Reorderer_Accept (rv_reorders r ! unat l) now p (rv_delivered r) = Some (passed r l, Inr (StatusDelivered, [p]))"
proof (cases "rf_ReorderEnabled (rv_config r)")
  case True
  note x = idle_lane [OF assms(1,2) True, of l]
  have "matchesLane (rv_reorders r ! unat l) p" using packet_matches [OF assms(1,3)] assms(4) by simp
  then show ?thesis
    using x assms(5) [OF True] True
    by (auto simp: Reorderer_Accept_def reorder_ok_def drainContiguous_def passed_def Let_def)
next
  case False
  have "lane_ok (rv_config r) (unat l) (rv_reorders r ! unat l)" using lane_entries(1) [OF assms(1) lane_index_256 [of p]] assms(4) by simp
  then show ?thesis
    using False assms(1)
    by (simp add: Reorderer_Accept_def matchesLane_def lane_ok_def lane_config_def receiver_inv_def queues_ok_def passed_def Let_def)
qed

lemma accept_completed_passes:
  assumes "receiver_inv r [p]" and "waiting_packets (rv_reorders r) = []" and "of_receiver r p" and "l = k_LaneID (pk_Key p)"
    and "rf_ReorderEnabled (rv_config r) \<Longrightarrow> re_next (rv_reorders r ! unat l) = seq_of p"
    and "admissible (rv_config r) (pk_Data p) = Some d" and "f w d = (w', None)"
    and "Reassembler_Release (rv_reassembly_state r) (pk_Handle p) = Some (s, None)"
  shows "\<exists>dl. accept_completed r now p (Some f) w =
    Some (r\<lparr>rv_reassembly_state := s, rv_reorders := (rv_reorders r)[unat l := passed r l], rv_reorderHeld := 0, rv_reorderDeadline := dl\<rparr>, w', None)"
proof -
  have h: "rv_reorderHeld r = 0" using assms(1,2) by (simp add: receiver_inv_def queues_ok_def)
  have notfull: "\<not> (rf_ReorderEnabled (rv_config r) \<and> rv_reorderHeld r \<ge> rv_reorderBudget r)"
    using assms(1) h by (auto simp: receiver_inv_def queues_ok_def)
  let ?r2 = "(set_lane r (unat l) (passed r l))\<lparr>rv_reorderHeld := 0\<rparr>"
  have e: "accept_completed r now p (Some f) w = deliver_packets (refreshReorderDeadline ?r2 False now) (Some f) w [p]"
    using notfull accept_passes [OF assms(1-5), of now] assms(4) h
    by (auto simp: accept_completed_def accept_ordered_def Let_def set_lane_def)
  obtain dl where dl: "refreshReorderDeadline ?r2 False now = ?r2\<lparr>rv_reorderDeadline := dl\<rparr>" using refresh_fields by blast
  have "judge (?r2\<lparr>rv_reorderDeadline := dl\<rparr>) (pk_Data p) = Inr d"
    using assms(6) judge_admissible(1) [of "?r2\<lparr>rv_reorderDeadline := dl\<rparr>" "pk_Data p" d] by (simp add: set_lane_def)
  then show ?thesis
    unfolding e dl using assms(7,8)
    by (auto simp: deliver_packets_def release_def set_lane_def intro!: exI [of _ dl])
qed


subsection \<open>The fragments of one packet\<close>

text \<open>Slot \<open>i\<close> holds the first \<open>k\<close> fragments, and no other slot is in use.\<close>

definition only_part :: "Reassembler \<Rightarrow> nat \<Rightarrow> Frag list \<Rightarrow> nat \<Rightarrow> Key \<Rightarrow> gotime \<Rightarrow> bool" where
  "only_part s i frags k key t \<longleftrightarrow>
     reasm_ok s \<and> live s i \<and> key_at s i = key \<and> holds_part (ra_slots s ! i) frags {..<k} \<and> sl_firstSeen (ra_slots s ! i) = t \<and>
     (\<forall>j < length (ra_slots s). j \<noteq> i \<longrightarrow> sl_state (ra_slots s ! j) = slotFree)"

definition part_result :: "Frag list \<Rightarrow> bytes \<Rightarrow> Key \<Rightarrow> nat \<Rightarrow> ReassemblyResult \<Rightarrow> bool" where
  "part_result frags packet key k res \<longleftrightarrow>
     (if Suc k = length frags
      then rr_Status res = StatusCompleted \<and> (\<exists>p. rr_Packet res = Some p \<and> pk_Data p = packet \<and> pk_Key p = key)
      else rr_Status res = StatusAccepted)"

lemma status_in_order: "k < n \<Longrightarrow> expected_status n {..<k} k = (if Suc k = n then StatusCompleted else StatusAccepted)"
proof -
  assume "k < n"
  have "insert k {..<k} = {..<Suc k}" by auto
  then show ?thesis by (simp add: expected_status_def)
qed

lemma part_step_result:
  assumes "part_step r i frags packet {..<k} k (Some (r', Inr res))" and "k < length frags" and "key_at r i = key"
  shows "part_result frags packet key k res"
proof -
  have "rr_Status res = (if Suc k = length frags then StatusCompleted else StatusAccepted)"
    using assms(1) status_in_order [OF assms(2)] by (simp add: part_step_def)
  moreover have "rr_Packet res \<noteq> None \<longleftrightarrow> rr_Status res = StatusCompleted"
    "\<forall>p. rr_Packet res = Some p \<longrightarrow> pk_Data p = packet \<and> pk_Key p = key" using assms(1,3) by (simp_all add: part_step_def)
  ultimately show ?thesis by (auto simp: part_result_def)
qed

lemma next_part:
  assumes "only_part s i frags k (packet_key 0 md) t" and "k < length frags" and "fragmentation packet md frags"
    and "int (length packet) \<le> rg_MaxPacketSize (ra_config s)" and "md_DataSessionID md \<noteq> 0" and "0 < rg_MaxPeers (ra_config s)"
    and "now < t + rg_Lifetime (ra_config s)"
  shows "\<exists>s' res. Reassembler_Accept s now (packet_key 0 md) (frag_record (frags ! k)) = Some (s', Inr res) \<and>
    part_result frags packet (packet_key 0 md) k res \<and> only_part s' i frags (Suc k) (packet_key 0 md) t \<and> ra_config s' = ra_config s"
proof -
  have o: "reasm_ok s" "live s i" "key_at s i = packet_key 0 md" "holds_part (ra_slots s ! i) frags {..<k}" "sl_firstSeen (ra_slots s ! i) = t"
    "\<forall>j < length (ra_slots s). j \<noteq> i \<longrightarrow> sl_state (ra_slots s ! j) = slotFree"
    using assms(1) by (auto simp: only_part_def)
  have v: "validateKey s (packet_key 0 md) = None" using assms(5,6) by (simp add: validateKey_def packet_key_def)
  note st = accept_known [OF o(1-3) assms(3,2,4) v _ o(4)]
  have ps: "part_step s i frags packet {..<k} k (Reassembler_Accept s now (packet_key 0 md) (frag_record (frags ! k)))"
    by (rule st) (use assms(7) o(5) in simp)
  then obtain s' res where a: "Reassembler_Accept s now (packet_key 0 md) (frag_record (frags ! k)) = Some (s', Inr res)"
    by (auto simp: part_step_def)
  have "insert k {..<k} = {..<Suc k}" by auto
  then have "only_part s' i frags (Suc k) (packet_key 0 md) t" "ra_config s' = ra_config s"
    using ps o(3,5,6) unfolding a by (auto simp: part_step_def only_part_def)
  with a part_step_result [OF ps [unfolded a] assms(2) o(3)] show ?thesis by blast
qed

lemma no_slots_used:
  assumes "reasm_ok s" and "\<forall>i < length (ra_slots s). sl_state (ra_slots s ! i) = slotFree" and "0 < rg_MaxPeers (ra_config s)"
  shows "findKey s key = None" and "int (unat (ra_peerCounts s ! 0)) < rg_PerPeerSlots (ra_config s)" and "free_slots (ra_slots s) \<noteq> {}"
proof -
  have c: "config_ok (ra_config s)" "int (length (ra_slots s)) = rg_Slots (ra_config s)" "counts_ok s" "int (length (ra_peerCounts s)) = rg_MaxPeers (ra_config s)"
    using reasm_okD [OF assms(1)] by auto
  show "findKey s key = None" using findKey_None_iff [OF assms(1)] assms(2) by (auto simp: live_def)
  have "0 < length (ra_slots s)" using c(1,2) by (auto simp: config_ok_def)
  then show "free_slots (ra_slots s) \<noteq> {}" using assms(2) by (auto simp: free_slots_def)
  have "count_peer (ra_slots s) 0 = 0"
    using assms(2) reasm_okD(4) [OF assms(1)]
    by (auto simp: count_peer_def counts_for_def filter_empty_conv in_set_conv_nth slot_ok_def)
  moreover have "0 < length (ra_peerCounts s)" using c(4) assms(3) by linarith
  ultimately show "int (unat (ra_peerCounts s ! 0)) < rg_PerPeerSlots (ra_config s)"
    using c(1,3) by (auto simp: counts_ok_def config_ok_def)
qed

lemma first_part:
  assumes "reasm_ok s" and "\<forall>i < length (ra_slots s). sl_state (ra_slots s ! i) = slotFree" and "fragmentation packet md frags"
    and "int (length packet) \<le> rg_MaxPacketSize (ra_config s)" and "md_DataSessionID md \<noteq> 0" and "0 < rg_MaxPeers (ra_config s)"
  shows "\<exists>s' i res. Reassembler_Accept s now (packet_key 0 md) (frag_record (frags ! 0)) = Some (s', Inr res) \<and>
    part_result frags packet (packet_key 0 md) 0 res \<and> only_part s' i frags 1 (packet_key 0 md) now \<and> ra_config s' = ra_config s"
proof -
  note n = no_slots_used [OF assms(1,2,6)]
  have v: "validateKey s (packet_key 0 md) = None" using assms(5,6) by (simp add: validateKey_def packet_key_def)
  have len: "0 < length frags" using assms(3) by (auto simp: fragmentation_def)
  have q: "int (unat (ra_peerCounts s ! unat (0 :: PeerID))) < rg_PerPeerSlots (ra_config s)" using n(2) by simp
  obtain r2 i where r2: "part_step r2 i frags packet {} 0 (Reassembler_Accept s now (packet_key 0 md) (frag_record (frags ! 0)))"
    "key_at r2 i = packet_key 0 md" "sl_firstSeen (ra_slots r2 ! i) = now" "ra_config r2 = ra_config s"
    "length (ra_slots r2) = length (ra_slots s)" "\<And>k. k \<noteq> i \<Longrightarrow> ra_slots r2 ! k = ra_slots s ! k"
    by (rule accept_first [where now = now, OF assms(1) n(1) assms(3) len assms(4) v q n(3)]) (rule that)
  then obtain s' res where a: "Reassembler_Accept s now (packet_key 0 md) (frag_record (frags ! 0)) = Some (s', Inr res)"
    by (auto simp: part_step_def)
  have one: "{..<Suc 0} = {0 :: nat}" by auto
  have "only_part s' i frags 1 (packet_key 0 md) now" "ra_config s' = ra_config s"
    using r2 assms(2) one unfolding a by (auto simp: part_step_def only_part_def)
  moreover have "part_result frags packet (packet_key 0 md) 0 res"
    using part_step_result [of r2 i frags packet 0 s' res] r2(1,2) len unfolding a by simp
  ultimately show ?thesis using a by blast
qed


subsection \<open>One packet\<close>

lemma record_key:
  assumes "fragmentation packet md frags" and "k < length frags"
  shows "\<lparr>k_PeerID = 0, k_DataSessionID = hd_DataSessionID (rc_Header (frag_record (frags ! k))), k_LaneID = hd_LaneID (rc_Header (frag_record (frags ! k))),
     k_LaneSequence = hd_LaneSequence (rc_Header (frag_record (frags ! k)))\<rparr> = packet_key 0 md"
    and "hd_DataSessionID (rc_Header (frag_record (frags ! k))) = md_DataSessionID md"
  using assms by (auto simp: fragmentation_def frag_record_def packet_key_def)

text \<open>The queues are as in \<open>r\<close>, only the reassembler moved.\<close>

definition on_track :: "Receiver \<Rightarrow> (byte \<Rightarrow> u32) \<Rightarrow> bool" where
  "on_track r expected \<longleftrightarrow>
     receiver_ok r \<and> waiting_packets (rv_reorders r) = [] \<and>
     (rf_ReorderEnabled (rv_config r) \<longrightarrow> (\<forall>l. re_next (rv_reorders r ! unat l) = expected l))"

lemma on_track_accounts: "on_track r expected \<Longrightarrow> ps.accounts (rv_reassembly_state r) []"
  by (auto simp: on_track_def receiver_ok_def receiver_inv_def)

lemma on_track_peers: "on_track r expected \<Longrightarrow> rg_MaxPeers (ra_config (rv_reassembly_state r)) = 1"
  by (simp add: on_track_def receiver_ok_def receiver_inv_def queues_ok_def)

lemma part_stored:
  assumes "on_track r expected" and "rf_DataSessionID (rv_config r) = md_DataSessionID md"
    and "fragmentation packet md frags" and "k < length frags" and "Suc k \<noteq> length frags"
    and a: "Reassembler_Accept (rv_reassembly_state r) now (packet_key 0 md) (frag_record (frags ! k)) = Some (s, Inr res)"
    and "part_result frags packet (packet_key 0 md) k res" and "ra_config s = ra_config (rv_reassembly_state r)"
  shows "accept_record r now sink w (frag_record (frags ! k)) = Some (r\<lparr>rv_reassembly_state := s\<rparr>, w, None)"
    and "on_track (r\<lparr>rv_reassembly_state := s\<rparr>) expected"
proof -
  have st: "rr_Status res \<noteq> StatusCompleted" using assms(5,7) by (simp add: part_result_def)
  show e: "accept_record r now sink w (frag_record (frags ! k)) = Some (r\<lparr>rv_reassembly_state := s\<rparr>, w, None)"
    using a st assms(2) record_key [OF assms(3,4)] by (simp add: accept_record_def)
  have "receiver_ok r" using assms(1) by (simp add: on_track_def)
  then have "receiver_ok (r\<lparr>rv_reassembly_state := s\<rparr>)"
    using accept_record_step [of r sink w now "frag_record (frags ! k)"] e by (auto simp: step_ok_def)
  then show "on_track (r\<lparr>rv_reassembly_state := s\<rparr>) expected" using assms(1) by (simp add: on_track_def)
qed

lemma packet_completed:
  assumes "on_track r expected" and "rf_DataSessionID (rv_config r) = md_DataSessionID md"
    and "fragmentation packet md frags" and "Suc k = length frags" and "expected (md_LaneID md) = md_LaneSequence md"
    and a: "Reassembler_Accept (rv_reassembly_state r) now (packet_key 0 md) (frag_record (frags ! k)) = Some (s, Inr res)"
    and pr: "part_result frags packet (packet_key 0 md) k res" and "ra_config s = ra_config (rv_reassembly_state r)"
    and only: "only_part s i frags (Suc k) (packet_key 0 md) t"
    and "admissible (rv_config r) packet = Some d" and "f w d = (w', None)"
  shows "\<exists>r'. accept_record r now (Some f) w (frag_record (frags ! k)) = Some (r', w', None) \<and>
    idle r' (expected(md_LaneID md := md_LaneSequence md + 1)) \<and> rv_config r' = rv_config r \<and>
    ra_config (rv_reassembly_state r') = ra_config (rv_reassembly_state r)"
proof -
  let ?l = "md_LaneID md" let ?r = "r\<lparr>rv_reassembly_state := s\<rparr>"
  have ok: "receiver_ok r" and w0: "waiting_packets (rv_reorders r) = []" using assms(1) by (simp_all add: on_track_def)
  have k: "k < length frags" using assms(4) by simp
  obtain p where p: "rr_Status res = StatusCompleted" "rr_Packet res = Some p" "pk_Data p = packet" "pk_Key p = packet_key 0 md"
    using pr assms(4) by (auto simp: part_result_def)
  have acc: "ps.accounts s [p]"
    by (rule Accept_accounts [OF on_track_accounts [OF assms(1)], of "packet_key 0 md" now "frag_record (frags ! k)"])
      (use a p on_track_peers [OF assms(1)] in \<open>auto simp: packet_key_def\<close>)
  have inv: "receiver_inv ?r [p]"
    using ok w0 acc assms(8) by (simp add: receiver_ok_def receiver_inv_def queues_ok_def)
  obtain s' where s': "Reassembler_Release s (pk_Handle p) = Some (s', None)" "ps.accounts s' []"
    using ps.accounts_release [OF acc] by blast
  have own: "of_receiver ?r p" using p(4) assms(2) by (simp add: of_receiver_def packet_key_def)
  obtain dl where e1: "accept_completed ?r now p (Some f) w =
      Some (?r\<lparr>rv_reassembly_state := s', rv_reorders := (rv_reorders ?r)[unat ?l := passed ?r ?l], rv_reorderHeld := 0, rv_reorderDeadline := dl\<rparr>, w', None)"
    using accept_completed_passes [OF inv _ own, of ?l d f w w' s' now] w0 p(3,4) assms(1,5,10,11) s'(1)
    by (auto simp: packet_key_def on_track_def)
  let ?r' = "r\<lparr>rv_reassembly_state := s', rv_reorders := (rv_reorders r)[unat ?l := passed ?r ?l], rv_reorderHeld := 0, rv_reorderDeadline := dl\<rparr>"
  have e: "accept_record r now (Some f) w (frag_record (frags ! k)) = Some (?r', w', None)"
    using a p(1,2) assms(2) record_key [OF assms(3) k] e1 by (simp add: accept_record_def)
  have ok': "receiver_ok ?r'" using accept_record_step [OF ok, of "Some f" w now "frag_record (frags ! k)"] e by (auto simp: step_ok_def)
  have rs: "reasm_ok s" using only by (simp add: only_part_def)
  obtain j where j: "j < length (ra_slots s)" "sl_state (ra_slots s ! j) = slotCompleted"
    "ra_slots s' = (ra_slots s)[j := zero_slot (sh_generation (pk_Handle p)) (ra_freeHead s) (sl_buf (ra_slots s ! j))]" "ra_config s' = ra_config s"
    using Release_ok [OF rs, of "pk_Handle p"] s'(1) by auto
  have "j = i" using only j(1,2) by (auto simp: only_part_def)
  then have free: "sl_state (ra_slots s' ! m) = slotFree" if "m < length (ra_slots s')" for m
    using only j(1,3) that by (cases "m = i") (simp_all add: only_part_def zero_slot_def)
  have l256: "length (rv_reorders r) = 256" using ok by (simp add: receiver_ok_def receiver_inv_def queues_ok_def)
  have lanes: "re_next ((rv_reorders r)[unat ?l := passed ?r ?l] ! unat m) = (expected(?l := md_LaneSequence md + 1)) m"
    if "rf_ReorderEnabled (rv_config r)" for m
  proof (cases "m = ?l")
    case True
    then show ?thesis
      using assms(1,5) that lane_index [of m] l256 by (simp add: passed_def Let_def on_track_def Lanes_def)
  next
    case False
    then have "unat ?l \<noteq> unat m" by (metis word_unat_eq_iff)
    then show ?thesis using assms(1) that False by (simp add: on_track_def)
  qed
  have "held (passed ?r ?l) = held (rv_reorders r ! unat ?l)" by (simp add: passed_def Let_def held_def)
  then have "waiting_packets ((rv_reorders r)[unat ?l := passed ?r ?l]) = []"
    using w0 l256 lane_index [of ?l] unfolding waiting_Nil
    by (auto simp: Lanes_def dest!: set_update_subset_insert [THEN subsetD])
  then have "idle ?r' (expected(?l := md_LaneSequence md + 1))" using ok' free lanes by (simp add: idle_def)
  then show ?thesis using e j(4) assms(8) by auto
qed


text \<open>All fragments of a packet, in order and within the lifetime.\<close>

lemma rest_of_packet:
  assumes "on_track r expected" and "only_part (rv_reassembly_state r) i frags k (packet_key 0 md) t"
    and "rf_DataSessionID (rv_config r) = md_DataSessionID md" and "md_DataSessionID md \<noteq> 0"
    and "fragmentation packet md frags" and "k < length frags" and "expected (md_LaneID md) = md_LaneSequence md"
    and "int (length packet) \<le> rg_MaxPacketSize (ra_config (rv_reassembly_state r))"
    and "admissible (rv_config r) packet = Some d" and "f w d = (w', None)"
    and "length ts = length frags - k" and "\<forall>x\<in>set ts. x < t + rg_Lifetime (ra_config (rv_reassembly_state r))"
  shows "\<exists>r'. receive_records (Some f) r w (zip ts (map frag_record (drop k frags))) = Some (r', w', None) \<and>
    idle r' (expected(md_LaneID md := md_LaneSequence md + 1)) \<and> rv_config r' = rv_config r \<and>
    ra_config (rv_reassembly_state r') = ra_config (rv_reassembly_state r)"
  using assms
proof (induction ts arbitrary: r k)
  case Nil
  then show ?case by simp
next
  case (Cons now ts)
  have mp: "0 < rg_MaxPeers (ra_config (rv_reassembly_state r))" using on_track_peers [OF Cons.prems(1)] by simp
  obtain s res where a: "Reassembler_Accept (rv_reassembly_state r) now (packet_key 0 md) (frag_record (frags ! k)) = Some (s, Inr res)"
    "part_result frags packet (packet_key 0 md) k res" "only_part s i frags (Suc k) (packet_key 0 md) t" "ra_config s = ra_config (rv_reassembly_state r)"
    using next_part [OF Cons.prems(2,6,5,8,4) mp, of now] Cons.prems(12) by auto
  have d: "drop k frags = frags ! k # drop (Suc k) frags" using Cons.prems(6) by (simp add: Cons_nth_drop_Suc)
  show ?case
  proof (cases "Suc k = length frags")
    case True
    then have "ts = []" using Cons.prems(11) by (cases ts) auto
    moreover obtain r' where "accept_record r now (Some f) w (frag_record (frags ! k)) = Some (r', w', None)"
      "idle r' (expected(md_LaneID md := md_LaneSequence md + 1))" "rv_config r' = rv_config r"
      "ra_config (rv_reassembly_state r') = ra_config (rv_reassembly_state r)"
      using packet_completed [where k = k and f = f and w = w and w' = w', OF Cons.prems(1,3,5) True Cons.prems(7) a(1,2,4,3) Cons.prems(9,10)] by blast
    ultimately show ?thesis using d True by (intro exI [of _ r']) (simp del: fun_upd_apply)
  next
    case False
    let ?r = "r\<lparr>rv_reassembly_state := s\<rparr>"
    note st = part_stored [OF Cons.prems(1,3,5,6) False a(1,2,4)]
    have "\<exists>r'. receive_records (Some f) ?r w (zip ts (map frag_record (drop (Suc k) frags))) = Some (r', w', None) \<and>
        idle r' (expected(md_LaneID md := md_LaneSequence md + 1)) \<and> rv_config r' = rv_config ?r \<and>
        ra_config (rv_reassembly_state r') = ra_config (rv_reassembly_state ?r)"
      by (rule Cons.IH) (use st(2) a(3,4) Cons.prems False in simp_all)
    then show ?thesis using st(1) [of "Some f" w] d a(4) by (simp del: fun_upd_apply)
  qed
qed

lemma packet_through:
  assumes "idle r expected" and "rf_DataSessionID (rv_config r) = md_DataSessionID md" and "md_DataSessionID md \<noteq> 0"
    and "fragmentation packet md frags" and "expected (md_LaneID md) = md_LaneSequence md"
    and "int (length packet) \<le> rg_MaxPacketSize (ra_config (rv_reassembly_state r))"
    and "admissible (rv_config r) packet = Some d" and "f w d = (w', None)"
    and "length ts = length frags" and "\<forall>x\<in>set ts. t0 \<le> x \<and> x < t0 + rg_Lifetime (ra_config (rv_reassembly_state r))"
  shows "\<exists>r'. receive_records (Some f) r w (zip ts (map frag_record frags)) = Some (r', w', None) \<and>
    idle r' (expected(md_LaneID md := md_LaneSequence md + 1)) \<and> rv_config r' = rv_config r \<and>
    ra_config (rv_reassembly_state r') = ra_config (rv_reassembly_state r)"
proof -
  have track: "on_track r expected" and free: "\<forall>i < length (ra_slots (rv_reassembly_state r)). sl_state (ra_slots (rv_reassembly_state r) ! i) = slotFree"
    using assms(1) by (auto simp: idle_def on_track_def)
  have ok: "reasm_ok (rv_reassembly_state r)" using on_track_accounts [OF track] by (simp add: ps.accounts_def)
  have mp: "0 < rg_MaxPeers (ra_config (rv_reassembly_state r))" using on_track_peers [OF track] by simp
  obtain t ts' where ts: "ts = t # ts'" using assms(4,9) by (cases ts) (auto simp: fragmentation_def)
  have len: "0 < length frags" using assms(4) by (auto simp: fragmentation_def)
  obtain s i res where a: "Reassembler_Accept (rv_reassembly_state r) t (packet_key 0 md) (frag_record (frags ! 0)) = Some (s, Inr res)"
    "part_result frags packet (packet_key 0 md) 0 res" "only_part s i frags 1 (packet_key 0 md) t" "ra_config s = ra_config (rv_reassembly_state r)"
    using first_part [OF ok free assms(4,6,3) mp, of t] by blast
  have f0: "frags = frags ! 0 # drop 1 frags" using len by (metis Cons_nth_drop_Suc drop0 One_nat_def)
  show ?thesis
  proof (cases "length frags = 1")
    case True
    then have one: "Suc 0 = length frags" and "ts' = []" using assms(9) ts by simp_all
    moreover have "drop 1 frags = []" using True by simp
    then have "map frag_record frags = [frag_record (frags ! 0)]" using f0 by (metis list.map(1,2))
    moreover have o: "only_part s i frags (Suc 0) (packet_key 0 md) t" using a(3) by simp
    moreover obtain r' where "accept_record r t (Some f) w (frag_record (frags ! 0)) = Some (r', w', None)"
      "idle r' (expected(md_LaneID md := md_LaneSequence md + 1))" "rv_config r' = rv_config r"
      "ra_config (rv_reassembly_state r') = ra_config (rv_reassembly_state r)"
      using packet_completed [where k = 0 and f = f and w = w and w' = w', OF track assms(2,4) one assms(5) a(1,2,4) o assms(7,8)] by blast
    ultimately show ?thesis using ts by (intro exI [of _ r']) (simp del: fun_upd_apply)
  next
    case False
    then have ne: "Suc 0 \<noteq> length frags" "1 < length frags" using len by linarith+
    let ?r = "r\<lparr>rv_reassembly_state := s\<rparr>"
    note st = part_stored [OF track assms(2,4) len ne(1) a(1,2,4)]
    have "\<exists>r'. receive_records (Some f) ?r w (zip ts' (map frag_record (drop 1 frags))) = Some (r', w', None) \<and>
        idle r' (expected(md_LaneID md := md_LaneSequence md + 1)) \<and> rv_config r' = rv_config ?r \<and>
        ra_config (rv_reassembly_state r') = ra_config (rv_reassembly_state ?r)"
      by (rule rest_of_packet [where i = i and k = 1 and t = t])
        (use st(2) a(3,4) assms ne ts in \<open>auto intro: order_less_le_trans\<close>)
    moreover have "zip ts (map frag_record frags) = (t, frag_record (frags ! 0)) # zip ts' (map frag_record (drop 1 frags))"
      by (subst f0) (simp add: ts)
    ultimately show ?thesis using st(1) [of "Some f" w] a(4) by (simp del: fun_upd_apply)
  qed
qed


subsection \<open>A stream of packets\<close>

text \<open>
  \<open>stream_ok session expected xs\<close>: the packets of \<open>xs\<close>, each with its metadata, its data and its fragments, are
  numbered from \<open>expected\<close> on, lane by lane.
\<close>

fun stream_ok :: "u16 \<Rightarrow> (byte \<Rightarrow> u32) \<Rightarrow> (Metadata \<times> bytes \<times> Frag list) list \<Rightarrow> bool" where
  "stream_ok session expected [] \<longleftrightarrow> True"
| "stream_ok session expected ((md, packet, fs) # xs) \<longleftrightarrow>
     fragmentation packet md fs \<and> md_DataSessionID md = session \<and> md_LaneSequence md = expected (md_LaneID md) \<and>
     stream_ok session (expected(md_LaneID md := md_LaneSequence md + 1)) xs"

abbreviation stream_records :: "(Metadata \<times> bytes \<times> Frag list) list \<Rightarrow> Record list" where
  "stream_records xs \<equiv> concat (map (\<lambda>x. map frag_record (snd (snd x))) xs)"

lemma fragment_record_ok:
  assumes "fragmentation packet md fs" and "length packet \<le> 9612" and "md_DataSessionID md \<noteq> 0" and "f \<in> set fs"
  shows "record_ok (frag_record f)"
proof -
  obtain j where j: "j < length fs" "f = fs ! j" using assms(4) by (auto simp: in_set_conv_nth)
  let ?n = "length fs" let ?o = "length (concat (map fr_Data (take j fs)))"
  have h: "hd_FragmentIndex (fr_Header f) = of_nat j" "hd_FragmentCount (fr_Header f) = of_nat ?n"
    "hd_DataSessionID (fr_Header f) = md_DataSessionID md" "hd_Offset (fr_Header f) = of_nat ?o"
    and ne: "fr_Data f \<noteq> []" and n: "1 \<le> ?n" "?n \<le> 16"
    using assms(1) j by (auto simp: fragmentation_def)
  have o: "?o + length (fr_Data f) \<le> 9612" using fragmentation_offsets [OF assms(1) j(1)] assms(2) j(2) by simp
  moreover have "(1 :: byte) \<le> of_nat ?n" "of_nat ?n \<le> (16 :: byte)" "(of_nat j :: byte) < of_nat ?n"
    using n j(1) by (simp_all add: word_le_nat_alt word_less_nat_alt)
  moreover have "unat (of_nat ?o :: u16) = ?o" using o by (simp add: unsigned_of_nat take_bit_nat_eq_self)
  ultimately show ?thesis
    using h ne assms(3) by (simp add: Suc_le_eq record_ok_def frag_record_def validate_None maxUint16_def carrier_consts)
qed

lemma stream_records_ok:
  assumes "stream_ok session expected xs" and "session \<noteq> 0" and "\<forall>x\<in>set xs. length (fst (snd x)) \<le> 9612" and "rc \<in> set (stream_records xs)"
  shows "record_ok rc"
  using assms
proof (induction xs arbitrary: expected)
  case (Cons x xs)
  obtain md packet fs where x: "x = (md, packet, fs)" by (metis surj_pair)
  have "fragmentation packet md fs" "md_DataSessionID md \<noteq> 0" "length packet \<le> 9612" using Cons.prems(1-3) x by auto
  moreover have "stream_ok session (expected(md_LaneID md := md_LaneSequence md + 1)) xs"
    using Cons.prems(1) unfolding x stream_ok.simps by blast
  ultimately show ?case using Cons.IH Cons.prems(2-4) x fragment_record_ok by fastforce
qed simp

definition collect :: "(bytes list, unit) inner_sink" where
  "collect w packet = (w @ [packet], None)"

lemma split_map_snd: "map snd zs = xs @ ys \<Longrightarrow> \<exists>as bs. zs = as @ bs \<and> map snd as = xs \<and> map snd bs = ys"
  by (auto simp: map_eq_append_conv)

lemma stream_through:
  assumes "idle r expected" and "stream_ok session expected xs" and "rf_DataSessionID (rv_config r) = session" and "session \<noteq> 0"
    and "\<forall>x\<in>set xs. int (length (fst (snd x))) \<le> rg_MaxPacketSize (ra_config (rv_reassembly_state r)) \<and>
      admissible (rv_config r) (fst (snd x)) = Some (fst (snd x))"
    and "map snd zs = stream_records xs" and "\<forall>z\<in>set zs. t0 \<le> fst z \<and> fst z < t0 + rg_Lifetime (ra_config (rv_reassembly_state r))"
  shows "\<exists>r'. receive_records (Some collect) r w zs = Some (r', w @ map (\<lambda>x. fst (snd x)) xs, None)"
  using assms
proof (induction xs arbitrary: r expected zs w)
  case Nil
  then show ?case by simp
next
  case (Cons x xs)
  obtain md packet fs where x: "x = (md, packet, fs)" by (metis surj_pair)
  obtain as bs where zs: "zs = as @ bs" "map snd as = map frag_record fs" "map snd bs = stream_records xs"
    using split_map_snd [of zs "map frag_record fs"] Cons.prems(6) x by auto
  have as: "zip (map fst as) (map frag_record fs) = as" by (simp add: zs(2) [symmetric] zip_map_fst_snd)
  have len: "length (map fst as) = length fs" using zs(2) by (metis length_map)
  obtain r1 where r1: "receive_records (Some collect) r w as = Some (r1, w @ [packet], None)"
    "idle r1 (expected(md_LaneID md := md_LaneSequence md + 1))" "rv_config r1 = rv_config r"
    "ra_config (rv_reassembly_state r1) = ra_config (rv_reassembly_state r)"
    using packet_through [OF Cons.prems(1), of md packet fs packet collect w "w @ [packet]" "map fst as" t0] Cons.prems x zs as len
    by (auto simp: collect_def)
  have st: "stream_ok session (expected(md_LaneID md := md_LaneSequence md + 1)) xs" using Cons.prems(2) unfolding x stream_ok.simps by blast
  have "\<exists>r'. receive_records (Some collect) r1 (w @ [packet]) bs = Some (r', (w @ [packet]) @ map (\<lambda>x. fst (snd x)) xs, None)"
    by (rule Cons.IH [OF r1(2) st]) (use Cons.prems(3-5,7) r1(3,4) zs in auto)
  then show ?case using r1(1) x by (auto simp: zs(1) receive_records_append)
qed

subsection \<open>The sender's side\<close>

text \<open>A batch of packets, each with the two clock readings of its \<^verbatim>\<open>Add\<close>, and the \<^verbatim>\<open>Flush\<close> that ends it.\<close>

fun send_batch ::
    "('seed \<Rightarrow> bytes \<Rightarrow> u64) \<Rightarrow> ('seed, 'w, 'e) Sender \<Rightarrow> 'w \<Rightarrow> (gotime \<times> gotime \<times> bytes) list \<Rightarrow>
     ('seed, 'w, 'e) Sender \<times> 'w \<times> 'e sender_error option" where
  "send_batch sum64 s w [] = Sender_Flush s w"
| "send_batch sum64 s w ((now, later, packet) # rest) =
     (case Sender_Add sum64 s now later w packet of
        (s1, w1, Some err) \<Rightarrow> (s1, w1, Some err)
      | (s1, w1, None) \<Rightarrow> send_batch sum64 s1 w1 rest)"

lemma collect_payload_all:
  "sd_payloadSink s = Some collect_payload \<Longrightarrow>
   emit_all (sender_emit s) (outer, w) bs = ((outer, w @ map (Pair (sc_PeerID (sd_config s))) bs), None)"
  by (induction bs arbitrary: w) (simp_all add: sender_emit_def EmitCarrier_def collect_payload_def)


text \<open>A batch sent without error: what was emitted is the encoding of the stream of the packets' fragments.\<close>

definition packet_data :: "gotime \<times> gotime \<times> bytes \<Rightarrow> bytes" where
  "packet_data b = ip_Data (projr (innerip_Parse (snd (snd b))))"

lemma admit_size: "admit config packet = Inr parsed \<Longrightarrow> int (length (ip_Data parsed)) \<le> sc_RemotePeerMTU config"
  by (auto simp: admit_def split: sum.splits if_splits)

lemma Sender_Add_sinks:
  "Sender_Add sum64 s now later w packet = (s', w', res) \<Longrightarrow> sd_payloadSink s' = sd_payloadSink s"
  by (auto simp: Sender_Add_def Let_def split: sum.splits if_splits prod.splits option.splits)

lemma send_batch_stream:
  fixes s :: "('seed, (RoutePeer \<times> bytes) list, unit) Sender"
  assumes "sender_ok s rs" and "sd_payloadSink s = Some collect_payload" and "send_batch sum64 s w batch = (s', w', None)"
  shows "\<exists>gs xs. w' = w @ map (\<lambda>g. (sc_PeerID (sd_config s), encode_records g)) gs \<and> [] \<notin> set gs \<and>
    concat gs = rs @ stream_records xs \<and>
    stream_ok (sc_DataSessionID (sd_config s)) (\<lambda>l. sd_sequences s ! unat l) xs \<and>
    map (\<lambda>x. fst (snd x)) xs = map packet_data batch \<and>
    (\<forall>b\<in>set batch. \<exists>parsed. innerip_Parse (snd (snd b)) = Inr parsed \<and> int (length (ip_Data parsed)) \<le> sc_RemotePeerMTU (sd_config s))"
  using assms
proof (induction batch arbitrary: s rs w)
  case Nil
  have pk: "packs (sd_packetizer s) rs" "pz_emitter (sd_packetizer s) = Some (sender_emit s)" using Nil.prems(1) by (auto simp: sender_ok_def)
  have "w' = w @ map (\<lambda>g. (sc_PeerID (sd_config s), encode_records g)) (if rs = [] then [] else [rs])"
    using Nil.prems(2,3) Flush_packs [OF pk(1)] pk(2)
    by (auto simp: Sender_Flush_def sender_emit_def EmitCarrier_def collect_payload_def)
  then show ?case by (intro exI [of _ "if rs = [] then [] else [rs]"] exI [of _ "[]"]) auto
next
  case (Cons b batch)
  obtain now later packet where b: "b = (now, later, packet)" by (metis surj_pair)
  obtain s1 w1 where add: "Sender_Add sum64 s now later w packet = (s1, w1, None)"
    and rest: "send_batch sum64 s1 w1 batch = (s', w', None)"
    using Cons.prems(3) b by (auto split: prod.splits option.splits)
  obtain parsed l fs gs rs' where o: "admit (sd_config s) packet = (Inr parsed :: unit sender_error + InnerPacket)"
    "fragmentation (ip_Data parsed) (packet_metadata s l) fs" "numbered s later l s1" "[] \<notin> set gs"
    "concat gs @ rs' = rs @ map frag_record fs" "sender_ok s1 rs'"
    "emit_all (sender_emit s) (sd_outer s, w) (map encode_records gs) = ((sd_outer s1, w1), None)"
    using Sender_Add_outcome [OF Cons.prems(1) add] by (auto simp: sender_outcome_def)
  let ?md = "packet_metadata s l" let ?peer = "sc_PeerID (sd_config s)"
  have cfg: "sd_config s1 = sd_config s" using o(3) by (simp add: numbered_def)
  have w1: "w1 = w @ map (\<lambda>g. (?peer, encode_records g)) gs"
    using o(7) collect_payload_all [OF Cons.prems(2), of "sd_outer s" w "map encode_records gs"] by (simp add: o_def)
  have sink: "sd_payloadSink s1 = Some collect_payload" using Cons.prems(2) Sender_Add_sinks [OF add] by simp
  obtain hs xs where IH: "w' = w1 @ map (\<lambda>g. (?peer, encode_records g)) hs" "[] \<notin> set hs" "concat hs = rs' @ stream_records xs"
    "stream_ok (sc_DataSessionID (sd_config s)) (\<lambda>l. sd_sequences s1 ! unat l) xs" "map (\<lambda>x. fst (snd x)) xs = map packet_data batch"
    "\<forall>b\<in>set batch. \<exists>parsed. innerip_Parse (snd (snd b)) = Inr parsed \<and> int (length (ip_Data parsed)) \<le> sc_RemotePeerMTU (sd_config s)"
    using Cons.IH [OF o(6) sink rest] cfg by auto
  have ne: "unat l = unat m \<longleftrightarrow> m = l" for m by (metis word_unat_eq_iff)
  have "length (sd_sequences s) = Lanes" using Cons.prems(1) by (simp add: sender_ok_def)
  then have seqs: "(\<lambda>l. sd_sequences s1 ! unat l) = (\<lambda>l. sd_sequences s ! unat l)(l := sd_sequences s ! unat l + 1)"
    using o(3) lane_index [of l] ne by (auto simp: numbered_def fun_eq_iff nth_list_update)
  have "stream_ok (sc_DataSessionID (sd_config s)) (\<lambda>l. sd_sequences s ! unat l) ((?md, ip_Data parsed, fs) # xs)"
    using o(2) IH(4) unfolding seqs stream_ok.simps by (simp add: packet_metadata_def del: fun_upd_apply)
  moreover have "concat (gs @ hs) = rs @ stream_records ((?md, ip_Data parsed, fs) # xs)"
  proof -
    have "concat (gs @ hs) = (concat gs @ rs') @ stream_records xs" by (simp add: IH(3))
    then show ?thesis unfolding o(5) by simp
  qed
  ultimately show ?case
    using IH(1,2,5,6) o(4) w1 b admit_parse [OF o(1)] admit_size [OF o(1)]
    by (intro exI [of _ "gs @ hs"] exI [of _ "(?md, ip_Data parsed, fs) # xs"]) (auto simp: packet_data_def)
qed

subsection \<open>The receiver's side\<close>

text \<open>The payloads of a batch, each with the time of its arrival.\<close>

fun receive_batch ::
    "('w, 'e) inner_sink option \<Rightarrow> Receiver \<Rightarrow> 'w \<Rightarrow> (gotime \<times> bytes) list \<Rightarrow> (Receiver \<times> 'w \<times> 'e receiver_error option) option" where
  "receive_batch sink r w [] = Some (r, w, None)"
| "receive_batch sink r w ((now, payload) # rest) =
     (case AcceptPayload r now payload sink w of
        None \<Rightarrow> None
      | Some (r1, w1, Some err) \<Rightarrow> Some (r1, w1, Some err)
      | Some (r1, w1, None) \<Rightarrow> receive_batch sink r1 w1 rest)"

lemma receive_batch_records:
  assumes "length ts = length gs" and "[] \<notin> set gs" and "\<forall>g\<in>set gs. \<forall>rec\<in>set g. record_ok rec"
  shows "receive_batch sink r w (zip ts (map encode_records gs)) =
    receive_records sink r w (concat (map (\<lambda>(t, g). map (Pair t) g) (zip ts gs)))"
  using assms
proof (induction ts gs arbitrary: r w rule: list_induct2)
  case (Cons t ts g gs)
  then show ?case
    using acceptPayload_records [of g r t sink w]
    by (cases "receive_records sink r w (map (Pair t) g)")
      (auto simp: AcceptPayload_def receive_records_append split: option.splits)
qed simp

lemma timed_records:
  assumes "length ts = length gs"
  shows "map snd (concat (map (\<lambda>(t, g). map (Pair t) g) (zip ts gs))) = concat gs"
    and "z \<in> set (concat (map (\<lambda>(t, g). map (Pair t) g) (zip ts gs))) \<Longrightarrow> fst z \<in> set ts"
proof -
  show "map snd (concat (map (\<lambda>(t, g). map (Pair t) g) (zip ts gs))) = concat gs"
    using assms by (induction ts gs rule: list_induct2) (simp_all add: o_def)
  show "z \<in> set (concat (map (\<lambda>(t, g). map (Pair t) g) (zip ts gs))) \<Longrightarrow> fst z \<in> set ts"
    by (auto dest: set_zip_leftD)
qed

lemma new_receiver_idle:
  assumes "newConfiguredReceiver config payloadOnly = (Inr r :: 'e receiver_error + Receiver)" and "rf_Slots config < 2 ^ 32"
  shows "idle r (\<lambda>_. 0)" and "rf_DataSessionID (rv_config r) = rf_DataSessionID config"
    and "rf_AllowedIPs (rv_config r) = rf_AllowedIPs config" and "rf_PeerID (rv_config r) = rf_PeerID config"
    and "rg_MaxPacketSize (ra_config (rv_reassembly_state r)) = rf_MaxPacketSize config"
    and "rg_Lifetime (ra_config (rv_reassembly_state r)) = rf_Lifetime config"
proof -
  note parts = new_receiver_parts [OF assms(1)] new_receiver_lanes [OF assms(1)]
  note ra = new_reassembler_parts [OF parts(1)]
  have "unat (l :: byte) < 256" for l using lane_index [of l] by (simp add: Lanes_def)
  then show "idle r (\<lambda>_. 0)" using new_receiver_ok [OF assms] ra(3) parts(12,13) by (simp add: idle_def)
  show "rf_DataSessionID (rv_config r) = rf_DataSessionID config" "rf_AllowedIPs (rv_config r) = rf_AllowedIPs config"
    "rf_PeerID (rv_config r) = rf_PeerID config" "rg_MaxPacketSize (ra_config (rv_reassembly_state r)) = rf_MaxPacketSize config"
    "rg_Lifetime (ra_config (rv_reassembly_state r)) = rf_Lifetime config"
    using parts(3) ra(1) by (simp_all add: reassembly_config_def)
qed


subsection \<open>The composition\<close>

text \<open>The bytes the sender keeps of an admitted packet are a complete datagram: the receiver parses them to the same result.\<close>

lemma subslice_take [simp]: "j \<le> n \<Longrightarrow> subslice i j (take n xs) = subslice i j xs"
  by (simp add: subslice_def drop_take min_def)

lemma Parse_exact: "innerip_Parse packet = Inr p \<Longrightarrow> ParseExact (ip_Data p) = Inr p"
proof -
  assume p: "innerip_Parse packet = Inr p"
  then have "innerip_Parse (ip_Data p) = Inr p"
  proof (cases "ip_Data p = packet")
    case False
    with p show ?thesis unfolding innerip_Parse_Inr ipv4Fragmented_False by auto
  qed simp
  then show ?thesis by (simp add: ParseExact_def)
qed

lemma Parse_admissible:
  assumes "innerip_Parse packet = Inr p" and "ValidateSource (rf_AllowedIPs config) (rf_PeerID config) (ip_Source p)"
  shows "admissible config (ip_Data p) = Some (ip_Data p)"
  using assms by (simp add: admissible_def Parse_exact)

text \<open>
  C1.  End to end.  A new payload sender is given any batch of packets and a flush, and accepts all of them; a
  new receiver for the same session, whose maximal packet size covers the sender's MTU and whose routes
  own the packets' sources, gets the emitted payloads in order within one reassembly lifetime.  Then the
  receiver's sink gets exactly the packets of the batch, each cut to its IP length, in order and without an
  error: fragmentation, lane numbering, packing, parsing, reassembly, reordering and source validation
  compose to the identity.
\<close>

theorem end_to_end:
  fixes s :: "('seed, (RoutePeer \<times> bytes) list, unit) Sender"
  assumes "NewPayloadSender sconfig (Some collect_payload) = Inr s" and "arrays_ok sconfig" and "sc_InitialSequences sconfig = None"
    and "NewPayloadReceiver rconfig = (Inr r :: unit receiver_error + Receiver)" and "rf_Slots rconfig < 2 ^ 32"
    and "rf_DataSessionID rconfig = sc_DataSessionID sconfig" and "sc_RemotePeerMTU sconfig \<le> rf_MaxPacketSize rconfig"
    and "send_batch sum64 s [] batch = (s', payloads, None)"
    and "\<forall>b\<in>set batch. ValidateSource (rf_AllowedIPs rconfig) (rf_PeerID rconfig) (ip_Source (projr (innerip_Parse (snd (snd b)))))"
    and "length ts = length payloads" and "\<forall>t\<in>set ts. t0 \<le> t \<and> t < t0 + rf_Lifetime rconfig"
  shows "\<exists>r'. receive_batch (Some collect) r [] (zip ts (map snd payloads)) = Some (r', map packet_data batch, None)"
proof -
  note new = newSender_ok [OF assms(1) [unfolded NewPayloadSender_def] assms(2)]
  note rec = new_receiver_idle [OF assms(4) [unfolded NewPayloadReceiver_def] assms(5)]
  have seq: "(\<lambda>l :: byte. sd_sequences s ! unat l) = (\<lambda>_. 0)" using new(5) assms(3) lane_index by (auto simp: fun_eq_iff)
  have mtu: "sc_RemotePeerMTU sconfig \<le> 9612" and session: "sc_DataSessionID sconfig \<noteq> 0"
    using assms(1) by (auto simp: NewPayloadSender_def newSender_def ValidateInnerMTU_def MaxInnerMTU_def split: if_splits)
  obtain gs xs where st: "payloads = map (\<lambda>g. (sc_PeerID sconfig, encode_records g)) gs" "[] \<notin> set gs" "concat gs = stream_records xs"
    "stream_ok (sc_DataSessionID sconfig) (\<lambda>_. 0) xs" "map (\<lambda>x. fst (snd x)) xs = map packet_data batch"
    "\<forall>b\<in>set batch. \<exists>parsed. innerip_Parse (snd (snd b)) = Inr parsed \<and> int (length (ip_Data parsed)) \<le> sc_RemotePeerMTU sconfig"
    using send_batch_stream [OF new(1) new(3) assms(8)] unfolding new(2) seq by auto
  have data: "int (length d) \<le> sc_RemotePeerMTU sconfig \<and> admissible (rv_config r) d = Some d" if "d \<in> set (map packet_data batch)" for d
    using that st(6) assms(9) rec(3,4) Parse_admissible [of _ _ "rv_config r"] by (fastforce simp: packet_data_def)
  have d: "int (length (fst (snd x))) \<le> sc_RemotePeerMTU sconfig \<and> admissible (rv_config r) (fst (snd x)) = Some (fst (snd x))" if "x \<in> set xs" for x
    by (rule data) (use that st(5) in \<open>metis imageI list.set_map\<close>)
  have "record_ok rc" if "rc \<in> set (stream_records xs)" for rc
    using stream_records_ok [OF st(4) session _ that] d mtu by fastforce
  then have ok: "\<forall>g\<in>set gs. \<forall>rc\<in>set g. record_ok rc" using st(3) by (metis UN_I set_concat)
  have len: "length ts = length gs" using assms(10) st(1) by simp
  let ?zs = "concat (map (\<lambda>(t, g). map (Pair t) g) (zip ts gs))"
  have "\<exists>r'. receive_records (Some collect) r [] ?zs = Some (r', [] @ map (\<lambda>x. fst (snd x)) xs, None)"
  proof (rule stream_through [OF rec(1) st(4)])
    show "rf_DataSessionID (rv_config r) = sc_DataSessionID sconfig" using rec(2) assms(6) by simp
    show "map snd ?zs = stream_records xs" using timed_records(1) [OF len] st(3) by simp
    show "\<forall>z\<in>set ?zs. t0 \<le> fst z \<and> fst z < t0 + rg_Lifetime (ra_config (rv_reassembly_state r))"
      using timed_records(2) [OF len] assms(11) unfolding rec(6) by blast
    show "\<forall>x\<in>set xs. int (length (fst (snd x))) \<le> rg_MaxPacketSize (ra_config (rv_reassembly_state r)) \<and>
        admissible (rv_config r) (fst (snd x)) = Some (fst (snd x))"
      using d assms(7) rec(5) by fastforce
  qed (rule session)
  then show ?thesis
    using receive_batch_records [OF len st(2) ok, of "Some collect" r "[]"] st(1,5) by (simp add: o_def)
qed

text \<open>Two packets, the second longer than a carrier, and a receiver with two slots.\<close>

definition long_inner :: bytes where
  "long_inner = [0x45, 0, 0, 68, 0, 0, 0, 0, 64, 17, 0, 0, 10, 0, 0, 1, 10, 0, 0, 2] @ replicate 48 6"

definition pair_batch :: "(gotime \<times> gotime \<times> bytes) list" where
  "pair_batch = [(1, 1, sample_inner), (2, 2, long_inner)]"

definition fresh_sender_config :: "unit SenderConfig" where
  "fresh_sender_config = sample_sender_config\<lparr>sc_CarrierPayload := 60, sc_InitialSequences := None\<rparr>"

definition fresh_sender :: "(unit, (RoutePeer \<times> bytes) list, unit) Sender" where
  "fresh_sender = projr (NewPayloadSender fresh_sender_config (Some collect_payload))"

definition sample_receiver_config :: ReceiverConfig where
  "sample_receiver_config =
     \<lparr>rf_PeerID = 2, rf_DataSessionID = 9, rf_CarrierSource = AddrInvalid, rf_CarrierDest = AddrInvalid,
      rf_AllowedIPs = Some sample_snapshot, rf_Slots = 2, rf_PerPeerSlots = 2, rf_MaxPacketSize = 1500, rf_Lifetime = 100,
      rf_ReorderEnabled = True, rf_ReorderCapacity = 2, rf_ReorderBudget = 0, rf_ReorderMaxDelay = 10\<rparr>"

definition sample_receiver :: Receiver where
  "sample_receiver = projr (NewPayloadReceiver sample_receiver_config :: unit receiver_error + Receiver)"

lemma new_lanes_total:
  "(\<And>l. \<not> isl (NewReorderer (lane_config config l))) \<Longrightarrow> \<not> isl (new_lanes config ls :: 'e receiver_error + Reorderer list)"
  by (induction ls) (auto split: sum.splits simp: isl_def)

lemma sample_receiver_new: "NewPayloadReceiver sample_receiver_config = (Inr sample_receiver :: unit receiver_error + Receiver)"
proof -
  let ?config = "sample_receiver_config\<lparr>rf_ReorderBudget := 1\<rparr>"
  have lanes: "\<not> isl (new_lanes ?config ls :: unit receiver_error + Reorderer list)" for ls
    by (rule new_lanes_total) (simp add: NewReorderer_def lane_config_def sample_receiver_config_def halfSequenceSpace_def Let_def)
  have "\<not> isl (keyIndexSize 2)" by code_simp
  then have "\<not> isl (NewReassembler \<lparr>rg_Slots = 2, rg_MaxPacketSize = 1500, rg_MaxPeers = 1, rg_PerPeerSlots = 2, rg_Lifetime = 100\<rparr>)"
    by (auto simp: NewReassembler_def maxInt_def Let_def split: sum.splits)
  with lanes [of "[0..<256]"] have "\<not> isl (NewPayloadReceiver sample_receiver_config :: unit receiver_error + Receiver)"
    by (auto simp: NewPayloadReceiver_def newConfiguredReceiver_def sample_receiver_config_def limits_defs Let_def split: sum.splits)
  then show ?thesis by (simp add: sample_receiver_def)
qed

theorem end_to_end_witness:
  "\<exists>s' payloads r'. send_batch (\<lambda>_ _. 0) fresh_sender [] pair_batch = (s', payloads, None) \<and> length payloads = 3 \<and>
     receive_batch (Some collect) sample_receiver [] (zip [50, 60, 70] (map snd payloads)) = Some (r', [sample_inner, long_inner], None)"
proof -
  have new: "NewPayloadSender fresh_sender_config (Some collect_payload) = Inr fresh_sender"
    by (simp add: fresh_sender_def fresh_sender_config_def NewPayloadSender_def newSender_def sample_sender_config_def Packetizer_Init_def
        ValidateInnerMTU_def limits_defs carrier_consts)
  have cfg: "arrays_ok fresh_sender_config" "sc_InitialSequences fresh_sender_config = None" "rf_Slots sample_receiver_config < 2 ^ 32"
    "rf_DataSessionID sample_receiver_config = sc_DataSessionID fresh_sender_config"
    "sc_RemotePeerMTU fresh_sender_config \<le> rf_MaxPacketSize sample_receiver_config" "rf_Lifetime sample_receiver_config = 100"
    by (simp_all add: arrays_ok_def fresh_sender_config_def sample_sender_config_def sample_receiver_config_def)
  obtain s' payloads res where out: "send_batch (\<lambda>_ _. 0) fresh_sender [] pair_batch = (s', payloads, res)" by (metis prod_cases3)
  have "case send_batch (\<lambda>_ _. 0) fresh_sender [] pair_batch of (s', w, res) \<Rightarrow> Option.is_none res \<and> length w = 3" by code_simp
  then have r: "res = None" "length payloads = 3" by (simp_all add: out Option.is_none_def split: option.splits)
  have v: "\<forall>b\<in>set pair_batch. ValidateSource (rf_AllowedIPs sample_receiver_config) (rf_PeerID sample_receiver_config)
      (ip_Source (projr (innerip_Parse (snd (snd b)))))" by code_simp
  have data: "map packet_data pair_batch = [sample_inner, long_inner]" by code_simp
  have len: "length [50, 60, 70 :: gotime] = length payloads" using r(2) by simp
  show ?thesis
    using end_to_end [OF new cfg(1,2) sample_receiver_new cfg(3-5) out [unfolded r(1)] v len, of 0] out r data cfg(6) by simp
qed

end
