(* ===== verification/ReceiverRun.thy ===== *)
theory ReceiverRun
  imports EndToEnd
begin

text \<open>
  Runs of a receiver: every sequence of calls its owner can make, from a new receiver on.
\<close>

datatype receiver_op =
    RPayload gotime bytes
  | RCarrier gotime bytes
  | RExpire gotime
  | RTickReorder gotime
  | RTick gotime
  | RSetAllowedIPs "Snapshot option"
  | RTakeUnknownSession

definition receiver_exec ::
    "('w, 'e) inner_sink option \<Rightarrow> Receiver \<Rightarrow> 'w \<Rightarrow> receiver_op \<Rightarrow> (Receiver \<times> 'w \<times> 'e receiver_error option) option" where
  "receiver_exec sink r w op =
     (case op of
        RPayload now payload \<Rightarrow> AcceptPayload r now payload sink w
      | RCarrier now outer \<Rightarrow> AcceptCarrier r now outer sink w
      | RExpire now \<Rightarrow> map_option (\<lambda>(r', _). (r', w, None)) (ExpireReassembly r now)
      | RTickReorder now \<Rightarrow> TickReorder r now sink w
      | RTick now \<Rightarrow> map_option (\<lambda>(r', w', _, err). (r', w', err)) (Receiver_Tick r now sink w)
      | RSetAllowedIPs ips \<Rightarrow> Some (Receiver_SetAllowedIPs r ips, w, None)
      | RTakeUnknownSession \<Rightarrow> Some (fst (TakeUnknownSession r), w, None))"

text \<open>Carriers are only given to a receiver whose two addresses can be put into an envelope.\<close>

definition op_allowed :: "ReceiverConfig \<Rightarrow> receiver_op \<Rightarrow> bool" where
  "op_allowed config op \<longleftrightarrow>
     (case op of
        RCarrier _ _ \<Rightarrow> validateCarrierAddress (rf_CarrierSource config) = None \<and> validateCarrierAddress (rf_CarrierDest config) = None
      | _ \<Rightarrow> True)"

inductive receiver_reachable :: "ReceiverConfig \<Rightarrow> ('w, 'e) inner_sink option \<Rightarrow> Receiver \<Rightarrow> 'w \<Rightarrow> bool" for config sink where
  new: "newConfiguredReceiver config payloadOnly = (Inr r :: 'e receiver_error + Receiver) \<Longrightarrow> receiver_reachable config sink r w"
| step: "receiver_reachable config sink r w \<Longrightarrow> op_allowed config op \<Longrightarrow> receiver_exec sink r w op = Some (r', w', err) \<Longrightarrow>
    receiver_reachable config sink r' w'"

text \<open>What stays of the configuration: everything but the routes.\<close>

definition configured :: "ReceiverConfig \<Rightarrow> Receiver \<Rightarrow> bool" where
  "configured config r \<longleftrightarrow>
     (\<exists>ips. rv_config r = (effective_config config)\<lparr>rf_AllowedIPs := ips\<rparr>) \<and> rv_reorderBudget r = rf_ReorderBudget (effective_config config)"

lemma configured_unchanged: "configured config r \<Longrightarrow> unchanged r r' \<Longrightarrow> configured config r'"
  by (simp add: configured_def unchanged_def)

lemma ParseEnvelope_addresses:
  "validateCarrierAddress src = None \<Longrightarrow> validateCarrierAddress dst = None \<Longrightarrow> ParseEnvelope outer src dst \<noteq> Inl ErrCarrierAddress"
  by (auto simp: ParseEnvelope_def DecodeEnvelope_def Let_def split: if_splits option.splits sum.splits)

lemma SetAllowedIPs_ok: "receiver_ok r \<Longrightarrow> receiver_ok (Receiver_SetAllowedIPs r ips)"
  by (auto simp: receiver_ok_def receiver_inv_def queues_ok_def within_budget_def lane_ok_def lane_config_def Receiver_SetAllowedIPs_def)

lemma TakeUnknown_ok: "receiver_ok r \<Longrightarrow> receiver_ok (r\<lparr>rv_unknownSession := 0\<rparr>)"
  by (auto simp: receiver_ok_def receiver_inv_def queues_ok_def within_budget_def)

lemma Receiver_Tick_step:
  assumes "receiver_ok r"
  shows "step_ok r sink w (map_option (\<lambda>(r', w', _, err). (r', w', err)) (Receiver_Tick r now sink w))"
proof -
  obtain r1 n where r1: "ExpireReassembly r now = Some (r1, n)" "receiver_ok r1" "unchanged r r1"
    using ExpireReassembly_ok [OF assms] by blast
  then show ?thesis
    using TickReorder_step [OF r1(2), of sink w now] by (auto simp: Receiver_Tick_def step_ok_def unchanged_def)
qed

lemma receiver_exec_ok:
  assumes "receiver_ok r" and "configured config r" and "op_allowed config op"
  shows "\<exists>r' w' err. receiver_exec sink r w op = Some (r', w', err) \<and> receiver_ok r' \<and> configured config r' \<and> delivers (rv_config r) sink w w' err"
proof -
  have step: ?thesis if "step_ok r sink w (receiver_exec sink r w op)"
    using that configured_unchanged [OF assms(2)] by (auto simp: step_ok_def)
  show ?thesis
  proof (cases op)
    case (RCarrier now outer)
    have "rf_CarrierSource (rv_config r) = rf_CarrierSource config" "rf_CarrierDest (rv_config r) = rf_CarrierDest config"
      using assms(2) by (auto simp: configured_def effective_config_def)
    then show ?thesis
      using AcceptCarrier_step [OF assms(1) ParseEnvelope_addresses] assms(3) RCarrier
      by (intro step) (simp add: op_allowed_def receiver_exec_def)
  next
    case (RExpire now)
    then show ?thesis
      using ExpireReassembly_ok [OF assms(1), of now]
      by (intro step) (auto simp: receiver_exec_def step_ok_def intro!: delivers_nothing)
  next
    case (RSetAllowedIPs ips)
    then show ?thesis
      using SetAllowedIPs_ok [OF assms(1), of ips] assms(2)
      by (auto simp: receiver_exec_def configured_def Receiver_SetAllowedIPs_def intro!: delivers_nothing)
  next
    case RTakeUnknownSession
    then show ?thesis
      using TakeUnknown_ok [OF assms(1)] assms(2)
      by (auto simp: receiver_exec_def configured_def TakeUnknownSession_def intro!: delivers_nothing)
  next
    case (RPayload now payload)
    then show ?thesis using acceptPayload_step [OF assms(1)] by (intro step) (simp add: receiver_exec_def AcceptPayload_def)
  next
    case (RTickReorder now)
    then show ?thesis using TickReorder_step [OF assms(1)] by (intro step) (simp add: receiver_exec_def)
  next
    case (RTick now)
    then show ?thesis using Receiver_Tick_step [OF assms(1)] by (intro step) (simp add: receiver_exec_def)
  qed
qed

lemma receiver_reachable_ok:
  assumes "receiver_reachable config sink r w" and "rf_Slots config < 2 ^ 32"
  shows "receiver_ok r \<and> configured config r"
  using assms
proof (induction rule: receiver_reachable.induct)
  case (new payloadOnly r w)
  have "rv_config r = (effective_config config)\<lparr>rf_AllowedIPs := rf_AllowedIPs config\<rparr>"
    using new_receiver_parts(3) [OF new(1)] by (simp add: effective_config_def)
  then show ?case
    using new_receiver_ok [OF new] new_receiver_parts(5) [OF new(1)] by (auto simp: configured_def)
next
  case (step r w op r' w' err)
  then show ?case using receiver_exec_ok [of r config op sink w] by auto
qed

lemma reachable_config:
  fixes sink :: "('w, 'e) inner_sink option"
  assumes "receiver_reachable config sink r w"
  shows "\<exists>payloadOnly r0. newConfiguredReceiver config payloadOnly = (Inr r0 :: 'e receiver_error + Receiver)"
  using assms by (induction rule: receiver_reachable.induct) auto

text \<open>
  C6.  The receiver is safe in every reachable state.  After any sequence of calls on a new receiver (payloads and
  carriers with arbitrary contents, timers, route changes), the next call returns without panic; what it
  hands to the sink are only packets that parse exactly and whose source the peer owns; and it returns an
  error of the sink, or the rejection of a carrier, and never one of the internal accounting errors.  No
  slot leaks: the completed slots are exactly those of the packets in the queues of the lanes, one slot per
  packet, and each slot still holds its packet; \<^verbatim>\<open>reorderHeld\<close> is the number of these packets, and with
  reordering enabled it stays within the budget, which is below the number of slots.
\<close>

theorem receiver_safe:
  fixes sink :: "('w, 'e) inner_sink option"
  assumes "receiver_reachable config sink r w" and "rf_Slots config < 2 ^ 32" and "op_allowed config op"
  shows "(\<exists>r' w' err. receiver_exec sink r w op = Some (r', w', err) \<and> delivers (rv_config r) sink w w' err) \<and>
    completed_slots (rv_reassembly_state r) = slot_of ` set (concat (map held (rv_reorders r))) \<and>
    distinct (map slot_of (concat (map held (rv_reorders r)))) \<and>
    (\<forall>p\<in>set (concat (map held (rv_reorders r))). holds_packet (rv_reassembly_state r) p) \<and>
    rv_reorderHeld r = int (length (concat (map held (rv_reorders r)))) \<and>
    (rf_ReorderEnabled config \<longrightarrow> rv_reorderHeld r \<le> rv_reorderBudget r \<and> rv_reorderBudget r < rf_Slots config) \<and>
    (\<not> rf_ReorderEnabled config \<longrightarrow> completed_slots (rv_reassembly_state r) = {})"
proof -
  note ok = receiver_reachable_ok [OF assms(1,2)]
  obtain payloadOnly r0 where new: "newConfiguredReceiver config payloadOnly = (Inr r0 :: 'e receiver_error + Receiver)"
    using reachable_config [OF assms(1)] by blast
  have budget: "rf_ReorderEnabled config \<Longrightarrow> rv_reorderBudget r < rf_Slots config"
    using ok new_receiver_parts(10) [OF new] by (simp add: configured_def)
  have enabled: "rf_ReorderEnabled (rv_config r) = rf_ReorderEnabled config" using ok by (auto simp: configured_def)
  have acc: "ps.accounts (rv_reassembly_state r) (waiting_packets (rv_reorders r))"
    and held: "rv_reorderHeld r = int (length (waiting_packets (rv_reorders r)))"
    using ok by (simp_all add: receiver_ok_def receiver_inv_def queues_ok_def)
  have "waiting_packets (rv_reorders r) = []" if "\<not> rf_ReorderEnabled config"
    using ok that enabled held_disabled
    by (auto simp: receiver_ok_def receiver_inv_def queues_ok_def lane_ok_def waiting_packets_def in_set_conv_nth)
  then have "completed_slots (rv_reassembly_state r) = {}" if "\<not> rf_ReorderEnabled config"
    using acc that by (simp add: ps.accounts_def)
  moreover have "rv_reorderHeld r \<le> rv_reorderBudget r" if "rf_ReorderEnabled config"
    using ok that enabled by (simp add: receiver_ok_def within_budget_def)
  ultimately show ?thesis
    using receiver_exec_ok [of r config op sink w] ok assms(3) held acc budget by (auto simp: ps.accounts_def waiting_packets_def)
qed

text \<open>A receiver that holds the second packet of a lane back: its slot is the only completed one, also while a tick comes early.\<close>

lemma accept_waits:
  assumes "receiver_inv r [p]" and "waiting_packets (rv_reorders r) = []" and "of_receiver r p" and "rf_ReorderEnabled (rv_config r)"
    and "aheadOf (seq_of p) (re_next (rv_reorders r ! lane_index_of p))" and "seq_of p \<noteq> re_next (rv_reorders r ! lane_index_of p)"
  shows "\<exists>r'. accept_completed r now p sink w = Some (r', w, None) \<and> rv_reorderHeld r' = 1"
proof -
  let ?x = "rv_reorders r ! lane_index_of p"
  have h: "rv_reorderHeld r = 0" "0 < rv_reorderBudget r" using assms(1,2,4) by (simp_all add: receiver_inv_def queues_ok_def)
  note lane = idle_lane [OF assms(1,2,4), of "k_LaneID (pk_Key p)"]
  have "0 < length (re_entries ?x)" using lane(3) by (simp add: reorder_ok_def)
  then have st: "accept_status ?x p = StatusQueued" using assms(5,6) lane(1) by (simp add: accept_status_def)
  obtain x' where x': "Reorderer_Accept ?x now p (rv_delivered r) = Some (x', Inr (StatusQueued, []))"
    using Accept_ok [OF lane(3,4) packet_matches [OF assms(1,3)], of now] st by auto
  obtain d1 where d1: "considerReorderDeadline ((set_lane r (lane_index_of p) x')\<lparr>rv_reorderHeld := 1\<rparr>)
      (Reorderer_GapStartedAt x' + rf_ReorderMaxDelay (rv_config r)) = (set_lane r (lane_index_of p) x')\<lparr>rv_reorderHeld := 1, rv_reorderDeadline := d1\<rparr>"
    using consider_fields by blast
  obtain d2 where "refreshReorderDeadline ((set_lane r (lane_index_of p) x')\<lparr>rv_reorderHeld := 1, rv_reorderDeadline := d1\<rparr>) False now =
      (set_lane r (lane_index_of p) x')\<lparr>rv_reorderHeld := 1, rv_reorderDeadline := d1, rv_reorderDeadline := d2\<rparr>"
    using refresh_fields by blast
  then show ?thesis
    using h x' d1 by (simp add: accept_completed_def accept_ordered_def Let_def set_lane_def deliver_packets_def)
qed

definition second_header :: Header where
  "second_header = \<lparr>hd_FragmentIndex = 0, hd_FragmentCount = 1, hd_LaneID = 3, hd_DataSessionID = 9, hd_LaneSequence = 1, hd_Offset = 0\<rparr>"

lemma second_waits:
  "\<exists>r. receiver_exec (Some collect) sample_receiver [] (RPayload 5 (encode second_header sample_inner)) = Some (r, [], None) \<and>
     rv_reorderHeld r = 1"
proof -
  let ?rec = "\<lparr>rc_Header = second_header, rc_Data = sample_inner\<rparr>"
  let ?fs = "[\<lparr>fr_Header = second_header, fr_Data = sample_inner\<rparr>]"
  let ?md = "\<lparr>md_DataSessionID = 9, md_LaneID = 3, md_LaneSequence = 1\<rparr>"
  let ?r = sample_receiver let ?s = "rv_reassembly_state ?r"
  note new = sample_receiver_new [unfolded NewPayloadReceiver_def]
  note i = new_receiver_idle [OF new]
  have frag: "fragmentation sample_inner ?md ?fs" by (simp add: fragmentation_def second_header_def sample_inner_def)
  have ok: "idle ?r (\<lambda>_. 0)" using i(1) by (simp add: sample_receiver_config_def)
  then have inv: "receiver_inv ?r []" by (simp add: idle_def receiver_ok_def)
  have cfg: "rf_DataSessionID (rv_config ?r) = 9" "rf_ReorderEnabled (rv_config ?r)" "rg_MaxPeers (ra_config ?s) = 1"
    using i(2) inv new_receiver_parts(3) [OF new] by (simp_all add: sample_receiver_config_def receiver_inv_def queues_ok_def effective_config_def)
  obtain s res j where a: "Reassembler_Accept ?s 5 (packet_key 0 ?md) ?rec = Some (s, Inr res)"
    "part_result ?fs sample_inner (packet_key 0 ?md) 0 res" "ra_config s = ra_config ?s"
    using first_part [OF _ _ frag, of ?s 5] ok inv cfg i(5)
    by (fastforce simp: idle_def sample_receiver_config_def sample_inner_def frag_record_def receiver_inv_def ps.accounts_def)
  obtain p where p: "rr_Status res = StatusCompleted" "rr_Packet res = Some p" "pk_Key p = packet_key 0 ?md"
    using a(2) by (auto simp: part_result_def)
  have "on_track ?r (\<lambda>_. 0)" using ok by (simp add: idle_def on_track_def)
  note acc = Accept_accounts [OF on_track_accounts [OF this], of "packet_key 0 ?md" 5 ?rec]
  have "ps.accounts s [p]" by (rule acc) (use a p cfg in \<open>auto simp: packet_key_def\<close>)
  then have inv': "receiver_inv (?r\<lparr>rv_reassembly_state := s\<rparr>) [p]"
    using inv ok a(3) by (simp add: receiver_inv_def queues_ok_def idle_def)
  have "\<forall>l. re_next (rv_reorders ?r ! unat (l :: byte)) = 0" using ok cfg(2) by (simp add: idle_def)
  from spec [OF this, of 3] have third: "re_next (rv_reorders ?r ! 3) = 0" by simp
  have "\<exists>r'. accept_completed (?r\<lparr>rv_reassembly_state := s\<rparr>) 5 p (Some collect) [] = Some (r', [], None) \<and> rv_reorderHeld r' = 1"
    by (rule accept_waits [OF inv'])
      (use third ok cfg p in \<open>auto simp: idle_def of_receiver_def packet_key_def aheadOf_def halfSequenceSpace_def Let_def\<close>)
  then have "\<exists>r'. accept_record ?r 5 (Some collect) [] ?rec = Some (r', [], None) \<and> rv_reorderHeld r' = 1"
    using a(1) p cfg(1) by (auto simp: accept_record_def second_header_def packet_key_def)
  moreover have "\<forall>rec\<in>set [?rec]. record_ok rec" using fragment_record_ok [OF frag] by (simp add: frag_record_def sample_inner_def)
  ultimately show ?thesis
    using acceptPayload_records [of "[?rec]" ?r 5 "Some collect" "[]"]
    by (auto simp: receiver_exec_def AcceptPayload_def encode_records_def)
qed

theorem receiver_safe_witness:
  "\<exists>r p. receiver_exec (Some collect) sample_receiver [] (RPayload 5 (encode second_header sample_inner)) = Some (r, [], None) \<and>
     concat (map held (rv_reorders r)) = [p] \<and> completed_slots (rv_reassembly_state r) = {slot_of p} \<and> rv_reorderHeld r = 1 \<and>
     (\<exists>r' w err. receiver_exec (Some collect) r [] (RTick 6) = Some (r', w, err) \<and> delivers (rv_config r) (Some collect) [] w err)"
proof -
  have s0: "receiver_reachable sample_receiver_config (Some collect) sample_receiver []"
    by (rule receiver_reachable.new [OF sample_receiver_new [unfolded NewPayloadReceiver_def]])
  obtain r where e: "receiver_exec (Some collect) sample_receiver [] (RPayload 5 (encode second_header sample_inner)) = Some (r, [], None)"
    "rv_reorderHeld r = 1" using second_waits by blast
  have "receiver_reachable sample_receiver_config (Some collect) r []"
    by (rule receiver_reachable.step [OF s0 _ e(1)]) (simp add: op_allowed_def)
  note safe = receiver_safe [OF this, of "RTick 6"]
  then have "length (concat (map held (rv_reorders r))) = 1" using e(2) by (simp add: op_allowed_def sample_receiver_config_def)
  then obtain p where "concat (map held (rv_reorders r)) = [p]" by (metis One_nat_def length_0_conv length_Suc_conv)
  with safe e show ?thesis by (auto simp: op_allowed_def sample_receiver_config_def)
qed

end
