(* ===== verification/ControlFrame.thy ===== *)
theory ControlFrame
  imports Carrier
begin

text \<open>
  \<^verbatim>\<open>internal/core/control/frame.go\<close>: the three byte header of a CONTROL frame, a marker that no DATA record can
  start with and a version, around an opaque protobuf message.  Names that clash with the DATA codec get
  the prefix \<^verbatim>\<open>Control\<close>.
\<close>

definition ControlHeaderSize :: nat where "ControlHeaderSize = 3"
definition Marker :: u16 where "Marker = 0"
definition ProtocolVersion :: byte where "ProtocolVersion = 1"

datatype control_frame_error =
    ErrInvalidMaxFrameSize
  | ErrFrameTooShort
  | ErrInvalidMarker
  | ErrUnsupportedVersion
  | ErrEmptyPayload
  | ErrFrameTooLarge
  | cf_ErrShortBuffer

record Codec =
  cf_maxFrameSize :: int

definition NewCodec :: "int \<Rightarrow> control_frame_error + Codec" where
  "NewCodec maxFrameSize =
     (if maxFrameSize < int ControlHeaderSize + 1 then Inl ErrInvalidMaxFrameSize
      else Inr \<lparr>cf_maxFrameSize = maxFrameSize\<rparr>)"

definition MaxFrameSize :: "Codec \<Rightarrow> int" where
  "MaxFrameSize c = cf_maxFrameSize c"

definition Codec_MarshalTo :: "Codec \<Rightarrow> bytes \<Rightarrow> bytes \<Rightarrow> control_frame_error + bytes \<times> nat" where
  "Codec_MarshalTo c dst protobufPayload =
     (if length protobufPayload = 0 then Inl ErrEmptyPayload
      else if cf_maxFrameSize c < int ControlHeaderSize + 1 then Inl ErrInvalidMaxFrameSize
      else if int (length protobufPayload) > cf_maxFrameSize c - int ControlHeaderSize then Inl ErrFrameTooLarge
      else
        (let frameSize = ControlHeaderSize + length protobufPayload in
         if length dst < frameSize then Inl cf_ErrShortBuffer
         else
           (let dst1 = copy_at ControlHeaderSize protobufPayload dst;
                dst2 = copy_at 0 (PutUint16 Marker) dst1
            in Inr (dst2[2 := ProtocolVersion], frameSize))))"

definition Codec_Parse :: "Codec \<Rightarrow> bytes \<Rightarrow> control_frame_error + bytes" where
  "Codec_Parse c frame =
     (if length frame < ControlHeaderSize then Inl ErrFrameTooShort
      else if Uint16 (subslice 0 2 frame) \<noteq> Marker then Inl ErrInvalidMarker
      else if frame ! 2 \<noteq> ProtocolVersion then Inl ErrUnsupportedVersion
      else if cf_maxFrameSize c < int ControlHeaderSize + 1 then Inl ErrInvalidMaxFrameSize
      else if int (length frame) > cf_maxFrameSize c then Inl ErrFrameTooLarge
      else if length frame = ControlHeaderSize then Inl ErrEmptyPayload
      else Inr (drop ControlHeaderSize frame))"

lemmas frame_consts = ControlHeaderSize_def Marker_def ProtocolVersion_def

text \<open>The frame of a message.\<close>

definition control_frame :: "bytes \<Rightarrow> bytes" where
  "control_frame payload = [0, 0, 1] @ payload"

lemma frame_header:
  assumes "3 \<le> length frame"
  shows "Uint16 (subslice 0 2 frame) = 0 \<and> frame ! 2 = 1 \<longleftrightarrow> frame = control_frame (drop 3 frame)"
proof -
  obtain a b c rest where f: "frame = a # b # c # rest"
    using assms by (auto simp: numeral_eq_Suc Suc_le_length_iff)
  have "Uint16 [a, b] = 0 \<longleftrightarrow> [a, b] = [0, 0]"
    using PutUint16_Uint16 [of a b] by (auto simp: PutUint16_def Uint16_def)
  then show ?thesis by (auto simp: f control_frame_def subslice_def)
qed

lemma Codec_Parse_Inr:
  "Codec_Parse c frame = Inr payload \<longleftrightarrow>
     frame = control_frame payload \<and> payload \<noteq> [] \<and> int (length frame) \<le> cf_maxFrameSize c"
proof (cases "3 \<le> length frame")
  case True
  note h = frame_header [OF True]
  show ?thesis
  proof
    assume "Codec_Parse c frame = Inr payload"
    then show "frame = control_frame payload \<and> payload \<noteq> [] \<and> int (length frame) \<le> cf_maxFrameSize c"
      using h by (auto simp: Codec_Parse_def frame_consts split: if_splits)
  next
    assume p: "frame = control_frame payload \<and> payload \<noteq> [] \<and> int (length frame) \<le> cf_maxFrameSize c"
    then have "drop 3 frame = payload" "4 \<le> length frame"
      by (auto simp: control_frame_def Suc_le_eq)
    then show "Codec_Parse c frame = Inr payload"
      using p h by (auto simp: Codec_Parse_def frame_consts)
  qed
next
  case False
  then show ?thesis by (auto simp: Codec_Parse_def frame_consts control_frame_def)
qed

lemma Codec_MarshalTo_Inr:
  "Codec_MarshalTo c dst payload = Inr (dst', n) \<longleftrightarrow>
     payload \<noteq> [] \<and> n = 3 + length payload \<and> int n \<le> cf_maxFrameSize c \<and> n \<le> length dst \<and>
     dst' = control_frame payload @ drop n dst"
proof -
  have "(copy_at 0 (PutUint16 0) (copy_at 3 payload dst))[2 := 1] = control_frame payload @ drop (3 + length payload) dst"
    if "3 + length payload \<le> length dst"
  proof -
    have "3 \<le> length dst" using that by simp
    then obtain a b c rest where "dst = a # b # c # rest" by (auto simp: numeral_eq_Suc Suc_le_length_iff)
    then show ?thesis by (simp add: copy_at_def PutUint16_def control_frame_def)
  qed
  moreover have "payload \<noteq> [] \<Longrightarrow> 4 \<le> 3 + int (length payload)" by (cases payload) simp_all
  ultimately show ?thesis by (auto simp: Codec_MarshalTo_def frame_consts Let_def)
qed

text \<open>
  C39.  The CONTROL codec is exact.  Writing a non-empty message succeeds if and only if the frame is within the
  codec's limit and the buffer; what was written is the header and the message, the rest of the buffer is
  untouched, and parsing the frame gives the message back.  Conversely a frame is accepted with a message if
  and only if it is the frame of that message and within the limit.
\<close>

theorem control_frame_roundtrip:
  "(Codec_MarshalTo c dst payload = Inr (dst', n) \<longleftrightarrow>
      payload \<noteq> [] \<and> n = 3 + length payload \<and> int n \<le> MaxFrameSize c \<and> n \<le> length dst \<and>
      drop n dst' = drop n dst \<and> length dst' = length dst \<and> Codec_Parse c (take n dst') = Inr payload) \<and>
   (Codec_Parse c frame = Inr payload \<longleftrightarrow>
      frame = [0, 0, 1] @ payload \<and> payload \<noteq> [] \<and> int (length frame) \<le> MaxFrameSize c)"
proof -
  have "dst' = control_frame payload @ drop n dst"
    if "n \<le> length dst" "drop n dst' = drop n dst" "take n dst' = control_frame payload"
    using that append_take_drop_id [of n dst'] by simp
  moreover have "take (3 + length payload) (control_frame payload @ xs) = control_frame payload"
    "drop (3 + length payload) (control_frame payload @ xs) = xs" "length (control_frame payload) = 3 + length payload" for xs
    by (simp_all add: control_frame_def numeral_3_eq_3)
  ultimately show ?thesis
    unfolding control_frame_def [symmetric] by (auto simp: Codec_MarshalTo_Inr Codec_Parse_Inr MaxFrameSize_def)
qed

text \<open>
  C40.  CONTROL frames and DATA payloads are disjoint.  A payload that is accepted as a CONTROL frame is refused by the
  DATA parser at its first record, before any record reaches the visitor; so no payload is ever both.
\<close>

theorem control_is_not_data:
  assumes "Codec_Parse c payload = Inr message"
  shows "\<exists>err. Parse payload visit s = (s, Some (Inl err)) \<and> err \<in> {ErrHeaderTooShort, ErrInvalidRecordLength}"
proof -
  have f: "payload = 0 # 0 # 1 # message" using assms by (simp add: Codec_Parse_Inr control_frame_def)
  then have "DecodeRecord payload = Inl ErrHeaderTooShort \<or> DecodeRecord payload = Inl ErrInvalidRecordLength"
    by (auto simp: DecodeRecord_def carrier_consts subslice_def Uint16_def numeral_2_eq_2)
  moreover have "payload \<noteq> []" using f by simp
  ultimately show ?thesis by (auto simp: Parse_def parse_loop.simps [of payload])
qed

definition sample_codec :: Codec where
  "sample_codec = \<lparr>cf_maxFrameSize = 20\<rparr>"

theorem control_is_not_data_witness:
  "Codec_Parse sample_codec ([0, 0, 1] @ replicate 12 7) = Inr (replicate 12 7) \<and>
   Parse ([0, 0, 1] @ replicate 12 7) (\<lambda>s r. (s + 1, None :: unit option)) (0 :: nat) \<noteq> (1, None)"
proof -
  have p: "Codec_Parse sample_codec ([0, 0, 1] @ replicate 12 7) = Inr (replicate 12 7)"
    by (simp add: Codec_Parse_Inr control_frame_def sample_codec_def)
  then show ?thesis using control_is_not_data [OF p, of "\<lambda>s r. (s + 1, None :: unit option)" "0 :: nat"] by auto
qed

end
