(* ===== verification/Icmp.thy ===== *)
theory Icmp
  imports InnerIP Packing
begin

text \<open>
  \<^verbatim>\<open>internal/core/icmp/ptb.go\<close>: the Packet Too Big message returned to an inner sender.  The output buffer is a
  list passed in and returned; the header and the message are written completely, so they are given as
  the bytes written.
\<close>

definition MaxPacketTooBigSize :: nat where "MaxPacketTooBigSize = 1280"

datatype icmp_error = ic_ErrShortBuffer | ErrSuppressed | ErrBadOriginal | ErrBadSource | ErrInvalidMTU

subsection \<open>The checksum\<close>

text \<open>The loop over 16-bit words with its odd last byte, and the loop that folds the carries.\<close>

fun sum_words :: "u32 \<Rightarrow> bytes \<Rightarrow> u32" where
  "sum_words acc (a # b # data) = sum_words (acc + ucast (Uint16 [a, b])) data"
| "sum_words acc [a] = acc + push_bit 8 (ucast a)"
| "sum_words acc [] = acc"

lemma unat_halves: "unat (x AND 0xffff) = unat (x :: u32) mod 65536" "unat (drop_bit 16 x) = unat x div 65536"
proof -
  have "x AND 0xffff = take_bit 16 x" by (simp add: take_bit_eq_mask mask_eq_exp_minus_1)
  then show "unat (x AND 0xffff) = unat x mod 65536" by (simp add: unsigned_take_bit_eq take_bit_eq_mod [of 16 "unat x"] del: take_bit_eq_mod)
  show "unat (drop_bit 16 x) = unat x div 65536" by (simp add: unat_drop_bit_eq drop_bit_eq_div [of 16 "unat x"] del: drop_bit_eq_div)
qed

lemma unat_fold_step:
  "unat ((x AND 0xffff) + drop_bit 16 (x :: u32)) = unat x mod 65536 + unat x div 65536"
proof -
  have "unat x < 2 ^ 32" using unsigned_less [where 'a = nat, of x] by simp
  then have "unat x mod 65536 + unat x div 65536 < 2 ^ 32" by simp
  then show ?thesis by (simp add: unat_word_ariths unat_halves)
qed

function fold_carry :: "u32 \<Rightarrow> u32" where
  "fold_carry acc = (if drop_bit 16 acc \<noteq> 0 then fold_carry ((acc AND 0xffff) + drop_bit 16 acc) else acc)"
  by pat_completeness auto
termination
proof (relation "measure unat")
  fix s :: u32 assume "drop_bit 16 s \<noteq> 0"
  then have "unat s div 65536 \<noteq> 0" by (metis unat_halves(2) unat_eq_zero)
  then have "unat s mod 65536 + unat s div 65536 < unat s" using mult_div_mod_eq [of 65536 "unat s"] by linarith
  then show "((s AND 0xffff) + drop_bit 16 s, s) \<in> measure unat" by (simp add: unat_fold_step)
qed simp

declare fold_carry.simps [simp del]

definition checksum :: "bytes \<Rightarrow> u32 \<Rightarrow> u16" where
  "checksum data initial = NOT (ucast (fold_carry (sum_words initial data)))"

subsection \<open>Suppression\<close>

definition suppressIPv4 :: "bytes \<Rightarrow> nat \<Rightarrow> bool" where
  "suppressIPv4 original headerLen =
     (let src = AddrFrom4 (subslice 12 16 original); dst = AddrFrom4 (subslice 16 20 original) in
      if \<not> IsGlobalUnicast src \<and> \<not> IsPrivate src \<and> \<not> IsLinkLocalUnicast src then True
      else if IsMulticast dst \<or> dst = AddrFrom4 [255, 255, 255, 255] then True
      else original ! 9 = 1 \<and> headerLen < length original \<and> original ! headerLen \<in> {3, 4, 5, 11, 12})"

text \<open>\<open>icmp6_loop original next offset n\<close>: the walk with \<open>n\<close> rounds left.\<close>

fun icmp6_loop :: "bytes \<Rightarrow> byte \<Rightarrow> nat \<Rightarrow> nat \<Rightarrow> bool" where
  "icmp6_loop original next offset 0 = True"
| "icmp6_loop original next offset (Suc n) =
     (if next = 58 then offset \<ge> length original \<or> original ! offset < 128
      else if next = 0 \<or> next = 43 \<or> next = 60 then
        (if offset + 2 > length original then True
         else
           (let headerLen = (unat (original ! (offset + 1)) + 1) * 8 in
            if offset + headerLen > length original then True
            else icmp6_loop original (original ! offset) (offset + headerLen) n))
      else if next = 51 then
        (if offset + 2 > length original then True
         else
           (let headerLen = (unat (original ! (offset + 1)) + 2) * 4 in
            if offset + headerLen > length original then True
            else icmp6_loop original (original ! offset) (offset + headerLen) n))
      else False)"

definition suppressIPv6 :: "bytes \<Rightarrow> bool" where
  "suppressIPv6 original =
     (let src = AddrFrom16 (subslice 8 24 original); dst = AddrFrom16 (subslice 24 40 original) in
      if IsUnspecified src \<or> IsMulticast src then True
      else if IsMulticast dst then True
      else icmp6_loop original (original ! 6) 40 4)"

subsection \<open>Building the message\<close>

definition buildIPv4 :: "bytes \<Rightarrow> bytes \<Rightarrow> addr \<Rightarrow> int \<Rightarrow> icmp_error + bytes \<times> nat" where
  "buildIPv4 buf original source mtu =
     (if length original < 20 then Inl ErrBadOriginal
      else
        (let headerLen = unat (original ! 0 AND 0x0f) * 4 in
         if headerLen < 20 \<or> headerLen > length original then Inl ErrBadOriginal
         else
           (let totalLen = unat (Uint16 (subslice 2 4 original)) in
            if totalLen < headerLen \<or> totalLen > length original then Inl ErrBadOriginal
            else
              (let original = take totalLen original in
               if suppressIPv4 original headerLen then Inl ErrSuppressed
               else
                 (let quote = min (headerLen + 8) (length original);
                      total = 20 + 8 + quote
                  in
                  if total > length buf then Inl ic_ErrShortBuffer
                  else
                    (let ip0 = [0x45, 0] @ PutUint16 (of_nat total) @ PutUint32 0 @ [64, 1] @ PutUint16 0 @
                                As4 source @ subslice 12 16 original;
                         ip = copy_at 10 (PutUint16 (checksum ip0 0)) ip0;
                         msg0 = [3, 4] @ PutUint16 0 @ PutUint16 0 @ PutUint16 (of_int mtu) @ take quote original;
                         msg = copy_at 2 (PutUint16 (checksum msg0 0)) msg0
                     in Inr (copy_at 20 msg (copy_at 0 ip buf), total)))))))"

definition pseudo_sum :: "bytes \<Rightarrow> u32" where
  "pseudo_sum ip = foldl (\<lambda>pseudo i. pseudo + ucast (Uint16 (subslice i (i + 2) ip))) 0 (map (\<lambda>k. 8 + 2 * k) [0..<16])"

definition buildIPv6 :: "bytes \<Rightarrow> bytes \<Rightarrow> addr \<Rightarrow> int \<Rightarrow> icmp_error + bytes \<times> nat" where
  "buildIPv6 buf original source mtu =
     (if length original < 40 then Inl ErrBadOriginal
      else if unat (Uint16 (subslice 4 6 original)) \<noteq> length original - 40 then Inl ErrBadOriginal
      else if suppressIPv6 original then Inl ErrSuppressed
      else
        (let quote = min (length original) (MaxPacketTooBigSize - 40 - 8);
             total = 40 + 8 + quote
         in
         if total > length buf then Inl ic_ErrShortBuffer
         else
           (let ip = [0x60, 0, 0, 0] @ PutUint16 (of_nat (8 + quote)) @ [58, 64] @ As16 source @ subslice 8 24 original;
                msg0 = [2, 0] @ PutUint16 0 @ PutUint32 (of_int mtu) @ take quote original;
                pseudo = pseudo_sum ip + of_nat (length msg0) + 58;
                msg = copy_at 2 (PutUint16 (checksum msg0 pseudo)) msg0
            in Inr (copy_at 40 msg (copy_at 0 ip buf), total))))"

definition BuildPacketTooBig :: "bytes \<Rightarrow> bytes \<Rightarrow> addr \<Rightarrow> int \<Rightarrow> icmp_error + bytes \<times> nat" where
  "BuildPacketTooBig buf original source mtu =
     (if length original = 0 then Inl ErrBadOriginal
      else if mtu < MinInnerMTU \<or> mtu > MaxInnerMTU then Inl ErrInvalidMTU
      else if drop_bit 4 (original ! 0) = 4 then
        (if \<not> Is4 source \<or> Zone source \<noteq> [] then Inl ErrBadSource else buildIPv4 buf original source mtu)
      else if drop_bit 4 (original ! 0) = 6 then
        (if \<not> Is6 source \<or> Is4In6 source \<or> Zone source \<noteq> [] then Inl ErrBadSource else buildIPv6 buf original source mtu)
      else Inl ErrBadOriginal)"

subsection \<open>The checksum verifies\<close>

text \<open>The sum of the 16-bit words of a message as a natural number.\<close>

fun word_total :: "bytes \<Rightarrow> nat" where
  "word_total (a # b # data) = unat (Uint16 [a, b]) + word_total data"
| "word_total [a] = 256 * unat a"
| "word_total [] = 0"

lemma word_total_bound: "word_total data \<le> 65535 * ((length data + 1) div 2)"
proof (induction data rule: word_total.induct)
  case (1 a b data)
  have "unat (Uint16 [a, b]) < 65536" by simp
  then have "unat (Uint16 [a, b]) \<le> 65535" by linarith
  then show ?case using 1 by simp
next
  case (2 a)
  have "unat a < 256" by simp
  then have "unat a \<le> 255" by linarith
  then show ?case by simp
qed simp

lemma word_total_append: "even (length pre) \<Longrightarrow> word_total (pre @ data) = word_total pre + word_total data"
  by (induction pre rule: word_total.induct) auto

lemma unat_ucast_u16: "unat (ucast (x :: u16) :: u32) = unat x"
  using unat_u16_less [of x] by (simp add: unsigned_ucast_eq take_bit_nat_eq_self del: unat_u16_less)

lemma unat_sum_words:
  "unat acc + word_total data < 2 ^ 32 \<Longrightarrow> unat (sum_words acc data) = unat acc + word_total data"
proof (induction acc data rule: sum_words.induct)
  case (1 acc a b data)
  have "unat (acc + ucast (Uint16 [a, b])) = unat acc + unat (Uint16 [a, b])"
    using 1(2) by (simp add: unat_word_ariths unat_ucast_u16)
  then show ?case using 1 by simp
next
  case (2 acc a)
  have a: "unat a < 256" by simp
  then have "unat a < 2 ^ 32" by (rule order_less_le_trans) simp
  then have "take_bit 32 (unat a) = unat a" by (rule take_bit_nat_eq_self)
  moreover have "unat a * 256 < 4294967296" using a by linarith
  ultimately have "unat (push_bit 8 (ucast a :: u32)) = 256 * unat a"
    by (simp add: push_bit_eq_mult unat_word_ariths unsigned_ucast_eq)
  then show ?case using 2 by (simp add: unat_word_ariths)
qed simp

lemma fold_carry_spec:
  "unat (fold_carry s) < 65536 \<and> unat (fold_carry s) mod 65535 = unat s mod 65535 \<and> (fold_carry s = 0 \<longleftrightarrow> s = 0)"
proof (induction s rule: fold_carry.induct)
  case (1 s)
  show ?case
  proof (cases "drop_bit 16 s = 0")
    case True
    then have "unat s div 65536 = 0" by (metis unat_halves(2) unat_0)
    then show ?thesis using True by (subst (1 2 3) fold_carry.simps) simp
  next
    case False
    let ?t = "(s AND 0xffff) + drop_bit 16 s"
    have t: "unat ?t = unat s mod 65536 + unat s div 65536" by (rule unat_fold_step)
    have s: "unat s = 65535 * (unat s div 65536) + unat ?t" using mult_div_mod_eq [of 65536 "unat s"] unfolding t by linarith
    then have "unat ?t mod 65535 = unat s mod 65535" by (metis mod_mult_self4)
    moreover have "unat s div 65536 \<noteq> 0" using False by (metis unat_halves(2) unat_eq_zero)
    then have "?t \<noteq> 0" "s \<noteq> 0" using t by (auto simp: unat_eq_0 [symmetric])
    moreover have "fold_carry s = fold_carry ?t" using False by (subst fold_carry.simps) simp
    ultimately show ?thesis using 1 [OF False] by simp
  qed
qed

lemma unat_checksum: "unat (checksum data initial) = 65535 - unat (fold_carry (sum_words initial data))"
proof -
  let ?f = "fold_carry (sum_words initial data)"
  have "unat (ucast ?f :: u16) = unat ?f" using fold_carry_spec [of "sum_words initial data"]
    by (simp add: unsigned_ucast_eq take_bit_nat_eq_self)
  moreover have "unat (NOT (x :: u16)) = 65535 - unat x" for x
  proof -
    have "NOT x = - 1 - x" by (simp add: not_eq_complement)
    moreover have "unat (- 1 :: u16) = 65535" by code_simp
    moreover have "unat x \<le> 65535" using unat_u16_less [of x] by linarith
    ultimately show ?thesis using unat_sub [of x "- 1"] by (simp add: word_le_nat_alt)
  qed
  ultimately show ?thesis by (simp add: checksum_def)
qed

lemma only_multiple:
  fixes x :: nat
  assumes "x mod 65535 = 0" and "x < 65536" and "x \<noteq> 0"
  shows "x = 65535"
proof -
  obtain k where k: "x = 65535 * k" using assms(1) by (auto elim: dvdE)
  then have "k = 1" using assms(2,3) by linarith
  then show ?thesis using k by simp
qed

lemma checksum_verifies:
  assumes "even (length pre)" and "unat initial + 65535 * ((length pre + length post + 3) div 2) < 2 ^ 32"
  shows "checksum (pre @ PutUint16 (checksum (pre @ [0, 0] @ post) initial) @ post) initial = 0"
proof -
  let ?c = "checksum (pre @ [0, 0] @ post) initial"
  let ?n = "unat initial + word_total pre + word_total post"
  have zero: "word_total (pre @ [0, 0] @ post) = word_total pre + word_total post"
    using assms(1) by (simp add: word_total_append Uint16_def)
  have full: "word_total (pre @ PutUint16 ?c @ post) = word_total pre + word_total post + unat ?c"
    using assms(1) Uint16_PutUint16 [of ?c] by (simp add: word_total_append PutUint16_def)
  have small: "unat initial + word_total (pre @ PutUint16 ?c @ post) < 2 ^ 32"
    using word_total_bound [of "pre @ PutUint16 ?c @ post"] assms(2) by (simp add: numeral_3_eq_3)
  have s0: "unat (sum_words initial (pre @ [0, 0] @ post)) = ?n" using small zero full by (simp add: unat_sum_words)
  have s1: "unat (sum_words initial (pre @ PutUint16 ?c @ post)) = ?n + unat ?c" using small full by (simp add: unat_sum_words)
  let ?f = "unat (fold_carry (sum_words initial (pre @ [0, 0] @ post)))"
  have f: "?f < 65536" "?f mod 65535 = ?n mod 65535" "?f = 0 \<longleftrightarrow> ?n = 0"
    using fold_carry_spec [of "sum_words initial (pre @ [0, 0] @ post)"] unfolding s0 [symmetric] unat_eq_0 by blast+
  have c: "unat ?c = 65535 - ?f" by (rule unat_checksum)
  have "(?n + unat ?c) mod 65535 = 0"
  proof -
    have "(?n + unat ?c) mod 65535 = (?f + unat ?c) mod 65535" using f(2) by (metis mod_add_left_eq)
    also have "?f + unat ?c = 65535" using c f(1) by linarith
    finally show ?thesis by simp
  qed
  moreover have "?n + unat ?c \<noteq> 0" using c f by auto
  ultimately have g: "unat (fold_carry (sum_words initial (pre @ PutUint16 ?c @ post))) mod 65535 = 0"
    "unat (fold_carry (sum_words initial (pre @ PutUint16 ?c @ post))) < 65536"
    "unat (fold_carry (sum_words initial (pre @ PutUint16 ?c @ post))) \<noteq> 0"
    using fold_carry_spec [of "sum_words initial (pre @ PutUint16 ?c @ post)"] s1 by (simp_all add: unat_eq_0 [symmetric])
  then have "unat (fold_carry (sum_words initial (pre @ PutUint16 ?c @ post))) = 65535"
    by (rule only_multiple)
  then show ?thesis using unat_checksum [of "pre @ PutUint16 ?c @ post" initial] by (simp add: unat_eq_0)
qed

subsection \<open>The layout of the message\<close>

lemma written_two:
  assumes "length xs = i" and "i + length ys \<le> length buf"
  shows "copy_at i ys (copy_at 0 xs buf) = xs @ ys @ drop (i + length ys) buf"
  using assms by (simp add: copy_at_def add.commute)

text \<open>A message with its checksum written over the zero at its second word.\<close>

lemma checked_message:
  assumes "unat initial + 65535 * ((length rest + 5) div 2) < 2 ^ 32"
  shows "copy_at 2 (PutUint16 (checksum ([a, b] @ PutUint16 0 @ rest) initial)) ([a, b] @ PutUint16 0 @ rest) =
      [a, b] @ PutUint16 (checksum ([a, b] @ PutUint16 0 @ rest) initial) @ rest"
    and "checksum ([a, b] @ PutUint16 (checksum ([a, b] @ PutUint16 0 @ rest) initial) @ rest) initial = 0"
  using checksum_verifies [of "[a, b]" initial rest] assms by (simp_all add: copy_at_def PutUint16_def add.commute)

definition quote4 :: "bytes \<Rightarrow> bytes" where
  "quote4 original = take (unat (original ! 0 AND 0x0f) * 4 + 8) (take (unat (Uint16 (subslice 2 4 original))) original)"

lemma nibble_bound: "unat (x AND 0x0f :: byte) \<le> 15"
proof -
  have "x AND 0x0f \<le> 15" by (rule word_and_le1)
  then show ?thesis by (simp add: word_le_nat_alt)
qed

lemma unat_Uint16: "unat (Uint16 [a, b]) = 256 * unat a + unat b"
proof -
  have "unat (Uint16 [a, b]) = unat (push_bit 8 (ucast a :: u16) + ucast b)"
    by (subst disjunctive_add) (auto simp: Uint16_def bit_simps dest!: bit_imp_le_length)
  moreover have "unat a \<le> 255" "unat b \<le> 255" using unat_u8_less [of a] unat_u8_less [of b] by linarith+
  ultimately show ?thesis by (simp add: push_bit_eq_mult unat_word_ariths unsigned_ucast_eq take_bit_nat_eq_self)
qed

lemma be16_Uint16: "be16 a b = unat (Uint16 [a, b])"
  by (simp add: be16_eq unat_Uint16)

text \<open>
  An IPv4 Fragmentation Needed message for \<open>original\<close>: a datagram of the inner protocol from \<open>source\<close> to the
  sender of the original, with valid header and message checksums, the MTU and the quoted header.
\<close>

definition icmp4_too_big :: "bytes \<Rightarrow> addr \<Rightarrow> int \<Rightarrow> bytes \<Rightarrow> bool" where
  "icmp4_too_big original source mtu out \<longleftrightarrow>
     ParseExact out = Inr \<lparr>ip_Version = 4, ip_Source = source, ip_Destination = Addr4 (subslice 12 16 original), ip_Data = out\<rparr> \<and>
     out ! 0 = 0x45 \<and> out ! 9 = 1 \<and> checksum (take 20 out) 0 = 0 \<and> checksum (drop 20 out) 0 = 0 \<and>
     subslice 20 22 out = [3, 4] \<and> Uint16 (subslice 26 28 out) = of_int mtu \<and> drop 28 out = quote4 original"

text \<open>The ICMPv6 message; its checksum covers the pseudo header of RFC 8200.\<close>

definition icmp6_too_big :: "bytes \<Rightarrow> addr \<Rightarrow> int \<Rightarrow> bytes \<Rightarrow> bool" where
  "icmp6_too_big original source mtu out \<longleftrightarrow>
     ParseExact out = Inr \<lparr>ip_Version = 6, ip_Source = source, ip_Destination = Addr6 (subslice 8 24 original) [], ip_Data = out\<rparr> \<and>
     out ! 6 = 58 \<and> checksum (subslice 8 40 out @ PutUint32 (of_nat (length out - 40)) @ [0, 0, 0, 58] @ drop 40 out) 0 = 0 \<and>
     subslice 40 42 out = [2, 0] \<and> Uint32 (subslice 44 48 out) = of_int mtu \<and> drop 48 out = take 1232 original"

lemma list_eq_nth16:
  "length xs = 16 \<Longrightarrow> \<exists>a b c d e f g h i j k l m n p q. xs = [a, b, c, d, e, f, g, h, i, j, k, l, m, n, p, q]"
  by (simp add: numeral_eq_Suc length_Suc_conv) blast

lemma header4_checked:
  fixes ip0 :: bytes
  assumes "ip0 = [0x45, 0] @ PutUint16 n @ PutUint32 0 @ [64, 1] @ PutUint16 0 @ src @ dst" and "length src = 4" and "length dst = 4"
  shows "copy_at 10 (PutUint16 (checksum ip0 0)) ip0 =
      [0x45, 0] @ PutUint16 n @ PutUint32 0 @ [64, 1] @ PutUint16 (checksum ip0 0) @ src @ dst"
    and "checksum ([0x45, 0] @ PutUint16 n @ PutUint32 0 @ [64, 1] @ PutUint16 (checksum ip0 0) @ src @ dst) 0 = 0"
proof -
  let ?pre = "[0x45, 0] @ PutUint16 n @ PutUint32 0 @ [64, 1]"
  have e: "ip0 = ?pre @ [0, 0] @ src @ dst" using assms(1) by (simp add: PutUint16_def)
  show "copy_at 10 (PutUint16 (checksum ip0 0)) ip0 =
      [0x45, 0] @ PutUint16 n @ PutUint32 0 @ [64, 1] @ PutUint16 (checksum ip0 0) @ src @ dst"
    using copy_at_mid [of ?pre 10 "[0, 0]" "PutUint16 (checksum ip0 0)" "src @ dst"] by (simp add: e)
  show "checksum ([0x45, 0] @ PutUint16 n @ PutUint32 0 @ [64, 1] @ PutUint16 (checksum ip0 0) @ src @ dst) 0 = 0"
    using checksum_verifies [of ?pre 0 "src @ dst"] assms(2,3) by (simp add: e)
qed

text \<open>The IPv4 message, from the bytes of its header and its body.\<close>

lemma header4_parsed:
  assumes "length src = 4" and "length dst = 4" and "n < 65536" and "length rest + 20 = n"
    and "out = [0x45, 0] @ PutUint16 (of_nat n) @ PutUint32 0 @ [64, 1] @ PutUint16 c @ src @ dst @ rest"
  shows "ParseExact out = Inr \<lparr>ip_Version = 4, ip_Source = Addr4 src, ip_Destination = Addr4 dst, ip_Data = out\<rparr>"
proof -
  obtain s0 s1 s2 s3 d0 d1 d2 d3 where sd: "src = [s0, s1, s2, s3]" "dst = [d0, d1, d2, d3]"
    using list_eq_nth4 [OF assms(1)] list_eq_nth4 [OF assms(2)] by metis
  have "be16 (ucast (drop_bit 8 (of_nat n :: u16))) (ucast (of_nat n :: u16)) = n"
    using assms(3) Uint16_PutUint16 [of "of_nat n"] by (simp add: be16_Uint16 PutUint16_def)
  then have "innerip_Parse out = Inr \<lparr>ip_Version = 4, ip_Source = Addr4 src, ip_Destination = Addr4 dst, ip_Data = out\<rparr>"
    using assms(4)
    unfolding innerip_Parse_Inr ipv4Fragmented_False assms(5) sd
    by (simp add: PutUint16_def PutUint32_def subslice_def Uint16_def drop_bit_eq_div)
  then show ?thesis by (simp add: ParseExact_def)
qed

lemma buildIPv4_Inr:
  assumes "buildIPv4 buf original source mtu = Inr (buf', n)" and "Is4 source" and "addr_wf source"
  shows "icmp4_too_big original source mtu (take n buf')" and "drop n buf' = drop n buf" and "length buf' = length buf" and "n \<le> 96"
proof -
  let ?h = "unat (original ! 0 AND 0x0f) * 4" let ?t = "unat (Uint16 (subslice 2 4 original))"
  have h: "?h \<le> 60" using nibble_bound [of "original ! 0"] by simp
  have ok: "20 \<le> ?h" "?h \<le> ?t" "?t \<le> length original"
    using assms(1) by (auto simp: buildIPv4_def Let_def split: if_splits)
  obtain src where src: "source = Addr4 src" "length src = 4" using assms(2,3) by (auto simp: Is4_def addr_wf_def split: addr.splits)
  let ?dst = "subslice 12 16 original"
  have dst: "length ?dst = 4" "subslice 12 16 (take ?t original) = ?dst" using ok by (simp_all add: subslice_def drop_take)
  have q: "take (min (?h + 8) ?t) (take ?t original) = quote4 original" "length (quote4 original) = min (?h + 8) ?t"
    using ok by (simp_all add: quote4_def min_def)
  define total where "total = 28 + length (quote4 original)"
  define ip0 where "ip0 = [0x45, 0] @ PutUint16 (of_nat total) @ PutUint32 0 @ [64, 1] @ PutUint16 0 @ src @ ?dst"
  define body where "body = PutUint16 0 @ PutUint16 (of_int mtu) @ quote4 original"
  define msg0 where "msg0 = [3, 4] @ PutUint16 0 @ body"
  define ip where "ip = [0x45, 0] @ PutUint16 (of_nat total) @ PutUint32 0 @ [64, 1] @ PutUint16 (checksum ip0 0) @ src @ ?dst"
  define msg where "msg = [3, 4] @ PutUint16 (checksum msg0 0) @ body"
  have ip: "copy_at 10 (PutUint16 (checksum ip0 0)) ip0 = ip" "checksum ip 0 = 0"
    using header4_checked [OF ip0_def src(2) dst(1)] by (simp_all add: ip_def)
  have "length (quote4 original) \<le> 68" using q(2) h by linarith
  then have total: "total \<le> 96" and "65535 * ((length body + 5) div 2) < 2 ^ 32" by (simp_all add: total_def body_def)
  then have msg: "copy_at 2 (PutUint16 (checksum msg0 0)) msg0 = msg" "checksum msg 0 = 0"
    using checked_message [of 0 body 3 4] by (simp_all add: msg0_def msg_def)
  have len: "length ip = 20" "length msg = total - 20" using src(2) dst(1) by (simp_all add: ip_def msg_def body_def total_def)
  have "n = total \<and> total \<le> length buf \<and> buf' = copy_at 20 msg (copy_at 0 ip buf)"
  proof -
    have qlen: "min (?h + 8) (length (take ?t original)) = length (quote4 original)" using q(2) ok(3) by simp
    have tk: "take (length (quote4 original)) (take ?t original) = quote4 original" using q by simp
    have ns: "\<not> suppressIPv4 (take ?t original) ?h" using assms(1) ok by (auto simp: buildIPv4_def Let_def split: if_splits)
    have "buildIPv4 buf original source mtu =
        (if total > length buf then Inl ic_ErrShortBuffer
         else Inr (copy_at 20 (copy_at 2 (PutUint16 (checksum msg0 0)) msg0) (copy_at 0 (copy_at 10 (PutUint16 (checksum ip0 0)) ip0) buf), total))"
      using ok ns unfolding buildIPv4_def Let_def qlen tk dst(2) src(1)
      by (simp add: As4_def ip0_def msg0_def body_def total_def)
    then show ?thesis using assms(1) ip(1) msg(1) by (auto split: if_splits)
  qed
  then have n: "n = total" "total \<le> length buf" and buf': "buf' = ip @ msg @ drop total buf"
    using len total_def by (auto simp: written_two)
  have out: "take n buf' = ip @ msg" using n buf' len by (simp add: total_def)
  have parsed: "ParseExact (ip @ msg) = Inr \<lparr>ip_Version = 4, ip_Source = source, ip_Destination = Addr4 ?dst, ip_Data = ip @ msg\<rparr>"
    unfolding src(1) by (rule header4_parsed [of _ _ total msg _ "checksum ip0 0"])
      (use src dst total len in \<open>simp_all add: ip_def total_def\<close>)
  obtain s0 s1 s2 s3 d0 d1 d2 d3 where sd: "src = [s0, s1, s2, s3]" "?dst = [d0, d1, d2, d3]"
    using list_eq_nth4 [OF src(2)] list_eq_nth4 [OF dst(1)] by metis
  have fields: "(ip @ msg) ! 0 = 0x45" "(ip @ msg) ! 9 = 1" "subslice 20 22 (ip @ msg) = [3, 4]"
    "Uint16 (subslice 26 28 (ip @ msg)) = of_int mtu" "drop 28 (ip @ msg) = quote4 original"
    unfolding ip_def sd msg_def body_def using Uint16_PutUint16 [of "of_int mtu"]
    by (simp_all add: PutUint16_def PutUint32_def subslice_def)
  show "icmp4_too_big original source mtu (take n buf')"
    unfolding out icmp4_too_big_def using parsed fields ip(2) msg(2) len by simp
  show "drop n buf' = drop n buf" "length buf' = length buf" "n \<le> 96" using n buf' len total by (simp_all add: total_def)
qed

text \<open>The IPv6 message.\<close>

lemma sum_words_append: "even (length pre) \<Longrightarrow> sum_words acc (pre @ data) = sum_words (sum_words acc pre) data"
  by (induction acc pre rule: sum_words.induct) auto

lemma pseudo_sum_words:
  assumes "40 \<le> length ip"
  shows "pseudo_sum ip = sum_words 0 (subslice 8 40 ip)"
proof -
  have gen: "foldl (\<lambda>pseudo i. pseudo + ucast (Uint16 (subslice i (i + 2) ip))) acc (map (\<lambda>k. 8 + 2 * k) [k..<16]) =
      sum_words acc (subslice (8 + 2 * k) 40 ip)" if "k \<le> 16" for acc k
    using that
  proof (induction "16 - k" arbitrary: acc k)
    case 0
    then show ?case by (simp add: subslice_def)
  next
    case (Suc n)
    then have k: "k < 16" by simp
    have "subslice (8 + 2 * k) 40 ip = subslice (8 + 2 * k) (8 + 2 * k + 2) ip @ subslice (8 + 2 * Suc k) 40 ip"
      using subslice_append [of "8 + 2 * k" "8 + 2 * k + 2" 40 ip] k by simp
    moreover have "subslice (8 + 2 * k) (8 + 2 * k + 2) ip = [ip ! (8 + 2 * k), ip ! (8 + 2 * k + 1)]"
      by (rule subslice_pair) (use k assms in simp)
    ultimately show ?case
      using Suc.hyps(1) [of "Suc k"] Suc.hyps(2) k by (simp add: upt_conv_Cons)
  qed
  show ?thesis using gen [of 0 0] by (simp add: pseudo_sum_def)
qed

lemma header6_parsed:
  assumes "length src = 16" and "length dst = 16" and "length rest < 65536"
    and "out = [0x60, 0, 0, 0] @ PutUint16 (of_nat (length rest)) @ [58, 64] @ src @ dst @ rest"
  shows "ParseExact out = Inr \<lparr>ip_Version = 6, ip_Source = Addr6 src [], ip_Destination = Addr6 dst [], ip_Data = out\<rparr>"
proof -
  have "be16 (ucast (drop_bit 8 (of_nat (length rest) :: u16))) (ucast (of_nat (length rest) :: u16)) = length rest"
    using assms(3) Uint16_PutUint16 [of "of_nat (length rest)"] by (simp add: be16_Uint16 PutUint16_def)
  then have "ipv6Fragmented out = Inr False"
    unfolding ipv6Fragmented_False assms(4) using assms(1,2)
    by (intro conjI exI [of _ 0] exI [of _ 58] exI [of _ 40]) (simp_all add: PutUint16_def)
  moreover have "subslice 8 24 out = src" "subslice 24 40 out = dst"
    using assms(1,2) by (simp_all add: assms(4) PutUint16_def subslice_def)
  ultimately have "innerip_Parse out = Inr \<lparr>ip_Version = 6, ip_Source = Addr6 src [], ip_Destination = Addr6 dst [], ip_Data = out\<rparr>"
    unfolding innerip_Parse_Inr by (simp add: assms(4) drop_bit_eq_div)
  then show ?thesis by (simp add: ParseExact_def)
qed

lemma pseudo_header_sum:
  assumes "length addrs = 32" and "n < 65536"
  shows "sum_words 0 (addrs @ PutUint32 (of_nat n) @ [0, 0, 0, 58]) = sum_words 0 addrs + of_nat n + 58"
proof -
  let ?u = "of_nat n :: u32"
  have u: "unat ?u = n" using assms(2) by (simp add: unsigned_of_nat take_bit_nat_eq_self)
  have "unat (drop_bit 24 ?u) = 0" "unat (drop_bit 16 ?u) = 0" using assms(2) u by (simp_all add: unat_drop_bit_eq drop_bit_nat_def)
  then have hi: "drop_bit 24 ?u = 0" "drop_bit 16 ?u = 0" by (simp_all only: unat_eq_0)
  have "unat (ucast (drop_bit 8 ?u) :: byte) = n div 256" "unat (ucast ?u :: byte) = n mod 256"
    using assms(2) u by (simp_all add: unsigned_ucast_eq unat_drop_bit_eq drop_bit_nat_def take_bit_nat_def)
  then have "unat (Uint16 [ucast (drop_bit 8 ?u), ucast ?u]) = n" by (simp add: unat_Uint16)
  then have lo: "ucast (Uint16 [ucast (drop_bit 8 ?u), ucast ?u]) = ?u" by (metis unat_ucast_u16 u word_unat_eq_iff)
  show ?thesis using assms(1) lo by (simp add: sum_words_append PutUint32_def hi) (simp add: Uint16_def)
qed

lemma buildIPv6_Inr:
  assumes "buildIPv6 buf original source mtu = Inr (buf', n)" and "Is6 source" and "Zone source = []" and "addr_wf source"
  shows "icmp6_too_big original source mtu (take n buf')" and "drop n buf' = drop n buf" and "length buf' = length buf" and "n \<le> 1280"
proof -
  have ok: "40 \<le> length original" "unat (Uint16 (subslice 4 6 original)) = length original - 40" "\<not> suppressIPv6 original"
    using assms(1) by (auto simp: buildIPv6_def split: if_splits)
  obtain src where src: "source = Addr6 src []" "length src = 16"
    using assms(2-4) by (auto simp: Is6_def Zone_def addr_wf_def split: addr.splits)
  let ?dst = "subslice 8 24 original" let ?quote = "take 1232 original"
  have dst: "length ?dst = 16" using ok by simp
  define body where "body = PutUint32 (of_int mtu) @ ?quote"
  define msg0 where "msg0 = [2, 0] @ PutUint16 0 @ body"
  define ip where "ip = [0x60, 0, 0, 0] @ PutUint16 (of_nat (length msg0)) @ [58, 64] @ src @ ?dst"
  define pseudo where "pseudo = pseudo_sum ip + of_nat (length msg0) + 58"
  define msg where "msg = [2, 0] @ PutUint16 (checksum msg0 pseudo) @ body"
  have qlen: "length ?quote = min (length original) 1232" by simp
  have len: "length ip = 40" "length msg = length msg0" "length msg0 = 8 + length ?quote" "length ?quote \<le> 1232"
    using src(2) dst by (simp_all add: ip_def msg_def msg0_def body_def)
  have addrs: "subslice 8 40 ip = src @ ?dst" using src(2) dst by (simp add: ip_def PutUint16_def subslice_def)
  have ph: "sum_words 0 ((src @ ?dst) @ PutUint32 (of_nat (length msg0)) @ [0, 0, 0, 58]) = pseudo"
    using pseudo_header_sum [of "src @ ?dst" "length msg0"] pseudo_sum_words [of ip] src(2) dst len addrs by (simp add: pseudo_def)
  have "word_total ((src @ ?dst) @ PutUint32 (of_nat (length msg0)) @ [0, 0, 0, 58]) \<le> 65535 * 20"
    using word_total_bound [of "(src @ ?dst) @ PutUint32 (of_nat (length msg0)) @ [0, 0, 0, 58]"] src(2) dst by simp
  then have ps: "unat pseudo \<le> 65535 * 20"
    using unat_sum_words [of 0 "(src @ ?dst) @ PutUint32 (of_nat (length msg0)) @ [0, 0, 0, 58]"] ph by simp
  have "(length body + 5) div 2 \<le> 700" using len(4) by (simp add: body_def)
  then have "unat pseudo + 65535 * ((length body + 5) div 2) < 4294967296" using ps by linarith
  then have small: "unat pseudo + 65535 * ((length body + 5) div 2) < 2 ^ 32" by simp
  have msg: "copy_at 2 (PutUint16 (checksum msg0 pseudo)) msg0 = msg" "checksum msg pseudo = 0"
    using checked_message [OF small, of 2 0] by (simp_all add: msg0_def msg_def)
  have "n = 48 + length ?quote \<and> n \<le> length buf \<and> buf' = copy_at 40 msg (copy_at 0 ip buf)"
  proof -
    have tk: "take (min (length original) 1232) original = ?quote" by (simp add: min_def)
    have e: "buildIPv6 buf original source mtu =
        (if 48 + length ?quote > length buf then Inl ic_ErrShortBuffer
         else Inr (copy_at 40 (copy_at 2 (PutUint16 (checksum msg0 pseudo)) msg0) (copy_at 0 ip buf), 48 + length ?quote))"
      using ok src(1) unfolding buildIPv6_def Let_def pseudo_def ip_def len(3) qlen [symmetric] msg0_def body_def
      by (simp add: As16_def MaxPacketTooBigSize_def tk)
    then show ?thesis using assms(1) msg(1) by (auto split: if_splits)
  qed
  then have n: "n = 48 + length ?quote" "n \<le> length buf" and buf': "buf' = ip @ msg @ drop n buf"
    using len by (auto simp: written_two)
  have out: "take n buf' = ip @ msg" using n buf' len by simp
  have parsed: "ParseExact (ip @ msg) = Inr \<lparr>ip_Version = 6, ip_Source = source, ip_Destination = Addr6 ?dst [], ip_Data = ip @ msg\<rparr>"
    unfolding src(1) by (rule header6_parsed [where rest = msg]) (use src dst len in \<open>simp_all add: ip_def\<close>)
  have "checksum (subslice 8 40 (ip @ msg) @ PutUint32 (of_nat (length (ip @ msg) - 40)) @ [0, 0, 0, 58] @ drop 40 (ip @ msg)) 0 = 0"
  proof -
    have "subslice 8 40 (ip @ msg) = subslice 8 40 ip" using len(1) by (simp add: subslice_def)
    then have "subslice 8 40 (ip @ msg) = src @ ?dst" using addrs by simp
    moreover have "sum_words 0 ((src @ ?dst) @ PutUint32 (of_nat (length msg0)) @ [0, 0, 0, 58] @ msg) = sum_words pseudo msg"
      using sum_words_append [of "(src @ ?dst) @ PutUint32 (of_nat (length msg0)) @ [0, 0, 0, 58]" 0 msg] ph src(2) dst by simp
    ultimately show ?thesis using msg(2) len by (simp add: checksum_def)
  qed
  moreover have "(ip @ msg) ! 6 = 58" by (simp add: ip_def PutUint16_def)
  moreover have "subslice 40 42 (ip @ msg) = [2, 0]" "Uint32 (subslice 44 48 (ip @ msg)) = of_int mtu" "drop 48 (ip @ msg) = ?quote"
    using len(1) Uint32_PutUint32 [of "of_int mtu"] by (simp_all add: msg_def body_def subslice_def PutUint16_def PutUint32_def)
  ultimately show "icmp6_too_big original source mtu (take n buf')"
    unfolding out icmp6_too_big_def using parsed by simp
  show "drop n buf' = drop n buf" "length buf' = length buf" "n \<le> 1280" using n buf' len by simp_all
qed

subsection \<open>When a message is sent\<close>

text \<open>The walk ends at a header that is not an ICMPv6 error.\<close>

lemma icmp6_loop_Suc:
  "icmp6_loop original next offset (Suc n) =
     (if next = 58 then offset \<ge> length original \<or> original ! offset < 128
      else if next \<in> {0, 43, 51, 60} then
        (if offset + 2 \<le> length original \<and> offset + ext_header_len next (original ! (offset + 1)) \<le> length original
         then icmp6_loop original (original ! offset) (offset + ext_header_len next (original ! (offset + 1))) n
         else True)
      else False)"
  by (auto simp: ext_header_len_def Let_def)

lemma icmp6_loop_spec:
  "\<not> icmp6_loop original next offset n \<longleftrightarrow>
     (\<exists>k < n. \<exists>next' offset'. ext_chain original next offset k next' offset' \<and> next' \<notin> {0, 43, 51, 60} \<and>
        (next' = 58 \<longrightarrow> offset' < length original \<and> 128 \<le> original ! offset'))"
proof (induction n arbitrary: "next" offset)
  case 0
  then show ?case by simp
next
  case (Suc n)
  show ?case
  proof (cases "next \<in> {0, 43, 51, 60}")
    case True
    then have "next \<noteq> 58" by auto
    with True show ?thesis
      unfolding icmp6_loop_Suc ex_less_Suc0 by (auto simp: Suc.IH ext_chain_Suc_iff)
  next
    case False
    then show ?thesis
      unfolding icmp6_loop_Suc ex_less_Suc0 by (auto simp: ext_chain_no_hop not_le not_less)
  qed
qed

text \<open>
  The originals that deserve an answer.  \<open>answerable4\<close>: a well-formed header, a unicast source, a destination that
  is neither multicast nor broadcast, and no ICMP error.  \<open>answerable6\<close> likewise, where the chain of at most
  three extension headers leads to something other than an ICMPv6 error.
\<close>

definition answerable4 :: "bytes \<Rightarrow> bool" where
  "answerable4 original \<longleftrightarrow>
     (let h = unat (original ! 0 AND 0x0f) * 4; src = Addr4 (subslice 12 16 original); dst = Addr4 (subslice 16 20 original) in
      (IsGlobalUnicast src \<or> IsPrivate src \<or> IsLinkLocalUnicast src) \<and> \<not> IsMulticast dst \<and> dst \<noteq> Addr4 [255, 255, 255, 255] \<and>
      \<not> (original ! 9 = 1 \<and> h < unat (Uint16 (subslice 2 4 original)) \<and> original ! h \<in> {3, 4, 5, 11, 12}))"

definition answerable6 :: "bytes \<Rightarrow> bool" where
  "answerable6 original \<longleftrightarrow>
     (let src = Addr6 (subslice 8 24 original) []; dst = Addr6 (subslice 24 40 original) [] in
      \<not> IsUnspecified src \<and> \<not> IsMulticast src \<and> \<not> IsMulticast dst \<and>
      (\<exists>k < 4. \<exists>next offset. ext_chain original (original ! 6) 40 k next offset \<and> next \<notin> {0, 43, 51, 60} \<and>
         (next = 58 \<longrightarrow> offset < length original \<and> 128 \<le> original ! offset)))"

text \<open>The originals whose header is consistent with their length.\<close>

definition well_formed4 :: "bytes \<Rightarrow> bool" where
  "well_formed4 original \<longleftrightarrow>
     20 \<le> unat (original ! 0 AND 0x0f) * 4 \<and> unat (original ! 0 AND 0x0f) * 4 \<le> unat (Uint16 (subslice 2 4 original)) \<and>
     unat (Uint16 (subslice 2 4 original)) \<le> length original \<and> drop_bit 4 (original ! 0) = 4"

definition well_formed6 :: "bytes \<Rightarrow> bool" where
  "well_formed6 original \<longleftrightarrow>
     40 \<le> length original \<and> unat (Uint16 (subslice 4 6 original)) = length original - 40 \<and> drop_bit 4 (original ! 0) = 6"

lemma suppressIPv4_spec:
  assumes "well_formed4 original"
  shows "\<not> suppressIPv4 (take (unat (Uint16 (subslice 2 4 original))) original) (unat (original ! 0 AND 0x0f) * 4) \<longleftrightarrow> answerable4 original"
proof -
  let ?t = "unat (Uint16 (subslice 2 4 original))" let ?h = "unat (original ! 0 AND 0x0f) * 4"
  have ok: "20 \<le> ?h" "?h \<le> ?t" "?t \<le> length original" using assms by (auto simp: well_formed4_def)
  have "subslice 12 16 (take ?t original) = subslice 12 16 original" "subslice 16 20 (take ?t original) = subslice 16 20 original"
    "take ?t original ! 9 = original ! 9" "length (take ?t original) = ?t"
    using ok by (simp_all add: subslice_def drop_take)
  moreover have "?h < ?t \<Longrightarrow> take ?t original ! ?h = original ! ?h" by simp
  ultimately show ?thesis by (auto simp: suppressIPv4_def answerable4_def AddrFrom4_def Let_def)
qed

lemma suppressIPv6_spec: "\<not> suppressIPv6 original \<longleftrightarrow> answerable6 original"
  using icmp6_loop_spec [of original "original ! 6" 40 4] by (auto simp: suppressIPv6_def answerable6_def AddrFrom16_def Let_def)

lemma buildIPv4_outcome:
  assumes "well_formed4 original" and "96 \<le> length buf"
  shows "if answerable4 original then \<exists>r. buildIPv4 buf original source mtu = Inr r else buildIPv4 buf original source mtu = Inl ErrSuppressed"
  using assms suppressIPv4_spec [OF assms(1)] nibble_bound [of "original ! 0"]
  by (auto simp: buildIPv4_def well_formed4_def Let_def)

lemma buildIPv6_outcome:
  assumes "well_formed6 original" and "1280 \<le> length buf"
  shows "if answerable6 original then \<exists>r. buildIPv6 buf original source mtu = Inr r else buildIPv6 buf original source mtu = Inl ErrSuppressed"
  using assms suppressIPv6_spec [of original] by (auto simp: buildIPv6_def well_formed6_def MaxPacketTooBigSize_def Let_def)

subsection \<open>Properties\<close>

text \<open>
  C37.  Every Packet Too Big message is well formed.  If \<^verbatim>\<open>BuildPacketTooBig\<close> succeeds, the bytes it reports are a
  complete datagram, which the inner parser accepts, from the given source to the sender of the original;
  its checksums verify (for IPv6 over the pseudo header), it carries the MTU and quotes the original, it has
  at most 1280 bytes, and the rest of the buffer is untouched.
\<close>

theorem packet_too_big_valid:
  assumes "BuildPacketTooBig buf original source mtu = Inr (buf', n)" and "addr_wf source"
  shows "(if Is4 source then icmp4_too_big original source mtu (take n buf') else icmp6_too_big original source mtu (take n buf')) \<and>
    n \<le> MaxPacketTooBigSize \<and> drop n buf' = drop n buf \<and> length buf' = length buf"
proof -
  consider "Is4 source" "buildIPv4 buf original source mtu = Inr (buf', n)"
    | "Is6 source" "Zone source = []" "\<not> Is4 source" "buildIPv6 buf original source mtu = Inr (buf', n)"
    using assms(1) by (auto simp: BuildPacketTooBig_def Is4_def Is6_def split: if_splits addr.splits)
  then show ?thesis
  proof cases
    case 1
    then show ?thesis using buildIPv4_Inr [OF 1(2,1) assms(2)] by (simp add: MaxPacketTooBigSize_def)
  next
    case 2
    then show ?thesis using buildIPv6_Inr [OF 2(4,1,2) assms(2)] by (simp add: MaxPacketTooBigSize_def)
  qed
qed

definition sample_original :: bytes where
  "sample_original = [0x45, 0, 0, 28, 0, 0, 0x40, 0, 64, 17, 0, 0, 10, 0, 0, 1, 10, 0, 0, 2, 1, 2, 3, 4, 5, 6, 7, 8]"

theorem packet_too_big_valid_witness:
  "\<exists>buf' n. BuildPacketTooBig (replicate 60 9) sample_original (Addr4 [10, 0, 0, 2]) 1400 = Inr (buf', n) \<and>
     icmp4_too_big sample_original (Addr4 [10, 0, 0, 2]) 1400 (take n buf') \<and> drop n buf' = [9, 9, 9, 9]"
proof -
  have c: "case BuildPacketTooBig (replicate 60 9) sample_original (Addr4 [10, 0, 0, 2]) 1400 of
      Inl _ \<Rightarrow> False | Inr (_, n) \<Rightarrow> n = 56" by code_simp
  then obtain buf' where b: "BuildPacketTooBig (replicate 60 9) sample_original (Addr4 [10, 0, 0, 2]) 1400 = Inr (buf', 56)"
    by (auto split: sum.splits)
  have "drop 56 (replicate 60 (9 :: byte)) = [9, 9, 9, 9]" by (simp add: numeral_eq_Suc)
  then show ?thesis using packet_too_big_valid [OF b] b by (auto simp: addr_wf_def Is4_def)
qed


text \<open>An ICMP echo request is answered, an ICMP error is not.\<close>

definition sample_icmp :: "byte \<Rightarrow> bytes" where
  "sample_icmp type = [0x45, 0, 0, 24, 0, 0, 0, 0, 64, 1, 0, 0, 10, 0, 0, 1, 10, 0, 0, 2, type, 0, 0, 0]"


end
