(* ===== verification/ControlMessage.thy ===== *)
theory ControlMessage
  imports Prelude
begin

text \<open>
  \<^verbatim>\<open>proto/wire/v1/control.proto\<close>: the messages of the control protocol.  A field that is not set reads as its zero
  value, a body of another kind reads as nil (\<open>None\<close>), and so does every getter of a nil message.  The
  enumerations are open: a peer may send a number without a name.  The padding keeps its presence, since an
  empty padding that is set is written to the wire; for the other fields only the value matters here.
\<close>

datatype ResultCode =
    RESULT_CODE_UNSPECIFIED
  | RESULT_CODE_ACCEPTED
  | RESULT_CODE_INCOMPATIBLE_VERSION
  | RESULT_CODE_MISSING_REQUIRED_FEATURE
  | RESULT_CODE_INVALID_PARAMETER
  | RESULT_CODE_SESSION_COLLISION
  | RESULT_CODE_other int

datatype StateSyncReason = REASON_UNSPECIFIED | REASON_UNKNOWN_DATA_SESSION | REASON_other int

record CapabilitiesHello =
  ch_DataProtocolVersion :: u32
  ch_MaxFragments :: u32
  ch_MaxCarrierPayload :: u32
  ch_SupportedFeatureBits :: u64
  ch_RequiredFeatureBits :: u64
  ch_ReassemblyLifetimeMs :: u32

record CapabilitiesAck =
  ca_SelectedDataProtocolVersion :: u32
  ca_SelectedFeatureBits :: u64
  ca_Result :: ResultCode

record MtuProbeAck =
  pa_ReceivedProbePayloadSize :: u32

record ResetSequence =
  rq_DataSessionId :: u32

record ResetSequenceAck =
  rk_DataSessionId :: u32
  rk_Result :: ResultCode
  rk_LastReceivedCarrierPayload :: u32

record PeerMTU =
  pt_InnerMtu :: u32

record PeerMTUAck =
  pu_InnerMtu :: u32
  pu_Result :: ResultCode

record Ping =
  pi_Sequence :: u32

record Pong =
  po_Sequence :: u32

record StateSyncRequired =
  sy_Reason :: StateSyncReason
  sy_ObservedDataSessionId :: u32

datatype control_body =
    BodyCapabilitiesHello CapabilitiesHello
  | BodyMtuProbe
  | BodyMtuProbeAck MtuProbeAck
  | BodyPing Ping
  | BodyPong Pong
  | BodyCapabilitiesAck CapabilitiesAck
  | BodyResetSequence ResetSequence
  | BodyResetSequenceAck ResetSequenceAck
  | BodyPeerMTU PeerMTU
  | BodyPeerMTUAck PeerMTUAck
  | BodyStateSyncRequired StateSyncRequired

record Control =
  ct_MessageId :: u64
  ct_ReplyTo :: u64
  ct_ControlEpoch :: u64
  ct_Padding :: "bytes option"
  ct_Body :: "control_body option"

definition GetMessageId :: "Control option \<Rightarrow> u64" where
  "GetMessageId c = (case c of Some m \<Rightarrow> ct_MessageId m | None \<Rightarrow> 0)"

definition GetReplyTo :: "Control option \<Rightarrow> u64" where
  "GetReplyTo c = (case c of Some m \<Rightarrow> ct_ReplyTo m | None \<Rightarrow> 0)"

definition GetControlEpoch :: "Control option \<Rightarrow> u64" where
  "GetControlEpoch c = (case c of Some m \<Rightarrow> ct_ControlEpoch m | None \<Rightarrow> 0)"

definition GetPadding :: "Control option \<Rightarrow> bytes" where
  "GetPadding c = (case c of Some m \<Rightarrow> (case ct_Padding m of Some padding \<Rightarrow> padding | None \<Rightarrow> []) | None \<Rightarrow> [])"

definition GetBody :: "Control option \<Rightarrow> control_body option" where
  "GetBody c = Option.bind c ct_Body"

definition GetCapabilitiesHello :: "Control option \<Rightarrow> CapabilitiesHello option" where
  "GetCapabilitiesHello c = (case GetBody c of Some (BodyCapabilitiesHello m) \<Rightarrow> Some m | _ \<Rightarrow> None)"

definition GetCapabilitiesAck :: "Control option \<Rightarrow> CapabilitiesAck option" where
  "GetCapabilitiesAck c = (case GetBody c of Some (BodyCapabilitiesAck m) \<Rightarrow> Some m | _ \<Rightarrow> None)"

definition GetResetSequence :: "Control option \<Rightarrow> ResetSequence option" where
  "GetResetSequence c = (case GetBody c of Some (BodyResetSequence m) \<Rightarrow> Some m | _ \<Rightarrow> None)"

definition GetResetSequenceAck :: "Control option \<Rightarrow> ResetSequenceAck option" where
  "GetResetSequenceAck c = (case GetBody c of Some (BodyResetSequenceAck m) \<Rightarrow> Some m | _ \<Rightarrow> None)"

definition GetPeerMtu :: "Control option \<Rightarrow> PeerMTU option" where
  "GetPeerMtu c = (case GetBody c of Some (BodyPeerMTU m) \<Rightarrow> Some m | _ \<Rightarrow> None)"

definition GetPeerMtuAck :: "Control option \<Rightarrow> PeerMTUAck option" where
  "GetPeerMtuAck c = (case GetBody c of Some (BodyPeerMTUAck m) \<Rightarrow> Some m | _ \<Rightarrow> None)"

definition GetPing :: "Control option \<Rightarrow> Ping option" where
  "GetPing c = (case GetBody c of Some (BodyPing m) \<Rightarrow> Some m | _ \<Rightarrow> None)"

definition GetPong :: "Control option \<Rightarrow> Pong option" where
  "GetPong c = (case GetBody c of Some (BodyPong m) \<Rightarrow> Some m | _ \<Rightarrow> None)"

definition GetMtuProbeAck :: "Control option \<Rightarrow> MtuProbeAck option" where
  "GetMtuProbeAck c = (case GetBody c of Some (BodyMtuProbeAck m) \<Rightarrow> Some m | _ \<Rightarrow> None)"

definition GetMtuProbe :: "Control option \<Rightarrow> unit option" where
  "GetMtuProbe c = (case GetBody c of Some BodyMtuProbe \<Rightarrow> Some () | _ \<Rightarrow> None)"

definition GetStateSyncRequired :: "Control option \<Rightarrow> StateSyncRequired option" where
  "GetStateSyncRequired c = (case GetBody c of Some (BodyStateSyncRequired m) \<Rightarrow> Some m | _ \<Rightarrow> None)"

lemmas message_getters =
  GetMessageId_def GetReplyTo_def GetControlEpoch_def GetPadding_def GetBody_def GetCapabilitiesHello_def
  GetCapabilitiesAck_def GetResetSequence_def GetResetSequenceAck_def GetPeerMtu_def GetPeerMtuAck_def
  GetPing_def GetPong_def GetMtuProbeAck_def GetMtuProbe_def GetStateSyncRequired_def

end
