(* ===== verification/Expiry.thy ===== *)
theory Expiry
  imports Prelude
begin

text \<open>
  \<^verbatim>\<open>internal/core/control/state/expiry.go\<close>: a bounded set of keys with deadlines, a binary heap in a slice
  with an index from keys to positions.  A read of an absent key of a Go map gives zero.  The capacity
  hints of the allocations have no effect on the values.
\<close>

record 'k expiryEntry =
  ee_key :: 'k
  ee_expires :: gotime

record 'k expirySet =
  es_entries :: "'k expiryEntry list"
  es_index :: "'k \<rightharpoonup> nat"
  es_limit :: int

definition newExpirySet :: "int \<Rightarrow> 'k expirySet" where
  "newExpirySet limit = \<lparr>es_entries = [], es_index = Map.empty, es_limit = limit\<rparr>"

definition expiry_full :: "'k expirySet \<Rightarrow> bool" where
  "expiry_full s \<longleftrightarrow> int (length (es_entries s)) \<ge> es_limit s"

definition expiry_contains :: "'k expirySet \<Rightarrow> 'k \<Rightarrow> bool" where
  "expiry_contains s key \<longleftrightarrow> es_index s key \<noteq> None"

definition expiry_swap :: "'k expirySet \<Rightarrow> nat \<Rightarrow> nat \<Rightarrow> 'k expirySet" where
  "expiry_swap s left right =
     (let entries = (es_entries s)[left := es_entries s ! right, right := es_entries s ! left] in
      s\<lparr>es_entries := entries,
        es_index := (es_index s)(ee_key (entries ! left) \<mapsto> left, ee_key (entries ! right) \<mapsto> right)\<rparr>)"

lemma length_swap [simp]: "length (es_entries (expiry_swap s i j)) = length (es_entries s)"
  by (simp add: expiry_swap_def Let_def)

function siftUp :: "'k expirySet \<Rightarrow> nat \<Rightarrow> 'k expirySet" where
  "siftUp s index =
     (if index > 0 then
        (let parent = (index - 1) div 2 in
         if \<not> ee_expires (es_entries s ! index) < ee_expires (es_entries s ! parent) then s
         else siftUp (expiry_swap s index parent) parent)
      else s)"
  by pat_completeness auto
termination by (relation "measure snd") auto

function siftDown :: "'k expirySet \<Rightarrow> nat \<Rightarrow> 'k expirySet" where
  "siftDown s index =
     (let left = index * 2 + 1 in
      if left \<ge> length (es_entries s) then s
      else
        (let right = left + 1;
             smallest = (if right < length (es_entries s) \<and> ee_expires (es_entries s ! right) < ee_expires (es_entries s ! left)
                         then right else left)
         in
         if \<not> ee_expires (es_entries s ! smallest) < ee_expires (es_entries s ! index) then s
         else siftDown (expiry_swap s index smallest) smallest))"
  by pat_completeness auto
termination by (relation "measure (\<lambda>(s, index). length (es_entries s) - index)") auto

declare siftUp.simps [simp del] siftDown.simps [simp del]

definition expiry_retain :: "'k expirySet \<Rightarrow> 'k \<Rightarrow> gotime \<Rightarrow> 'k expirySet \<times> bool" where
  "expiry_retain s key expires =
     (case es_index s key of
        Some index \<Rightarrow>
          (if ee_expires (es_entries s ! index) < expires then
             (let s1 = s\<lparr>es_entries := (es_entries s)[index := (es_entries s ! index)\<lparr>ee_expires := expires\<rparr>]\<rparr>;
                  s2 = siftDown s1 index
              in (siftUp s2 (case es_index s2 key of Some i \<Rightarrow> i | None \<Rightarrow> 0), True))
           else (s, True))
      | None \<Rightarrow>
          (if expiry_full s then (s, False)
           else
             (let s1 = s\<lparr>es_index := (es_index s)(key \<mapsto> length (es_entries s)),
                         es_entries := es_entries s @ [\<lparr>ee_key = key, ee_expires = expires\<rparr>]\<rparr>
              in (siftUp s1 (length (es_entries s1) - 1), True))))"

lemma length_siftDown [simp]: "length (es_entries (siftDown s i)) = length (es_entries s)"
proof (induction s i rule: siftDown.induct)
  case (1 s i)
  then show ?case by (subst siftDown.simps) (simp add: Let_def)
qed

lemma length_siftUp [simp]: "length (es_entries (siftUp s i)) = length (es_entries s)"
proof (induction s i rule: siftUp.induct)
  case (1 s i)
  then show ?case by (subst siftUp.simps) (simp add: Let_def)
qed

function expiry_prune :: "'k expirySet \<Rightarrow> gotime \<Rightarrow> 'k expirySet" where
  "expiry_prune s now =
     (if length (es_entries s) \<noteq> 0 \<and> \<not> now < ee_expires (es_entries s ! 0) then
        (let last = length (es_entries s) - 1;
             key = ee_key (es_entries s ! 0);
             s1 = s\<lparr>es_index := (es_index s)(key := None)\<rparr>
         in
         if last = 0 then expiry_prune (s1\<lparr>es_entries := []\<rparr>) now
         else
           (let entries = (es_entries s1)[0 := es_entries s1 ! last];
                s2 = s1\<lparr>es_entries := take last entries, es_index := (es_index s1)(ee_key (entries ! 0) \<mapsto> 0)\<rparr>
            in expiry_prune (siftDown s2 0) now))
      else s)"
  by pat_completeness auto
termination by (relation "measure (\<lambda>(s, now). length (es_entries s))") (auto simp: Let_def)

declare expiry_prune.simps [simp del]

subsection \<open>The invariant\<close>

text \<open>
  \<open>indexed s\<close>: the index is exact.  \<open>heap_ok xs\<close>: no entry is due before its parent.  \<open>deadline s\<close> is the set
  seen as a map from keys to deadlines.
\<close>

definition indexed :: "'k expirySet \<Rightarrow> bool" where
  "indexed s \<longleftrightarrow> (\<forall>k i. es_index s k = Some i \<longleftrightarrow> i < length (es_entries s) \<and> ee_key (es_entries s ! i) = k)"

definition heap_ok :: "'k expiryEntry list \<Rightarrow> bool" where
  "heap_ok xs \<longleftrightarrow> (\<forall>i. 0 < i \<longrightarrow> i < length xs \<longrightarrow> ee_expires (xs ! ((i - 1) div 2)) \<le> ee_expires (xs ! i))"

definition deadline :: "'k expirySet \<Rightarrow> 'k \<rightharpoonup> gotime" where
  "deadline s k = map_option (\<lambda>i. ee_expires (es_entries s ! i)) (es_index s k)"

definition expiry_ok :: "'k expirySet \<Rightarrow> bool" where
  "expiry_ok s \<longleftrightarrow> indexed s \<and> heap_ok (es_entries s) \<and> 0 \<le> es_limit s \<and> int (length (es_entries s)) \<le> es_limit s"

lemma indexedD:
  assumes "indexed s"
  shows "i < length (es_entries s) \<Longrightarrow> es_index s (ee_key (es_entries s ! i)) = Some i"
    and "es_index s k = Some i \<Longrightarrow> i < length (es_entries s) \<and> ee_key (es_entries s ! i) = k"
    and "i < length (es_entries s) \<Longrightarrow> j < length (es_entries s) \<Longrightarrow> ee_key (es_entries s ! i) = ee_key (es_entries s ! j) \<Longrightarrow> i = j"
  using assms unfolding indexed_def by (metis option.inject)+

lemma swap_entries:
  assumes "i < length (es_entries s)" and "j < length (es_entries s)" and "i \<noteq> j"
  shows "es_entries (expiry_swap s i j) ! m =
    (if m = i then es_entries s ! j else if m = j then es_entries s ! i else es_entries s ! m)"
  using assms by (auto simp: expiry_swap_def Let_def nth_list_update)

lemma swap_index:
  assumes "i < length (es_entries s)" and "j < length (es_entries s)" and "i \<noteq> j" and "indexed s"
  shows "es_index (expiry_swap s i j) k =
    (if k = ee_key (es_entries s ! i) then Some j else if k = ee_key (es_entries s ! j) then Some i else es_index s k)"
  using assms indexedD(3) [OF assms(4), of i j] by (auto simp: expiry_swap_def Let_def)

lemma swap_ok:
  assumes "i < length (es_entries s)" and "j < length (es_entries s)" and "i \<noteq> j" and "indexed s"
  shows "indexed (expiry_swap s i j)" and "deadline (expiry_swap s i j) = deadline s" and "es_limit (expiry_swap s i j) = es_limit s"
proof -
  note e = swap_entries [OF assms(1-3)] and ix = swap_index [OF assms]
  note d = indexedD [OF assms(4)]
  have u: "ee_key (es_entries s ! a) = ee_key (es_entries s ! b) \<longleftrightarrow> a = b" if "a < length (es_entries s)" "b < length (es_entries s)" for a b
    using that d(3) by blast
  have iff: "es_index s k = Some m \<longleftrightarrow> m < length (es_entries s) \<and> ee_key (es_entries s ! m) = k" for k m
    using assms(4) by (simp add: indexed_def)
  show "indexed (expiry_swap s i j)"
    unfolding indexed_def length_swap
  proof (intro allI)
    fix k m
    show "es_index (expiry_swap s i j) k = Some m \<longleftrightarrow> m < length (es_entries s) \<and> ee_key (es_entries (expiry_swap s i j) ! m) = k"
    proof (cases "m = i \<or> m = j")
      case True
      then show ?thesis using assms(1-3) u by (auto simp: e ix iff)
    next
      case False
      then show ?thesis using assms(1-3) u [of _ m] u [of m] by (auto simp: e ix iff)
    qed
  qed
  show "deadline (expiry_swap s i j) = deadline s"
  proof
    fix k
    consider "k = ee_key (es_entries s ! i)" | "k = ee_key (es_entries s ! j)" "k \<noteq> ee_key (es_entries s ! i)"
      | "k \<noteq> ee_key (es_entries s ! i)" "k \<noteq> ee_key (es_entries s ! j)" by blast
    then show "deadline (expiry_swap s i j) k = deadline s k"
    proof cases
      case 3
      then have "es_index s k = Some m \<Longrightarrow> m \<noteq> i \<and> m \<noteq> j" for m by (auto simp: iff)
      then show ?thesis using 3 by (cases "es_index s k") (simp_all add: deadline_def e ix)
    qed (use d(1) [OF assms(1)] d(1) [OF assms(2)] assms(3) in \<open>simp_all add: deadline_def e ix\<close>)
  qed
  show "es_limit (expiry_swap s i j) = es_limit s" by (simp add: expiry_swap_def Let_def)
qed

subsection \<open>Sifting\<close>

text \<open>Positions whose order with their parent may be broken while an entry moves up, or down.\<close>

abbreviation parent_of :: "nat \<Rightarrow> nat" where
  "parent_of i \<equiv> (i - 1) div 2"

definition heap_but_up :: "'k expiryEntry list \<Rightarrow> nat \<Rightarrow> bool" where
  "heap_but_up xs i \<longleftrightarrow>
     (\<forall>j. 0 < j \<longrightarrow> j < length xs \<longrightarrow> j \<noteq> i \<longrightarrow> ee_expires (xs ! parent_of j) \<le> ee_expires (xs ! j)) \<and>
     (\<forall>j. 0 < j \<longrightarrow> j < length xs \<longrightarrow> parent_of j = i \<longrightarrow> 0 < i \<longrightarrow> ee_expires (xs ! parent_of i) \<le> ee_expires (xs ! j))"

definition heap_but_down :: "'k expiryEntry list \<Rightarrow> nat \<Rightarrow> bool" where
  "heap_but_down xs i \<longleftrightarrow>
     (\<forall>j. 0 < j \<longrightarrow> j < length xs \<longrightarrow> parent_of j \<noteq> i \<longrightarrow> ee_expires (xs ! parent_of j) \<le> ee_expires (xs ! j)) \<and>
     (\<forall>j. 0 < j \<longrightarrow> j < length xs \<longrightarrow> parent_of j = i \<longrightarrow> 0 < i \<longrightarrow> ee_expires (xs ! parent_of i) \<le> ee_expires (xs ! j))"

lemma parent_less: "0 < i \<Longrightarrow> parent_of i < i"
  by auto

text \<open>What a sift keeps.\<close>

definition sifted :: "'k expirySet \<Rightarrow> 'k expirySet \<Rightarrow> bool" where
  "sifted s s' \<longleftrightarrow> indexed s' \<and> deadline s' = deadline s \<and> es_limit s' = es_limit s \<and> length (es_entries s') = length (es_entries s)"

lemma sifted_swap:
  "i < length (es_entries s) \<Longrightarrow> j < length (es_entries s) \<Longrightarrow> i \<noteq> j \<Longrightarrow> indexed s \<Longrightarrow> sifted s (expiry_swap s i j)"
  by (simp add: sifted_def swap_ok)

lemma sifted_trans: "sifted s s' \<Longrightarrow> sifted s' s'' \<Longrightarrow> sifted s s''"
  by (simp add: sifted_def)

lemma siftUp_ok:
  assumes "indexed s" and "i < length (es_entries s)" and "heap_but_up (es_entries s) i"
  shows "sifted s (siftUp s i) \<and> heap_ok (es_entries (siftUp s i))"
  using assms
proof (induction s i rule: siftUp.induct)
  case (1 s i)
  let ?xs = "es_entries s" let ?p = "parent_of i"
  show ?case
  proof (cases "0 < i \<and> ee_expires (?xs ! i) < ee_expires (?xs ! ?p)")
    case True
    then have p: "?p < i" "?p < length ?xs" using 1(3) by auto
    let ?t = "expiry_swap s i ?p"
    have st: "sifted s ?t" by (rule sifted_swap) (use p 1(2,3) in auto)
    have e: "es_entries ?t ! m = (if m = i then ?xs ! ?p else if m = ?p then ?xs ! i else ?xs ! m)" for m
      by (rule swap_entries) (use p 1(3) in auto)
    have h: "\<And>j. 0 < j \<Longrightarrow> j < length ?xs \<Longrightarrow> j \<noteq> i \<Longrightarrow> ee_expires (?xs ! parent_of j) \<le> ee_expires (?xs ! j)"
      "\<And>j. 0 < j \<Longrightarrow> j < length ?xs \<Longrightarrow> parent_of j = i \<Longrightarrow> ee_expires (?xs ! ?p) \<le> ee_expires (?xs ! j)"
      using 1(4) True by (auto simp: heap_but_up_def)
    have lt: "ee_expires (?xs ! i) < ee_expires (?xs ! ?p)" using True by simp
    have "heap_but_up (es_entries ?t) ?p"
      unfolding heap_but_up_def length_swap e
    proof (intro conjI allI impI)
      fix j assume j: "0 < j" "j < length ?xs" "j \<noteq> ?p"
      have pj: "parent_of j < j" using j(1) by auto
      show "ee_expires (if parent_of j = i then ?xs ! ?p else if parent_of j = ?p then ?xs ! i else ?xs ! parent_of j)
          \<le> ee_expires (if j = i then ?xs ! ?p else if j = ?p then ?xs ! i else ?xs ! j)"
        using h(1) [OF j(1,2)] h(2) [OF j(1,2)] j lt pj by auto
    next
      fix j assume j: "0 < j" "j < length ?xs" "parent_of j = ?p" "0 < ?p"
      have pp: "parent_of ?p < ?p" using j(4) by auto
      have "ee_expires (?xs ! parent_of ?p) \<le> ee_expires (?xs ! ?p)" using h(1) [of ?p] j(4) p by auto
      moreover have "j \<noteq> i \<Longrightarrow> ee_expires (?xs ! ?p) \<le> ee_expires (?xs ! j)" using h(1) [OF j(1,2)] j(3) by simp
      moreover have "j \<noteq> ?p" using j(1,3) by auto
      ultimately show "ee_expires (if parent_of ?p = i then ?xs ! ?p else if parent_of ?p = ?p then ?xs ! i else ?xs ! parent_of ?p)
          \<le> ee_expires (if j = i then ?xs ! ?p else if j = ?p then ?xs ! i else ?xs ! j)"
        using pp p by auto
    qed
    then have "sifted ?t (siftUp ?t ?p) \<and> heap_ok (es_entries (siftUp ?t ?p))"
      using 1(1) [of ?p] True st p by (simp add: sifted_def)
    moreover have "siftUp s i = siftUp ?t ?p" using True by (subst siftUp.simps) (simp add: Let_def)
    ultimately show ?thesis using sifted_trans [OF st] by simp
  next
    case False
    then have "siftUp s i = s" by (cases "i = 0"; subst siftUp.simps) (simp_all add: Let_def)
    moreover have "heap_ok ?xs" 
      unfolding heap_ok_def
    proof (intro allI impI)
      fix j assume "0 < j" "j < length ?xs"
      then show "ee_expires (?xs ! parent_of j) \<le> ee_expires (?xs ! j)"
        using False 1(4) by (cases "j = i") (simp_all add: heap_but_up_def)
    qed
    ultimately show ?thesis using 1(2) by (simp add: sifted_def)
  qed
qed

lemma siftUp_heap: "heap_ok (es_entries s) \<Longrightarrow> i < length (es_entries s) \<Longrightarrow> siftUp s i = s"
  by (subst siftUp.simps) (auto simp: heap_ok_def Let_def not_less)

text \<open>The child a sift down descends to.\<close>

definition smaller_child :: "'k expiryEntry list \<Rightarrow> nat \<Rightarrow> nat" where
  "smaller_child xs i =
     (if i * 2 + 2 < length xs \<and> ee_expires (xs ! (i * 2 + 2)) < ee_expires (xs ! (i * 2 + 1)) then i * 2 + 2 else i * 2 + 1)"

lemma siftDown_unfold:
  "siftDown s i =
     (if i * 2 + 1 \<ge> length (es_entries s) then s
      else if \<not> ee_expires (es_entries s ! smaller_child (es_entries s) i) < ee_expires (es_entries s ! i) then s
      else siftDown (expiry_swap s i (smaller_child (es_entries s) i)) (smaller_child (es_entries s) i))"
  by (subst siftDown.simps) (simp add: smaller_child_def Let_def)

lemma children: "0 < j \<Longrightarrow> parent_of j = i \<longleftrightarrow> j = i * 2 + 1 \<or> j = i * 2 + 2"
  by auto

lemma smaller_child_min:
  assumes "0 < j" and "j < length xs" and "parent_of j = i"
  shows "ee_expires (xs ! smaller_child xs i) \<le> ee_expires (xs ! j)"
  using assms unfolding children [OF assms(1)] by (auto simp: smaller_child_def)

lemma siftDown_ok:
  assumes "indexed s" and "heap_but_down (es_entries s) i"
  shows "sifted s (siftDown s i) \<and> heap_ok (es_entries (siftDown s i))"
  using assms
proof (induction "length (es_entries s) - i" arbitrary: s i rule: less_induct)
  case less
  let ?xs = "es_entries s" let ?c = "smaller_child (es_entries s) i"
  have h: "\<And>j. 0 < j \<Longrightarrow> j < length ?xs \<Longrightarrow> parent_of j \<noteq> i \<Longrightarrow> ee_expires (?xs ! parent_of j) \<le> ee_expires (?xs ! j)"
    "\<And>j. 0 < j \<Longrightarrow> j < length ?xs \<Longrightarrow> parent_of j = i \<Longrightarrow> 0 < i \<Longrightarrow> ee_expires (?xs ! parent_of i) \<le> ee_expires (?xs ! j)"
    using less(3) by (auto simp: heap_but_down_def)
  show ?case
  proof (cases "i * 2 + 1 < length ?xs \<and> ee_expires (?xs ! ?c) < ee_expires (?xs ! i)")
    case True
    then have c: "i < ?c" "?c < length ?xs" "parent_of ?c = i" by (auto simp: smaller_child_def)
    let ?t = "expiry_swap s i ?c"
    have st: "sifted s ?t" by (rule sifted_swap) (use c less(2) in auto)
    have e: "es_entries ?t ! m = (if m = i then ?xs ! ?c else if m = ?c then ?xs ! i else ?xs ! m)" for m
      by (rule swap_entries) (use c in auto)
    have lt: "ee_expires (?xs ! ?c) < ee_expires (?xs ! i)" using True by simp
    have "heap_but_down (es_entries ?t) ?c"
      unfolding heap_but_down_def length_swap e
    proof (intro conjI allI impI)
      fix j assume j: "0 < j" "j < length ?xs" "parent_of j \<noteq> ?c"
      have pj: "parent_of j < j" using j(1) by auto
      show "ee_expires (if parent_of j = i then ?xs ! ?c else if parent_of j = ?c then ?xs ! i else ?xs ! parent_of j)
          \<le> ee_expires (if j = i then ?xs ! ?c else if j = ?c then ?xs ! i else ?xs ! j)"
        using h(1) [OF j(1,2)] h(2) [OF _ c(2,3)]
          smaller_child_min [OF j(1,2)] j lt pj c by auto
    next
      fix j assume j: "0 < j" "j < length ?xs" "parent_of j = ?c" "0 < ?c"
      have "?c < j" using j(1,3) by auto
      then show "ee_expires (if parent_of ?c = i then ?xs ! ?c else if parent_of ?c = ?c then ?xs ! i else ?xs ! parent_of ?c)
          \<le> ee_expires (if j = i then ?xs ! ?c else if j = ?c then ?xs ! i else ?xs ! j)"
        using h(1) [OF j(1,2)] j(3) c by auto
    qed
    moreover have "length (es_entries ?t) - ?c < length ?xs - i" using c by simp
    ultimately have "sifted ?t (siftDown ?t ?c) \<and> heap_ok (es_entries (siftDown ?t ?c))"
      using less(1) [of ?t ?c] st by (simp add: sifted_def)
    moreover have "siftDown s i = siftDown ?t ?c" using True by (subst siftDown_unfold) simp
    ultimately show ?thesis using sifted_trans [OF st] by simp
  next
    case False
    then have "siftDown s i = s" by (subst siftDown_unfold) auto
    moreover have "heap_ok ?xs" unfolding heap_ok_def
    proof (intro allI impI)
      fix j assume j: "0 < j" "j < length ?xs"
      show "ee_expires (?xs ! parent_of j) \<le> ee_expires (?xs ! j)"
      proof (cases "parent_of j = i")
        case True
        then have "i * 2 + 1 < length ?xs" using j by auto
        then show ?thesis using False smaller_child_min [OF j True] True by auto
      qed (rule h(1) [OF j])
    qed
    ultimately show ?thesis using less(2) by (simp add: sifted_def)
  qed
qed

subsection \<open>Retaining a key\<close>

lemma retain_later:
  assumes "expiry_ok s" and "es_index s key = Some i" and "ee_expires (es_entries s ! i) < t"
  shows "\<exists>s'. expiry_retain s key t = (s', True) \<and> expiry_ok s' \<and> deadline s' = (deadline s)(key \<mapsto> t) \<and> es_limit s' = es_limit s"
proof -
  let ?xs = "es_entries s"
  let ?s1 = "s\<lparr>es_entries := ?xs[i := (?xs ! i)\<lparr>ee_expires := t\<rparr>]\<rparr>"
  have ix: "indexed s" and hp: "\<And>j. 0 < j \<Longrightarrow> j < length ?xs \<Longrightarrow> ee_expires (?xs ! parent_of j) \<le> ee_expires (?xs ! j)"
    using assms(1) by (auto simp: expiry_ok_def heap_ok_def)
  have i: "i < length ?xs" "ee_key (?xs ! i) = key" using indexedD(2) [OF ix assms(2)] by auto
  have e: "es_entries ?s1 ! m = (if m = i then (?xs ! i)\<lparr>ee_expires := t\<rparr> else ?xs ! m)" for m
    using i(1) by (simp add: nth_list_update)
  have ix1: "indexed ?s1" using ix i(1) by (auto simp: indexed_def e nth_list_update)
  have d1: "deadline ?s1 = (deadline s)(key \<mapsto> t)"
  proof
    fix k show "deadline ?s1 k = ((deadline s)(key \<mapsto> t)) k"
    proof (cases "k = key")
      case False
      then have "es_index s k = Some m \<Longrightarrow> m \<noteq> i" for m using indexedD(2) [OF ix] i(2) by blast
      then show ?thesis using False by (cases "es_index s k") (simp_all add: deadline_def)
    qed (use assms(2) i(1) in \<open>simp add: deadline_def\<close>)
  qed
  have "heap_but_down (es_entries ?s1) i"
    unfolding heap_but_down_def
  proof (intro conjI allI impI)
    fix j assume j: "0 < j" "j < length (es_entries ?s1)" "parent_of j \<noteq> i"
    then show "ee_expires (es_entries ?s1 ! parent_of j) \<le> ee_expires (es_entries ?s1 ! j)"
      using hp [of j] assms(3) unfolding e by auto
  next
    fix j assume j: "0 < j" "j < length (es_entries ?s1)" "parent_of j = i" "0 < i"
    then have "i < j" "parent_of i < i" by auto
    then show "ee_expires (es_entries ?s1 ! parent_of i) \<le> ee_expires (es_entries ?s1 ! j)"
      using hp [of j] hp [of i] j i(1) unfolding e by auto
  qed
  from siftDown_ok [OF ix1 this] have d: "sifted ?s1 (siftDown ?s1 i)" "heap_ok (es_entries (siftDown ?s1 i))" by auto
  then have "deadline (siftDown ?s1 i) key = Some t" using d1 by (simp add: sifted_def)
  then obtain m where m: "es_index (siftDown ?s1 i) key = Some m" by (auto simp: deadline_def)
  then have "m < length (es_entries (siftDown ?s1 i))" using indexedD(2) [OF _ m] d(1) by (simp add: sifted_def)
  then have "siftUp (siftDown ?s1 i) m = siftDown ?s1 i" by (rule siftUp_heap [OF d(2)])
  then have "expiry_retain s key t = (siftDown ?s1 i, True)" using assms(2,3) m by (simp add: expiry_retain_def Let_def)
  then show ?thesis using d d1 assms(1) by (auto simp: sifted_def expiry_ok_def)
qed

lemma retain_new:
  assumes "expiry_ok s" and "es_index s key = None" and "\<not> expiry_full s"
  shows "\<exists>s'. expiry_retain s key t = (s', True) \<and> expiry_ok s' \<and> deadline s' = (deadline s)(key \<mapsto> t) \<and> es_limit s' = es_limit s"
proof -
  let ?xs = "es_entries s" let ?n = "length (es_entries s)"
  let ?s1 = "s\<lparr>es_index := (es_index s)(key \<mapsto> ?n), es_entries := ?xs @ [\<lparr>ee_key = key, ee_expires = t\<rparr>]\<rparr>"
  have ix: "indexed s" and hp: "\<And>j. 0 < j \<Longrightarrow> j < ?n \<Longrightarrow> ee_expires (?xs ! parent_of j) \<le> ee_expires (?xs ! j)"
    using assms(1) by (auto simp: expiry_ok_def heap_ok_def)
  have fresh: "j < ?n \<Longrightarrow> ee_key (?xs ! j) \<noteq> key" for j using indexedD(1) [OF ix] assms(2) by auto
  have ix1: "indexed ?s1"
    unfolding indexed_def
  proof (intro allI)
    fix k j
    show "es_index ?s1 k = Some j \<longleftrightarrow> j < length (es_entries ?s1) \<and> ee_key (es_entries ?s1 ! j) = k"
      using ix [unfolded indexed_def, rule_format, of k j] fresh [of j] by (auto simp: nth_append less_Suc_eq)
  qed
  have d1: "deadline ?s1 = (deadline s)(key \<mapsto> t)"
  proof
    fix k show "deadline ?s1 k = ((deadline s)(key \<mapsto> t)) k"
      using indexedD(2) [OF ix, of k] by (cases "es_index s k") (auto simp: deadline_def nth_append)
  qed
  have "heap_but_up (es_entries ?s1) ?n"
    unfolding heap_but_up_def
  proof (intro conjI allI impI)
    fix j assume j: "0 < j" "j < length (es_entries ?s1)" "j \<noteq> ?n"
    then have "parent_of j < ?n" "j < ?n" by auto
    then show "ee_expires (es_entries ?s1 ! parent_of j) \<le> ee_expires (es_entries ?s1 ! j)" using hp [OF j(1)] by (simp add: nth_append)
  next
    fix j assume j: "0 < j" "j < length (es_entries ?s1)" "parent_of j = ?n"
    then show "ee_expires (es_entries ?s1 ! parent_of ?n) \<le> ee_expires (es_entries ?s1 ! j)" by auto
  qed
  from siftUp_ok [OF ix1 _ this] have u: "sifted ?s1 (siftUp ?s1 ?n)" "heap_ok (es_entries (siftUp ?s1 ?n))" by auto
  have "expiry_retain s key t = (siftUp ?s1 ?n, True)" using assms(2,3) by (simp add: expiry_retain_def Let_def)
  then show ?thesis using u d1 assms(1,3) by (auto simp: sifted_def expiry_ok_def expiry_full_def)
qed

lemma retain_ok:
  assumes "expiry_ok s"
  shows "case expiry_retain s key t of (s', ok) \<Rightarrow>
    expiry_ok s' \<and> es_limit s' = es_limit s \<and> (ok \<longleftrightarrow> expiry_contains s key \<or> \<not> expiry_full s) \<and>
    deadline s' = (if ok then (deadline s)(key \<mapsto> (case deadline s key of Some d \<Rightarrow> max d t | None \<Rightarrow> t)) else deadline s)"
proof (cases "es_index s key")
  case None
  then show ?thesis
    using retain_new [OF assms None, of t] assms
    by (cases "expiry_full s") (auto simp: expiry_retain_def expiry_contains_def deadline_def)
next
  case (Some i)
  then have d: "deadline s key = Some (ee_expires (es_entries s ! i))" by (simp add: deadline_def)
  show ?thesis
  proof (cases "ee_expires (es_entries s ! i) < t")
    case True
    then show ?thesis using retain_later [OF assms Some True] Some d by (auto simp: expiry_contains_def max_def)
  next
    case False
    then have "expiry_retain s key t = (s, True)" using Some by (simp add: expiry_retain_def)
    then show ?thesis using assms Some d False by (auto simp: expiry_contains_def max_def)
  qed
qed

subsection \<open>Pruning\<close>

lemma root_min: "heap_ok xs \<Longrightarrow> i < length xs \<Longrightarrow> ee_expires (xs ! 0) \<le> ee_expires (xs ! i)"
proof (induction i rule: less_induct)
  case (less i)
  show ?case
  proof (cases "i = 0")
    case False
    then have "parent_of i < i" by auto
    moreover have "ee_expires (xs ! parent_of i) \<le> ee_expires (xs ! i)" using less.prems False by (auto simp: heap_ok_def)
    ultimately show ?thesis using less.IH [of "parent_of i"] less.prems by auto
  qed simp
qed

text \<open>One round: the root is replaced by the last entry, which sinks to its place.\<close>

definition drop_root :: "'k expirySet \<Rightarrow> 'k expirySet" where
  "drop_root s =
     (let last = length (es_entries s) - 1;
          key = ee_key (es_entries s ! 0);
          s1 = s\<lparr>es_index := (es_index s)(key := None)\<rparr>
      in
      if last = 0 then s1\<lparr>es_entries := []\<rparr>
      else
        (let entries = (es_entries s1)[0 := es_entries s1 ! last];
             s2 = s1\<lparr>es_entries := take last entries, es_index := (es_index s1)(ee_key (entries ! 0) \<mapsto> 0)\<rparr>
         in siftDown s2 0))"

lemma prune_unfold:
  "expiry_prune s now =
     (if es_entries s \<noteq> [] \<and> \<not> now < ee_expires (es_entries s ! 0) then expiry_prune (drop_root s) now else s)"
  by (subst expiry_prune.simps) (simp add: drop_root_def Let_def)

lemma drop_root_ok:
  assumes "expiry_ok s" and "es_entries s \<noteq> []"
  shows "expiry_ok (drop_root s)" and "deadline (drop_root s) = (deadline s)(ee_key (es_entries s ! 0) := None)"
    and "es_limit (drop_root s) = es_limit s" and "length (es_entries (drop_root s)) < length (es_entries s)"
proof -
  let ?xs = "es_entries s" let ?last = "length (es_entries s) - 1" let ?key = "ee_key (es_entries s ! 0)"
  have ix: "indexed s" and hp: "\<And>j. 0 < j \<Longrightarrow> j < length ?xs \<Longrightarrow> ee_expires (?xs ! parent_of j) \<le> ee_expires (?xs ! j)"
    using assms(1) by (auto simp: expiry_ok_def heap_ok_def)
  have iff: "es_index s k = Some j \<longleftrightarrow> j < length ?xs \<and> ee_key (?xs ! j) = k" for k j using ix by (simp add: indexed_def)
  have pos: "0 < length ?xs" using assms(2) by simp
  have goal: "expiry_ok (drop_root s) \<and> deadline (drop_root s) = (deadline s)(?key := None) \<and>
      es_limit (drop_root s) = es_limit s \<and> length (es_entries (drop_root s)) < length ?xs"
  proof (cases "?last = 0")
    case True
    then have l: "length ?xs = 1" using pos by linarith
    have none: "((es_index s)(?key := None)) k = None" for k using iff [of k "the (es_index s k)"] l by (cases "es_index s k") auto
    then have m: "(es_index s)(?key := None) = Map.empty" by (rule ext)
    have "((deadline s)(?key := None)) k = None" for k using none [of k] by (cases "k = ?key") (simp_all add: deadline_def)
    then have d: "(deadline s)(?key := None) = Map.empty" by (rule ext)
    have "drop_root s = s\<lparr>es_index := Map.empty, es_entries := []\<rparr>" using True m by (simp add: drop_root_def Let_def)
    then show ?thesis unfolding d using assms l by (simp add: expiry_ok_def indexed_def heap_ok_def deadline_def fun_eq_iff)
  next
    case False
    let ?es = "?xs[0 := ?xs ! ?last]"
    let ?s2 = "s\<lparr>es_entries := take ?last ?es, es_index := (es_index s)(?key := None, ee_key (?xs ! ?last) \<mapsto> 0)\<rparr>"
    have e: "es_entries ?s2 ! j = (if j = 0 then ?xs ! ?last else ?xs ! j)" "length (es_entries ?s2) = ?last" if "j < ?last" for j
      using that pos by (auto simp: nth_list_update)
    have u: "a < length ?xs \<Longrightarrow> b < length ?xs \<Longrightarrow> ee_key (?xs ! a) = ee_key (?xs ! b) \<longleftrightarrow> a = b" for a b
      using indexedD(3) [OF ix] by blast
    have lk: "ee_key (?xs ! ?last) \<noteq> ?key" using u [of ?last 0] pos False by auto
    have "indexed ?s2" unfolding indexed_def
    proof (intro allI)
      fix k j
      show "es_index ?s2 k = Some j \<longleftrightarrow> j < length (es_entries ?s2) \<and> ee_key (es_entries ?s2 ! j) = k"
      proof (cases "j < ?last")
        case True
        then show ?thesis
          using u [of j ?last] u [of j 0] lk e [OF True] iff [of k j] assms(2) by (cases "j = 0") auto
      next
        case j: False
        then have "j < length ?xs \<Longrightarrow> j = ?last" by linarith
        then show ?thesis using j e(2) [of 0] False iff [of k j] by auto
      qed
    qed
    moreover have "deadline ?s2 = (deadline s)(?key := None)"
    proof
      fix k
      consider "k = ?key" | "k = ee_key (?xs ! ?last)" | "k \<noteq> ?key" "k \<noteq> ee_key (?xs ! ?last)" by blast
      then show "deadline ?s2 k = ((deadline s)(?key := None)) k"
      proof cases
        case 2
        then show ?thesis using lk e(1) [of 0] False indexedD(1) [OF ix, of ?last] pos by (simp add: deadline_def)
      next
        case 3
        have "m \<noteq> 0 \<and> m < ?last" if "es_index s k = Some m" for m
        proof -
          have "m < length ?xs" "ee_key (?xs ! m) = k" using that iff by auto
          then show ?thesis using 3 by (metis Suc_pred' less_antisym pos)
        qed
        then show ?thesis using 3 e(1) by (cases "es_index s k") (auto simp: deadline_def)
      qed (use lk in \<open>simp add: deadline_def\<close>)
    qed
    moreover have "heap_but_down (es_entries ?s2) 0"
      unfolding heap_but_down_def
    proof (intro conjI allI impI)
      fix j assume j: "0 < j" "j < length (es_entries ?s2)" "parent_of j \<noteq> 0"
      then have "j < ?last" "parent_of j < ?last" by auto
      then show "ee_expires (es_entries ?s2 ! parent_of j) \<le> ee_expires (es_entries ?s2 ! j)" using hp [of j] j e(1) by auto
    qed simp
    moreover have "drop_root s = siftDown ?s2 0" using False pos by (simp add: drop_root_def Let_def)
    ultimately show ?thesis
      using siftDown_ok [of ?s2 0] e(2) [of 0] False assms(1) by (auto simp: sifted_def expiry_ok_def)
  qed
  then show "expiry_ok (drop_root s)" "deadline (drop_root s) = (deadline s)(?key := None)"
    "es_limit (drop_root s) = es_limit s" "length (es_entries (drop_root s)) < length ?xs" by auto
qed

lemma prune_ok:
  assumes "expiry_ok s"
  shows "expiry_ok (expiry_prune s now) \<and> es_limit (expiry_prune s now) = es_limit s \<and>
    deadline (expiry_prune s now) k = (case deadline s k of Some d \<Rightarrow> if now < d then Some d else None | None \<Rightarrow> None)"
  using assms
proof (induction "length (es_entries s)" arbitrary: s rule: less_induct)
  case less
  have ix: "indexed s" and hp: "heap_ok (es_entries s)" using less.prems by (auto simp: expiry_ok_def)
  show ?case
  proof (cases "es_entries s \<noteq> [] \<and> \<not> now < ee_expires (es_entries s ! 0)")
    case True
    note d = drop_root_ok [OF less.prems, OF True [THEN conjunct1]]
    have "deadline s (ee_key (es_entries s ! 0)) = Some (ee_expires (es_entries s ! 0))"
      using indexedD(1) [OF ix, of 0] True by (simp add: deadline_def)
    then show ?thesis using less.hyps [OF d(4,1)] True d(2,3) by (subst (1 2 3) prune_unfold) auto
  next
    case False
    have "now < x" if dk: "deadline s k = Some x" for x
    proof -
      obtain i where i: "es_index s k = Some i" "x = ee_expires (es_entries s ! i)" using dk by (auto simp: deadline_def)
      then have "i < length (es_entries s)" using indexedD(2) [OF ix] by blast
      then show ?thesis using root_min [OF hp] False i(2) by fastforce
    qed
    then show ?thesis using False less.prems by (subst (1 2 3) prune_unfold) (auto split: option.splits)
  qed
qed

subsection \<open>The contract\<close>

lemma dom_deadline: "dom (deadline s) = dom (es_index s)"
  by (auto simp: deadline_def dom_def)

lemma card_deadline:
  assumes "indexed s"
  shows "finite (dom (deadline s))" and "card (dom (deadline s)) = length (es_entries s)"
proof -
  have d: "dom (deadline s) = (\<lambda>i. ee_key (es_entries s ! i)) ` {..<length (es_entries s)}"
    using indexedD(1,2) [OF assms] unfolding dom_deadline by (force simp: dom_def)
  then show "finite (dom (deadline s))" by simp
  have "inj_on (\<lambda>i. ee_key (es_entries s ! i)) {..<length (es_entries s)}"
    using indexedD(3) [OF assms] by (intro inj_onI) simp
  then show "card (dom (deadline s)) = length (es_entries s)" unfolding d by (simp add: card_image)
qed

text \<open>
  What the control state relies on: a bounded map from keys to deadlines.  \<open>retain\<close> refuses only a new key of a
  full set and never shortens a deadline; \<open>prune\<close> removes exactly the keys that are due.
\<close>

locale deadline_set =
  fixes inv :: "'s \<Rightarrow> bool" and view :: "'s \<Rightarrow> 'k \<rightharpoonup> gotime" and limit :: "'s \<Rightarrow> int"
    and contains :: "'s \<Rightarrow> 'k \<Rightarrow> bool" and full :: "'s \<Rightarrow> bool"
    and retain :: "'s \<Rightarrow> 'k \<Rightarrow> gotime \<Rightarrow> 's \<times> bool" and prune :: "'s \<Rightarrow> gotime \<Rightarrow> 's"
  assumes contains_iff: "inv s \<Longrightarrow> contains s k \<longleftrightarrow> view s k \<noteq> None"
    and full_iff: "inv s \<Longrightarrow> full s \<longleftrightarrow> limit s \<le> int (card (dom (view s)))"
    and retain_law: "inv s \<Longrightarrow> retain s k t = (s', ok) \<Longrightarrow>
      inv s' \<and> limit s' = limit s \<and> (ok \<longleftrightarrow> contains s k \<or> \<not> full s) \<and>
      view s' = (if ok then (view s)(k \<mapsto> (case view s k of Some d \<Rightarrow> max d t | None \<Rightarrow> t)) else view s)"
    and prune_law: "inv s \<Longrightarrow> inv (prune s now) \<and> limit (prune s now) = limit s \<and>
      view (prune s now) k = (case view s k of Some d \<Rightarrow> if now < d then Some d else None | None \<Rightarrow> None)"
begin

text \<open>\<open>protects s k t\<close>: the key stays in the set at least until \<open>t\<close>.\<close>

definition protects :: "'s \<Rightarrow> 'k \<Rightarrow> gotime \<Rightarrow> bool" where
  "protects s k t \<longleftrightarrow> (\<exists>d. view s k = Some d \<and> t \<le> d)"

lemma protects_contains: "inv s \<Longrightarrow> protects s k t \<Longrightarrow> contains s k"
  by (auto simp: protects_def contains_iff)

lemma protects_retain:
  assumes "inv s" and "retain s k t = (s', ok)"
  shows "ok \<Longrightarrow> protects s' k t" and "protects s k' t' \<Longrightarrow> protects s' k' t'"
  using retain_law [OF assms] by (auto simp: protects_def split: option.splits if_splits)

lemma protects_prune: "inv s \<Longrightarrow> protects s k t \<Longrightarrow> now < t \<Longrightarrow> protects (prune s now) k t"
  using prune_law [of s now k] by (auto simp: protects_def)

lemma prune_contains: "inv s \<Longrightarrow> contains (prune s now) k \<Longrightarrow> contains s k"
  using prune_law [of s now k] by (auto simp: contains_iff split: option.splits)

lemma prune_due: "inv s \<Longrightarrow> view s k = Some d \<Longrightarrow> d \<le> now \<Longrightarrow> \<not> contains (prune s now) k"
  using prune_law [of s now k] by (auto simp: contains_iff)

lemma retain_inv: "inv s \<Longrightarrow> retain s k t = (s', ok) \<Longrightarrow> inv s'"
  using retain_law by blast

lemma prune_inv: "inv s \<Longrightarrow> inv (prune s now)"
  using prune_law by blast

end

interpretation es: deadline_set expiry_ok deadline es_limit expiry_contains expiry_full expiry_retain expiry_prune
proof
  fix s :: "'k expirySet" and k t s' ok now
  assume s: "expiry_ok s"
  then have ix: "indexed s" by (simp add: expiry_ok_def)
  show "expiry_contains s k \<longleftrightarrow> deadline s k \<noteq> None" by (simp add: expiry_contains_def deadline_def)
  show "expiry_full s \<longleftrightarrow> es_limit s \<le> int (card (dom (deadline s)))" by (simp add: expiry_full_def card_deadline [OF ix])
  show "expiry_ok (expiry_prune s now) \<and> es_limit (expiry_prune s now) = es_limit s \<and>
      deadline (expiry_prune s now) k = (case deadline s k of Some d \<Rightarrow> if now < d then Some d else None | None \<Rightarrow> None)"
    by (rule prune_ok [OF s])
  show "expiry_retain s k t = (s', ok) \<Longrightarrow>
      expiry_ok s' \<and> es_limit s' = es_limit s \<and> (ok \<longleftrightarrow> expiry_contains s k \<or> \<not> expiry_full s) \<and>
      deadline s' = (if ok then (deadline s)(k \<mapsto> (case deadline s k of Some d \<Rightarrow> max d t | None \<Rightarrow> t)) else deadline s)"
    using retain_ok [OF s, of k t] by simp
qed

lemma newExpirySet_ok: "0 \<le> limit \<Longrightarrow> expiry_ok (newExpirySet limit)" "deadline (newExpirySet limit) = Map.empty"
  by (simp_all add: newExpirySet_def expiry_ok_def indexed_def heap_ok_def deadline_def fun_eq_iff)

subsection \<open>Runs\<close>

datatype 'k expiry_op = ERetain 'k gotime | EPrune gotime

fun expiry_exec :: "'k expirySet \<Rightarrow> 'k expiry_op \<Rightarrow> 'k expirySet \<times> bool" where
  "expiry_exec s (ERetain k t) = expiry_retain s k t"
| "expiry_exec s (EPrune now) = (expiry_prune s now, True)"

text \<open>The specification: a partial map, its size bounded.\<close>

fun expiry_spec :: "int \<Rightarrow> ('k \<rightharpoonup> gotime) \<Rightarrow> 'k expiry_op \<Rightarrow> ('k \<rightharpoonup> gotime) \<times> bool" where
  "expiry_spec limit m (ERetain k t) =
     (case m k of
        Some d \<Rightarrow> (m(k \<mapsto> max d t), True)
      | None \<Rightarrow> if limit \<le> int (card (dom m)) then (m, False) else (m(k \<mapsto> t), True))"
| "expiry_spec limit m (EPrune now) = (\<lambda>k. case m k of Some d \<Rightarrow> if now < d then Some d else None | None \<Rightarrow> None, True)"

fun run_ops :: "('s \<Rightarrow> 'o \<Rightarrow> 's \<times> bool) \<Rightarrow> 's \<Rightarrow> 'o list \<Rightarrow> 's \<times> bool list" where
  "run_ops f s [] = (s, [])"
| "run_ops f s (x # xs) = (case f s x of (s', b) \<Rightarrow> case run_ops f s' xs of (s'', bs) \<Rightarrow> (s'', b # bs))"

lemma expiry_exec_refines:
  assumes "expiry_ok s"
  shows "expiry_ok (fst (expiry_exec s op))" and "es_limit (fst (expiry_exec s op)) = es_limit s"
    and "(deadline (fst (expiry_exec s op)), snd (expiry_exec s op)) = expiry_spec (es_limit s) (deadline s) op"
proof -
  have "expiry_ok (fst (expiry_exec s op)) \<and> es_limit (fst (expiry_exec s op)) = es_limit s \<and>
      (deadline (fst (expiry_exec s op)), snd (expiry_exec s op)) = expiry_spec (es_limit s) (deadline s) op"
  proof (cases op)
    case (ERetain k t)
    obtain s' ok where e: "expiry_retain s k t = (s', ok)" by (rule prod.exhaust)
    show ?thesis
      using es.retain_law [OF assms e] es.contains_iff [OF assms, of k] es.full_iff [OF assms]
      by (cases "deadline s k") (auto simp: ERetain e)
  next
    case (EPrune now)
    then show ?thesis using es.prune_law [OF assms, of now] by (auto simp: fun_eq_iff)
  qed
  then show "expiry_ok (fst (expiry_exec s op))" "es_limit (fst (expiry_exec s op)) = es_limit s"
    "(deadline (fst (expiry_exec s op)), snd (expiry_exec s op)) = expiry_spec (es_limit s) (deadline s) op" by auto
qed

lemma expiry_run:
  assumes "expiry_ok s"
  shows "expiry_ok (fst (run_ops expiry_exec s ops)) \<and> es_limit (fst (run_ops expiry_exec s ops)) = es_limit s \<and>
    (deadline (fst (run_ops expiry_exec s ops)), snd (run_ops expiry_exec s ops)) = run_ops (expiry_spec (es_limit s)) (deadline s) ops"
  using assms
proof (induction ops arbitrary: s)
  case (Cons op ops)
  note step = expiry_exec_refines [OF Cons.prems, of op]
  obtain s1 b where e: "expiry_exec s op = (s1, b)" by (rule prod.exhaust)
  obtain s2 bs where r: "run_ops expiry_exec s1 ops = (s2, bs)" by (rule prod.exhaust)
  have "expiry_spec (es_limit s) (deadline s) op = (deadline s1, b)" using step(3) by (simp add: e)
  moreover have "run_ops (expiry_spec (es_limit s)) (deadline s1) ops = (deadline s2, bs)" "expiry_ok s2" "es_limit s2 = es_limit s"
    using Cons.IH [of s1] step(1,2) by (simp_all add: e r)
  ultimately show ?case by (simp add: e r)
qed simp

text \<open>
  C12.  The heap of tombstones refines a bounded map.  From a new set, any sequence of \<^verbatim>\<open>retain\<close> and \<^verbatim>\<open>prune\<close> calls gives
  the same answers as the specification on partial maps: retaining a known key keeps the later deadline, a
  new key is refused exactly when the limit is reached, and pruning removes exactly the keys that are due.
  Membership and fullness agree with the map, the heap order and the exactness of the position index hold in
  every state, and the loops of the sifts and of \<^verbatim>\<open>prune\<close> terminate.
\<close>

theorem expiry_refines_map:
  assumes "0 \<le> limit"
  shows "case run_ops expiry_exec (newExpirySet limit) ops of (s, results) \<Rightarrow>
    run_ops (expiry_spec limit) Map.empty ops = (deadline s, results) \<and> expiry_ok s \<and>
    (\<forall>k. expiry_contains s k \<longleftrightarrow> k \<in> dom (deadline s)) \<and> (expiry_full s \<longleftrightarrow> limit \<le> int (card (dom (deadline s))))"
proof -
  obtain s results where r: "run_ops expiry_exec (newExpirySet limit) ops = (s, results)" by (rule prod.exhaust)
  have l: "es_limit (newExpirySet limit) = limit" by (simp add: newExpirySet_def)
  have "expiry_ok s" "es_limit s = limit" "run_ops (expiry_spec limit) Map.empty ops = (deadline s, results)"
    using expiry_run [OF newExpirySet_ok(1) [OF assms], of ops] by (simp_all add: r l newExpirySet_ok(2))
  then show ?thesis using es.contains_iff [of s] es.full_iff [of s] by (simp add: r dom_def)
qed

definition sample_expiry_ops :: "u16 expiry_op list" where
  "sample_expiry_ops = [ERetain 1 30, ERetain 2 10, ERetain 3 20, ERetain 4 5, ERetain 2 40, EPrune 20, ERetain 4 50]"

theorem expiry_refines_map_witness:
  "case run_ops expiry_exec (newExpirySet 3) sample_expiry_ops of (s, results) \<Rightarrow>
     results = [True, True, True, False, True, True, True] \<and> deadline s 2 = Some 40 \<and> \<not> expiry_contains s 3"
proof -
  have l: "(0 :: int) \<le> 3" by simp
  have "case run_ops expiry_exec (newExpirySet 3) sample_expiry_ops of (s, results) \<Rightarrow>
      results = [True, True, True, False, True, True, True] \<and> deadline s 2 = Some 40 \<and> deadline s 3 = None" by code_simp
  then show ?thesis using expiry_refines_map [OF l, of sample_expiry_ops] by (auto simp: domIff)
qed

end
