(* ===== verification/ControlState.thy ===== *)
theory ControlState
  imports ControlMessage Expiry Packing
begin

text \<open>
  \<^verbatim>\<open>internal/core/control/state/state.go\<close>: the control state of one peer, the gates that open outbound DATA and the
  sessions of both directions.  A reading of the clock is an argument \<open>now\<close>.  The entropy source is an
  interface: a function \<open>Uint64\<close> from its state to the new state and a value or an error.  A message
  argument may be nil.
\<close>

type_synonym ('r, 'e) entropy = "'r \<Rightarrow> 'r \<times> ('e + u64)"

datatype 'e control_state_error =
    cs_ErrInvalidConfig
  | ErrMissingClock
  | ErrMissingEntropy
  | ErrEntropyExhausted
  | ErrLocalExchangeBackoff
  | cs_entropy 'e

definition DataProtocolVersion :: u32 where "DataProtocolVersion = 1"
definition MinReassemblyLifetimeMs :: u32 where "MinReassemblyLifetimeMs = 100"
definition MaxReassemblyLifetimeMs :: u32 where "MaxReassemblyLifetimeMs = 60000"
definition InitialLocalExchangeBackoff :: duration where "InitialLocalExchangeBackoff = 200 * Millisecond"
definition MaxLocalExchangeBackoff :: duration where "MaxLocalExchangeBackoff = 60 * Second"
definition maxRetiredSessionEntries :: int where "maxRetiredSessionEntries = 4096"
definition maxRetiredEpochEntries :: int where "maxRetiredEpochEntries = 16384"
definition retiredEpochLifetime :: duration where "retiredEpochLifetime = 240 * Second"
definition maxCarrierPayload :: u32 where "maxCarrierPayload = 65535"

text \<open>The constants of \<open>Packing\<close> as the unsigned values they are compared with here.\<close>

abbreviation u32_of :: "int \<Rightarrow> u32" where
  "u32_of n \<equiv> of_int n"

record StateConfig =
  st_MaxCarrierPayload :: u32
  st_MinCarrierPayload :: u32
  st_SupportedFeatureBits :: u64
  st_RequiredFeatureBits :: u64
  st_ReassemblyLifetimeMs :: u32
  st_LocalPeerMTU :: u32
  st_StateSyncMinInterval :: duration
  st_HasClock :: bool
  st_HasEntropy :: bool

type_synonym Flags = u16

definition FlagLocalCapabilities :: Flags where "FlagLocalCapabilities = 1"
definition FlagRemoteCapabilities :: Flags where "FlagRemoteCapabilities = 2"
definition FlagLocalResetAck :: Flags where "FlagLocalResetAck = 4"
definition FlagLocalPeerMTUAck :: Flags where "FlagLocalPeerMTUAck = 8"
definition FlagRemotePeerMTU :: Flags where "FlagRemotePeerMTU = 16"
definition FlagPingPong :: Flags where "FlagPingPong = 32"
definition FlagBaseProbe :: Flags where "FlagBaseProbe = 64"

definition RequiredFlags :: Flags where
  "RequiredFlags = FlagLocalCapabilities OR FlagRemoteCapabilities OR FlagLocalResetAck OR FlagLocalPeerMTUAck OR
     FlagRemotePeerMTU OR FlagPingPong OR FlagBaseProbe"

text \<open>\<^verbatim>\<open>a &^ b\<close>\<close>

definition and_not :: "'a::len word \<Rightarrow> 'a word \<Rightarrow> 'a word" where
  "and_not a b = a AND NOT b"

record LocalExchange =
  lx_ControlEpoch :: u64
  lx_DataSessionID :: u16

record LocalExchangeRetry =
  lr_LocalExchange :: LocalExchange
  lr_RetryAt :: gotime
  lr_RetryAfter :: duration

record CapabilityDecision =
  cd_Result :: ResultCode
  cd_SelectedDataProtocolVersion :: u32
  cd_SelectedFeatureBits :: u64
  cd_SelectedCarrierPayload :: u32
  cd_StartReverseExchange :: bool

record ResetDecision =
  rd_Result :: ResultCode
  rd_DataSessionID :: u16
  rd_SessionChanged :: bool

record SessionDecision =
  sx_Accept :: bool
  sx_SendStateSyncRequired :: bool
  sx_Reason :: StateSyncReason
  sx_ObservedSessionID :: u32

definition PopulateStateSyncRequired :: "SessionDecision \<Rightarrow> StateSyncRequired option \<Rightarrow> StateSyncRequired option \<times> bool" where
  "PopulateStateSyncRequired d dst =
     (if \<not> sx_SendStateSyncRequired d then (dst, False)
      else (case dst of
              None \<Rightarrow> (None, False)
            | Some m \<Rightarrow> (Some (m\<lparr>sy_Reason := sx_Reason d, sy_ObservedDataSessionId := sx_ObservedSessionID d\<rparr>), True)))"

record State =
  ss_config :: StateConfig
  ss_flags :: Flags
  ss_localEpoch :: u64
  ss_remoteEpoch :: u64
  ss_localSessionID :: u16
  ss_remoteSessionID :: u16
  ss_retiredSessions :: "u16 expirySet"
  ss_localRetiredSessions :: "u16 expirySet"
  ss_retiredEpochs :: "u64 expirySet"
  ss_remoteSelectedFeatures :: u64
  ss_remoteMaxCarrierPayload :: u32
  ss_remoteReassemblyLifetimeMs :: u32
  ss_remotePeerMTU :: u32
  ss_pendingCapabilitiesAck :: bool
  ss_pendingSelectedFeatures :: u64
  ss_lastStateSync :: gotime
  ss_stateSyncSent :: bool
  ss_localExchangeRetryAt :: gotime
  ss_localExchangeRetryAttempt :: u64

definition NewState :: "StateConfig \<Rightarrow> 'e control_state_error + State" where
  "NewState config =
     (if \<not> st_HasClock config then Inl ErrMissingClock
      else if \<not> st_HasEntropy config then Inl ErrMissingEntropy
      else if st_MinCarrierPayload config < u32_of DefaultCarrierPayload \<or>
         st_MaxCarrierPayload config < st_MinCarrierPayload config \<or>
         st_MaxCarrierPayload config > maxCarrierPayload \<or>
         st_ReassemblyLifetimeMs config < MinReassemblyLifetimeMs \<or>
         st_ReassemblyLifetimeMs config > MaxReassemblyLifetimeMs \<or>
         st_LocalPeerMTU config < u32_of MinInnerMTU \<or> st_LocalPeerMTU config > u32_of MaxInnerMTU \<or>
         and_not (st_RequiredFeatureBits config) (st_SupportedFeatureBits config) \<noteq> 0 \<or>
         st_StateSyncMinInterval config \<le> 0
      then Inl cs_ErrInvalidConfig
      else Inr \<lparr>ss_config = config, ss_flags = 0, ss_localEpoch = 0, ss_remoteEpoch = 0, ss_localSessionID = 0, ss_remoteSessionID = 0,
                ss_retiredSessions = newExpirySet maxRetiredSessionEntries,
                ss_localRetiredSessions = newExpirySet maxRetiredSessionEntries,
                ss_retiredEpochs = newExpirySet maxRetiredEpochEntries,
                ss_remoteSelectedFeatures = 0, ss_remoteMaxCarrierPayload = 0, ss_remoteReassemblyLifetimeMs = 0, ss_remotePeerMTU = 0,
                ss_pendingCapabilitiesAck = False, ss_pendingSelectedFeatures = 0, ss_lastStateSync = 0, ss_stateSyncSent = False,
                ss_localExchangeRetryAt = 0, ss_localExchangeRetryAttempt = 0\<rparr>)"

subsection \<open>Retired sessions and epochs\<close>

definition pruneRetired :: "State \<Rightarrow> gotime \<Rightarrow> State" where
  "pruneRetired s now =
     s\<lparr>ss_retiredSessions := expiry_prune (ss_retiredSessions s) now,
       ss_localRetiredSessions := expiry_prune (ss_localRetiredSessions s) now,
       ss_retiredEpochs := expiry_prune (ss_retiredEpochs s) now\<rparr>"

definition isRetired :: "State \<Rightarrow> u16 \<Rightarrow> bool" where
  "isRetired s session = expiry_contains (ss_retiredSessions s) session"

definition retainRetired :: "State \<Rightarrow> u16 \<Rightarrow> gotime \<Rightarrow> State \<times> bool" where
  "retainRetired s session expires =
     (if session = 0 then (s, True)
      else (case expiry_retain (ss_retiredSessions s) session expires of (x, ok) \<Rightarrow> (s\<lparr>ss_retiredSessions := x\<rparr>, ok)))"

definition retainLocal :: "State \<Rightarrow> u16 \<Rightarrow> gotime \<Rightarrow> State \<times> bool" where
  "retainLocal s session expires =
     (if session = 0 then (s, True)
      else (case expiry_retain (ss_localRetiredSessions s) session expires of (x, ok) \<Rightarrow> (s\<lparr>ss_localRetiredSessions := x\<rparr>, ok)))"

definition lifetime_of :: "u32 \<Rightarrow> duration" where
  "lifetime_of ms = int (unat ms) * Millisecond"

definition localSessionLifetime :: "State \<Rightarrow> duration" where
  "localSessionLifetime s =
     (let lifetime = st_ReassemblyLifetimeMs (ss_config s) in
      lifetime_of (if ss_remoteReassemblyLifetimeMs s > lifetime then ss_remoteReassemblyLifetimeMs s else lifetime))"

subsection \<open>The local exchange\<close>

text \<open>\<open>next_loop\<close>: the loop of \<^verbatim>\<open>nextNonZero\<close> with \<open>n\<close> attempts left.\<close>

fun next_loop :: "('r, 'e) entropy \<Rightarrow> State \<Rightarrow> u64 \<Rightarrow> bool \<Rightarrow> nat \<Rightarrow> 'r \<Rightarrow> 'r \<times> ('e control_state_error + u64)" where
  "next_loop Uint64 s previous session 0 e = (e, Inl ErrEntropyExhausted)"
| "next_loop Uint64 s previous session (Suc n) e =
     (case Uint64 e of
        (e', Inl err) \<Rightarrow> (e', Inl (cs_entropy err))
      | (e', Inr value0) \<Rightarrow>
          (let value = (if session then value0 AND 0xffff else value0) in
           if value \<noteq> 0 \<and> value \<noteq> previous then
             (if session \<and> expiry_contains (ss_localRetiredSessions s) (ucast value)
              then next_loop Uint64 s previous session n e'
              else (e', Inr value))
           else next_loop Uint64 s previous session n e'))"

definition nextNonZero :: "('r, 'e) entropy \<Rightarrow> State \<Rightarrow> u64 \<Rightarrow> bool \<Rightarrow> 'r \<Rightarrow> 'r \<times> ('e control_state_error + u64)" where
  "nextNonZero Uint64 s previous session e = next_loop Uint64 s previous session 16 e"

definition local_gates :: Flags where
  "local_gates = FlagLocalCapabilities OR FlagLocalResetAck OR FlagLocalPeerMTUAck OR FlagPingPong OR FlagBaseProbe"

definition BeginLocalExchange ::
    "('r, 'e) entropy \<Rightarrow> State \<Rightarrow> gotime \<Rightarrow> 'r \<Rightarrow> State \<times> 'r \<times> ('e control_state_error + LocalExchange)" where
  "BeginLocalExchange Uint64 s now e =
     (if \<not> IsZero (ss_localExchangeRetryAt s) \<and> now < ss_localExchangeRetryAt s then (s, e, Inl ErrLocalExchangeBackoff)
      else
        (let s = pruneRetired s now in
         if ss_localSessionID s \<noteq> 0 \<and> \<not> expiry_contains (ss_localRetiredSessions s) (ss_localSessionID s) \<and>
            expiry_full (ss_localRetiredSessions s)
         then (s, e, Inl ErrEntropyExhausted)
         else
           (case nextNonZero Uint64 s (ss_localEpoch s) False e of
              (e1, Inl err) \<Rightarrow> (s, e1, Inl err)
            | (e1, Inr epoch) \<Rightarrow>
                (case nextNonZero Uint64 s (ucast (ss_localSessionID s)) True e1 of
                   (e2, Inl err) \<Rightarrow> (s, e2, Inl err)
                 | (e2, Inr session) \<Rightarrow>
                     (case (if ss_localSessionID s \<noteq> 0
                            then retainLocal s (ss_localSessionID s) (now + localSessionLifetime s) else (s, True)) of
                        (s1, False) \<Rightarrow> (s1, e2, Inl ErrEntropyExhausted)
                      | (s1, True) \<Rightarrow>
                          (s1\<lparr>ss_localEpoch := epoch, ss_localSessionID := ucast session, ss_flags := and_not (ss_flags s1) local_gates,
                              ss_pendingCapabilitiesAck := False, ss_pendingSelectedFeatures := 0\<rparr>,
                           e2, Inr \<lparr>lx_ControlEpoch = epoch, lx_DataSessionID = ucast session\<rparr>))))))"

fun backoff_loop :: "nat \<Rightarrow> duration \<Rightarrow> duration" where
  "backoff_loop 0 delay = delay"
| "backoff_loop (Suc n) delay = (if delay < MaxLocalExchangeBackoff then backoff_loop n (delay * 2) else delay)"

definition localExchangeBackoff :: "('r, 'e) entropy \<Rightarrow> u64 \<Rightarrow> 'r \<Rightarrow> 'r \<times> duration" where
  "localExchangeBackoff Uint64 attempt e =
     (let delay0 = backoff_loop (unat attempt) InitialLocalExchangeBackoff;
          delay = (if delay0 > MaxLocalExchangeBackoff then MaxLocalExchangeBackoff else delay0)
      in case Uint64 e of
           (e', Inl err) \<Rightarrow> (e', delay)
         | (e', Inr random) \<Rightarrow> (e', int (unat random) mod delay + 1))"

definition LocalExchangeID :: "State \<Rightarrow> LocalExchange" where
  "LocalExchangeID s = \<lparr>lx_ControlEpoch = ss_localEpoch s, lx_DataSessionID = ss_localSessionID s\<rparr>"

text \<open>
  \<open>now\<close> is the reading of \<^verbatim>\<open>RestartLocalExchange\<close> and \<open>now'\<close> that of the \<^verbatim>\<open>BeginLocalExchange\<close> it calls.  With
  \<^verbatim>\<open>ErrLocalExchangeBackoff\<close> the pending retry is returned beside the error.
\<close>

definition RestartLocalExchange ::
    "('r, 'e) entropy \<Rightarrow> State \<Rightarrow> gotime \<Rightarrow> gotime \<Rightarrow> 'r \<Rightarrow>
     State \<times> 'r \<times> LocalExchangeRetry option \<times> 'e control_state_error option" where
  "RestartLocalExchange Uint64 s now now' e =
     (if \<not> IsZero (ss_localExchangeRetryAt s) \<and> now < ss_localExchangeRetryAt s
      then (s, e, Some \<lparr>lr_LocalExchange = LocalExchangeID s, lr_RetryAt = ss_localExchangeRetryAt s,
                        lr_RetryAfter = ss_localExchangeRetryAt s - now\<rparr>, Some ErrLocalExchangeBackoff)
      else
        (case BeginLocalExchange Uint64 s now' e of
           (s1, e1, Inl err) \<Rightarrow> (s1, e1, None, Some err)
         | (s1, e1, Inr exchange) \<Rightarrow>
             (case localExchangeBackoff Uint64 (ss_localExchangeRetryAttempt s1) e1 of
                (e2, backoff) \<Rightarrow>
                  (s1\<lparr>ss_localExchangeRetryAttempt := ss_localExchangeRetryAttempt s1 + 1, ss_localExchangeRetryAt := now + backoff\<rparr>,
                   e2, Some \<lparr>lr_LocalExchange = exchange, lr_RetryAt = now + backoff, lr_RetryAfter = backoff\<rparr>, None))))"

definition LocalExchangeRetryReady :: "State \<Rightarrow> gotime \<Rightarrow> bool" where
  "LocalExchangeRetryReady s now = (IsZero (ss_localExchangeRetryAt s) \<or> \<not> now < ss_localExchangeRetryAt s)"

definition LocalExchangeRetryAt :: "State \<Rightarrow> gotime" where
  "LocalExchangeRetryAt s = ss_localExchangeRetryAt s"

definition LocalCapabilities :: "State \<Rightarrow> CapabilitiesHello" where
  "LocalCapabilities s =
     \<lparr>ch_DataProtocolVersion = DataProtocolVersion, ch_MaxFragments = u32_of MaxFragments,
      ch_MaxCarrierPayload = st_MaxCarrierPayload (ss_config s), ch_SupportedFeatureBits = st_SupportedFeatureBits (ss_config s),
      ch_RequiredFeatureBits = st_RequiredFeatureBits (ss_config s),
      ch_ReassemblyLifetimeMs = st_ReassemblyLifetimeMs (ss_config s)\<rparr>"

definition LocalPeerMTU :: "State \<Rightarrow> PeerMTU" where
  "LocalPeerMTU s = \<lparr>pt_InnerMtu = st_LocalPeerMTU (ss_config s)\<rparr>"

subsection \<open>Queries\<close>

definition ReadyFlags :: "State \<Rightarrow> Flags" where
  "ReadyFlags s = ss_flags s"

definition MissingFlags :: "State \<Rightarrow> Flags" where
  "MissingFlags s = and_not RequiredFlags (ss_flags s)"

definition DataSendAllowed :: "State \<Rightarrow> bool" where
  "DataSendAllowed s \<longleftrightarrow> ss_flags s AND RequiredFlags = RequiredFlags"

definition ResetPathGates :: "State \<Rightarrow> State" where
  "ResetPathGates s = s\<lparr>ss_flags := and_not (ss_flags s) (FlagPingPong OR FlagBaseProbe)\<rparr>"

definition IsRemoteEpochRetired :: "State \<Rightarrow> gotime \<Rightarrow> u64 \<Rightarrow> State \<times> bool" where
  "IsRemoteEpochRetired s now epoch =
     (if epoch = 0 then (s, False)
      else
        (let s1 = s\<lparr>ss_retiredEpochs := expiry_prune (ss_retiredEpochs s) now\<rparr> in
         (s1, expiry_contains (ss_retiredEpochs s1) epoch)))"

definition State_RemotePeerMTU :: "State \<Rightarrow> u32" where
  "State_RemotePeerMTU s = ss_remotePeerMTU s"

definition RemoteReassemblyLifetimeMs :: "State \<Rightarrow> u32" where
  "RemoteReassemblyLifetimeMs s = ss_remoteReassemblyLifetimeMs s"

definition NegotiatedCarrierPayload :: "State \<Rightarrow> u32" where
  "NegotiatedCarrierPayload s =
     (if ss_remoteMaxCarrierPayload s = 0 \<or> ss_flags s AND FlagRemoteCapabilities = 0 then 0
      else min (st_MaxCarrierPayload (ss_config s)) (ss_remoteMaxCarrierPayload s))"

definition LocalMaxCarrierPayload :: "State \<Rightarrow> u32" where
  "LocalMaxCarrierPayload s = st_MaxCarrierPayload (ss_config s)"

definition RemoteDataSessionID :: "State \<Rightarrow> u16" where
  "RemoteDataSessionID s = ss_remoteSessionID s"

subsection \<open>Validation\<close>

definition zero_decision :: "ResultCode \<Rightarrow> CapabilityDecision" where
  "zero_decision code =
     \<lparr>cd_Result = code, cd_SelectedDataProtocolVersion = 0, cd_SelectedFeatureBits = 0, cd_SelectedCarrierPayload = 0,
      cd_StartReverseExchange = False\<rparr>"

definition ValidateCapabilities :: "StateConfig \<Rightarrow> CapabilitiesHello option \<Rightarrow> CapabilityDecision" where
  "ValidateCapabilities local remote =
     (case remote of
        None \<Rightarrow> zero_decision RESULT_CODE_INVALID_PARAMETER
      | Some hello \<Rightarrow>
          (if ch_DataProtocolVersion hello \<noteq> DataProtocolVersion then zero_decision RESULT_CODE_INCOMPATIBLE_VERSION
           else if ch_MaxFragments hello \<noteq> u32_of MaxFragments \<or>
              ch_MaxCarrierPayload hello < u32_of DefaultCarrierPayload \<or>
              ch_MaxCarrierPayload hello < st_MinCarrierPayload local \<or>
              ch_MaxCarrierPayload hello > maxCarrierPayload \<or>
              ch_ReassemblyLifetimeMs hello < MinReassemblyLifetimeMs \<or>
              ch_ReassemblyLifetimeMs hello > MaxReassemblyLifetimeMs
           then zero_decision RESULT_CODE_INVALID_PARAMETER
           else if and_not (st_RequiredFeatureBits local) (ch_SupportedFeatureBits hello) \<noteq> 0 \<or>
              and_not (ch_RequiredFeatureBits hello) (st_SupportedFeatureBits local) \<noteq> 0
           then zero_decision RESULT_CODE_MISSING_REQUIRED_FEATURE
           else \<lparr>cd_Result = RESULT_CODE_ACCEPTED, cd_SelectedDataProtocolVersion = DataProtocolVersion,
                 cd_SelectedFeatureBits = st_SupportedFeatureBits local AND ch_SupportedFeatureBits hello,
                 cd_SelectedCarrierPayload = min (st_MaxCarrierPayload local) (ch_MaxCarrierPayload hello),
                 cd_StartReverseExchange = False\<rparr>))"

definition validatePeerMTUValue :: "u32 \<Rightarrow> ResultCode" where
  "validatePeerMTUValue innerMTU =
     (if innerMTU < u32_of MinInnerMTU \<or> innerMTU > u32_of MaxInnerMTU then RESULT_CODE_INVALID_PARAMETER else RESULT_CODE_ACCEPTED)"

definition ValidatePeerMTU :: "PeerMTU option \<Rightarrow> ResultCode" where
  "ValidatePeerMTU peerMTU =
     (case peerMTU of None \<Rightarrow> RESULT_CODE_INVALID_PARAMETER | Some m \<Rightarrow> validatePeerMTUValue (pt_InnerMtu m))"

definition ValidateDataSessionID :: "u32 \<Rightarrow> ResultCode" where
  "ValidateDataSessionID dataSessionID =
     (if dataSessionID = 0 \<or> dataSessionID > 65535 then RESULT_CODE_INVALID_PARAMETER else RESULT_CODE_ACCEPTED)"

definition validRequest :: "Control option \<Rightarrow> bool" where
  "validRequest control \<longleftrightarrow>
     control \<noteq> None \<and> GetMessageId control \<noteq> 0 \<and> GetReplyTo control = 0 \<and> GetControlEpoch control \<noteq> 0"

definition validResponse :: "State \<Rightarrow> Control option \<Rightarrow> u64 \<Rightarrow> bool" where
  "validResponse s control expectedReplyTo \<longleftrightarrow>
     control \<noteq> None \<and> GetMessageId control \<noteq> 0 \<and> expectedReplyTo \<noteq> 0 \<and> GetReplyTo control = expectedReplyTo \<and>
     ss_localEpoch s \<noteq> 0 \<and> GetControlEpoch control = ss_localEpoch s"

definition validRemoteRequest :: "State \<Rightarrow> Control option \<Rightarrow> bool" where
  "validRemoteRequest s control \<longleftrightarrow>
     validRequest control \<and> ss_flags s AND FlagRemoteCapabilities \<noteq> 0 \<and> GetControlEpoch control = ss_remoteEpoch s"

definition reconcileCapabilitiesAck :: "State \<Rightarrow> State" where
  "reconcileCapabilitiesAck s =
     (let s1 = s\<lparr>ss_flags := and_not (ss_flags s) FlagLocalCapabilities\<rparr> in
      if \<not> ss_pendingCapabilitiesAck s1 \<or> ss_flags s1 AND FlagRemoteCapabilities = 0 then s1
      else if ss_pendingSelectedFeatures s1 = ss_remoteSelectedFeatures s1
      then s1\<lparr>ss_flags := ss_flags s1 OR FlagLocalCapabilities\<rparr> else s1)"

definition clearRemoteEpoch :: "State \<Rightarrow> gotime \<Rightarrow> State \<times> bool" where
  "clearRemoteEpoch s now =
     (case (if ss_remoteEpoch s \<noteq> 0
            then (case expiry_retain (ss_retiredEpochs s) (ss_remoteEpoch s) (now + retiredEpochLifetime) of
                    (x, ok) \<Rightarrow> (s\<lparr>ss_retiredEpochs := x\<rparr>, ok))
            else (s, True)) of
        (s1, False) \<Rightarrow> (s1, False)
      | (s1, True) \<Rightarrow>
          (case (if ss_remoteSessionID s1 \<noteq> 0
                 then retainRetired s1 (ss_remoteSessionID s1) (now + lifetime_of (st_ReassemblyLifetimeMs (ss_config s1)))
                 else (s1, True)) of
             (s2, False) \<Rightarrow> (s2, False)
           | (s2, True) \<Rightarrow>
               (s2\<lparr>ss_flags := 0, ss_remoteSessionID := 0, ss_remotePeerMTU := 0, ss_remoteSelectedFeatures := 0,
                   ss_remoteMaxCarrierPayload := 0, ss_remoteReassemblyLifetimeMs := 0, ss_pendingCapabilitiesAck := False,
                   ss_pendingSelectedFeatures := 0\<rparr>, True)))"

subsection \<open>Messages of the peer\<close>

text \<open>The tail of \<^verbatim>\<open>ObserveCapabilitiesHello\<close> once the epoch is settled.\<close>

definition record_hello :: "State \<Rightarrow> u64 \<Rightarrow> CapabilitiesHello \<Rightarrow> CapabilityDecision \<Rightarrow> bool \<Rightarrow> State \<times> CapabilityDecision" where
  "record_hello s epoch hello decision startReverseExchange =
     (reconcileCapabilitiesAck
        (s\<lparr>ss_remoteEpoch := epoch, ss_remoteSelectedFeatures := cd_SelectedFeatureBits decision,
           ss_remoteMaxCarrierPayload := ch_MaxCarrierPayload hello, ss_remoteReassemblyLifetimeMs := ch_ReassemblyLifetimeMs hello,
           ss_flags := ss_flags s OR FlagRemoteCapabilities\<rparr>),
      decision\<lparr>cd_StartReverseExchange := startReverseExchange\<rparr>)"

definition ObserveCapabilitiesHello :: "State \<Rightarrow> gotime \<Rightarrow> Control option \<Rightarrow> State \<times> CapabilityDecision" where
  "ObserveCapabilitiesHello s now control =
     (if \<not> validRequest control \<or> GetCapabilitiesHello control = None \<or> length (GetPadding control) \<noteq> 0
      then (s, zero_decision RESULT_CODE_INVALID_PARAMETER)
      else
        (let hello = the (GetCapabilitiesHello control);
             decision = ValidateCapabilities (ss_config s) (Some hello)
         in
         if cd_Result decision \<noteq> RESULT_CODE_ACCEPTED then (s, decision)
         else
           (let s1 = pruneRetired s now;
                epoch = GetControlEpoch control
            in
            if ss_remoteEpoch s1 \<noteq> 0 \<and> ss_remoteEpoch s1 \<noteq> epoch then
              (if expiry_contains (ss_retiredEpochs s1) epoch \<or> expiry_full (ss_retiredEpochs s1) \<or>
                  (ss_remoteSessionID s1 \<noteq> 0 \<and> \<not> expiry_contains (ss_retiredSessions s1) (ss_remoteSessionID s1) \<and>
                   expiry_full (ss_retiredSessions s1))
               then (s1, zero_decision RESULT_CODE_INVALID_PARAMETER)
               else
                 (case clearRemoteEpoch s1 now of
                    (s2, False) \<Rightarrow> (s2, zero_decision RESULT_CODE_INVALID_PARAMETER)
                  | (s2, True) \<Rightarrow> record_hello s2 epoch hello decision True))
            else record_hello s1 epoch hello decision (ss_localEpoch s1 = 0))))"

definition ObserveCapabilitiesAck :: "State \<Rightarrow> Control option \<Rightarrow> u64 \<Rightarrow> State \<times> ResultCode" where
  "ObserveCapabilitiesAck s control expectedReplyTo =
     (case GetCapabilitiesAck control of
        None \<Rightarrow> (s, RESULT_CODE_INVALID_PARAMETER)
      | Some ack \<Rightarrow>
          (if length (GetPadding control) \<noteq> 0 \<or> \<not> validResponse s control expectedReplyTo then (s, RESULT_CODE_INVALID_PARAMETER)
           else if ca_Result ack \<noteq> RESULT_CODE_ACCEPTED
           then (s\<lparr>ss_flags := and_not (ss_flags s) FlagLocalCapabilities\<rparr>, ca_Result ack)
           else if ca_SelectedDataProtocolVersion ack \<noteq> DataProtocolVersion \<or>
              and_not (ca_SelectedFeatureBits ack) (st_SupportedFeatureBits (ss_config s)) \<noteq> 0 \<or>
              and_not (st_RequiredFeatureBits (ss_config s)) (ca_SelectedFeatureBits ack) \<noteq> 0
           then (s\<lparr>ss_flags := and_not (ss_flags s) FlagLocalCapabilities\<rparr>, RESULT_CODE_INVALID_PARAMETER)
           else
             (let s1 = reconcileCapabilitiesAck
                         (s\<lparr>ss_pendingCapabilitiesAck := True, ss_pendingSelectedFeatures := ca_SelectedFeatureBits ack\<rparr>)
              in
              if ss_flags s1 AND FlagRemoteCapabilities \<noteq> 0 \<and> ss_flags s1 AND FlagLocalCapabilities = 0
              then (s1, RESULT_CODE_INVALID_PARAMETER) else (s1, RESULT_CODE_ACCEPTED))))"

definition reset_decision :: "ResultCode \<Rightarrow> u16 \<Rightarrow> bool \<Rightarrow> ResetDecision" where
  "reset_decision code session changed = \<lparr>rd_Result = code, rd_DataSessionID = session, rd_SessionChanged = changed\<rparr>"

definition ObserveResetSequence :: "State \<Rightarrow> gotime \<Rightarrow> Control option \<Rightarrow> State \<times> ResetDecision" where
  "ObserveResetSequence s now control =
     (if \<not> validRemoteRequest s control \<or> GetResetSequence control = None \<or> length (GetPadding control) \<noteq> 0
      then (s, reset_decision RESULT_CODE_INVALID_PARAMETER 0 False)
      else
        (let reset = the (GetResetSequence control) in
         if ValidateDataSessionID (rq_DataSessionId reset) \<noteq> RESULT_CODE_ACCEPTED
         then (s, reset_decision RESULT_CODE_INVALID_PARAMETER 0 False)
         else
           (let session = ucast (rq_DataSessionId reset);
                s1 = pruneRetired s now
            in
            if ss_remoteSessionID s1 \<noteq> 0 \<and> ss_remoteSessionID s1 = session
            then (s1, reset_decision RESULT_CODE_SESSION_COLLISION session False)
            else if isRetired s1 session then (s1, reset_decision RESULT_CODE_SESSION_COLLISION session False)
            else if ss_remoteSessionID s1 \<noteq> 0 \<and> \<not> expiry_contains (ss_retiredSessions s1) (ss_remoteSessionID s1) \<and>
               expiry_full (ss_retiredSessions s1)
            then (s1, reset_decision RESULT_CODE_SESSION_COLLISION session False)
            else
              (let decision = reset_decision RESULT_CODE_ACCEPTED session (ss_remoteSessionID s1 \<noteq> session);
                   s2 = (if ss_remoteSessionID s1 \<noteq> 0
                         then fst (retainRetired s1 (ss_remoteSessionID s1) (now + lifetime_of (st_ReassemblyLifetimeMs (ss_config s1))))
                         else s1)
               in (s2\<lparr>ss_remoteSessionID := session\<rparr>, decision)))))"

definition ObserveResetSequenceAck :: "State \<Rightarrow> Control option \<Rightarrow> u64 \<Rightarrow> State \<times> ResultCode" where
  "ObserveResetSequenceAck s control expectedReplyTo =
     (case GetResetSequenceAck control of
        None \<Rightarrow> (s, RESULT_CODE_INVALID_PARAMETER)
      | Some ack \<Rightarrow>
          (if length (GetPadding control) \<noteq> 0 \<or> \<not> validResponse s control expectedReplyTo then (s, RESULT_CODE_INVALID_PARAMETER)
           else if rk_Result ack \<noteq> RESULT_CODE_ACCEPTED
           then (s\<lparr>ss_flags := and_not (ss_flags s) FlagLocalResetAck\<rparr>, rk_Result ack)
           else if ValidateDataSessionID (rk_DataSessionId ack) \<noteq> RESULT_CODE_ACCEPTED \<or>
              ucast (rk_DataSessionId ack) \<noteq> ss_localSessionID s
           then (s\<lparr>ss_flags := and_not (ss_flags s) FlagLocalResetAck\<rparr>, RESULT_CODE_INVALID_PARAMETER)
           else (s\<lparr>ss_flags := ss_flags s OR FlagLocalResetAck, ss_localExchangeRetryAt := 0, ss_localExchangeRetryAttempt := 0\<rparr>,
                 RESULT_CODE_ACCEPTED)))"

definition ObservePeerMTU :: "State \<Rightarrow> Control option \<Rightarrow> State \<times> ResultCode" where
  "ObservePeerMTU s control =
     (if \<not> validRemoteRequest s control \<or> GetPeerMtu control = None \<or> length (GetPadding control) \<noteq> 0
      then (s, RESULT_CODE_INVALID_PARAMETER)
      else
        (let result = ValidatePeerMTU (GetPeerMtu control) in
         if result \<noteq> RESULT_CODE_ACCEPTED then (s, result)
         else (s\<lparr>ss_remotePeerMTU := pt_InnerMtu (the (GetPeerMtu control)), ss_flags := ss_flags s OR FlagRemotePeerMTU\<rparr>, result)))"

definition ObservePeerMTUAck :: "State \<Rightarrow> Control option \<Rightarrow> u64 \<Rightarrow> State \<times> ResultCode" where
  "ObservePeerMTUAck s control expectedReplyTo =
     (case GetPeerMtuAck control of
        None \<Rightarrow> (s, RESULT_CODE_INVALID_PARAMETER)
      | Some ack \<Rightarrow>
          (if length (GetPadding control) \<noteq> 0 \<or> \<not> validResponse s control expectedReplyTo then (s, RESULT_CODE_INVALID_PARAMETER)
           else if pu_Result ack \<noteq> RESULT_CODE_ACCEPTED
           then (s\<lparr>ss_flags := and_not (ss_flags s) FlagLocalPeerMTUAck\<rparr>, pu_Result ack)
           else if validatePeerMTUValue (pu_InnerMtu ack) \<noteq> RESULT_CODE_ACCEPTED \<or> pu_InnerMtu ack \<noteq> st_LocalPeerMTU (ss_config s)
           then (s\<lparr>ss_flags := and_not (ss_flags s) FlagLocalPeerMTUAck\<rparr>, RESULT_CODE_INVALID_PARAMETER)
           else (s\<lparr>ss_flags := ss_flags s OR FlagLocalPeerMTUAck\<rparr>, RESULT_CODE_ACCEPTED)))"

definition ObservePong :: "State \<Rightarrow> Control option \<Rightarrow> u64 \<Rightarrow> u32 \<Rightarrow> State \<times> ResultCode" where
  "ObservePong s control expectedReplyTo expectedSequence =
     (case GetPong control of
        None \<Rightarrow> (s, RESULT_CODE_INVALID_PARAMETER)
      | Some pong \<Rightarrow>
          (if length (GetPadding control) \<noteq> 0 \<or> \<not> validResponse s control expectedReplyTo \<or> po_Sequence pong \<noteq> expectedSequence
           then (s, RESULT_CODE_INVALID_PARAMETER)
           else (s\<lparr>ss_flags := ss_flags s OR FlagPingPong\<rparr>, RESULT_CODE_ACCEPTED)))"

definition ObserveBaseProbeAck :: "State \<Rightarrow> Control option \<Rightarrow> u64 \<Rightarrow> State \<times> ResultCode" where
  "ObserveBaseProbeAck s control expectedReplyTo =
     (case GetMtuProbeAck control of
        None \<Rightarrow> (s, RESULT_CODE_INVALID_PARAMETER)
      | Some ack \<Rightarrow>
          (if length (GetPadding control) \<noteq> 0 \<or> \<not> validResponse s control expectedReplyTo \<or>
              pa_ReceivedProbePayloadSize ack \<noteq> st_MinCarrierPayload (ss_config s)
           then (s, RESULT_CODE_INVALID_PARAMETER)
           else (s\<lparr>ss_flags := ss_flags s OR FlagBaseProbe\<rparr>, RESULT_CODE_ACCEPTED)))"

definition CheckInboundDataSession :: "State \<Rightarrow> gotime \<Rightarrow> u16 \<Rightarrow> State \<times> SessionDecision" where
  "CheckInboundDataSession s now dataSessionID =
     (let zero = \<lparr>sx_Accept = False, sx_SendStateSyncRequired = False, sx_Reason = REASON_UNSPECIFIED, sx_ObservedSessionID = 0\<rparr> in
      if dataSessionID \<noteq> 0 \<and> dataSessionID = ss_remoteSessionID s then (s, zero\<lparr>sx_Accept := True\<rparr>)
      else if dataSessionID = 0 then (s, zero)
      else
        (let sendSync = (\<not> ss_stateSyncSent s \<or> \<not> now < ss_lastStateSync s + st_StateSyncMinInterval (ss_config s));
             s1 = (if sendSync then s\<lparr>ss_lastStateSync := now, ss_stateSyncSent := True\<rparr> else s)
         in (s1, zero\<lparr>sx_SendStateSyncRequired := sendSync, sx_Reason := REASON_UNKNOWN_DATA_SESSION,
                      sx_ObservedSessionID := ucast dataSessionID\<rparr>)))"

definition ObserveStateSyncRequired :: "State \<Rightarrow> Control option \<Rightarrow> State \<times> ResultCode" where
  "ObserveStateSyncRequired s control =
     (case GetStateSyncRequired control of
        None \<Rightarrow> (s, RESULT_CODE_INVALID_PARAMETER)
      | Some sync \<Rightarrow>
          (if length (GetPadding control) \<noteq> 0 \<or> \<not> validRemoteRequest s control \<or> sy_Reason sync \<noteq> REASON_UNKNOWN_DATA_SESSION \<or>
              ValidateDataSessionID (sy_ObservedDataSessionId sync) \<noteq> RESULT_CODE_ACCEPTED \<or>
              ucast (sy_ObservedDataSessionId sync) \<noteq> ss_localSessionID s
           then (s, RESULT_CODE_INVALID_PARAMETER)
           else (s\<lparr>ss_flags := and_not (ss_flags s) local_gates, ss_pendingCapabilitiesAck := False, ss_pendingSelectedFeatures := 0\<rparr>,
                 RESULT_CODE_ACCEPTED)))"

end
