(* ===== verification/ControlStateInv.thy ===== *)
theory ControlStateInv
  imports ControlState
begin

text \<open>
  The gates of the control state as bits, its invariant, and that every operation keeps it.
\<close>

unbundle bit_operations_syntax

subsection \<open>Gates\<close>

text \<open>Flag \<open>k\<close> of the seven, in the order they are declared.\<close>

definition gate :: "State \<Rightarrow> nat \<Rightarrow> bool" where
  "gate s k = bit (ss_flags s) k"

named_theorems gate_simps

lemma bit_and_not [gate_simps]: "bit (and_not a b) n \<longleftrightarrow> bit a n \<and> \<not> bit b n" for a b :: "'a::len word"
  by (auto simp: and_not_def bit_and_iff bit_not_iff dest: bit_imp_le_length)

lemma bit_flag [gate_simps]:
  "bit FlagLocalCapabilities n \<longleftrightarrow> n = 0" "bit FlagRemoteCapabilities n \<longleftrightarrow> n = 1"
  "bit FlagLocalResetAck n \<longleftrightarrow> n = 2" "bit FlagLocalPeerMTUAck n \<longleftrightarrow> n = 3"
  "bit FlagRemotePeerMTU n \<longleftrightarrow> n = 4" "bit FlagPingPong n \<longleftrightarrow> n = 5" "bit FlagBaseProbe n \<longleftrightarrow> n = 6"
proof -
  have pow: "bit (2 ^ k :: u16) n \<longleftrightarrow> n = k" if "k < 16" for k
    using that by (auto simp: bit_exp_iff)
  show "bit FlagLocalCapabilities n \<longleftrightarrow> n = 0" "bit FlagRemoteCapabilities n \<longleftrightarrow> n = 1"
    "bit FlagLocalResetAck n \<longleftrightarrow> n = 2" "bit FlagLocalPeerMTUAck n \<longleftrightarrow> n = 3"
    "bit FlagRemotePeerMTU n \<longleftrightarrow> n = 4" "bit FlagPingPong n \<longleftrightarrow> n = 5" "bit FlagBaseProbe n \<longleftrightarrow> n = 6"
    using pow [of 0] pow [of 1] pow [of 2] pow [of 3] pow [of 4] pow [of 5] pow [of 6]
    by (simp_all add: FlagLocalCapabilities_def FlagRemoteCapabilities_def FlagLocalResetAck_def FlagLocalPeerMTUAck_def
        FlagRemotePeerMTU_def FlagPingPong_def FlagBaseProbe_def)
qed

lemma bit_flags [gate_simps]:
  "bit (a OR b) n \<longleftrightarrow> bit a n \<or> bit b n" "bit (a AND b) n \<longleftrightarrow> bit a n \<and> bit b n" for a b :: Flags
  by (simp_all add: bit_or_iff bit_and_iff)

lemma and_single: "w AND f = 0 \<longleftrightarrow> \<not> bit w k" if "\<And>n. bit f n \<longleftrightarrow> n = k" for w f :: u16
proof
  assume "w AND f = 0"
  then have "bit (w AND f) k = bit 0 k" by simp
  then show "\<not> bit w k" using that by (simp add: bit_and_iff)
next
  assume "\<not> bit w k"
  then show "w AND f = 0" using that by (intro bit_eqI) (auto simp: bit_and_iff)
qed

lemma and_flag [gate_simps]:
  "w AND FlagRemoteCapabilities = 0 \<longleftrightarrow> \<not> bit w 1" "w AND FlagLocalCapabilities = 0 \<longleftrightarrow> \<not> bit w 0"
  by (rule and_single; simp add: gate_simps)+

lemma bit_local_gates [gate_simps]: "bit local_gates n \<longleftrightarrow> n \<in> {0, 2, 3, 5, 6}"
  by (auto simp: local_gates_def gate_simps)

lemma bit_zero_flags [gate_simps]: "\<not> bit (0 :: u16) n"
  by simp

lemma bit_required: "bit RequiredFlags n \<longleftrightarrow> n < 7"
  by (simp add: RequiredFlags_def gate_simps less_Suc_eq eval_nat_numeral)

lemma DataSendAllowed_gates: "DataSendAllowed s \<longleftrightarrow> (\<forall>k<7. gate s k)"
proof -
  have "ss_flags s AND RequiredFlags = RequiredFlags \<longleftrightarrow> (\<forall>n. bit (ss_flags s) n \<and> n < 7 \<longleftrightarrow> n < 7)"
    by (simp add: bit_eq_iff bit_flags bit_required) (meson less_trans numeral_less_iff semiring_norm(76,78,79,80,81) less_le_trans)
  then show ?thesis
    by (auto simp: DataSendAllowed_def gate_def)
qed

lemma MissingFlags_gates: "bit (MissingFlags s) k \<longleftrightarrow> k < 7 \<and> \<not> gate s k"
  by (simp add: MissingFlags_def gate_def bit_and_not bit_required)

subsection \<open>The invariant\<close>

definition state_config_ok :: "StateConfig \<Rightarrow> bool" where
  "state_config_ok c \<longleftrightarrow>
     u32_of DefaultCarrierPayload \<le> st_MinCarrierPayload c \<and> st_MinCarrierPayload c \<le> st_MaxCarrierPayload c \<and>
     st_MaxCarrierPayload c \<le> maxCarrierPayload \<and>
     MinReassemblyLifetimeMs \<le> st_ReassemblyLifetimeMs c \<and> st_ReassemblyLifetimeMs c \<le> MaxReassemblyLifetimeMs \<and>
     u32_of MinInnerMTU \<le> st_LocalPeerMTU c \<and> st_LocalPeerMTU c \<le> u32_of MaxInnerMTU \<and>
     and_not (st_RequiredFeatureBits c) (st_SupportedFeatureBits c) = 0 \<and> 0 < st_StateSyncMinInterval c"

definition remote_ok :: "State \<Rightarrow> bool" where
  "remote_ok s \<longleftrightarrow>
     ss_remoteEpoch s \<noteq> 0 \<and>
     u32_of DefaultCarrierPayload \<le> ss_remoteMaxCarrierPayload s \<and> st_MinCarrierPayload (ss_config s) \<le> ss_remoteMaxCarrierPayload s \<and>
     ss_remoteMaxCarrierPayload s \<le> maxCarrierPayload \<and>
     MinReassemblyLifetimeMs \<le> ss_remoteReassemblyLifetimeMs s \<and> ss_remoteReassemblyLifetimeMs s \<le> MaxReassemblyLifetimeMs \<and>
     and_not (ss_remoteSelectedFeatures s) (st_SupportedFeatureBits (ss_config s)) = 0 \<and>
     and_not (st_RequiredFeatureBits (ss_config s)) (ss_remoteSelectedFeatures s) = 0"

definition retired_ok :: "State \<Rightarrow> bool" where
  "retired_ok s \<longleftrightarrow>
     expiry_ok (ss_retiredSessions s) \<and> expiry_ok (ss_localRetiredSessions s) \<and> expiry_ok (ss_retiredEpochs s) \<and>
     \<not> expiry_contains (ss_retiredSessions s) 0 \<and> \<not> expiry_contains (ss_localRetiredSessions s) 0 \<and>
     \<not> expiry_contains (ss_retiredSessions s) (ss_remoteSessionID s) \<and>
     \<not> expiry_contains (ss_localRetiredSessions s) (ss_localSessionID s) \<and>
     \<not> expiry_contains (ss_retiredEpochs s) (ss_remoteEpoch s) \<and>
     (ss_remoteEpoch s = 0 \<longrightarrow> (\<forall>k. \<not> expiry_contains (ss_retiredEpochs s) k))"

definition control_ok :: "State \<Rightarrow> bool" where
  "control_ok s \<longleftrightarrow>
     state_config_ok (ss_config s) \<and> retired_ok s \<and>
     (gate s 1 \<longrightarrow> remote_ok s) \<and>
     (gate s 0 \<longrightarrow> gate s 1 \<and> ss_pendingCapabilitiesAck s \<and> ss_pendingSelectedFeatures s = ss_remoteSelectedFeatures s) \<and>
     (gate s 4 \<longrightarrow> gate s 1 \<and> u32_of MinInnerMTU \<le> ss_remotePeerMTU s \<and> ss_remotePeerMTU s \<le> u32_of MaxInnerMTU) \<and>
     (ss_remoteEpoch s \<noteq> 0 \<longleftrightarrow> gate s 1) \<and> (ss_remoteSessionID s \<noteq> 0 \<longrightarrow> gate s 1) \<and>
     (ss_localEpoch s = 0 \<longleftrightarrow> ss_localSessionID s = 0) \<and>
     (ss_localEpoch s = 0 \<longrightarrow> \<not> ss_pendingCapabilitiesAck s \<and> \<not> gate s 2 \<and> \<not> gate s 3 \<and> \<not> gate s 5 \<and> \<not> gate s 6)"

subsection \<open>Single steps\<close>

lemma prune_not_contains: "expiry_ok x \<Longrightarrow> \<not> expiry_contains x k \<Longrightarrow> \<not> expiry_contains (expiry_prune x now) k"
  using es.prune_contains [of x now k] by auto

lemma retain_contains:
  assumes "expiry_ok x" and "expiry_retain x k t = (x', ok)"
  shows "expiry_contains x' j \<longleftrightarrow> expiry_contains x j \<or> ok \<and> j = k"
  using es.retain_law [OF assms] assms(1) by (auto simp: es.contains_iff split: if_splits)

lemma retain_room:
  assumes "expiry_ok x" and "expiry_retain x k t = (x', ok)" and "expiry_contains x k \<or> \<not> expiry_full x"
  shows ok
  using es.retain_law [OF assms(1,2)] assms(3) by blast

lemma new_control_ok:
  assumes "(NewState c :: 'e control_state_error + State) = Inr s"
  shows "control_ok s \<and> ss_config s = c"
proof -
  have sets: "expiry_ok (newExpirySet maxRetiredSessionEntries :: u16 expirySet)"
    "expiry_ok (newExpirySet maxRetiredEpochEntries :: u64 expirySet)"
    by (rule newExpirySet_ok; simp add: maxRetiredSessionEntries_def maxRetiredEpochEntries_def)+
  have none: "\<not> expiry_contains (newExpirySet l) k" for l :: int and k :: 'k
    by (simp add: newExpirySet_def expiry_contains_def)
  show ?thesis
    using assms sets
    by (auto simp: NewState_def control_ok_def state_config_ok_def retired_ok_def none gate_def not_less split: if_splits)
qed

lemma prune_control_ok: "control_ok s \<Longrightarrow> control_ok (pruneRetired s now)"
  by (auto simp: control_ok_def retired_ok_def remote_ok_def gate_def pruneRetired_def es.prune_inv prune_not_contains)

lemma close_gates_ok:
  assumes "control_ok s" and "\<not> bit m 1"
  shows "control_ok (s\<lparr>ss_flags := and_not (ss_flags s) m\<rparr>)"
  using assms by (auto simp: control_ok_def retired_ok_def remote_ok_def gate_def gate_simps)

lemma open_gate_ok:
  assumes "control_ok s" and "ss_localEpoch s \<noteq> 0" and "\<And>n. bit f n \<longleftrightarrow> n = k" and "k \<in> {2, 3, 5, 6}"
  shows "control_ok (s\<lparr>ss_flags := ss_flags s OR f\<rparr>)"
  using assms by (auto simp: control_ok_def retired_ok_def remote_ok_def gate_def gate_simps)

lemma forget_ack_ok:
  assumes "control_ok s"
  shows "control_ok (s\<lparr>ss_flags := and_not (ss_flags s) local_gates, ss_pendingCapabilitiesAck := False, ss_pendingSelectedFeatures := 0\<rparr>)"
  using assms by (auto simp: control_ok_def retired_ok_def remote_ok_def gate_def gate_simps)

lemma reconcile_ok:
  assumes "control_ok (s\<lparr>ss_flags := and_not (ss_flags s) FlagLocalCapabilities\<rparr>)"
  shows "control_ok (reconcileCapabilitiesAck s)"
  using assms
  by (auto simp: reconcileCapabilitiesAck_def Let_def control_ok_def retired_ok_def remote_ok_def gate_def gate_simps)

lemma retry_ok:
  "control_ok (s\<lparr>ss_localExchangeRetryAt := t, ss_localExchangeRetryAttempt := n\<rparr>) = control_ok s"
  "control_ok (s\<lparr>ss_localExchangeRetryAttempt := n, ss_localExchangeRetryAt := t\<rparr>) = control_ok s"
  by (simp_all add: control_ok_def retired_ok_def remote_ok_def gate_def)

lemma sync_ok: "control_ok (s\<lparr>ss_lastStateSync := t, ss_stateSyncSent := b\<rparr>) = control_ok s"
  by (simp add: control_ok_def retired_ok_def remote_ok_def gate_def)

subsection \<open>The local exchange\<close>

lemma next_loop_value:
  assumes "next_loop Uint64 s previous session n e = (e', Inr v)"
  shows "v \<noteq> 0 \<and> v \<noteq> previous \<and> (session \<longrightarrow> v AND 0xffff = v \<and> \<not> expiry_contains (ss_localRetiredSessions s) (ucast v))"
  using assms
proof (induction n arbitrary: e)
  case (Suc n)
  obtain e1 d where draw: "Uint64 e = (e1, d)" by (cases "Uint64 e")
  show ?case
  proof (cases d)
    case (Inl err)
    then show ?thesis using Suc.prems draw by simp
  next
    case (Inr value0)
    define w where "w = (if session then value0 AND 0xffff else value0)"
    have masked: "w AND 0xffff = w" if session
      using that by (simp add: w_def and.assoc)
    have body: "(if w \<noteq> 0 \<and> w \<noteq> previous then
        (if session \<and> expiry_contains (ss_localRetiredSessions s) (ucast w) then next_loop Uint64 s previous session n e1 else (e1, Inr w))
        else next_loop Uint64 s previous session n e1) = (e', Inr v)"
      using Suc.prems unfolding w_def by (simp only: next_loop.simps draw Inr prod.case sum.case Let_def)
    show ?thesis
    proof (cases "w \<noteq> 0 \<and> w \<noteq> previous \<and> \<not> (session \<and> expiry_contains (ss_localRetiredSessions s) (ucast w))")
      case True
      then show ?thesis using body masked by auto
    next
      case False
      then have "next_loop Uint64 s previous session n e1 = (e', Inr v)" using body by argo
      then show ?thesis by (rule Suc.IH)
    qed
  qed
qed simp

text \<open>A masked 64-bit value as a session number.\<close>

lemma session_value:
  fixes v :: u64 and w :: u16
  assumes "v AND 0xffff = v"
  shows "(ucast v :: u16) = 0 \<longleftrightarrow> v = 0" and "(ucast v :: u16) = w \<longleftrightarrow> v = ucast w"
proof -
  have mask16: "0xffff = (mask 16 :: u64)" by (simp add: mask_eq_exp_minus_1)
  have wide: "ucast (ucast v :: u16) = v"
    using assms unfolding mask16 by (simp add: unsigned_ucast_eq take_bit_eq_mask)
  have narrow: "ucast (ucast w :: u64) = w"
    by (rule bit_eqI) (auto simp: bit_ucast_iff)
  show "(ucast v :: u16) = 0 \<longleftrightarrow> v = 0" using wide by (metis unsigned_0)
  show "(ucast v :: u16) = w \<longleftrightarrow> v = ucast w" using wide narrow by metis
qed

definition begun :: "State \<Rightarrow> gotime \<Rightarrow> u64 \<Rightarrow> u16 \<Rightarrow> u16 expirySet \<Rightarrow> State" where
  "begun s now epoch session x =
     (pruneRetired s now)\<lparr>ss_localRetiredSessions := x, ss_localEpoch := epoch, ss_localSessionID := session,
        ss_flags := and_not (ss_flags s) local_gates, ss_pendingCapabilitiesAck := False, ss_pendingSelectedFeatures := 0\<rparr>"

lemma Begin_outcome:
  assumes "BeginLocalExchange Uint64 s now e = (s', e', r)" and "expiry_ok (ss_localRetiredSessions s)"
  obtains (failed) err where "r = Inl err" and "s' = s \<or> s' = pruneRetired s now"
  | (started) epoch session x where "r = Inr \<lparr>lx_ControlEpoch = epoch, lx_DataSessionID = session\<rparr>"
      and "s' = begun s now epoch session x"
      and "epoch \<noteq> 0" and "epoch \<noteq> ss_localEpoch s" and "session \<noteq> 0" and "session \<noteq> ss_localSessionID s"
      and "\<not> expiry_contains (expiry_prune (ss_localRetiredSessions s) now) session"
      and "IsZero (ss_localExchangeRetryAt s) \<or> ss_localExchangeRetryAt s \<le> now"
      and "if ss_localSessionID s = 0 then x = expiry_prune (ss_localRetiredSessions s) now
           else expiry_retain (expiry_prune (ss_localRetiredSessions s) now) (ss_localSessionID s) (now + localSessionLifetime s) = (x, True)"
proof -
  let ?p = "pruneRetired s now"
  have same: "ss_localSessionID ?p = ss_localSessionID s" "ss_localEpoch ?p = ss_localEpoch s" "localSessionLifetime ?p = localSessionLifetime s"
    "ss_localRetiredSessions ?p = expiry_prune (ss_localRetiredSessions s) now" "ss_flags ?p = ss_flags s"
    by (simp_all add: pruneRetired_def localSessionLifetime_def Let_def)
  have inv: "expiry_ok (expiry_prune (ss_localRetiredSessions s) now)"
    using assms(2) by (rule es.prune_inv)
  show thesis
  proof (cases "(\<not> IsZero (ss_localExchangeRetryAt s) \<and> now < ss_localExchangeRetryAt s) \<or>
      (ss_localSessionID s \<noteq> 0 \<and> \<not> expiry_contains (expiry_prune (ss_localRetiredSessions s) now) (ss_localSessionID s) \<and>
       expiry_full (expiry_prune (ss_localRetiredSessions s) now))")
    case True
    then show thesis
      using assms(1) failed by (auto simp: BeginLocalExchange_def Let_def same split: if_splits)
  next
    case open_now: False
    obtain e1 a e2 b where draw: "nextNonZero Uint64 ?p (ss_localEpoch s) False e = (e1, a)"
        "nextNonZero Uint64 ?p (ucast (ss_localSessionID s)) True e1 = (e2, b)"
      by (meson surj_pair)
    obtain s1 ok where keep: "(if ss_localSessionID s \<noteq> 0 then retainLocal ?p (ss_localSessionID s) (now + localSessionLifetime s) else (?p, True)) = (s1, ok)"
      by (meson surj_pair)
    have kept: "ok" "s1 = ?p\<lparr>ss_localRetiredSessions := ss_localRetiredSessions s1\<rparr>"
        "if ss_localSessionID s = 0 then ss_localRetiredSessions s1 = expiry_prune (ss_localRetiredSessions s) now
         else expiry_retain (expiry_prune (ss_localRetiredSessions s) now) (ss_localSessionID s) (now + localSessionLifetime s)
           = (ss_localRetiredSessions s1, True)"
      using keep open_now retain_room [OF inv]
      by (auto simp: retainLocal_def same split: prod.splits if_splits)
    show thesis
    proof (cases "(\<exists>err. a = Inl err) \<or> (\<exists>err. b = Inl err)")
      case True
      then show thesis
        using assms(1) failed open_now draw by (auto simp: BeginLocalExchange_def Let_def same split: sum.splits)
    next
      case False
      then obtain epoch v where vals: "a = Inr epoch" "b = Inr v"
        by (cases a; cases b) auto
      note ep = next_loop_value [OF draw(1) [unfolded nextNonZero_def vals]]
        and sn = next_loop_value [OF draw(2) [unfolded nextNonZero_def vals]]
      have guards: "(\<not> IsZero (ss_localExchangeRetryAt s) \<and> now < ss_localExchangeRetryAt s) = False"
        "(ss_localSessionID s \<noteq> 0 \<and> \<not> expiry_contains (expiry_prune (ss_localRetiredSessions s) now) (ss_localSessionID s) \<and>
          expiry_full (expiry_prune (ss_localRetiredSessions s) now)) = False"
        using open_now by blast+
      have "BeginLocalExchange Uint64 s now e =
          (s1\<lparr>ss_localEpoch := epoch, ss_localSessionID := ucast v, ss_flags := and_not (ss_flags s1) local_gates,
              ss_pendingCapabilitiesAck := False, ss_pendingSelectedFeatures := 0\<rparr>,
           e2, Inr \<lparr>lx_ControlEpoch = epoch, lx_DataSessionID = ucast v\<rparr>)"
        unfolding BeginLocalExchange_def Let_def
        by (simp only: guards same if_False draw vals prod.case sum.case keep eqTrueI [OF kept(1)] bool.case)
      moreover have "s1\<lparr>ss_localEpoch := epoch, ss_localSessionID := ucast v, ss_flags := and_not (ss_flags s1) local_gates,
              ss_pendingCapabilitiesAck := False, ss_pendingSelectedFeatures := 0\<rparr>
          = begun s now epoch (ucast v) (ss_localRetiredSessions s1)"
        by (subst kept(2), subst (2) kept(2)) (simp add: begun_def same)
      ultimately have out: "s' = begun s now epoch (ucast v) (ss_localRetiredSessions s1)"
          "r = Inr \<lparr>lx_ControlEpoch = epoch, lx_DataSessionID = ucast v\<rparr>"
        using assms(1) by simp_all
      have fresh: "ucast v \<noteq> (0 :: u16)" "ucast v \<noteq> ss_localSessionID s"
        "\<not> expiry_contains (expiry_prune (ss_localRetiredSessions s) now) (ucast v)"
        using sn session_value [of v] by (simp_all add: same)
      show thesis
        by (rule started [OF out(2,1)]) (use ep fresh kept(3) guards(1) in \<open>auto simp: not_less\<close>)
    qed
  qed
qed

lemma begun_ok:
  assumes "control_ok s" and "epoch \<noteq> 0" and "session \<noteq> 0" and "session \<noteq> ss_localSessionID s"
    and "\<not> expiry_contains (expiry_prune (ss_localRetiredSessions s) now) session"
    and "if ss_localSessionID s = 0 then x = expiry_prune (ss_localRetiredSessions s) now
         else expiry_retain (expiry_prune (ss_localRetiredSessions s) now) (ss_localSessionID s) t = (x, True)"
  shows "control_ok (begun s now epoch session x)"
proof -
  let ?x = "expiry_prune (ss_localRetiredSessions s) now"
  have sets: "expiry_ok ?x" "\<not> expiry_contains ?x 0"
    using assms(1) by (auto simp: control_ok_def retired_ok_def es.prune_inv prune_not_contains)
  have "expiry_ok x \<and> \<not> expiry_contains x 0 \<and> \<not> expiry_contains x session"
  proof (cases "ss_localSessionID s = 0")
    case True
    then show ?thesis using assms(5,6) sets by simp
  next
    case False
    then show ?thesis
      using assms(4,5,6) sets es.retain_inv [OF sets(1)] retain_contains [OF sets(1)] by auto
  qed
  then show ?thesis
    using prune_control_ok [OF assms(1), of now] assms(2,3)
    by (auto simp: begun_def control_ok_def retired_ok_def remote_ok_def gate_def gate_simps pruneRetired_def)
qed

lemma Begin_ok:
  assumes "control_ok s" and "BeginLocalExchange Uint64 s now e = (s', e', r)"
  shows "control_ok s'"
proof -
  have "expiry_ok (ss_localRetiredSessions s)" using assms(1) by (simp add: control_ok_def retired_ok_def)
  from Begin_outcome [OF assms(2) this] show ?thesis
    by cases (use assms(1) prune_control_ok begun_ok in \<open>auto\<close>)
qed

lemma Restart_ok:
  assumes "control_ok s" and "RestartLocalExchange Uint64 s now now' e = (s', e', r, err)"
  shows "control_ok s'"
proof -
  obtain s1 e1 x where b: "BeginLocalExchange Uint64 s now' e = (s1, e1, x)" by (cases "BeginLocalExchange Uint64 s now' e")
  have "control_ok s1" by (rule Begin_ok [OF assms(1) b])
  then show ?thesis
    using assms b retry_ok [where s = s1]
    by (auto simp: RestartLocalExchange_def split: if_splits sum.splits prod.splits)
qed

subsection \<open>Messages of the peer\<close>

lemma and_not_sub: "and_not (a AND b) a = 0" for a b :: "'a::len word"
  by (rule bit_eqI) (auto simp: bit_and_not bit_and_iff)

lemma and_not_meet: "and_not r a = 0 \<Longrightarrow> and_not r b = 0 \<Longrightarrow> and_not r (a AND b) = 0" for a b r :: "'a::len word"
  by (auto simp: bit_eq_iff bit_and_not bit_and_iff)

lemma ValidateCapabilities_accepted:
  assumes "cd_Result (ValidateCapabilities c (Some h)) = RESULT_CODE_ACCEPTED" and "state_config_ok c"
  shows "u32_of DefaultCarrierPayload \<le> ch_MaxCarrierPayload h \<and> st_MinCarrierPayload c \<le> ch_MaxCarrierPayload h \<and>
    ch_MaxCarrierPayload h \<le> maxCarrierPayload \<and> MinReassemblyLifetimeMs \<le> ch_ReassemblyLifetimeMs h \<and>
    ch_ReassemblyLifetimeMs h \<le> MaxReassemblyLifetimeMs"
    and "cd_SelectedFeatureBits (ValidateCapabilities c (Some h)) = st_SupportedFeatureBits c AND ch_SupportedFeatureBits h"
    and "and_not (cd_SelectedFeatureBits (ValidateCapabilities c (Some h))) (st_SupportedFeatureBits c) = 0"
    and "and_not (st_RequiredFeatureBits c) (cd_SelectedFeatureBits (ValidateCapabilities c (Some h))) = 0"
proof -
  have *: "\<not> (ch_MaxFragments h \<noteq> u32_of MaxFragments \<or> ch_MaxCarrierPayload h < u32_of DefaultCarrierPayload \<or>
        ch_MaxCarrierPayload h < st_MinCarrierPayload c \<or> ch_MaxCarrierPayload h > maxCarrierPayload \<or>
        ch_ReassemblyLifetimeMs h < MinReassemblyLifetimeMs \<or> ch_ReassemblyLifetimeMs h > MaxReassemblyLifetimeMs)"
      "and_not (st_RequiredFeatureBits c) (ch_SupportedFeatureBits h) = 0"
      "cd_SelectedFeatureBits (ValidateCapabilities c (Some h)) = st_SupportedFeatureBits c AND ch_SupportedFeatureBits h"
    using assms(1) by (auto simp: ValidateCapabilities_def zero_decision_def split: if_splits)
  show "u32_of DefaultCarrierPayload \<le> ch_MaxCarrierPayload h \<and> st_MinCarrierPayload c \<le> ch_MaxCarrierPayload h \<and>
    ch_MaxCarrierPayload h \<le> maxCarrierPayload \<and> MinReassemblyLifetimeMs \<le> ch_ReassemblyLifetimeMs h \<and>
    ch_ReassemblyLifetimeMs h \<le> MaxReassemblyLifetimeMs"
    using *(1) by (simp add: not_less)
  show "cd_SelectedFeatureBits (ValidateCapabilities c (Some h)) = st_SupportedFeatureBits c AND ch_SupportedFeatureBits h"
    by (rule *(3))
  show "and_not (cd_SelectedFeatureBits (ValidateCapabilities c (Some h))) (st_SupportedFeatureBits c) = 0"
    unfolding *(3) by (rule and_not_sub)
  show "and_not (st_RequiredFeatureBits c) (cd_SelectedFeatureBits (ValidateCapabilities c (Some h))) = 0"
    unfolding *(3) using assms(2) *(2) by (intro and_not_meet) (simp_all add: state_config_ok_def)
qed

text \<open>The state after the epoch of the peer is cleared, with the new sets of retired sessions and epochs.\<close>

definition cleared :: "State \<Rightarrow> u16 expirySet \<Rightarrow> u64 expirySet \<Rightarrow> State" where
  "cleared s x y =
     s\<lparr>ss_retiredEpochs := y, ss_retiredSessions := x, ss_flags := 0, ss_remoteSessionID := 0, ss_remotePeerMTU := 0,
       ss_remoteSelectedFeatures := 0, ss_remoteMaxCarrierPayload := 0, ss_remoteReassemblyLifetimeMs := 0,
       ss_pendingCapabilitiesAck := False, ss_pendingSelectedFeatures := 0\<rparr>"

definition session_lifetime :: "State \<Rightarrow> duration" where
  "session_lifetime s = lifetime_of (st_ReassemblyLifetimeMs (ss_config s))"

text \<open>With room in both sets the epoch is always cleared.\<close>

lemma clearRemoteEpoch_room:
  assumes "expiry_ok (ss_retiredEpochs s)" and "expiry_ok (ss_retiredSessions s)" and "ss_remoteEpoch s \<noteq> 0"
    and "\<not> expiry_full (ss_retiredEpochs s)"
    and "ss_remoteSessionID s = 0 \<or> expiry_contains (ss_retiredSessions s) (ss_remoteSessionID s) \<or> \<not> expiry_full (ss_retiredSessions s)"
  obtains x y where "clearRemoteEpoch s now = (cleared s x y, True)"
    and "expiry_retain (ss_retiredEpochs s) (ss_remoteEpoch s) (now + retiredEpochLifetime) = (y, True)"
    and "if ss_remoteSessionID s = 0 then x = ss_retiredSessions s
         else expiry_retain (ss_retiredSessions s) (ss_remoteSessionID s) (now + session_lifetime s) = (x, True)"
proof -
  obtain y okY where y: "expiry_retain (ss_retiredEpochs s) (ss_remoteEpoch s) (now + retiredEpochLifetime) = (y, okY)"
    by (meson surj_pair)
  obtain x okX where x: "expiry_retain (ss_retiredSessions s) (ss_remoteSessionID s) (now + session_lifetime s) = (x, okX)"
    by (meson surj_pair)
  have okY using retain_room [OF assms(1) y] assms(4) by blast
  have okX if "ss_remoteSessionID s \<noteq> 0" using retain_room [OF assms(2) x] assms(5) that by blast
  then show thesis
    using that [of "if ss_remoteSessionID s = 0 then ss_retiredSessions s else x" y] x y \<open>okY\<close> assms(3)
    by (auto simp: clearRemoteEpoch_def retainRetired_def cleared_def session_lifetime_def)
qed

lemma hello_outcome:
  assumes "ObserveCapabilitiesHello s now c = (s', d)" and "expiry_ok (ss_retiredEpochs s)" and "expiry_ok (ss_retiredSessions s)"
  obtains (refused) "cd_Result d \<noteq> RESULT_CODE_ACCEPTED" and "s' = s \<or> s' = pruneRetired s now"
  | (known) hello start where "cd_Result d = RESULT_CODE_ACCEPTED" and "validRequest c" and "GetCapabilitiesHello c = Some hello"
      and "cd_Result (ValidateCapabilities (ss_config s) (Some hello)) = RESULT_CODE_ACCEPTED"
      and "ss_remoteEpoch s = 0 \<or> ss_remoteEpoch s = GetControlEpoch c"
      and "s' = fst (record_hello (pruneRetired s now) (GetControlEpoch c) hello (ValidateCapabilities (ss_config s) (Some hello)) start)"
  | (changed) hello x y where "cd_Result d = RESULT_CODE_ACCEPTED" and "validRequest c" and "GetCapabilitiesHello c = Some hello"
      and "cd_Result (ValidateCapabilities (ss_config s) (Some hello)) = RESULT_CODE_ACCEPTED"
      and "ss_remoteEpoch s \<noteq> 0" and "ss_remoteEpoch s \<noteq> GetControlEpoch c"
      and "\<not> expiry_contains (expiry_prune (ss_retiredEpochs s) now) (GetControlEpoch c)"
      and "expiry_retain (expiry_prune (ss_retiredEpochs s) now) (ss_remoteEpoch s) (now + retiredEpochLifetime) = (y, True)"
      and "if ss_remoteSessionID s = 0 then x = expiry_prune (ss_retiredSessions s) now
           else expiry_retain (expiry_prune (ss_retiredSessions s) now) (ss_remoteSessionID s) (now + session_lifetime s) = (x, True)"
      and "s' = fst (record_hello (cleared (pruneRetired s now) x y) (GetControlEpoch c) hello
                       (ValidateCapabilities (ss_config s) (Some hello)) True)"
proof -
  let ?p = "pruneRetired s now"
  have same: "ss_remoteEpoch ?p = ss_remoteEpoch s" "ss_remoteSessionID ?p = ss_remoteSessionID s" "session_lifetime ?p = session_lifetime s"
    "ss_retiredEpochs ?p = expiry_prune (ss_retiredEpochs s) now" "ss_retiredSessions ?p = expiry_prune (ss_retiredSessions s) now"
    by (simp_all add: pruneRetired_def session_lifetime_def)
  have inv: "expiry_ok (ss_retiredEpochs ?p)" "expiry_ok (ss_retiredSessions ?p)"
    using assms(2,3) by (simp_all add: same es.prune_inv)
  define bad where "bad \<longleftrightarrow> \<not> validRequest c \<or> GetCapabilitiesHello c = None \<or> length (GetPadding c) \<noteq> 0"
  define full where "full \<longleftrightarrow> expiry_contains (ss_retiredEpochs ?p) (GetControlEpoch c) \<or> expiry_full (ss_retiredEpochs ?p) \<or>
    (ss_remoteSessionID ?p \<noteq> 0 \<and> \<not> expiry_contains (ss_retiredSessions ?p) (ss_remoteSessionID ?p) \<and> expiry_full (ss_retiredSessions ?p))"
  let ?h = "the (GetCapabilitiesHello c)" and ?v = "ValidateCapabilities (ss_config s) (Some (the (GetCapabilitiesHello c)))"
  have run: "(s', d) = (if bad then (s, zero_decision RESULT_CODE_INVALID_PARAMETER)
      else if cd_Result ?v \<noteq> RESULT_CODE_ACCEPTED then (s, ?v)
      else if ss_remoteEpoch ?p \<noteq> 0 \<and> ss_remoteEpoch ?p \<noteq> GetControlEpoch c then
        (if full then (?p, zero_decision RESULT_CODE_INVALID_PARAMETER)
         else (case clearRemoteEpoch ?p now of
                 (s2, False) \<Rightarrow> (s2, zero_decision RESULT_CODE_INVALID_PARAMETER)
               | (s2, True) \<Rightarrow> record_hello s2 (GetControlEpoch c) ?h ?v True))
      else record_hello ?p (GetControlEpoch c) ?h ?v (ss_localEpoch ?p = 0))"
    unfolding assms(1) [symmetric] ObserveCapabilitiesHello_def Let_def bad_def full_def ..
  have rec: "cd_Result (snd (record_hello t ep h v b)) = cd_Result v" for t ep h v b
    by (simp add: record_hello_def)
  consider "bad \<or> cd_Result ?v \<noteq> RESULT_CODE_ACCEPTED \<or> (ss_remoteEpoch s \<noteq> 0 \<and> ss_remoteEpoch s \<noteq> GetControlEpoch c \<and> full)"
    | "\<not> bad" "cd_Result ?v = RESULT_CODE_ACCEPTED" "ss_remoteEpoch s = 0 \<or> ss_remoteEpoch s = GetControlEpoch c"
    | "\<not> bad" "cd_Result ?v = RESULT_CODE_ACCEPTED" "ss_remoteEpoch s \<noteq> 0" "ss_remoteEpoch s \<noteq> GetControlEpoch c" "\<not> full"
    by blast
  then show thesis
  proof cases
    case 1
    then show thesis using run refused by (auto simp: same zero_decision_def split: if_splits)
  next
    case 2
    have hello: "GetCapabilitiesHello c = Some ?h" "validRequest c" using 2(1) by (auto simp: bad_def)
    have "(s', d) = record_hello ?p (GetControlEpoch c) ?h ?v (ss_localEpoch ?p = 0)"
      using run 2 by (auto simp: same)
    then show thesis using known [of ?h] hello 2(2,3) rec by (metis fst_conv snd_conv)
  next
    case 3
    have hello: "GetCapabilitiesHello c = Some ?h" "validRequest c" using 3(1) by (auto simp: bad_def)
    obtain x y where clear: "clearRemoteEpoch ?p now = (cleared ?p x y, True)"
      and xy: "expiry_retain (ss_retiredEpochs ?p) (ss_remoteEpoch ?p) (now + retiredEpochLifetime) = (y, True)"
        "if ss_remoteSessionID ?p = 0 then x = ss_retiredSessions ?p
         else expiry_retain (ss_retiredSessions ?p) (ss_remoteSessionID ?p) (now + session_lifetime ?p) = (x, True)"
      by (rule clearRemoteEpoch_room [OF inv, of now]) (use 3 in \<open>auto simp: full_def same\<close>)
    have "(s', d) = record_hello (cleared ?p x y) (GetControlEpoch c) ?h ?v True"
      using run 3 clear by (simp add: same)
    then have "s' = fst (record_hello (cleared ?p x y) (GetControlEpoch c) ?h ?v True)" "cd_Result d = RESULT_CODE_ACCEPTED"
      using rec 3(2) by (metis fst_conv, metis snd_conv)
    moreover have "\<not> expiry_contains (expiry_prune (ss_retiredEpochs s) now) (GetControlEpoch c)"
      using 3(5) by (simp add: full_def same)
    ultimately show thesis
      using changed [OF _ hello(2,1) 3(2,3,4) _ xy [unfolded same]] by blast
  qed
qed

lemma record_hello_ok:
  assumes "control_ok (s\<lparr>ss_flags := ss_flags s OR FlagRemoteCapabilities, ss_remoteEpoch := epoch, ss_remoteSelectedFeatures := cd_SelectedFeatureBits v,
      ss_remoteMaxCarrierPayload := ch_MaxCarrierPayload h, ss_remoteReassemblyLifetimeMs := ch_ReassemblyLifetimeMs h\<rparr>
      \<lparr>ss_flags := and_not (ss_flags s OR FlagRemoteCapabilities) FlagLocalCapabilities\<rparr>)"
  shows "control_ok (fst (record_hello s epoch h v start))"
  unfolding record_hello_def fst_conv using assms by (intro reconcile_ok) simp

lemma hello_ok:
  assumes "control_ok s" and "ObserveCapabilitiesHello s now c = (s', d)"
  shows "control_ok s'"
proof -
  have inv: "expiry_ok (ss_retiredEpochs s)" "expiry_ok (ss_retiredSessions s)" "state_config_ok (ss_config s)"
    using assms(1) by (simp_all add: control_ok_def retired_ok_def)
  have epoch: "GetControlEpoch c \<noteq> 0" if "validRequest c" using that by (simp add: validRequest_def)
  let ?p = "pruneRetired s now"
  have p: "control_ok ?p" by (rule prune_control_ok [OF assms(1)])
  from assms(2) inv(1,2) show ?thesis
  proof (cases rule: hello_outcome)
    case refused
    then show ?thesis using assms(1) p by auto
  next
    case (known hello start)
    have "\<not> expiry_contains (ss_retiredEpochs ?p) (GetControlEpoch c)"
      using p known(5) by (auto simp: control_ok_def retired_ok_def pruneRetired_def)
    then show ?thesis
      unfolding known(6)
      using p epoch [OF known(2)] ValidateCapabilities_accepted [OF known(4) inv(3)]
      by (intro record_hello_ok) (auto simp: control_ok_def retired_ok_def remote_ok_def gate_def gate_simps pruneRetired_def)
  next
    case (changed hello x y)
    let ?x = "expiry_prune (ss_retiredSessions s) now" and ?y = "expiry_prune (ss_retiredEpochs s) now"
    have sets: "expiry_ok ?x" "expiry_ok ?y" "\<not> expiry_contains ?x 0"
      using assms(1) by (simp_all add: control_ok_def retired_ok_def es.prune_inv prune_not_contains)
    have "expiry_ok y \<and> \<not> expiry_contains y (GetControlEpoch c)"
      using retain_contains [OF sets(2) changed(8)] es.retain_inv [OF sets(2) changed(8)] changed(6,7) by auto
    moreover have "expiry_ok x \<and> \<not> expiry_contains x 0"
      using changed(9) sets es.retain_inv [OF sets(1)] retain_contains [OF sets(1)] by (cases "ss_remoteSessionID s = 0") auto
    ultimately show ?thesis
      unfolding changed(10)
      using p epoch [OF changed(2)] ValidateCapabilities_accepted [OF changed(4) inv(3)]
      by (intro record_hello_ok)
         (auto simp: cleared_def control_ok_def retired_ok_def remote_ok_def gate_def gate_simps pruneRetired_def)
  qed
qed

lemma capabilities_ack_ok:
  assumes "control_ok s" and "ObserveCapabilitiesAck s c expected = (s', r)"
  shows "control_ok s'"
proof -
  have pending: "control_ok (reconcileCapabilitiesAck (s\<lparr>ss_pendingCapabilitiesAck := True, ss_pendingSelectedFeatures := f\<rparr>))"
    if "ss_localEpoch s \<noteq> 0" for f
    using assms(1) that
    by (intro reconcile_ok) (auto simp: control_ok_def retired_ok_def remote_ok_def gate_def gate_simps)
  show ?thesis
    using assms close_gates_ok [OF assms(1), of FlagLocalCapabilities] pending
    by (auto simp: ObserveCapabilitiesAck_def Let_def validResponse_def gate_simps split: option.splits if_splits)
qed

lemma reset_outcome:
  assumes "ObserveResetSequence s now c = (s', d)" and "expiry_ok (ss_retiredSessions s)"
  obtains (refused) "rd_Result d \<noteq> RESULT_CODE_ACCEPTED" and "s' = s \<or> s' = pruneRetired s now"
  | (installed) session x where "rd_Result d = RESULT_CODE_ACCEPTED" and "validRemoteRequest s c" and "session = rd_DataSessionID d"
      and "session \<noteq> 0" and "session \<noteq> ss_remoteSessionID s"
      and "\<exists>q. GetResetSequence c = Some q \<and> rq_DataSessionId q = ucast session"
      and "\<not> expiry_contains (expiry_prune (ss_retiredSessions s) now) session"
      and "if ss_remoteSessionID s = 0 then x = expiry_prune (ss_retiredSessions s) now
           else expiry_retain (expiry_prune (ss_retiredSessions s) now) (ss_remoteSessionID s) (now + session_lifetime s) = (x, True)"
      and "s' = (pruneRetired s now)\<lparr>ss_retiredSessions := x, ss_remoteSessionID := session\<rparr>"
proof -
  let ?p = "pruneRetired s now" and ?x = "expiry_prune (ss_retiredSessions s) now"
  have same: "ss_remoteSessionID ?p = ss_remoteSessionID s" "ss_retiredSessions ?p = ?x" "ss_config ?p = ss_config s"
    by (simp_all add: pruneRetired_def)
  have inv: "expiry_ok ?x" using assms(2) by (rule es.prune_inv)
  obtain x ok where x: "expiry_retain ?x (ss_remoteSessionID s) (now + session_lifetime s) = (x, ok)" by (meson surj_pair)
  define sid where "sid = rq_DataSessionId (the (GetResetSequence c))"
  define bad where "bad \<longleftrightarrow> \<not> validRemoteRequest s c \<or> GetResetSequence c = None \<or> length (GetPadding c) \<noteq> 0 \<or>
    ValidateDataSessionID sid \<noteq> RESULT_CODE_ACCEPTED"
  define busy where "busy \<longleftrightarrow> (ss_remoteSessionID s \<noteq> 0 \<and> ss_remoteSessionID s = ucast sid) \<or> expiry_contains ?x (ucast sid) \<or>
    (ss_remoteSessionID s \<noteq> 0 \<and> \<not> expiry_contains ?x (ss_remoteSessionID s) \<and> expiry_full ?x)"
  have run: "(s', d) =
      (if \<not> validRemoteRequest s c \<or> GetResetSequence c = None \<or> length (GetPadding c) \<noteq> 0
       then (s, reset_decision RESULT_CODE_INVALID_PARAMETER 0 False)
       else if ValidateDataSessionID sid \<noteq> RESULT_CODE_ACCEPTED then (s, reset_decision RESULT_CODE_INVALID_PARAMETER 0 False)
       else if busy then (?p, reset_decision RESULT_CODE_SESSION_COLLISION (ucast sid) False)
       else ((if ss_remoteSessionID s \<noteq> 0 then fst (retainRetired ?p (ss_remoteSessionID s) (now + session_lifetime s)) else ?p)
               \<lparr>ss_remoteSessionID := ucast sid\<rparr>,
             reset_decision RESULT_CODE_ACCEPTED (ucast sid) (ss_remoteSessionID s \<noteq> ucast sid)))"
    unfolding assms(1) [symmetric] ObserveResetSequence_def Let_def isRetired_def same sid_def busy_def session_lifetime_def
    by (simp only: disj_not1 if_distrib [of "\<lambda>b. if b then _ else _"] cong: if_cong) argo
  show thesis
  proof (cases "bad \<or> busy")
    case True
    then have "(s' = s \<or> s' = ?p) \<and> rd_Result d \<noteq> RESULT_CODE_ACCEPTED"
      using run by (auto simp: bad_def reset_decision_def split: if_splits)
    then show thesis using refused by blast
  next
    case False
    then have good: "validRemoteRequest s c" "\<exists>q. GetResetSequence c = Some q \<and> rq_DataSessionId q = sid" "sid \<noteq> 0" "\<not> 65535 < sid"
      by (auto simp: bad_def sid_def ValidateDataSessionID_def split: if_splits)
    have wide: "sid = ucast (ucast sid :: u16)"
    proof -
      have "unat sid < 65536" using good(4) by (simp add: word_less_nat_alt)
      then show ?thesis by (simp add: word_unat_eq_iff unsigned_ucast_eq unsigned_take_bit_eq take_bit_nat_eq_self)
    qed
    then have nz: "(ucast sid :: u16) \<noteq> 0" using good(3) by (metis unsigned_0)
    have ok if "ss_remoteSessionID s \<noteq> 0"
      using retain_room [OF inv x] False that by (auto simp: busy_def)
    then have "s' = ?p\<lparr>ss_retiredSessions := (if ss_remoteSessionID s = 0 then ?x else x), ss_remoteSessionID := ucast sid\<rparr> \<and>
        rd_Result d = RESULT_CODE_ACCEPTED \<and> rd_DataSessionID d = ucast sid"
      using run False x by (auto simp: bad_def reset_decision_def retainRetired_def same)
    then show thesis
      using installed [of "ucast sid" "if ss_remoteSessionID s = 0 then ?x else x"] good False nz wide x
        \<open>ss_remoteSessionID s \<noteq> 0 \<Longrightarrow> ok\<close> by (auto simp: busy_def)
  qed
qed

lemma reset_ok:
  assumes "control_ok s" and "ObserveResetSequence s now c = (s', d)"
  shows "control_ok s'"
proof -
  let ?x = "expiry_prune (ss_retiredSessions s) now"
  have p: "control_ok (pruneRetired s now)" by (rule prune_control_ok [OF assms(1)])
  have inv: "expiry_ok (ss_retiredSessions s)" using assms(1) by (simp add: control_ok_def retired_ok_def)
  have sets: "expiry_ok ?x" "\<not> expiry_contains ?x 0"
    using assms(1) by (simp_all add: control_ok_def retired_ok_def es.prune_inv prune_not_contains)
  from assms(2) inv show ?thesis
  proof (cases rule: reset_outcome)
    case refused
    then show ?thesis using assms(1) p by auto
  next
    case (installed session x)
    have "expiry_ok x \<and> \<not> expiry_contains x 0 \<and> \<not> expiry_contains x session"
      using installed(5,7,8) sets es.retain_inv [OF sets(1)] retain_contains [OF sets(1)] by (cases "ss_remoteSessionID s = 0") auto
    moreover have "gate s 1" using installed(2) by (simp add: validRemoteRequest_def gate_def gate_simps)
    ultimately show ?thesis
      unfolding installed(9)
      using p by (auto simp: control_ok_def retired_ok_def remote_ok_def gate_def pruneRetired_def)
  qed
qed

lemma reset_ack_ok:
  assumes "control_ok s" and "ObserveResetSequenceAck s c expected = (s', r)"
  shows "control_ok s'"
  using assms close_gates_ok [OF assms(1), of FlagLocalResetAck] open_gate_ok [OF assms(1), of FlagLocalResetAck 2]
  by (auto simp: ObserveResetSequenceAck_def validResponse_def gate_simps retry_ok split: option.splits if_splits)

lemma peer_mtu_ok:
  assumes "control_ok s" and "ObservePeerMTU s c = (s', r)"
  shows "control_ok s'"
  using assms
  by (auto simp: ObservePeerMTU_def Let_def ValidatePeerMTU_def validatePeerMTUValue_def validRemoteRequest_def control_ok_def retired_ok_def
      remote_ok_def gate_def gate_simps not_less split: if_splits option.splits)

lemma peer_mtu_ack_ok:
  assumes "control_ok s" and "ObservePeerMTUAck s c expected = (s', r)"
  shows "control_ok s'"
  using assms close_gates_ok [OF assms(1), of FlagLocalPeerMTUAck] open_gate_ok [OF assms(1), of FlagLocalPeerMTUAck 3]
  by (auto simp: ObservePeerMTUAck_def validResponse_def gate_simps split: option.splits if_splits)

lemma pong_ok:
  assumes "control_ok s" and "ObservePong s c expected sequence = (s', r)"
  shows "control_ok s'"
  using assms open_gate_ok [OF assms(1), of FlagPingPong 5]
  by (auto simp: ObservePong_def validResponse_def gate_simps split: option.splits if_splits)

lemma base_probe_ok:
  assumes "control_ok s" and "ObserveBaseProbeAck s c expected = (s', r)"
  shows "control_ok s'"
  using assms open_gate_ok [OF assms(1), of FlagBaseProbe 6]
  by (auto simp: ObserveBaseProbeAck_def validResponse_def gate_simps split: option.splits if_splits)

lemma state_sync_ok:
  assumes "control_ok s" and "ObserveStateSyncRequired s c = (s', r)"
  shows "control_ok s'"
  using assms forget_ack_ok [OF assms(1)]
  by (auto simp: ObserveStateSyncRequired_def split: option.splits if_splits)

lemma check_session_ok:
  assumes "control_ok s" and "CheckInboundDataSession s now session = (s', d)"
  shows "control_ok s'"
  using assms by (auto simp: CheckInboundDataSession_def Let_def sync_ok split: if_splits)

lemma epoch_query_ok:
  assumes "control_ok s" and "IsRemoteEpochRetired s now epoch = (s', r)"
  shows "control_ok s'"
proof -
  have "control_ok (s\<lparr>ss_retiredEpochs := expiry_prune (ss_retiredEpochs s) now\<rparr>)"
    using assms(1) es.prune_inv [of "ss_retiredEpochs s" now] prune_not_contains [of "ss_retiredEpochs s"]
    by (simp add: control_ok_def retired_ok_def remote_ok_def gate_def)
  then show ?thesis
    using assms by (auto simp: IsRemoteEpochRetired_def Let_def split: if_splits)
qed

lemma reset_path_ok: "control_ok s \<Longrightarrow> control_ok (ResetPathGates s)"
  unfolding ResetPathGates_def by (rule close_gates_ok) (simp_all add: gate_simps)

lemmas control_ok_steps =
  Begin_ok Restart_ok hello_ok capabilities_ack_ok reset_ok reset_ack_ok peer_mtu_ok peer_mtu_ack_ok pong_ok base_probe_ok
  state_sync_ok check_session_ok epoch_query_ok

end
