(* ===== verification/ControlStateRun.thy ===== *)
theory ControlStateRun
  imports ControlStateInv
begin

text \<open>
  Runs of the control state: any sequence of its operations at any readings of the clock, from the state \<^verbatim>\<open>New\<close>
  returns.  What the gates mean when DATA may be sent, what a retired number is protected from, and how
  often the peer is asked to synchronise.
\<close>

unbundle bit_operations_syntax

datatype control_op =
    DoBegin
  | DoRestart gotime
  | DoHello "Control option"
  | DoCapabilitiesAck "Control option" u64
  | DoReset "Control option"
  | DoResetAck "Control option" u64
  | DoPeerMTU "Control option"
  | DoPeerMTUAck "Control option" u64
  | DoPong "Control option" u64 u32
  | DoBaseProbeAck "Control option" u64
  | DoCheckSession u16
  | DoStateSync "Control option"
  | DoEpochQuery u64
  | DoResetPath

fun control_exec :: "('r, 'e) entropy \<Rightarrow> State \<times> 'r \<Rightarrow> gotime \<times> control_op \<Rightarrow> State \<times> 'r" where
  "control_exec U (s, e) (t, DoBegin) = (case BeginLocalExchange U s t e of (s', e', _) \<Rightarrow> (s', e'))"
| "control_exec U (s, e) (t, DoRestart t') = (case RestartLocalExchange U s t t' e of (s', e', _) \<Rightarrow> (s', e'))"
| "control_exec U (s, e) (t, DoHello m) = (fst (ObserveCapabilitiesHello s t m), e)"
| "control_exec U (s, e) (t, DoCapabilitiesAck m r) = (fst (ObserveCapabilitiesAck s m r), e)"
| "control_exec U (s, e) (t, DoReset m) = (fst (ObserveResetSequence s t m), e)"
| "control_exec U (s, e) (t, DoResetAck m r) = (fst (ObserveResetSequenceAck s m r), e)"
| "control_exec U (s, e) (t, DoPeerMTU m) = (fst (ObservePeerMTU s m), e)"
| "control_exec U (s, e) (t, DoPeerMTUAck m r) = (fst (ObservePeerMTUAck s m r), e)"
| "control_exec U (s, e) (t, DoPong m r q) = (fst (ObservePong s m r q), e)"
| "control_exec U (s, e) (t, DoBaseProbeAck m r) = (fst (ObserveBaseProbeAck s m r), e)"
| "control_exec U (s, e) (t, DoCheckSession x) = (fst (CheckInboundDataSession s t x), e)"
| "control_exec U (s, e) (t, DoStateSync m) = (fst (ObserveStateSyncRequired s m), e)"
| "control_exec U (s, e) (t, DoEpochQuery x) = (fst (IsRemoteEpochRetired s t x), e)"
| "control_exec U (s, e) (t, DoResetPath) = (ResetPathGates s, e)"

definition control_run :: "('r, 'e) entropy \<Rightarrow> State \<times> 'r \<Rightarrow> (gotime \<times> control_op) list \<Rightarrow> State \<times> 'r" where
  "control_run U = foldl (control_exec U)"

lemma control_run_simps [simp]:
  "control_run U p [] = p" "control_run U p (x # xs) = control_run U (control_exec U p x) xs"
  "control_run U p (xs @ ys) = control_run U (control_run U p xs) ys"
  by (simp_all add: control_run_def)

lemma control_exec_ok: "control_ok (fst p) \<Longrightarrow> control_ok (fst (control_exec U p x))"
proof (cases p; cases x)
  fix s e t op assume ok: "control_ok (fst p)" and px: "p = (s, e)" "x = (t, op)"
  then have s: "control_ok s" by simp
  show ?thesis
    unfolding px
    by (cases op) (auto split: prod.splits intro: control_ok_steps [OF s] reset_path_ok [OF s] simp: prod_eq_iff)
qed

lemma control_run_ok: "control_ok (fst p) \<Longrightarrow> control_ok (fst (control_run U p ops))"
  by (induction ops arbitrary: p) (simp_all add: control_exec_ok)

subsection \<open>Numbers that are given up\<close>

text \<open>
  The current number of a kind and the set of the retired ones go through the same steps for the sessions of
  both directions and for the epochs of the peer.  \<open>op_time\<close> is the reading an operation prunes the sets with.
\<close>

definition op_time :: "gotime \<times> control_op \<Rightarrow> gotime" where
  "op_time x = (case snd x of DoRestart t' \<Rightarrow> t' | _ \<Rightarrow> fst x)"

definition number_step :: "'k::zero \<Rightarrow> 'k expirySet \<Rightarrow> 'k \<Rightarrow> 'k expirySet \<Rightarrow> gotime \<Rightarrow> gotime \<Rightarrow> bool" where
  "number_step cur old cur' old' now until \<longleftrightarrow>
     cur' = cur \<and> (old' = old \<or> old' = expiry_prune old now) \<or>
     cur' \<noteq> cur \<and> \<not> expiry_contains (expiry_prune old now) cur' \<and>
       (if cur = 0 then old' = expiry_prune old now else expiry_retain (expiry_prune old now) cur until = (old', True))"

lemma number_step_same: "number_step cur old cur old now until" "number_step cur old cur (expiry_prune old now) now until"
  by (simp_all add: number_step_def)

lemma number_step_protects:
  assumes "number_step cur old cur' old' now until" and "expiry_ok old" and "es.protects old k d" and "now < d" and "cur \<noteq> k"
  shows "cur' \<noteq> k \<and> es.protects old' k d"
proof -
  have inv: "expiry_ok (expiry_prune old now)" using assms(2) by (rule es.prune_inv)
  have p: "es.protects (expiry_prune old now) k d" by (rule es.protects_prune [OF assms(2,3,4)])
  then have "expiry_contains (expiry_prune old now) k" by (rule es.protects_contains [OF inv])
  then show ?thesis
    using assms(1,3,5) p es.protects_retain(2) [OF inv] by (auto simp: number_step_def split: if_splits)
qed

lemma number_step_retires:
  assumes "number_step cur old cur' old' now until" and "expiry_ok old" and "cur \<noteq> 0" and "cur' \<noteq> cur"
  shows "es.protects old' cur until"
  using assms es.protects_retain(1) [OF es.prune_inv [OF assms(2)]] by (auto simp: number_step_def)

locale number_register =
  fixes cur :: "State \<Rightarrow> 'k::zero" and old :: "State \<Rightarrow> 'k expirySet" and until :: "State \<Rightarrow> gotime \<Rightarrow> gotime"
  assumes inv: "control_ok s \<Longrightarrow> expiry_ok (old s)"
    and step: "control_ok s \<Longrightarrow> control_exec (U :: ('r, 'e) entropy) (s, e) x = (s', e') \<Longrightarrow>
      number_step (cur s) (old s) (cur s') (old s') (op_time x) (until s (op_time x))"
begin

lemma stays_out:
  fixes U :: "('r, 'e) entropy"
  assumes "control_ok (fst p)" and "es.protects (old (fst p)) k d" and "cur (fst p) \<noteq> k" and "\<forall>x\<in>set ops. op_time x < d"
  shows "cur (fst (control_run U p ops)) \<noteq> k"
  using assms
proof (induction ops arbitrary: p)
  case (Cons x ops)
  obtain s e s' e' where st: "p = (s, e)" "control_exec U p x = (s', e')" by (metis surj_pair)
  have "control_ok s" using Cons.prems(1) st by simp
  then have "cur s' \<noteq> k \<and> es.protects (old s') k d"
    using number_step_protects [OF step inv, of s U e x s' e'] Cons.prems st by simp
  moreover have "control_ok s'" using control_exec_ok [OF Cons.prems(1), of U x] st by simp
  ultimately show ?case using Cons.IH [of "(s', e')"] Cons.prems(4) st by simp
qed simp

lemma given_up:
  fixes U :: "('r, 'e) entropy"
  assumes "control_ok s" and "control_exec U (s, e) x = (s', e')" and "cur s \<noteq> 0" and "cur s' \<noteq> cur s"
    and "\<forall>y\<in>set ops. op_time y < until s (op_time x)"
  shows "cur (fst (control_run U (s', e') ops)) \<noteq> cur s"
proof (rule stays_out)
  show "control_ok (fst (s', e'))" using control_exec_ok [of "(s, e)" U x] assms(1,2) by simp
  show "es.protects (old (fst (s', e'))) (cur s) (until s (op_time x))"
    using number_step_retires [OF step [OF assms(1,2)] inv [OF assms(1)] assms(3,4)] by simp
qed (use assms in auto)

end

text \<open>The numbers of a state, and the steps of all three kinds at once.\<close>

definition numbers :: "State \<Rightarrow> u64 \<times> u16 \<times> u64 \<times> u16 \<times> u16 expirySet \<times> u16 expirySet \<times> u64 expirySet" where
  "numbers s = (ss_localEpoch s, ss_localSessionID s, ss_remoteEpoch s, ss_remoteSessionID s,
     ss_retiredSessions s, ss_localRetiredSessions s, ss_retiredEpochs s)"

definition numbers_step :: "State \<Rightarrow> State \<Rightarrow> gotime \<Rightarrow> bool" where
  "numbers_step s s' now \<longleftrightarrow>
     number_step (ss_remoteSessionID s) (ss_retiredSessions s) (ss_remoteSessionID s') (ss_retiredSessions s') now (now + session_lifetime s) \<and>
     number_step (ss_localSessionID s) (ss_localRetiredSessions s) (ss_localSessionID s') (ss_localRetiredSessions s') now
       (now + localSessionLifetime s) \<and>
     number_step (ss_remoteEpoch s) (ss_retiredEpochs s) (ss_remoteEpoch s') (ss_retiredEpochs s') now (now + retiredEpochLifetime)"

lemma numbers_step_same: "numbers s' = numbers s \<Longrightarrow> numbers_step s s' now"
  by (simp add: numbers_def numbers_step_def number_step_same)

lemma numbers_step_prune: "numbers_step s (pruneRetired s now) now"
  by (simp add: pruneRetired_def numbers_step_def number_step_same)

lemma numbers_reconcile [simp]: "numbers (reconcileCapabilitiesAck s) = numbers s"
  by (simp add: reconcileCapabilitiesAck_def Let_def numbers_def)

lemma numbers_step_cong: "numbers s' = numbers s'' \<Longrightarrow> numbers_step s s' now = numbers_step s s'' now"
  by (simp add: numbers_step_def numbers_def)

lemma record_hello_numbers:
  "numbers (fst (record_hello s epoch h v start)) = numbers (s\<lparr>ss_remoteEpoch := epoch\<rparr>)"
  by (simp add: record_hello_def) (simp add: numbers_def)

fun quiet_op :: "control_op \<Rightarrow> bool" where
  "quiet_op DoBegin = False"
| "quiet_op (DoRestart _) = False"
| "quiet_op (DoHello _) = False"
| "quiet_op (DoReset _) = False"
| "quiet_op (DoEpochQuery _) = False"
| "quiet_op _ = True"

lemma quiet_numbers:
  assumes "control_exec U (s, e) (t, op) = (s', e')" and "quiet_op op"
  shows "numbers s' = numbers s"
proof (cases op)
  case (DoCapabilitiesAck m r)
  have "numbers (fst (ObserveCapabilitiesAck s m r)) = numbers s"
    by (simp add: ObserveCapabilitiesAck_def Let_def split: option.splits) (simp add: numbers_def)
  then show ?thesis using assms DoCapabilitiesAck by auto
qed (use assms in \<open>auto simp: numbers_def ObserveResetSequenceAck_def ObservePeerMTU_def Let_def ObservePeerMTUAck_def ObservePong_def
  ObserveBaseProbeAck_def CheckInboundDataSession_def ObserveStateSyncRequired_def ResetPathGates_def split: option.splits if_splits\<close>)

lemma begin_numbers:
  assumes "control_ok s" and "BeginLocalExchange U s now e = (s', e', r)"
  shows "numbers_step s s' now"
proof -
  have "expiry_ok (ss_localRetiredSessions s)" using assms(1) by (simp add: control_ok_def retired_ok_def)
  from assms(2) this show ?thesis
  proof (cases rule: Begin_outcome)
    case failed
    then show ?thesis using numbers_step_same [of s s] numbers_step_prune by auto
  next
    case (started epoch session x)
    then show ?thesis
      by (auto simp: numbers_step_def begun_def pruneRetired_def number_step_same) (simp_all add: number_step_def)
  qed
qed

lemma hello_numbers:
  assumes "control_ok s" and "ObserveCapabilitiesHello s now c = (s', d)"
  shows "numbers_step s s' now"
proof -
  have inv: "expiry_ok (ss_retiredEpochs s)" "expiry_ok (ss_retiredSessions s)"
    using assms(1) by (simp_all add: control_ok_def retired_ok_def)
  have zero: "\<not> expiry_contains (expiry_prune (ss_retiredSessions s) now) 0"
    using assms(1) by (simp add: control_ok_def retired_ok_def prune_not_contains)
  from assms(2) inv show ?thesis
  proof (cases rule: hello_outcome)
    case refused
    then show ?thesis using numbers_step_same [of s s] numbers_step_prune by auto
  next
    case (known hello start)
    have "\<not> expiry_contains (expiry_prune (ss_retiredEpochs s) now) (GetControlEpoch c)" if "ss_remoteEpoch s = 0"
      using assms(1) that by (simp add: control_ok_def retired_ok_def prune_not_contains)
    then have "numbers_step s ((pruneRetired s now)\<lparr>ss_remoteEpoch := GetControlEpoch c\<rparr>) now"
      using known(5) by (auto simp: numbers_step_def pruneRetired_def number_step_same number_step_def)
    then show ?thesis unfolding known(6) numbers_step_cong [OF record_hello_numbers] .
  next
    case (changed hello x y)
    have "numbers_step s ((cleared (pruneRetired s now) x y)\<lparr>ss_remoteEpoch := GetControlEpoch c\<rparr>) now"
      using changed(5-9) zero by (simp add: numbers_step_def cleared_def pruneRetired_def) (simp add: number_step_def split: if_splits)
    then show ?thesis unfolding changed(10) numbers_step_cong [OF record_hello_numbers] .
  qed
qed

lemma reset_numbers:
  assumes "control_ok s" and "ObserveResetSequence s now c = (s', d)"
  shows "numbers_step s s' now"
proof -
  have "expiry_ok (ss_retiredSessions s)" using assms(1) by (simp add: control_ok_def retired_ok_def)
  from assms(2) this show ?thesis
  proof (cases rule: reset_outcome)
    case refused
    then show ?thesis using numbers_step_same [of s s] numbers_step_prune by auto
  next
    case (installed session x)
    then show ?thesis
      by (simp add: numbers_step_def pruneRetired_def number_step_same) (simp add: number_step_def)
  qed
qed

lemma exec_numbers:
  assumes "control_ok s" and "control_exec U (s, e) x = (s', e')"
  shows "numbers_step s s' (op_time x)"
proof (cases "quiet_op (snd x)")
  case True
  then show ?thesis using quiet_numbers [of U s e "fst x" "snd x" s' e'] assms(2) by (simp add: numbers_step_same)
next
  case False
  obtain t op where x: "x = (t, op)" by (cases x)
  show ?thesis
  proof (cases op)
    case DoBegin
    then show ?thesis using begin_numbers [OF assms(1)] assms(2) x by (auto simp: op_time_def split: prod.splits)
  next
    case (DoRestart t')
    obtain s1 e1 r where b: "BeginLocalExchange U s t' e = (s1, e1, r)" by (cases "BeginLocalExchange U s t' e")
    have "numbers s' = numbers s \<or> numbers s' = numbers s1"
      using assms(2) x DoRestart b by (auto simp: RestartLocalExchange_def numbers_def split: if_splits prod.splits sum.splits)
    then show ?thesis
      using begin_numbers [OF assms(1) b] numbers_step_same [of s' s] numbers_step_cong [of s' s1 s] x DoRestart
      by (auto simp: op_time_def)
  next
    case (DoHello m)
    then show ?thesis using hello_numbers [OF assms(1)] assms(2) x by (auto simp: op_time_def prod_eq_iff)
  next
    case (DoReset m)
    then show ?thesis using reset_numbers [OF assms(1)] assms(2) x by (auto simp: op_time_def prod_eq_iff)
  next
    case (DoEpochQuery k)
    then show ?thesis
      using assms(2) x by (auto simp: op_time_def IsRemoteEpochRetired_def Let_def numbers_step_def number_step_same split: if_splits)
  qed (use False x in simp_all)
qed

lemma control_ok_sets:
  assumes "control_ok s"
  shows "expiry_ok (ss_retiredSessions s)" "expiry_ok (ss_localRetiredSessions s)" "expiry_ok (ss_retiredEpochs s)"
  using assms by (simp_all add: control_ok_def retired_ok_def)

lemmas exec_number_steps =
  exec_numbers [unfolded numbers_step_def, THEN conjunct1]
  exec_numbers [unfolded numbers_step_def, THEN conjunct2, THEN conjunct1]
  exec_numbers [unfolded numbers_step_def, THEN conjunct2, THEN conjunct2]

interpretation remote_session: number_register ss_remoteSessionID ss_retiredSessions "\<lambda>s now. now + session_lifetime s"
  by unfold_locales (simp_all add: control_ok_sets exec_number_steps)

interpretation local_session: number_register ss_localSessionID ss_localRetiredSessions "\<lambda>s now. now + localSessionLifetime s"
  by unfold_locales (simp_all add: control_ok_sets exec_number_steps)

interpretation remote_epoch: number_register ss_remoteEpoch ss_retiredEpochs "\<lambda>s now. now + retiredEpochLifetime"
  by unfold_locales (simp_all add: control_ok_sets exec_number_steps)

subsection \<open>The properties of runs\<close>

definition open_with_agreement :: "StateConfig \<Rightarrow> State \<Rightarrow> bool" where
  "open_with_agreement c s \<longleftrightarrow>
     (let n = NegotiatedCarrierPayload s in
      u32_of DefaultCarrierPayload \<le> st_MinCarrierPayload c \<and> st_MinCarrierPayload c \<le> n \<and> n \<le> st_MaxCarrierPayload c \<and>
      n \<le> maxCarrierPayload) \<and>
     u32_of MinInnerMTU \<le> State_RemotePeerMTU s \<and> State_RemotePeerMTU s \<le> u32_of MaxInnerMTU \<and>
     MinReassemblyLifetimeMs \<le> RemoteReassemblyLifetimeMs s \<and> RemoteReassemblyLifetimeMs s \<le> MaxReassemblyLifetimeMs \<and>
     ss_pendingSelectedFeatures s = ss_remoteSelectedFeatures s \<and>
     and_not (ss_remoteSelectedFeatures s) (st_SupportedFeatureBits c) = 0 \<and>
     and_not (st_RequiredFeatureBits c) (ss_remoteSelectedFeatures s) = 0 \<and>
     ss_remoteEpoch s \<noteq> 0 \<and> lx_ControlEpoch (LocalExchangeID s) \<noteq> 0 \<and> lx_DataSessionID (LocalExchangeID s) \<noteq> 0"

lemma control_open_agrees:
  assumes "control_ok s" and "DataSendAllowed s"
  shows "open_with_agreement (ss_config s) s"
proof -
  have gates: "gate s 0" "gate s 1" "gate s 2" "gate s 4" using assms(2) by (simp_all add: DataSendAllowed_gates)
  have cfg: "state_config_ok (ss_config s)" and remote: "remote_ok s"
    and rest: "ss_pendingSelectedFeatures s = ss_remoteSelectedFeatures s" "u32_of MinInnerMTU \<le> ss_remotePeerMTU s"
      "ss_remotePeerMTU s \<le> u32_of MaxInnerMTU" "ss_localEpoch s \<noteq> 0" "ss_localSessionID s \<noteq> 0"
    using assms(1) gates by (auto simp: control_ok_def)
  have "ss_remoteMaxCarrierPayload s \<noteq> 0"
    using remote by (auto simp: remote_ok_def DefaultCarrierPayload_def)
  then have n: "NegotiatedCarrierPayload s = min (st_MaxCarrierPayload (ss_config s)) (ss_remoteMaxCarrierPayload s)"
    using gates(2) by (simp add: NegotiatedCarrierPayload_def gate_def gate_simps)
  show ?thesis
    using cfg remote rest
    by (auto simp: open_with_agreement_def Let_def n state_config_ok_def remote_ok_def State_RemotePeerMTU_def
        RemoteReassemblyLifetimeMs_def LocalExchangeID_def min_def)
qed

text \<open>
  \<open>confirms k s op\<close>: the operation brings the message that gate \<open>k\<close> stands for, valid in state \<open>s\<close>.  The gates of
  the local exchange are bound to its epoch and session, the two of the peer to the epoch of the peer.
\<close>

definition confirms :: "nat \<Rightarrow> State \<Rightarrow> control_op \<Rightarrow> bool" where
  "confirms k s op =
     (case op of
        DoCapabilitiesAck m r \<Rightarrow> k = 0 \<and> validResponse s m r \<and>
          (case GetCapabilitiesAck m of Some a \<Rightarrow> ca_Result a = RESULT_CODE_ACCEPTED \<and> ca_SelectedDataProtocolVersion a = DataProtocolVersion
           | None \<Rightarrow> False)
      | DoHello m \<Rightarrow> k = 1 \<and> validRequest m \<and>
          cd_Result (ValidateCapabilities (ss_config s) (GetCapabilitiesHello m)) = RESULT_CODE_ACCEPTED
      | DoResetAck m r \<Rightarrow> k = 2 \<and> validResponse s m r \<and>
          (case GetResetSequenceAck m of Some a \<Rightarrow> rk_Result a = RESULT_CODE_ACCEPTED \<and> ucast (rk_DataSessionId a) = ss_localSessionID s
           | None \<Rightarrow> False)
      | DoPeerMTUAck m r \<Rightarrow> k = 3 \<and> validResponse s m r \<and>
          (case GetPeerMtuAck m of Some a \<Rightarrow> pu_Result a = RESULT_CODE_ACCEPTED \<and> pu_InnerMtu a = st_LocalPeerMTU (ss_config s)
           | None \<Rightarrow> False)
      | DoPeerMTU m \<Rightarrow> k = 4 \<and> validRemoteRequest s m \<and> ValidatePeerMTU (GetPeerMtu m) = RESULT_CODE_ACCEPTED
      | DoPong m r q \<Rightarrow> k = 5 \<and> validResponse s m r \<and> (case GetPong m of Some a \<Rightarrow> po_Sequence a = q | None \<Rightarrow> False)
      | DoBaseProbeAck m r \<Rightarrow> k = 6 \<and> validResponse s m r \<and>
          (case GetMtuProbeAck m of Some a \<Rightarrow> pa_ReceivedProbePayloadSize a = st_MinCarrierPayload (ss_config s) | None \<Rightarrow> False)
      | _ \<Rightarrow> False)"

definition exchange_of :: "nat \<Rightarrow> State \<Rightarrow> u64 \<times> u16" where
  "exchange_of k s = (if k = 1 \<or> k = 4 then (ss_remoteEpoch s, 0) else (ss_localEpoch s, ss_localSessionID s))"

text \<open>What stands behind gate \<open>k\<close>: the first one also waits for the Hello of the peer.\<close>

definition behind :: "nat \<Rightarrow> State \<Rightarrow> bool" where
  "behind k s = (if k = 0 then ss_pendingCapabilitiesAck s else gate s k)"

lemma exchange_of_numbers: "numbers s' = numbers s \<Longrightarrow> exchange_of k s' = exchange_of k s"
  by (simp add: numbers_def exchange_of_def)

lemma quiet_behind:
  assumes "control_exec U (s, e) (t, op) = (s', e')" and "quiet_op op" and "behind k s'"
  shows "behind k s \<or> confirms k s op"
proof (cases op)
  case (DoCapabilitiesAck m r)
  then show ?thesis
    using assms by (auto simp: behind_def confirms_def gate_def gate_simps ObserveCapabilitiesAck_def reconcileCapabilitiesAck_def Let_def
        split: option.splits if_splits)
qed (use assms in \<open>auto simp: behind_def confirms_def gate_def gate_simps ObserveResetSequenceAck_def ObservePeerMTU_def Let_def
  ObservePeerMTUAck_def ObservePong_def ObserveBaseProbeAck_def CheckInboundDataSession_def ObserveStateSyncRequired_def
  ResetPathGates_def split: option.splits if_splits\<close>)

lemma begin_behind:
  assumes "control_ok s" and "BeginLocalExchange U s now e = (s', e', r)" and "behind k s'" and "k < 7"
  shows "behind k s \<and> exchange_of k s' = exchange_of k s"
  using assms(2) control_ok_sets(2) [OF assms(1)]
proof (cases rule: Begin_outcome)
  case failed
  then show ?thesis using assms(3) by (auto simp: behind_def gate_def exchange_of_def pruneRetired_def)
next
  case (started epoch session x)
  then have "k = 1 \<or> k = 4"
    using assms(3,4) by (auto simp: behind_def gate_def gate_simps begun_def split: if_splits)
  then show ?thesis
    using started assms(3) by (auto simp: behind_def gate_def gate_simps begun_def exchange_of_def pruneRetired_def)
qed

lemma hello_behind:
  assumes "control_ok s" and "ObserveCapabilitiesHello s now c = (s', d)" and "behind k s'"
  shows "behind k s \<and> exchange_of k s' = exchange_of k s \<or> confirms k s (DoHello c)"
  using assms(2) control_ok_sets(3,1) [OF assms(1)]
proof (cases rule: hello_outcome)
  case refused
  then show ?thesis using assms(3) by (auto simp: behind_def gate_def exchange_of_def pruneRetired_def)
next
  case (known hello start)
  have four: "ss_remoteEpoch s = GetControlEpoch c" if "gate s 4"
    using assms(1) known(5) that by (auto simp: control_ok_def)
  show ?thesis
    using known assms(3) four
    by (auto simp: behind_def gate_def gate_simps exchange_of_def confirms_def record_hello_def reconcileCapabilitiesAck_def Let_def
        pruneRetired_def split: if_splits)
next
  case (changed hello x y)
  then show ?thesis
    using assms(3)
    by (auto simp: behind_def gate_def gate_simps confirms_def record_hello_def reconcileCapabilitiesAck_def Let_def cleared_def
        split: if_splits)
qed

lemma exec_behind:
  assumes "control_ok s" and "control_exec U (s, e) (t, op) = (s', e')" and "behind k s'" and "k < 7"
  shows "behind k s \<and> exchange_of k s' = exchange_of k s \<or> confirms k s op"
proof (cases "quiet_op op")
  case True
  then show ?thesis
    using quiet_behind [OF assms(2) _ assms(3)] exchange_of_numbers [OF quiet_numbers [OF assms(2)]] by auto
next
  case False
  show ?thesis
  proof (cases op)
    case DoBegin
    then show ?thesis using begin_behind [where U = U, OF assms(1) _ assms(3,4)] assms(2) by (auto split: prod.splits)
  next
    case (DoRestart t')
    obtain s1 e1 r where b: "BeginLocalExchange U s t' e = (s1, e1, r)" by (cases "BeginLocalExchange U s t' e")
    have "s' = s \<or> behind k s' = behind k s1 \<and> exchange_of k s' = exchange_of k s1"
      using assms(2) DoRestart b
      by (auto simp: RestartLocalExchange_def behind_def gate_def exchange_of_def split: if_splits prod.splits sum.splits)
    then show ?thesis using begin_behind [OF assms(1) b _ assms(4)] assms(3) by auto
  next
    case (DoHello m)
    then show ?thesis using hello_behind [OF assms(1) _ assms(3)] assms(2) by (auto simp: prod_eq_iff)
  next
    case (DoReset m)
    obtain d where "ObserveResetSequence s t m = (s', d)" using DoReset assms(2) by (auto simp: prod_eq_iff)
    then show ?thesis using control_ok_sets(1) [OF assms(1)]
      by (cases rule: reset_outcome) (use assms(3) in \<open>auto simp: behind_def gate_def exchange_of_def pruneRetired_def\<close>)
  next
    case (DoEpochQuery x)
    then show ?thesis
      using assms(2,3) by (auto simp: IsRemoteEpochRetired_def Let_def behind_def gate_def exchange_of_def split: if_splits)
  qed (use False in simp_all)
qed

definition confirmed :: "('r, 'e) entropy \<Rightarrow> State \<times> 'r \<Rightarrow> (gotime \<times> control_op) list \<Rightarrow> nat \<Rightarrow> bool" where
  "confirmed U p ops k \<longleftrightarrow>
     (\<exists>i<length ops. confirms k (fst (control_run U p (take i ops))) (snd (ops ! i)) \<and>
        (\<forall>j\<in>{i<..length ops}. exchange_of k (fst (control_run U p (take j ops))) = exchange_of k (fst (control_run U p ops))))"

lemma behind_confirmed:
  assumes "control_ok (fst p)" and "\<not> behind k (fst p)" and "k < 7" and "behind k (fst (control_run U p ops))"
  shows "confirmed U p ops k"
  using assms(4)
proof (induction ops rule: rev_induct)
  case (snoc x ops)
  obtain s e where s: "control_run U p ops = (s, e)" by (cases "control_run U p ops")
  obtain t op where x: "x = (t, op)" by (cases x)
  obtain s' e' where s': "control_exec U (s, e) (t, op) = (s', e')" by (cases "control_exec U (s, e) (t, op)")
  have ok: "control_ok s" using control_run_ok [OF assms(1), of U ops] s by simp
  have "behind k s'" using snoc.prems s s' x by simp
  from exec_behind [OF ok s' this assms(3)] show ?case
  proof
    assume same: "behind k s \<and> exchange_of k s' = exchange_of k s"
    then have "confirmed U p ops k" using snoc.IH s by simp
    then obtain i where i: "i < length ops" "confirms k (fst (control_run U p (take i ops))) (snd (ops ! i))"
      "\<forall>j\<in>{i<..length ops}. exchange_of k (fst (control_run U p (take j ops))) = exchange_of k s"
      using s by (auto simp: confirmed_def)
    have "exchange_of k (fst (control_run U p (take j (ops @ [x])))) = exchange_of k s'" if "j \<in> {i<..Suc (length ops)}" for j
      using i(3) same that s s' x by (cases "j = Suc (length ops)") auto
    then show ?thesis
      using i(1,2) s s' x unfolding confirmed_def by (intro exI [of _ i]) (auto simp: nth_append)
  next
    assume c: "confirms k s op"
    have "exchange_of k (fst (control_run U p (take j (ops @ [x])))) = exchange_of k s'" if "j \<in> {length ops<..Suc (length ops)}" for j
      using that s s' x by (cases "j = Suc (length ops)") auto
    then show ?thesis
      using c s s' x unfolding confirmed_def by (intro exI [of _ "length ops"]) auto
  qed
qed (use assms(2) in simp)

lemma new_not_behind:
  assumes "(NewState c :: 'e control_state_error + State) = Inr s"
  shows "\<not> behind k s"
  using assms by (auto simp: NewState_def behind_def gate_def split: if_splits)

text \<open>What an operation leaves alone.\<close>

definition fixed_part :: "State \<Rightarrow> StateConfig \<times> gotime \<times> bool" where
  "fixed_part s = (ss_config s, ss_lastStateSync s, ss_stateSyncSent s)"

definition retry_state :: "State \<Rightarrow> gotime \<times> u64" where
  "retry_state s = (ss_localExchangeRetryAt s, ss_localExchangeRetryAttempt s)"

lemma fixed_reconcile [simp]:
  "fixed_part (reconcileCapabilitiesAck s) = fixed_part s"
  "retry_state (reconcileCapabilitiesAck s) = retry_state s"
  by (simp_all add: reconcileCapabilitiesAck_def Let_def fixed_part_def retry_state_def)

lemma fixed_record_hello [simp]:
  "fixed_part (fst (record_hello s epoch h v start)) = fixed_part s"
  "retry_state (fst (record_hello s epoch h v start)) = retry_state s"
  by (simp_all add: record_hello_def) (simp_all add: fixed_part_def retry_state_def)

lemma fixed_prune [simp]: "fixed_part (pruneRetired s now) = fixed_part s"
  "retry_state (pruneRetired s now) = retry_state s"
  by (simp_all add: pruneRetired_def fixed_part_def retry_state_def)

lemma fixed_cleared [simp]: "fixed_part (cleared s x y) = fixed_part s"
  "retry_state (cleared s x y) = retry_state s"
  by (simp_all add: cleared_def fixed_part_def retry_state_def)

lemma fixed_begun [simp]: "fixed_part (begun s now epoch session x) = fixed_part s"
  "retry_state (begun s now epoch session x) = retry_state s"
  by (simp_all add: begun_def pruneRetired_def fixed_part_def retry_state_def)

lemma begin_fixed:
  assumes "control_ok s" and "BeginLocalExchange U s now e = (s', e', r)"
  shows "fixed_part s' = fixed_part s \<and> retry_state s' = retry_state s"
  using assms(2) control_ok_sets(2) [OF assms(1)] by (cases rule: Begin_outcome) auto

lemma hello_fixed:
  assumes "control_ok s" and "ObserveCapabilitiesHello s now c = (s', d)"
  shows "fixed_part s' = fixed_part s \<and> retry_state s' = retry_state s"
  using assms(2) control_ok_sets(3,1) [OF assms(1)] by (cases rule: hello_outcome) auto

lemma reset_fixed:
  assumes "control_ok s" and "ObserveResetSequence s now c = (s', d)"
  shows "fixed_part s' = fixed_part s \<and> retry_state s' = retry_state s"
  using assms(2) control_ok_sets(1) [OF assms(1)]
  by (cases rule: reset_outcome) (auto simp: fixed_part_def retry_state_def pruneRetired_def)

lemma restart_fixed:
  assumes "control_ok s" and "RestartLocalExchange U s now now' e = (s', e', r, err)"
  shows "fixed_part s' = fixed_part s"
proof -
  obtain s1 e1 x where b: "BeginLocalExchange U s now' e = (s1, e1, x)" by (cases "BeginLocalExchange U s now' e")
  show ?thesis
    using assms(2) b begin_fixed [OF assms(1) b]
    by (auto simp: RestartLocalExchange_def fixed_part_def split: if_splits sum.splits prod.splits)
qed

lemma exec_fixed:
  assumes "control_ok s" and "control_exec U (s, e) (t, op) = (s', e')"
  shows "ss_config s' = ss_config s \<and> ((\<forall>x. op \<noteq> DoCheckSession x) \<longrightarrow> fixed_part s' = fixed_part s)"
proof (cases op)
  case DoBegin
  then show ?thesis
    using assms(2) begin_fixed [where U = U, OF assms(1)] by (fastforce simp: fixed_part_def split: prod.splits)
next
  case (DoRestart t')
  then show ?thesis
    using assms(2) restart_fixed [where U = U, OF assms(1)] by (fastforce simp: fixed_part_def split: prod.splits)
next
  case (DoHello m)
  then show ?thesis using assms(2) hello_fixed [OF assms(1)] by (fastforce simp: fixed_part_def prod_eq_iff)
next
  case (DoReset m)
  then show ?thesis using assms(2) reset_fixed [OF assms(1)] by (fastforce simp: fixed_part_def prod_eq_iff)
next
  case (DoCapabilitiesAck m r)
  have "fixed_part (fst (ObserveCapabilitiesAck s m r)) = fixed_part s"
    by (simp add: ObserveCapabilitiesAck_def Let_def split: option.splits) (simp add: fixed_part_def)
  then show ?thesis using DoCapabilitiesAck assms(2) by (auto simp: fixed_part_def)
qed (use assms(2) in \<open>auto simp: fixed_part_def ObserveResetSequenceAck_def ObservePeerMTU_def Let_def ObservePeerMTUAck_def
  ObservePong_def ObserveBaseProbeAck_def CheckInboundDataSession_def ObserveStateSyncRequired_def ResetPathGates_def
  IsRemoteEpochRetired_def split: option.splits if_splits\<close>)

lemma exec_config: "control_ok (fst p) \<Longrightarrow> ss_config (fst (control_exec U p x)) = ss_config (fst p)"
  using exec_fixed [of "fst p" U "snd p" "fst x" "snd x" "fst (control_exec U p x)" "snd (control_exec U p x)"] by simp

lemma run_config: "control_ok (fst p) \<Longrightarrow> ss_config (fst (control_run U p ops)) = ss_config (fst p)"
  by (induction ops arbitrary: p) (simp_all add: exec_config control_exec_ok)

end
