(* ===== verification/ControlStateCorrect.thy ===== *)
theory ControlStateCorrect
  imports ControlStateRun
begin

text \<open>
  The properties of the control state, over its reachable states, and small inputs they are applied to.
\<close>

unbundle bit_operations_syntax

subsection \<open>Helper lemmas\<close>

lemma backoff_loop_capped:
  "0 < d \<Longrightarrow> min (backoff_loop n d) MaxLocalExchangeBackoff = min (d * 2 ^ n) MaxLocalExchangeBackoff"
proof (induction n arbitrary: d)
  case (Suc n)
  have le: "d * 1 \<le> d * 2 ^ Suc n" using Suc.prems by (intro mult_left_mono one_le_power) auto
  show ?case
  proof (cases "d < MaxLocalExchangeBackoff")
    case True
    then show ?thesis using Suc.IH [of "d * 2"] Suc.prems by (simp add: algebra_simps)
  next
    case False
    then show ?thesis using le by (simp add: min_absorb2 del: power_Suc)
  qed
qed simp

text \<open>The largest delay of a restart that \<open>n\<close> others came before.\<close>

definition restart_cap :: "nat \<Rightarrow> duration" where
  "restart_cap n = min (200 * Millisecond * 2 ^ n) (60 * Second)"

lemma restart_cap_pos: "0 < restart_cap n"
  by (simp add: restart_cap_def Millisecond_def Second_def)

lemma backoff_exact:
  "localExchangeBackoff U attempt e =
     (case U e of (e', Inl err) \<Rightarrow> (e', restart_cap (unat attempt))
      | (e', Inr random) \<Rightarrow> (e', int (unat random) mod restart_cap (unat attempt) + 1))"
proof -
  have "min (backoff_loop (unat attempt) InitialLocalExchangeBackoff) MaxLocalExchangeBackoff = restart_cap (unat attempt)"
    by (simp add: backoff_loop_capped InitialLocalExchangeBackoff_def Millisecond_def)
      (simp add: restart_cap_def MaxLocalExchangeBackoff_def Millisecond_def)
  moreover have "(if MaxLocalExchangeBackoff < x then MaxLocalExchangeBackoff else x) = min x MaxLocalExchangeBackoff" for x
    by simp
  ultimately show ?thesis by (simp add: localExchangeBackoff_def Let_def cong: prod.case_cong sum.case_cong)
qed

lemma backoff_bounds:
  assumes "localExchangeBackoff U attempt e = (e', d)"
  shows "1 \<le> d \<and> d \<le> restart_cap (unat attempt)"
proof -
  have "x mod restart_cap n + 1 \<le> restart_cap n \<and> 0 \<le> x mod restart_cap n" for x n
    using restart_cap_pos [of n] by (simp add: zless_imp_add1_zle)
  then show ?thesis
    using assms restart_cap_pos [of "unat attempt"] by (auto simp: backoff_exact zless_imp_add1_zle split: prod.splits sum.splits)
qed

text \<open>
  \<open>accepts_session x op\<close>: a ResetSequenceAck in which the peer accepts the session of the exchange \<open>x\<close>.  \<open>restarted\<close>: the
  operation replaces the exchange after a rejection.  \<open>restarts\<close> counts the replacements since the peer last accepted a session.
\<close>

definition accepts_session :: "LocalExchange \<Rightarrow> control_op \<Rightarrow> bool" where
  "accepts_session x op =
     (case op of
        DoResetAck (Some m) r \<Rightarrow>
          (case ct_Body m of
             Some (BodyResetSequenceAck a) \<Rightarrow>
               rk_Result a = RESULT_CODE_ACCEPTED \<and> rk_DataSessionId a = ucast (lx_DataSessionID x) \<and> lx_DataSessionID x \<noteq> 0 \<and>
               ct_MessageId m \<noteq> 0 \<and> r \<noteq> 0 \<and> ct_ReplyTo m = r \<and> lx_ControlEpoch x \<noteq> 0 \<and> ct_ControlEpoch m = lx_ControlEpoch x \<and>
               GetPadding (Some m) = []
           | _ \<Rightarrow> False)
      | _ \<Rightarrow> False)"

definition restarted :: "('r, 'e) entropy \<Rightarrow> State \<times> 'r \<Rightarrow> gotime \<times> control_op \<Rightarrow> bool" where
  "restarted U p x =
     (case x of
        (t, DoRestart t') \<Rightarrow> (case RestartLocalExchange U (fst p) t t' (snd p) of (s', e', r, err) \<Rightarrow> Option.is_none err)
      | _ \<Rightarrow> False)"

fun restarts :: "('r, 'e) entropy \<Rightarrow> nat \<Rightarrow> State \<times> 'r \<Rightarrow> (gotime \<times> control_op) list \<Rightarrow> nat" where
  "restarts U n p [] = n"
| "restarts U n p (x # ops) =
     restarts U (if accepts_session (LocalExchangeID (fst p)) (snd x) then 0 else if restarted U p x then Suc n else n)
       (control_exec U p x) ops"

lemma session_of_id: "ValidateDataSessionID i = RESULT_CODE_ACCEPTED \<and> ucast i = (x :: u16) \<longleftrightarrow> i = ucast x \<and> x \<noteq> 0"
proof
  assume a: "ValidateDataSessionID i = RESULT_CODE_ACCEPTED \<and> ucast i = x"
  then have "i \<le> 65535" "i \<noteq> 0" by (auto simp: ValidateDataSessionID_def split: if_splits)
  then have "unat i < 2 ^ 16" by (simp add: word_le_nat_alt)
  then have "take_bit 16 (unat i) = unat i" by (simp add: take_bit_nat_eq_self)
  then have "ucast (ucast i :: u16) = i" by (simp add: word_unat_eq_iff unsigned_ucast_eq unsigned_take_bit_eq)
  with a \<open>i \<noteq> 0\<close> show "i = ucast x \<and> x \<noteq> 0" by auto
next
  assume a: "i = ucast x \<and> x \<noteq> 0"
  have lt: "unat x < 65536" using unsigned_less [where 'a = nat, of x] by simp
  have "take_bit 32 (unat x) = unat x" by (rule take_bit_nat_eq_self, rule less_trans [OF lt]) simp
  moreover have "unat x \<le> 65535" using lt by linarith
  ultimately have t: "take_bit 32 (unat x) = unat x" "unat x \<le> 65535" by blast+
  then have "(ucast x :: u32) \<le> 65535" by (simp add: word_le_nat_alt unsigned_ucast_eq)
  moreover have "(ucast x :: u32) \<noteq> 0" using a t by (simp add: word_unat_eq_iff unsigned_ucast_eq)
  moreover have "ucast (ucast x :: u32) = x" by (rule ucast_up_ucast_id) (simp add: is_up)
  ultimately show "ValidateDataSessionID i = RESULT_CODE_ACCEPTED \<and> ucast i = x"
    using a by (simp add: ValidateDataSessionID_def not_less)
qed

lemma reset_ack_retry:
  "retry_state (fst (ObserveResetSequenceAck s m r)) = (if accepts_session (LocalExchangeID s) (DoResetAck m r) then (0, 0) else retry_state s)"
proof (cases "GetResetSequenceAck m")
  case None
  then have "\<not> accepts_session (LocalExchangeID s) (DoResetAck m r)"
    by (auto simp: accepts_session_def GetResetSequenceAck_def GetBody_def split: option.splits control_body.splits)
  then show ?thesis using None by (simp add: ObserveResetSequenceAck_def)
next
  case (Some a)
  then obtain c where c: "m = Some c" "ct_Body c = Some (BodyResetSequenceAck a)"
    by (auto simp: GetResetSequenceAck_def GetBody_def bind_eq_Some_conv split: option.splits control_body.splits)
  have "accepts_session (LocalExchangeID s) (DoResetAck m r) \<longleftrightarrow>
      length (GetPadding m) = 0 \<and> validResponse s m r \<and> rk_Result a = RESULT_CODE_ACCEPTED \<and>
      ValidateDataSessionID (rk_DataSessionId a) = RESULT_CODE_ACCEPTED \<and> ucast (rk_DataSessionId a) = ss_localSessionID s"
    using c session_of_id [of "rk_DataSessionId a" "ss_localSessionID s"]
    by (auto simp: accepts_session_def validResponse_def LocalExchangeID_def GetMessageId_def GetReplyTo_def GetControlEpoch_def)
  then show ?thesis using Some by (auto simp: ObserveResetSequenceAck_def retry_state_def)
qed

lemma begin_backed_off:
  assumes "ss_localExchangeRetryAt s \<noteq> 0" and "now < ss_localExchangeRetryAt s"
  shows "BeginLocalExchange U s now e = (s, e, Inl ErrLocalExchangeBackoff)"
  using assms by (simp add: BeginLocalExchange_def)

lemma restart_retry:
  assumes "control_ok s" and "control_exec U (s, e) (t, DoRestart t') = (s', e')"
  shows "if restarted U (s, e) (t, DoRestart t') then ss_localExchangeRetryAttempt s' = ss_localExchangeRetryAttempt s + 1
    else retry_state s' = retry_state s"
proof (cases "\<not> IsZero (ss_localExchangeRetryAt s) \<and> t < ss_localExchangeRetryAt s")
  case True
  then show ?thesis using assms(2) by (simp add: restarted_def RestartLocalExchange_def)
next
  case False
  obtain b eb rb where b: "BeginLocalExchange U s t' e = (b, eb, rb)" by (cases "BeginLocalExchange U s t' e")
  have "retry_state b = retry_state s" using begin_fixed [OF assms(1) b] by simp
  then show ?thesis
    using False assms(2) b by (auto simp: restarted_def RestartLocalExchange_def retry_state_def split: sum.splits prod.splits)
qed

lemma exec_retry:
  assumes "control_ok s" and "control_exec U (s, e) x = (s', e')"
  shows "if accepts_session (LocalExchangeID s) (snd x) then retry_state s' = (0, 0)
    else if restarted U (s, e) x then ss_localExchangeRetryAttempt s' = ss_localExchangeRetryAttempt s + 1
    else retry_state s' = retry_state s"
proof -
  obtain t op where x: "x = (t, op)" by (cases x)
  show ?thesis
  proof (cases op)
    case DoBegin
    then show ?thesis
      using assms(2) x begin_fixed [where U = U, OF assms(1)] by (auto simp: accepts_session_def restarted_def split: prod.splits)
  next
    case (DoRestart t')
    then show ?thesis using restart_retry [OF assms(1), of U e t t'] assms(2) x by (simp add: accepts_session_def)
  next
    case (DoHello m)
    then show ?thesis
      using assms(2) x hello_fixed [OF assms(1)] by (auto simp: accepts_session_def restarted_def prod_eq_iff)
  next
    case (DoReset m)
    then show ?thesis
      using assms(2) x reset_fixed [OF assms(1)] by (auto simp: accepts_session_def restarted_def prod_eq_iff)
  next
    case (DoResetAck m r)
    then show ?thesis using assms(2) x reset_ack_retry [of s m r] by (auto simp: restarted_def)
  next
    case (DoCapabilitiesAck m r)
    have "retry_state (fst (ObserveCapabilitiesAck s m r)) = retry_state s"
      by (simp add: ObserveCapabilitiesAck_def Let_def split: option.splits) (simp add: retry_state_def)
    then show ?thesis using assms(2) x DoCapabilitiesAck by (auto simp: accepts_session_def restarted_def)
  qed (use assms x in \<open>auto simp: accepts_session_def restarted_def retry_state_def ObservePeerMTU_def Let_def ObservePeerMTUAck_def
    ObservePong_def ObserveBaseProbeAck_def CheckInboundDataSession_def ObserveStateSyncRequired_def ResetPathGates_def
    IsRemoteEpochRetired_def split: option.splits if_splits\<close>)
qed

lemma run_attempts:
  assumes "control_ok (fst p)" and "ss_localExchangeRetryAttempt (fst p) = of_nat n"
  shows "ss_localExchangeRetryAttempt (fst (control_run U p ops)) = of_nat (restarts U n p ops)"
  using assms
proof (induction ops arbitrary: p n)
  case (Cons x ops)
  obtain s e s' e' where st: "p = (s, e)" "control_exec U p x = (s', e')" by (metis surj_pair)
  have "control_ok s'" using control_exec_ok [OF Cons.prems(1), of U x] st by simp
  moreover have "ss_localExchangeRetryAttempt s' =
      of_nat (if accepts_session (LocalExchangeID s) (snd x) then 0 else if restarted U p x then Suc n else n)"
    using exec_retry [of s U e x s' e'] Cons.prems st by (simp add: retry_state_def add.commute split: if_splits)
  ultimately show ?case
    using Cons.IH [of "(s', e')" "if accepts_session (LocalExchangeID s) (snd x) then 0 else if restarted U p x then Suc n else n"] st by simp
qed simp

lemma restarts_le: "restarts U n p ops \<le> n + length ops"
proof (induction ops arbitrary: n p)
  case (Cons x ops)
  let ?n = "if accepts_session (LocalExchangeID (fst p)) (snd x) then 0 else if restarted U p x then Suc n else n"
  have "restarts U ?n (control_exec U p x) ops \<le> ?n + length ops" by (rule Cons.IH)
  then show ?case by (simp split: if_splits)
qed simp

lemma exec_backed_off:
  assumes "control_ok s" and "ss_localExchangeRetryAt s = d" and "d \<noteq> 0" and "fst x < d" and "op_time x < d"
    and "\<not> accepts_session (LocalExchangeID s) (snd x)" and "control_exec U (s, e) x = (s', e')"
  shows "ss_localExchangeRetryAt s' = d \<and> LocalExchangeID s' = LocalExchangeID s"
proof -
  obtain t op where x: "x = (t, op)" by (cases x)
  have "\<not> restarted U (s, e) x" using assms(2-4) by (cases op) (auto simp: restarted_def RestartLocalExchange_def x)
  then have "retry_state s' = retry_state s" using exec_retry [OF assms(1,7)] assms(6) by simp
  moreover have "LocalExchangeID s' = LocalExchangeID s"
  proof (cases "quiet_op op")
    case True
    then show ?thesis using quiet_numbers [of U s e t op s' e'] assms(7) x by (simp add: numbers_def LocalExchangeID_def)
  next
    case False
    show ?thesis
    proof (cases op)
      case DoBegin
      then show ?thesis using assms x begin_backed_off [of s t U e] by (simp add: op_time_def)
    next
      case (DoRestart t')
      then show ?thesis using assms x by (simp add: RestartLocalExchange_def)
    next
      case (DoHello m)
      obtain d where h: "ObserveCapabilitiesHello s t m = (s', d)" using assms(7) x DoHello by (auto simp: prod_eq_iff)
      then show ?thesis
        using control_ok_sets(3,1) [OF assms(1)]
        by (cases rule: hello_outcome)
           (auto simp: LocalExchangeID_def record_hello_def reconcileCapabilitiesAck_def Let_def pruneRetired_def cleared_def)
    next
      case (DoReset m)
      obtain d where h: "ObserveResetSequence s t m = (s', d)" using assms(7) x DoReset by (auto simp: prod_eq_iff)
      then show ?thesis
        using control_ok_sets(1) [OF assms(1)]
        by (cases rule: reset_outcome) (auto simp: LocalExchangeID_def pruneRetired_def)
    next
      case (DoEpochQuery k)
      then show ?thesis using assms(7) x by (auto simp: IsRemoteEpochRetired_def Let_def LocalExchangeID_def split: if_splits)
    qed (use False in simp_all)
  qed
  ultimately show ?thesis using assms(2) by (simp add: retry_state_def)
qed

lemma run_backed_off:
  assumes "control_ok (fst p)" and "ss_localExchangeRetryAt (fst p) = d" and "d \<noteq> 0"
    and "\<forall>x\<in>set ops. fst x < d \<and> op_time x < d \<and> \<not> accepts_session (LocalExchangeID (fst p)) (snd x)"
  shows "LocalExchangeID (fst (control_run U p ops)) = LocalExchangeID (fst p) \<and> ss_localExchangeRetryAt (fst (control_run U p ops)) = d"
  using assms
proof (induction ops arbitrary: p)
  case (Cons x ops)
  obtain s e s' e' where st: "p = (s, e)" "control_exec U p x = (s', e')" by (metis surj_pair)
  have "ss_localExchangeRetryAt s' = d \<and> LocalExchangeID s' = LocalExchangeID s"
    by (rule exec_backed_off [of s d x U e s' e']) (use Cons.prems st in auto)
  moreover have "control_ok s'" using control_exec_ok [OF Cons.prems(1), of U x] st by simp
  ultimately show ?case using Cons.IH [of "(s', e')"] Cons.prems(3,4) st by simp
qed simp

lemma run_sync:
  assumes "control_ok (fst p)" and "ss_stateSyncSent (fst p)" and "t1 \<le> ss_lastStateSync (fst p)"
  shows "ss_stateSyncSent (fst (control_run U p ops)) \<and> t1 \<le> ss_lastStateSync (fst (control_run U p ops))"
  using assms
proof (induction ops arbitrary: p)
  case (Cons x ops)
  obtain s e s' e' t op where st: "p = (s, e)" "x = (t, op)" "control_exec U (s, e) (t, op) = (s', e')" by (metis surj_pair)
  have interval: "0 < st_StateSyncMinInterval (ss_config s)"
    using Cons.prems(1) st by (simp add: control_ok_def state_config_ok_def)
  have "ss_stateSyncSent s' \<and> t1 \<le> ss_lastStateSync s'"
  proof (cases "\<exists>y. op = DoCheckSession y")
    case True
    then show ?thesis using st Cons.prems interval by (auto simp: CheckInboundDataSession_def Let_def split: if_splits)
  next
    case False
    then show ?thesis using exec_fixed [OF _ st(3)] st Cons.prems by (auto simp: fixed_part_def)
  qed
  moreover have "control_ok s'" using control_exec_ok [OF Cons.prems(1), of U x] st by simp
  ultimately show ?case using Cons.IH [of "(s', e')"] st by simp
qed simp

subsection \<open>A small exchange\<close>

text \<open>An entropy source that counts, a configuration, and the messages of one complete exchange at both sides' smallest values.\<close>

definition counting_entropy :: "(u64, unit) entropy" where
  "counting_entropy n = (n + 1, Inr (n + 1))"

definition sample_state_config :: StateConfig where
  "sample_state_config =
     \<lparr>st_MaxCarrierPayload = 1400, st_MinCarrierPayload = 613, st_SupportedFeatureBits = 3, st_RequiredFeatureBits = 1,
      st_ReassemblyLifetimeMs = 2000, st_LocalPeerMTU = 1500, st_StateSyncMinInterval = 1000, st_HasClock = True, st_HasEntropy = True\<rparr>"

definition sample_state :: State where
  "sample_state = (case (NewState sample_state_config :: unit control_state_error + State) of Inr s \<Rightarrow> s)"

lemma sample_state_new: "(NewState sample_state_config :: unit control_state_error + State) = Inr sample_state"
  unfolding sample_state_def
  by (simp add: NewState_def sample_state_config_def DefaultCarrierPayload_def maxCarrierPayload_def MinReassemblyLifetimeMs_def
      MaxReassemblyLifetimeMs_def MinInnerMTU_def MaxInnerMTU_def and_not_def)

definition peer_request :: "u64 \<Rightarrow> u64 \<Rightarrow> control_body \<Rightarrow> Control option" where
  "peer_request i epoch body = Some \<lparr>ct_MessageId = i, ct_ReplyTo = 0, ct_ControlEpoch = epoch, ct_Padding = None, ct_Body = Some body\<rparr>"

definition peer_reply :: "u64 \<Rightarrow> u64 \<Rightarrow> control_body \<Rightarrow> Control option" where
  "peer_reply r epoch body = Some \<lparr>ct_MessageId = 50, ct_ReplyTo = r, ct_ControlEpoch = epoch, ct_Padding = None, ct_Body = Some body\<rparr>"

definition sample_hello :: CapabilitiesHello where
  "sample_hello = \<lparr>ch_DataProtocolVersion = 1, ch_MaxFragments = 16, ch_MaxCarrierPayload = 900, ch_SupportedFeatureBits = 1,
     ch_RequiredFeatureBits = 0, ch_ReassemblyLifetimeMs = 5000\<rparr>"

definition sample_exchange :: "(gotime \<times> control_op) list" where
  "sample_exchange =
     [(10, DoBegin),
      (11, DoHello (peer_request 1 77 (BodyCapabilitiesHello sample_hello))),
      (12, DoCapabilitiesAck (peer_reply 5 1 (BodyCapabilitiesAck
             \<lparr>ca_SelectedDataProtocolVersion = 1, ca_SelectedFeatureBits = 1, ca_Result = RESULT_CODE_ACCEPTED\<rparr>)) 5),
      (13, DoResetAck (peer_reply 6 1 (BodyResetSequenceAck
             \<lparr>rk_DataSessionId = 2, rk_Result = RESULT_CODE_ACCEPTED, rk_LastReceivedCarrierPayload = 0\<rparr>)) 6),
      (14, DoPeerMTU (peer_request 2 77 (BodyPeerMTU \<lparr>pt_InnerMtu = 1400\<rparr>))),
      (15, DoPeerMTUAck (peer_reply 7 1 (BodyPeerMTUAck \<lparr>pu_InnerMtu = 1500, pu_Result = RESULT_CODE_ACCEPTED\<rparr>)) 7),
      (16, DoPong (peer_reply 8 1 (BodyPong \<lparr>po_Sequence = 4\<rparr>)) 8 4),
      (17, DoBaseProbeAck (peer_reply 9 1 (BodyMtuProbeAck \<lparr>pa_ReceivedProbePayloadSize = 613\<rparr>)) 9)]"

text \<open>A session of the peer.\<close>

definition sample_reset :: "u32 \<Rightarrow> control_op" where
  "sample_reset session = DoReset (peer_request 3 77 (BodyResetSequence \<lparr>rq_DataSessionId = session\<rparr>))"

definition sample_session :: "State \<times> u64" where
  "sample_session = control_run counting_entropy (sample_state, 0) (sample_exchange @ [(20, sample_reset 8)])"

lemma sample_open: "DataSendAllowed (fst (control_run counting_entropy (sample_state, 0) sample_exchange))"
  by code_simp

subsection \<open>The properties\<close>

text \<open>
  C16.  In every reachable state in which DATA may be sent, both peers have agreed: the negotiated carrier payload lies
  between BASE and the configured maximum and fits 16 bits, the MTU and the reassembly lifetime of the peer are
  in range, the features both sides selected are the same, are supported here and contain every required
  one, and the epochs and the local session are not zero.
\<close>

theorem data_open_agreed:
  assumes "(NewState c :: 'e control_state_error + State) = Inr s0"
    and "DataSendAllowed (fst (control_run U (s0, e) ops))"
  shows "open_with_agreement c (fst (control_run U (s0, e) ops))"
proof -
  have ok: "control_ok s0" "ss_config s0 = c" using new_control_ok [OF assms(1)] by simp_all
  show ?thesis
    using control_open_agrees [OF control_run_ok assms(2)] run_config [of "(s0, e)" U ops] ok by simp
qed

theorem data_open_agreed_witness:
  "DataSendAllowed (fst (control_run counting_entropy (sample_state, 0) sample_exchange)) \<and>
   open_with_agreement sample_state_config (fst (control_run counting_entropy (sample_state, 0) sample_exchange))"
  using sample_open data_open_agreed [OF sample_state_new sample_open] by blast

text \<open>
  C5.  DATA is open only on evidence: for each of the seven gates the run contains the message it stands for, valid
  when it came, and from then on to the end the exchange it belongs to (the local epoch and session, or the
  epoch of the peer) has not been replaced.
\<close>

theorem data_open_confirmed:
  assumes "(NewState c :: 'e control_state_error + State) = Inr s0"
    and "DataSendAllowed (fst (control_run U (s0, e) ops))"
  shows "\<forall>k<7. confirmed U (s0, e) ops k"
proof (intro allI impI)
  fix k :: nat assume k: "k < 7"
  have ok: "control_ok (fst (s0, e))" using new_control_ok [OF assms(1)] by simp
  have "gate (fst (control_run U (s0, e) ops)) 0 \<Longrightarrow> ss_pendingCapabilitiesAck (fst (control_run U (s0, e) ops))"
    using control_run_ok [OF ok, of U ops] by (simp add: control_ok_def)
  then have "behind k (fst (control_run U (s0, e) ops))"
    using assms(2) k by (simp add: DataSendAllowed_gates behind_def)
  then show "confirmed U (s0, e) ops k"
    using behind_confirmed [OF ok _ k] new_not_behind [OF assms(1)] by simp
qed

theorem data_open_confirmed_witness:
  "DataSendAllowed (fst (control_run counting_entropy (sample_state, 0) sample_exchange)) \<and>
   list_all (confirmed counting_entropy (sample_state, 0) sample_exchange) [0, 1, 2, 3, 4, 5, 6]"
  using sample_open data_open_confirmed [OF sample_state_new sample_open] by simp

text \<open>
  C2.  A number that is given up is not taken again while fragments or messages under it may be on their way: a
  session of the peer for the local reassembly lifetime, a local session for the longer of both lifetimes, an
  epoch of the peer for four minutes, whatever happens in between.
\<close>

theorem given_up_numbers_stay_out:
  assumes "(NewState c :: 'e control_state_error + State) = Inr s0"
    and "control_run U (s0, e0) ops0 = (s, e)" and "control_exec U (s, e) x = (s', e')"
  shows "(ss_remoteSessionID s \<noteq> 0 \<and> ss_remoteSessionID s' \<noteq> ss_remoteSessionID s \<and>
      (\<forall>y\<in>set ops. op_time y < op_time x + lifetime_of (st_ReassemblyLifetimeMs c)) \<longrightarrow>
        RemoteDataSessionID (fst (control_run U (s', e') ops)) \<noteq> ss_remoteSessionID s) \<and>
    (ss_localSessionID s \<noteq> 0 \<and> ss_localSessionID s' \<noteq> ss_localSessionID s \<and>
      (\<forall>y\<in>set ops. op_time y < op_time x +
         lifetime_of (max (st_ReassemblyLifetimeMs c) (RemoteReassemblyLifetimeMs s))) \<longrightarrow>
        lx_DataSessionID (LocalExchangeID (fst (control_run U (s', e') ops))) \<noteq> ss_localSessionID s) \<and>
    (ss_remoteEpoch s \<noteq> 0 \<and> ss_remoteEpoch s' \<noteq> ss_remoteEpoch s \<and>
      (\<forall>y\<in>set ops. op_time y < op_time x + 240 * Second) \<longrightarrow>
        ss_remoteEpoch (fst (control_run U (s', e') ops)) \<noteq> ss_remoteEpoch s)"
proof -
  have new: "control_ok s0" "ss_config s0 = c" using new_control_ok [OF assms(1)] by simp_all
  then have ok: "control_ok s" "ss_config s = c"
    using control_run_ok [of "(s0, e0)" U ops0] run_config [of "(s0, e0)" U ops0] assms(2) by simp_all
  have life: "session_lifetime s = lifetime_of (st_ReassemblyLifetimeMs c)"
    "localSessionLifetime s = lifetime_of (max (st_ReassemblyLifetimeMs c) (RemoteReassemblyLifetimeMs s))"
    using ok(2) by (auto simp: session_lifetime_def localSessionLifetime_def Let_def max_def RemoteReassemblyLifetimeMs_def)
  show ?thesis
    using remote_session.given_up [OF ok(1) assms(3), of ops] local_session.given_up [OF ok(1) assms(3), of ops]
      remote_epoch.given_up [OF ok(1) assms(3), of ops]
    unfolding life RemoteDataSessionID_def LocalExchangeID_def LocalExchange.simps retiredEpochLifetime_def by blast
qed

theorem given_up_numbers_stay_out_witness:
  "ss_remoteSessionID (fst sample_session) = 8 \<and>
   ss_remoteSessionID (fst (control_exec counting_entropy sample_session (30, sample_reset 9))) = 9 \<and>
   RemoteDataSessionID (fst (control_run counting_entropy (control_exec counting_entropy sample_session (30, sample_reset 9))
     [(40, sample_reset 8), (50, DoBegin), (60, sample_reset 8)])) \<noteq> 8"
proof -
  let ?p = "sample_session" and ?ops = "[(40, sample_reset 8), (50, DoBegin), (60, sample_reset 8)]"
  let ?q = "control_exec counting_entropy ?p (30, sample_reset 9)"
  have ids: "ss_remoteSessionID (fst ?p) = 8" "ss_remoteSessionID (fst ?q) = 9"
    by code_simp+
  have times: "\<forall>y\<in>set ?ops. op_time y < op_time (30, sample_reset 9) + lifetime_of (st_ReassemblyLifetimeMs sample_state_config)"
    by code_simp
  show ?thesis
    using given_up_numbers_stay_out [OF sample_state_new, of counting_entropy 0 "sample_exchange @ [(20, sample_reset 8)]" "fst ?p" "snd ?p"
        "(30, sample_reset 9)" "fst ?q" "snd ?q" ?ops] ids times
    by (simp add: sample_session_def)
qed

text \<open>
  C35.  The peer is asked to synchronise at most once per interval: between two requests of a run lies at least the
  configured \<^verbatim>\<open>StateSyncMinInterval\<close>.
\<close>

theorem state_sync_spacing:
  assumes "(NewState c :: 'e control_state_error + State) = Inr s0"
    and "control_run U (s0, e0) ops0 = (s, e)"
    and "CheckInboundDataSession s t1 a = (s1, d1)" and "sx_SendStateSyncRequired d1"
    and "control_run U (s1, e) ops = (s2, e2)"
    and "CheckInboundDataSession s2 t2 b = (s3, d2)" and "sx_SendStateSyncRequired d2"
  shows "t1 + st_StateSyncMinInterval c \<le> t2"
proof -
  have new: "control_ok s0" "ss_config s0 = c" using new_control_ok [OF assms(1)] by simp_all
  then have ok: "control_ok s" "ss_config s = c"
    using control_run_ok [of "(s0, e0)" U ops0] run_config [of "(s0, e0)" U ops0] assms(2) by simp_all
  have s1: "control_ok s1" "ss_config s1 = c" "ss_stateSyncSent s1" "ss_lastStateSync s1 = t1"
    using check_session_ok [OF ok(1) assms(3)] assms(3,4) ok(2) by (auto simp: CheckInboundDataSession_def Let_def split: if_splits)
  then have "ss_config s2 = c" "ss_stateSyncSent s2" "t1 \<le> ss_lastStateSync s2"
    using run_sync [of "(s1, e)" t1 U ops] run_config [of "(s1, e)" U ops] assms(5) by simp_all
  then show ?thesis
    using assms(6,7) by (auto simp: CheckInboundDataSession_def Let_def split: if_splits)
qed

theorem state_sync_spacing_witness:
  "sx_SendStateSyncRequired (snd (CheckInboundDataSession (fst sample_session) 100 3)) \<and>
   sx_SendStateSyncRequired (snd (CheckInboundDataSession (fst (CheckInboundDataSession (fst sample_session) 100 3)) 1100 4)) \<and>
   100 + st_StateSyncMinInterval sample_state_config \<le> 1100"
proof -
  let ?c1 = "CheckInboundDataSession (fst sample_session) 100 3"
  let ?c2 = "CheckInboundDataSession (fst ?c1) 1100 4"
  have sent: "sx_SendStateSyncRequired (snd ?c1)" "sx_SendStateSyncRequired (snd ?c2)"
    by code_simp+
  show ?thesis
    using state_sync_spacing [OF sample_state_new, of counting_entropy 0 "sample_exchange @ [(20, sample_reset 8)]" "fst sample_session"
        "snd sample_session" 100 3 "fst ?c1" "snd ?c1" "[]" "fst ?c1" "snd sample_session" 1100 4 "fst ?c2" "snd ?c2"] sent
    by (simp add: sample_session_def)
qed

text \<open>
  C36.  A restart of the local exchange that succeeds after any history closes DATA and installs a fresh epoch and session.  Its delay
  has full jitter: with \<open>n\<close> restarts since the peer last accepted a session, it is the next random number reduced to 1 up to
  \<open>min (200 ms * 2 ^ n) (60 s)\<close> nanoseconds, or that bound itself when the entropy source fails.  Until then no operation, an
  acknowledgement that does not accept this session included, replaces the exchange or moves the deadline; the acknowledgement that
  accepts it lifts the deadline.
\<close>

theorem restart_backs_off:
  assumes "(NewState c :: 'e control_state_error + State) = Inr s0"
    and "control_run U (s0, e0) ops0 = (s, e)" and "length ops0 < 2 ^ 64"
    and "RestartLocalExchange U s now now' e = (s1, e1, Some r, None)" and "0 \<le> now"
  defines "cap \<equiv> min (200 * Millisecond * 2 ^ restarts U 0 (s0, e0) ops0) (60 * Second)"
  shows "\<not> DataSendAllowed s1 \<and> lr_LocalExchange r = LocalExchangeID s1 \<and>
    lx_ControlEpoch (LocalExchangeID s1) \<notin> {0, ss_localEpoch s} \<and> lx_DataSessionID (LocalExchangeID s1) \<notin> {0, ss_localSessionID s} \<and>
    LocalExchangeRetryAt s1 = now + lr_RetryAfter r \<and> lr_RetryAt r = now + lr_RetryAfter r \<and>
    (\<exists>b e'. BeginLocalExchange U s now' e = (b, e', Inr (LocalExchangeID s1)) \<and>
       lr_RetryAfter r = (case snd (U e') of Inl err \<Rightarrow> cap | Inr random \<Rightarrow> int (unat random) mod cap + 1)) \<and>
    ((\<forall>x\<in>set ops. fst x < lr_RetryAt r \<and> op_time x < lr_RetryAt r \<and> \<not> accepts_session (LocalExchangeID s1) (snd x)) \<longrightarrow>
      LocalExchangeID (fst (control_run U (s1, e1) ops)) = LocalExchangeID s1 \<and>
      LocalExchangeRetryAt (fst (control_run U (s1, e1) ops)) = lr_RetryAt r \<and>
      (accepts_session (LocalExchangeID s1) op \<longrightarrow> LocalExchangeRetryReady (fst (control_run U (s1, e1) (ops @ [(t, op)]))) t'))"
proof -
  have new: "ss_localExchangeRetryAttempt s0 = of_nat 0" using assms(1) by (auto simp: NewState_def split: if_splits)
  have ok: "control_ok s" using new_control_ok [OF assms(1)] control_run_ok [of "(s0, e0)" U ops0] assms(2) by simp
  have "ss_localExchangeRetryAttempt s = of_nat (restarts U 0 (s0, e0) ops0)"
    using run_attempts [of "(s0, e0)" 0 U ops0] new new_control_ok [OF assms(1)] assms(2) by simp
  moreover have "restarts U 0 (s0, e0) ops0 < 2 ^ LENGTH(64)" using restarts_le [of U 0 "(s0, e0)" ops0] assms(3) by simp
  ultimately have attempt: "restart_cap (unat (ss_localExchangeRetryAttempt s)) = cap"
    by (simp add: cap_def restart_cap_def unsigned_of_nat take_bit_nat_eq_self)
  obtain b eb rb where b: "BeginLocalExchange U s now' e = (b, eb, rb)" by (cases "BeginLocalExchange U s now' e")
  obtain e3 d where d: "localExchangeBackoff U (ss_localExchangeRetryAttempt b) eb = (e3, d)" by (meson surj_pair)
  obtain x where r: "rb = Inr x" "r = \<lparr>lr_LocalExchange = x, lr_RetryAt = now + d, lr_RetryAfter = d\<rparr>"
      "s1 = b\<lparr>ss_localExchangeRetryAttempt := ss_localExchangeRetryAttempt b + 1, ss_localExchangeRetryAt := now + d\<rparr>"
    using assms(4) b d by (auto simp: RestartLocalExchange_def split: if_splits sum.splits)
  have s1: "control_ok s1" by (rule Restart_ok [OF ok assms(4)])
  from b control_ok_sets(2) [OF ok]
  have begun: "ss_localExchangeRetryAttempt b = ss_localExchangeRetryAttempt s \<and> \<not> gate b 0 \<and> x = LocalExchangeID b \<and>
      ss_localEpoch b \<notin> {0, ss_localEpoch s} \<and> ss_localSessionID b \<notin> {0, ss_localSessionID s}"
    by (cases rule: Begin_outcome)
       (use r(1) in \<open>auto simp: begun_def pruneRetired_def gate_def gate_simps LocalExchangeID_def\<close>)
  have jitter: "d = (case snd (U eb) of Inl err \<Rightarrow> cap | Inr random \<Rightarrow> int (unat random) mod cap + 1)"
    using d begun attempt by (auto simp: backoff_exact split: prod.splits sum.splits)
  have x: "x = LocalExchangeID s1" using begun r(3) by (simp add: LocalExchangeID_def)
  have "\<not> DataSendAllowed s1" using begun r(3) by (auto simp: DataSendAllowed_gates gate_def intro: exI [of _ 0])
  moreover have later: "LocalExchangeID (fst (control_run U (s1, e1) ops)) = LocalExchangeID s1 \<and>
      ss_localExchangeRetryAt (fst (control_run U (s1, e1) ops)) = now + d"
    if "\<forall>x\<in>set ops. fst x < now + d \<and> op_time x < now + d \<and> \<not> accepts_session (LocalExchangeID s1) (snd x)"
    using run_backed_off [of "(s1, e1)" "now + d" ops U] s1 r(3) that backoff_bounds [OF d] assms(5) by simp
  moreover have "LocalExchangeRetryReady (fst (control_run U (s1, e1) (ops @ [(t, op)]))) t'"
    if a: "accepts_session (LocalExchangeID (fst (control_run U (s1, e1) ops))) op"
    using exec_retry [OF control_run_ok [of "(s1, e1)" U ops], of U "snd (control_run U (s1, e1) ops)" "(t, op)"] s1 a
    by (auto simp: LocalExchangeRetryReady_def retry_state_def prod_eq_iff)
  ultimately show ?thesis
    using begun b jitter r x by (auto simp: LocalExchangeID_def [of b] LocalExchangeID_def [of s1] LocalExchangeRetryAt_def)
qed

text \<open>A rejected acknowledgement in between, and a second restart whose delay stays below the doubled bound.\<close>

definition refusal :: control_op where
  "refusal = DoResetAck (peer_reply 9 3 (BodyResetSequenceAck
     \<lparr>rk_DataSessionId = 4, rk_Result = RESULT_CODE_SESSION_COLLISION, rk_LastReceivedCarrierPayload = 0\<rparr>)) 9"

definition collided :: "(gotime \<times> control_op) list" where
  "collided = sample_exchange @ [(20, sample_reset 8), (100, DoRestart 101), (200, refusal)]"

theorem restart_backs_off_witness:
  "case control_run counting_entropy (sample_state, 0) collided of (s, e) \<Rightarrow>
   (case RestartLocalExchange counting_entropy s 300 301 e of
     (s1, e1, Some r, None) \<Rightarrow>
       restarts counting_entropy 0 (sample_state, 0) collided = 1 \<and> lr_RetryAfter r = 9 \<and>
       LocalExchangeID (fst (control_run counting_entropy (s1, e1) [(303, DoBegin), (304, refusal), (305, DoRestart 306)])) = LocalExchangeID s1
   | _ \<Rightarrow> False)"
proof -
  let ?p = "control_run counting_entropy (sample_state, 0) collided"
  let ?run = "RestartLocalExchange counting_entropy (fst ?p) 300 301 (snd ?p)"
  have some: "(case ?run of (s1, e1, Some r, None) \<Rightarrow> lr_RetryAfter r = 9 \<and> lr_RetryAt r = 309 | _ \<Rightarrow> False)"
    "restarts counting_entropy 0 (sample_state, 0) collided = 1"
    by code_simp+
  then obtain s1 e1 r where run: "?run = (s1, e1, Some r, None)" and r: "lr_RetryAfter r = 9" "lr_RetryAt r = 309"
    by (auto split: prod.splits option.splits)
  have times: "\<forall>x\<in>set [(303, DoBegin), (304, refusal), (305, DoRestart 306)].
      fst x < 309 \<and> op_time x < 309 \<and> \<not> accepts_session (LocalExchangeID s1) (snd x)"
    by (simp add: op_time_def refusal_def accepts_session_def peer_reply_def)
  have "length collided < 2 ^ 64" by code_simp
  then show ?thesis
    using restart_backs_off [OF sample_state_new, of counting_entropy 0 collided "fst ?p" "snd ?p" 300 301 s1 e1 r
        "[(303, DoBegin), (304, refusal), (305, DoRestart 306)]"] run r times some(2)
    by (simp add: split_beta)
qed

end
