(* ===== verification/Engine.thy ===== *)
theory Engine
  imports ControlState ControlFrame Pmtu
begin

text \<open>
  \<^verbatim>\<open>internal/controlplane/engine.go\<close>: the control engine of one peer.  It drives the control state and the path MTU
  search with CONTROL messages, one request at a time.

  The dependencies are a record of functions on the world \<open>'w\<close>: the clock, the entropy source, the callback for
  a changed payload size, and the protobuf library with \<^verbatim>\<open>proto.Marshal\<close>, \<^verbatim>\<open>proto.Size\<close> and \<^verbatim>\<open>proto.Unmarshal\<close>.  A
  method is an action on the engine and the world; it ends with a value or an error and keeps the changes
  made so far in both cases.  Where a callee reads the clock on some branches only, the reading is taken on
  all of them.  A panic of the search is the error \<open>eg_Panic\<close>.
\<close>

unbundle bit_operations_syntax

datatype 'x engine_error =
    ErrAlreadyStarted
  | ErrNotStarted
  | ErrMalformedControl
  | ErrUnsupportedBody
  | ErrUnexpectedResponse
  | ErrMessageIDExhausted
  | ErrUnrepresentableProbe
  | eg_Frame control_frame_error
  | eg_State "'x control_state_error"
  | eg_Pmtu pmtu_error
  | eg_Protobuf
  | eg_Panic

definition StatusStarting :: string where "StatusStarting = ''STARTING''"
definition StatusBase :: string where "StatusBase = ''BASE''"
definition StatusSearching :: string where "StatusSearching = ''SEARCHING''"
definition StatusSearchComplete :: string where "StatusSearchComplete = ''SEARCH_COMPLETE''"
definition StatusError :: string where "StatusError = ''ERROR''"

definition BaseErrorReason :: string where "BaseErrorReason = ''base_probe_failed''"
definition CapabilitiesIncompatibleVersionReason :: string where
  "CapabilitiesIncompatibleVersionReason = ''capabilities_incompatible_version''"
definition CapabilitiesMissingRequiredReason :: string where
  "CapabilitiesMissingRequiredReason = ''capabilities_missing_required_feature''"
definition CapabilitiesInvalidParameterReason :: string where
  "CapabilitiesInvalidParameterReason = ''capabilities_invalid_parameter''"
definition CapabilitiesInvalidResultReason :: string where "CapabilitiesInvalidResultReason = ''capabilities_invalid_result''"
definition ResetSequenceRejectedReason :: string where "ResetSequenceRejectedReason = ''reset_sequence_rejected''"
definition ResetSequenceInvalidParameterReason :: string where
  "ResetSequenceInvalidParameterReason = ''reset_sequence_invalid_parameter''"
definition ResetSequenceInvalidResultReason :: string where "ResetSequenceInvalidResultReason = ''reset_sequence_invalid_result''"
definition ResetSequenceRetryExhaustedReason :: string where "ResetSequenceRetryExhaustedReason = ''reset_sequence_retry_exhausted''"
definition PeerMTURejectedReason :: string where "PeerMTURejectedReason = ''peer_mtu_rejected''"
definition PeerMTUInvalidParameterReason :: string where "PeerMTUInvalidParameterReason = ''peer_mtu_invalid_parameter''"
definition PeerMTUInvalidResultReason :: string where "PeerMTUInvalidResultReason = ''peer_mtu_invalid_result''"

record ('w, 'x) EngineEnv =
  ev_Now :: "'w \<Rightarrow> 'w \<times> gotime"
  ev_Uint64 :: "('w, 'x) entropy"
  ev_CanonicalizeCarrierPayload :: "(u32 \<Rightarrow> u32) option"
  ev_TransportDatagramSize :: "(u32 \<Rightarrow> int) option"
  ev_OnConfirmedPayloadChange :: "(u32 \<Rightarrow> 'w \<Rightarrow> 'w) option"
  ev_Marshal :: "Control \<Rightarrow> bytes option"
  ev_Size :: "Control \<Rightarrow> nat"
  ev_Unmarshal :: "bytes \<Rightarrow> Control option"

type_synonym Outbound = bytes

datatype requestKind =
    requestNone
  | requestCapabilities
  | requestReset
  | requestPeerMTU
  | requestPing
  | requestBaseProbe
  | requestPMTUProbe

definition initialRetryDelay :: duration where "initialRetryDelay = 200 * Millisecond"
definition maxRetryDelay :: duration where "maxRetryDelay = 60 * Second"
definition capabilitiesRetryStartupWindow :: duration where "capabilitiesRetryStartupWindow = 130 * Second"
definition capabilitiesRetryMaxDelay :: duration where "capabilitiesRetryMaxDelay = 2 * Second"
definition engineProbeTimeout :: duration where "engineProbeTimeout = 2 * Second"
definition engineMinimumProbeTimeout :: duration where "engineMinimumProbeTimeout = 100 * Millisecond"
definition refreshInterval :: duration where "refreshInterval = 600 * Second"
definition confirmationInterval :: duration where "confirmationInterval = 60 * Second"

text \<open>A frame that is nil is the empty list.\<close>

record outstandingRequest =
  oq_kind :: requestKind
  oq_messageID :: u64
  oq_ping :: u32
  oq_probeSize :: u32
  oq_probeAttempt :: u64
  oq_initialized :: bool
  oq_frame :: bytes
  oq_retryDeadline :: gotime
  oq_retryAttempt :: u64
  oq_sentAt :: gotime

definition no_request :: outstandingRequest where
  "no_request = \<lparr>oq_kind = requestNone, oq_messageID = 0, oq_ping = 0, oq_probeSize = 0, oq_probeAttempt = 0, oq_initialized = False,
     oq_frame = [], oq_retryDeadline = 0, oq_retryAttempt = 0, oq_sentAt = 0\<rparr>"

record resetReplayKey =
  yk_epoch :: u64
  yk_message :: u64
  yk_kind :: requestKind

record resetReplayEntry =
  ye_key :: resetReplayKey
  ye_frame :: bytes
  ye_used :: bool

definition resetReplayCapacity :: nat where "resetReplayCapacity = 32"

record Engine =
  eg_state :: State
  eg_codec :: Codec
  eg_base :: u32
  eg_pmtu :: "PmtuState option"
  eg_started :: bool
  eg_localEpoch :: u64
  eg_localMessageID :: u64
  eg_remoteEpoch :: u64
  eg_remoteResponseID :: u64
  eg_nextPingSequence :: u32
  eg_outstanding :: outstandingRequest
  eg_srtt :: duration
  eg_baseError :: bool
  eg_baseErrorReason :: string
  eg_terminalError :: bool
  eg_terminalReason :: string
  eg_baseRetryAt :: gotime
  eg_baseRetryAttempt :: u64
  eg_lastReceivedCarrierPayload :: u32
  eg_pmtuHint :: u32
  eg_resetReplay :: "resetReplayEntry list"
  eg_resetReplayNext :: nat

definition buildControl :: "u64 \<Rightarrow> u64 \<Rightarrow> u64 \<Rightarrow> control_body \<Rightarrow> Control" where
  "buildControl messageID replyTo epoch body =
     \<lparr>ct_MessageId = messageID, ct_ReplyTo = replyTo, ct_ControlEpoch = epoch, ct_Padding = None, ct_Body = Some body\<rparr>"

definition NewEngine :: "StateConfig \<Rightarrow> 'x engine_error + Engine" where
  "NewEngine config =
     (case NewState config of
        Inl err \<Rightarrow> Inl (eg_State err)
      | Inr state \<Rightarrow>
          (case NewCodec (uint (st_MaxCarrierPayload config)) of
             Inl err \<Rightarrow> Inl (eg_Frame err)
           | Inr codec \<Rightarrow>
               Inr \<lparr>eg_state = state, eg_codec = codec, eg_base = st_MinCarrierPayload config, eg_pmtu = None, eg_started = False,
                    eg_localEpoch = 0, eg_localMessageID = 0, eg_remoteEpoch = 0, eg_remoteResponseID = 0, eg_nextPingSequence = 1,
                    eg_outstanding = no_request, eg_srtt = 0, eg_baseError = False, eg_baseErrorReason = [],
                    eg_terminalError = False, eg_terminalReason = [], eg_baseRetryAt = 0, eg_baseRetryAttempt = 0,
                    eg_lastReceivedCarrierPayload = 0, eg_pmtuHint = 0,
                    eg_resetReplay = replicate resetReplayCapacity
                      \<lparr>ye_key = \<lparr>yk_epoch = 0, yk_message = 0, yk_kind = requestNone\<rparr>, ye_frame = [], ye_used = False\<rparr>,
                    eg_resetReplayNext = 0\<rparr>))"

subsection \<open>Actions\<close>

type_synonym ('w, 'x, 'a) act = "Engine \<times> 'w \<Rightarrow> (Engine \<times> 'w) \<times> ('x engine_error + 'a)"

definition ret :: "'a \<Rightarrow> ('w, 'x, 'a) act" where
  "ret a p = (p, Inr a)"

definition raise :: "'x engine_error \<Rightarrow> ('w, 'x, 'a) act" where
  "raise err p = (p, Inl err)"

definition andThen :: "('w, 'x, 'a) act \<Rightarrow> ('a \<Rightarrow> ('w, 'x, 'b) act) \<Rightarrow> ('w, 'x, 'b) act" where
  "andThen m f p = (case m p of (q, Inl err) \<Rightarrow> (q, Inl err) | (q, Inr a) \<Rightarrow> f a q)"

text \<open>\<open>attempt m\<close> gives the outcome of \<open>m\<close> as a value, for code that runs after an error too.\<close>

definition attempt :: "('w, 'x, 'a) act \<Rightarrow> ('w, 'x, 'x engine_error + 'a) act" where
  "attempt m p = (case m p of (q, r) \<Rightarrow> (q, Inr r))"

definition outcome :: "'x engine_error + 'a \<Rightarrow> ('w, 'x, 'a) act" where
  "outcome r p = (p, r)"

definition getE :: "(Engine \<Rightarrow> ('w, 'x, 'a) act) \<Rightarrow> ('w, 'x, 'a) act" where
  "getE f p = f (fst p) p"

definition modE :: "(Engine \<Rightarrow> Engine) \<Rightarrow> ('w, 'x, unit) act" where
  "modE f p = ((f (fst p), snd p), Inr ())"

definition clockNow :: "('w, 'x) EngineEnv \<Rightarrow> ('w, 'x, gotime) act" where
  "clockNow env p = (case ev_Now env (snd p) of (w, now) \<Rightarrow> ((fst p, w), Inr now))"

text \<open>A method of the control state that returns a value.\<close>

definition onState :: "(State \<Rightarrow> State \<times> 'a) \<Rightarrow> ('w, 'x, 'a) act" where
  "onState f p = (case f (eg_state (fst p)) of (s, a) \<Rightarrow> (((fst p)\<lparr>eg_state := s\<rparr>, snd p), Inr a))"

text \<open>A method of the search, which is called only when there is one.\<close>

definition onPmtu :: "(PmtuState \<Rightarrow> (PmtuState \<times> 'a) option) \<Rightarrow> ('w, 'x, 'a) act" where
  "onPmtu f p =
     (case eg_pmtu (fst p) of
        None \<Rightarrow> (p, Inl eg_Panic)
      | Some search \<Rightarrow>
          (case f search of
             None \<Rightarrow> (p, Inl eg_Panic)
           | Some (search', a) \<Rightarrow> (((fst p)\<lparr>eg_pmtu := Some search'\<rparr>, snd p), Inr a)))"

definition whenA :: "bool \<Rightarrow> ('w, 'x, unit) act \<Rightarrow> ('w, 'x, unit) act" where
  "whenA b m = (if b then m else ret ())"

subsection \<open>Queries\<close>

definition Engine_DataSendAllowed :: "Engine \<Rightarrow> bool" where
  "Engine_DataSendAllowed e \<longleftrightarrow> \<not> eg_terminalError e \<and> DataSendAllowed (eg_state e)"

definition Engine_Status :: "Engine \<Rightarrow> string" where
  "Engine_Status e =
     (if eg_baseError e \<or> eg_terminalError e then StatusError
      else if \<not> eg_started e then StatusStarting
      else
        (let requiredFlags = FlagPingPong OR FlagBaseProbe in
         if ReadyFlags (eg_state e) AND requiredFlags \<noteq> requiredFlags then StatusBase
         else (case eg_pmtu e of
                 None \<Rightarrow> StatusBase
               | Some search \<Rightarrow> if Searching search then StatusSearching else StatusSearchComplete)))"

definition StatusReason :: "Engine \<Rightarrow> string" where
  "StatusReason e =
     (if eg_terminalError e then eg_terminalReason e else if \<not> eg_baseError e then [] else eg_baseErrorReason e)"

definition BaseError :: "Engine \<Rightarrow> bool" where
  "BaseError e = eg_baseError e"

definition Engine_LocalExchangeID :: "Engine \<Rightarrow> LocalExchange" where
  "Engine_LocalExchangeID e = LocalExchangeID (eg_state e)"

definition Engine_RemoteDataSessionID :: "Engine \<Rightarrow> u16" where
  "Engine_RemoteDataSessionID e = RemoteDataSessionID (eg_state e)"

definition Engine_RemotePeerMTU :: "Engine \<Rightarrow> u32" where
  "Engine_RemotePeerMTU e = State_RemotePeerMTU (eg_state e)"

definition Engine_RemoteReassemblyLifetimeMs :: "Engine \<Rightarrow> u32" where
  "Engine_RemoteReassemblyLifetimeMs e = RemoteReassemblyLifetimeMs (eg_state e)"

definition Engine_MissingFlags :: "Engine \<Rightarrow> Flags" where
  "Engine_MissingFlags e = MissingFlags (eg_state e)"

definition ConfirmedCarrierPayload :: "Engine \<Rightarrow> u32" where
  "ConfirmedCarrierPayload e = (case eg_pmtu e of None \<Rightarrow> 0 | Some search \<Rightarrow> Confirmed search)"

definition PMTUProbeOutstanding :: "Engine \<Rightarrow> bool" where
  "PMTUProbeOutstanding e =
     (case eg_pmtu e of
        None \<Rightarrow> False
      | Some search \<Rightarrow>
          oq_initialized (eg_outstanding e) \<and> oq_kind (eg_outstanding e) = requestPMTUProbe \<and> Outstanding search \<noteq> None)"

definition PMTUSearching :: "Engine \<Rightarrow> bool" where
  "PMTUSearching e = (case eg_pmtu e of None \<Rightarrow> False | Some search \<Rightarrow> Searching search)"

definition validatedPMTUHint :: "Engine \<Rightarrow> u32 \<Rightarrow> u32" where
  "validatedPMTUHint e payload =
     (if payload \<le> eg_base e then 0
      else
        (let ceiling = NegotiatedCarrierPayload (eg_state e) in
         if ceiling = 0 \<or> payload > ceiling then 0 else payload))"

definition validPMTUHint :: "Engine \<Rightarrow> u32 \<Rightarrow> bool" where
  "validPMTUHint e payload \<longleftrightarrow> validatedPMTUHint e payload \<noteq> 0"

definition transportSize :: "('w, 'x) EngineEnv \<Rightarrow> u32 \<Rightarrow> int" where
  "transportSize env payload = (case ev_TransportDatagramSize env of None \<Rightarrow> uint payload | Some f \<Rightarrow> f payload)"

definition recoveryProbeTimeout :: "Engine \<Rightarrow> duration" where
  "recoveryProbeTimeout e =
     (if eg_srtt e \<le> 0 then engineProbeTimeout
      else if eg_srtt e > maxDuration div 4 then maxDuration
      else (let adaptive = 4 * eg_srtt e in if adaptive < engineMinimumProbeTimeout then engineMinimumProbeTimeout else adaptive))"

subsection \<open>Writing messages\<close>

text \<open>The search of \<^verbatim>\<open>marshal\<close> for the longest padding that fits; \<open>hi\<close> is exclusive.\<close>

function pad_search :: "(nat \<Rightarrow> bool) \<Rightarrow> nat \<Rightarrow> nat \<Rightarrow> nat" where
  "pad_search fits lo hi =
     (if lo < hi then
        (let mid = lo + (hi - lo) div 2 in
         if fits mid then pad_search fits (mid + 1) hi else pad_search fits lo mid)
      else lo)"
  by pat_completeness auto
termination by (relation "measure (\<lambda>(fits, lo, hi). hi - lo)") (auto simp: Let_def)

declare pad_search.simps [simp del]

definition pad_message :: "('w, 'x) EngineEnv \<Rightarrow> Engine \<Rightarrow> Control \<Rightarrow> u32 \<Rightarrow> 'x engine_error + Control" where
  "pad_message env e message targetSize =
     (if targetSize \<noteq> 0 then
        (if targetSize > of_int (MaxFrameSize (eg_codec e)) then Inl (eg_Frame ErrFrameTooLarge)
         else
           (let padding = replicate (unat targetSize) 0;
                lo = pad_search
                       (\<lambda>mid. ControlHeaderSize + ev_Size env (message\<lparr>ct_Padding := Some (take mid padding)\<rparr>) \<le> unat targetSize)
                       0 (length padding + 1)
            in if lo = 0 then Inl ErrUnrepresentableProbe else Inr (message\<lparr>ct_Padding := Some (take (lo - 1) padding)\<rparr>)))
      else Inr (message\<lparr>ct_Padding := None\<rparr>))"

definition marshal :: "('w, 'x) EngineEnv \<Rightarrow> Engine \<Rightarrow> Control \<Rightarrow> u32 \<Rightarrow> 'x engine_error + bytes" where
  "marshal env e message targetSize =
     (case pad_message env e message targetSize of
        Inl err \<Rightarrow> Inl err
      | Inr padded \<Rightarrow>
          (case ev_Marshal env padded of
             None \<Rightarrow> Inl eg_Protobuf
           | Some payload \<Rightarrow>
               (case Codec_MarshalTo (eg_codec e) (replicate (ControlHeaderSize + length payload) 0) payload of
                  Inl err \<Rightarrow> Inl (eg_Frame err)
                | Inr (frame, _) \<Rightarrow> Inr frame)))"

definition nextID :: "u64 \<Rightarrow> 'x engine_error + u64" where
  "nextID value = (if value = - 1 then Inl ErrMessageIDExhausted else Inr (value + 1))"

definition sendResponse :: "('w, 'x) EngineEnv \<Rightarrow> Control \<Rightarrow> ('w, 'x, Outbound) act" where
  "sendResponse env message =
     getE (\<lambda>e. andThen (outcome (nextID (eg_remoteResponseID e))) (\<lambda>messageID.
       andThen (modE (\<lambda>e. e\<lparr>eg_remoteResponseID := messageID\<rparr>)) (\<lambda>_.
         outcome (marshal env e (message\<lparr>ct_MessageId := messageID\<rparr>) 0))))"

subsection \<open>Retries\<close>

fun retry_loop :: "duration \<Rightarrow> nat \<Rightarrow> duration \<Rightarrow> duration" where
  "retry_loop maxDelay 0 delay = delay"
| "retry_loop maxDelay (Suc n) delay = (if delay < maxDelay then retry_loop maxDelay n (delay * 2) else delay)"

definition retryDelayCapped :: "('w, 'x) EngineEnv \<Rightarrow> u64 \<Rightarrow> duration \<Rightarrow> ('w, 'x, duration) act" where
  "retryDelayCapped env retries maxDelay p =
     (let delay0 = retry_loop maxDelay (unat retries) initialRetryDelay;
          delay = (if delay0 > maxDelay then maxDelay else delay0)
      in
      if \<not> st_HasEntropy (ss_config (eg_state (fst p))) then (p, Inr delay)
      else
        (case ev_Uint64 env (snd p) of
           (w, Inl _) \<Rightarrow> ((fst p, w), Inr delay)
         | (w, Inr random) \<Rightarrow>
             (let jittered = int (unat random) mod delay in ((fst p, w), Inr (if jittered = 0 then 1 else jittered)))))"

definition retryDelay :: "('w, 'x) EngineEnv \<Rightarrow> u64 \<Rightarrow> ('w, 'x, duration) act" where
  "retryDelay env retries = retryDelayCapped env retries maxRetryDelay"

definition retryDelayForOutstanding :: "('w, 'x) EngineEnv \<Rightarrow> gotime \<Rightarrow> u64 \<Rightarrow> ('w, 'x, duration) act" where
  "retryDelayForOutstanding env now retries =
     getE (\<lambda>e.
       let maxDelay = (if oq_kind (eg_outstanding e) = requestCapabilities \<and> \<not> IsZero (oq_sentAt (eg_outstanding e)) \<and>
                          now < oq_sentAt (eg_outstanding e) + capabilitiesRetryStartupWindow
                       then capabilitiesRetryMaxDelay else maxRetryDelay)
       in retryDelayCapped env retries maxDelay)"

definition retryOutstanding :: "('w, 'x) EngineEnv \<Rightarrow> gotime \<Rightarrow> ('w, 'x, Outbound list) act" where
  "retryOutstanding env now =
     getE (\<lambda>e.
       if \<not> oq_initialized (eg_outstanding e) \<or> oq_frame (eg_outstanding e) = [] \<or> now < oq_retryDeadline (eg_outstanding e)
       then ret []
       else
         (let attempts = oq_retryAttempt (eg_outstanding e) + 1 in
          andThen (modE (\<lambda>e. e\<lparr>eg_outstanding := (eg_outstanding e)\<lparr>oq_retryAttempt := attempts\<rparr>\<rparr>)) (\<lambda>_.
          andThen (retryDelayForOutstanding env now attempts) (\<lambda>delay.
          andThen (modE (\<lambda>e. e\<lparr>eg_outstanding := (eg_outstanding e)\<lparr>oq_retryDeadline := now + delay\<rparr>\<rparr>)) (\<lambda>_.
            ret [oq_frame (eg_outstanding e)])))))"

text \<open>The part of \<^verbatim>\<open>sendRequest\<close> after the frame is written.\<close>

definition arm_request ::
    "('w, 'x) EngineEnv \<Rightarrow> requestKind \<Rightarrow> u64 \<Rightarrow> u32 \<Rightarrow> u32 \<Rightarrow> bytes \<Rightarrow> ('w, 'x, Outbound list) act" where
  "arm_request env kind messageID ping probeSize frame =
     andThen (clockNow env) (\<lambda>now.
     andThen (modE (\<lambda>e. e\<lparr>eg_outstanding := no_request\<lparr>oq_kind := kind, oq_messageID := messageID, oq_ping := ping,
         oq_probeSize := probeSize, oq_initialized := True, oq_sentAt := now\<rparr>\<rparr>)) (\<lambda>_.
     andThen (whenA (kind \<noteq> requestPMTUProbe)
               (andThen (modE (\<lambda>e. e\<lparr>eg_outstanding := (eg_outstanding e)\<lparr>oq_frame := frame\<rparr>\<rparr>)) (\<lambda>_.
                andThen (retryDelayForOutstanding env now 0) (\<lambda>delay.
                  modE (\<lambda>e. e\<lparr>eg_outstanding := (eg_outstanding e)\<lparr>oq_retryDeadline := now + delay\<rparr>\<rparr>))))) (\<lambda>_.
       ret [frame])))"

definition sendRequest :: "('w, 'x) EngineEnv \<Rightarrow> requestKind \<Rightarrow> Control \<Rightarrow> u32 \<Rightarrow> u32 \<Rightarrow> ('w, 'x, Outbound list) act" where
  "sendRequest env kind message ping probeSize =
     getE (\<lambda>e. andThen (outcome (nextID (eg_localMessageID e))) (\<lambda>messageID.
     andThen (modE (\<lambda>e. e\<lparr>eg_localMessageID := messageID\<rparr>)) (\<lambda>_.
     andThen (outcome (marshal env e (message\<lparr>ct_MessageId := messageID\<rparr>) probeSize)) (\<lambda>frame.
       let actual = of_nat (length frame) in
       if kind = requestBaseProbe \<and> actual < eg_base e then raise ErrUnrepresentableProbe
       else arm_request env kind messageID ping (if kind = requestBaseProbe then actual else probeSize) frame))))"

subsection \<open>Errors\<close>

definition clearBaseError :: "Engine \<Rightarrow> Engine" where
  "clearBaseError e =
     (if \<not> eg_baseError e then e
      else e\<lparr>eg_baseError := False, eg_baseErrorReason := [], eg_baseRetryAt := 0, eg_baseRetryAttempt := 0\<rparr>)"

definition clearTerminalError :: "Engine \<Rightarrow> Engine" where
  "clearTerminalError e = e\<lparr>eg_terminalError := False, eg_terminalReason := []\<rparr>"

definition enterTerminalError :: "string \<Rightarrow> Engine \<Rightarrow> Engine" where
  "enterTerminalError reason e =
     e\<lparr>eg_state := ResetPathGates (eg_state e), eg_outstanding := no_request, eg_baseError := False, eg_baseErrorReason := [],
       eg_baseRetryAt := 0, eg_baseRetryAttempt := 0, eg_terminalError := True, eg_terminalReason := reason\<rparr>"

definition enterBaseError :: "('w, 'x) EngineEnv \<Rightarrow> ('w, 'x, unit) act" where
  "enterBaseError env =
     andThen (modE (\<lambda>e. e\<lparr>eg_state := ResetPathGates (eg_state e), eg_outstanding := no_request, eg_baseError := True,
                           eg_baseErrorReason := BaseErrorReason, eg_baseRetryAttempt := 0\<rparr>)) (\<lambda>_.
     andThen (clockNow env) (\<lambda>now.
     andThen (retryDelay env 0) (\<lambda>delay.
       modE (\<lambda>e. e\<lparr>eg_baseRetryAt := now + delay\<rparr>))))"

definition scheduleBaseRetry :: "('w, 'x) EngineEnv \<Rightarrow> gotime \<Rightarrow> ('w, 'x, unit) act" where
  "scheduleBaseRetry env now =
     andThen (modE (\<lambda>e. e\<lparr>eg_baseError := True, eg_baseErrorReason := BaseErrorReason, eg_baseRetryAttempt := eg_baseRetryAttempt e + 1\<rparr>)) (\<lambda>_.
     getE (\<lambda>e.
     andThen (retryDelay env (eg_baseRetryAttempt e)) (\<lambda>delay.
       modE (\<lambda>e. e\<lparr>eg_baseRetryAt := now + delay\<rparr>))))"

subsection \<open>The path MTU search\<close>

definition notify :: "('w, 'x) EngineEnv \<Rightarrow> u32 \<Rightarrow> ('w, 'x, unit) act" where
  "notify env payload p =
     (case ev_OnConfirmedPayloadChange env of None \<Rightarrow> (p, Inr ()) | Some f \<Rightarrow> ((fst p, f payload (snd p)), Inr ()))"

definition emitConfirmedChange :: "('w, 'x) EngineEnv \<Rightarrow> u32 \<Rightarrow> ('w, 'x, unit) act" where
  "emitConfirmedChange env confirmedBefore =
     getE (\<lambda>e. case eg_pmtu e of
                 None \<Rightarrow> ret ()
               | Some search \<Rightarrow> whenA (Confirmed search \<noteq> confirmedBefore) (notify env (Confirmed search)))"

definition start_search :: "('w, 'x) EngineEnv \<Rightarrow> PmtuState \<Rightarrow> ('w, 'x, unit) act" where
  "start_search env search =
     getE (\<lambda>e.
       let hint = eg_pmtuHint e in
       andThen (modE (\<lambda>e. e\<lparr>eg_pmtu := Some (if eg_srtt e > 0 then ObserveRTT search (eg_srtt e) else search), eg_pmtuHint := 0\<rparr>)) (\<lambda>_.
       andThen (clockNow env) (\<lambda>now.
         onPmtu (\<lambda>search. map_option (\<lambda>search'. (search', ())) (if hint \<noteq> 0 then StartWithHint search now hint else Start search now)))))"

definition startPMTU :: "('w, 'x) EngineEnv \<Rightarrow> ('w, 'x, unit) act" where
  "startPMTU env =
     getE (\<lambda>e.
       if eg_pmtu e \<noteq> None then ret ()
       else
         (let ceiling = NegotiatedCarrierPayload (eg_state e) in
          if ceiling = 0 then ret ()
          else
            (case NewPmtu \<lparr>pc_Base = eg_base e, pc_Ceiling = ceiling, pc_Canonicalize = ev_CanonicalizeCarrierPayload env,
                           pc_ProbeTimeout = engineProbeTimeout, pc_RefreshInterval = refreshInterval,
                           pc_ConfirmationInterval = confirmationInterval\<rparr> of
               Inl err \<Rightarrow> raise (eg_Pmtu err)
             | Inr search \<Rightarrow> start_search env search)))"

definition abortPMTUProbe :: "('w, 'x) EngineEnv \<Rightarrow> ('w, 'x, unit) act" where
  "abortPMTUProbe env =
     getE (\<lambda>e.
       andThen (whenA (eg_pmtu e \<noteq> None)
                  (andThen (clockNow env) (\<lambda>now. andThen (onPmtu (\<lambda>search. FailCurrent search now)) (\<lambda>_. ret ())))) (\<lambda>_.
       modE (\<lambda>e. e\<lparr>eg_outstanding := no_request\<rparr>)))"

definition sendPMTUProbe :: "('w, 'x) EngineEnv \<Rightarrow> Probe \<Rightarrow> ('w, 'x, Outbound list) act" where
  "sendPMTUProbe env probe =
     getE (\<lambda>e.
     andThen (sendRequest env requestPMTUProbe (buildControl 0 0 (eg_localEpoch e) BodyMtuProbe) 0 (pb_PayloadSize probe)) (\<lambda>out.
       let actual = of_nat (length (hd out)) in
       if actual < eg_base e then andThen (abortPMTUProbe env) (\<lambda>_. raise ErrUnrepresentableProbe)
       else
         andThen (if actual \<noteq> pb_PayloadSize probe then onPmtu (\<lambda>search. Some (AdjustCurrent search (pb_Attempt probe) actual)) else ret True) (\<lambda>ok.
         if \<not> ok then andThen (abortPMTUProbe env) (\<lambda>_. raise ErrUnrepresentableProbe)
         else
           andThen (modE (\<lambda>e. e\<lparr>eg_outstanding := (eg_outstanding e)\<lparr>oq_probeSize := actual, oq_probeAttempt := pb_Attempt probe\<rparr>\<rparr>)) (\<lambda>_.
             ret out))))"

definition emitPMTUProbe :: "('w, 'x) EngineEnv \<Rightarrow> gotime \<Rightarrow> ('w, 'x, Outbound list) act" where
  "emitPMTUProbe env now =
     getE (\<lambda>e.
       if eg_pmtu e = None \<or> oq_initialized (eg_outstanding e) then ret []
       else
         andThen (onPmtu (\<lambda>search. Some (PmtuNext search now))) (\<lambda>probe.
           case probe of None \<Rightarrow> ret [] | Some x \<Rightarrow> sendPMTUProbe env x))"

subsection \<open>The sequence of requests\<close>

definition progress :: "('w, 'x) EngineEnv \<Rightarrow> ('w, 'x, Outbound list) act" where
  "progress env =
     getE (\<lambda>e.
       let flags = ReadyFlags (eg_state e);
           requiredFlags = FlagLocalCapabilities OR FlagRemoteCapabilities;
           request = buildControl 0 0 (eg_localEpoch e)
       in
       if \<not> eg_started e \<or> oq_initialized (eg_outstanding e) \<or> eg_terminalError e then ret []
       else if flags AND requiredFlags \<noteq> requiredFlags then ret []
       else if flags AND FlagLocalResetAck = 0 then
         sendRequest env requestReset
           (request (BodyResetSequence \<lparr>rq_DataSessionId = ucast (lx_DataSessionID (LocalExchangeID (eg_state e)))\<rparr>)) 0 0
       else if flags AND FlagLocalPeerMTUAck = 0 then
         sendRequest env requestPeerMTU (request (BodyPeerMTU (LocalPeerMTU (eg_state e)))) 0 0
       else if flags AND FlagRemotePeerMTU = 0 then ret []
       else if flags AND FlagPingPong = 0 then
         (let sequence = eg_nextPingSequence e in
          andThen (modE (\<lambda>e. e\<lparr>eg_nextPingSequence := eg_nextPingSequence e + 1\<rparr>)) (\<lambda>_.
            sendRequest env requestPing (request (BodyPing \<lparr>pi_Sequence = sequence\<rparr>)) sequence 0))
       else if flags AND FlagBaseProbe = 0 then
         sendRequest env requestBaseProbe (request BodyMtuProbe) 0 (eg_base e)
       else
         andThen (whenA (eg_pmtu e = None) (startPMTU env)) (\<lambda>_.
         andThen (clockNow env) (\<lambda>now. emitPMTUProbe env now)))"

definition sendCapabilitiesHello :: "('w, 'x) EngineEnv \<Rightarrow> ('w, 'x, Outbound list) act" where
  "sendCapabilitiesHello env =
     getE (\<lambda>e. sendRequest env requestCapabilities
       (buildControl 0 0 (eg_localEpoch e) (BodyCapabilitiesHello (LocalCapabilities (eg_state e)))) 0 0)"

text \<open>The call of \<^verbatim>\<open>State.BeginLocalExchange\<close>.\<close>

definition state_begin :: "('w, 'x) EngineEnv \<Rightarrow> ('w, 'x, LocalExchange) act" where
  "state_begin env =
     andThen (clockNow env) (\<lambda>now p.
       case BeginLocalExchange (ev_Uint64 env) (eg_state (fst p)) now (snd p) of
         (s, w, Inl err) \<Rightarrow> (((fst p)\<lparr>eg_state := s\<rparr>, w), Inl (eg_State err))
       | (s, w, Inr exchange) \<Rightarrow> (((fst p)\<lparr>eg_state := s\<rparr>, w), Inr exchange))"

definition Engine_beginLocalExchange :: "('w, 'x) EngineEnv \<Rightarrow> ('w, 'x, Outbound list) act" where
  "Engine_beginLocalExchange env =
     andThen (state_begin env) (\<lambda>exchange.
     andThen (modE (\<lambda>e. e\<lparr>eg_pmtu := None, eg_pmtuHint := 0, eg_started := True, eg_localEpoch := lx_ControlEpoch exchange,
                           eg_localMessageID := 0, eg_outstanding := no_request\<rparr>)) (\<lambda>_.
       sendCapabilitiesHello env))"

definition Engine_Start :: "('w, 'x) EngineEnv \<Rightarrow> ('w, 'x, Outbound list) act" where
  "Engine_Start env = getE (\<lambda>e. if eg_started e then raise ErrAlreadyStarted else Engine_beginLocalExchange env)"

definition recoverFromBlackhole :: "('w, 'x) EngineEnv \<Rightarrow> u32 \<Rightarrow> ('w, 'x, Outbound list) act" where
  "recoverFromBlackhole env confirmedBefore =
     getE (\<lambda>e.
     andThen (whenA (confirmedBefore \<noteq> eg_base e) (notify env (eg_base e))) (\<lambda>_.
     andThen (modE (\<lambda>e. e\<lparr>eg_pmtu := None, eg_outstanding := no_request, eg_state := ResetPathGates (eg_state e)\<rparr>)) (\<lambda>_.
       progress env)))"

definition tickBaseError :: "('w, 'x) EngineEnv \<Rightarrow> gotime \<Rightarrow> ('w, 'x, Outbound list) act" where
  "tickBaseError env now =
     getE (\<lambda>e.
       if oq_initialized (eg_outstanding e) then
         (if now < oq_sentAt (eg_outstanding e) + recoveryProbeTimeout e then ret []
          else
            andThen (modE (\<lambda>e. e\<lparr>eg_outstanding := no_request, eg_state := ResetPathGates (eg_state e)\<rparr>)) (\<lambda>_.
            andThen (scheduleBaseRetry env now) (\<lambda>_. ret [])))
       else if \<not> IsZero (eg_baseRetryAt e) \<and> now < eg_baseRetryAt e then ret []
       else
         andThen (modE (\<lambda>e. e\<lparr>eg_baseError := False\<rparr>)) (\<lambda>_.
         andThen (attempt (if ReadyFlags (eg_state e) AND FlagLocalCapabilities = 0 then sendCapabilitiesHello env else progress env)) (\<lambda>r.
         andThen (modE (\<lambda>e. e\<lparr>eg_baseError := True\<rparr>)) (\<lambda>_.
         andThen (outcome r) (\<lambda>out.
         andThen (whenA (out = []) (scheduleBaseRetry env now)) (\<lambda>_. ret out))))))"

definition ResetRetry :: "('w, 'x) EngineEnv \<Rightarrow> ('w, 'x, Outbound list) act" where
  "ResetRetry env =
     getE (\<lambda>e.
       if \<not> eg_baseError e then ret []
       else
         andThen (modE (\<lambda>e. e\<lparr>eg_outstanding := no_request, eg_state := ResetPathGates (eg_state e), eg_baseRetryAttempt := 0\<rparr>)) (\<lambda>_.
         andThen (clockNow env) (\<lambda>at.
         andThen (modE (\<lambda>e. e\<lparr>eg_baseRetryAt := at\<rparr>)) (\<lambda>_.
         andThen (clockNow env) (\<lambda>now. tickBaseError env now)))))"

subsection \<open>Time and transport failures\<close>

text \<open>The request of a probe that is over no longer holds the correlation slot.\<close>

definition drop_probe :: "Engine \<Rightarrow> Engine" where
  "drop_probe e = (if oq_kind (eg_outstanding e) = requestPMTUProbe then e\<lparr>eg_outstanding := no_request\<rparr> else e)"

definition next_probe :: "('w, 'x) EngineEnv \<Rightarrow> u32 \<Rightarrow> gotime \<Rightarrow> ('w, 'x, Outbound list) act" where
  "next_probe env confirmedBefore now = andThen (emitConfirmedChange env confirmedBefore) (\<lambda>_. emitPMTUProbe env now)"

definition tick_search :: "('w, 'x) EngineEnv \<Rightarrow> gotime \<Rightarrow> ('w, 'x, Outbound list) act" where
  "tick_search env now =
     getE (\<lambda>e.
       case eg_pmtu e of
         None \<Rightarrow> ret []
       | Some search \<Rightarrow>
           (let confirmedBefore = Confirmed search in
            andThen (onPmtu (\<lambda>search. PmtuTick search now)) (\<lambda>ticked.
            if ticked then
              andThen (onPmtu (\<lambda>search. Some (TakeBlackhole search))) (\<lambda>blackhole.
              if blackhole then recoverFromBlackhole env confirmedBefore
              else andThen (modE drop_probe) (\<lambda>_. next_probe env confirmedBefore now))
            else if oq_initialized (eg_outstanding e) then ret []
            else
              andThen (onPmtu (\<lambda>search. RefreshDue search now)) (\<lambda>refresh.
              if refresh then next_probe env confirmedBefore now
              else
                andThen (onPmtu (\<lambda>search. Some (ConfirmationDue search now))) (\<lambda>confirmation.
                if confirmation then next_probe env confirmedBefore now else ret [])))))"

definition Engine_Tick :: "('w, 'x) EngineEnv \<Rightarrow> gotime \<Rightarrow> ('w, 'x, Outbound list) act" where
  "Engine_Tick env now =
     getE (\<lambda>e.
       if eg_terminalError e then ret []
       else if eg_baseError e then tickBaseError env now
       else
         andThen (clockNow env) (\<lambda>ready_at.
         if \<not> oq_initialized (eg_outstanding e) \<and> \<not> IsZero (LocalExchangeRetryAt (eg_state e)) \<and>
            LocalExchangeRetryReady (eg_state e) ready_at
         then sendCapabilitiesHello env
         else if oq_initialized (eg_outstanding e) \<and> oq_kind (eg_outstanding e) = requestBaseProbe \<and> oq_frame (eg_outstanding e) \<noteq> [] then
           (if now < oq_sentAt (eg_outstanding e) + recoveryProbeTimeout e then ret []
            else andThen (enterBaseError env) (\<lambda>_. ret []))
         else
           andThen (retryOutstanding env now) (\<lambda>retried.
           if retried \<noteq> [] then ret retried else tick_search env now)))"

definition ReportProbeFailure :: "('w, 'x) EngineEnv \<Rightarrow> gotime \<Rightarrow> ('w, 'x, Outbound list) act" where
  "ReportProbeFailure env now =
     getE (\<lambda>e.
       if oq_initialized (eg_outstanding e) \<and> oq_kind (eg_outstanding e) = requestBaseProbe then andThen (enterBaseError env) (\<lambda>_. ret [])
       else
         (case eg_pmtu e of
            None \<Rightarrow> ret []
          | Some search \<Rightarrow>
              (let confirmedBefore = Confirmed search in
               andThen (onPmtu (\<lambda>search. FailCurrent search now)) (\<lambda>failed.
               if \<not> failed then ret []
               else
                 andThen (modE drop_probe) (\<lambda>_.
                 andThen (onPmtu (\<lambda>search. Some (TakeBlackhole search))) (\<lambda>blackhole.
                 if blackhole then recoverFromBlackhole env confirmedBefore else next_probe env confirmedBefore now))))))"

definition Engine_ReportBlackhole :: "('w, 'x) EngineEnv \<Rightarrow> gotime \<Rightarrow> ('w, 'x, Outbound list) act" where
  "Engine_ReportBlackhole env now =
     getE (\<lambda>e.
       case eg_pmtu e of
         None \<Rightarrow> ret []
       | Some search \<Rightarrow>
           (let confirmedBefore = Confirmed search in
            andThen (onPmtu (\<lambda>search. map_option (\<lambda>search'. (search', ())) (ReportBlackhole search now))) (\<lambda>_.
            andThen (modE (\<lambda>e. e\<lparr>eg_outstanding := no_request\<rparr>)) (\<lambda>_.
              next_probe env confirmedBefore now))))"

definition soft_failure :: "('w, 'x) EngineEnv \<Rightarrow> gotime \<Rightarrow> u32 \<Rightarrow> ('w, 'x, Outbound list) act" where
  "soft_failure env now confirmedBefore =
     andThen (onPmtu (\<lambda>search. SoftFailCurrent search now)) (\<lambda>failed.
     if \<not> failed then ret []
     else
       andThen (modE drop_probe) (\<lambda>_.
       andThen (onPmtu (\<lambda>search. Some (TakeBlackhole search))) (\<lambda>blackhole.
       if blackhole then recoverFromBlackhole env confirmedBefore else next_probe env confirmedBefore now)))"

definition ReportSendFailure :: "('w, 'x) EngineEnv \<Rightarrow> gotime \<Rightarrow> int \<Rightarrow> ('w, 'x, Outbound list) act" where
  "ReportSendFailure env now wireSize =
     getE (\<lambda>e.
       if oq_initialized (eg_outstanding e) \<and> oq_kind (eg_outstanding e) = requestBaseProbe then
         andThen (whenA (wireSize = 0 \<or> wireSize = transportSize env (oq_probeSize (eg_outstanding e))) (enterBaseError env)) (\<lambda>_. ret [])
       else if eg_baseError e \<and> oq_initialized (eg_outstanding e) \<and> oq_kind (eg_outstanding e) = requestPing then
         andThen (modE (\<lambda>e. e\<lparr>eg_outstanding := no_request\<rparr>)) (\<lambda>_.
         andThen (scheduleBaseRetry env now) (\<lambda>_. ret []))
       else
         (case eg_pmtu e of
            None \<Rightarrow> ret []
          | Some search \<Rightarrow>
              (if PMTUProbeOutstanding e then
                 (if wireSize = 0 then soft_failure env now (Confirmed search)
                  else if wireSize = transportSize env (oq_probeSize (eg_outstanding e)) then ReportProbeFailure env now
                  else ret [])
               else if wireSize \<ge> transportSize env (eg_base e) then Engine_ReportBlackhole env now
               else ret [])))"

definition ReportUnknownDataSession :: "('w, 'x) EngineEnv \<Rightarrow> u16 \<Rightarrow> ('w, 'x, Outbound list) act" where
  "ReportUnknownDataSession env sessionID =
     getE (\<lambda>e.
       if \<not> eg_started e then Engine_beginLocalExchange env
       else
         andThen (clockNow env) (\<lambda>now.
         andThen (onState (\<lambda>s. CheckInboundDataSession s now sessionID)) (\<lambda>decision.
           case PopulateStateSyncRequired decision (Some \<lparr>sy_Reason = REASON_UNSPECIFIED, sy_ObservedDataSessionId = 0\<rparr>) of
             (Some sync, True) \<Rightarrow>
               andThen (outcome (nextID (eg_localMessageID e))) (\<lambda>messageID.
               andThen (modE (\<lambda>e. e\<lparr>eg_localMessageID := messageID\<rparr>)) (\<lambda>_.
               andThen (outcome (marshal env e (buildControl messageID 0 (eg_localEpoch e) (BodyStateSyncRequired sync)) 0)) (\<lambda>frame.
                 ret [frame])))
           | _ \<Rightarrow> ret [])))"

subsection \<open>Handlers\<close>

definition requireRemoteRequest :: "Control \<Rightarrow> ('w, 'x, unit) act" where
  "requireRemoteRequest message =
     getE (\<lambda>e. if ct_ReplyTo message \<noteq> 0 \<or> eg_remoteEpoch e = 0 \<or> ct_ControlEpoch message \<noteq> eg_remoteEpoch e
               then raise ErrMalformedControl else ret ())"

definition requireResponse :: "Control \<Rightarrow> requestKind \<Rightarrow> ('w, 'x, unit) act" where
  "requireResponse message kind =
     getE (\<lambda>e.
       if \<not> eg_started e then raise ErrNotStarted
       else if \<not> oq_initialized (eg_outstanding e) \<or> oq_kind (eg_outstanding e) \<noteq> kind \<or>
          ct_ReplyTo message \<noteq> oq_messageID (eg_outstanding e) \<or> ct_ControlEpoch message \<noteq> eg_localEpoch e
       then raise ErrUnexpectedResponse else ret ())"

definition validCapabilitiesAckResult :: "ResultCode \<Rightarrow> bool" where
  "validCapabilitiesAckResult result =
     (case result of
        RESULT_CODE_ACCEPTED \<Rightarrow> True | RESULT_CODE_INCOMPATIBLE_VERSION \<Rightarrow> True | RESULT_CODE_MISSING_REQUIRED_FEATURE \<Rightarrow> True
      | RESULT_CODE_INVALID_PARAMETER \<Rightarrow> True | _ \<Rightarrow> False)"

definition capabilitiesAckReason :: "ResultCode \<Rightarrow> string" where
  "capabilitiesAckReason result =
     (case result of
        RESULT_CODE_INCOMPATIBLE_VERSION \<Rightarrow> CapabilitiesIncompatibleVersionReason
      | RESULT_CODE_MISSING_REQUIRED_FEATURE \<Rightarrow> CapabilitiesMissingRequiredReason
      | RESULT_CODE_INVALID_PARAMETER \<Rightarrow> CapabilitiesInvalidParameterReason
      | _ \<Rightarrow> CapabilitiesInvalidResultReason)"

definition validResultCode :: "ResultCode \<Rightarrow> bool" where
  "validResultCode result = (validCapabilitiesAckResult result \<or> result = RESULT_CODE_SESSION_COLLISION)"

definition resetSequenceReason :: "ResultCode \<Rightarrow> string" where
  "resetSequenceReason result =
     (if result = RESULT_CODE_INVALID_PARAMETER then ResetSequenceInvalidParameterReason else ResetSequenceRejectedReason)"

definition peerMTUReason :: "ResultCode \<Rightarrow> string" where
  "peerMTUReason result = (if result = RESULT_CODE_INVALID_PARAMETER then PeerMTUInvalidParameterReason else PeerMTURejectedReason)"

text \<open>A response to \<open>message\<close>: it echoes the epoch of the request.\<close>

definition answer :: "('w, 'x) EngineEnv \<Rightarrow> Control \<Rightarrow> control_body \<Rightarrow> ('w, 'x, Outbound) act" where
  "answer env message body = sendResponse env (buildControl 0 (ct_MessageId message) (ct_ControlEpoch message) body)"

definition adopt_remote_epoch :: "u64 \<Rightarrow> Engine \<Rightarrow> Engine" where
  "adopt_remote_epoch epoch e =
     (if eg_remoteEpoch e \<noteq> epoch then
        (let e1 = e\<lparr>eg_remoteEpoch := epoch, eg_remoteResponseID := 0\<rparr> in
         if eg_remoteEpoch e \<noteq> 0 then e1\<lparr>eg_pmtu := None, eg_pmtuHint := 0\<rparr> else e1)
      else e)"

text \<open>The re-arming of a Hello that was staged while the peer could not be reached.\<close>

definition rearm_hello :: "('w, 'x) EngineEnv \<Rightarrow> ('w, 'x, unit) act" where
  "rearm_hello env =
     andThen (clockNow env) (\<lambda>now.
     andThen (retryDelayForOutstanding env now 0) (\<lambda>delay.
       modE (\<lambda>e.
         let q = (eg_outstanding e)\<lparr>oq_retryAttempt := 0\<rparr>; deadline = now + delay in
         e\<lparr>eg_outstanding := (if IsZero (oq_retryDeadline q) \<or> deadline < oq_retryDeadline q
                              then q\<lparr>oq_retryDeadline := deadline\<rparr> else q)\<rparr>)))"

text \<open>
  The tail of \<^verbatim>\<open>handleCapabilitiesHello\<close> after an accepted Hello was answered.
\<close>

definition hello_accepted ::
    "('w, 'x) EngineEnv \<Rightarrow> u64 \<Rightarrow> u64 \<Rightarrow> CapabilityDecision \<Rightarrow> Outbound \<Rightarrow> ('w, 'x, Outbound list) act" where
  "hello_accepted env previousRemoteEpoch epoch decision response =
     getE (\<lambda>e.
       let remoteEpochChanged = (previousRemoteEpoch \<noteq> 0 \<and> previousRemoteEpoch \<noteq> epoch);
           terminalRecovered = (eg_terminalError e \<and> (previousRemoteEpoch = 0 \<or> remoteEpochChanged))
       in
       andThen (whenA terminalRecovered (modE clearTerminalError)) (\<lambda>_.
       if terminalRecovered \<or> cd_StartReverseExchange decision \<or> remoteEpochChanged then
         andThen (clockNow env) (\<lambda>now.
         getE (\<lambda>e.
           if \<not> IsZero (LocalExchangeRetryAt (eg_state e)) \<and> \<not> LocalExchangeRetryReady (eg_state e) now then ret [response]
           else andThen (Engine_beginLocalExchange env) (\<lambda>reverse. ret (response # reverse))))
       else
         andThen (getE (\<lambda>e. whenA (previousRemoteEpoch = 0 \<and> oq_initialized (eg_outstanding e) \<and>
                                     oq_kind (eg_outstanding e) = requestCapabilities) (rearm_hello env))) (\<lambda>_.
         andThen (progress env) (\<lambda>progressed. ret (response # progressed)))))"

definition handleCapabilitiesHello :: "('w, 'x) EngineEnv \<Rightarrow> Control \<Rightarrow> ('w, 'x, Outbound list) act" where
  "handleCapabilitiesHello env message =
     getE (\<lambda>e.
       if ct_ReplyTo message \<noteq> 0 then raise ErrMalformedControl
       else
         andThen (clockNow env) (\<lambda>now.
         andThen (onState (\<lambda>s. ObserveCapabilitiesHello s now (Some message))) (\<lambda>decision.
         andThen (whenA (cd_Result decision = RESULT_CODE_ACCEPTED) (modE (adopt_remote_epoch (ct_ControlEpoch message)))) (\<lambda>_.
         andThen (answer env message (BodyCapabilitiesAck
                    \<lparr>ca_SelectedDataProtocolVersion = cd_SelectedDataProtocolVersion decision,
                     ca_SelectedFeatureBits = cd_SelectedFeatureBits decision, ca_Result = cd_Result decision\<rparr>)) (\<lambda>response.
         if cd_Result decision \<noteq> RESULT_CODE_ACCEPTED then
           andThen (modE (enterTerminalError (capabilitiesAckReason (cd_Result decision)))) (\<lambda>_. ret [response])
         else hello_accepted env (eg_remoteEpoch e) (ct_ControlEpoch message) decision response)))))"

definition handleCapabilitiesAck :: "('w, 'x) EngineEnv \<Rightarrow> Control \<Rightarrow> CapabilitiesAck \<Rightarrow> ('w, 'x, Outbound list) act" where
  "handleCapabilitiesAck env message ack =
     andThen (requireResponse message requestCapabilities) (\<lambda>_.
     if \<not> validCapabilitiesAckResult (ca_Result ack) then
       andThen (modE (enterTerminalError CapabilitiesInvalidResultReason)) (\<lambda>_. ret [])
     else
       getE (\<lambda>e.
       andThen (onState (\<lambda>s. ObserveCapabilitiesAck s (Some message) (oq_messageID (eg_outstanding e)))) (\<lambda>result.
       if result \<noteq> RESULT_CODE_ACCEPTED then
         andThen (modE (enterTerminalError (capabilitiesAckReason result))) (\<lambda>_. ret [])
       else
         andThen (modE (\<lambda>e. e\<lparr>eg_outstanding := no_request\<rparr>)) (\<lambda>_. progress env))))"

definition handleReset :: "('w, 'x) EngineEnv \<Rightarrow> Control \<Rightarrow> ResetSequence \<Rightarrow> ('w, 'x, Outbound list) act" where
  "handleReset env message reset =
     andThen (requireRemoteRequest message) (\<lambda>_.
     andThen (clockNow env) (\<lambda>now.
     andThen (onState (\<lambda>s. ObserveResetSequence s now (Some message))) (\<lambda>decision.
     getE (\<lambda>e.
       let hint = (if rd_Result decision = RESULT_CODE_ACCEPTED \<and> validPMTUHint e (eg_lastReceivedCarrierPayload e)
                   then eg_lastReceivedCarrierPayload e else 0)
       in
       andThen (answer env message (BodyResetSequenceAck
                  \<lparr>rk_DataSessionId = rq_DataSessionId reset, rk_Result = rd_Result decision, rk_LastReceivedCarrierPayload = hint\<rparr>)) (\<lambda>response.
         ret [response])))))"

text \<open>
  The call of \<^verbatim>\<open>State.RestartLocalExchange\<close>: \<open>None\<close> is a pending backoff, \<open>Some (Inl _)\<close> another error.
\<close>

definition state_restart :: "('w, 'x) EngineEnv \<Rightarrow> ('w, 'x, ('x control_state_error + LocalExchange) option) act" where
  "state_restart env =
     andThen (clockNow env) (\<lambda>now.
     andThen (clockNow env) (\<lambda>now' p.
       case RestartLocalExchange (ev_Uint64 env) (eg_state (fst p)) now now' (snd p) of
         (s, w, retry, err) \<Rightarrow>
           (((fst p)\<lparr>eg_state := s\<rparr>, w),
            Inr (case err of
                   Some ErrLocalExchangeBackoff \<Rightarrow> None
                 | Some x \<Rightarrow> Some (Inl x)
                 | None \<Rightarrow> map_option (\<lambda>r. Inr (lr_LocalExchange r)) retry))))"

definition restartAfterResetCollision :: "('w, 'x) EngineEnv \<Rightarrow> ('w, 'x, Outbound list) act" where
  "restartAfterResetCollision env =
     andThen (state_restart env) (\<lambda>retry.
       case retry of
         None \<Rightarrow> ret []
       | Some (Inl _) \<Rightarrow> andThen (modE (enterTerminalError ResetSequenceRetryExhaustedReason)) (\<lambda>_. ret [])
       | Some (Inr exchange) \<Rightarrow>
           andThen (modE (\<lambda>e. e\<lparr>eg_pmtu := None, eg_localEpoch := lx_ControlEpoch exchange, eg_localMessageID := 0\<rparr>)) (\<lambda>_. ret []))"

definition handleResetAck :: "('w, 'x) EngineEnv \<Rightarrow> Control \<Rightarrow> ResetSequenceAck \<Rightarrow> ('w, 'x, Outbound list) act" where
  "handleResetAck env message ack =
     andThen (requireResponse message requestReset) (\<lambda>_.
     if \<not> validResultCode (rk_Result ack) then
       andThen (modE (enterTerminalError ResetSequenceInvalidResultReason)) (\<lambda>_. ret [])
     else
       getE (\<lambda>e.
       andThen (onState (\<lambda>s. ObserveResetSequenceAck s (Some message) (oq_messageID (eg_outstanding e)))) (\<lambda>result.
       if result = RESULT_CODE_SESSION_COLLISION then
         andThen (modE (\<lambda>e. e\<lparr>eg_outstanding := no_request\<rparr>)) (\<lambda>_. restartAfterResetCollision env)
       else if result \<noteq> RESULT_CODE_ACCEPTED then
         andThen (modE (enterTerminalError (resetSequenceReason result))) (\<lambda>_. ret [])
       else
         andThen (modE (\<lambda>e. e\<lparr>eg_pmtuHint := validatedPMTUHint e (rk_LastReceivedCarrierPayload ack), eg_outstanding := no_request\<rparr>)) (\<lambda>_.
           progress env))))"

definition handlePeerMTU :: "('w, 'x) EngineEnv \<Rightarrow> Control \<Rightarrow> PeerMTU \<Rightarrow> ('w, 'x, Outbound list) act" where
  "handlePeerMTU env message peerMTU =
     andThen (requireRemoteRequest message) (\<lambda>_.
     andThen (onState (\<lambda>s. ObservePeerMTU s (Some message))) (\<lambda>result.
     andThen (answer env message (BodyPeerMTUAck \<lparr>pu_InnerMtu = pt_InnerMtu peerMTU, pu_Result = result\<rparr>)) (\<lambda>response.
     andThen (progress env) (\<lambda>progressed. ret (response # progressed)))))"

definition handlePeerMTUAck :: "('w, 'x) EngineEnv \<Rightarrow> Control \<Rightarrow> PeerMTUAck \<Rightarrow> ('w, 'x, Outbound list) act" where
  "handlePeerMTUAck env message ack =
     andThen (requireResponse message requestPeerMTU) (\<lambda>_.
     if \<not> validResultCode (pu_Result ack) then
       andThen (modE (enterTerminalError PeerMTUInvalidResultReason)) (\<lambda>_. ret [])
     else
       getE (\<lambda>e.
       andThen (onState (\<lambda>s. ObservePeerMTUAck s (Some message) (oq_messageID (eg_outstanding e)))) (\<lambda>result.
       if result \<noteq> RESULT_CODE_ACCEPTED then
         andThen (modE (enterTerminalError (peerMTUReason result))) (\<lambda>_. ret [])
       else
         andThen (modE (\<lambda>e. e\<lparr>eg_outstanding := no_request\<rparr>)) (\<lambda>_. progress env))))"

definition handlePing :: "('w, 'x) EngineEnv \<Rightarrow> Control \<Rightarrow> Ping \<Rightarrow> ('w, 'x, Outbound list) act" where
  "handlePing env message ping =
     andThen (requireRemoteRequest message) (\<lambda>_.
     andThen (answer env message (BodyPong \<lparr>po_Sequence = pi_Sequence ping\<rparr>)) (\<lambda>response. ret [response]))"

definition observeRTT :: "('w, 'x) EngineEnv \<Rightarrow> ('w, 'x, unit) act" where
  "observeRTT env =
     getE (\<lambda>e.
       if IsZero (oq_sentAt (eg_outstanding e)) \<or> oq_retryAttempt (eg_outstanding e) \<noteq> 0 then ret ()
       else
         andThen (clockNow env) (\<lambda>now.
           let sample = now - oq_sentAt (eg_outstanding e) in
           whenA (sample > 0)
             (modE (\<lambda>e. e\<lparr>eg_srtt := (if eg_srtt e = 0 then sample else eg_srtt e + go_div (sample - eg_srtt e) 8),
                           eg_pmtu := map_option (\<lambda>search. ObserveRTT search sample) (eg_pmtu e)\<rparr>))))"

definition handlePong :: "('w, 'x) EngineEnv \<Rightarrow> Control \<Rightarrow> ('w, 'x, Outbound list) act" where
  "handlePong env message =
     andThen (requireResponse message requestPing) (\<lambda>_.
     getE (\<lambda>e.
     andThen (onState (\<lambda>s. ObservePong s (Some message) (oq_messageID (eg_outstanding e)) (oq_ping (eg_outstanding e)))) (\<lambda>result.
     if result \<noteq> RESULT_CODE_ACCEPTED then raise ErrMalformedControl
     else
       andThen (observeRTT env) (\<lambda>_.
       andThen (modE (\<lambda>e. e\<lparr>eg_outstanding := no_request\<rparr>)) (\<lambda>_.
       if eg_baseError e then
         andThen (modE (\<lambda>e. e\<lparr>eg_baseError := False\<rparr>)) (\<lambda>_.
         andThen (attempt (progress env)) (\<lambda>r.
         andThen (modE (\<lambda>e. e\<lparr>eg_baseError := True\<rparr>)) (\<lambda>_. outcome r)))
       else progress env)))))"

definition handleMtuProbe :: "('w, 'x) EngineEnv \<Rightarrow> Control \<Rightarrow> u32 \<Rightarrow> ('w, 'x, Outbound list) act" where
  "handleMtuProbe env message receivedSize =
     andThen (requireRemoteRequest message) (\<lambda>_.
     andThen (modE (\<lambda>e. if validPMTUHint e receivedSize then e\<lparr>eg_lastReceivedCarrierPayload := receivedSize\<rparr> else e)) (\<lambda>_.
     andThen (answer env message (BodyMtuProbeAck \<lparr>pa_ReceivedProbePayloadSize = receivedSize\<rparr>)) (\<lambda>response. ret [response])))"

text \<open>The two successful ends of \<^verbatim>\<open>handleMtuProbeAck\<close>.\<close>

definition base_acknowledged :: "('w, 'x) EngineEnv \<Rightarrow> Control \<Rightarrow> u32 \<Rightarrow> ('w, 'x, Outbound list) act" where
  "base_acknowledged env message confirmedBefore =
     getE (\<lambda>e.
     andThen (onState (\<lambda>s. ObserveBaseProbeAck s (Some message) (oq_messageID (eg_outstanding e)))) (\<lambda>result.
     if result \<noteq> RESULT_CODE_ACCEPTED then raise ErrMalformedControl
     else
       andThen (modE (\<lambda>e. e\<lparr>eg_outstanding := no_request\<rparr>)) (\<lambda>_.
       andThen (startPMTU env) (\<lambda>_.
       andThen (modE clearBaseError) (\<lambda>_.
       andThen (emitConfirmedChange env confirmedBefore) (\<lambda>_.
       andThen (clockNow env) (\<lambda>now. emitPMTUProbe env now)))))))"

definition probe_acknowledged :: "('w, 'x) EngineEnv \<Rightarrow> u32 \<Rightarrow> u32 \<Rightarrow> ('w, 'x, Outbound list) act" where
  "probe_acknowledged env ackSize confirmedBefore =
     getE (\<lambda>e.
     if eg_pmtu e = None then raise ErrMalformedControl
     else
       andThen (clockNow env) (\<lambda>at.
       andThen (onPmtu (\<lambda>search. Acknowledge search (oq_probeAttempt (eg_outstanding e)) ackSize at)) (\<lambda>ok.
       if \<not> ok then raise ErrMalformedControl
       else
         andThen (modE (\<lambda>e. e\<lparr>eg_outstanding := no_request\<rparr>)) (\<lambda>_.
         andThen (emitConfirmedChange env confirmedBefore) (\<lambda>_.
         andThen (clockNow env) (\<lambda>now. emitPMTUProbe env now))))))"

definition handleMtuProbeAck :: "('w, 'x) EngineEnv \<Rightarrow> Control \<Rightarrow> MtuProbeAck \<Rightarrow> ('w, 'x, Outbound list) act" where
  "handleMtuProbeAck env message ack =
     getE (\<lambda>e.
       let q = eg_outstanding e in
       if \<not> oq_initialized q then (if eg_pmtu e \<noteq> None then ret [] else raise ErrUnexpectedResponse)
       else if oq_kind q \<noteq> requestBaseProbe \<and> oq_kind q \<noteq> requestPMTUProbe then raise ErrUnexpectedResponse
       else if ct_ReplyTo message \<noteq> oq_messageID q \<or> ct_ControlEpoch message \<noteq> eg_localEpoch e then ret []
       else
         andThen (requireResponse message (oq_kind q)) (\<lambda>_.
         if pa_ReceivedProbePayloadSize ack \<noteq> oq_probeSize q then raise ErrMalformedControl
         else if oq_kind q = requestBaseProbe then base_acknowledged env message (ConfirmedCarrierPayload e)
         else probe_acknowledged env (pa_ReceivedProbePayloadSize ack) (ConfirmedCarrierPayload e)))"

definition handleStateSyncRequired :: "('w, 'x) EngineEnv \<Rightarrow> Control \<Rightarrow> ('w, 'x, Outbound list) act" where
  "handleStateSyncRequired env message =
     (if ct_ReplyTo message \<noteq> 0 then raise ErrMalformedControl
      else
        andThen (onState (\<lambda>s. ObserveStateSyncRequired s (Some message))) (\<lambda>result.
        if result \<noteq> RESULT_CODE_ACCEPTED then ret [] else Engine_beginLocalExchange env))"

subsection \<open>Inbound frames\<close>

definition resetReplayKeyFor :: "Control \<Rightarrow> resetReplayKey option" where
  "resetReplayKeyFor message =
     (if GetResetSequence (Some message) = None then None
      else Some \<lparr>yk_epoch = ct_ControlEpoch message, yk_message = ct_MessageId message, yk_kind = requestReset\<rparr>)"

definition lookupResetReplay :: "Engine \<Rightarrow> resetReplayKey \<Rightarrow> bytes option" where
  "lookupResetReplay e key = map_option ye_frame (List.find (\<lambda>entry. ye_used entry \<and> ye_key entry = key) (eg_resetReplay e))"

fun replace_frame :: "resetReplayKey \<Rightarrow> bytes \<Rightarrow> resetReplayEntry list \<Rightarrow> resetReplayEntry list" where
  "replace_frame key frame [] = []"
| "replace_frame key frame (entry # entries) =
     (if ye_used entry \<and> ye_key entry = key then entry\<lparr>ye_frame := frame\<rparr> # entries
      else entry # replace_frame key frame entries)"

definition storeResetReplay :: "resetReplayKey \<Rightarrow> bytes \<Rightarrow> Engine \<Rightarrow> Engine" where
  "storeResetReplay key frame e =
     (if length frame = 0 then e
      else if lookupResetReplay e key \<noteq> None then e\<lparr>eg_resetReplay := replace_frame key frame (eg_resetReplay e)\<rparr>
      else
        e\<lparr>eg_resetReplay := (eg_resetReplay e)[eg_resetReplayNext e := \<lparr>ye_key = key, ye_frame = frame, ye_used = True\<rparr>],
          eg_resetReplayNext := (eg_resetReplayNext e + 1) mod length (eg_resetReplay e)\<rparr>)"

definition controlBodyUnset :: "Control \<Rightarrow> bool" where
  "controlBodyUnset message = (ct_Body message = None)"

definition allowDuringBaseRecovery :: "Engine \<Rightarrow> Control \<Rightarrow> bool" where
  "allowDuringBaseRecovery e message =
     (if ct_ReplyTo message = 0 then True
      else if \<not> oq_initialized (eg_outstanding e) \<or> ct_ReplyTo message \<noteq> oq_messageID (eg_outstanding e) \<or>
         ct_ControlEpoch message \<noteq> eg_localEpoch e then False
      else
        (case oq_kind (eg_outstanding e) of
           requestCapabilities \<Rightarrow> GetCapabilitiesAck (Some message) \<noteq> None
         | requestReset \<Rightarrow> GetResetSequenceAck (Some message) \<noteq> None
         | requestPeerMTU \<Rightarrow> GetPeerMtuAck (Some message) \<noteq> None
         | requestPing \<Rightarrow> GetPong (Some message) \<noteq> None
         | requestBaseProbe \<Rightarrow> GetMtuProbeAck (Some message) \<noteq> None
         | _ \<Rightarrow> False))"

definition dispatch :: "('w, 'x) EngineEnv \<Rightarrow> Control \<Rightarrow> u32 \<Rightarrow> ('w, 'x, Outbound list) act" where
  "dispatch env message receivedSize =
     (case ct_Body message of
        Some (BodyCapabilitiesHello _) \<Rightarrow> handleCapabilitiesHello env message
      | Some (BodyCapabilitiesAck ack) \<Rightarrow> handleCapabilitiesAck env message ack
      | Some (BodyResetSequence reset) \<Rightarrow> handleReset env message reset
      | Some (BodyResetSequenceAck ack) \<Rightarrow> handleResetAck env message ack
      | Some (BodyPeerMTU peerMTU) \<Rightarrow> handlePeerMTU env message peerMTU
      | Some (BodyPeerMTUAck ack) \<Rightarrow> handlePeerMTUAck env message ack
      | Some (BodyPing ping) \<Rightarrow> handlePing env message ping
      | Some (BodyPong _) \<Rightarrow> handlePong env message
      | Some BodyMtuProbe \<Rightarrow> handleMtuProbe env message receivedSize
      | Some (BodyMtuProbeAck ack) \<Rightarrow> handleMtuProbeAck env message ack
      | Some (BodyStateSyncRequired _) \<Rightarrow> handleStateSyncRequired env message
      | None \<Rightarrow> raise ErrUnsupportedBody)"

text \<open>The part of \<^verbatim>\<open>HandleInbound\<close> after the message is decoded and checked.\<close>

definition handle_message :: "('w, 'x) EngineEnv \<Rightarrow> Control \<Rightarrow> u32 \<Rightarrow> ('w, 'x, Outbound list) act" where
  "handle_message env message receivedSize =
     getE (\<lambda>e.
       if eg_baseError e \<and> oq_initialized (eg_outstanding e) \<and> \<not> allowDuringBaseRecovery e message then ret []
       else
         (case resetReplayKeyFor message of
            None \<Rightarrow> dispatch env message receivedSize
          | Some key \<Rightarrow>
              (case (if eg_remoteEpoch e \<noteq> 0 \<and> yk_epoch key = eg_remoteEpoch e then lookupResetReplay e key else None) of
                 Some replay \<Rightarrow> ret [replay]
               | None \<Rightarrow>
                   andThen (dispatch env message receivedSize) (\<lambda>out.
                   andThen (whenA (out \<noteq> []) (modE (storeResetReplay key (hd out)))) (\<lambda>_. ret out)))))"

definition HandleInbound :: "('w, 'x) EngineEnv \<Rightarrow> bytes \<Rightarrow> ('w, 'x, Outbound list) act" where
  "HandleInbound env frame =
     getE (\<lambda>e.
       case Codec_Parse (eg_codec e) frame of
         Inl _ \<Rightarrow> raise ErrMalformedControl
       | Inr payload \<Rightarrow>
           (case ev_Unmarshal env payload of
              None \<Rightarrow> raise ErrMalformedControl
            | Some message \<Rightarrow>
                (if ct_MessageId message = 0 \<or> ct_ControlEpoch message = 0 \<or> controlBodyUnset message then raise ErrMalformedControl
                 else if GetMtuProbe (Some message) = None \<and> length (GetPadding (Some message)) \<noteq> 0 then raise ErrMalformedControl
                 else if GetCapabilitiesHello (Some message) \<noteq> None then
                   andThen (clockNow env) (\<lambda>now.
                   andThen (onState (\<lambda>s. IsRemoteEpochRetired s now (ct_ControlEpoch message))) (\<lambda>retired.
                     if retired then ret [] else handle_message env message (of_nat (length frame))))
                 else handle_message env message (of_nat (length frame)))))"

end
