(* ===== verification/EngineInv.thy ===== *)
theory EngineInv
  imports Engine ControlStateRun PmtuInv
begin

text \<open>
  Triples over the actions of the engine, its invariant, and that every method keeps it and does not panic.
\<close>

unbundle bit_operations_syntax

subsection \<open>The invariant\<close>

definition search_ok :: "Engine \<Rightarrow> PmtuState \<Rightarrow> bool" where
  "search_ok e search \<longleftrightarrow>
     pmtu_ok search \<and> pc_Base (pm_config search) = eg_base e \<and>
     pc_Ceiling (pm_config search) \<le> st_MaxCarrierPayload (ss_config (eg_state e))"

definition engine_ok :: "Engine \<Rightarrow> bool" where
  "engine_ok e \<longleftrightarrow>
     control_ok (eg_state e) \<and> eg_base e = st_MinCarrierPayload (ss_config (eg_state e)) \<and>
     eg_localEpoch e = ss_localEpoch (eg_state e) \<and> eg_remoteEpoch e = ss_remoteEpoch (eg_state e) \<and>
     (eg_started e \<longleftrightarrow> eg_localEpoch e \<noteq> 0) \<and>
     (oq_kind (eg_outstanding e) = requestBaseProbe \<longrightarrow> eg_remoteEpoch e \<noteq> 0) \<and>
     (case eg_pmtu e of None \<Rightarrow> \<not> gate (eg_state e) 6 | Some search \<Rightarrow> search_ok e search)"

subsection \<open>Triples\<close>

text \<open>
  \<open>triple P m Q\<close>: from an engine with \<open>P\<close>, a value of \<open>m\<close> comes with \<open>Q\<close>, and an error leaves the invariant and is
  not a panic.
\<close>

definition triple :: "(Engine \<Rightarrow> bool) \<Rightarrow> ('w, 'x, 'a) act \<Rightarrow> ('a \<Rightarrow> Engine \<Rightarrow> bool) \<Rightarrow> bool" where
  "triple P m Q \<longleftrightarrow>
     (\<forall>e w. P e \<longrightarrow> (case m (e, w) of
        ((e', _), Inr a) \<Rightarrow> Q a e'
      | ((e', _), Inl err) \<Rightarrow> engine_ok e' \<and> err \<noteq> eg_Panic))"

named_theorems triples

lemma triple_pre: "triple P m Q \<Longrightarrow> (\<And>e. P' e \<Longrightarrow> P e) \<Longrightarrow> triple P' m Q"
  by (auto simp: triple_def)

lemma triple_post:
  assumes "triple P m Q" and "\<And>a e. Q a e \<Longrightarrow> Q' a e"
  shows "triple P m Q'"
  using assms unfolding triple_def by (fastforce split: prod.splits sum.splits)

lemma triple_ret: "(\<And>e. P e \<Longrightarrow> Q a e) \<Longrightarrow> triple P (ret a) Q"
  by (simp add: triple_def ret_def)

lemma triple_raise: "(\<And>e. P e \<Longrightarrow> engine_ok e) \<Longrightarrow> err \<noteq> eg_Panic \<Longrightarrow> triple P (raise err) Q"
  by (simp add: triple_def raise_def)

lemma triple_andThen:
  assumes "triple P m R" and "\<And>a. triple (R a) (f a) Q"
  shows "triple P (andThen m f) Q"
  unfolding triple_def
proof (intro allI impI)
  fix e w assume P: "P e"
  obtain e1 w1 r where m: "m (e, w) = ((e1, w1), r)" by (metis surj_pair)
  then show "case andThen m f (e, w) of ((e', _), Inr a) \<Rightarrow> Q a e' | ((e', _), Inl err) \<Rightarrow> engine_ok e' \<and> err \<noteq> eg_Panic"
  proof (cases r)
    case (Inl err)
    then show ?thesis using assms(1) P m by (auto simp: triple_def andThen_def dest!: spec [of _ e] spec [of _ w])
  next
    case (Inr a)
    then have "R a e1" using assms(1) P m by (auto simp: triple_def dest!: spec [of _ e] spec [of _ w])
    then show ?thesis using assms(2) [of a] m Inr by (auto simp: triple_def andThen_def)
  qed
qed

text \<open>Reading the engine fixes it: from then on the state is followed exactly.\<close>

lemma triple_getE: "(\<And>e0. P e0 \<Longrightarrow> triple (\<lambda>e. e = e0) (f e0) Q) \<Longrightarrow> triple P (getE f) Q"
  by (simp add: triple_def getE_def)

lemma triple_modE: "(\<And>e. P e \<Longrightarrow> Q () (f e)) \<Longrightarrow> triple P (modE f) Q"
  by (simp add: triple_def modE_def)

lemma triple_whenA: "(b \<Longrightarrow> triple P m Q) \<Longrightarrow> (\<And>e. \<not> b \<Longrightarrow> P e \<Longrightarrow> Q () e) \<Longrightarrow> triple P (whenA b m) Q"
  by (simp add: whenA_def triple_ret)

lemma triple_if: "(b \<Longrightarrow> triple P m Q) \<Longrightarrow> (\<not> b \<Longrightarrow> triple P m' Q) \<Longrightarrow> triple P (if b then m else m') Q"
  by simp

lemma triple_outcome:
  "(\<And>a e. r = Inr a \<Longrightarrow> P e \<Longrightarrow> Q a e) \<Longrightarrow> (\<And>err e. r = Inl err \<Longrightarrow> P e \<Longrightarrow> engine_ok e \<and> err \<noteq> eg_Panic) \<Longrightarrow> triple P (outcome r) Q"
  by (cases r) (simp_all add: triple_def outcome_def)

lemma triple_attempt:
  assumes "triple P m (\<lambda>a. Q (Inr a))" and "\<And>err e. engine_ok e \<Longrightarrow> err \<noteq> eg_Panic \<Longrightarrow> Q (Inl err) e"
  shows "triple P (attempt m) Q"
  unfolding triple_def
proof (intro allI impI)
  fix e w assume P: "P e"
  obtain e1 w1 r where m: "m (e, w) = ((e1, w1), r)" by (metis surj_pair)
  then show "case attempt m (e, w) of ((e', _), Inr a) \<Rightarrow> Q a e' | ((e', _), Inl err) \<Rightarrow> engine_ok e' \<and> err \<noteq> eg_Panic"
    using assms(1) [unfolded triple_def, rule_format, OF P, of w] assms(2) by (cases r) (simp_all add: attempt_def)
qed

lemma triple_clockNow: "(\<And>e now. P e \<Longrightarrow> Q now e) \<Longrightarrow> triple P (clockNow env) Q"
  by (auto simp: triple_def clockNow_def split: prod.splits)

lemma triple_onState:
  "(\<And>e s a. P e \<Longrightarrow> f (eg_state e) = (s, a) \<Longrightarrow> Q a (e\<lparr>eg_state := s\<rparr>)) \<Longrightarrow> triple P (onState f) Q"
  by (auto simp: triple_def onState_def split: prod.splits)

lemma triple_onPmtu:
  assumes "\<And>e. P e \<Longrightarrow> \<exists>search search' a. eg_pmtu e = Some search \<and> f search = Some (search', a) \<and> Q a (e\<lparr>eg_pmtu := Some search'\<rparr>)"
  shows "triple P (onPmtu f) Q"
  unfolding triple_def
proof (intro allI impI)
  fix e w assume "P e"
  then obtain search search' a where "eg_pmtu e = Some search" "f search = Some (search', a)" "Q a (e\<lparr>eg_pmtu := Some search'\<rparr>)"
    using assms by blast
  then show "case onPmtu f (e, w) of ((e', _), Inr a) \<Rightarrow> Q a e' | ((e', _), Inl err) \<Rightarrow> engine_ok e' \<and> err \<noteq> eg_Panic"
    by (simp add: onPmtu_def)
qed

lemma triple_at: "(engine_ok e0 \<Longrightarrow> triple engine_ok m Q) \<Longrightarrow> engine_ok e0 \<Longrightarrow> triple (\<lambda>e. e = e0) m Q"
  by (auto simp: triple_def)

lemmas triple_rules =
  triple_ret triple_raise triple_getE triple_modE triple_whenA triple_if triple_clockNow triple_outcome triple_onState

text \<open>The invariant does not depend on the other fields.\<close>

lemma engine_ok_frame [simp]:
  "engine_ok (e\<lparr>eg_localMessageID := i\<rparr>) = engine_ok e"
  "engine_ok (e\<lparr>eg_remoteResponseID := i\<rparr>) = engine_ok e" "engine_ok (e\<lparr>eg_nextPingSequence := j\<rparr>) = engine_ok e"
  "engine_ok (e\<lparr>eg_baseError := b\<rparr>) = engine_ok e" "engine_ok (e\<lparr>eg_baseErrorReason := z\<rparr>) = engine_ok e"
  "engine_ok (e\<lparr>eg_terminalError := b\<rparr>) = engine_ok e" "engine_ok (e\<lparr>eg_terminalReason := z\<rparr>) = engine_ok e"
  "engine_ok (e\<lparr>eg_baseRetryAt := t\<rparr>) = engine_ok e" "engine_ok (e\<lparr>eg_baseRetryAttempt := i\<rparr>) = engine_ok e"
  "engine_ok (e\<lparr>eg_lastReceivedCarrierPayload := h\<rparr>) = engine_ok e" "engine_ok (e\<lparr>eg_pmtuHint := h\<rparr>) = engine_ok e"
  "engine_ok (e\<lparr>eg_resetReplay := rs\<rparr>) = engine_ok e" "engine_ok (e\<lparr>eg_resetReplayNext := n\<rparr>) = engine_ok e"
  "engine_ok (e\<lparr>eg_srtt := d\<rparr>) = engine_ok e"
  by (simp_all add: engine_ok_def search_ok_def split: option.splits)

lemma engine_ok_outstanding [simp]:
  assumes "engine_ok e"
  shows "engine_ok (e\<lparr>eg_outstanding := no_request\<rparr>)"
    and "oq_kind q \<noteq> requestBaseProbe \<or> oq_kind q = oq_kind (eg_outstanding e) \<or> eg_remoteEpoch e \<noteq> 0 \<Longrightarrow>
      engine_ok (e\<lparr>eg_outstanding := q\<rparr>)"
  using assms by (auto simp: engine_ok_def search_ok_def no_request_def split: option.splits)

text \<open>A step of the control state that leaves both epochs alone and does not open the BASE gate.\<close>

definition quiet_step :: "State \<Rightarrow> State \<Rightarrow> bool" where
  "quiet_step s s' \<longleftrightarrow>
     control_ok s' \<and> ss_config s' = ss_config s \<and> ss_localEpoch s' = ss_localEpoch s \<and> ss_remoteEpoch s' = ss_remoteEpoch s \<and>
     (gate s' 6 \<longrightarrow> gate s 6)"

lemma engine_ok_state: "engine_ok e \<Longrightarrow> quiet_step (eg_state e) s' \<Longrightarrow> engine_ok (e\<lparr>eg_state := s'\<rparr>)"
  by (auto simp: engine_ok_def quiet_step_def search_ok_def split: option.splits)

lemma engine_ok_control: "engine_ok e \<Longrightarrow> control_ok (eg_state e)"
  by (simp add: engine_ok_def)

lemma quiet_steps:
  assumes "control_ok s"
  shows "quiet_step s (ResetPathGates s)" and "ObserveCapabilitiesAck s m r = (s', a) \<Longrightarrow> quiet_step s s'"
    and "ObserveResetSequence s now m = (s', d) \<Longrightarrow> quiet_step s s'" and "ObserveResetSequenceAck s m r = (s', a) \<Longrightarrow> quiet_step s s'"
    and "ObservePeerMTU s m = (s', a) \<Longrightarrow> quiet_step s s'" and "ObservePeerMTUAck s m r = (s', a) \<Longrightarrow> quiet_step s s'"
    and "ObservePong s m r q = (s', a) \<Longrightarrow> quiet_step s s'" and "CheckInboundDataSession s now x = (s', c) \<Longrightarrow> quiet_step s s'"
    and "ObserveStateSyncRequired s m = (s', a) \<Longrightarrow> quiet_step s s'" and "IsRemoteEpochRetired s now k = (s', b) \<Longrightarrow> quiet_step s s'"
proof -
  note ok = control_ok_steps [OF assms]
  show "quiet_step s (ResetPathGates s)"
    using reset_path_ok [OF assms] by (simp add: quiet_step_def ResetPathGates_def gate_def gate_simps)
  show "quiet_step s s'" if "ObserveCapabilitiesAck s m r = (s', a)"
    using ok(4) [OF that] that
    by (auto simp: quiet_step_def ObserveCapabilitiesAck_def reconcileCapabilitiesAck_def Let_def gate_def gate_simps
        split: option.splits if_splits)
  show "quiet_step s s'" if "ObserveResetSequence s now m = (s', d)"
  proof -
    have "ss_config s' = ss_config s \<and> ss_localEpoch s' = ss_localEpoch s \<and> ss_remoteEpoch s' = ss_remoteEpoch s \<and> ss_flags s' = ss_flags s"
      using that control_ok_sets(1) [OF assms] by (cases rule: reset_outcome) (auto simp: pruneRetired_def)
    then show ?thesis using ok(5) [OF that] by (simp add: quiet_step_def gate_def)
  qed
  show "quiet_step s s'" if "ObserveResetSequenceAck s m r = (s', a)"
    using ok(6) [OF that] that
    by (auto simp: quiet_step_def ObserveResetSequenceAck_def gate_def gate_simps split: option.splits if_splits)
  show "quiet_step s s'" if "ObservePeerMTU s m = (s', a)"
    using ok(7) [OF that] that by (auto simp: quiet_step_def ObservePeerMTU_def Let_def gate_def gate_simps split: if_splits)
  show "quiet_step s s'" if "ObservePeerMTUAck s m r = (s', a)"
    using ok(8) [OF that] that
    by (auto simp: quiet_step_def ObservePeerMTUAck_def gate_def gate_simps split: option.splits if_splits)
  show "quiet_step s s'" if "ObservePong s m r q = (s', a)"
    using ok(9) [OF that] that by (auto simp: quiet_step_def ObservePong_def gate_def gate_simps split: option.splits if_splits)
  show "quiet_step s s'" if "CheckInboundDataSession s now x = (s', c)"
    using ok(12) [OF that] that by (auto simp: quiet_step_def CheckInboundDataSession_def Let_def gate_def split: if_splits)
  show "quiet_step s s'" if "ObserveStateSyncRequired s m = (s', a)"
    using ok(11) [OF that] that
    by (auto simp: quiet_step_def ObserveStateSyncRequired_def gate_def gate_simps split: option.splits if_splits)
  show "quiet_step s s'" if "IsRemoteEpochRetired s now k = (s', b)"
    using ok(13) [OF that] that by (auto simp: quiet_step_def IsRemoteEpochRetired_def Let_def gate_def split: if_splits)
qed

text \<open>The search steps through \<open>pmtu_exec\<close>.\<close>

lemma engine_ok_search:
  assumes "engine_ok e" and "eg_pmtu e = Some search" and "pmtu_exec search op = Some search'"
  shows "engine_ok (e\<lparr>eg_pmtu := Some search'\<rparr>)"
proof -
  have "pmtu_ok search" using assms(1,2) by (simp add: engine_ok_def search_ok_def)
  from pmtu_exec_ok [OF this, of op] have "pmtu_ok search' \<and> pm_config search' = pm_config search"
    using assms(3) by (auto simp: pmtu_step_ok_def)
  then show ?thesis using assms(1,2) by (auto simp: engine_ok_def search_ok_def)
qed

lemma search_exec: "engine_ok e \<Longrightarrow> eg_pmtu e = Some search \<Longrightarrow> \<exists>search'. pmtu_exec search op = Some search'"
  using pmtu_exec_ok [of search op] by (auto simp: engine_ok_def search_ok_def)

lemma triple_search:
  assumes "\<And>e. P e \<Longrightarrow> engine_ok e \<and> eg_pmtu e \<noteq> None" and "\<And>search. pmtu_exec search op = map_option fst (f search)"
    and "\<And>e search search' a. P e \<Longrightarrow> eg_pmtu e = Some search \<Longrightarrow> f search = Some (search', a) \<Longrightarrow>
      engine_ok (e\<lparr>eg_pmtu := Some search'\<rparr>) \<Longrightarrow> Q a (e\<lparr>eg_pmtu := Some search'\<rparr>)"
  shows "triple P (onPmtu f) Q"
proof (rule triple_onPmtu)
  fix e assume P: "P e"
  then obtain search where s: "eg_pmtu e = Some search" "engine_ok e" using assms(1) by blast
  from search_exec [OF s(2,1), of op] obtain search' a where f: "f search = Some (search', a)" using assms(2) [of search] by auto
  have "engine_ok (e\<lparr>eg_pmtu := Some search'\<rparr>)"
    by (rule engine_ok_search [OF s(2,1), of op]) (simp add: assms(2) f)
  then show "\<exists>search search' a. eg_pmtu e = Some search \<and> f search = Some (search', a) \<and> Q a (e\<lparr>eg_pmtu := Some search'\<rparr>)"
    using s f assms(3) [OF P s(1) f] by blast
qed

subsection \<open>Every method keeps the invariant\<close>

lemma triple_seq: "triple P m (\<lambda>_. engine_ok) \<Longrightarrow> (\<And>a. triple engine_ok (f a) Q) \<Longrightarrow> triple P (andThen m f) Q"
  by (rule triple_andThen)

lemma no_panic [simp]: "marshal env e m n \<noteq> Inl eg_Panic" "nextID v \<noteq> Inl eg_Panic"
  by (auto simp: marshal_def pad_message_def nextID_def Let_def split: sum.splits option.splits)

lemma triple_result:
  "(\<And>e. P e \<Longrightarrow> engine_ok e) \<Longrightarrow> r \<noteq> Inl eg_Panic \<Longrightarrow> triple P (outcome r) (\<lambda>_. engine_ok)"
  by (rule triple_outcome) auto

lemmas triple_intros = triple_getE triple_seq triple_result triple_modE triple_clockNow triple_whenA triple_if triple_raise triple_ret

lemma retryDelayCapped_ok [triples]: "(\<And>e. P e \<Longrightarrow> engine_ok e) \<Longrightarrow> triple P (retryDelayCapped env n d) (\<lambda>_. engine_ok)"
  by (auto simp: triple_def retryDelayCapped_def Let_def split: prod.splits sum.splits)

lemma retryDelay_ok [triples]: "(\<And>e. P e \<Longrightarrow> engine_ok e) \<Longrightarrow> triple P (retryDelay env n) (\<lambda>_. engine_ok)"
  unfolding retryDelay_def by (rule retryDelayCapped_ok)

lemma retryDelayForOutstanding_ok [triples]:
  "(\<And>e. P e \<Longrightarrow> engine_ok e) \<Longrightarrow> triple P (retryDelayForOutstanding env now n) (\<lambda>_. engine_ok)"
  unfolding retryDelayForOutstanding_def Let_def by (intro triple_intros triples) simp

lemma retryOutstanding_ok [triples]: "(\<And>e. P e \<Longrightarrow> engine_ok e) \<Longrightarrow> triple P (retryOutstanding env now) (\<lambda>_. engine_ok)"
  unfolding retryOutstanding_def Let_def by (intro triple_intros triples) simp_all

text \<open>\<open>ready k e\<close>: a request of kind \<open>k\<close> may be sent.\<close>

definition ready :: "requestKind \<Rightarrow> Engine \<Rightarrow> bool" where
  "ready k e \<longleftrightarrow> engine_ok e \<and> (k = requestBaseProbe \<longrightarrow> eg_remoteEpoch e \<noteq> 0)"

lemma triple_ready: "triple P m (\<lambda>_. ready k) \<Longrightarrow> (\<And>a. triple (ready k) (f a) Q) \<Longrightarrow> triple P (andThen m f) Q"
  by (rule triple_andThen)

lemma triple_armed:
  assumes "\<And>e. P e \<Longrightarrow> engine_ok (g e)" "triple engine_ok m Q"
  shows "triple P (andThen (modE g) (\<lambda>_. m)) Q"
  by (rule triple_andThen [where R = "\<lambda>_. engine_ok"], rule triple_modE, rule assms, assumption, rule assms)

lemma arm_request_ok: "triple (ready k) (arm_request env k i ping n frame) (\<lambda>_. engine_ok)"
  unfolding arm_request_def
  by (rule triple_ready [where k = k], rule triple_clockNow, assumption, rule triple_armed,
      simp add: ready_def) (auto intro!: triple_intros triples)

lemma sendRequest_ok [triples]:
  assumes "\<And>e. P e \<Longrightarrow> ready k e"
  shows "triple P (sendRequest env k m ping n) (\<lambda>_. engine_ok)"
  unfolding sendRequest_def Let_def
  by (intro triple_getE triple_ready [where k = k] triple_outcome triple_modE triple_if triple_raise arm_request_ok)
     (auto simp: ready_def dest: assms)

lemma sendResponse_ok [triples]: "(\<And>e. P e \<Longrightarrow> engine_ok e) \<Longrightarrow> triple P (sendResponse env m) (\<lambda>_. engine_ok)"
  unfolding sendResponse_def by (intro triple_intros triples) simp_all

lemma answer_ok [triples]: "(\<And>e. P e \<Longrightarrow> engine_ok e) \<Longrightarrow> triple P (answer env m b) (\<lambda>_. engine_ok)"
  unfolding answer_def by (rule sendResponse_ok)

lemma reset_gates_ok [simp]: "engine_ok e \<Longrightarrow> engine_ok (e\<lparr>eg_state := ResetPathGates (eg_state e)\<rparr>)"
  by (intro engine_ok_state quiet_steps(1)) (simp_all add: engine_ok_control)

lemma enterTerminalError_ok [simp]: "engine_ok e \<Longrightarrow> engine_ok (enterTerminalError reason e)"
  by (simp add: enterTerminalError_def)

lemma clear_errors_ok [simp]: "engine_ok (clearTerminalError e) = engine_ok e" "engine_ok (clearBaseError e) = engine_ok e"
  by (simp_all add: clearTerminalError_def clearBaseError_def)

lemma enterBaseError_ok [triples]: "(\<And>e. P e \<Longrightarrow> engine_ok e) \<Longrightarrow> triple P (enterBaseError env) (\<lambda>_. engine_ok)"
  unfolding enterBaseError_def by (intro triple_intros triples) simp_all

lemma scheduleBaseRetry_ok [triples]: "(\<And>e. P e \<Longrightarrow> engine_ok e) \<Longrightarrow> triple P (scheduleBaseRetry env now) (\<lambda>_. engine_ok)"
  unfolding scheduleBaseRetry_def by (intro triple_intros triples) simp_all

lemma notify_ok [triples]: "(\<And>e. P e \<Longrightarrow> engine_ok e) \<Longrightarrow> triple P (notify env n) (\<lambda>_. engine_ok)"
  by (auto simp: triple_def notify_def split: option.splits)

lemma emitConfirmedChange_ok [triples]: "(\<And>e. P e \<Longrightarrow> engine_ok e) \<Longrightarrow> triple P (emitConfirmedChange env confirmedBefore) (\<lambda>_. engine_ok)"
  unfolding emitConfirmedChange_def by (intro triple_getE) (auto split: option.splits intro!: triple_intros triples)

subsection \<open>The search\<close>

definition tracked :: "Engine \<Rightarrow> bool" where
  "tracked e \<longleftrightarrow> engine_ok e \<and> eg_pmtu e \<noteq> None"

lemma tracked_ok: "tracked e \<Longrightarrow> engine_ok e"
  by (simp add: tracked_def)

lemma triple_track: "triple P m (\<lambda>_. tracked) \<Longrightarrow> (\<And>a. triple tracked (f a) Q) \<Longrightarrow> triple P (andThen m f) Q"
  by (rule triple_andThen)

lemma triple_pmtu:
  assumes "\<And>e. P e \<Longrightarrow> tracked e" and "\<And>search. pmtu_exec search op = map_option fst (f search)"
  shows "triple P (onPmtu f) (\<lambda>_. tracked)"
  by (rule triple_search [where op = op]) (use assms in \<open>auto simp: tracked_def\<close>)

lemma search_triples:
  assumes "\<And>e. P e \<Longrightarrow> tracked e"
  shows "triple P (onPmtu (\<lambda>search. PmtuTick search now)) (\<lambda>_. tracked)"
    and "triple P (onPmtu (\<lambda>search. Some (TakeBlackhole search))) (\<lambda>_. tracked)"
    and "triple P (onPmtu (\<lambda>search. RefreshDue search now)) (\<lambda>_. tracked)"
    and "triple P (onPmtu (\<lambda>search. Some (ConfirmationDue search now))) (\<lambda>_. tracked)"
    and "triple P (onPmtu (\<lambda>search. FailCurrent search now)) (\<lambda>_. tracked)"
    and "triple P (onPmtu (\<lambda>search. SoftFailCurrent search now)) (\<lambda>_. tracked)"
    and "triple P (onPmtu (\<lambda>search. Acknowledge search i n now)) (\<lambda>_. tracked)"
    and "triple P (onPmtu (\<lambda>search. Some (PmtuNext search now))) (\<lambda>_. tracked)"
    and "triple P (onPmtu (\<lambda>search. Some (AdjustCurrent search i n))) (\<lambda>_. tracked)"
    and "triple P (onPmtu (\<lambda>search. map_option (\<lambda>search'. (search', ())) (ReportBlackhole search now))) (\<lambda>_. tracked)"
    and "triple P (onPmtu (\<lambda>search. map_option (\<lambda>search'. (search', ()))
           (if n \<noteq> 0 then StartWithHint search now n else Start search now))) (\<lambda>_. tracked)"
proof -
  note rule = triple_pmtu [OF assms]
  show "triple P (onPmtu (\<lambda>search. PmtuTick search now)) (\<lambda>_. tracked)" by (rule rule [where op = "PTick now"]) simp_all
  show "triple P (onPmtu (\<lambda>search. Some (TakeBlackhole search))) (\<lambda>_. tracked)" by (rule rule [where op = PTakeBlackhole]) simp_all
  show "triple P (onPmtu (\<lambda>search. RefreshDue search now)) (\<lambda>_. tracked)" by (rule rule [where op = "PRefreshDue now"]) simp_all
  show "triple P (onPmtu (\<lambda>search. Some (ConfirmationDue search now))) (\<lambda>_. tracked)"
    by (rule rule [where op = "PConfirmationDue now"]) simp_all
  show "triple P (onPmtu (\<lambda>search. FailCurrent search now)) (\<lambda>_. tracked)" by (rule rule [where op = "PFailCurrent now"]) simp_all
  show "triple P (onPmtu (\<lambda>search. SoftFailCurrent search now)) (\<lambda>_. tracked)"
    by (rule rule [where op = "PSoftFailCurrent now"]) simp_all
  show "triple P (onPmtu (\<lambda>search. Acknowledge search i n now)) (\<lambda>_. tracked)"
    by (rule rule [where op = "PAcknowledge i n now"]) simp_all
  show "triple P (onPmtu (\<lambda>search. Some (PmtuNext search now))) (\<lambda>_. tracked)" by (rule rule [where op = "PNext now"]) simp_all
  show "triple P (onPmtu (\<lambda>search. Some (AdjustCurrent search i n))) (\<lambda>_. tracked)"
    by (rule rule [where op = "PAdjustCurrent i n"]) simp_all
  show "triple P (onPmtu (\<lambda>search. map_option (\<lambda>search'. (search', ())) (ReportBlackhole search now))) (\<lambda>_. tracked)"
    by (rule rule [where op = "PReportBlackhole now"]) (simp_all add: option.map_comp o_def option.map_ident)
  show "triple P (onPmtu (\<lambda>search. map_option (\<lambda>search'. (search', ()))
           (if n \<noteq> 0 then StartWithHint search now n else Start search now))) (\<lambda>_. tracked)"
    by (rule rule [where op = "if n \<noteq> 0 then PStartWithHint now n else PStart now"]) (simp_all add: option.map_comp o_def option.map_ident)
qed

text \<open>\<open>framed view m\<close>: the action leaves that part of the engine alone.\<close>

definition framed :: "(Engine \<Rightarrow> 'v) \<Rightarrow> ('w, 'x, 'a) act \<Rightarrow> bool" where
  "framed view m \<longleftrightarrow> (\<forall>p. view (fst (fst (m p))) = view (fst p))"

lemma framed_andThen: "framed view m \<Longrightarrow> (\<And>a. framed view (f a)) \<Longrightarrow> framed view (andThen m f)"
  unfolding framed_def andThen_def by (simp split: prod.splits sum.splits) (metis fst_conv)

lemma framed_getE: "(\<And>e. framed view (f e)) \<Longrightarrow> framed view (getE f)"
  by (simp add: framed_def getE_def)

lemma framed_basic:
  "framed view (ret a)" "framed view (raise err)" "framed view (outcome r)" "framed view (clockNow env)"
  "(\<And>e. view (g e) = view e) \<Longrightarrow> framed view (modE g)"
  by (simp_all add: framed_def ret_def raise_def outcome_def clockNow_def modE_def split: prod.splits)

lemma framed_if: "(b \<Longrightarrow> framed view m) \<Longrightarrow> (\<not> b \<Longrightarrow> framed view m') \<Longrightarrow> framed view (if b then m else m')"
  by simp

lemma framed_whenA: "framed view m \<Longrightarrow> framed view (whenA b m)"
  by (simp add: whenA_def framed_basic)

lemma framed_delay: "framed view (retryDelayCapped env n d)"
  by (simp add: framed_def retryDelayCapped_def Let_def split: prod.splits sum.splits)

lemmas framed_rules = framed_andThen framed_getE framed_basic framed_if framed_whenA framed_delay

lemma framed_sendRequest:
  assumes "\<And>e i. view (e\<lparr>eg_localMessageID := i\<rparr>) = view e" and "\<And>e q. view (e\<lparr>eg_outstanding := q\<rparr>) = view e"
  shows "framed view (sendRequest env k m ping n)"
  unfolding sendRequest_def arm_request_def retryDelayForOutstanding_def Let_def by (intro framed_rules) (simp_all add: assms)

lemma triple_framed:
  assumes "triple P m (\<lambda>_. engine_ok)" and "framed eg_pmtu m" and "\<And>e. P e \<Longrightarrow> eg_pmtu e \<noteq> None"
  shows "triple P m (\<lambda>_. tracked)"
  unfolding triple_def
proof (intro allI impI)
  fix e w assume P: "P e"
  obtain e1 w1 r where m: "m (e, w) = ((e1, w1), r)" by (metis surj_pair)
  have "eg_pmtu e1 = eg_pmtu e" using assms(2) m by (metis framed_def fst_conv)
  then show "case m (e, w) of ((e', _), Inr a) \<Rightarrow> tracked e' | ((e', _), Inl err) \<Rightarrow> engine_ok e' \<and> err \<noteq> eg_Panic"
    using assms(1) [unfolded triple_def, rule_format, OF P, of w] assms(3) [OF P] m by (auto simp: tracked_def split: sum.splits)
qed

lemma abortPMTUProbe_ok [triples]:
  assumes "\<And>e. P e \<Longrightarrow> engine_ok e"
  shows "triple P (abortPMTUProbe env) (\<lambda>_. engine_ok)"
proof -
  have fail: "triple P (andThen (clockNow env) (\<lambda>now. andThen (onPmtu (\<lambda>search. FailCurrent search now)) (\<lambda>_. ret ()))) (\<lambda>_. engine_ok)"
    if "\<And>e. P e \<Longrightarrow> tracked e" for P
    by (intro triple_track triple_clockNow search_triples triple_ret) (simp_all add: that tracked_ok)
  show ?thesis
    unfolding abortPMTUProbe_def using assms
    by (intro triple_getE triple_seq [OF triple_whenA [OF fail]] triple_modE) (auto simp: tracked_def)
qed

lemma adjust_ok:
  "triple tracked (if n \<noteq> pb_PayloadSize probe then onPmtu (\<lambda>search. Some (AdjustCurrent search i n)) else ret True) (\<lambda>_. tracked)"
  by (intro triple_if search_triples triple_ret) simp_all

lemma sendPMTUProbe_ok [triples]:
  assumes "\<And>e. P e \<Longrightarrow> tracked e"
  shows "triple P (sendPMTUProbe env probe) (\<lambda>_. engine_ok)"
  unfolding sendPMTUProbe_def Let_def
proof (intro triple_getE triple_track [OF triple_framed [OF sendRequest_ok framed_sendRequest]] triple_if triple_track [OF adjust_ok])
qed (use assms in \<open>auto simp: tracked_def ready_def intro!: triple_intros triples\<close>)

lemma emitPMTUProbe_ok [triples]:
  assumes "\<And>e. P e \<Longrightarrow> engine_ok e"
  shows "triple P (emitPMTUProbe env now) (\<lambda>_. engine_ok)"
  unfolding emitPMTUProbe_def
  by (intro triple_getE triple_if triple_ret triple_track search_triples)
     (use assms in \<open>auto simp: tracked_def intro!: triple_ret sendPMTUProbe_ok split: option.splits\<close>)

lemma next_probe_ok [triples]: "(\<And>e. P e \<Longrightarrow> engine_ok e) \<Longrightarrow> triple P (next_probe env confirmedBefore now) (\<lambda>_. engine_ok)"
  unfolding next_probe_def by (intro triple_intros triples) simp_all

text \<open>
  The engine while a search may be missing behind an open BASE gate; the search that is then started fits.
\<close>

definition engine_core :: "Engine \<Rightarrow> bool" where
  "engine_core e \<longleftrightarrow>
     control_ok (eg_state e) \<and> eg_base e = st_MinCarrierPayload (ss_config (eg_state e)) \<and>
     eg_localEpoch e = ss_localEpoch (eg_state e) \<and> eg_remoteEpoch e = ss_remoteEpoch (eg_state e) \<and>
     (eg_started e \<longleftrightarrow> eg_localEpoch e \<noteq> 0) \<and>
     (oq_kind (eg_outstanding e) = requestBaseProbe \<longrightarrow> eg_remoteEpoch e \<noteq> 0) \<and>
     (case eg_pmtu e of None \<Rightarrow> eg_remoteEpoch e \<noteq> 0 | Some search \<Rightarrow> search_ok e search)"

lemma engine_core_search: "engine_core e \<Longrightarrow> eg_pmtu e \<noteq> None \<Longrightarrow> tracked e"
  by (auto simp: engine_core_def engine_ok_def tracked_def)

lemma negotiated_range:
  assumes "control_ok s" and "ss_remoteEpoch s \<noteq> 0"
  shows "u32_of DefaultCarrierPayload \<le> st_MinCarrierPayload (ss_config s)" and "st_MinCarrierPayload (ss_config s) \<le> NegotiatedCarrierPayload s"
    and "NegotiatedCarrierPayload s \<le> st_MaxCarrierPayload (ss_config s)"
proof -
  have cfg: "state_config_ok (ss_config s)" and remote: "remote_ok s" and g: "gate s 1"
    using assms by (auto simp: control_ok_def)
  have "ss_remoteMaxCarrierPayload s \<noteq> 0" using remote by (auto simp: remote_ok_def DefaultCarrierPayload_def)
  then have n: "NegotiatedCarrierPayload s = min (st_MaxCarrierPayload (ss_config s)) (ss_remoteMaxCarrierPayload s)"
    using g by (simp add: NegotiatedCarrierPayload_def gate_def gate_simps)
  show "u32_of DefaultCarrierPayload \<le> st_MinCarrierPayload (ss_config s)" "st_MinCarrierPayload (ss_config s) \<le> NegotiatedCarrierPayload s"
    "NegotiatedCarrierPayload s \<le> st_MaxCarrierPayload (ss_config s)"
    using cfg remote by (auto simp: n state_config_ok_def remote_ok_def min_def)
qed

lemma start_search_ok:
  assumes "engine_core e0" and "NewPmtu c = Inr search" and "pc_Base c = eg_base e0"
    and "pc_Ceiling c \<le> st_MaxCarrierPayload (ss_config (eg_state e0))"
  shows "triple (\<lambda>e. e = e0) (start_search env search) (\<lambda>_. engine_ok)"
proof -
  have "pmtu_ok (if eg_srtt e0 > 0 then ObserveRTT search (eg_srtt e0) else search) \<and>
      pm_config (if eg_srtt e0 > 0 then ObserveRTT search (eg_srtt e0) else search) = c"
    using NewPmtu_ok [OF assms(2)] pmtu_exec_ok [of search "PObserveRTT (eg_srtt e0)"] by (auto simp: pmtu_step_ok_def)
  then have "tracked (e0\<lparr>eg_pmtu := Some (if eg_srtt e0 > 0 then ObserveRTT search (eg_srtt e0) else search), eg_pmtuHint := 0\<rparr>)"
    using assms(1,3,4) by (auto simp: engine_core_def tracked_def engine_ok_def search_ok_def)
  then show ?thesis
    unfolding start_search_def Let_def
    by (intro triple_getE triple_track triple_modE triple_clockNow triple_post [OF search_triples(11)]) (auto simp: tracked_ok)
qed

lemma startPMTU_ok:
  assumes "\<And>e. P e \<Longrightarrow> engine_core e"
  shows "triple P (startPMTU env) (\<lambda>_. engine_ok)"
  unfolding startPMTU_def Let_def
proof (intro triple_getE triple_if triple_ret)
  fix e0 e assume "P e0" "eg_pmtu e0 \<noteq> None" "e = e0"
  then show "engine_ok e" using assms engine_core_search tracked_ok by blast
next
  fix e0 e assume P: "P e0" "\<not> eg_pmtu e0 \<noteq> None"
  then have r: "control_ok (eg_state e0)" "ss_remoteEpoch (eg_state e0) \<noteq> 0" "eg_base e0 = st_MinCarrierPayload (ss_config (eg_state e0))"
    using assms [OF P(1)] by (auto simp: engine_core_def)
  note range = negotiated_range [OF r(1,2)]
  have zero: "NegotiatedCarrierPayload (eg_state e0) \<noteq> 0"
    using range by (auto simp: DefaultCarrierPayload_def word_le_def)
  show "engine_ok e" if "NegotiatedCarrierPayload (eg_state e0) = 0" using zero that by simp
  let ?c = "\<lparr>pc_Base = eg_base e0, pc_Ceiling = NegotiatedCarrierPayload (eg_state e0), pc_Canonicalize = ev_CanonicalizeCarrierPayload env,
      pc_ProbeTimeout = engineProbeTimeout, pc_RefreshInterval = refreshInterval, pc_ConfirmationInterval = confirmationInterval\<rparr>"
  have "\<not> uint (eg_base e0) < DefaultCarrierPayload"
    using range(1) r(3) by (simp add: DefaultCarrierPayload_def word_le_def)
  then obtain search where n: "NewPmtu ?c = Inr search"
    using range(2) r(3) by (auto simp: NewPmtu_def engineProbeTimeout_def refreshInterval_def confirmationInterval_def minimumProbeTimeout_def
        Second_def Millisecond_def not_less)
  show "triple (\<lambda>e. e = e0) (case NewPmtu ?c of Inl err \<Rightarrow> raise (eg_Pmtu err) | Inr search \<Rightarrow> start_search env search) (\<lambda>_. engine_ok)"
    using start_search_ok [OF assms [OF P(1)] n] range(3) by (simp add: n)
qed

lemma progress_ok [triples]:
  assumes "\<And>e. P e \<Longrightarrow> engine_ok e"
  shows "triple P (progress env) (\<lambda>_. engine_ok)"
  unfolding progress_def Let_def
proof (intro triple_getE triple_if)
  fix e0 assume P: "P e0"
    and flags: "\<not> ReadyFlags (eg_state e0) AND (FlagLocalCapabilities OR FlagRemoteCapabilities) \<noteq> FlagLocalCapabilities OR FlagRemoteCapabilities"
  have ok: "engine_ok e0" by (rule assms [OF P])
  have "bit (ReadyFlags (eg_state e0) AND (FlagLocalCapabilities OR FlagRemoteCapabilities)) 1"
    using flags by (simp add: gate_simps)
  then have remote: "eg_remoteEpoch e0 \<noteq> 0" using ok by (simp add: gate_simps gate_def engine_ok_def control_ok_def ReadyFlags_def)
  show "triple (\<lambda>e. e = e0) (sendRequest env requestBaseProbe m 0 n) (\<lambda>_. engine_ok)" for m n
    using ok remote by (intro sendRequest_ok) (simp add: ready_def)
  have "engine_core e0" using ok remote by (auto simp: engine_core_def engine_ok_def split: option.splits)
  then show "triple (\<lambda>e. e = e0) (andThen (whenA (eg_pmtu e0 = None) (startPMTU env)) (\<lambda>_. andThen (clockNow env) (emitPMTUProbe env)))
      (\<lambda>_. engine_ok)"
    using ok by (intro triple_seq triple_whenA startPMTU_ok triple_clockNow triples) simp_all
qed (use assms in \<open>auto simp: ready_def intro!: triple_intros triples\<close>)

subsection \<open>Local exchanges\<close>

lemma sendCapabilitiesHello_ok [triples]: "(\<And>e. P e \<Longrightarrow> engine_ok e) \<Longrightarrow> triple P (sendCapabilitiesHello env) (\<lambda>_. engine_ok)"
  unfolding sendCapabilitiesHello_def by (intro triple_intros triples) (simp add: ready_def)

text \<open>
  \<open>renewed epoch e\<close>: the control state has begun the local exchange with that epoch, which the engine still has
  to adopt.
\<close>

definition renewed :: "u64 \<Rightarrow> Engine \<Rightarrow> bool" where
  "renewed epoch e \<longleftrightarrow>
     control_ok (eg_state e) \<and> eg_base e = st_MinCarrierPayload (ss_config (eg_state e)) \<and> epoch = ss_localEpoch (eg_state e) \<and>
     epoch \<noteq> 0 \<and> eg_remoteEpoch e = ss_remoteEpoch (eg_state e) \<and> \<not> gate (eg_state e) 6 \<and>
     (oq_kind (eg_outstanding e) = requestBaseProbe \<longrightarrow> eg_remoteEpoch e \<noteq> 0)"

lemma renewed_ok: "renewed (lx_ControlEpoch x) e \<Longrightarrow>
    engine_ok (e\<lparr>eg_pmtu := None, eg_pmtuHint := h, eg_started := True, eg_localEpoch := lx_ControlEpoch x, eg_localMessageID := i,
      eg_outstanding := no_request\<rparr>)"
  by (auto simp: renewed_def engine_ok_def no_request_def)

lemma begin_state:
  assumes "engine_ok e" and "BeginLocalExchange U (eg_state e) now w = (s, w', r)"
  shows "case r of Inl _ \<Rightarrow> engine_ok (e\<lparr>eg_state := s\<rparr>) | Inr x \<Rightarrow> renewed (lx_ControlEpoch x) (e\<lparr>eg_state := s\<rparr>)"
proof -
  have ok: "control_ok (eg_state e)" by (rule engine_ok_control [OF assms(1)])
  have s: "control_ok s" by (rule Begin_ok [OF ok assms(2)])
  from assms(2) control_ok_sets(2) [OF ok] show ?thesis
  proof (cases rule: Begin_outcome)
    case (failed err)
    then have "quiet_step (eg_state e) s" using s by (auto simp: quiet_step_def pruneRetired_def gate_def)
    then show ?thesis using failed(1) engine_ok_state [OF assms(1)] by simp
  next
    case (started epoch session x)
    then show ?thesis
      using s assms(1) by (auto simp: renewed_def begun_def pruneRetired_def engine_ok_def gate_def gate_simps)
  qed
qed

lemma state_begin_ok:
  assumes "\<And>e. P e \<Longrightarrow> engine_ok e"
  shows "triple P (state_begin env) (\<lambda>x. renewed (lx_ControlEpoch x))"
  unfolding triple_def
proof (intro allI impI)
  fix e w assume P: "P e"
  obtain w1 now where c: "ev_Now env w = (w1, now)" by (cases "ev_Now env w")
  obtain s w' r where b: "BeginLocalExchange (ev_Uint64 env) (eg_state e) now w1 = (s, w', r)"
    by (cases "BeginLocalExchange (ev_Uint64 env) (eg_state e) now w1")
  show "case state_begin env (e, w) of ((e', _), Inr x) \<Rightarrow> renewed (lx_ControlEpoch x) e' | ((e', _), Inl err) \<Rightarrow> engine_ok e' \<and> err \<noteq> eg_Panic"
    using begin_state [OF assms [OF P] b] by (cases r) (simp_all add: state_begin_def andThen_def clockNow_def c b)
qed

lemma beginLocalExchange_ok [triples]:
  assumes "\<And>e. P e \<Longrightarrow> engine_ok e"
  shows "triple P (Engine_beginLocalExchange env) (\<lambda>_. engine_ok)"
  unfolding Engine_beginLocalExchange_def
  by (rule triple_andThen [OF state_begin_ok [OF assms]]) (auto intro!: triple_intros triples renewed_ok)

lemma Start_ok [triples]: "(\<And>e. P e \<Longrightarrow> engine_ok e) \<Longrightarrow> triple P (Engine_Start env) (\<lambda>_. engine_ok)"
  unfolding Engine_Start_def by (intro triple_intros triples) simp_all

text \<open>The path gates are closed together with the search.\<close>

lemma closed_search_ok [simp]: "engine_ok e \<Longrightarrow> engine_ok (e\<lparr>eg_pmtu := None, eg_outstanding := no_request, eg_state := ResetPathGates (eg_state e)\<rparr>)"
  using quiet_steps(1) [of "eg_state e"]
  by (auto simp: engine_ok_def quiet_step_def no_request_def ResetPathGates_def gate_def gate_simps)

lemma closed_gates_ok [simp]: "engine_ok e \<Longrightarrow> engine_ok (e\<lparr>eg_outstanding := no_request, eg_state := ResetPathGates (eg_state e)\<rparr>)"
  using reset_gates_ok [of "e\<lparr>eg_outstanding := no_request\<rparr>"] by simp

lemma recoverFromBlackhole_ok [triples]:
  "(\<And>e. P e \<Longrightarrow> engine_ok e) \<Longrightarrow> triple P (recoverFromBlackhole env confirmedBefore) (\<lambda>_. engine_ok)"
  unfolding recoverFromBlackhole_def by (intro triple_intros triples) simp_all

text \<open>A method that is run with a flag lowered, and raised again also after an error.\<close>

lemma attempt_base:
  assumes "triple P m (\<lambda>_. engine_ok)" and "\<And>r. r \<noteq> Inl eg_Panic \<Longrightarrow> triple engine_ok (g r) (\<lambda>_. engine_ok)"
  shows "triple P (andThen (attempt m) (\<lambda>r. andThen (modE (\<lambda>e. e\<lparr>eg_baseError := b\<rparr>)) (\<lambda>_. g r))) (\<lambda>_. engine_ok)"
proof (rule triple_andThen [where R = "\<lambda>r e. engine_ok e \<and> r \<noteq> Inl eg_Panic"])
  show "triple P (attempt m) (\<lambda>r e. engine_ok e \<and> r \<noteq> Inl eg_Panic)"
    by (rule triple_attempt [OF triple_post [OF assms(1)]]) simp_all
  show "triple (\<lambda>e. engine_ok e \<and> r \<noteq> Inl eg_Panic) (andThen (modE (\<lambda>e. e\<lparr>eg_baseError := b\<rparr>)) (\<lambda>_. g r)) (\<lambda>_. engine_ok)" for r
  proof (cases "r = Inl eg_Panic")
    case False
    then show ?thesis by (intro triple_seq triple_modE assms(2)) simp_all
  qed (simp add: triple_def)
qed

subsection \<open>Time and transport failures\<close>

lemma tickBaseError_ok [triples]:
  assumes "\<And>e. P e \<Longrightarrow> engine_ok e"
  shows "triple P (tickBaseError env now) (\<lambda>_. engine_ok)"
  unfolding tickBaseError_def using assms
  by (intro triple_getE triple_if triple_ret triple_seq [OF triple_modE] attempt_base)
     (auto intro!: triple_intros triples)

lemma ResetRetry_ok [triples]: "(\<And>e. P e \<Longrightarrow> engine_ok e) \<Longrightarrow> triple P (ResetRetry env) (\<lambda>_. engine_ok)"
  unfolding ResetRetry_def by (intro triple_intros triples) simp_all

lemma drop_probe_ok [simp]: "engine_ok e \<Longrightarrow> engine_ok (drop_probe e)" "tracked e \<Longrightarrow> tracked (drop_probe e)"
  by (simp_all add: drop_probe_def tracked_def)

lemmas tracking = triple_getE triple_track triple_clockNow triple_if search_triples

lemma tick_search_ok [triples]:
  assumes "\<And>e. P e \<Longrightarrow> engine_ok e"
  shows "triple P (tick_search env now) (\<lambda>_. engine_ok)"
proof -
  have "triple (\<lambda>e. e = e0)
      (andThen (onPmtu (\<lambda>search. PmtuTick search now)) (\<lambda>ticked.
        if ticked then
          andThen (onPmtu (\<lambda>search. Some (TakeBlackhole search))) (\<lambda>blackhole.
          if blackhole then recoverFromBlackhole env confirmedBefore
          else andThen (modE drop_probe) (\<lambda>_. next_probe env confirmedBefore now))
        else if oq_initialized (eg_outstanding e0) then ret []
        else
          andThen (onPmtu (\<lambda>search. RefreshDue search now)) (\<lambda>refresh.
          if refresh then next_probe env confirmedBefore now
          else
            andThen (onPmtu (\<lambda>search. Some (ConfirmationDue search now))) (\<lambda>confirmation.
            if confirmation then next_probe env confirmedBefore now else ret [])))) (\<lambda>_. engine_ok)"
    if "tracked e0" for e0 confirmedBefore
    by (intro tracking triples triple_ret triple_modE) (simp_all add: that tracked_ok)
  then show ?thesis
    unfolding tick_search_def Let_def using assms
    by (intro triple_getE) (auto simp: tracked_def split: option.splits intro!: triple_ret)
qed

lemma Engine_Tick_ok [triples]: "(\<And>e. P e \<Longrightarrow> engine_ok e) \<Longrightarrow> triple P (Engine_Tick env now) (\<lambda>_. engine_ok)"
  unfolding Engine_Tick_def by (intro triple_intros triples) simp_all

text \<open>The common end of a lost probe.\<close>

lemma engine_lost_probe_ok:
  assumes "triple P m (\<lambda>_. tracked)"
  shows "triple P (andThen m (\<lambda>failed. if \<not> failed then ret [] else
     andThen (modE drop_probe) (\<lambda>_. andThen (onPmtu (\<lambda>search. Some (TakeBlackhole search))) (\<lambda>blackhole.
       if blackhole then recoverFromBlackhole env confirmedBefore else next_probe env confirmedBefore now)))) (\<lambda>_. engine_ok)"
  by (rule triple_track [OF assms]) (intro tracking triple_modE triples triple_ret; simp add: tracked_ok)

lemma soft_failure_ok: "(\<And>e. P e \<Longrightarrow> tracked e) \<Longrightarrow> triple P (soft_failure env now confirmedBefore) (\<lambda>_. engine_ok)"
  unfolding soft_failure_def by (intro engine_lost_probe_ok search_triples)

lemma ReportProbeFailure_ok [triples]:
  assumes "\<And>e. P e \<Longrightarrow> engine_ok e"
  shows "triple P (ReportProbeFailure env now) (\<lambda>_. engine_ok)"
  unfolding ReportProbeFailure_def Let_def using assms
  by (intro triple_getE triple_if) (auto simp: tracked_def split: option.splits intro!: triple_intros triples engine_lost_probe_ok search_triples)

lemma ReportBlackhole_ok [triples]:
  assumes "\<And>e. P e \<Longrightarrow> engine_ok e"
  shows "triple P (Engine_ReportBlackhole env now) (\<lambda>_. engine_ok)"
  unfolding Engine_ReportBlackhole_def Let_def using assms
  by (intro triple_getE)
     (auto simp: tracked_def split: option.splits intro!: triple_ret triple_track [OF search_triples(10)] triple_seq [OF triple_modE] next_probe_ok)

lemma ReportSendFailure_ok [triples]:
  assumes "\<And>e. P e \<Longrightarrow> engine_ok e"
  shows "triple P (ReportSendFailure env now wireSize) (\<lambda>_. engine_ok)"
  unfolding ReportSendFailure_def using assms
  by (intro triple_getE triple_if) (auto simp: tracked_def split: option.splits intro!: triple_intros triples soft_failure_ok)

lemma triple_quiet:
  assumes "\<And>e. P e \<Longrightarrow> engine_ok e" and "\<And>s s' a. control_ok s \<Longrightarrow> f s = (s', a) \<Longrightarrow> quiet_step s s'"
  shows "triple P (onState f) (\<lambda>_. engine_ok)"
  using assms by (intro triple_onState engine_ok_state) (auto simp: engine_ok_control)

lemma state_triples [triples]:
  assumes "\<And>e. P e \<Longrightarrow> engine_ok e"
  shows "triple P (onState (\<lambda>s. ObserveCapabilitiesAck s m r)) (\<lambda>_. engine_ok)"
    and "triple P (onState (\<lambda>s. ObserveResetSequence s now m)) (\<lambda>_. engine_ok)"
    and "triple P (onState (\<lambda>s. ObserveResetSequenceAck s m r)) (\<lambda>_. engine_ok)"
    and "triple P (onState (\<lambda>s. ObservePeerMTU s m)) (\<lambda>_. engine_ok)"
    and "triple P (onState (\<lambda>s. ObservePeerMTUAck s m r)) (\<lambda>_. engine_ok)"
    and "triple P (onState (\<lambda>s. ObservePong s m r q)) (\<lambda>_. engine_ok)"
    and "triple P (onState (\<lambda>s. CheckInboundDataSession s now x)) (\<lambda>_. engine_ok)"
    and "triple P (onState (\<lambda>s. ObserveStateSyncRequired s m)) (\<lambda>_. engine_ok)"
    and "triple P (onState (\<lambda>s. IsRemoteEpochRetired s now k)) (\<lambda>_. engine_ok)"
  by (rule triple_quiet, erule assms, erule (1) quiet_steps)+

lemma ReportUnknownDataSession_ok [triples]:
  assumes "\<And>e. P e \<Longrightarrow> engine_ok e"
  shows "triple P (ReportUnknownDataSession env sessionID) (\<lambda>_. engine_ok)"
  unfolding ReportUnknownDataSession_def using assms
  by (intro triple_getE triple_if triple_seq triple_clockNow state_triples)
     (auto split: prod.splits option.splits bool.splits intro!: triple_intros triples)

subsection \<open>Handlers\<close>

lemma require_ok [triples]:
  assumes "\<And>e. P e \<Longrightarrow> engine_ok e"
  shows "triple P (requireRemoteRequest m) (\<lambda>_. engine_ok)" and "triple P (requireResponse m k) (\<lambda>_. engine_ok)"
  unfolding requireRemoteRequest_def requireResponse_def using assms by (intro triple_intros; simp)+

lemma rearm_hello_ok [triples]: "(\<And>e. P e \<Longrightarrow> engine_ok e) \<Longrightarrow> triple P (rearm_hello env) (\<lambda>_. engine_ok)"
  unfolding rearm_hello_def Let_def by (intro triple_intros triples) simp_all

lemma hello_accepted_ok [triples]:
  "(\<And>e. P e \<Longrightarrow> engine_ok e) \<Longrightarrow> triple P (hello_accepted env previous epoch decision response) (\<lambda>_. engine_ok)"
  unfolding hello_accepted_def Let_def by (intro triple_intros triples) simp_all

text \<open>An accepted Hello and the adoption of its epoch by the engine.\<close>

lemma observed_hello:
  assumes "engine_ok e" and "ObserveCapabilitiesHello (eg_state e) now (Some message) = (s, d)"
  shows "if cd_Result d = RESULT_CODE_ACCEPTED then engine_ok (adopt_remote_epoch (ct_ControlEpoch message) (e\<lparr>eg_state := s\<rparr>))
         else engine_ok (e\<lparr>eg_state := s\<rparr>)"
proof -
  have ok: "control_ok (eg_state e)" by (rule engine_ok_control [OF assms(1)])
  have s: "control_ok s" by (rule control_ok_steps(3) [OF ok assms(2)])
  have epoch: "GetControlEpoch (Some message) = ct_ControlEpoch message" by (simp add: GetControlEpoch_def)
  from assms(2) control_ok_sets(3,1) [OF ok] show ?thesis
  proof (cases rule: hello_outcome)
    case refused
    then have "quiet_step (eg_state e) s" using s by (auto simp: quiet_step_def pruneRetired_def gate_def)
    then show ?thesis using refused(1) engine_ok_state [OF assms(1)] by simp
  next
    case (known hello start)
    then show ?thesis
      using s assms(1) epoch
      by (auto simp: engine_ok_def search_ok_def adopt_remote_epoch_def Let_def record_hello_def reconcileCapabilitiesAck_def pruneRetired_def
          gate_def gate_simps split: option.splits)
  next
    case (changed hello x y)
    have "ct_ControlEpoch message \<noteq> 0" using changed(2) epoch by (simp add: validRequest_def)
    then show ?thesis
      using s assms(1) epoch changed(1,5,6,10)
      by (auto simp: engine_ok_def search_ok_def adopt_remote_epoch_def Let_def record_hello_def reconcileCapabilitiesAck_def pruneRetired_def
          cleared_def gate_def gate_simps split: option.splits)
  qed
qed

lemma handleCapabilitiesHello_ok [triples]:
  assumes "\<And>e. P e \<Longrightarrow> engine_ok e"
  shows "triple P (handleCapabilitiesHello env message) (\<lambda>_. engine_ok)"
proof -
  let ?observed = "\<lambda>d e. if cd_Result d = RESULT_CODE_ACCEPTED then engine_ok (adopt_remote_epoch (ct_ControlEpoch message) e) else engine_ok e"
  have observe: "triple engine_ok (onState (\<lambda>s. ObserveCapabilitiesHello s now (Some message))) ?observed" for now
    by (rule triple_onState) (rule observed_hello)
  have adopt: "triple (?observed d) (whenA (cd_Result d = RESULT_CODE_ACCEPTED) (modE (adopt_remote_epoch (ct_ControlEpoch message)))) (\<lambda>_. engine_ok)" for d
    by (intro triple_whenA triple_modE) simp_all
  show ?thesis
    unfolding handleCapabilitiesHello_def using assms
    by (intro triple_getE triple_if triple_raise triple_seq [OF triple_clockNow] triple_andThen [OF observe] triple_andThen [OF adopt])
       (auto intro!: triple_intros triples)
qed

lemma handleCapabilitiesAck_ok [triples]:
  "(\<And>e. P e \<Longrightarrow> engine_ok e) \<Longrightarrow> triple P (handleCapabilitiesAck env message ack) (\<lambda>_. engine_ok)"
  unfolding handleCapabilitiesAck_def by (intro triple_intros triples) simp_all

lemma handleReset_ok [triples]: "(\<And>e. P e \<Longrightarrow> engine_ok e) \<Longrightarrow> triple P (handleReset env message reset) (\<lambda>_. engine_ok)"
  unfolding handleReset_def Let_def by (intro triple_intros triples) simp_all

lemma restarted_state:
  assumes "engine_ok e" and "RestartLocalExchange U (eg_state e) now now' w = (s, w', retry, err)"
  shows "case (case err of Some ErrLocalExchangeBackoff \<Rightarrow> None | Some x \<Rightarrow> Some (Inl x) | None \<Rightarrow> map_option (\<lambda>r. Inr (lr_LocalExchange r)) retry) of
      Some (Inr x) \<Rightarrow> renewed (lx_ControlEpoch x) (e\<lparr>eg_state := s\<rparr>) | _ \<Rightarrow> engine_ok (e\<lparr>eg_state := s\<rparr>)"
proof (cases "\<not> IsZero (ss_localExchangeRetryAt (eg_state e)) \<and> now < ss_localExchangeRetryAt (eg_state e)")
  case True
  then show ?thesis using assms by (auto simp: RestartLocalExchange_def)
next
  case False
  obtain s1 w1 r where b: "BeginLocalExchange U (eg_state e) now' w = (s1, w1, r)" by (cases "BeginLocalExchange U (eg_state e) now' w")
  have s: "control_ok s" by (rule Restart_ok [OF engine_ok_control [OF assms(1)] assms(2)])
  show ?thesis
    using begin_state [OF assms(1) b] assms(2) b False s
    by (auto simp: RestartLocalExchange_def renewed_def gate_def split: sum.splits prod.splits option.splits control_state_error.splits)
qed

lemma state_restart_ok:
  assumes "\<And>e. P e \<Longrightarrow> engine_ok e"
  shows "triple P (state_restart env) (\<lambda>r e. case r of Some (Inr x) \<Rightarrow> renewed (lx_ControlEpoch x) e | _ \<Rightarrow> engine_ok e)"
  unfolding triple_def
proof (intro allI impI)
  fix e w assume P: "P e"
  obtain w1 now where c: "ev_Now env w = (w1, now)" by (cases "ev_Now env w")
  obtain w2 now' where c': "ev_Now env w1 = (w2, now')" by (cases "ev_Now env w1")
  obtain s w' retry err where b: "RestartLocalExchange (ev_Uint64 env) (eg_state e) now now' w2 = (s, w', retry, err)"
    by (cases "RestartLocalExchange (ev_Uint64 env) (eg_state e) now now' w2")
  show "case state_restart env (e, w) of
      ((e', _), Inr r) \<Rightarrow> (case r of Some (Inr x) \<Rightarrow> renewed (lx_ControlEpoch x) e' | _ \<Rightarrow> engine_ok e')
    | ((e', _), Inl err) \<Rightarrow> engine_ok e' \<and> err \<noteq> eg_Panic"
    using restarted_state [OF assms [OF P] b] by (simp add: state_restart_def andThen_def clockNow_def c c' b)
qed

lemma restarted_ok: "renewed (lx_ControlEpoch x) e \<Longrightarrow> eg_started e \<Longrightarrow>
    engine_ok (e\<lparr>eg_pmtu := None, eg_localEpoch := lx_ControlEpoch x, eg_localMessageID := i\<rparr>)"
  by (auto simp: renewed_def engine_ok_def)

text \<open>A collision answers a request, so the engine has been started.\<close>

lemma framed_started: "triple (\<lambda>e. engine_ok e \<and> eg_started e) (state_restart env)
    (\<lambda>r e. (case r of Some (Inr x) \<Rightarrow> renewed (lx_ControlEpoch x) e | _ \<Rightarrow> engine_ok e) \<and> eg_started e)"
proof -
  have "triple (\<lambda>e. engine_ok e \<and> eg_started e) (state_restart env) (\<lambda>_. eg_started)"
    by (auto simp: triple_def state_restart_def andThen_def clockNow_def split: prod.splits)
  then show ?thesis
    using state_restart_ok [of "\<lambda>e. engine_ok e \<and> eg_started e" env] unfolding triple_def
    by (simp split: prod.splits sum.splits) blast
qed

lemma restartAfterResetCollision_ok:
  assumes "\<And>e. P e \<Longrightarrow> engine_ok e \<and> eg_started e"
  shows "triple P (restartAfterResetCollision env) (\<lambda>_. engine_ok)"
  unfolding restartAfterResetCollision_def
  by (rule triple_pre [OF _ assms], rule triple_andThen [OF framed_started])
     (auto split: option.splits sum.splits intro!: triple_intros restarted_ok)

lemma handleResetAck_ok [triples]:
  assumes "\<And>e. P e \<Longrightarrow> engine_ok e"
  shows "triple P (handleResetAck env message ack) (\<lambda>_. engine_ok)"
proof -
  have require: "triple P (requireResponse message requestReset) (\<lambda>_ e. engine_ok e \<and> eg_started e)"
    unfolding requireResponse_def using assms by (intro triple_getE triple_if triple_raise triple_ret) simp_all
  have observe: "triple (\<lambda>e. e = e0) (onState (\<lambda>s. ObserveResetSequenceAck s m r)) (\<lambda>_ e. engine_ok e \<and> eg_started e)"
    if "engine_ok e0 \<and> eg_started e0" for e0 m r
    using that by (intro triple_onState) (auto intro: engine_ok_state quiet_steps(4) [OF engine_ok_control])
  show ?thesis
    unfolding handleResetAck_def
    apply (rule triple_andThen [OF require])
    apply (intro triple_if triple_seq [OF triple_modE] triple_getE triple_ret)
       apply (simp_all add: assms)
    apply (rule triple_andThen [OF observe], assumption)
    apply (rule triple_if)
     apply (rule triple_andThen [where R = "\<lambda>_ e. engine_ok e \<and> eg_started e"])
      apply (rule triple_modE, simp)
     apply (rule restartAfterResetCollision_ok, simp)
    apply (intro triple_intros triples)
       apply simp_all
    done
qed

lemma peer_mtu_handlers_ok [triples]:
  assumes "\<And>e. P e \<Longrightarrow> engine_ok e"
  shows "triple P (handlePeerMTU env message peer) (\<lambda>_. engine_ok)" and "triple P (handlePeerMTUAck env message ack) (\<lambda>_. engine_ok)"
  unfolding handlePeerMTU_def handlePeerMTUAck_def using assms by (intro triple_intros triples; simp)+

lemma handlePing_ok [triples]: "(\<And>e. P e \<Longrightarrow> engine_ok e) \<Longrightarrow> triple P (handlePing env message ping) (\<lambda>_. engine_ok)"
  unfolding handlePing_def by (intro triple_intros triples) simp_all

lemma observed_rtt_ok:
  assumes "engine_ok e"
  shows "engine_ok (e\<lparr>eg_srtt := d, eg_pmtu := map_option (\<lambda>search. ObserveRTT search sample) (eg_pmtu e)\<rparr>)"
proof (cases "eg_pmtu e")
  case None
  then show ?thesis using assms by (auto simp: engine_ok_def)
next
  case (Some search)
  have "engine_ok (e\<lparr>eg_pmtu := Some (ObserveRTT search sample)\<rparr>)"
    by (rule engine_ok_search [OF assms Some, of "PObserveRTT sample"]) simp
  then show ?thesis using Some by (auto simp: engine_ok_def search_ok_def)
qed

lemma observeRTT_ok [triples]: "(\<And>e. P e \<Longrightarrow> engine_ok e) \<Longrightarrow> triple P (observeRTT env) (\<lambda>_. engine_ok)"
  unfolding observeRTT_def Let_def by (intro triple_intros triples) (simp_all add: observed_rtt_ok)

lemma handlePong_ok [triples]:
  assumes "\<And>e. P e \<Longrightarrow> engine_ok e"
  shows "triple P (handlePong env message) (\<lambda>_. engine_ok)"
  unfolding handlePong_def
  by (intro triple_getE triple_if triple_raise triple_seq [OF require_ok(2)] triple_seq [OF state_triples(6)] triple_seq [OF observeRTT_ok]
      triple_seq [OF triple_modE] attempt_base triple_result progress_ok)
     (simp_all add: assms)

lemma handleMtuProbe_ok [triples]: "(\<And>e. P e \<Longrightarrow> engine_ok e) \<Longrightarrow> triple P (handleMtuProbe env message n) (\<lambda>_. engine_ok)"
  unfolding handleMtuProbe_def by (intro triple_intros triples) simp_all

lemma base_acknowledged_ok:
  assumes "\<And>e. P e \<Longrightarrow> engine_ok e \<and> oq_kind (eg_outstanding e) = requestBaseProbe"
  shows "triple P (base_acknowledged env message confirmedBefore) (\<lambda>_. engine_ok)"
proof -
  have observe: "triple (\<lambda>e. e = e0) (onState (\<lambda>s. ObserveBaseProbeAck s m r))
      (\<lambda>result e. if result = RESULT_CODE_ACCEPTED then engine_core e else engine_ok e)" if "P e0" for e0 m r
  proof (rule triple_onState)
    fix e s a assume *: "e = e0" "ObserveBaseProbeAck (eg_state e) m r = (s, a)"
    have "control_ok s" using control_ok_steps(10) [OF engine_ok_control, of e m r s a] assms [OF that] * by simp
    then show "if a = RESULT_CODE_ACCEPTED then engine_core (e\<lparr>eg_state := s\<rparr>) else engine_ok (e\<lparr>eg_state := s\<rparr>)"
      using * assms [OF that]
      by (auto simp: ObserveBaseProbeAck_def engine_core_def engine_ok_def search_ok_def split: option.splits if_splits)
  qed
  have clear: "triple engine_core (modE (\<lambda>e. e\<lparr>eg_outstanding := no_request\<rparr>)) (\<lambda>_. engine_core)"
    by (rule triple_modE) (auto simp: engine_core_def search_ok_def no_request_def split: option.splits)
  have rest: "triple engine_core (andThen (modE (\<lambda>e. e\<lparr>eg_outstanding := no_request\<rparr>)) (\<lambda>_.
       andThen (startPMTU env) (\<lambda>_.
       andThen (modE clearBaseError) (\<lambda>_.
       andThen (emitConfirmedChange env confirmedBefore) (\<lambda>_.
       andThen (clockNow env) (\<lambda>now. emitPMTUProbe env now)))))) (\<lambda>_. engine_ok)"
    by (intro triple_andThen [OF clear] triple_seq [OF startPMTU_ok] triple_intros triples) simp_all
  show ?thesis
    unfolding base_acknowledged_def
    by (intro triple_getE triple_andThen [OF observe] triple_if triple_raise triple_pre [OF rest]) simp_all
qed

lemma probe_acknowledged_ok:
  assumes "\<And>e. P e \<Longrightarrow> engine_ok e"
  shows "triple P (probe_acknowledged env n confirmedBefore) (\<lambda>_. engine_ok)"
  unfolding probe_acknowledged_def
  by (intro triple_getE triple_if triple_raise triple_track [OF triple_clockNow] triple_track [OF search_triples(7)] triple_seq [OF triple_modE]
      triple_seq [OF emitConfirmedChange_ok] triple_seq [OF triple_clockNow] triples)
     (auto simp: tracked_def dest: assms)

lemma handleMtuProbeAck_ok [triples]:
  assumes "\<And>e. P e \<Longrightarrow> engine_ok e"
  shows "triple P (handleMtuProbeAck env message ack) (\<lambda>_. engine_ok)"
proof -
  have require: "triple (\<lambda>e. e = e0) (requireResponse message k) (\<lambda>_ e. e = e0)" if "P e0" for e0 k
    unfolding requireResponse_def using assms [OF that] by (intro triple_getE triple_if triple_raise triple_ret) simp_all
  show ?thesis
    unfolding handleMtuProbeAck_def Let_def
    by (intro triple_getE triple_if triple_raise triple_ret triple_andThen [OF require] base_acknowledged_ok probe_acknowledged_ok)
       (use assms in auto)
qed

lemma handleStateSyncRequired_ok [triples]:
  "(\<And>e. P e \<Longrightarrow> engine_ok e) \<Longrightarrow> triple P (handleStateSyncRequired env message) (\<lambda>_. engine_ok)"
  unfolding handleStateSyncRequired_def by (intro triple_intros triples) simp_all

lemma dispatch_ok [triples]:
  assumes "\<And>e. P e \<Longrightarrow> engine_ok e"
  shows "triple P (dispatch env message n) (\<lambda>_. engine_ok)"
  unfolding dispatch_def using assms by (auto split: option.splits control_body.splits intro!: triple_raise triples)

lemma storeResetReplay_ok [simp]: "engine_ok (storeResetReplay key frame e) = engine_ok e"
  by (simp add: storeResetReplay_def)

lemma handle_message_ok [triples]:
  assumes "\<And>e. P e \<Longrightarrow> engine_ok e"
  shows "triple P (handle_message env message n) (\<lambda>_. engine_ok)"
  unfolding handle_message_def using assms
  by (intro triple_getE triple_if) (auto split: option.splits intro!: triple_intros triples)

lemma HandleInbound_ok [triples]:
  assumes "\<And>e. P e \<Longrightarrow> engine_ok e"
  shows "triple P (HandleInbound env frame) (\<lambda>_. engine_ok)"
  unfolding HandleInbound_def using assms
  by (intro triple_getE) (auto split: sum.splits option.splits intro!: triple_intros triples)

end
