(* ===== verification/EngineRun.thy ===== *)
theory EngineRun
  imports EngineInv
begin

text \<open>
  Runs of the control engine: sequences of calls of its exported methods in any order.  They keep the invariant, the
  configuration and the codec, and only the answer to a new \<^verbatim>\<open>ResetSequence\<close> changes the replay cache, which
  holds each answer for 31 further calls.
\<close>

unbundle bit_operations_syntax

datatype engine_op =
    DoStart
  | DoTick gotime
  | DoInbound bytes
  | DoProbeFailure gotime
  | DoBlackhole gotime
  | DoSendFailure gotime int
  | DoUnknownSession u16
  | DoResetRetry

fun engine_exec :: "('w, 'x) EngineEnv \<Rightarrow> engine_op \<Rightarrow> ('w, 'x, Outbound list) act" where
  "engine_exec env DoStart = Engine_Start env"
| "engine_exec env (DoTick now) = Engine_Tick env now"
| "engine_exec env (DoInbound frame) = HandleInbound env frame"
| "engine_exec env (DoProbeFailure now) = ReportProbeFailure env now"
| "engine_exec env (DoBlackhole now) = Engine_ReportBlackhole env now"
| "engine_exec env (DoSendFailure now wireSize) = ReportSendFailure env now wireSize"
| "engine_exec env (DoUnknownSession sessionID) = ReportUnknownDataSession env sessionID"
| "engine_exec env DoResetRetry = ResetRetry env"

primrec engine_run ::
    "('w, 'x) EngineEnv \<Rightarrow> Engine \<times> 'w \<Rightarrow> engine_op list \<Rightarrow> (Engine \<times> 'w) \<times> ('x engine_error + Outbound list) list" where
  "engine_run env p [] = (p, [])"
| "engine_run env p (op # ops) =
     (case engine_exec env op p of (q, r) \<Rightarrow> (case engine_run env q ops of (q', rs) \<Rightarrow> (q', r # rs)))"

subsection \<open>The invariant along runs\<close>

lemma engine_exec_ok: "triple engine_ok (engine_exec env op) (\<lambda>_. engine_ok)"
  by (cases op) (simp_all add: triples)

lemma exec_step: "engine_ok (fst p) \<Longrightarrow> engine_exec env op p = (q, r) \<Longrightarrow> engine_ok (fst q) \<and> r \<noteq> Inl eg_Panic"
  using engine_exec_ok [of env op, unfolded triple_def, rule_format, of "fst p" "snd p"] by (cases r) auto

lemma engine_run_ok:
  "engine_ok (fst p) \<Longrightarrow> engine_run env p ops = (q, rs) \<Longrightarrow> engine_ok (fst q) \<and> Inl eg_Panic \<notin> set rs"
proof (induction ops arbitrary: p rs)
  case (Cons op ops)
  obtain p1 r where x: "engine_exec env op p = (p1, r)" by (cases "engine_exec env op p")
  obtain rs' where y: "engine_run env p1 ops = (q, rs')" "rs = r # rs'" using Cons.prems(2) x by (auto split: prod.splits)
  show ?case using Cons.IH [OF _ y(1)] exec_step [OF Cons.prems(1) x] y(2) by auto
qed simp

lemma NewEngine_ok:
  assumes "(NewEngine c :: 'x engine_error + Engine) = Inr e"
  shows "engine_ok e" and "ss_config (eg_state e) = c"
proof -
  obtain s where s: "(NewState c :: 'x control_state_error + State) = Inr s" "eg_state e = s"
    using assms by (auto simp: NewEngine_def split: sum.splits)
  have ok: "control_ok s" "ss_config s = c" using new_control_ok [OF s(1)] by simp_all
  have "\<not> gate s 6" "ss_localEpoch s = 0" "ss_remoteEpoch s = 0"
    using s(1) by (auto simp: NewState_def gate_def split: if_splits)
  moreover have "eg_base e = st_MinCarrierPayload c \<and> eg_pmtu e = None \<and> \<not> eg_started e \<and> eg_localEpoch e = 0 \<and> eg_remoteEpoch e = 0 \<and>
      oq_kind (eg_outstanding e) = requestNone"
    using assms by (auto simp: NewEngine_def no_request_def split: sum.splits)
  ultimately show "engine_ok e" using s(2) ok by (simp add: engine_ok_def)
  show "ss_config (eg_state e) = c" using s ok by simp
qed

text \<open>
  The configuration and the codec never change, and only the answer to a new \<^verbatim>\<open>ResetSequence\<close> changes the replay
  cache.
\<close>

definition fixed_view :: "Engine \<Rightarrow> StateConfig \<times> Codec \<times> resetReplayEntry list \<times> nat" where
  "fixed_view e = (ss_config (eg_state e), eg_codec e, eg_resetReplay e, eg_resetReplayNext e)"

lemma step_config [simp]:
  "ss_config (ResetPathGates s) = ss_config s" "ss_config (pruneRetired s now) = ss_config s"
  "ss_config (reconcileCapabilitiesAck s) = ss_config s" "ss_config (fst (retainRetired s x t)) = ss_config s"
  "ss_config (fst (retainLocal s x t)) = ss_config s" "ss_config (fst (record_hello s epoch hello d b)) = ss_config s"
  by (simp_all add: ResetPathGates_def pruneRetired_def reconcileCapabilitiesAck_def retainRetired_def retainLocal_def record_hello_def Let_def
      split: prod.splits)

lemma clear_config [simp]: "ss_config (fst (clearRemoteEpoch s now)) = ss_config s"
  by (auto simp: clearRemoteEpoch_def retainRetired_def split: prod.splits bool.splits)

lemma begin_config: "BeginLocalExchange U s now w = (s', w', r) \<Longrightarrow> ss_config s' = ss_config s"
  by (auto simp: BeginLocalExchange_def retainLocal_def Let_def split: prod.splits bool.splits sum.splits if_splits)

lemma restart_config: "RestartLocalExchange U s now now' w = (s', w', r, err) \<Longrightarrow> ss_config s' = ss_config s"
  by (auto simp: RestartLocalExchange_def split: prod.splits sum.splits if_splits dest: begin_config)

lemma hello_config [simp]: "ss_config (fst (ObserveCapabilitiesHello s now m)) = ss_config s"
  using clear_config [of "pruneRetired s now" now]
  by (auto simp del: clear_config simp: ObserveCapabilitiesHello_def Let_def split: prod.splits bool.splits)

lemma observe_config [simp]:
  "ss_config (fst (ObserveCapabilitiesAck s m r)) = ss_config s"
  "ss_config (fst (ObserveResetSequence s now m)) = ss_config s" "ss_config (fst (ObserveResetSequenceAck s m r)) = ss_config s"
  "ss_config (fst (ObservePeerMTU s m)) = ss_config s" "ss_config (fst (ObservePeerMTUAck s m r)) = ss_config s"
  "ss_config (fst (ObservePong s m r q)) = ss_config s" "ss_config (fst (ObserveBaseProbeAck s m r)) = ss_config s"
  "ss_config (fst (CheckInboundDataSession s now x)) = ss_config s" "ss_config (fst (ObserveStateSyncRequired s m)) = ss_config s"
  "ss_config (fst (IsRemoteEpochRetired s now k)) = ss_config s"
  by (simp_all add: ObserveCapabilitiesAck_def ObserveResetSequence_def ObserveResetSequenceAck_def ObservePeerMTU_def ObservePeerMTUAck_def
      ObservePong_def ObserveBaseProbeAck_def CheckInboundDataSession_def ObserveStateSyncRequired_def IsRemoteEpochRetired_def Let_def
      split: option.splits)

named_theorems frames

lemma framed_state [frames]: "(\<And>s. ss_config (fst (f s)) = ss_config s) \<Longrightarrow> framed fixed_view (onState f)"
  by (auto simp: framed_def onState_def fixed_view_def split: prod.splits) (metis fst_conv)

lemma framed_attempt [frames]: "framed view m \<Longrightarrow> framed view (attempt m)"
  by (auto simp: framed_def attempt_def split: prod.splits) (metis fst_conv)

lemma framed_notify [frames]: "framed view (notify env n)"
  by (auto simp: framed_def notify_def split: option.splits)

text \<open>
  The methods that run the search write the search, the outstanding request, its number and the hint only; every
  view that does not read these is left alone.
\<close>

locale search_frame =
  fixes view :: "Engine \<Rightarrow> 'v"
  assumes pmtu: "view (e\<lparr>eg_pmtu := x\<rparr>) = view e"
    and hint: "view (e\<lparr>eg_pmtuHint := h\<rparr>) = view e"
    and outstanding: "view (e\<lparr>eg_outstanding := q\<rparr>) = view e"
    and number: "view (e\<lparr>eg_localMessageID := i\<rparr>) = view e"
begin

lemma framed_pmtu [frames]: "framed view (onPmtu f)"
  by (auto simp: framed_def onPmtu_def pmtu split: prod.splits option.splits)

lemma framed_send [frames]: "framed view (sendRequest env k m ping n)"
  by (rule framed_sendRequest) (simp_all add: number outstanding)

lemma framed_change [frames]: "framed view (emitConfirmedChange env n)"
  unfolding emitConfirmedChange_def by (auto split: option.splits intro!: framed_rules framed_notify)

lemma framed_start [frames]: "framed view (start_search env search)"
  unfolding start_search_def Let_def
  by (intro framed_rules framed_pmtu) (simp add: pmtu hint)

lemma framed_startPMTU [frames]: "framed view (startPMTU env)"
  unfolding startPMTU_def Let_def by (auto split: sum.splits intro!: framed_rules framed_start)

lemma framed_abort [frames]: "framed view (abortPMTUProbe env)"
  unfolding abortPMTUProbe_def by (intro framed_rules framed_pmtu) (simp add: outstanding)

lemma framed_probe [frames]: "framed view (sendPMTUProbe env probe)"
  unfolding sendPMTUProbe_def Let_def by (intro framed_rules framed_send framed_abort framed_pmtu) (simp add: outstanding)

lemma framed_emit [frames]: "framed view (emitPMTUProbe env now)"
  unfolding emitPMTUProbe_def by (auto split: option.splits intro!: framed_rules framed_pmtu framed_probe)

lemma framed_next [frames]: "framed view (next_probe env n now)"
  unfolding next_probe_def by (intro framed_rules framed_change framed_emit)

end

definition path_view :: "Engine \<Rightarrow> State \<times> bool" where
  "path_view e = (eg_state e, eg_terminalError e)"

interpretation fixed: search_frame fixed_view
  by unfold_locales (simp_all add: fixed_view_def)

interpretation path: search_frame path_view
  by unfold_locales (simp_all add: path_view_def)

lemma framed_begin [frames]: "framed fixed_view (state_begin env)" "framed fixed_view (state_restart env)"
  by (auto simp: framed_def state_begin_def state_restart_def andThen_def clockNow_def fixed_view_def dest: begin_config restart_config
      split: prod.splits sum.splits)

lemma framed_response [frames]: "framed fixed_view (sendResponse env m)"
  unfolding sendResponse_def by (intro framed_rules) (simp add: fixed_view_def)

lemma framed_retry [frames]:
  "framed view (retryDelay env n)" "framed view (retryDelayForOutstanding env now n)" "framed fixed_view (retryOutstanding env now)"
  unfolding retryDelay_def retryDelayForOutstanding_def retryOutstanding_def Let_def
  by (intro framed_rules; simp add: fixed_view_def)+

lemma fixed_changes [simp]:
  "fixed_view (enterTerminalError reason e) = fixed_view e" "fixed_view (clearTerminalError e) = fixed_view e"
  "fixed_view (clearBaseError e) = fixed_view e" "fixed_view (drop_probe e) = fixed_view e" "fixed_view (adopt_remote_epoch k e) = fixed_view e"
  by (simp_all add: fixed_view_def enterTerminalError_def clearTerminalError_def clearBaseError_def drop_probe_def adopt_remote_epoch_def Let_def)

lemmas fixed_parts = fixed_view_def fixed_changes [unfolded fixed_view_def prod.inject]

lemma framed_errors [frames]:
  "framed fixed_view (enterBaseError env)" "framed fixed_view (scheduleBaseRetry env now)"
  unfolding enterBaseError_def scheduleBaseRetry_def by (auto simp: fixed_parts intro!: framed_rules frames)

lemma framed_progress [frames]: "framed fixed_view (progress env)"
  unfolding progress_def Let_def by (intro framed_rules frames) (simp_all add: fixed_parts)

lemma framed_exchange [frames]: "framed fixed_view (sendCapabilitiesHello env)" "framed fixed_view (Engine_beginLocalExchange env)"
proof -
  show hello: "framed fixed_view (sendCapabilitiesHello env)"
    unfolding sendCapabilitiesHello_def by (intro framed_rules frames)
  show "framed fixed_view (Engine_beginLocalExchange env)"
    unfolding Engine_beginLocalExchange_def by (intro framed_rules frames hello) (simp add: fixed_parts)
qed

lemma framed_recovery [frames]: "framed fixed_view (recoverFromBlackhole env confirmedBefore)" "framed fixed_view (tickBaseError env now)"
  unfolding recoverFromBlackhole_def tickBaseError_def by (intro framed_rules frames; simp add: fixed_parts)+

lemma framed_tick_search [frames]: "framed fixed_view (tick_search env now)"
  unfolding tick_search_def Let_def by (auto split: option.splits intro!: framed_rules frames)

lemma framed_failures [frames]:
  "framed fixed_view (ReportProbeFailure env now)" "framed fixed_view (Engine_ReportBlackhole env now)"
  "framed fixed_view (soft_failure env now confirmedBefore)"
  unfolding ReportProbeFailure_def Engine_ReportBlackhole_def soft_failure_def Let_def
  by (auto simp: fixed_parts split: option.splits intro!: framed_rules frames)

lemma framed_require [frames]: "framed view (requireRemoteRequest m)" "framed view (requireResponse m k)"
  unfolding requireRemoteRequest_def requireResponse_def by (intro framed_rules)+

lemma framed_answer [frames]: "framed fixed_view (answer env m b)"
  unfolding answer_def by (intro frames)

lemma framed_hello [frames]: "framed fixed_view (handleCapabilitiesHello env m)"
proof -
  have rearm: "framed fixed_view (rearm_hello env)"
    unfolding rearm_hello_def Let_def by (intro framed_rules frames) (simp add: fixed_parts)
  have "framed fixed_view (hello_accepted env previous epoch decision response)" for previous epoch decision response
    unfolding hello_accepted_def Let_def by (intro framed_rules frames rearm) simp
  then show ?thesis
    unfolding handleCapabilitiesHello_def by (intro framed_rules frames) simp_all
qed

lemma framed_reset_ack [frames]: "framed fixed_view (handleResetAck env m ack)"
proof -
  have "framed fixed_view (restartAfterResetCollision env)"
    unfolding restartAfterResetCollision_def
    by (auto simp: fixed_parts split: option.splits sum.splits intro!: framed_rules frames)
  then show ?thesis
    unfolding handleResetAck_def by (intro framed_rules frames) (simp_all add: fixed_parts)
qed

lemma framed_handlers [frames]:
  "framed fixed_view (handleCapabilitiesAck env m c)" "framed fixed_view (handleReset env m r)" "framed fixed_view (handlePeerMTU env m p)"
  "framed fixed_view (handlePeerMTUAck env m pa)" "framed fixed_view (handlePing env m q)" "framed fixed_view (handlePong env m)"
  "framed fixed_view (handleMtuProbe env m n)" "framed fixed_view (handleStateSyncRequired env m)"
  unfolding handleCapabilitiesAck_def handleReset_def handlePeerMTU_def handlePeerMTUAck_def handlePing_def handlePong_def observeRTT_def
    handleMtuProbe_def handleStateSyncRequired_def Let_def
  by (intro framed_rules frames; simp add: fixed_parts)+

lemma framed_probe_ack [frames]: "framed fixed_view (handleMtuProbeAck env m a)"
  unfolding handleMtuProbeAck_def base_acknowledged_def probe_acknowledged_def Let_def
  by (intro framed_rules frames) (simp_all add: fixed_parts)

lemma framed_dispatch [frames]: "framed fixed_view (dispatch env m n)"
  unfolding dispatch_def by (auto split: option.splits control_body.splits intro!: framed_rules frames)

lemma framed_methods:
  "framed fixed_view (Engine_Start env)" "framed fixed_view (Engine_Tick env now)" "framed fixed_view (ReportSendFailure env now z)"
  "framed fixed_view (ReportUnknownDataSession env x)" "framed fixed_view (ResetRetry env)"
  unfolding Engine_Start_def Engine_Tick_def ReportSendFailure_def ReportUnknownDataSession_def ResetRetry_def
  by (auto simp: fixed_parts split: option.splits prod.splits bool.splits intro!: framed_rules frames)

subsection \<open>The replay cache\<close>

text \<open>The message of a frame.\<close>

definition decoded :: "('w, 'x) EngineEnv \<Rightarrow> Engine \<Rightarrow> bytes \<Rightarrow> Control option" where
  "decoded env e frame = (case Codec_Parse (eg_codec e) frame of Inl _ \<Rightarrow> None | Inr payload \<Rightarrow> ev_Unmarshal env payload)"

definition acceptable :: "Control \<Rightarrow> bool" where
  "acceptable m \<longleftrightarrow> ct_MessageId m \<noteq> 0 \<and> ct_ControlEpoch m \<noteq> 0 \<and> ct_Body m \<noteq> None \<and> (GetMtuProbe (Some m) \<noteq> None \<or> length (GetPadding (Some m)) = 0)"

text \<open>A step that is framed, or that stores the answer to a new request.\<close>

definition stores :: "Engine \<Rightarrow> Engine \<Rightarrow> bool" where
  "stores e e' \<longleftrightarrow> fixed_view e' = fixed_view e \<or>
     (\<exists>key frame. lookupResetReplay e key = None \<and> fixed_view e' = fixed_view (storeResetReplay key frame e))"

lemma framedD: "framed view m \<Longrightarrow> m p = (q, r) \<Longrightarrow> view (fst q) = view (fst p)"
  by (metis framed_def fst_conv)

lemma store_cong: "fixed_view e = fixed_view e' \<Longrightarrow> fixed_view (storeResetReplay key frame e) = fixed_view (storeResetReplay key frame e')"
  by (simp add: fixed_view_def storeResetReplay_def lookupResetReplay_def)

lemma lookup_cong: "fixed_view e = fixed_view e' \<Longrightarrow> lookupResetReplay e key = lookupResetReplay e' key"
  by (simp add: fixed_view_def lookupResetReplay_def)

text \<open>A reset is answered only in the epoch of the peer.\<close>

lemma reset_body: "resetReplayKeyFor m = Some key \<longleftrightarrow>
    key = \<lparr>yk_epoch = ct_ControlEpoch m, yk_message = ct_MessageId m, yk_kind = requestReset\<rparr> \<and> (\<exists>r. ct_Body m = Some (BodyResetSequence r))"
  by (auto simp: resetReplayKeyFor_def GetResetSequence_def GetBody_def split: option.splits control_body.splits)

lemma reset_answered:
  assumes "dispatch env m n (e, w) = (q, Inr out)" and "resetReplayKeyFor m = Some key"
  shows "ct_ReplyTo m = 0 \<and> eg_remoteEpoch e \<noteq> 0 \<and> yk_epoch key = eg_remoteEpoch e"
  using assms
  by (auto simp: reset_body dispatch_def handleReset_def requireRemoteRequest_def andThen_def getE_def raise_def ret_def split: if_splits)

lemma marshal_nonempty: "marshal env e m n = Inr frame \<Longrightarrow> frame \<noteq> []"
  by (auto simp: marshal_def Codec_MarshalTo_Inr control_frame_def split: sum.splits option.splits)

lemma reset_answer_one:
  assumes "dispatch env m n (e, w) = (q, Inr out)" and "resetReplayKeyFor m = Some key"
  shows "\<exists>frame. out = [frame] \<and> frame \<noteq> [] \<and> eg_remoteEpoch (fst q) = eg_remoteEpoch e"
proof -
  obtain r where r: "dispatch env m n = handleReset env m r" using assms(2) by (auto simp: reset_body dispatch_def)
  obtain w1 now where c: "ev_Now env w = (w1, now)" by (cases "ev_Now env w")
  obtain s d where s: "ObserveResetSequence (eg_state e) now (Some m) = (s, d)" by (cases "ObserveResetSequence (eg_state e) now (Some m)")
  show ?thesis
    using assms(1) unfolding r handleReset_def requireRemoteRequest_def answer_def sendResponse_def Let_def
    by (auto simp: andThen_def getE_def raise_def ret_def outcome_def modE_def clockNow_def onState_def c s dest: marshal_nonempty
        simp del: not_None_eq split: if_split_asm sum.splits)
qed

lemma handle_message_stores:
  assumes "handle_message env m n (e, w) = (q, r)"
  shows "stores e (fst q)"
proof (cases "\<exists>key. resetReplayKeyFor m = Some key \<and> \<not> (eg_baseError e \<and> oq_initialized (eg_outstanding e) \<and> \<not> allowDuringBaseRecovery e m)")
  case False
  then have "q = (e, w) \<or> dispatch env m n (e, w) = (q, r)"
    using assms by (auto simp: handle_message_def getE_def ret_def split: if_splits)
  then show ?thesis using framedD [OF framed_dispatch, of env m n "(e, w)" q r] by (auto simp: stores_def)
next
  case True
  then obtain key where k: "resetReplayKeyFor m = Some key" "\<not> (eg_baseError e \<and> oq_initialized (eg_outstanding e) \<and> \<not> allowDuringBaseRecovery e m)"
    by blast
  obtain q1 r1 where d: "dispatch env m n (e, w) = (q1, r1)" by (cases "dispatch env m n (e, w)")
  have f: "fixed_view (fst q1) = fixed_view e" using framedD [OF framed_dispatch d] by simp
  note body = assms [unfolded handle_message_def getE_def fst_conv]
  let ?hit = "if eg_remoteEpoch e \<noteq> 0 \<and> yk_epoch key = eg_remoteEpoch e then lookupResetReplay e key else None"
  show ?thesis
  proof (cases ?hit)
    case (Some frame)
    then have "q = (e, w)" using body k by (simp add: ret_def)
    then show ?thesis by (simp add: stores_def)
  next
    case None
    then have run: "(case r1 of Inl err \<Rightarrow> (q1, Inl err) | Inr out \<Rightarrow>
        andThen (whenA (out \<noteq> []) (modE (storeResetReplay key (hd out)))) (\<lambda>_. ret out) q1) = (q, r)"
      using body k d by (cases r1) (auto simp: andThen_def)
    show ?thesis
    proof (cases r1)
      case (Inl err)
      then show ?thesis using run f by (auto simp: stores_def)
    next
      case (Inr out)
      then have "lookupResetReplay e key = None" using None reset_answered [of env m n e w q1 out key] d k(1) by (simp split: if_splits)
      moreover have "q = q1 \<or> fst q = storeResetReplay key (hd out) (fst q1)"
        using run Inr by (auto simp: andThen_def whenA_def modE_def ret_def split: if_splits)
      ultimately show ?thesis
        using f store_cong [OF f, of key "hd out"] by (metis stores_def)
    qed
  qed
qed

lemma stores_trans: "stores e1 e2 \<Longrightarrow> fixed_view e1 = fixed_view e \<Longrightarrow> stores e e2"
  using store_cong [of e1 e] lookup_cong [of e1 e] by (auto simp: stores_def)

lemma framed_stores: "framed fixed_view m \<Longrightarrow> m p = (q, r) \<Longrightarrow> stores (fst p) (fst q)"
  by (simp add: stores_def framedD)

lemma HandleInbound_stores:
  assumes "HandleInbound env frame (e, w) = (q, r)"
  shows "stores e (fst q)"
proof (cases "decoded env e frame")
  case None
  then have "q = (e, w)"
    using assms by (auto simp: decoded_def HandleInbound_def getE_def raise_def split: sum.splits option.splits)
  then show ?thesis by (simp add: stores_def)
next
  case (Some m)
  then obtain payload where p: "Codec_Parse (eg_codec e) frame = Inr payload" "ev_Unmarshal env payload = Some m"
    by (auto simp: decoded_def split: sum.splits)
  obtain w1 now where c: "ev_Now env w = (w1, now)" by (cases "ev_Now env w")
  obtain s b where s: "IsRemoteEpochRetired (eg_state e) now (ct_ControlEpoch m) = (s, b)"
    by (cases "IsRemoteEpochRetired (eg_state e) now (ct_ControlEpoch m)")
  have view: "fixed_view (e\<lparr>eg_state := s\<rparr>) = fixed_view e"
    using observe_config(10) [of "eg_state e" now "ct_ControlEpoch m"] s by (simp add: fixed_view_def)
  let ?n = "of_nat (length frame)"
  have "q = (e, w) \<or> q = (e\<lparr>eg_state := s\<rparr>, w1) \<or> handle_message env m ?n (e\<lparr>eg_state := s\<rparr>, w1) = (q, r) \<or>
      handle_message env m ?n (e, w) = (q, r)"
    using assms unfolding HandleInbound_def getE_def fst_conv p
    by (auto simp: p raise_def ret_def andThen_def clockNow_def onState_def c s split: if_splits)
  then show ?thesis
  proof (elim disjE)
    show ?thesis if "handle_message env m ?n (e\<lparr>eg_state := s\<rparr>, w1) = (q, r)"
      by (rule stores_trans [OF handle_message_stores [OF that] view])
    show ?thesis if "handle_message env m ?n (e, w) = (q, r)" by (rule handle_message_stores [OF that])
  qed (simp_all add: stores_def view)
qed

lemma exec_stores:
  assumes "engine_exec env op p = (q, r)"
  shows "stores (fst p) (fst q)"
proof (cases op)
  case (DoInbound frame)
  then show ?thesis using assms HandleInbound_stores [of env frame "fst p" "snd p" q r] by simp
qed (rule framed_stores [where m = "engine_exec env op", OF _ assms]; simp add: framed_methods framed_failures)+

definition replay_ok :: "Engine \<Rightarrow> bool" where
  "replay_ok e \<longleftrightarrow>
     length (eg_resetReplay e) = 32 \<and> eg_resetReplayNext e < 32 \<and>
     (\<forall>i<32. \<forall>j<32. ye_used (eg_resetReplay e ! i) \<and> ye_used (eg_resetReplay e ! j) \<and>
        ye_key (eg_resetReplay e ! i) = ye_key (eg_resetReplay e ! j) \<longrightarrow> i = j)"

text \<open>\<open>held key frame d e\<close>: the answer is cached and survives \<open>d\<close> more stores.\<close>

definition held :: "resetReplayKey \<Rightarrow> bytes \<Rightarrow> nat \<Rightarrow> Engine \<Rightarrow> bool" where
  "held key frame d e \<longleftrightarrow>
     replay_ok e \<and> (\<exists>k. d \<le> k \<and> k < 32 \<and> eg_resetReplay e ! ((eg_resetReplayNext e + k) mod 32) = \<lparr>ye_key = key, ye_frame = frame, ye_used = True\<rparr>)"

lemma held_lookup:
  assumes "held key frame d e"
  shows "lookupResetReplay e key = Some frame"
proof -
  obtain i where i: "i < 32" "eg_resetReplay e ! i = \<lparr>ye_key = key, ye_frame = frame, ye_used = True\<rparr>" and ok: "replay_ok e"
    using assms unfolding held_def by (metis mod_less_divisor zero_less_numeral)
  have "List.find (\<lambda>x. ye_used x \<and> ye_key x = key) (eg_resetReplay e) = Some (eg_resetReplay e ! i)"
    unfolding find_Some_iff
  proof (intro exI [of _ i] conjI allI impI)
    fix j assume "j < i"
    then show "\<not> (ye_used (eg_resetReplay e ! j) \<and> ye_key (eg_resetReplay e ! j) = key)"
      using ok [unfolded replay_ok_def] i by (metis less_irrefl less_trans resetReplayEntry.select_convs(1,3))
  qed (use ok i in \<open>simp_all add: replay_ok_def\<close>)
  then show ?thesis using i by (simp add: lookupResetReplay_def)
qed

lemma store_new:
  assumes "replay_ok e" and "lookupResetReplay e key = None" and "frame \<noteq> []"
  shows "replay_ok (storeResetReplay key frame e)"
    and "eg_resetReplay (storeResetReplay key frame e) = (eg_resetReplay e)[eg_resetReplayNext e := \<lparr>ye_key = key, ye_frame = frame, ye_used = True\<rparr>]"
    and "eg_resetReplayNext (storeResetReplay key frame e) = (eg_resetReplayNext e + 1) mod 32"
proof -
  have new: "\<not> (ye_used (eg_resetReplay e ! i) \<and> ye_key (eg_resetReplay e ! i) = key)" if "i < 32" for i
    using assms(1,2) that by (auto simp: lookupResetReplay_def find_None_iff replay_ok_def)
  show ring: "eg_resetReplay (storeResetReplay key frame e) = (eg_resetReplay e)[eg_resetReplayNext e := \<lparr>ye_key = key, ye_frame = frame, ye_used = True\<rparr>]"
    and nxt: "eg_resetReplayNext (storeResetReplay key frame e) = (eg_resetReplayNext e + 1) mod 32"
    using assms by (simp_all add: storeResetReplay_def replay_ok_def)
  show "replay_ok (storeResetReplay key frame e)"
    using assms(1) new by (auto simp: replay_ok_def ring nxt nth_list_update)
qed

lemma ring_step:
  assumes "n < (32 :: nat)" and "0 < k" and "k < 32"
  shows "(n + k) mod 32 \<noteq> n" and "((n + 1) mod 32 + (k - 1)) mod 32 = (n + k) mod 32" and "((n + 1) mod 32 + 31) mod 32 = n"
proof -
  show "(n + k) mod 32 \<noteq> n" using assms by (cases "n + k < 32") (simp_all add: le_mod_geq)
  have "n + 1 + (k - 1) = n + k" using assms by simp
  then show "((n + 1) mod 32 + (k - 1)) mod 32 = (n + k) mod 32" by (metis mod_add_left_eq)
  show "((n + 1) mod 32 + 31) mod 32 = n" using assms(1) by (cases "n = 31") simp_all
qed

lemma store_held:
  assumes "held key frame (Suc d) e" and "lookupResetReplay e key' = None"
  shows "held key frame d (storeResetReplay key' frame' e)"
proof (cases "frame' = []")
  case True
  then have "storeResetReplay key' frame' e = e" by (simp add: storeResetReplay_def)
  then show ?thesis using assms(1) by (auto simp: held_def dest: Suc_leD)
next
  case False
  obtain k where k: "Suc d \<le> k" "k < 32" "eg_resetReplay e ! ((eg_resetReplayNext e + k) mod 32) = \<lparr>ye_key = key, ye_frame = frame, ye_used = True\<rparr>"
    and ok: "replay_ok e" using assms(1) by (auto simp: held_def)
  note new = store_new [OF ok assms(2) False]
  have "eg_resetReplayNext e < 32" using ok by (simp add: replay_ok_def)
  then have "(eg_resetReplayNext e + k) mod 32 \<noteq> eg_resetReplayNext e"
    "((eg_resetReplayNext e + 1) mod 32 + (k - 1)) mod 32 = (eg_resetReplayNext e + k) mod 32"
    using ring_step [of "eg_resetReplayNext e" k] k(1,2) by simp_all
  then show ?thesis
    using k new by (auto simp: held_def intro!: exI [of _ "k - 1"])
qed

lemma store_fresh:
  assumes "replay_ok e" and "lookupResetReplay e key = None" and "frame \<noteq> []"
  shows "held key frame 31 (storeResetReplay key frame e)"
proof -
  note new = store_new [OF assms]
  have "eg_resetReplayNext e < 32" "length (eg_resetReplay e) = 32" using assms(1) by (simp_all add: replay_ok_def)
  then have "((eg_resetReplayNext e + 1) mod 32 + 31) mod 32 = eg_resetReplayNext e" using ring_step(3) [of _ 1] by simp
  then show ?thesis using new \<open>length _ = 32\<close> \<open>eg_resetReplayNext e < 32\<close> by (auto simp: held_def intro!: exI [of _ 31])
qed

text \<open>One step, and runs.\<close>

lemma view_held: "fixed_view e = fixed_view e' \<Longrightarrow> held key frame d e \<longleftrightarrow> held key frame d e'"
  by (simp add: held_def replay_ok_def fixed_view_def)

lemma view_replay: "fixed_view e = fixed_view e' \<Longrightarrow> replay_ok e \<longleftrightarrow> replay_ok e'"
  by (simp add: replay_ok_def fixed_view_def)

lemma stores_cases:
  assumes "stores e e'"
  obtains "fixed_view e' = fixed_view e"
  | key frame where "lookupResetReplay e key = None" and "frame \<noteq> []" and "fixed_view e' = fixed_view (storeResetReplay key frame e)"
proof (cases "fixed_view e' = fixed_view e")
  case False
  then obtain key frame where s: "lookupResetReplay e key = None" "fixed_view e' = fixed_view (storeResetReplay key frame e)"
    using assms by (auto simp: stores_def)
  then have "frame \<noteq> []" using False by (auto simp: storeResetReplay_def)
  then show ?thesis using s that(2) by simp
qed (rule that(1))

lemma held_weaken: "held key frame d e \<Longrightarrow> d' \<le> d \<Longrightarrow> held key frame d' e"
  unfolding held_def by (meson le_trans)

lemma stores_held:
  assumes "stores e e'" and "held key frame (Suc d) e"
  shows "held key frame d e'"
  using assms(1)
proof (cases rule: stores_cases)
  case 1
  then show ?thesis using held_weaken [OF assms(2), of d] view_held [OF 1] by simp
next
  case (2 key' frame')
  then show ?thesis using store_held [OF assms(2) 2(1), of frame'] view_held [OF 2(3)] by simp
qed

lemma stores_replay:
  assumes "stores e e'" and "replay_ok e"
  shows "replay_ok e'"
  using assms(1)
proof (cases rule: stores_cases)
  case 1
  then show ?thesis using assms(2) view_replay [OF 1] by simp
next
  case (2 key frame)
  then show ?thesis using store_new(1) [OF assms(2) 2(1,2)] view_replay [OF 2(3)] by simp
qed

lemma stores_fixed: "stores e e' \<Longrightarrow> ss_config (eg_state e') = ss_config (eg_state e) \<and> eg_codec e' = eg_codec e"
  by (auto simp: stores_def fixed_view_def storeResetReplay_def split: if_splits)

lemma run_step:
  assumes "engine_run env p (op # ops) = (q, rs)"
  obtains p1 r rs' where "engine_exec env op p = (p1, r)" and "engine_run env p1 ops = (q, rs')" and "rs = r # rs'"
  using assms by (auto split: prod.splits)

lemma run_held: "engine_run env p ops = (q, rs) \<Longrightarrow> held key frame (d + length ops) (fst p) \<Longrightarrow> held key frame d (fst q)"
proof (induction ops arbitrary: p rs)
  case (Cons op ops)
  from Cons.prems(1) obtain p1 r rs' where s: "engine_exec env op p = (p1, r)" "engine_run env p1 ops = (q, rs')" by (rule run_step)
  show ?case by (rule Cons.IH [OF s(2)], rule stores_held [OF exec_stores [OF s(1)]]) (use Cons.prems(2) in simp)
qed simp

lemma run_fixed:
  "engine_run env p ops = (q, rs) \<Longrightarrow> replay_ok (fst p) \<Longrightarrow>
     replay_ok (fst q) \<and> ss_config (eg_state (fst q)) = ss_config (eg_state (fst p)) \<and> eg_codec (fst q) = eg_codec (fst p)"
proof (induction ops arbitrary: p rs)
  case (Cons op ops)
  from Cons.prems(1) obtain p1 r rs' where s: "engine_exec env op p = (p1, r)" "engine_run env p1 ops = (q, rs')" by (rule run_step)
  show ?case using Cons.IH [OF s(2)] stores_replay [OF exec_stores [OF s(1)] Cons.prems(2)] stores_fixed [OF exec_stores [OF s(1)]] by simp
qed simp

lemma NewEngine_replay: "NewEngine c = Inr e \<Longrightarrow> replay_ok e"
  by (auto simp: NewEngine_def replay_ok_def resetReplayCapacity_def split: sum.splits)

text \<open>A reset that hits the cache.\<close>

lemma cached_answer:
  assumes "decoded env e frame = Some m" and "acceptable m" and "resetReplayKeyFor m = Some key" and "ct_ReplyTo m = 0"
    and "yk_epoch key = eg_remoteEpoch e" and "lookupResetReplay e key = Some replay"
  shows "HandleInbound env frame (e, w) = ((e, w), Inr [replay])"
proof -
  obtain payload where p: "Codec_Parse (eg_codec e) frame = Inr payload" "ev_Unmarshal env payload = Some m"
    using assms(1) by (auto simp: decoded_def split: sum.splits)
  obtain r where r: "ct_Body m = Some (BodyResetSequence r)" "yk_epoch key = ct_ControlEpoch m" using assms(3) by (auto simp: reset_body)
  have body: "GetCapabilitiesHello (Some m) = None" using r by (simp add: GetCapabilitiesHello_def GetBody_def)
  have "ct_ControlEpoch m \<noteq> 0" using assms(2) by (simp add: acceptable_def)
  moreover have "allowDuringBaseRecovery e m" using assms(4) by (simp add: allowDuringBaseRecovery_def)
  ultimately have "handle_message env m n (e, w) = ((e, w), Inr [replay])" for n
    unfolding handle_message_def getE_def fst_conv using assms(3,5,6) r by (simp add: ret_def)
  then show ?thesis
    unfolding HandleInbound_def getE_def fst_conv p using assms(2) r body
    by (auto simp: p acceptable_def controlBodyUnset_def)
qed

text \<open>The first answer to a reset.\<close>

lemma first_answer:
  assumes "decoded env e frame = Some m" and "resetReplayKeyFor m = Some key" and "lookupResetReplay e key = None"
    and "HandleInbound env frame (e, w) = ((e1, w1), Inr out)" and "out \<noteq> []" and "replay_ok e"
  shows "acceptable m" and "ct_ReplyTo m = 0" and "yk_epoch key = eg_remoteEpoch e1" and "held key (hd out) 31 e1" and "out = [hd out]"
    and "eg_codec e1 = eg_codec e"
proof -
  obtain payload where p: "Codec_Parse (eg_codec e) frame = Inr payload" "ev_Unmarshal env payload = Some m"
    using assms(1) by (auto simp: decoded_def split: sum.splits)
  obtain r where r: "ct_Body m = Some (BodyResetSequence r)" using assms(2) by (auto simp: reset_body)
  then have hello: "GetCapabilitiesHello (Some m) = None" by (simp add: GetCapabilitiesHello_def GetBody_def)
  let ?n = "of_nat (length frame)"
  show ok: "acceptable m"
    using assms(4) unfolding HandleInbound_def getE_def fst_conv p
    by (auto simp: p raise_def acceptable_def controlBodyUnset_def split: if_splits)
  have "handle_message env m ?n (e, w) = ((e1, w1), Inr out)"
    using assms(4) unfolding HandleInbound_def getE_def fst_conv p
    by (auto simp: p raise_def hello split: if_splits)
  then obtain q where d: "dispatch env m ?n (e, w) = (q, Inr out)" "e1 = storeResetReplay key (hd out) (fst q)"
    unfolding handle_message_def getE_def fst_conv using assms(2,3,5)
    by (auto simp: ret_def andThen_def whenA_def modE_def split: if_splits prod.splits sum.splits)
  note a = reset_answered [OF d(1) assms(2)] reset_answer_one [OF d(1) assms(2)]
  have view: "fixed_view (fst q) = fixed_view e" using framedD [OF framed_dispatch d(1)] by simp
  show "ct_ReplyTo m = 0" "out = [hd out]" using a by auto
  show "yk_epoch key = eg_remoteEpoch e1" using a d(2) by (auto simp: storeResetReplay_def)
  have "replay_ok (fst q)" "lookupResetReplay (fst q) key = None" "hd out \<noteq> []"
    using view_replay [OF view] assms(6) lookup_cong [OF view] assms(3) a by auto
  then show "held key (hd out) 31 e1" using store_fresh d(2) by simp
  show "eg_codec e1 = eg_codec e" using view d(2) by (simp add: fixed_view_def storeResetReplay_def)
qed

end
