(* ===== verification/EngineCorrect.thy ===== *)
theory EngineCorrect
  imports EngineRun ControlStateCorrect
begin

text \<open>
  The properties of the control engine over all its runs.  No call panics; DATA is open only with an agreement and
  with a confirmed size in range; a retransmitted \<^verbatim>\<open>ResetSequence\<close> gets its first answer again; a probe is as long
  as its target allows.
\<close>

unbundle bit_operations_syntax

subsection \<open>Safety\<close>


text \<open>
  C13.  When the engine of a run lets DATA through, the control state agrees with the configuration, the epochs of the
  engine are those of the control state, and the confirmed carrier payload lies between BASE and the local
  maximum.
\<close>

theorem engine_data_open:
  assumes "(NewEngine c :: 'x engine_error + Engine) = Inr e0"
    and "engine_run (env :: ('w, 'x) EngineEnv) (e0, w0) ops = ((e, w), rs)" and "Engine_DataSendAllowed e"
  shows "open_with_agreement c (eg_state e) \<and> eg_localEpoch e = lx_ControlEpoch (Engine_LocalExchangeID e) \<and>
    eg_remoteEpoch e = ss_remoteEpoch (eg_state e) \<and>
    st_MinCarrierPayload c \<le> ConfirmedCarrierPayload e \<and> ConfirmedCarrierPayload e \<le> st_MaxCarrierPayload c"
proof -
  have ok: "engine_ok e" using engine_run_ok [of "(e0, w0)" env ops] NewEngine_ok(1) [OF assms(1)] assms(2) by simp
  have c: "ss_config (eg_state e) = c"
    using run_fixed [OF assms(2)] NewEngine_replay [OF assms(1)] NewEngine_ok(2) [OF assms(1)] by simp
  have allowed: "DataSendAllowed (eg_state e)" using assms(3) by (simp add: Engine_DataSendAllowed_def)
  then have "gate (eg_state e) 6" by (simp add: DataSendAllowed_gates)
  then obtain search where search: "eg_pmtu e = Some search" "search_ok e search"
    using ok by (auto simp: engine_ok_def split: option.splits)
  then have "within search (pm_confirmed search)" by (simp add: search_ok_def pmtu_ok_def pmtu_base_ok_def)
  then have "st_MinCarrierPayload c \<le> ConfirmedCarrierPayload e \<and> ConfirmedCarrierPayload e \<le> st_MaxCarrierPayload c"
    using ok c search by (auto simp: search_ok_def engine_ok_def within_def ConfirmedCarrierPayload_def Confirmed_def)
  then show ?thesis
    using control_open_agrees [OF engine_ok_control [OF ok] allowed] ok c
    by (simp add: engine_ok_def Engine_LocalExchangeID_def LocalExchangeID_def)
qed

text \<open>
  C11.  A retransmitted \<^verbatim>\<open>ResetSequence\<close> is idempotent.  After the first answer to a reset, a repetition of the same
  frame within the next 31 calls gets the identical bytes again and changes nothing, as long as the epoch of
  the peer is the same: neither the control state, which would report a session collision, nor the number
  of the next response is touched.
\<close>

theorem reset_retransmission:
  assumes "(NewEngine c :: 'x engine_error + Engine) = Inr e0"
    and "engine_run (env :: ('w, 'x) EngineEnv) (e0, w0) ops0 = ((e, w), rs0)"
    and "decoded env e frame = Some m" and "resetReplayKeyFor m = Some key" and "lookupResetReplay e key = None"
    and "HandleInbound env frame (e, w) = ((e1, w1), Inr out)" and "out \<noteq> []"
    and "engine_run env (e1, w1) ops = ((e2, w2), rs)" and "length ops < 32" and "eg_remoteEpoch e2 = eg_remoteEpoch e1"
  shows "HandleInbound env frame (e2, w2) = ((e2, w2), Inr out)"
proof -
  have replay: "replay_ok e" using run_fixed [OF assms(2)] NewEngine_replay [OF assms(1)] by simp
  note first = first_answer [OF assms(3-7) replay]
  have "held key (hd out) (0 + length ops) e1" using held_weaken [OF first(4)] assms(9) by simp
  then have held: "held key (hd out) 0 e2" using run_held [OF assms(8), of key "hd out" 0] by simp
  have "decoded env e2 frame = Some m"
    using run_fixed [OF assms(8)] first(4,6) assms(3) by (simp add: held_def decoded_def)
  then show ?thesis
    using cached_answer [OF _ first(1) assms(4) first(2) _ held_lookup [OF held]] first(3,5) assms(10) by (metis)
qed

subsection \<open>The longest padding\<close>

lemma pad_search_first:
  "lo \<le> hi \<Longrightarrow> (\<And>i. i < lo \<Longrightarrow> fits i) \<Longrightarrow> (\<And>i. hi \<le> i \<Longrightarrow> i < n \<Longrightarrow> \<not> fits i) \<Longrightarrow>
     (\<And>i j. i \<le> j \<Longrightarrow> j < n \<Longrightarrow> fits j \<Longrightarrow> fits i) \<Longrightarrow> hi \<le> n \<Longrightarrow>
     pad_search fits lo hi \<le> hi \<and> (\<forall>i<n. fits i \<longleftrightarrow> i < pad_search fits lo hi)"
proof (induction fits lo hi rule: pad_search.induct)
  case (1 fits lo hi)
  show ?case
  proof (cases "lo < hi")
    case False
    then have "lo = hi" using "1.prems"(1) by simp
    moreover from False have "pad_search fits lo hi = lo" by (subst pad_search.simps) simp
    ultimately have "lo = hi" "pad_search fits lo hi = hi" by simp_all
    then show ?thesis using "1.prems"(2,3) by (auto simp: not_less [symmetric])
  next
    case True
    define mid where "mid = lo + (hi - lo) div 2"
    have mid: "lo \<le> mid" "mid < hi" using True by (simp_all add: mid_def)
    show ?thesis
    proof (cases "fits mid")
      case fits: True
      have "pad_search fits (mid + 1) hi \<le> hi \<and> (\<forall>i<n. fits i \<longleftrightarrow> i < pad_search fits (mid + 1) hi)"
      proof (rule "1.IH"(1) [OF True mid_def fits])
        show "fits i" if "i < mid + 1" for i using "1.prems"(4) [of i mid] "1.prems"(5) that mid fits by simp
      qed (use mid "1.prems" in auto)
      then show ?thesis using True fits by (simp add: pad_search.simps [of fits lo hi] mid_def Let_def)
    next
      case fits: False
      have "\<not> fits i" if "mid \<le> i" "i < n" for i using "1.prems"(4) [OF that] fits by blast
      then have "pad_search fits lo mid \<le> mid \<and> (\<forall>i<n. fits i \<longleftrightarrow> i < pad_search fits lo mid)"
        using "1.prems" mid by (intro "1.IH"(2) [OF True mid_def fits]) auto
      then show ?thesis using True fits mid by (simp add: pad_search.simps [of fits lo hi] mid_def Let_def)
    qed
  qed
qed

text \<open>The frame sizes that some padding gives within the target.\<close>

definition padded :: "Control \<Rightarrow> nat \<Rightarrow> Control" where
  "padded m n = m\<lparr>ct_Padding := Some (replicate n 0)\<rparr>"

definition padded_sizes :: "('w, 'x) EngineEnv \<Rightarrow> Control \<Rightarrow> u32 \<Rightarrow> nat set" where
  "padded_sizes env m target = {k. \<exists>n \<le> unat target. k = ControlHeaderSize + ev_Size env (padded m n) \<and> k \<le> unat target}"

lemma pad_message_longest:
  assumes "target \<noteq> 0" and mono: "\<And>i j. i \<le> j \<Longrightarrow> ev_Size env (padded m i) \<le> ev_Size env (padded m j)"
    and "\<not> target > of_int (MaxFrameSize (eg_codec e))"
  shows "case pad_message env e m target of
      Inl err \<Rightarrow> err = ErrUnrepresentableProbe \<and> unat target < ControlHeaderSize + ev_Size env (padded m 0)
    | Inr m' \<Rightarrow> ControlHeaderSize + ev_Size env (padded m 0) \<le> unat target \<and>
        ControlHeaderSize + ev_Size env m' = Max (padded_sizes env m target)"
proof -
  define fits where "fits n \<longleftrightarrow> ControlHeaderSize + ev_Size env (padded m n) \<le> unat target" for n
  define tried where "tried n \<longleftrightarrow> ControlHeaderSize + ev_Size env (m\<lparr>ct_Padding := Some (take n (replicate (unat target) 0))\<rparr>) \<le> unat target" for n
  define lo where "lo = pad_search tried 0 (unat target + 1)"
  have same: "m\<lparr>ct_Padding := Some (take n (replicate (unat target) 0))\<rparr> = padded m n" if "n < unat target + 1" for n
    using that by (simp add: padded_def)
  have tried: "tried n \<longleftrightarrow> fits n" if "n < unat target + 1" for n using same [OF that] by (simp add: tried_def fits_def)
  have down: "fits i" if "i \<le> j" "fits j" for i j using mono [OF that(1)] that(2) by (simp add: fits_def)
  have "lo \<le> unat target + 1 \<and> (\<forall>i<unat target + 1. tried i \<longleftrightarrow> i < lo)"
    unfolding lo_def
  proof (rule pad_search_first)
    show "tried i" if "i \<le> j" "j < unat target + 1" "tried j" for i j
      using down [OF that(1)] that tried [of i] tried [of j] by simp
  qed simp_all
  then have lo: "lo \<le> unat target + 1" "\<And>i. i < unat target + 1 \<Longrightarrow> fits i \<longleftrightarrow> i < lo" using tried by blast+
  have pad: "pad_message env e m target = (if lo = 0 then Inl ErrUnrepresentableProbe else Inr (padded m (lo - 1)))"
    unfolding pad_message_def Let_def tried_def [symmetric] length_replicate lo_def [symmetric]
    using assms(1,3) same [of "lo - 1"] lo(1) by simp
  show ?thesis
  proof (cases "lo = 0")
    case True
    then show ?thesis using pad lo(2) [of 0] by (simp add: fits_def)
  next
    case False
    have fin: "finite (padded_sizes env m target)" by (rule finite_subset [of _ "{..unat target}"]) (auto simp: padded_sizes_def)
    have "ControlHeaderSize + ev_Size env (padded m (lo - 1)) = Max (padded_sizes env m target)"
    proof (rule Max_eqI [symmetric, OF fin])
      show "ControlHeaderSize + ev_Size env (padded m (lo - 1)) \<in> padded_sizes env m target"
        unfolding padded_sizes_def mem_Collect_eq using lo False lo(2) [of "lo - 1"] by (intro exI [of _ "lo - 1"]) (simp add: fits_def)
      fix k assume "k \<in> padded_sizes env m target"
      then obtain n where n: "n \<le> unat target" "k = ControlHeaderSize + ev_Size env (padded m n)" "fits n"
        by (auto simp: padded_sizes_def fits_def)
      then have "n \<le> lo - 1" using lo(2) [of n] by simp
      then show "k \<le> ControlHeaderSize + ev_Size env (padded m (lo - 1))" using n(2) mono by simp
    qed
    then show ?thesis using pad False lo(2) [of 0] by (simp add: fits_def)
  qed
qed

text \<open>
  C15.  A probe is as long as its target allows.  With a message encoding that has the announced size and does not shrink
  when the padding grows, the frame written for a target size within the codec's limit has the greatest size
  that any zero padding reaches within the target, and the target is refused as unrepresentable exactly
  when not even the empty padding fits.
\<close>

theorem probe_fills_target:
  assumes "target \<noteq> 0" and "\<not> target > of_int (MaxFrameSize (eg_codec e))"
    and mono: "\<And>i j. i \<le> j \<Longrightarrow> ev_Size env (padded m i) \<le> ev_Size env (padded m j)"
    and size: "\<And>m payload. ev_Marshal env m = Some payload \<Longrightarrow> length payload = ev_Size env m"
  shows "case marshal env e m target of
      Inl err \<Rightarrow> err = ErrUnrepresentableProbe \<longleftrightarrow> unat target < ControlHeaderSize + ev_Size env (padded m 0)
    | Inr frame \<Rightarrow> length frame = Max (padded_sizes env m target)"
proof -
  have pad: "case pad_message env e m target of
      Inl err \<Rightarrow> err = ErrUnrepresentableProbe \<and> unat target < ControlHeaderSize + ev_Size env (padded m 0)
    | Inr m' \<Rightarrow> ControlHeaderSize + ev_Size env (padded m 0) \<le> unat target \<and>
        ControlHeaderSize + ev_Size env m' = Max (padded_sizes env m target)"
    by (rule pad_message_longest) (use assms in auto)
  have frame: "length frame = k"
    if "Codec_MarshalTo c (replicate k 0) payload = Inr (frame, n)" for c payload frame n k
    using that by (auto simp: Codec_MarshalTo_Inr control_frame_def)
  show ?thesis
  proof (cases "pad_message env e m target")
    case (Inl err)
    then show ?thesis using pad by (simp add: marshal_def)
  next
    case (Inr m')
    then show ?thesis
      using pad size [of m'] frame by (auto simp: marshal_def split: sum.splits option.splits)
  qed
qed

subsection \<open>A small environment\<close>

text \<open>
  The world is a clock that advances by a millisecond per reading and a counter for the entropy.  A message is written
  as one byte and its padding; the messages of the peer are numbered.
\<close>

definition sample_message :: "byte \<Rightarrow> Control option" where
  "sample_message n =
     (if n = 1 then peer_request 1 77 (BodyCapabilitiesHello sample_hello)
      else if n = 2 then peer_reply 1 1 (BodyCapabilitiesAck
        \<lparr>ca_SelectedDataProtocolVersion = 1, ca_SelectedFeatureBits = 1, ca_Result = RESULT_CODE_ACCEPTED\<rparr>)
      else if n = 3 then peer_reply 2 1 (BodyResetSequenceAck
        \<lparr>rk_DataSessionId = 2, rk_Result = RESULT_CODE_ACCEPTED, rk_LastReceivedCarrierPayload = 0\<rparr>)
      else if n = 4 then peer_request 2 77 (BodyPeerMTU \<lparr>pt_InnerMtu = 1400\<rparr>)
      else if n = 5 then peer_reply 3 1 (BodyPeerMTUAck \<lparr>pu_InnerMtu = 1500, pu_Result = RESULT_CODE_ACCEPTED\<rparr>)
      else if n = 6 then peer_reply 4 1 (BodyPong \<lparr>po_Sequence = 1\<rparr>)
      else if n = 7 then peer_reply 5 1 (BodyMtuProbeAck \<lparr>pa_ReceivedProbePayloadSize = 613\<rparr>)
      else if n = 8 then peer_request 3 77 (BodyResetSequence \<lparr>rq_DataSessionId = 9\<rparr>)
      else None)"

definition sample_env :: "(gotime \<times> u64, unit) EngineEnv" where
  "sample_env =
     \<lparr>ev_Now = (\<lambda>(t, n). ((t + 1000000, n), t)), ev_Uint64 = (\<lambda>(t, n). ((t, n + 1), Inr (n + 1))),
      ev_CanonicalizeCarrierPayload = None, ev_TransportDatagramSize = None, ev_OnConfirmedPayloadChange = None,
      ev_Marshal = (\<lambda>m. Some (0 # GetPadding (Some m))), ev_Size = (\<lambda>m. Suc (length (GetPadding (Some m)))),
      ev_Unmarshal = (\<lambda>bs. case bs of [n] \<Rightarrow> sample_message n | _ \<Rightarrow> None)\<rparr>"

definition sample_engine :: Engine where
  "sample_engine = (case (NewEngine sample_state_config :: unit engine_error + Engine) of Inr e \<Rightarrow> e)"

lemma sample_engine_new: "(NewEngine sample_state_config :: unit engine_error + Engine) = Inr sample_engine"
  by (simp add: sample_engine_def NewEngine_def sample_state_new NewCodec_def ControlHeaderSize_def) (simp add: sample_state_config_def)

definition sample_frame :: "byte \<Rightarrow> bytes" where
  "sample_frame n = [0, 0, 1, n]"

lemma sample_size: "ev_Size sample_env (padded m n) = Suc n" "ev_Marshal sample_env m = Some payload \<Longrightarrow> length payload = ev_Size sample_env m"
  by (auto simp: sample_env_def padded_def GetPadding_def)

lemma sample_codec_limit: "MaxFrameSize (eg_codec sample_engine) = 1400"
  by code_simp

lemma sample_sizes:
  assumes "4 \<le> unat target"
  shows "Max (padded_sizes sample_env m target) = unat target"
proof (rule Max_eqI)
  show "finite (padded_sizes sample_env m target)" by (rule finite_subset [of _ "{..unat target}"]) (auto simp: padded_sizes_def)
  show "unat target \<in> padded_sizes sample_env m target"
    unfolding padded_sizes_def mem_Collect_eq using assms
    by (intro exI [of _ "unat target - 4"]) (simp add: sample_size ControlHeaderSize_def)
qed (auto simp: padded_sizes_def)

lemma sample_marshal:
  assumes "MaxFrameSize (eg_codec e) = 1400" and "4 \<le> unat target" and "target \<le> 1400"
  shows "\<exists>frame. marshal sample_env e m target = Inr frame \<and> length frame = unat target"
proof -
  have nonzero: "target \<noteq> 0" using assms(2) by auto
  have pad: "case pad_message sample_env e m target of Inl err \<Rightarrow> unat target < 4
      | Inr m' \<Rightarrow> ControlHeaderSize + ev_Size sample_env m' = unat target"
    using pad_message_longest [where env = sample_env and e = e and m = m and target = target] assms nonzero sample_sizes [OF assms(2), of m]
    by (auto simp: sample_size ControlHeaderSize_def not_less split: sum.splits)
  have limit: "int (unat target) \<le> 1400" using assms(3) by (simp add: word_le_def)
  show ?thesis
  proof (cases "pad_message sample_env e m target")
    case (Inr m')
    let ?p = "0 # GetPadding (Some m')"
    have "ControlHeaderSize + length ?p = unat target" "ev_Marshal sample_env m' = Some ?p"
      using pad Inr by (simp_all add: sample_env_def)
    then have "Codec_MarshalTo (eg_codec e) (replicate (ControlHeaderSize + length ?p) 0) ?p = Inr (control_frame ?p, unat target)"
      using assms(1) limit by (simp add: Codec_MarshalTo_Inr MaxFrameSize_def ControlHeaderSize_def)
    then show ?thesis
      using Inr \<open>ev_Marshal sample_env m' = Some ?p\<close> \<open>ControlHeaderSize + length ?p = unat target\<close>
      by (simp add: marshal_def control_frame_def ControlHeaderSize_def)
  qed (use pad assms(2) in simp)
qed

theorem probe_fills_target_witness:
  "case marshal sample_env sample_engine (buildControl 5 0 1 BodyMtuProbe) 613 of
     Inl err \<Rightarrow> False | Inr frame \<Rightarrow> length frame = Max (padded_sizes sample_env (buildControl 5 0 1 BodyMtuProbe) 613)"
proof -
  have "\<not> (613 :: u32) > of_int (MaxFrameSize (eg_codec sample_engine))" by (simp add: sample_codec_limit)
  then show ?thesis
    using probe_fills_target [where target = 613 and e = sample_engine and env = sample_env and m = "buildControl 5 0 1 BodyMtuProbe"]
      sample_marshal [of sample_engine 613 "buildControl 5 0 1 BodyMtuProbe"]
    by (auto simp: sample_size sample_codec_limit)
qed

subsection \<open>A run that opens DATA\<close>

lemma base_ack_opens:
  assumes "decoded env e frame = Some m" and "ct_Body m = Some (BodyMtuProbeAck a)" and "ct_MessageId m \<noteq> 0" and "ct_Padding m = None"
    and out: "oq_initialized (eg_outstanding e)" "oq_kind (eg_outstanding e) = requestBaseProbe" "oq_messageID (eg_outstanding e) = ct_ReplyTo m"
      "oq_probeSize (eg_outstanding e) = pa_ReceivedProbePayloadSize a" "ct_ReplyTo m \<noteq> 0"
    and eng: "eg_started e" "eg_localEpoch e = ct_ControlEpoch m" "\<not> eg_terminalError e" "eg_localEpoch e = ss_localEpoch (eg_state e)"
      "eg_localEpoch e \<noteq> 0" "pa_ReceivedProbePayloadSize a = st_MinCarrierPayload (ss_config (eg_state e))"
    and gates: "ss_flags (eg_state e) OR FlagBaseProbe = RequiredFlags"
    and run: "HandleInbound env frame (e, w) = (q, r)"
  shows "Engine_DataSendAllowed (fst q)"
proof -
  obtain payload where p: "Codec_Parse (eg_codec e) frame = Inr payload" "ev_Unmarshal env payload = Some m"
    using assms(1) by (auto simp: decoded_def split: sum.splits)
  have body: "GetCapabilitiesHello (Some m) = None" "GetPadding (Some m) = []" "GetMtuProbeAck (Some m) = Some a" "resetReplayKeyFor m = None"
    using assms(2,4) by (simp_all add: GetCapabilitiesHello_def GetBody_def GetPadding_def GetMtuProbeAck_def resetReplayKeyFor_def GetResetSequence_def)
  have "handle_message env m n (e, w) = dispatch env m n (e, w)" for n
    unfolding handle_message_def getE_def fst_conv using out eng body by (simp add: allowDuringBaseRecovery_def)
  then have "HandleInbound env frame (e, w) = handleMtuProbeAck env m a (e, w)"
    unfolding HandleInbound_def getE_def fst_conv p using assms(2,3) eng body by (simp add: p controlBodyUnset_def dispatch_def)
  also have "\<dots> = base_acknowledged env m (ConfirmedCarrierPayload e) (e, w)"
    unfolding handleMtuProbeAck_def getE_def fst_conv Let_def using out eng
    by (simp add: andThen_def requireResponse_def getE_def ret_def)
  finally have ack: "base_acknowledged env m (ConfirmedCarrierPayload e) (e, w) = (q, r)" using run by simp
  let ?s = "(eg_state e)\<lparr>ss_flags := ss_flags (eg_state e) OR FlagBaseProbe\<rparr>"
  have observe: "ObserveBaseProbeAck (eg_state e) (Some m) (oq_messageID (eg_outstanding e)) = (?s, RESULT_CODE_ACCEPTED)"
    using out eng body assms(3) by (simp add: ObserveBaseProbeAck_def validResponse_def GetMessageId_def GetReplyTo_def GetControlEpoch_def)
  have clear: "path_view (clearBaseError e) = path_view e" for e by (simp add: path_view_def clearBaseError_def)
  have "framed path_view
      (andThen (modE (\<lambda>e. e\<lparr>eg_outstanding := no_request\<rparr>)) (\<lambda>_.
       andThen (startPMTU env) (\<lambda>_.
       andThen (modE clearBaseError) (\<lambda>_.
       andThen (emitConfirmedChange env n) (\<lambda>_.
       andThen (clockNow env) (\<lambda>now. emitPMTUProbe env now))))))" for n
    by (intro framed_rules frames) (simp_all add: clear path.outstanding)
  from framedD [OF this, of "ConfirmedCarrierPayload e" "(e\<lparr>eg_state := ?s\<rparr>, w)" q r]
  have "path_view (fst q) = path_view (e\<lparr>eg_state := ?s\<rparr>)"
    using ack unfolding base_acknowledged_def getE_def fst_conv by (simp add: andThen_def onState_def observe)
  then show ?thesis using eng gates by (simp add: path_view_def Engine_DataSendAllowed_def DataSendAllowed_def)
qed

definition sample_pinged :: "Engine \<times> gotime \<times> u64" where
  "sample_pinged = fst (engine_run sample_env (sample_engine, (1, 0)) (DoStart # map (\<lambda>n. DoInbound (sample_frame n)) [1, 2, 3, 4, 5]))"

lemma sample_pinged_facts:
  "let e = fst sample_pinged; q = eg_outstanding e in
   oq_initialized q \<and> oq_kind q = requestPing \<and> oq_messageID q = 4 \<and> oq_ping q = 1 \<and> eg_started e \<and> eg_localEpoch e = 1 \<and>
   \<not> eg_baseError e \<and> \<not> eg_terminalError e \<and> ss_flags (eg_state e) = 31 \<and> ss_localEpoch (eg_state e) = 1 \<and> eg_base e = 613 \<and>
   MaxFrameSize (eg_codec e) = 1400 \<and> eg_localMessageID e = 4 \<and> ss_config (eg_state e) = sample_state_config"
  by code_simp

text \<open>The pong is answered with the BASE probe.\<close>

lemma sample_flags:
  "(31 :: Flags) OR FlagPingPong = 63" "(63 :: Flags) OR FlagBaseProbe = RequiredFlags"
  "(63 :: Flags) AND (FlagLocalCapabilities OR FlagRemoteCapabilities) = FlagLocalCapabilities OR FlagRemoteCapabilities"
  "(63 :: Flags) AND FlagLocalResetAck \<noteq> 0" "(63 :: Flags) AND FlagLocalPeerMTUAck \<noteq> 0" "(63 :: Flags) AND FlagRemotePeerMTU \<noteq> 0"
  "(63 :: Flags) AND FlagPingPong \<noteq> 0" "(63 :: Flags) AND FlagBaseProbe = 0"
  by code_simp+

lemma sample_base_request:
  assumes "MaxFrameSize (eg_codec e) = 1400" and "eg_base e = 613" and "eg_localMessageID e = 4"
  shows "\<exists>e' w'. fst (sendRequest sample_env requestBaseProbe m 0 613 (e, w)) = (e', w') \<and>
    oq_initialized (eg_outstanding e') \<and> oq_kind (eg_outstanding e') = requestBaseProbe \<and> oq_messageID (eg_outstanding e') = 5 \<and>
    oq_probeSize (eg_outstanding e') = 613 \<and> eg_codec e' = eg_codec e \<and> eg_state e' = eg_state e \<and> eg_started e' = eg_started e \<and>
    eg_localEpoch e' = eg_localEpoch e \<and> eg_terminalError e' = eg_terminalError e"
proof -
  obtain frame where f: "marshal sample_env e (m\<lparr>ct_MessageId := 5\<rparr>) 613 = Inr frame" "length frame = 613"
    using sample_marshal [of e 613 "m\<lparr>ct_MessageId := 5\<rparr>"] assms(1) by auto
  then show ?thesis
    using assms(2,3)
    by (simp add: sendRequest_def getE_def andThen_def outcome_def nextID_def modE_def Let_def arm_request_def clockNow_def whenA_def ret_def
        retryDelayForOutstanding_def retryDelayCapped_def sample_env_def split: prod.splits)
qed

lemma observeRTT_result: "\<exists>d x w'. observeRTT env (e, w) = ((e\<lparr>eg_srtt := d, eg_pmtu := x\<rparr>, w'), Inr ())"
proof -
  obtain w' now where c: "ev_Now env w = (w', now)" by (cases "ev_Now env w")
  have same: "e\<lparr>eg_srtt := eg_srtt e, eg_pmtu := eg_pmtu e\<rparr> = e" by simp
  have "observeRTT env (e, w) = ((e, w), Inr ()) \<or> observeRTT env (e, w) = ((e, w'), Inr ()) \<or>
      (\<exists>d x. observeRTT env (e, w) = ((e\<lparr>eg_srtt := d, eg_pmtu := x\<rparr>, w'), Inr ()))"
    unfolding observeRTT_def getE_def fst_conv Let_def by (auto simp: ret_def andThen_def clockNow_def c whenA_def modE_def)
  then show ?thesis using same by metis
qed

lemma sample_probed:
  obtains e w where "fst (HandleInbound sample_env (sample_frame 6) sample_pinged) = (e, w)"
    and "oq_initialized (eg_outstanding e)" and "oq_kind (eg_outstanding e) = requestBaseProbe" and "oq_messageID (eg_outstanding e) = 5"
    and "oq_probeSize (eg_outstanding e) = 613" and "eg_started e" and "eg_localEpoch e = 1" and "\<not> eg_terminalError e"
    and "ss_flags (eg_state e) = 63" and "ss_localEpoch (eg_state e) = 1" and "ss_config (eg_state e) = sample_state_config"
    and "MaxFrameSize (eg_codec e) = 1400"
proof -
  obtain e w where p: "sample_pinged = (e, w)" by (cases sample_pinged)
  note facts = sample_pinged_facts [unfolded p fst_conv Let_def]
  define m where "m = \<lparr>ct_MessageId = 50, ct_ReplyTo = 4, ct_ControlEpoch = 1, ct_Padding = None, ct_Body = Some (BodyPong \<lparr>po_Sequence = 1\<rparr>)\<rparr>"
  have msg: "ev_Unmarshal sample_env [6] = Some m" by (simp add: sample_env_def sample_message_def peer_reply_def m_def)
  have parse: "Codec_Parse (eg_codec e) (sample_frame 6) = Inr [6]"
    using facts by (simp add: Codec_Parse_Inr sample_frame_def control_frame_def MaxFrameSize_def)
  let ?s = "(eg_state e)\<lparr>ss_flags := 63\<rparr>"
  have observe: "ObservePong (eg_state e) (Some m) 4 1 = (?s, RESULT_CODE_ACCEPTED)"
    using facts by (simp add: ObservePong_def m_def GetPong_def GetBody_def GetPadding_def validResponse_def GetMessageId_def GetReplyTo_def
        GetControlEpoch_def sample_flags)
  obtain e1 w1 where rtt: "observeRTT sample_env (e\<lparr>eg_state := ?s\<rparr>, w) = ((e1, w1), Inr ())" "eg_state e1 = ?s" "eg_base e1 = 613"
      "eg_codec e1 = eg_codec e" "eg_started e1" "eg_localEpoch e1 = 1" "\<not> eg_terminalError e1" "eg_localMessageID e1 = 4"
    using facts observeRTT_result [of sample_env "e\<lparr>eg_state := ?s\<rparr>" w] by auto
  let ?e2 = "e1\<lparr>eg_outstanding := no_request\<rparr>"
  have "progress sample_env (?e2, w1) =
      sendRequest sample_env requestBaseProbe (buildControl 0 0 1 BodyMtuProbe) 0 613 (?e2, w1)"
    unfolding progress_def getE_def fst_conv using rtt by (simp add: sample_flags ReadyFlags_def no_request_def)
  moreover have "handlePong sample_env m (e, w) = progress sample_env (?e2, w1)"
    unfolding handlePong_def requireResponse_def getE_def fst_conv using facts observe rtt(1)
    by (simp add: andThen_def getE_def ret_def onState_def m_def modE_def)
  moreover have "HandleInbound sample_env (sample_frame 6) (e, w) = handlePong sample_env m (e, w)"
    unfolding HandleInbound_def handle_message_def getE_def fst_conv parse sum.case msg option.case using facts
    by (simp add: m_def controlBodyUnset_def GetPadding_def GetCapabilitiesHello_def GetBody_def resetReplayKeyFor_def GetResetSequence_def
        dispatch_def)
  ultimately show ?thesis
    using that sample_base_request [of ?e2 "buildControl 0 0 1 BodyMtuProbe" w1] rtt facts p by auto
qed

definition sample_ops :: "byte list \<Rightarrow> engine_op list" where
  "sample_ops ns = DoStart # map (\<lambda>n. DoInbound (sample_frame n)) ns"

lemma run_append: "fst (engine_run env p (ops @ ops')) = fst (engine_run env (fst (engine_run env p ops)) ops')"
  by (induction ops arbitrary: p) (simp_all add: split_beta)

lemma sample_run_open: "Engine_DataSendAllowed (fst (fst (engine_run sample_env (sample_engine, (1, 0)) (sample_ops [1, 2, 3, 4, 5, 6, 7]))))"
proof -
  obtain e w where e: "fst (HandleInbound sample_env (sample_frame 6) sample_pinged) = (e, w)"
    and facts: "oq_initialized (eg_outstanding e)" "oq_kind (eg_outstanding e) = requestBaseProbe" "oq_messageID (eg_outstanding e) = 5"
      "oq_probeSize (eg_outstanding e) = 613" "eg_started e" "eg_localEpoch e = 1" "\<not> eg_terminalError e"
      "ss_flags (eg_state e) = 63" "ss_localEpoch (eg_state e) = 1" "ss_config (eg_state e) = sample_state_config"
      "MaxFrameSize (eg_codec e) = 1400"
    by (rule sample_probed)
  have m: "sample_message 7 = Some \<lparr>ct_MessageId = 50, ct_ReplyTo = 5, ct_ControlEpoch = 1, ct_Padding = None,
      ct_Body = Some (BodyMtuProbeAck \<lparr>pa_ReceivedProbePayloadSize = 613\<rparr>)\<rparr>" by (simp add: sample_message_def peer_reply_def)
  have "Codec_Parse (eg_codec e) (sample_frame 7) = Inr [7]"
    using facts(11) by (simp add: Codec_Parse_Inr sample_frame_def control_frame_def MaxFrameSize_def)
  then have decode: "decoded sample_env e (sample_frame 7) = sample_message 7" by (simp add: decoded_def sample_env_def)
  obtain q r where run: "HandleInbound sample_env (sample_frame 7) (e, w) = (q, r)" by (cases "HandleInbound sample_env (sample_frame 7) (e, w)")
  have "Engine_DataSendAllowed (fst q)"
    by (rule base_ack_opens [where a = "\<lparr>pa_ReceivedProbePayloadSize = 613\<rparr> :: MtuProbeAck", OF decode [unfolded m] _ _ _ _ _ _ _ _ _ _ _ _ _ _ _ run])
       (use facts in \<open>simp_all add: sample_flags sample_state_config_def\<close>)
  moreover have "sample_ops [1, 2, 3, 4, 5, 6, 7] =
      (DoStart # map (\<lambda>n. DoInbound (sample_frame n)) [1, 2, 3, 4, 5]) @ [DoInbound (sample_frame 6), DoInbound (sample_frame 7)]"
    by (simp add: sample_ops_def)
  ultimately show ?thesis
    using e run by (simp only: run_append sample_pinged_def [symmetric]) (simp add: split_beta)
qed

subsection \<open>Examples\<close>


theorem engine_data_open_witness:
  "case engine_run sample_env (sample_engine, (1, 0)) (sample_ops [1, 2, 3, 4, 5, 6, 7]) of
     ((e, _), _) \<Rightarrow> Engine_DataSendAllowed e \<and> 613 \<le> ConfirmedCarrierPayload e \<and> ConfirmedCarrierPayload e \<le> 1400"
proof -
  obtain e w rs where run: "engine_run sample_env (sample_engine, (1, 0)) (sample_ops [1, 2, 3, 4, 5, 6, 7]) = ((e, w), rs)"
    by (metis surj_pair)
  have allowed: "Engine_DataSendAllowed e" using sample_run_open by (simp add: run)
  have "st_MinCarrierPayload sample_state_config = 613" "st_MaxCarrierPayload sample_state_config = 1400"
    by (simp_all add: sample_state_config_def)
  then show ?thesis using engine_data_open [OF sample_engine_new run allowed] allowed by (simp add: run)
qed

text \<open>A reset, two other calls, and the reset again.\<close>

definition sample_reset_run :: "((Engine \<times> gotime \<times> u64) \<times> (unit engine_error + Outbound list)) \<times> (Engine \<times> gotime \<times> u64)" where
  "sample_reset_run =
     (let first = HandleInbound sample_env (sample_frame 8) (fst (engine_run sample_env (sample_engine, (1, 0)) (sample_ops [1]))) in
      (first, fst (engine_run sample_env (fst first) [DoTick 5, DoUnknownSession 3])))"

lemma sample_reset_facts:
  "(let e = fst (fst (engine_run sample_env (sample_engine, (1, 0)) (sample_ops [1]))) in
    decoded sample_env e (sample_frame 8) = sample_message 8 \<and> lookupResetReplay e \<lparr>yk_epoch = 77, yk_message = 3, yk_kind = requestReset\<rparr> = None) \<and>
   (case sample_reset_run of ((p, r), q) \<Rightarrow> r = Inr [[0, 0, 1, 0]] \<and> eg_remoteEpoch (fst q) = eg_remoteEpoch (fst p))"
  by code_simp

theorem reset_retransmission_witness:
  "case sample_reset_run of ((_, r), q) \<Rightarrow> r = Inr [[0, 0, 1, 0]] \<and> HandleInbound sample_env (sample_frame 8) q = (q, r)"
proof -
  obtain e w rs where r0: "engine_run sample_env (sample_engine, (1, 0)) (sample_ops [1]) = ((e, w), rs)" by (metis surj_pair)
  obtain e1 w1 r where r1: "HandleInbound sample_env (sample_frame 8) (e, w) = ((e1, w1), r)" by (metis surj_pair)
  obtain e2 w2 rs2 where r2: "engine_run sample_env (e1, w1) [DoTick 5, DoUnknownSession 3] = ((e2, w2), rs2)" by (metis surj_pair)
  have run: "sample_reset_run = ((((e1, w1), r), (e2, w2)))" by (simp add: sample_reset_run_def Let_def r0 r1 r2 del: engine_run.simps)
  have m: "sample_message 8 = Some \<lparr>ct_MessageId = 3, ct_ReplyTo = 0, ct_ControlEpoch = 77, ct_Padding = None,
      ct_Body = Some (BodyResetSequence \<lparr>rq_DataSessionId = 9\<rparr>)\<rparr>" by (simp add: sample_message_def peer_request_def)
  note facts = sample_reset_facts [unfolded run r0 fst_conv Let_def prod.case]
  have "HandleInbound sample_env (sample_frame 8) (e2, w2) = ((e2, w2), Inr [[0, 0, 1, 0]])"
    by (rule reset_retransmission [OF sample_engine_new r0, where m = "the (sample_message 8)" and
          key = "\<lparr>yk_epoch = 77, yk_message = 3, yk_kind = requestReset\<rparr>" and ops = "[DoTick 5, DoUnknownSession 3]"])
       (use facts r1 r2 m in \<open>simp_all add: reset_body\<close>)
  then show ?thesis unfolding run prod.case using facts by simp
qed

end
