(* ===== verification/Spec2Isabelle.thy ===== *)
theory Spec2Isabelle
  imports Packetizer InnerIP Lane ReassemblyRun ReorderRun PeerRouteCorrect PmtuSearch ReceiverRun EndToEnd ControlFrame Icmp ControlStateCorrect EngineCorrect
begin

text \<open>
  A verification library for wg-frag-go, a userspace WireGuard shim.  It carries each inner IP packet in up to sixteen
  DATA records, packs records into carrier payloads below the path MTU, reassembles and reorders them on the
  other side, and opens DATA only after a control exchange with the peer.

  \<^bold>\<open>The program and how its parts interact.\<close>  The outbound path is \<^verbatim>\<open>internal/core/datapath/sender.go\<close>: an inner
  packet is checked (\<^verbatim>\<open>innerip\<close>), routed by AllowedIPs (\<^verbatim>\<open>peerroute\<close>), put on a lane (\<^verbatim>\<open>lane\<close>), numbered,
  cut into fragments (\<^verbatim>\<open>fragment\<close>, \<^verbatim>\<open>packing\<close>), and written as records (\<^verbatim>\<open>carrier\<close>) into carrier
  payloads (\<^verbatim>\<open>packetizer\<close>).  The inbound path is \<^verbatim>\<open>receiver.go\<close>: records are parsed, put together
  (\<^verbatim>\<open>reassembly\<close>), brought back in order per lane (\<^verbatim>\<open>reorder\<close>), and handed to a sink if their source
  belongs to the peer.  The control path is \<^verbatim>\<open>internal/controlplane/engine.go\<close>: CONTROL frames (\<^verbatim>\<open>control\<close>)
  drive the gates and sessions of \<^verbatim>\<open>control/state\<close> and the path MTU search of \<^verbatim>\<open>pmtu\<close>.  \<^verbatim>\<open>icmp\<close> answers
  packets that are too big.

  \<^bold>\<open>Conventions.\<close>  Names are those of the source; a method \<^verbatim>\<open>T.M\<close> whose name clashes is \<open>T_M\<close>, and record fields
  carry a prefix.  A struct is a record, an error a constructor of an error type and an outcome a sum or an
  option, \<^verbatim>\<open>uintN\<close> an \<open>N word\<close> with its wrap-around, an instant an \<open>int\<close> of nanoseconds with 0 for the zero
  time.  Operations take the state and return it.  Sinks, emitters, hashes, clocks, entropy and the protobuf
  library are parameters.  The loops and panics the code could run into are \<open>None\<close> or an error of their
  own, and are proved not to happen.

  \<^bold>\<open>Shared theories.\<close>
  \<^item> \<open>Prelude\<close>: machine types, slices, big-endian integers, time.
  \<^item> \<open>Netip\<close>: the part of \<^verbatim>\<open>net/netip\<close> the sources use.

  \<^bold>\<open>The data path.\<close>
  \<^item> \<open>Packing\<close>: \<^verbatim>\<open>limits/limits.go\<close>, \<^verbatim>\<open>packing/plan.go\<close>.
  \<^item> \<open>Carrier\<close>: \<^verbatim>\<open>carrier/record.go\<close> and \<^verbatim>\<open>envelope.go\<close>; round trips, and exactly which payloads are accepted.
  \<^item> \<open>Fragment\<close>: \<^verbatim>\<open>fragment/fragment.go\<close>; the fragments are a numbered cut of the packet, and splitting never fails
    on a packet of a validated configuration.
  \<^item> \<open>Packetizer\<close>: \<^verbatim>\<open>packetizer/packetizer.go\<close>; records are neither lost nor repeated nor reordered, and no descriptor
    keeps the caller's packet.
  \<^item> \<open>InnerIP\<close>, \<open>Lane\<close>: \<^verbatim>\<open>innerip/fragment.go\<close>, \<^verbatim>\<open>lane/lane.go\<close>; exactly the well-formed datagrams are accepted, and a
    flow stays on its lane.
  \<^item> \<open>PeerRoute\<close>, \<open>PeerRouteTrie\<close>, \<open>PeerRouteCorrect\<close>: \<^verbatim>\<open>peerroute/allowedips.go\<close> and \<^verbatim>\<open>carrier_address.go\<close>; the node slice
    refines a map from prefixes (locale \<open>route_map\<close>), lookup is longest-prefix matching, and the hidden
    addresses are distinct.
  \<^item> \<open>KeyIndex\<close>, \<open>Reassembly\<close>, \<open>ReassemblyInv\<close>, \<open>ReassemblyOps\<close>, \<open>ReassemblyCorrect\<close>, \<open>ReassemblyRun\<close>, \<open>ReassemblyDone\<close>:
    \<^verbatim>\<open>reassembly/reassembly.go\<close>; the open-address index is exact (locale \<open>key_index\<close>), slots, free list and peer
    counters agree in every reachable state, fragments in any order give back the packet once, and a
    completed packet is untouched until it is released (locale \<open>packet_store\<close>).
  \<^item> \<open>Reorder\<close>, \<open>ReorderRun\<close>: \<^verbatim>\<open>reorder/reorder.go\<close>; delivery in serial number order across the wrap-around, without loss
    or repetition, with a bounded wait.
  \<^item> \<open>Sender\<close>, \<open>SenderCorrect\<close>: \<^verbatim>\<open>datapath/sender.go\<close>; the emitted stream is exactly the fragments of the admitted packets,
    and a number of a lane is reused only after its lifetime.
  \<^item> \<open>Receiver\<close>, \<open>ReceiverInv\<close>, \<open>ReceiverRun\<close>: \<^verbatim>\<open>datapath/receiver.go\<close>, \<^verbatim>\<open>classify.go\<close>; the completed slots are at every
    moment the packets waiting in the lanes, so no slot leaks and no internal error is taken.
  \<^item> \<open>EndToEnd\<close>: a sender composed with a receiver is the identity on the admitted packets.
  \<^item> \<open>Icmp\<close>: \<^verbatim>\<open>icmp/ptb.go\<close>; which packets are answered, and that the answer is a valid ICMP error.

  \<^bold>\<open>The control path.\<close>
  \<^item> \<open>Pmtu\<close>, \<open>PmtuInv\<close>, \<open>PmtuSearch\<close>: \<^verbatim>\<open>pmtu/pmtu.go\<close>, \<^verbatim>\<open>wgadapter/pmtu.go\<close>; sizes stay between BASE and the ceiling, no call
    panics, and on a path with a fixed limit the search ends with the largest representable size, for both
    canonicalizers of the code (locale \<open>payload_canonicalizer\<close>).
  \<^item> \<open>ControlFrame\<close>, \<open>ControlMessage\<close>: \<^verbatim>\<open>control/frame.go\<close>, \<^verbatim>\<open>proto/wire/v1/control.proto\<close>; the frame codec is exact, and no
    payload is both CONTROL and DATA.
  \<^item> \<open>Expiry\<close>: \<^verbatim>\<open>control/state/expiry.go\<close>; the heap with its index refines a bounded map (locale \<open>deadline_set\<close>).
  \<^item> \<open>ControlState\<close>, \<open>ControlStateInv\<close>, \<open>ControlStateRun\<close>, \<open>ControlStateCorrect\<close>: \<^verbatim>\<open>control/state/state.go\<close>; what DATA being
    open means and which messages it rests on, that numbers given up stay out for their lifetime (locale
    \<open>number_register\<close>, interpreted for both sessions and for the epoch of the peer), the spacing of synchronisation
    requests, and the backoff of restarts.
  \<^item> \<open>Engine\<close>, \<open>EngineInv\<close>, \<open>EngineRun\<close>, \<open>EngineCorrect\<close>: \<^verbatim>\<open>controlplane/engine.go\<close>.  A method is an action on the engine and
    the world, built from a few combinators; \<open>EngineInv\<close> has a rule per combinator (\<open>triple\<close>) and one lemma per
    method, \<open>EngineRun\<close> what a method leaves alone (\<open>framed\<close>, locale \<open>search_frame\<close>).  Over all orders of calls: no call
    panics, DATA is open only with an agreement and a confirmed size in range, a repeated reset gets its
    first answer, and a probe is as long as its target allows.

  \<^bold>\<open>Fuel and bounds.\<close>  The unbounded loop of \<^verbatim>\<open>deleteKeyPosition\<close> has fuel, and as many rounds as there are cells are
  proved enough.  The exchange of probes with a path has fuel, and a bound on the number of probes is part
  of the theorem.  Everything else is total by structure or by a measure.  Go's \<^verbatim>\<open>int\<close> is unbounded where the
  values stay far below \<open>2 ^ 63\<close>.

  \<^bold>\<open>Not modelled.\<close>
  \<^item> \<^verbatim>\<open>internal/wgadapter\<close> apart from \<^verbatim>\<open>pmtu.go\<close>: the TUN shim, its scheduler and the control bridge are goroutines, channels,
    locks and buffers around the modelled parts; their behaviour is that of the Go scheduler.
  \<^item> \<^verbatim>\<open>internal/platform\<close>, \<^verbatim>\<open>internal/daemonruntime\<close>, \<^verbatim>\<open>internal/quick\<close>, \<^verbatim>\<open>cmd\<close>: sockets, system calls, files, processes.
  \<^item> \<^verbatim>\<open>manager\<close>, \<^verbatim>\<open>controlapi\<close>, \<^verbatim>\<open>internal/controlapi\<close>, \<^verbatim>\<open>internal/controlconfig\<close>: supervision of running interfaces and RPC.
  \<^item> \<^verbatim>\<open>internal/config\<close>: text parsing with the standard parsers for keys, addresses and numbers.
  \<^item> \<^verbatim>\<open>internal/metrics\<close>, \<^verbatim>\<open>internal/memoryplan\<close>, \<^verbatim>\<open>internal/transport\<close>, \<^verbatim>\<open>internal/interfacename\<close>, \<^verbatim>\<open>internal/version\<close>: reports, record
    types and labels beside the two paths.
  \<^item> The generated protobuf code and the protobuf library, whose \<^verbatim>\<open>Marshal\<close>, \<^verbatim>\<open>Size\<close> and \<^verbatim>\<open>Unmarshal\<close> are parameters.
  \<^item> Sharing of byte slices: where the code copies a slice to keep it, the model has the list.
  \<^item> Clock readings inside a callee are taken by the engine at the call, on all branches of the callee.
\<close>

end
